(* ===== verification/Prelude.thy ===== *)
theory Prelude
  imports Main "HOL-Library.Word" "HOL-Library.Monad_Syntax"
begin

text \<open>
  Shared vocabulary of the development: 64-bit addresses, process termination, byte ranges
  and the generic lemmas on lists, options and maps that several components use.

  Addresses and sizes (\<open>uint64_t\<close>, \<open>size_t\<close>) are natural numbers below \<open>2 ^ 64\<close>; where the
  C++ arithmetic can wrap, the model uses \<open>add64\<close> and \<open>sub64\<close>, which wrap as the hardware does.
  Bit patterns are words of the source's width.

  \<open>EXIT\<close>, \<open>EXIT_IF\<close> and \<open>EXIT_NOT_IMPLEMENTED\<close> (src/src/common/assert.h) print and terminate the
  process. A function that can reach one of them has an option type: \<open>None\<close> is a run that does
  not continue (the process exits, or the C++ leaves the behaviour undefined, as on an
  out-of-range array index), \<open>Some\<close> a run that does. Errors that the code returns to its caller
  (error numbers, \<open>false\<close>, null) are ordinary values of the model.
\<close>

named_theorems cover_simps \<open>byte sets covered by range containers\<close>
named_theorems wf_intros \<open>well-formedness of the components' states is preserved\<close>

type_synonym u64 = nat

abbreviation UINT64_MAX :: u64 where
  "UINT64_MAX \<equiv> 18446744073709551615"

definition add64 :: "u64 \<Rightarrow> u64 \<Rightarrow> u64" where
  "add64 a b = (a + b) mod 18446744073709551616"

definition sub64 :: "u64 \<Rightarrow> u64 \<Rightarrow> u64" where
  "sub64 a b = (a + (18446744073709551616 - b mod 18446744073709551616)) mod 18446744073709551616"

lemma add64_nowrap [simp]: "a + b \<le> UINT64_MAX \<Longrightarrow> add64 a b = a + b"
  by (simp add: add64_def)

lemma sub64_nowrap [simp]: "b \<le> a \<Longrightarrow> a \<le> UINT64_MAX \<Longrightarrow> sub64 a b = a - b"
proof -
  assume ba: "b \<le> a" and a: "a \<le> UINT64_MAX"
  then have "b mod 18446744073709551616 = b" by simp
  then have "sub64 a b = ((a - b) + 18446744073709551616) mod 18446744073709551616"
    using ba a by (simp add: sub64_def)
  then show ?thesis using a by simp
qed

definition exit_if :: "bool \<Rightarrow> unit option" where
  "exit_if b = (if b then None else Some ())"

lemma exit_if_simps [simp]: "exit_if True = None" "exit_if False = Some ()"
  by (simp_all add: exit_if_def)

lemma exit_if_eq_Some [simp]: "exit_if b = Some u \<longleftrightarrow> \<not> b"
  by (simp add: exit_if_def)

lemma bind_eq_Some_iff: "Option.bind m f = Some y \<longleftrightarrow> (\<exists>x. m = Some x \<and> f x = Some y)"
  by (cases m) auto

lemma bind_exit_if_Some [simp]: "Option.bind (exit_if b) f = Some y \<longleftrightarrow> \<not> b \<and> f () = Some y"
  by (cases b) auto

text \<open>\<open>VirtualMemory::Mode\<close> (src/src/common/virtualMemory.h): the host protection of a page.\<close>

datatype mode =
  NoAccess | Read | Write | ReadWrite | Execute | ExecuteRead | ExecuteWrite | ExecuteReadWrite

section \<open>Byte ranges\<close>

definition bytes_of :: "u64 \<Rightarrow> u64 \<Rightarrow> u64 set" where
  "bytes_of a n = {a..<a + n}"

lemma mem_bytes_of [simp]: "x \<in> bytes_of a n \<longleftrightarrow> a \<le> x \<and> x < a + n"
  by (simp add: bytes_of_def)

lemma bytes_of_0 [simp]: "bytes_of a 0 = {}"
  by (simp add: bytes_of_def)

lemma finite_bytes_of [simp]: "finite (bytes_of a n)"
  by (simp add: bytes_of_def)

lemma card_bytes_of [simp]: "card (bytes_of a n) = n"
  by (simp add: bytes_of_def)

lemma bytes_of_inter_empty:
  "bytes_of a n \<inter> bytes_of b k = {} \<longleftrightarrow> n = 0 \<or> k = 0 \<or> a + n \<le> b \<or> b + k \<le> a"
proof
  assume *: "bytes_of a n \<inter> bytes_of b k = {}"
  show "n = 0 \<or> k = 0 \<or> a + n \<le> b \<or> b + k \<le> a"
  proof (rule ccontr)
    assume "\<not> ?thesis"
    then have "max a b \<in> bytes_of a n \<inter> bytes_of b k" by auto
    with * show False by blast
  qed
qed auto

section \<open>Splitting a list at the first element that fails a test\<close>

lemma in_set_butlast_or_last: "x \<in> set xs \<Longrightarrow> x \<in> set (butlast xs) \<or> x = last xs"
  by (induction xs) (auto split: if_splits)

lemma in_takeWhileD: "x \<in> set (takeWhile P xs) \<Longrightarrow> P x \<and> x \<in> set xs"
  by (auto dest: set_takeWhileD)

end
