(* ===== verification/StdMap.thy ===== *)
theory StdMap
  imports Prelude
begin

text \<open>
  The part of \<open>std::map<uint64_t, T>\<close> that the sources use: an association list in ascending
  order of its keys. An iterator is a split of the list, \<open>before_lb\<close>/\<open>from_lb\<close> for
  \<open>lower_bound\<close> and \<open>before_ub\<close>/\<open>from_ub\<close> for \<open>upper_bound\<close>; \<open>std::prev(it)\<close> is the last
  entry of the first part.

  The second half is about maps that hold disjoint intervals, keyed by their start and mapped
  to their exclusive end: which bytes they cover, and merging a run of them into one.
\<close>

type_synonym 'v smap = "(u64 \<times> 'v) list"

definition smap_ok :: "'v smap \<Rightarrow> bool" where
  "smap_ok m \<longleftrightarrow> sorted_wrt (<) (map fst m)"

definition before_lb :: "u64 \<Rightarrow> 'v smap \<Rightarrow> 'v smap" where
  "before_lb k m = takeWhile (\<lambda>e. fst e < k) m"

definition from_lb :: "u64 \<Rightarrow> 'v smap \<Rightarrow> 'v smap" where
  "from_lb k m = dropWhile (\<lambda>e. fst e < k) m"

definition before_ub :: "u64 \<Rightarrow> 'v smap \<Rightarrow> 'v smap" where
  "before_ub k m = takeWhile (\<lambda>e. fst e \<le> k) m"

definition from_ub :: "u64 \<Rightarrow> 'v smap \<Rightarrow> 'v smap" where
  "from_ub k m = dropWhile (\<lambda>e. fst e \<le> k) m"

text \<open>\<open>emplace\<close> keeps an entry that is already there; \<open>insert_or_assign\<close> overwrites it.\<close>

fun emplace :: "u64 \<Rightarrow> 'v \<Rightarrow> 'v smap \<Rightarrow> 'v smap" where
  "emplace k v [] = [(k, v)]"
| "emplace k v ((x, y) # m) =
     (if k < x then (k, v) # (x, y) # m else if k = x then (x, y) # m else (x, y) # emplace k v m)"

definition erase_key :: "u64 \<Rightarrow> 'v smap \<Rightarrow> 'v smap" where
  "erase_key k m = filter (\<lambda>e. fst e \<noteq> k) m"

lemma smap_ok_Nil [simp]: "smap_ok []"
  by (simp add: smap_ok_def)

lemma smap_ok_Cons: "smap_ok (e # m) \<longleftrightarrow> (\<forall>x\<in>set m. fst e < fst x) \<and> smap_ok m"
  by (simp add: smap_ok_def)

lemma smap_ok_append:
  "smap_ok (m1 @ m2) \<longleftrightarrow> smap_ok m1 \<and> smap_ok m2 \<and> (\<forall>x\<in>set m1. \<forall>y\<in>set m2. fst x < fst y)"
  by (simp add: smap_ok_def sorted_wrt_append)

lemma lb_split: "before_lb k m @ from_lb k m = m"
  by (simp add: before_lb_def from_lb_def)

lemma ub_split: "before_ub k m @ from_ub k m = m"
  by (simp add: before_ub_def from_ub_def)

lemma before_lb_less: "e \<in> set (before_lb k m) \<Longrightarrow> fst e < k"
  by (auto simp: before_lb_def dest: in_takeWhileD)

lemma before_ub_le: "e \<in> set (before_ub k m) \<Longrightarrow> fst e \<le> k"
  by (auto simp: before_ub_def dest: in_takeWhileD)

lemma from_lb_ge: "smap_ok m \<Longrightarrow> e \<in> set (from_lb k m) \<Longrightarrow> k \<le> fst e"
  by (induction m) (fastforce simp: from_lb_def smap_ok_Cons split: if_splits)+

lemma from_ub_gt: "smap_ok m \<Longrightarrow> e \<in> set (from_ub k m) \<Longrightarrow> k < fst e"
  by (induction m) (fastforce simp: from_ub_def smap_ok_Cons split: if_splits)+

lemma smap_ok_split: "smap_ok m \<Longrightarrow> smap_ok (before_lb k m) \<and> smap_ok (from_lb k m)"
  using lb_split [of k m] by (metis smap_ok_append)

lemma smap_ok_split_ub: "smap_ok m \<Longrightarrow> smap_ok (before_ub k m) \<and> smap_ok (from_ub k m)"
  using ub_split [of k m] by (metis smap_ok_append)

lemma emplace_between:
  "(\<forall>e\<in>set m1. fst e < k) \<Longrightarrow> (\<forall>e\<in>set m2. k < fst e) \<Longrightarrow> emplace k v (m1 @ m2) = m1 @ (k, v) # m2"
proof (induction m1)
  case Nil
  then show ?case by (cases m2) auto
next
  case (Cons e m1)
  then show ?case by (cases e) auto
qed

lemma set_emplace_subset: "set (emplace k v m) \<subseteq> insert (k, v) (set m)"
  by (induction k v m rule: emplace.induct) auto

lemma set_emplace: "k \<notin> fst ` set m \<Longrightarrow> set (emplace k v m) = insert (k, v) (set m)"
  by (induction k v m rule: emplace.induct) (auto split: if_splits)

lemma smap_ok_emplace [wf_intros]: "smap_ok m \<Longrightarrow> smap_ok (emplace k v m)"
proof (induction k v m rule: emplace.induct)
  case (2 k v x y m)
  then show ?case using set_emplace_subset [of k v m] by (auto simp: smap_ok_Cons)
qed (simp add: smap_ok_Cons)

lemma smap_ok_erase_key [wf_intros]: "smap_ok m \<Longrightarrow> smap_ok (erase_key k m)"
  by (induction m) (auto simp: smap_ok_Cons erase_key_def)

lemma smap_ok_keys_unique: "smap_ok m \<Longrightarrow> (k, v) \<in> set m \<Longrightarrow> (k, w) \<in> set m \<Longrightarrow> v = w"
  by (induction m) (force simp: smap_ok_Cons)+

lemma map_of_eq_Some_smap: "smap_ok m \<Longrightarrow> map_of m k = Some v \<longleftrightarrow> (k, v) \<in> set m"
  by (simp add: smap_ok_def strict_sorted_iff)

section \<open>Maps of disjoint intervals\<close>

definition ivs_cover :: "u64 smap \<Rightarrow> u64 set" where
  "ivs_cover m = (\<Union>e\<in>set m. {fst e..<snd e})"

definition ivs_ok :: "u64 smap \<Rightarrow> bool" where
  "ivs_ok m \<longleftrightarrow> (\<forall>e\<in>set m. fst e < snd e) \<and> sorted_wrt (\<lambda>x y. snd x < fst y) m"

lemma ivs_ok_Nil [simp]: "ivs_ok []"
  by (simp add: ivs_ok_def)

lemma ivs_ok_Cons:
  "ivs_ok (e # m) \<longleftrightarrow> fst e < snd e \<and> (\<forall>x\<in>set m. snd e < fst x) \<and> ivs_ok m"
  by (auto simp: ivs_ok_def)

lemma ivs_ok_append:
  "ivs_ok (m1 @ m2) \<longleftrightarrow> ivs_ok m1 \<and> ivs_ok m2 \<and> (\<forall>x\<in>set m1. \<forall>y\<in>set m2. snd x < fst y)"
  by (auto simp: ivs_ok_def sorted_wrt_append)

lemma ivs_ok_smap_ok: "ivs_ok m \<Longrightarrow> smap_ok m"
  by (induction m) (fastforce simp: ivs_ok_Cons smap_ok_Cons)+

lemma ivs_ok_nonempty: "ivs_ok m \<Longrightarrow> e \<in> set m \<Longrightarrow> fst e < snd e"
  by (auto simp: ivs_ok_def)

lemma ivs_ok_lb: "ivs_ok m \<Longrightarrow> ivs_ok (before_lb k m) \<and> ivs_ok (from_lb k m)"
  using lb_split [of k m] by (metis ivs_ok_append)

lemma ivs_ok_ub: "ivs_ok m \<Longrightarrow> ivs_ok (before_ub k m) \<and> ivs_ok (from_ub k m)"
  using ub_split [of k m] by (metis ivs_ok_append)

lemma ivs_cover_Nil [simp, cover_simps]: "ivs_cover [] = {}"
  by (simp add: ivs_cover_def)

lemma ivs_cover_Cons [simp, cover_simps]: "ivs_cover (e # m) = {fst e..<snd e} \<union> ivs_cover m"
  by (simp add: ivs_cover_def)

lemma ivs_cover_append [simp, cover_simps]: "ivs_cover (m1 @ m2) = ivs_cover m1 \<union> ivs_cover m2"
  by (auto simp: ivs_cover_def)

lemma ivs_cover_empty_iff: "ivs_ok m \<Longrightarrow> ivs_cover m = {} \<longleftrightarrow> m = []"
  by (cases m) (auto simp: ivs_ok_Cons)

lemma mem_ivs_cover: "x \<in> ivs_cover m \<longleftrightarrow> (\<exists>e\<in>set m. fst e \<le> x \<and> x < snd e)"
  by (auto simp: ivs_cover_def)

lemma ivs_cover_lb: "ivs_cover m = ivs_cover (before_lb k m) \<union> ivs_cover (from_lb k m)"
  by (metis ivs_cover_append lb_split)

lemma ivs_cover_ub: "ivs_cover m = ivs_cover (before_ub k m) \<union> ivs_cover (from_ub k m)"
  by (metis ivs_cover_append ub_split)

lemma ivs_ok_separated:
  "ivs_ok m \<Longrightarrow> e \<in> set m \<Longrightarrow> f \<in> set m \<Longrightarrow> e = f \<or> snd e < fst f \<or> snd f < fst e"
  by (induction m) (auto simp: ivs_ok_Cons)

lemma before_lb_ends:
  assumes "ivs_ok m" and "e \<in> set (butlast (before_lb k m))"
  shows "snd e < fst (last (before_lb k m))"
proof -
  have ne: "before_lb k m \<noteq> []" using assms(2) by auto
  then have eq: "before_lb k m = butlast (before_lb k m) @ [last (before_lb k m)]" by simp
  have "ivs_ok (butlast (before_lb k m) @ [last (before_lb k m)])"
    using assms(1) ivs_ok_lb [of m k] eq by simp
  then show ?thesis using assms(2) by (simp add: ivs_ok_append)
qed

text \<open>
  The merging loop: entries that start no later than the end of the range being built are
  removed from the map and swallowed by it.
\<close>

fun absorb :: "u64 \<Rightarrow> u64 \<Rightarrow> u64 smap \<Rightarrow> u64 \<times> u64 \<times> u64 smap" where
  "absorb b l [] = (b, l, [])"
| "absorb b l ((x, y) # m) =
     (if x \<le> l then absorb (min b x) (max l y) m else (b, l, (x, y) # m))"

lemma absorb_spec:
  assumes "absorb b l m = (b', l', r)" and "ivs_ok m" and "b < l" and "\<forall>e\<in>set m. b \<le> snd e"
  shows "b' < l'" and "b' \<le> b" and "l \<le> l'"
    and "{b'..<l'} \<union> ivs_cover r = {b..<l} \<union> ivs_cover m"
    and "ivs_ok r" and "\<forall>e\<in>set r. l' < fst e"
    and "b' = b \<or> (\<exists>e\<in>set m. fst e = b')" and "l' = l \<or> (\<exists>e\<in>set m. snd e = l')"
proof -
  have "b' < l' \<and> b' \<le> b \<and> l \<le> l' \<and> {b'..<l'} \<union> ivs_cover r = {b..<l} \<union> ivs_cover m \<and> ivs_ok r
    \<and> (\<forall>e\<in>set r. l' < fst e) \<and> (b' = b \<or> (\<exists>e\<in>set m. fst e = b'))
    \<and> (l' = l \<or> (\<exists>e\<in>set m. snd e = l'))"
    using assms
  proof (induction b l m rule: absorb.induct)
    case (2 b l x y m)
    show ?case
    proof (cases "x \<le> l")
      case True
      have ok: "x < y" "\<forall>e\<in>set m. y < fst e" "ivs_ok m" "b \<le> y"
        using "2.prems" by (auto simp: ivs_ok_Cons)
      have ne: "\<forall>e\<in>set m. fst e < snd e" using ok(3) by (auto simp: ivs_ok_def)
      have lt: "min b x < max l y" using "2.prems"(3) by auto
      have ge: "\<forall>e\<in>set m. min b x \<le> snd e" using ok ne by (meson less_imp_le min.coboundedI2 order.trans)
      have eq: "absorb (min b x) (max l y) m = (b', l', r)" using "2.prems"(1) True by simp
      note IH = "2.IH" [OF True eq ok(3) lt ge]
      have un: "{min b x..<max l y} = {b..<l} \<union> {x..<y}"
        using True ok "2.prems"(3) by auto
      have "{b'..<l'} \<union> ivs_cover r = {b..<l} \<union> ivs_cover ((x, y) # m)"
        using IH un by auto
      then show ?thesis using IH by (auto simp: min_def max_def split: if_splits)
    next
      case False
      then show ?thesis using "2.prems" by (fastforce simp: ivs_ok_Cons)
    qed
  qed auto
  then show "b' < l'" and "b' \<le> b" and "l \<le> l'"
    and "{b'..<l'} \<union> ivs_cover r = {b..<l} \<union> ivs_cover m"
    and "ivs_ok r" and "\<forall>e\<in>set r. l' < fst e"
    and "b' = b \<or> (\<exists>e\<in>set m. fst e = b')" and "l' = l \<or> (\<exists>e\<in>set m. snd e = l')" by auto
qed

end
