(* ===== verification/ByteStore.thy ===== *)
theory ByteStore
  imports StdMap
begin

text \<open>
  The contract of a container of byte ranges. Four classes of the program keep one: the GPU
  caches' \<open>RangeSet\<close> and the free lists of \<open>PhysicalMemory\<close>, \<open>FlexibleMemory\<close> and
  \<open>PooledMemory\<close>. A container covers a set of bytes; giving it a range adds the range's bytes.
  A \<open>byte_set\<close> can also take a range away. What the clients do with a container (returning all
  the pieces of a mapping, cancelling an addition) is proved here once.
\<close>

fun fold_opt :: "('a \<Rightarrow> 's \<Rightarrow> 's option) \<Rightarrow> 'a list \<Rightarrow> 's \<Rightarrow> 's option" where
  "fold_opt f [] s = Some s"
| "fold_opt f (x # xs) s = Option.bind (f x s) (fold_opt f xs)"

definition pieces_cover :: "(u64 \<times> u64) list \<Rightarrow> u64 set" where
  "pieces_cover ps = (\<Union>p\<in>set ps. bytes_of (fst p) (snd p))"

lemma pieces_cover_simps [simp]:
  "pieces_cover [] = {}" "pieces_cover (p # ps) = bytes_of (fst p) (snd p) \<union> pieces_cover ps"
  "pieces_cover (ps @ qs) = pieces_cover ps \<union> pieces_cover qs"
  by (auto simp: pieces_cover_def)

locale byte_pool =
  fixes cover :: "'s \<Rightarrow> u64 set"
    and inv :: "'s \<Rightarrow> bool"
    and fits :: "u64 \<Rightarrow> u64 \<Rightarrow> bool"
    and give :: "u64 \<Rightarrow> u64 \<Rightarrow> 's \<Rightarrow> 's option"
  assumes give_total:
    "inv s \<Longrightarrow> fits a n \<Longrightarrow>
     \<exists>s'. give a n s = Some s' \<and> inv s' \<and> cover s' = cover s \<union> bytes_of a n"
begin

lemma give_cover: "inv s \<Longrightarrow> fits a n \<Longrightarrow> give a n s = Some s' \<Longrightarrow> cover s' = cover s \<union> bytes_of a n"
  using give_total by fastforce

lemma give_inv: "inv s \<Longrightarrow> fits a n \<Longrightarrow> give a n s = Some s' \<Longrightarrow> inv s'"
  using give_total by fastforce

lemma give_all:
  assumes "inv s" and "\<forall>p\<in>set ps. fits (fst p) (snd p)"
  shows "\<exists>s'. fold_opt (\<lambda>p. give (fst p) (snd p)) ps s = Some s' \<and> inv s'
    \<and> cover s' = cover s \<union> pieces_cover ps"
  using assms
proof (induction ps arbitrary: s)
  case (Cons p ps)
  then obtain s1 where "give (fst p) (snd p) s = Some s1" "inv s1"
    "cover s1 = cover s \<union> bytes_of (fst p) (snd p)"
    using give_total [of s "fst p" "snd p"] by auto
  moreover from this Cons obtain s2 where "fold_opt (\<lambda>p. give (fst p) (snd p)) ps s1 = Some s2"
    "inv s2" "cover s2 = cover s1 \<union> pieces_cover ps"
    by fastforce
  ultimately show ?case by auto
qed simp

lemma give_order:
  assumes "inv s" "fits a n" "fits b k" "give a n s = Some s1" "give b k s1 = Some s2"
    and "give b k s = Some t1" "give a n t1 = Some t2"
  shows "cover s2 = cover t2"
proof -
  have "cover s2 = cover s \<union> bytes_of a n \<union> bytes_of b k"
    using give_cover [OF _ assms(3) assms(5)] give_cover [OF assms(1,2,4)] give_inv [OF assms(1,2,4)]
    by simp
  moreover have "cover t2 = cover s \<union> bytes_of b k \<union> bytes_of a n"
    using give_cover [OF _ assms(2) assms(7)] give_cover [OF assms(1,3,6)] give_inv [OF assms(1,3,6)]
    by simp
  ultimately show ?thesis by auto
qed

end

locale byte_set = byte_pool +
  fixes take_away :: "u64 \<Rightarrow> u64 \<Rightarrow> 's \<Rightarrow> 's option"
  assumes take_total:
    "inv s \<Longrightarrow> fits a n \<Longrightarrow>
     \<exists>s'. take_away a n s = Some s' \<and> inv s' \<and> cover s' = cover s - bytes_of a n"
begin

lemma take_after_give:
  assumes "inv s" "fits a n" "cover s \<inter> bytes_of a n = {}"
  shows "\<exists>s1 s2. give a n s = Some s1 \<and> take_away a n s1 = Some s2 \<and> inv s2 \<and> cover s2 = cover s"
proof -
  obtain s1 where 1: "give a n s = Some s1" "inv s1" "cover s1 = cover s \<union> bytes_of a n"
    using assms give_total by blast
  then obtain s2 where "take_away a n s1 = Some s2" "inv s2" "cover s2 = cover s1 - bytes_of a n"
    using assms(2) take_total by blast
  with 1 assms(3) show ?thesis by auto
qed

lemma give_after_take:
  assumes "inv s" "fits a n" "bytes_of a n \<subseteq> cover s"
  shows "\<exists>s1 s2. take_away a n s = Some s1 \<and> give a n s1 = Some s2 \<and> inv s2 \<and> cover s2 = cover s"
proof -
  obtain s1 where 1: "take_away a n s = Some s1" "inv s1" "cover s1 = cover s - bytes_of a n"
    using assms take_total by blast
  then obtain s2 where "give a n s1 = Some s2" "inv s2" "cover s2 = cover s1 \<union> bytes_of a n"
    using assms(2) give_total by blast
  with 1 assms(3) show ?thesis by auto
qed

end

end
