(* ===== verification/RangeSet.thy ===== *)
theory RangeSet
  imports ByteStore
begin

text \<open>
  \<open>RangeSet\<close> (src/src/graphics/host_gpu/rangeSet.h): the GPU caches' record of which guest
  bytes carry GPU-written data, a \<open>std::map\<close> from the start of each range to its exclusive end.
  A range whose address or bytes is zero, or that would wrap, ends the process (\<open>End\<close>).
  The lemmas show that the map stays a list of disjoint, non-adjacent, non-empty ranges and
  that the operations are union, difference, intersection and inclusion of byte sets.
\<close>

type_synonym range_set = "u64 smap"

definition RangeSet_End :: "u64 \<Rightarrow> u64 \<Rightarrow> u64 option" where
  "RangeSet_End address bytes =
     (if address = 0 \<or> bytes = 0 \<or> bytes > sub64 UINT64_MAX address then None
      else Some (add64 address bytes))"

text \<open>\<open>lower_bound\<close>, then one step back when the previous range satisfies the test.\<close>

definition step_back :: "(u64 \<times> u64 \<Rightarrow> bool) \<Rightarrow> range_set \<Rightarrow> range_set \<Rightarrow> range_set \<times> range_set" where
  "step_back t pre it =
     (if pre \<noteq> [] \<and> t (last pre) then (butlast pre, last pre # it) else (pre, it))"

definition RangeSet_Add :: "u64 \<Rightarrow> u64 \<Rightarrow> range_set \<Rightarrow> range_set option" where
  "RangeSet_Add address bytes m = do {
     end \<leftarrow> RangeSet_End address bytes;
     let (pre, it) = step_back (\<lambda>e. snd e \<ge> address) (before_lb address m) (from_lb address m);
     let (begin, fin, rest) = absorb address end it;
     Some (emplace begin fin (pre @ rest))
   }"

text \<open>The loop of \<open>Subtract\<close> over the entries from the iterator on: what it leaves of them.\<close>

fun subtract_loop :: "u64 \<Rightarrow> u64 \<Rightarrow> range_set \<Rightarrow> range_set" where
  "subtract_loop address end [] = []"
| "subtract_loop address end ((begin, fin) # it) =
     (if begin < end then
        (let kept = (if begin < address then [(begin, address)] else []) in
         if fin > end then kept @ (end, fin) # it
         else kept @ subtract_loop address end it)
      else (begin, fin) # it)"

definition RangeSet_Subtract :: "u64 \<Rightarrow> u64 \<Rightarrow> range_set \<Rightarrow> range_set option" where
  "RangeSet_Subtract address bytes m = do {
     end \<leftarrow> RangeSet_End address bytes;
     let (pre, it) = step_back (\<lambda>e. snd e > address) (before_lb address m) (from_lb address m);
     Some (pre @ subtract_loop address end it)
   }"

definition RangeSet_Contains :: "u64 \<Rightarrow> u64 \<Rightarrow> range_set \<Rightarrow> bool option" where
  "RangeSet_Contains address bytes m = do {
     end \<leftarrow> RangeSet_End address bytes;
     Some (before_ub address m \<noteq> [] \<and>
           fst (last (before_ub address m)) \<le> address \<and> snd (last (before_ub address m)) \<ge> end)
   }"

definition RangeSet_Intersects :: "u64 \<Rightarrow> u64 \<Rightarrow> range_set \<Rightarrow> bool option" where
  "RangeSet_Intersects address bytes m = do {
     end \<leftarrow> RangeSet_End address bytes;
     Some ((before_ub address m \<noteq> [] \<and> snd (last (before_ub address m)) > address) \<or>
           (from_ub address m \<noteq> [] \<and> fst (hd (from_ub address m)) < end))
   }"

fun intersection_loop :: "u64 \<Rightarrow> u64 \<Rightarrow> range_set \<Rightarrow> (u64 \<times> u64) list" where
  "intersection_loop address end [] = []"
| "intersection_loop address end ((x, y) # it) =
     (if x < end then
        (let begin = max address x; fin = min end y in
         (if begin < fin then [(begin, fin - begin)] else []) @ intersection_loop address end it)
      else [])"

text \<open>\<open>ForEachIntersection\<close> calls its function on these (address, size) pairs in this order.\<close>

definition RangeSet_Intersections :: "u64 \<Rightarrow> u64 \<Rightarrow> range_set \<Rightarrow> (u64 \<times> u64) list option" where
  "RangeSet_Intersections address bytes m = do {
     end \<leftarrow> RangeSet_End address bytes;
     let (pre, it) = step_back (\<lambda>_. True) (before_ub address m) (from_ub address m);
     Some (intersection_loop address end it)
   }"

definition RangeSet_Empty :: "range_set \<Rightarrow> bool" where
  "RangeSet_Empty m = (m = [])"

section \<open>The range check\<close>

definition valid_range :: "u64 \<Rightarrow> u64 \<Rightarrow> bool" where
  "valid_range address bytes \<longleftrightarrow> address \<noteq> 0 \<and> bytes \<noteq> 0 \<and> address + bytes \<le> UINT64_MAX"

lemma RangeSet_End_valid [simp]: "valid_range a n \<Longrightarrow> RangeSet_End a n = Some (a + n)"
  by (auto simp: valid_range_def RangeSet_End_def)

lemma RangeSet_End_invalid: "a \<le> UINT64_MAX \<Longrightarrow> \<not> valid_range a n \<Longrightarrow> RangeSet_End a n = None"
  by (auto simp: valid_range_def RangeSet_End_def)

section \<open>Adding and subtracting\<close>

lemma step_back_append: "step_back t pre it = (p, q) \<Longrightarrow> p @ q = pre @ it"
  by (auto simp: step_back_def split: if_splits)

lemma step_back_lb:
  assumes ok: "ivs_ok m" and sb: "step_back (\<lambda>e. P (snd e)) (before_lb a m) (from_lb a m) = (p, q)"
    and P: "\<And>y. y < a \<Longrightarrow> \<not> P y"
  shows "m = p @ q" and "\<forall>e\<in>set p. \<not> P (snd e) \<and> fst e < a" and "\<forall>e\<in>set q. P (snd e) \<or> a \<le> fst e"
proof -
  let ?pre = "before_lb a m"
  show "m = p @ q" using step_back_append [OF sb] by (simp add: lb_split)
  have ge: "\<forall>e\<in>set (from_lb a m). a \<le> fst e"
    using from_lb_ge [OF ivs_ok_smap_ok [OF ok]] by blast
  then show "\<forall>e\<in>set q. P (snd e) \<or> a \<le> fst e"
    using sb by (auto simp: step_back_def split: if_splits)
  have lt: "\<forall>e\<in>set ?pre. fst e < a" by (auto dest: before_lb_less)
  have bl: "\<forall>e\<in>set (butlast ?pre). \<not> P (snd e)"
  proof
    fix e assume e: "e \<in> set (butlast ?pre)"
    then have "?pre \<noteq> []" by auto
    then have "fst (last ?pre) < a" using lt last_in_set by blast
    then show "\<not> P (snd e)" using before_lb_ends [OF ok e] P by simp
  qed
  show "\<forall>e\<in>set p. \<not> P (snd e) \<and> fst e < a"
  proof (cases "?pre \<noteq> [] \<and> P (snd (last ?pre))")
    case True
    with sb have "p = butlast ?pre" by (simp add: step_back_def)
    then show ?thesis using bl lt by (auto dest: in_set_butlastD)
  next
    case False
    with sb have "p = ?pre" by (simp add: step_back_def split: if_splits)
    moreover have "\<forall>e\<in>set ?pre. \<not> P (snd e)"
      using bl False in_set_butlast_or_last by (metis empty_iff list.set(1))
    ultimately show ?thesis using lt by blast
  qed
qed

lemma RangeSet_Add_spec:
  assumes ok: "ivs_ok m" and v: "valid_range a n"
  shows "\<exists>m'. RangeSet_Add a n m = Some m' \<and> ivs_ok m' \<and> ivs_cover m' = ivs_cover m \<union> bytes_of a n"
proof -
  obtain p q where sb: "step_back (\<lambda>e. snd e \<ge> a) (before_lb a m) (from_lb a m) = (p, q)"
    by fastforce
  note sb' = step_back_lb [OF ok, where P = "\<lambda>y. y \<ge> a", OF sb, simplified]
  have okpq: "ivs_ok p" "ivs_ok q" "\<forall>x\<in>set p. \<forall>y\<in>set q. snd x < fst y"
    using ok unfolding sb'(1) ivs_ok_append by auto
  obtain b l r where ab: "absorb a (a + n) q = (b, l, r)" by (cases "absorb a (a + n) q") auto
  have lt: "a < a + n" using v by (simp add: valid_range_def)
  have ge: "\<forall>e\<in>set q. a \<le> snd e"
    using sb'(3) ivs_ok_nonempty [OF okpq(2)] by (meson le_trans less_imp_le)
  note abs = absorb_spec [OF ab okpq(2) lt ge]
  have pb: "\<forall>e\<in>set p. snd e < b"
    using abs(7) sb'(2) okpq(3) by force
  have keys: "\<forall>e\<in>set p. fst e < b" "\<forall>e\<in>set r. b < fst e"
    using pb ivs_ok_nonempty [OF okpq(1)] abs by (fastforce intro: less_trans)+
  have em: "emplace b l (p @ r) = p @ (b, l) # r"
    by (rule emplace_between) (use keys in auto)
  have res: "RangeSet_Add a n m = Some (p @ (b, l) # r)"
    using v sb ab em by (simp add: RangeSet_Add_def)
  have "\<forall>e\<in>set p. \<forall>x\<in>set r. snd e < fst x"
    using pb abs(1,6) by (meson less_trans)
  then have "ivs_ok (p @ (b, l) # r)"
    using okpq pb abs by (simp add: ivs_ok_append ivs_ok_Cons)
  moreover have "ivs_cover (p @ (b, l) # r) = ivs_cover m \<union> bytes_of a n"
    using abs sb'(1) by (auto simp: bytes_of_def)
  ultimately show ?thesis using res by blast
qed

lemma subtract_loop_spec:
  assumes "ivs_ok m" and "a < e" and "\<forall>x\<in>set m. a \<le> snd x"
  shows "ivs_ok (subtract_loop a e m) \<and> ivs_cover (subtract_loop a e m) = ivs_cover m - {a..<e}
    \<and> (\<forall>x\<in>set (subtract_loop a e m). \<exists>y\<in>set m. fst y \<le> fst x \<and> snd x \<le> snd y)"
  using assms
proof (induction a e m rule: subtract_loop.induct)
  case (2 a e b l m)
  have ok: "b < l" "\<forall>x\<in>set m. l < fst x" "ivs_ok m" "a \<le> l"
    using "2.prems" by (auto simp: ivs_ok_Cons)
  have later: "{a..<e} \<inter> ivs_cover m = {}" if "\<forall>x\<in>set m. e \<le> fst x"
    using that by (fastforce simp: mem_ivs_cover)
  consider "e \<le> b" | "b < e" "e < l" | "b < e" "l \<le> e" by linarith
  then show ?case
  proof cases
    case 1
    have "\<forall>x\<in>set m. e \<le> fst x" using ok 1 by auto
    then show ?thesis using later 1 "2.prems" by auto
  next
    case 2
    have "\<forall>x\<in>set m. e \<le> fst x" using ok 2 by auto
    then have d: "ivs_cover m - {a..<e} = ivs_cover m" using later by blast
    have "{b..<l} - {a..<e} = (if b < a then {b..<a} else {}) \<union> {e..<l}"
      using 2 "2.prems"(2) by auto
    then show ?thesis using 2 ok d "2.prems"(2) by (auto simp: ivs_ok_append ivs_ok_Cons Let_def)
  next
    case 3
    have IH: "ivs_ok (subtract_loop a e m)"
      "ivs_cover (subtract_loop a e m) = ivs_cover m - {a..<e}"
      "\<forall>x\<in>set (subtract_loop a e m). \<exists>y\<in>set m. fst y \<le> fst x \<and> snd x \<le> snd y"
      using "2.IH" [OF 3(1) refl] 3 "2.prems" by (auto simp: ivs_ok_Cons)
    have eq: "subtract_loop a e ((b, l) # m) = (if b < a then [(b, a)] else []) @ subtract_loop a e m"
      using 3 by simp
    have "{b..<l} - {a..<e} = (if b < a then {b..<a} else {})" using 3 ok by auto
    moreover have "\<forall>x\<in>set (subtract_loop a e m). a < fst x" using IH(3) ok by fastforce
    ultimately show ?thesis unfolding eq using IH ok 3 by (auto simp: ivs_ok_append ivs_ok_Cons)
  qed
qed simp

lemma RangeSet_Subtract_spec:
  assumes ok: "ivs_ok m" and v: "valid_range a n"
  shows "\<exists>m'. RangeSet_Subtract a n m = Some m' \<and> ivs_ok m' \<and> ivs_cover m' = ivs_cover m - bytes_of a n"
proof -
  obtain p q where sb: "step_back (\<lambda>e. snd e > a) (before_lb a m) (from_lb a m) = (p, q)"
    by fastforce
  note sb' = step_back_lb [OF ok, where P = "\<lambda>y. y > a", OF sb, simplified]
  have okpq: "ivs_ok p" "ivs_ok q" "\<forall>x\<in>set p. \<forall>y\<in>set q. snd x < fst y"
    using ok unfolding sb'(1) ivs_ok_append by auto
  have "a < a + n" using v by (simp add: valid_range_def)
  moreover have "\<forall>e\<in>set q. a \<le> snd e"
    using sb'(3) ivs_ok_nonempty [OF okpq(2)] by (meson le_trans less_imp_le)
  ultimately have sl: "ivs_ok (subtract_loop a (a + n) q)"
    "ivs_cover (subtract_loop a (a + n) q) = ivs_cover q - bytes_of a n"
    "\<forall>x\<in>set (subtract_loop a (a + n) q). \<exists>y\<in>set q. fst y \<le> fst x"
    using subtract_loop_spec [OF okpq(2), of a "a + n"] by (auto simp: bytes_of_def)
  have "RangeSet_Subtract a n m = Some (p @ subtract_loop a (a + n) q)"
    using v sb by (simp add: RangeSet_Subtract_def)
  moreover have "ivs_ok (p @ subtract_loop a (a + n) q)"
    using okpq sl(1,3) by (fastforce simp: ivs_ok_append)
  moreover have "ivs_cover p \<inter> bytes_of a n = {}"
    using sb'(2) by (fastforce simp: mem_ivs_cover)
  then have "ivs_cover (p @ subtract_loop a (a + n) q) = ivs_cover m - bytes_of a n"
    using sl(2) sb'(1) by auto
  ultimately show ?thesis by blast
qed

section \<open>Queries\<close>

text \<open>Only the last entry that starts at or before an address can hold it.\<close>

lemma ub_last_spec:
  assumes ok: "ivs_ok m"
  shows "x \<in> ivs_cover m \<longleftrightarrow> before_ub x m \<noteq> [] \<and> x < snd (last (before_ub x m))"
proof
  assume "x \<in> ivs_cover m"
  then obtain e where e: "e \<in> set m" "fst e \<le> x" "x < snd e" by (auto simp: mem_ivs_cover)
  have "\<forall>y\<in>set (from_ub x m). x < fst y"
    using from_ub_gt [OF ivs_ok_smap_ok [OF ok]] by blast
  then have mem: "e \<in> set (before_ub x m)"
    using e by (metis Un_iff not_less set_append ub_split)
  then have ne: "before_ub x m \<noteq> []" by auto
  have "ivs_ok (butlast (before_ub x m) @ [last (before_ub x m)])"
    using ivs_ok_ub [OF ok, of x] ne by simp
  moreover have "fst (last (before_ub x m)) \<le> x"
    using before_ub_le last_in_set [OF ne] by blast
  ultimately have "e \<notin> set (butlast (before_ub x m))"
    using e by (fastforce simp: ivs_ok_append)
  then show "before_ub x m \<noteq> [] \<and> x < snd (last (before_ub x m))"
    using in_set_butlast_or_last [OF mem] ne e(3) by auto
next
  assume *: "before_ub x m \<noteq> [] \<and> x < snd (last (before_ub x m))"
  then have "last (before_ub x m) \<in> set m"
    by (metis UnI1 last_in_set set_append ub_split)
  moreover have "fst (last (before_ub x m)) \<le> x"
    using * before_ub_le last_in_set by blast
  ultimately show "x \<in> ivs_cover m" using * by (auto simp: mem_ivs_cover)
qed

lemma RangeSet_Contains_spec:
  assumes ok: "ivs_ok m" and v: "valid_range a n"
  shows "RangeSet_Contains a n m = Some (bytes_of a n \<subseteq> ivs_cover m)"
proof -
  let ?b = "before_ub a m"
  have n: "0 < n" using v by (simp add: valid_range_def)
  have "(?b \<noteq> [] \<and> fst (last ?b) \<le> a \<and> a + n \<le> snd (last ?b)) \<longleftrightarrow> bytes_of a n \<subseteq> ivs_cover m"
  proof
    assume *: "?b \<noteq> [] \<and> fst (last ?b) \<le> a \<and> a + n \<le> snd (last ?b)"
    then have "last ?b \<in> set m" by (metis UnI1 last_in_set set_append ub_split)
    with * show "bytes_of a n \<subseteq> ivs_cover m"
      by (auto simp: mem_ivs_cover intro!: bexI [of _ "last ?b"])
  next
    assume sub: "bytes_of a n \<subseteq> ivs_cover m"
    have "a \<in> bytes_of a n" using n by simp
    then have ne: "?b \<noteq> []" and lt: "a < snd (last ?b)"
      using sub ub_last_spec [OF ok, of a] by blast+
    have mem: "last ?b \<in> set m" using ne by (metis UnI1 last_in_set set_append ub_split)
    have le: "fst (last ?b) \<le> a" using ne before_ub_le last_in_set by blast
    have "a + n \<le> snd (last ?b)"
    proof (rule ccontr)
      assume "\<not> ?thesis"
      then have "snd (last ?b) \<in> ivs_cover m" using sub lt by auto
      then obtain e where e: "e \<in> set m" "fst e \<le> snd (last ?b)" "snd (last ?b) < snd e"
        by (auto simp: mem_ivs_cover)
      show False
        using e mem le lt ivs_ok_separated [OF ok e(1) mem] by auto
    qed
    with ne le show "?b \<noteq> [] \<and> fst (last ?b) \<le> a \<and> a + n \<le> snd (last ?b)" by blast
  qed
  then show ?thesis using v by (simp add: RangeSet_Contains_def)
qed

lemma RangeSet_Intersects_spec:
  assumes ok: "ivs_ok m" and v: "valid_range a n"
  shows "RangeSet_Intersects a n m = Some (bytes_of a n \<inter> ivs_cover m \<noteq> {})"
proof -
  let ?u = "from_ub a m"
  have n: "0 < n" using v by (simp add: valid_range_def)
  have gt: "\<forall>e\<in>set ?u. a < fst e" using from_ub_gt [OF ivs_ok_smap_ok [OF ok]] by blast
  have oku: "ivs_ok ?u" using ivs_ok_ub [OF ok] by blast
  have "(a \<in> ivs_cover m \<or> (?u \<noteq> [] \<and> fst (hd ?u) < a + n)) \<longleftrightarrow> bytes_of a n \<inter> ivs_cover m \<noteq> {}"
  proof
    assume "a \<in> ivs_cover m \<or> (?u \<noteq> [] \<and> fst (hd ?u) < a + n)"
    then show "bytes_of a n \<inter> ivs_cover m \<noteq> {}"
    proof
      assume u: "?u \<noteq> [] \<and> fst (hd ?u) < a + n"
      then have "hd ?u \<in> set m" "fst (hd ?u) < snd (hd ?u)" "a < fst (hd ?u)"
        using ub_split [of a m] oku gt by (auto simp: ivs_ok_def) (metis Un_iff list.set_sel(1) set_append)
      then have "fst (hd ?u) \<in> bytes_of a n \<inter> ivs_cover m" using u by (auto simp: mem_ivs_cover)
      then show ?thesis by blast
    next
      assume "a \<in> ivs_cover m"
      moreover have "a \<in> bytes_of a n" using n by simp
      ultimately show ?thesis by blast
    qed
  next
    assume "bytes_of a n \<inter> ivs_cover m \<noteq> {}"
    then obtain x e where x: "a \<le> x" "x < a + n" and e: "e \<in> set m" "fst e \<le> x" "x < snd e"
      by (auto simp: mem_ivs_cover)
    show "a \<in> ivs_cover m \<or> (?u \<noteq> [] \<and> fst (hd ?u) < a + n)"
    proof (cases "fst e \<le> a")
      case True
      then show ?thesis using e x by (auto simp: mem_ivs_cover intro!: bexI [of _ e])
    next
      case False
      then have u: "e \<in> set ?u" using e(1) before_ub_le by (metis Un_iff set_append ub_split)
      then have "fst (hd ?u) \<le> fst e"
        using oku by (cases ?u) (auto simp: ivs_ok_Cons)
      then show ?thesis using u e x by auto
    qed
  qed
  then show ?thesis using v by (simp add: RangeSet_Intersects_def ub_last_spec [OF ok])
qed

lemma intersection_loop_spec:
  assumes "ivs_ok m" and "a < e"
  shows "pieces_cover (intersection_loop a e m) = {a..<e} \<inter> ivs_cover m
    \<and> (\<forall>p\<in>set (intersection_loop a e m). 0 < snd p)"
  using assms
proof (induction a e m rule: intersection_loop.induct)
  case (2 a e x y m)
  show ?case
  proof (cases "x < e")
    case True
    then show ?thesis using "2.IH" [OF True refl refl] "2.prems"
      by (auto simp: ivs_ok_Cons Let_def bytes_of_def min_def max_def)
  next
    case False
    then have "{a..<e} \<inter> ivs_cover ((x, y) # m) = {}"
      using "2.prems" by (fastforce simp: ivs_ok_Cons mem_ivs_cover)
    then show ?thesis using False by simp
  qed
qed simp

lemma RangeSet_Intersections_spec:
  assumes ok: "ivs_ok m" and v: "valid_range a n"
  shows "\<exists>ps. RangeSet_Intersections a n m = Some ps
    \<and> pieces_cover ps = bytes_of a n \<inter> ivs_cover m \<and> (\<forall>p\<in>set ps. 0 < snd p)"
proof -
  obtain p q where sb: "step_back (\<lambda>_. True) (before_ub a m) (from_ub a m) = (p, q)"
    by fastforce
  have m: "m = p @ q" using step_back_append [OF sb] by (simp add: ub_split)
  then have okq: "ivs_ok q" using ok by (simp add: ivs_ok_append)
  have "ivs_cover p \<inter> {a..<a + n} = {}"
  proof (cases "before_ub a m = []")
    case False
    let ?l = "last (before_ub a m)"
    have p: "p = butlast (before_ub a m)" using sb False by (simp add: step_back_def)
    have "ivs_ok (butlast (before_ub a m) @ [?l])" using ivs_ok_ub [OF ok, of a] False by simp
    moreover have "fst ?l \<le> a" using False before_ub_le last_in_set by blast
    ultimately have "\<forall>e\<in>set p. snd e < a" using p by (fastforce simp: ivs_ok_append)
    then show ?thesis by (fastforce simp: mem_ivs_cover)
  qed (use sb in \<open>simp add: step_back_def\<close>)
  then have "{a..<a + n} \<inter> ivs_cover q = bytes_of a n \<inter> ivs_cover m"
    unfolding m by (auto simp: bytes_of_def)
  moreover have "a < a + n" using v by (simp add: valid_range_def)
  ultimately have "pieces_cover (intersection_loop a (a + n) q) = bytes_of a n \<inter> ivs_cover m
    \<and> (\<forall>p\<in>set (intersection_loop a (a + n) q). 0 < snd p)"
    using intersection_loop_spec [OF okq] by metis
  then show ?thesis using v sb by (simp add: RangeSet_Intersections_def)
qed

interpretation gpu_ranges: byte_set ivs_cover ivs_ok valid_range RangeSet_Add RangeSet_Subtract
  by unfold_locales (simp_all add: RangeSet_Add_spec RangeSet_Subtract_spec)

section \<open>Properties\<close>

text \<open>
  Adding a non-empty range that does not pass the end of the address space always succeeds,
  adds exactly the range's bytes to the set, and keeps the stored intervals sorted, non-empty,
  disjoint and never adjacent (so equal sets have equal representations).
\<close>

lemma range_set_add_correct:
  assumes "ivs_ok m" and "valid_range a n"
  shows "\<exists>m'. RangeSet_Add a n m = Some m' \<and> ivs_ok m' \<and> ivs_cover m' = ivs_cover m \<union> bytes_of a n"
  by (rule RangeSet_Add_spec [OF assms])

lemma range_set_add_correct_witness:
  "RangeSet_Add 8 8 [(0, 8), (16, 20), (30, 40)] = Some [(0, 20), (30, 40)] \<and> ivs_ok [(0, 20), (30, 40 :: nat)]"
  using range_set_add_correct [of "[(0, 8), (16, 20), (30, 40)]" 8 8]
  by (simp add: valid_range_def ivs_ok_Cons) (simp add: RangeSet_Add_def RangeSet_End_def step_back_def before_lb_def from_lb_def)

text \<open>
  Subtracting a range removes exactly its bytes, splitting the intervals it cuts, and keeps
  the representation invariant; then giving the range back restores the set when it was covered.
\<close>

lemma range_set_subtract_correct:
  assumes "ivs_ok m" and "valid_range a n"
  shows "(\<exists>m'. RangeSet_Subtract a n m = Some m' \<and> ivs_ok m' \<and> ivs_cover m' = ivs_cover m - bytes_of a n) \<and>
    (bytes_of a n \<subseteq> ivs_cover m \<longrightarrow>
      (\<exists>m1 m2. RangeSet_Subtract a n m = Some m1 \<and> RangeSet_Add a n m1 = Some m2 \<and> ivs_cover m2 = ivs_cover m))"
  using gpu_ranges.take_total [OF assms] gpu_ranges.give_after_take [OF assms] by blast

lemma range_set_subtract_correct_witness:
  "\<exists>m1 m2. RangeSet_Subtract 4 8 [(0, 20)] = Some m1 \<and> RangeSet_Add 4 8 m1 = Some m2 \<and> ivs_cover m2 = {0..<20}"
proof -
  have "bytes_of 4 8 \<subseteq> ivs_cover [(0, 20)]" by auto
  then show ?thesis using range_set_subtract_correct [of "[(0, 20)]" 4 8] by (simp add: valid_range_def ivs_ok_Cons)
qed

text \<open>
  The three queries agree with the set: containment, intersection, and the list of
  intersections, whose pieces are non-empty and cover exactly the common bytes.
\<close>

lemma range_set_queries_correct:
  assumes "ivs_ok m" and "valid_range a n"
  shows "RangeSet_Contains a n m = Some (bytes_of a n \<subseteq> ivs_cover m) \<and>
    RangeSet_Intersects a n m = Some (bytes_of a n \<inter> ivs_cover m \<noteq> {}) \<and>
    (\<exists>ps. RangeSet_Intersections a n m = Some ps \<and> pieces_cover ps = bytes_of a n \<inter> ivs_cover m \<and> (\<forall>p\<in>set ps. 0 < snd p))"
  using RangeSet_Contains_spec [OF assms] RangeSet_Intersects_spec [OF assms] RangeSet_Intersections_spec [OF assms] by blast

lemma range_set_queries_correct_witness:
  "RangeSet_Contains 4 8 [(0, 10), (20, 30)] = Some False \<and> RangeSet_Intersects 4 8 [(0, 10), (20, 30)] = Some True"
proof -
  have "11 \<in> bytes_of 4 8" "11 \<notin> ivs_cover [(0, 10), (20, 30)]" "5 \<in> bytes_of 4 8 \<inter> ivs_cover [(0, 10), (20, 30)]" by auto
  then have "\<not> bytes_of 4 8 \<subseteq> ivs_cover [(0, 10), (20, 30)]" "bytes_of 4 8 \<inter> ivs_cover [(0, 10), (20, 30)] \<noteq> {}" by blast+
  then show ?thesis using range_set_queries_correct [of "[(0, 10), (20, 30)]" 4 8]
    by (simp add: valid_range_def ivs_ok_Cons del: ivs_cover_Cons)
qed

text \<open>
  C38: The set of byte ranges is the set of its bytes: adding a range adds exactly its bytes, subtracting
  removes exactly them and adding back what was taken from inside restores the set, and both keep the
  intervals sorted, non-empty, disjoint and never adjacent. The three queries agree with the set:
  containment, intersection, and the list of intersections, whose pieces are non-empty and cover exactly
  the common bytes. None of them exits.
\<close>

theorem range_set_exact:
  assumes "ivs_ok m" and "valid_range a n"
  shows "(\<exists>m'. RangeSet_Add a n m = Some m' \<and> ivs_ok m' \<and> ivs_cover m' = ivs_cover m \<union> bytes_of a n) \<and>
    (\<exists>m'. RangeSet_Subtract a n m = Some m' \<and> ivs_ok m' \<and> ivs_cover m' = ivs_cover m - bytes_of a n) \<and>
    (bytes_of a n \<subseteq> ivs_cover m \<longrightarrow>
      (\<exists>m1 m2. RangeSet_Subtract a n m = Some m1 \<and> RangeSet_Add a n m1 = Some m2 \<and> ivs_cover m2 = ivs_cover m)) \<and>
    RangeSet_Contains a n m = Some (bytes_of a n \<subseteq> ivs_cover m) \<and>
    RangeSet_Intersects a n m = Some (bytes_of a n \<inter> ivs_cover m \<noteq> {}) \<and>
    (\<exists>ps. RangeSet_Intersections a n m = Some ps \<and> pieces_cover ps = bytes_of a n \<inter> ivs_cover m \<and> (\<forall>p\<in>set ps. 0 < snd p))"
  using range_set_add_correct [OF assms] range_set_subtract_correct [OF assms] range_set_queries_correct [OF assms] by blast

lemma range_set_exact_witness:
  "\<exists>m'. RangeSet_Add 8 8 [(0, 8), (16, 20), (30, 40)] = Some m' \<and> ivs_cover m' = ivs_cover [(0, 8), (16, 20), (30, 40)] \<union> bytes_of 8 8"
  using range_set_exact [of "[(0, 8), (16, 20), (30, 40)]" 8 8] by (auto simp add: valid_range_def ivs_ok_Cons simp del: ivs_cover_Cons)

end
