(* ===== verification/BitArray.thy ===== *)
theory BitArray
  imports StdMap
begin

unbundle bit_operations_syntax

text \<open>
  \<open>BitArray<N>\<close> (src/src/common/bitArray.h): a fixed array of \<open>N = 64 * WORD_COUNT\<close> bits in
  64-bit words, the page sets of the GPU memory tracker. The model is the list of words; an
  index outside the array is undefined behaviour in \<open>Get\<close>, \<open>Set\<close> and \<open>Unset\<close> (\<open>None\<close>).

  The lemmas relate the masked word operations to the set of indices they denote (\<open>ba_bits\<close>):
  ranges are set, cleared and copied exactly, and the iterator enumerates the maximal runs of
  ones, in ascending order and without gaps.
\<close>

type_synonym bit_array = "64 word list"

definition ba_N :: "bit_array \<Rightarrow> nat" where
  "ba_N m = 64 * length m"

definition start_mask :: "nat \<Rightarrow> 64 word" where
  "start_mask start_bit = push_bit start_bit (NOT 0)"

definition end_mask :: "nat \<Rightarrow> 64 word" where
  "end_mask end_bit = (if end_bit = 64 - 1 then NOT 0 else push_bit (end_bit + 1) 1 - 1)"

text \<open>\<open>UnsetRange\<close> computes the complements of these masks directly.\<close>

definition unset_start_mask :: "nat \<Rightarrow> 64 word" where
  "unset_start_mask start_bit = push_bit start_bit 1 - 1"

definition unset_end_mask :: "nat \<Rightarrow> 64 word" where
  "unset_end_mask end_bit = (if end_bit = 64 - 1 then 0 else NOT (push_bit (end_bit + 1) 1 - 1))"

definition BitArray_empty :: "nat \<Rightarrow> bit_array" where
  "BitArray_empty words = replicate words 0"

text \<open>The loops that write the whole words strictly between the first and the last one.\<close>

definition fill_words :: "64 word \<Rightarrow> nat \<Rightarrow> nat \<Rightarrow> bit_array \<Rightarrow> bit_array" where
  "fill_words c first_word last_word m = fold (\<lambda>w m. m[w := c]) [first_word..<last_word] m"

definition copy_words :: "bit_array \<Rightarrow> nat \<Rightarrow> nat \<Rightarrow> bit_array \<Rightarrow> bit_array" where
  "copy_words other first_word last_word m = fold (\<lambda>w m. m[w := other ! w]) [first_word..<last_word] m"

definition BitArray_copy :: "bit_array \<Rightarrow> nat \<Rightarrow> nat \<Rightarrow> bit_array" where
  "BitArray_copy other start end =
     (let m = BitArray_empty (length other) in
      if start \<ge> end \<or> end > ba_N other then m
      else
        (let first_word = start div 64; last_word = (end - 1) div 64;
             start_bit = start mod 64; end_bit = (end - 1) mod 64 in
         if first_word = last_word then
           m[first_word := other ! first_word AND start_mask start_bit AND end_mask end_bit]
         else
           (let m1 = m[first_word := other ! first_word AND start_mask start_bit];
                m2 = copy_words other (first_word + 1) last_word m1 in
            m2[last_word := other ! last_word AND end_mask end_bit])))"

definition BitArray_Get :: "nat \<Rightarrow> bit_array \<Rightarrow> bool option" where
  "BitArray_Get index m =
     (if index div 64 < length m
      then Some (m ! (index div 64) AND push_bit (index mod 64) 1 \<noteq> 0) else None)"

definition BitArray_Set :: "nat \<Rightarrow> bit_array \<Rightarrow> bit_array option" where
  "BitArray_Set index m =
     (if index div 64 < length m
      then Some (m[index div 64 := m ! (index div 64) OR push_bit (index mod 64) 1]) else None)"

definition BitArray_Unset :: "nat \<Rightarrow> bit_array \<Rightarrow> bit_array option" where
  "BitArray_Unset index m =
     (if index div 64 < length m
      then Some (m[index div 64 := m ! (index div 64) AND NOT (push_bit (index mod 64) 1)]) else None)"

definition BitArray_SetRange :: "nat \<Rightarrow> nat \<Rightarrow> bit_array \<Rightarrow> bit_array" where
  "BitArray_SetRange start end m =
     (if start \<ge> end \<or> end > ba_N m then m
      else
        (let first_word = start div 64; last_word = (end - 1) div 64;
             start_bit = start mod 64; end_bit = (end - 1) mod 64 in
         if first_word = last_word then
           m[first_word := m ! first_word OR (start_mask start_bit AND end_mask end_bit)]
         else
           (let m1 = m[first_word := m ! first_word OR start_mask start_bit];
                m2 = fill_words (NOT 0) (first_word + 1) last_word m1 in
            m2[last_word := m2 ! last_word OR end_mask end_bit])))"

definition BitArray_UnsetRange :: "nat \<Rightarrow> nat \<Rightarrow> bit_array \<Rightarrow> bit_array" where
  "BitArray_UnsetRange start end m =
     (if start \<ge> end \<or> end > ba_N m then m
      else
        (let first_word = start div 64; last_word = (end - 1) div 64;
             start_bit = start mod 64; end_bit = (end - 1) mod 64;
             s_mask = unset_start_mask start_bit; e_mask = unset_end_mask end_bit in
         if first_word = last_word then
           m[first_word := m ! first_word AND (s_mask OR e_mask)]
         else
           (let m1 = m[first_word := m ! first_word AND s_mask];
                m2 = fill_words 0 (first_word + 1) last_word m1 in
            m2[last_word := m2 ! last_word AND e_mask])))"

definition BitArray_Clear :: "bit_array \<Rightarrow> bit_array" where
  "BitArray_Clear m = replicate (length m) 0"

definition BitArray_Fill :: "bit_array \<Rightarrow> bit_array" where
  "BitArray_Fill m = replicate (length m) (NOT 0)"

definition BitArray_None :: "bit_array \<Rightarrow> bool" where
  "BitArray_None m = (fold (\<lambda>w combined. combined OR w) m 0 = 0)"

definition BitArray_Any :: "bit_array \<Rightarrow> bool" where
  "BitArray_Any m = (\<not> BitArray_None m)"

text \<open>\<open>std::countr_zero\<close>, \<open>countr_one\<close>, \<open>countl_zero\<close> and \<open>countl_one\<close> on 64-bit words.\<close>

definition countr_zero :: "64 word \<Rightarrow> nat" where
  "countr_zero w = length (takeWhile (\<lambda>i. \<not> bit w i) [0..<64])"

definition countr_one :: "64 word \<Rightarrow> nat" where
  "countr_one w = length (takeWhile (\<lambda>i. bit w i) [0..<64])"

definition countl_zero :: "64 word \<Rightarrow> nat" where
  "countl_zero w = length (takeWhile (\<lambda>i. \<not> bit w (63 - i)) [0..<64])"

definition countl_one :: "64 word \<Rightarrow> nat" where
  "countl_one w = length (takeWhile (\<lambda>i. bit w (63 - i)) [0..<64])"

text \<open>The two loops of \<open>FirstRangeFrom\<close>: to the first word with a one, then past the full words.\<close>

function skip_zero_words :: "bit_array \<Rightarrow> nat \<Rightarrow> 64 word \<Rightarrow> (nat \<times> 64 word) option" where
  "skip_zero_words m word_index word =
     (if word = 0 then
        (if word_index + 1 \<ge> length m then None
         else skip_zero_words m (word_index + 1) (m ! (word_index + 1)))
      else Some (word_index, word))"
  by pat_completeness auto
termination
  by (relation "measure (\<lambda>(m, i, w). length m - i)") auto

function first_range_end :: "bit_array \<Rightarrow> nat \<Rightarrow> nat" where
  "first_range_end m word_index =
     (if word_index < length m then
        (if m ! word_index \<noteq> NOT 0 then word_index * 64 + countr_one (m ! word_index)
         else first_range_end m (word_index + 1))
      else ba_N m)"
  by pat_completeness auto
termination
  by (relation "measure (\<lambda>(m, i). length m - i)") auto

declare skip_zero_words.simps [simp del] first_range_end.simps [simp del]

definition BitArray_FirstRangeFrom :: "nat \<Rightarrow> bit_array \<Rightarrow> nat \<times> nat" where
  "BitArray_FirstRangeFrom start m =
     (if start \<ge> ba_N m then (ba_N m, ba_N m)
      else case skip_zero_words m (start div 64) (m ! (start div 64) AND start_mask (start mod 64)) of
        None \<Rightarrow> (ba_N m, ba_N m)
      | Some (word_index, word) \<Rightarrow>
          (let first = word_index * 64 + countr_zero word;
               first_bit = first mod 64;
               first_ones = countr_one (drop_bit first_bit (m ! word_index)) in
           if first_bit + first_ones < 64 then (first, first + first_ones)
           else (first, first_range_end m (word_index + 1))))"

definition BitArray_FirstRange :: "bit_array \<Rightarrow> nat \<times> nat" where
  "BitArray_FirstRange m = BitArray_FirstRangeFrom 0 m"

fun skip_zero_words_down :: "bit_array \<Rightarrow> nat \<Rightarrow> 64 word \<Rightarrow> (nat \<times> 64 word) option" where
  "skip_zero_words_down m 0 word = (if word = 0 then None else Some (0, word))"
| "skip_zero_words_down m (Suc i) word =
     (if word = 0 then skip_zero_words_down m i (m ! i) else Some (Suc i, word))"

fun last_range_begin :: "bit_array \<Rightarrow> nat \<Rightarrow> nat" where
  "last_range_begin m 0 = 0"
| "last_range_begin m (Suc i) =
     (if m ! i \<noteq> NOT 0 then (i + 1) * 64 - countl_one (m ! i) else last_range_begin m i)"

definition BitArray_LastRangeFrom :: "nat \<Rightarrow> bit_array \<Rightarrow> nat \<times> nat" where
  "BitArray_LastRangeFrom end m =
     (if end = 0 then (0, 0)
      else
        (let e = (if end > ba_N m then ba_N m else end);
             word_index = (e - 1) div 64; end_bit = (e - 1) mod 64 in
         case skip_zero_words_down m word_index (m ! word_index AND end_mask end_bit) of
           None \<Rightarrow> (0, 0)
         | Some (i, word) \<Rightarrow>
             (let empty_bits = countl_zero word;
                  ones = countl_one (push_bit empty_bits word);
                  fin = (i + 1) * 64 - empty_bits in
              if empty_bits + ones < 64 then (fin - ones, fin)
              else (last_range_begin m i, fin))))"

definition BitArray_LastRange :: "bit_array \<Rightarrow> nat \<times> nat" where
  "BitArray_LastRange m = BitArray_LastRangeFrom (ba_N m) m"

definition BitArray_xor :: "bit_array \<Rightarrow> bit_array \<Rightarrow> bit_array" where
  "BitArray_xor m other = map2 (XOR) m other"

definition BitArray_not :: "bit_array \<Rightarrow> bit_array" where
  "BitArray_not m = map NOT m"

section \<open>The set of indices\<close>

definition ba_bits :: "bit_array \<Rightarrow> nat set" where
  "ba_bits m = {i. i < ba_N m \<and> bit (m ! (i div 64)) (i mod 64)}"

lemma mem_ba_bits: "i \<in> ba_bits m \<longleftrightarrow> i < ba_N m \<and> bit (m ! (i div 64)) (i mod 64)"
  by (simp add: ba_bits_def)

lemma ba_bits_bound: "i \<in> ba_bits m \<Longrightarrow> i < ba_N m"
  by (simp add: ba_bits_def)

lemma div64_less [simp]: "i < ba_N m \<Longrightarrow> i div 64 < length m"
  by (simp add: ba_N_def less_mult_imp_div_less mult.commute)

lemma div64_less_iff: "i div 64 < length m \<longleftrightarrow> i < ba_N m"
  by (metis ba_N_def div64_less div_less_iff_less_mult mult.commute zero_less_numeral)

lemma ba_bits_eqI:
  assumes "length m = length m'"
    and "\<And>w j. w < length m \<Longrightarrow> j < 64 \<Longrightarrow> bit (m ! w) j \<longleftrightarrow> P (64 * w + j)"
    and "\<And>w j. w < length m \<Longrightarrow> j < 64 \<Longrightarrow> 64 * w + j \<in> S \<longleftrightarrow> P (64 * w + j)"
    and "S \<subseteq> {..<ba_N m}"
  shows "ba_bits m = S"
proof (rule set_eqI)
  fix i
  show "i \<in> ba_bits m \<longleftrightarrow> i \<in> S"
  proof (cases "i < ba_N m")
    case True
    then have "i div 64 < length m" "i mod 64 < 64" "64 * (i div 64) + i mod 64 = i" by simp_all
    then show ?thesis using assms(2,3) [of "i div 64" "i mod 64"] True by (simp add: mem_ba_bits)
  next
    case False
    then show ?thesis using assms(4) by (auto simp: mem_ba_bits)
  qed
qed

lemma ba_bits_word: "w < length m \<Longrightarrow> j < 64 \<Longrightarrow> 64 * w + j \<in> ba_bits m \<longleftrightarrow> bit (m ! w) j"
  by (simp add: mem_ba_bits ba_N_def)

section \<open>Masks\<close>

lemma bit_start_mask: "bit (start_mask k) j \<longleftrightarrow> j < 64 \<and> k \<le> j"
  by (auto simp: start_mask_def bit_simps)

lemma bit_low_mask: "bit (push_bit k 1 - 1 :: 64 word) j \<longleftrightarrow> j < 64 \<and> j < k"
proof -
  have "push_bit k 1 - 1 = (mask k :: 64 word)" by (simp add: mask_eq_exp_minus_1 push_bit_of_1)
  then show ?thesis by (auto simp: bit_mask_iff)
qed

lemma bit_end_mask: "e < 64 \<Longrightarrow> bit (end_mask e) j \<longleftrightarrow> j < 64 \<and> j \<le> e"
  using bit_low_mask [of "e + 1" j]
  by (cases "e = 63") (auto simp: end_mask_def bit_simps simp del: push_bit_Suc push_bit_of_1)

lemma bit_unset_start_mask: "bit (unset_start_mask k) j \<longleftrightarrow> j < 64 \<and> j < k"
  unfolding unset_start_mask_def by (rule bit_low_mask)

lemma bit_unset_end_mask: "e < 64 \<Longrightarrow> bit (unset_end_mask e) j \<longleftrightarrow> j < 64 \<and> e < j"
  using bit_low_mask [of "e + 1" j]
  by (cases "e = 63") (auto simp: unset_end_mask_def bit_not_iff simp del: push_bit_Suc push_bit_of_1)

lemma digits_le:
  fixes q r w j :: nat
  assumes "r < 64" and "j < 64"
  shows "64 * q + r \<le> 64 * w + j \<longleftrightarrow> q < w \<or> (q = w \<and> r \<le> j)"
  using assms by (cases q w rule: linorder_cases) auto

lemma index_ge:
  fixes j s w :: nat
  shows "j < 64 \<Longrightarrow> s \<le> 64 * w + j \<longleftrightarrow> s div 64 < w \<or> (s div 64 = w \<and> s mod 64 \<le> j)"
  using digits_le [of "s mod 64" j "s div 64" w] by simp

lemma index_le:
  fixes j e w :: nat
  shows "j < 64 \<Longrightarrow> 64 * w + j \<le> e \<longleftrightarrow> w < e div 64 \<or> (w = e div 64 \<and> j \<le> e mod 64)"
  using digits_le [of j "e mod 64" w "e div 64"] by simp

lemma index_less:
  fixes j e w :: nat
  assumes "j < 64" and "0 < e"
  shows "64 * w + j < e \<longleftrightarrow> w < (e - 1) div 64 \<or> (w = (e - 1) div 64 \<and> j \<le> (e - 1) mod 64)"
  using index_le [OF assms(1), of w "e - 1"] assms(2) by auto

section \<open>Writing ranges\<close>

lemma length_fold_update [simp]: "length (fold (\<lambda>w m. m[w := f w]) ws m) = length m"
  by (induction ws arbitrary: m) auto

lemma nth_fold_update:
  "w < length m \<Longrightarrow> fold (\<lambda>w m. m[w := f w]) [a..<b] m ! w = (if a \<le> w \<and> w < b then f w else m ! w)"
  by (induction b) (auto simp: nth_list_update less_Suc_eq)

lemma length_fill_words [simp]: "length (fill_words c a b m) = length m"
  by (simp add: fill_words_def)

lemma length_copy_words [simp]: "length (copy_words other a b m) = length m"
  by (simp add: copy_words_def)

lemma nth_fill_words: "w < length m \<Longrightarrow> fill_words c a b m ! w = (if a \<le> w \<and> w < b then c else m ! w)"
  unfolding fill_words_def by (rule nth_fold_update)

lemma nth_copy_words:
  "w < length m \<Longrightarrow> copy_words other a b m ! w = (if a \<le> w \<and> w < b then other ! w else m ! w)"
  unfolding copy_words_def by (rule nth_fold_update)

lemma BitArray_lengths [simp]:
  "length (BitArray_SetRange s e m) = length m" "length (BitArray_UnsetRange s e m) = length m"
  "length (BitArray_copy m s e) = length m" "length (BitArray_empty n) = n"
  "length (BitArray_Clear m) = length m" "length (BitArray_Fill m) = length m"
  "length (BitArray_not m) = length m" "length (BitArray_xor m m') = min (length m) (length m')"
  by (simp_all add: BitArray_SetRange_def BitArray_UnsetRange_def BitArray_copy_def BitArray_empty_def
      BitArray_Clear_def BitArray_Fill_def BitArray_not_def BitArray_xor_def Let_def)

lemma word_order:
  assumes "s < e" and "e \<le> ba_N m"
  shows "s div 64 \<le> (e - 1) div 64" and "(e - 1) div 64 < length m"
  using assms by (auto intro: div_le_mono simp: div64_less_iff)

lemma SetRange_bit:
  assumes se: "s < e" "e \<le> ba_N m" and w: "w < length m" and j: "j < 64"
  shows "bit (BitArray_SetRange s e m ! w) j \<longleftrightarrow> bit (m ! w) j \<or> (s \<le> 64 * w + j \<and> 64 * w + j < e)"
proof -
  note o = word_order [OF se]
  have e0: "0 < e" using se by simp
  show ?thesis
    unfolding BitArray_SetRange_def Let_def index_ge [OF j] index_less [OF j e0]
    using se o w j
    by (cases "s div 64 = (e - 1) div 64")
      (auto simp: nth_list_update nth_fill_words bit_start_mask bit_end_mask bit_simps)
qed

lemma BitArray_SetRange_bits [simp]:
  assumes "s < e" and "e \<le> ba_N m"
  shows "ba_bits (BitArray_SetRange s e m) = ba_bits m \<union> {s..<e}"
  by (rule ba_bits_eqI [where P = "\<lambda>i. i \<in> ba_bits m \<or> (s \<le> i \<and> i < e)"])
    (use assms in \<open>auto simp: SetRange_bit ba_bits_word ba_N_def dest: ba_bits_bound\<close>)

lemma UnsetRange_bit:
  assumes se: "s < e" "e \<le> ba_N m" and w: "w < length m" and j: "j < 64"
  shows "bit (BitArray_UnsetRange s e m ! w) j \<longleftrightarrow> bit (m ! w) j \<and> \<not> (s \<le> 64 * w + j \<and> 64 * w + j < e)"
proof -
  note o = word_order [OF se]
  have e0: "0 < e" using se by simp
  show ?thesis
    unfolding BitArray_UnsetRange_def Let_def index_ge [OF j] index_less [OF j e0]
    using se o w j
    by (cases "s div 64 = (e - 1) div 64")
      (auto simp: nth_list_update nth_fill_words bit_unset_start_mask bit_unset_end_mask bit_and_iff bit_or_iff)
qed

lemma BitArray_UnsetRange_bits [simp]:
  assumes "s < e" and "e \<le> ba_N m"
  shows "ba_bits (BitArray_UnsetRange s e m) = ba_bits m - {s..<e}"
  by (rule ba_bits_eqI [where P = "\<lambda>i. i \<in> ba_bits m \<and> \<not> (s \<le> i \<and> i < e)"])
    (use assms in \<open>auto simp: UnsetRange_bit ba_bits_word ba_N_def dest: ba_bits_bound\<close>)

lemma copy_bit:
  assumes se: "s < e" "e \<le> ba_N m" and w: "w < length m" and j: "j < 64"
  shows "bit (BitArray_copy m s e ! w) j \<longleftrightarrow> bit (m ! w) j \<and> s \<le> 64 * w + j \<and> 64 * w + j < e"
proof -
  note o = word_order [OF se]
  have e0: "0 < e" using se by simp
  show ?thesis
    unfolding BitArray_copy_def Let_def index_ge [OF j] index_less [OF j e0]
    using se o w j
    by (cases "s div 64 = (e - 1) div 64")
      (auto simp: nth_list_update nth_copy_words bit_start_mask bit_end_mask BitArray_empty_def bit_simps)
qed

lemma BitArray_copy_bits [simp]:
  assumes "s < e" and "e \<le> ba_N m"
  shows "ba_bits (BitArray_copy m s e) = ba_bits m \<inter> {s..<e}"
  by (rule ba_bits_eqI [where P = "\<lambda>i. i \<in> ba_bits m \<and> (s \<le> i \<and> i < e)"])
    (use assms in \<open>auto simp: copy_bit ba_bits_word ba_N_def dest: ba_bits_bound\<close>)

lemma BitArray_empty_bits [simp]: "ba_bits (BitArray_empty n) = {}"
  by (auto simp: mem_ba_bits BitArray_empty_def ba_N_def)

lemma BitArray_Fill_bits [simp]: "ba_bits (BitArray_Fill m) = {..<ba_N m}"
  by (auto simp: mem_ba_bits BitArray_Fill_def ba_N_def bit_simps div64_less_iff [unfolded ba_N_def])

lemma BitArray_Clear_bits [simp]: "ba_bits (BitArray_Clear m) = {}"
  by (auto simp: mem_ba_bits BitArray_Clear_def ba_N_def div64_less_iff [unfolded ba_N_def])

lemma BitArray_not_bits [simp]: "ba_bits (BitArray_not m) = {..<ba_N m} - ba_bits m"
  by (auto simp: mem_ba_bits BitArray_not_def ba_N_def bit_simps div64_less_iff [unfolded ba_N_def])

lemma BitArray_xor_bits [simp]:
  "length m = length m' \<Longrightarrow> ba_bits (BitArray_xor m m') = (ba_bits m - ba_bits m') \<union> (ba_bits m' - ba_bits m)"
  by (auto simp: mem_ba_bits BitArray_xor_def ba_N_def bit_simps div64_less_iff [unfolded ba_N_def])

lemma ba_N_simps [simp]:
  "ba_N (BitArray_SetRange s e m) = ba_N m" "ba_N (BitArray_UnsetRange s e m) = ba_N m"
  "ba_N (BitArray_copy m s e) = ba_N m" "ba_N (BitArray_empty n) = 64 * n" "ba_N (BitArray_Fill m) = ba_N m"
  "ba_N (BitArray_Clear m) = ba_N m" "ba_N (BitArray_not m) = ba_N m"
  by (simp_all add: ba_N_def)

lemma fold_or_eq_0: "fold (\<lambda>w c. c OR w) m (c :: 64 word) = 0 \<longleftrightarrow> c = 0 \<and> (\<forall>w\<in>set m. w = 0)"
  by (induction m arbitrary: c) (auto simp: or_eq_0_iff)

lemma BitArray_None_iff: "BitArray_None m \<longleftrightarrow> ba_bits m = {}"
proof
  assume "BitArray_None m"
  then have "\<forall>w\<in>set m. w = 0" by (simp add: BitArray_None_def fold_or_eq_0)
  then show "ba_bits m = {}" using nth_mem [OF div64_less] by (fastforce simp: mem_ba_bits)
next
  assume *: "ba_bits m = {}"
  have "w = 0" if "w \<in> set m" for w
  proof -
    obtain i where i: "i < length m" "w = m ! i" using \<open>w \<in> set m\<close> by (auto simp: in_set_conv_nth)
    have "\<not> bit w j" if "j < 64" for j
      using * ba_bits_word [OF i(1) that] i(2) by simp
    then show "w = 0" by (auto intro!: bit_word_eqI)
  qed
  then show "BitArray_None m" by (simp add: BitArray_None_def fold_or_eq_0)
qed

lemma BitArray_Any_iff: "BitArray_Any m \<longleftrightarrow> ba_bits m \<noteq> {}"
  by (simp add: BitArray_Any_def BitArray_None_iff)

lemma BitArray_Get_iff: "i < ba_N m \<Longrightarrow> BitArray_Get i m = Some (i \<in> ba_bits m)"
proof -
  assume i: "i < ba_N m"
  have "m ! (i div 64) AND push_bit (i mod 64) 1 \<noteq> 0 \<longleftrightarrow> bit (m ! (i div 64)) (i mod 64)"
    by (simp add: and_exp_eq_0_iff_not_bit push_bit_of_1)
  then show ?thesis using i by (simp add: BitArray_Get_def mem_ba_bits)
qed

section \<open>Runs of ones\<close>

lemma takeWhile_upt:
  assumes "n = length (takeWhile P [0..<k])"
  shows "n \<le> k" and "j < n \<Longrightarrow> P j" and "n < k \<Longrightarrow> \<not> P n"
proof -
  show le: "n \<le> k" using assms length_takeWhile_le [of P "[0..<k]"] by simp
  show "j < n \<Longrightarrow> P j"
    using assms le nth_mem [of j "takeWhile P [0..<k]"] takeWhile_nth [of j P "[0..<k]"]
    by (auto dest: in_takeWhileD)
  show "n < k \<Longrightarrow> \<not> P n"
    using assms nth_length_takeWhile [of P "[0..<k]"] by simp
qed

lemma countr_zero_spec:
  assumes "w \<noteq> 0"
  shows "countr_zero w < 64" and "bit w (countr_zero w)" and "j < countr_zero w \<Longrightarrow> \<not> bit w j"
proof -
  note t = takeWhile_upt [OF countr_zero_def [of w]]
  show "j < countr_zero w \<Longrightarrow> \<not> bit w j" using t(2) .
  show lt: "countr_zero w < 64"
  proof (rule ccontr)
    assume "\<not> countr_zero w < 64"
    then have "w = 0" using t(2) by (auto intro!: bit_word_eqI)
    with assms show False by simp
  qed
  show "bit w (countr_zero w)" using t(3) lt by simp
qed

lemma countr_one_drop:
  assumes "b < 64"
  shows "b + countr_one (drop_bit b w) \<le> 64"
    and "b \<le> j \<Longrightarrow> j < b + countr_one (drop_bit b w) \<Longrightarrow> bit w j"
    and "b + countr_one (drop_bit b w) < 64 \<Longrightarrow> \<not> bit w (b + countr_one (drop_bit b w))"
proof -
  let ?n = "countr_one (drop_bit b w)"
  note t = takeWhile_upt [OF countr_one_def [of "drop_bit b w"]]
  show le: "b + ?n \<le> 64"
  proof (rule ccontr)
    assume "\<not> ?thesis"
    then have "bit (drop_bit b w) (64 - b)" using assms by (intro t(2)) auto
    then show False using assms by (auto simp: bit_simps dest: bit_imp_le_length)
  qed
  show "b \<le> j \<Longrightarrow> j < b + ?n \<Longrightarrow> bit w j"
    using t(2) [of "j - b"] by (simp add: bit_simps)
  show "b + ?n < 64 \<Longrightarrow> \<not> bit w (b + ?n)"
    using t(3) by (simp add: bit_simps)
qed

lemmas countr_one_spec = countr_one_drop [where b = 0, simplified]

lemma skip_zero_words_None:
  "skip_zero_words m i w = None \<Longrightarrow> w = 0 \<and> (\<forall>k. i < k \<and> k < length m \<longrightarrow> m ! k = 0)"
proof (induction m i w rule: skip_zero_words.induct)
  case (1 m i w)
  have w: "w = 0" using "1.prems" by (auto simp: skip_zero_words.simps [of m i w] split: if_splits)
  show ?case
  proof (cases "i + 1 \<ge> length m")
    case False
    then have "skip_zero_words m (i + 1) (m ! (i + 1)) = None"
      using "1.prems" w skip_zero_words.simps [of m i w] by simp
    from "1.IH" [OF w False this] show ?thesis
      using w by (metis add.commute less_antisym not_less_eq plus_1_eq_Suc)
  qed (use w in auto)
qed

lemma skip_zero_words_Some:
  "skip_zero_words m i w = Some (i', w') \<Longrightarrow> i < length m \<Longrightarrow>
   w' \<noteq> 0 \<and> i \<le> i' \<and> i' < length m
   \<and> ((i' = i \<and> w' = w) \<or> (i < i' \<and> w = 0 \<and> w' = m ! i' \<and> (\<forall>k. i < k \<and> k < i' \<longrightarrow> m ! k = 0)))"
proof (induction m i w rule: skip_zero_words.induct)
  case (1 m i w)
  show ?case
  proof (cases "w = 0")
    case True
    have ni: "\<not> i + 1 \<ge> length m" and eq: "skip_zero_words m (i + 1) (m ! (i + 1)) = Some (i', w')"
      using "1.prems" True skip_zero_words.simps [of m i w] by (auto split: if_splits)
    have "i + 1 < length m" using ni by simp
    note IH = "1.IH" [OF True ni eq this]
    have "m ! k = 0" if "i < k" "k < i'" for k
    proof (cases "k = i + 1")
      case True
      then show ?thesis using IH that by auto
    next
      case False
      then show ?thesis using IH that by auto
    qed
    then show ?thesis using IH True by auto
  next
    case False
    then show ?thesis using "1.prems" by (simp add: skip_zero_words.simps [of m i w])
  qed
qed

lemma index_split: "x < ba_N m \<Longrightarrow> \<exists>k j. x = 64 * k + j \<and> k < length m \<and> j < 64"
  by (rule exI [of _ "x div 64"], rule exI [of _ "x mod 64"]) simp

lemma first_range_end_spec:
  "i \<le> length m \<Longrightarrow>
   64 * i \<le> first_range_end m i \<and> first_range_end m i \<le> ba_N m
   \<and> {64 * i..<first_range_end m i} \<subseteq> ba_bits m
   \<and> (first_range_end m i < ba_N m \<longrightarrow> first_range_end m i \<notin> ba_bits m)"
proof (induction m i rule: first_range_end.induct)
  case (1 m i)
  consider "i = length m" | "i < length m" "m ! i \<noteq> NOT 0" | "i < length m" "m ! i = NOT 0"
    using "1.prems" by linarith
  then show ?case
  proof cases
    case 1
    then show ?thesis using first_range_end.simps [of m i] by (simp add: ba_N_def)
  next
    case 2
    let ?c = "countr_one (m ! i)"
    note c = countr_one_spec [where w = "m ! i"]
    have lt: "?c < 64"
    proof (rule ccontr)
      assume "\<not> ?thesis"
      then have "\<forall>j<64. bit (m ! i) j" using c by auto
      then have "m ! i = NOT 0" by (auto intro!: bit_word_eqI simp: bit_simps)
      with 2 show False by simp
    qed
    have "64 * i + ?c < ba_N m" using lt 2 by (simp add: ba_N_def)
    moreover have "{64 * i..<64 * i + ?c} \<subseteq> ba_bits m"
    proof
      fix x assume "x \<in> {64 * i..<64 * i + ?c}"
      then have "x = 64 * i + (x - 64 * i)" "x - 64 * i < ?c" by auto
      then show "x \<in> ba_bits m" using ba_bits_word [OF 2(1)] c lt by (metis less_trans)
    qed
    moreover have "64 * i + ?c \<notin> ba_bits m" using ba_bits_word [OF 2(1) lt] c lt by blast
    ultimately show ?thesis using 2 by (simp add: first_range_end.simps [of m i] mult.commute)
  next
    case 3
    then have eq: "first_range_end m i = first_range_end m (i + 1)"
      by (simp add: first_range_end.simps [of m i])
    have full: "{64 * i..<64 * (i + 1)} \<subseteq> ba_bits m"
    proof
      fix x assume "x \<in> {64 * i..<64 * (i + 1)}"
      then have "x = 64 * i + (x - 64 * i)" "x - 64 * i < 64" by auto
      then show "x \<in> ba_bits m"
        using ba_bits_word [OF 3(1), of "x - 64 * i"] 3 by (simp add: bit_simps)
    qed
    have "i + 1 \<le> length m" using 3 by simp
    note IH = "1.IH" [OF 3(1) _ this]
    have "{64 * i..<first_range_end m (i + 1)} \<subseteq>
        {64 * i..<64 * (i + 1)} \<union> {64 * (i + 1)..<first_range_end m (i + 1)}"
      by auto
    then show ?thesis using IH 3 full unfolding eq by auto
  qed
qed

lemma FirstRangeFrom_spec:
  assumes "BitArray_FirstRangeFrom s m = (f, l)"
  shows "(f = ba_N m \<and> l = ba_N m \<and> ba_bits m \<inter> {s..} = {}) \<or>
    (s \<le> f \<and> f < l \<and> l \<le> ba_N m \<and> ba_bits m \<inter> {s..<f} = {} \<and> {f..<l} \<subseteq> ba_bits m \<and> l \<notin> ba_bits m)"
proof (cases "s \<ge> ba_N m")
  case True
  then show ?thesis using assms ba_bits_bound by (fastforce simp: BitArray_FirstRangeFrom_def)
next
  case False
  let ?i = "s div 64" and ?w = "m ! (s div 64) AND start_mask (s mod 64)"
  have i: "?i < length m" using False by simp
  have w: "bit ?w j \<longleftrightarrow> bit (m ! ?i) j \<and> s mod 64 \<le> j" if "j < 64" for j
    using that by (auto simp: bit_simps bit_start_mask)
  show ?thesis
  proof (cases "skip_zero_words m ?i ?w")
    case None
    have "x \<notin> ba_bits m" if "s \<le> x" for x
    proof
      assume x: "x \<in> ba_bits m"
      obtain k j where k: "x = 64 * k + j" "k < length m" "j < 64"
        using index_split [OF ba_bits_bound [OF x]] by blast
      have "bit (m ! k) j" using x k ba_bits_word by blast
      moreover have "?i < k \<or> (?i = k \<and> s mod 64 \<le> j)" using index_ge [OF k(3), of s k] that k(1) by blast
      ultimately show False using skip_zero_words_None [OF None] w [OF k(3)] k(2) by auto
    qed
    then show ?thesis using assms False None by (auto simp: BitArray_FirstRangeFrom_def)
  next
    case (Some r)
    obtain i' w' where r: "r = (i', w')" by (cases r)
    note sk = skip_zero_words_Some [OF Some [unfolded r] i]
    let ?c = "countr_zero w'" and ?f = "64 * i' + countr_zero w'"
    have nz: "w' \<noteq> 0" using sk by blast
    note c = countr_zero_spec [OF nz]
    have bw: "bit w' j \<longleftrightarrow> bit (m ! i') j \<and> s \<le> 64 * i' + j" if "j < 64" for j
      using sk w [OF that] index_ge [OF that, of s i'] by auto
    have ge: "s \<le> ?f" and bf: "bit (m ! i') ?c" using bw [OF c(1)] c(2) by auto
    have none: "x \<notin> ba_bits m" if "s \<le> x" "x < ?f" for x
    proof
      assume x: "x \<in> ba_bits m"
      obtain k j where k: "x = 64 * k + j" "k < length m" "j < 64"
        using index_split [OF ba_bits_bound [OF x]] by blast
      have b: "bit (m ! k) j" using x k ba_bits_word by blast
      have "?i < k \<or> (?i = k \<and> s mod 64 \<le> j)" using index_ge [OF k(3), of s k] that(1) k(1) by blast
      moreover have "k < i' \<or> (k = i' \<and> j < ?c)"
        using that(2) k(1,3) c(1) digits_le [of ?c j i' k] by auto
      ultimately show False using sk b w [OF k(3)] c(3) bw [OF k(3)] that(1) k(1) by auto
    qed
    let ?o = "countr_one (drop_bit ?c (m ! i'))"
    note o = countr_one_drop [OF c(1), where w = "m ! i'"]
    have fb: "?f mod 64 = ?c" using c(1) by simp
    have opos: "0 < ?o" using o(3) bf c(1) by (cases "?o = 0") auto
    have run: "{?f..<?f + ?o} \<subseteq> ba_bits m"
    proof
      fix x assume x: "x \<in> {?f..<?f + ?o}"
      then have "x = 64 * i' + (x - 64 * i')" "?c \<le> x - 64 * i'" "x - 64 * i' < ?c + ?o" by auto
      then show "x \<in> ba_bits m" using ba_bits_word o(1,2) sk by (metis order_less_le_trans)
    qed
    show ?thesis
    proof (cases "?c + ?o < 64")
      case True
      then have fl: "f = ?f" "l = ?f + ?o"
        using assms False Some r fb by (auto simp: BitArray_FirstRangeFrom_def Let_def mult.commute)
      have "l \<notin> ba_bits m" using ba_bits_word [of i' m "?c + ?o"] True o(3) sk fl by (auto simp: add.assoc)
      moreover have "l \<le> ba_N m" using True sk fl by (simp add: ba_N_def)
      ultimately show ?thesis using fl ge none opos run by auto
    next
      case full: False
      then have c64: "?c + ?o = 64" using o(1) by simp
      have fl: "f = ?f" "l = first_range_end m (i' + 1)"
        using assms False Some r fb full by (auto simp: BitArray_FirstRangeFrom_def Let_def mult.commute)
      have "i' + 1 \<le> length m" using sk by simp
      note e = first_range_end_spec [OF this]
      have "{?f..<l} \<subseteq> ba_bits m"
      proof
        fix x assume "x \<in> {?f..<l}"
        then show "x \<in> ba_bits m" using run e c64 fl
          by (cases "x < ?f + ?o") (auto simp: subset_iff)
      qed
      moreover have "?f < l" using e fl c(1) by simp
      moreover have "l \<notin> ba_bits m" using e fl ba_bits_bound by (metis le_neq_implies_less less_irrefl)
      ultimately show ?thesis using fl ge none e by auto
    qed
  qed
qed

text \<open>The range-\<open>for\<close> loop over \<open>begin()\<close>/\<open>end()\<close>: it stops at the range \<open>(N, N)\<close>.\<close>

lemma FirstRangeFrom_progress:
  "BitArray_FirstRangeFrom s m \<noteq> (ba_N m, ba_N m) \<Longrightarrow>
   s < snd (BitArray_FirstRangeFrom s m) \<and> snd (BitArray_FirstRangeFrom s m) \<le> ba_N m"
  using FirstRangeFrom_spec [of s m] by (cases "BitArray_FirstRangeFrom s m") auto

function BitArray_ranges_from :: "bit_array \<Rightarrow> nat \<Rightarrow> (nat \<times> nat) list" where
  "BitArray_ranges_from m start =
     (let r = BitArray_FirstRangeFrom start m in
      if r = (ba_N m, ba_N m) then [] else r # BitArray_ranges_from m (snd r))"
  by pat_completeness auto
termination
proof (relation "measure (\<lambda>(m, s). ba_N m - s)")
  fix m s x
  assume "x = BitArray_FirstRangeFrom s m" and "x \<noteq> (ba_N m, ba_N m)"
  then have "s < snd x" "snd x \<le> ba_N m" using FirstRangeFrom_progress [of s m] by simp_all
  then show "((m, snd x), m, s) \<in> measure (\<lambda>(m, s). ba_N m - s)" by simp
qed simp

declare BitArray_ranges_from.simps [simp del]

definition BitArray_ranges :: "bit_array \<Rightarrow> (nat \<times> nat) list" where
  "BitArray_ranges m = BitArray_ranges_from m 0"

lemma ranges_from_spec:
  "(\<forall>x. s = Suc x \<longrightarrow> Suc x \<notin> ba_bits m) \<Longrightarrow>
   ivs_ok (BitArray_ranges_from m s) \<and> ivs_cover (BitArray_ranges_from m s) = ba_bits m \<inter> {s..}
   \<and> (\<forall>r\<in>set (BitArray_ranges_from m s). s \<le> fst r \<and> (0 < s \<longrightarrow> s < fst r))"
proof (induction m s rule: BitArray_ranges_from.induct)
  case (1 m s)
  obtain f l where fl: "BitArray_FirstRangeFrom s m = (f, l)" by fastforce
  note sp = FirstRangeFrom_spec [OF fl]
  show ?case
  proof (cases "(f, l) = (ba_N m, ba_N m)")
    case True
    then have "ba_bits m \<inter> {s..} = {}" using sp ba_bits_bound by auto
    then show ?thesis using True fl by (simp add: BitArray_ranges_from.simps [of m s] Let_def)
  next
    case False
    then have r: "s \<le> f" "f < l" "l \<le> ba_N m" "ba_bits m \<inter> {s..<f} = {}" "{f..<l} \<subseteq> ba_bits m"
      "l \<notin> ba_bits m" using sp by auto
    have eq: "BitArray_ranges_from m s = (f, l) # BitArray_ranges_from m l"
      using False fl by (simp add: BitArray_ranges_from.simps [of m s] Let_def)
    have IH: "ivs_ok (BitArray_ranges_from m l)"
      "ivs_cover (BitArray_ranges_from m l) = ba_bits m \<inter> {l..}"
      "\<forall>r\<in>set (BitArray_ranges_from m l). l < fst r"
      using "1.IH" [OF fl [symmetric] False] r(2,6) by auto
    have "0 < s \<Longrightarrow> s < f" using r(2,5) "1.prems" r(1)
      by (cases s) (auto simp: le_less)
    moreover have "ba_bits m \<inter> {s..} = {f..<l} \<union> (ba_bits m \<inter> {l..})"
      using r by (auto simp: disjoint_iff subset_iff)
    ultimately show ?thesis unfolding eq using IH r by (fastforce simp: ivs_ok_Cons)
  qed
qed

lemma BitArray_ranges_spec:
  "ivs_ok (BitArray_ranges m) \<and> ivs_cover (BitArray_ranges m) = ba_bits m"
  using ranges_from_spec [of 0 m] by (simp add: BitArray_ranges_def)

section \<open>The last run\<close>

lemma countl_zero_spec:
  assumes "w \<noteq> 0"
  shows "countl_zero w < 64" and "bit w (63 - countl_zero w)"
    and "63 - countl_zero w < j \<Longrightarrow> j < 64 \<Longrightarrow> \<not> bit w j"
proof -
  note t = takeWhile_upt [OF countl_zero_def [of w]]
  show "63 - countl_zero w < j \<Longrightarrow> j < 64 \<Longrightarrow> \<not> bit w j"
    using t(2) [of "63 - j"] by simp
  show lt: "countl_zero w < 64"
  proof (rule ccontr)
    assume *: "\<not> countl_zero w < 64"
    have "\<not> bit w j" if "j < 64" for j using t(2) [of "63 - j"] * that by simp
    then have "w = 0" by (auto intro!: bit_word_eqI)
    with assms show False by simp
  qed
  show "bit w (63 - countl_zero w)" using t(3) lt by simp
qed

lemma countl_one_push:
  assumes "b < 64"
  shows "b + countl_one (push_bit b w) \<le> 64"
    and "b \<le> i \<Longrightarrow> i < b + countl_one (push_bit b w) \<Longrightarrow> bit w (63 - i)"
    and "b + countl_one (push_bit b w) < 64 \<Longrightarrow> \<not> bit w (63 - (b + countl_one (push_bit b w)))"
proof -
  let ?n = "countl_one (push_bit b w)"
  note t = takeWhile_upt [OF countl_one_def [of "push_bit b w"]]
  show le: "b + ?n \<le> 64"
  proof (rule ccontr)
    assume "\<not> ?thesis"
    then have b: "0 < b" and "64 - b < ?n" using assms t(1) by auto
    then have "bit (push_bit b w) (63 - (64 - b))" using t(2) by blast
    then have "b \<le> b - 1" using assms by (simp add: bit_simps)
    with b show False by simp
  qed
  show "b \<le> i \<Longrightarrow> i < b + ?n \<Longrightarrow> bit w (63 - i)"
    using t(2) [of "i - b"] le by (simp add: bit_simps)
  show "b + ?n < 64 \<Longrightarrow> \<not> bit w (63 - (b + ?n))"
    using t(3) by (auto simp: bit_simps add.commute)
qed

lemmas countl_one_spec = countl_one_push [where b = 0, simplified]

lemma skip_zero_words_down_None:
  "skip_zero_words_down m i w = None \<Longrightarrow> w = 0 \<and> (\<forall>k<i. m ! k = 0)"
  by (induction m i w rule: skip_zero_words_down.induct) (auto split: if_splits simp: less_Suc_eq)

lemma skip_zero_words_down_Some:
  "skip_zero_words_down m i w = Some (i', w') \<Longrightarrow>
   w' \<noteq> 0 \<and> i' \<le> i \<and> ((i' = i \<and> w' = w) \<or> (i' < i \<and> w = 0 \<and> w' = m ! i' \<and> (\<forall>k. i' < k \<and> k < i \<longrightarrow> m ! k = 0)))"
  by (induction m i w rule: skip_zero_words_down.induct)
    (auto split: if_splits simp: less_Suc_eq le_Suc_eq)

lemma last_range_begin_spec:
  "i \<le> length m \<Longrightarrow>
   last_range_begin m i \<le> 64 * i \<and> {last_range_begin m i..<64 * i} \<subseteq> ba_bits m
   \<and> (last_range_begin m i = 0 \<or> last_range_begin m i - 1 \<notin> ba_bits m)"
proof (induction i)
  case (Suc i)
  then have i: "i < length m" by simp
  note c = countl_one_spec [where w = "m ! i"]
  show ?case
  proof (cases "m ! i = NOT 0")
    case True
    have full: "{64 * i..<64 * Suc i} \<subseteq> ba_bits m"
    proof
      fix x assume "x \<in> {64 * i..<64 * Suc i}"
      then have "x = 64 * i + (x - 64 * i)" "x - 64 * i < 64" by auto
      then show "x \<in> ba_bits m" using ba_bits_word [OF i, of "x - 64 * i"] True by (simp add: bit_simps)
    qed
    have "{last_range_begin m i..<64 * Suc i} \<subseteq> {last_range_begin m i..<64 * i} \<union> {64 * i..<64 * Suc i}"
      by auto
    then show ?thesis using Suc full True by auto
  next
    case False
    let ?c = "countl_one (m ! i)"
    have lt: "?c < 64"
    proof (rule ccontr)
      assume *: "\<not> ?thesis"
      have "bit (m ! i) j" if "j < 64" for j using c(2) [of "63 - j"] * that by simp
      then have "m ! i = NOT 0" by (auto intro!: bit_word_eqI simp: bit_simps)
      with False show False by simp
    qed
    have eq: "last_range_begin m (Suc i) = 64 * i + (64 - ?c)" using False lt by simp
    have "{64 * i + (64 - ?c)..<64 * Suc i} \<subseteq> ba_bits m"
    proof
      fix x assume "x \<in> {64 * i + (64 - ?c)..<64 * Suc i}"
      then have x: "x = 64 * i + (x - 64 * i)" "x - 64 * i < 64" "63 - (x - 64 * i) < ?c" using lt by auto
      then have "bit (m ! i) (x - 64 * i)" using c(2) [of "63 - (x - 64 * i)"] by simp
      then show "x \<in> ba_bits m" using ba_bits_word [OF i x(2)] x(1) by simp
    qed
    moreover have "64 * i + (64 - ?c) - 1 \<notin> ba_bits m"
    proof -
      have "64 * i + (64 - ?c) - 1 = 64 * i + (63 - ?c)" using lt by simp
      then show ?thesis using ba_bits_word [OF i, of "63 - ?c"] c(3) lt by simp
    qed
    ultimately show ?thesis unfolding eq using lt by auto
  qed
qed simp

lemma LastRangeFrom_spec:
  assumes "BitArray_LastRangeFrom e m = (f, l)" and e: "e \<le> ba_N m"
  shows "(f = 0 \<and> l = 0 \<and> ba_bits m \<inter> {..<e} = {}) \<or>
    (f < l \<and> l \<le> e \<and> ba_bits m \<inter> {l..<e} = {} \<and> {f..<l} \<subseteq> ba_bits m \<and> (f = 0 \<or> f - 1 \<notin> ba_bits m))"
proof (cases "e = 0")
  case True
  then show ?thesis using assms by (simp add: BitArray_LastRangeFrom_def)
next
  case False
  let ?i = "(e - 1) div 64" and ?w = "m ! ((e - 1) div 64) AND end_mask ((e - 1) mod 64)"
  have e0: "0 < e" using False by simp
  have i: "?i < length m" using e e0 by (simp add: div64_less_iff)
  have w: "bit ?w j \<longleftrightarrow> bit (m ! ?i) j \<and> j \<le> (e - 1) mod 64" if "j < 64" for j
    using that by (auto simp: bit_simps bit_end_mask)
  show ?thesis
  proof (cases "skip_zero_words_down m ?i ?w")
    case None
    have "x \<notin> ba_bits m" if "x < e" for x
    proof
      assume x: "x \<in> ba_bits m"
      obtain k j where k: "x = 64 * k + j" "k < length m" "j < 64"
        using index_split [OF ba_bits_bound [OF x]] by blast
      have "bit (m ! k) j" using x k ba_bits_word by blast
      moreover have "k < ?i \<or> (k = ?i \<and> j \<le> (e - 1) mod 64)"
        using index_less [OF k(3) e0, of k] that k(1) by blast
      ultimately show False using skip_zero_words_down_None [OF None] w [OF k(3)] by auto
    qed
    then show ?thesis using assms False None by (auto simp: BitArray_LastRangeFrom_def)
  next
    case (Some r)
    obtain i' w' where r: "r = (i', w')" by (cases r)
    note sk = skip_zero_words_down_Some [OF Some [unfolded r]]
    let ?z = "countl_zero w'" and ?l = "64 * i' + (64 - countl_zero w')"
    have nz: "w' \<noteq> 0" using sk by blast
    note z = countl_zero_spec [OF nz]
    have i': "i' < length m" using sk i by auto
    have bw: "bit w' j \<longleftrightarrow> bit (m ! i') j \<and> 64 * i' + j < e" if "j < 64" for j
      using sk w [OF that] index_less [OF that e0, of i'] by auto
    have "64 * i' + (63 - ?z) < e" using bw [of "63 - ?z"] z by simp
    then have le: "?l \<le> e" using z(1) by linarith
    have none: "x \<notin> ba_bits m" if "?l \<le> x" "x < e" for x
    proof
      assume x: "x \<in> ba_bits m"
      obtain k j where k: "x = 64 * k + j" "k < length m" "j < 64"
        using index_split [OF ba_bits_bound [OF x]] by blast
      have b: "bit (m ! k) j" using x k ba_bits_word by blast
      have "k < ?i \<or> (k = ?i \<and> j \<le> (e - 1) mod 64)"
        using index_less [OF k(3) e0, of k] that(2) k(1) by blast
      moreover have "i' < k \<or> (k = i' \<and> 63 - ?z < j)"
        using that(1) k(1,3) z(1) digits_le [of "63 - ?z" j i' k] by auto
      ultimately show False using sk b w [OF k(3)] z(3) bw [OF k(3)] that(2) k by auto
    qed
    let ?o = "countl_one (push_bit ?z w')"
    note o = countl_one_push [OF z(1), where w = w']
    have opos: "0 < ?o" using o(3) z by (cases "?o = 0") auto
    have run: "{?l - ?o..<?l} \<subseteq> ba_bits m"
    proof
      fix x assume x: "x \<in> {?l - ?o..<?l}"
      let ?j = "x - 64 * i'"
      have j: "x = 64 * i' + ?j" "?j < 64" "?z \<le> 63 - ?j" "63 - ?j < ?z + ?o"
        using x o(1) z(1) by auto
      then have "bit w' ?j" using o(2) [OF j(3,4)] by simp
      then show "x \<in> ba_bits m" using bw [OF j(2)] ba_bits_word [OF i' j(2)] j(1) by simp
    qed
    have E: "(if e > ba_N m then ba_N m else e) = e" using e by simp
    show ?thesis
    proof (cases "?z + ?o < 64")
      case True
      then have fl: "l = ?l" "f = ?l - ?o"
        using assms(1) False Some r E z(1) unfolding BitArray_LastRangeFrom_def Let_def E
        by (auto simp: mult.commute)
      let ?k = "63 - (?z + ?o)"
      have k: "?k < 64" "f - 1 = 64 * i' + ?k" "64 * i' + ?k < e" using fl True le by auto
      have "\<not> bit (m ! i') ?k" using o(3) [OF True] bw [OF k(1)] k(3) by blast
      then have "f - 1 \<notin> ba_bits m" using ba_bits_word [OF i' k(1)] k(2) by simp
      then show ?thesis using fl le none opos run o(1) by auto
    next
      case full: False
      then have fl: "l = ?l" "f = last_range_begin m i'"
        using assms(1) False Some r E z(1) unfolding BitArray_LastRangeFrom_def Let_def E
        by (auto simp: mult.commute)
      have lo: "?l - ?o = 64 * i'" using full o(1) by simp
      note b = last_range_begin_spec [of i' m]
      have "{f..<l} \<subseteq> {f..<64 * i'} \<union> {?l - ?o..<?l}" using fl lo by auto
      then have "{f..<l} \<subseteq> ba_bits m" using run b i' fl by auto
      moreover have "f < l" using b i' fl z(1) by auto
      ultimately show ?thesis using b i' fl le none by auto
    qed
  qed
qed

section \<open>Properties\<close>

text \<open>
  C39: Setting, clearing and copying a range of bits act on exactly the bits of the range, across
  word boundaries and at both ends of a word; and iterating over a bit array yields its runs in order:
  non-empty, separated by at least one clear bit, and covering exactly the set bits.
\<close>

theorem bit_ranges_exact:
  assumes "s < e" and "e \<le> ba_N m"
  shows "ba_bits (BitArray_SetRange s e m) = ba_bits m \<union> {s..<e} \<and>
    ba_bits (BitArray_UnsetRange s e m) = ba_bits m - {s..<e} \<and>
    ba_bits (BitArray_copy m s e) = ba_bits m \<inter> {s..<e} \<and>
    ivs_ok (BitArray_ranges m) \<and> ivs_cover (BitArray_ranges m) = ba_bits m"
  using assms BitArray_ranges_spec by simp

theorem bit_ranges_exact_witness:
  "ba_bits (BitArray_SetRange 60 70 (BitArray_empty 2)) = {60..<70} \<and>
   ba_bits (BitArray_UnsetRange 60 70 (BitArray_Fill (BitArray_empty 2))) = {..<128} - {60..<70}"
  using bit_ranges_exact [of 60 70 "BitArray_empty 2"] bit_ranges_exact [of 60 70 "BitArray_Fill (BitArray_empty 2)"]
  by simp

end
