(* ===== verification/PageManager.thy ===== *)
theory PageManager
  imports BitArray
begin

text \<open>
  \<open>PageManager\<close> (src/src/graphics/host_gpu/pageManager.cpp): reference counts of the watchers
  of every 4 KiB guest page, in 4 MiB regions that are created on demand, and the host page
  protection derived from them. Each run of pages whose protection changes is protected with
  one host call.

  State: the region table (\<open>pm_regions\<close>) and the host calls made so far, oldest first
  (\<open>pm_calls\<close>). \<open>protect\<close> is \<open>LibKernel::Memory::ProtectGuestHostMemory\<close>, whose effect is the
  operating system's: an argument that says whether the call succeeds; a failure is fatal.
  \<open>host_mode\<close> is the protection a page has after the calls.

  The main lemma: after every operation the host protection of every page of the address
  space is the one its watcher counts ask for (\<open>pm_coherent\<close>), although the code protects
  coalesced runs and skips pages whose protection did not change. Locks are not modelled: an
  operation holds its region's lock throughout.
\<close>

abbreviation TRACKER_PAGE_SIZE :: nat where "TRACKER_PAGE_SIZE \<equiv> 4096"
abbreviation TRACKER_REGION_SIZE :: nat where "TRACKER_REGION_SIZE \<equiv> 4194304"
abbreviation TRACKER_ADDRESS_SIZE :: nat where "TRACKER_ADDRESS_SIZE \<equiv> 1099511627776"
abbreviation TRACKER_REGION_PAGES :: nat where "TRACKER_REGION_PAGES \<equiv> 1024"

definition NO_ACCESS_PROTECTION :: nat where "NO_ACCESS_PROTECTION = 1"
definition READ_ONLY_PROTECTION :: nat where "READ_ONLY_PROTECTION = 2"
definition READ_WRITE_PROTECTION :: nat where "READ_WRITE_PROTECTION = 4"

definition ToMemoryMode :: "nat \<Rightarrow> mode option" where
  "ToMemoryMode protection =
     (if protection = NO_ACCESS_PROTECTION then Some NoAccess
      else if protection = READ_ONLY_PROTECTION then Some Read
      else if protection = READ_WRITE_PROTECTION then Some ReadWrite
      else None)"

record page_state =
  write_watchers :: nat
  access_watchers :: nat

definition new_page :: page_state where
  "new_page = \<lparr>write_watchers = 0, access_watchers = 0\<rparr>"

definition Perms :: "page_state \<Rightarrow> nat" where
  "Perms p =
     (if access_watchers p \<noteq> 0 then NO_ACCESS_PROTECTION
      else if write_watchers p \<noteq> 0 then READ_ONLY_PROTECTION
      else READ_WRITE_PROTECTION)"

text \<open>\<open>AddDelta<delta, is_read>\<close>: the new count and the new state; overflow and underflow are fatal.\<close>

definition AddDelta :: "int \<Rightarrow> bool \<Rightarrow> page_state \<Rightarrow> (nat \<times> page_state) option" where
  "AddDelta delta is_read p =
     (if is_read then
        (if delta = 1 then
           (if access_watchers p \<noteq> 0 then None
            else Some (access_watchers p + 1, p\<lparr>access_watchers := access_watchers p + 1\<rparr>))
         else if delta = -1 then
           (if access_watchers p = 0 then None
            else Some (access_watchers p - 1, p\<lparr>access_watchers := access_watchers p - 1\<rparr>))
         else Some (access_watchers p, p))
      else
        (if delta = 1 then
           (if write_watchers p = 127 then None
            else Some (write_watchers p + 1, p\<lparr>write_watchers := write_watchers p + 1\<rparr>))
         else if delta = -1 then
           (if write_watchers p = 0 then None
            else Some (write_watchers p - 1, p\<lparr>write_watchers := write_watchers p - 1\<rparr>))
         else Some (write_watchers p, p)))"

type_synonym host_call = "u64 \<times> u64 \<times> mode"

record page_manager =
  pm_regions :: "nat \<rightharpoonup> page_state list"
  pm_calls :: "host_call list"

definition new_page_manager :: page_manager where
  "new_page_manager = \<lparr>pm_regions = Map.empty, pm_calls = []\<rparr>"

definition new_region :: "page_state list" where
  "new_region = replicate TRACKER_REGION_PAGES new_page"

definition pm_ValidateRange :: "u64 \<Rightarrow> u64 \<Rightarrow> bool \<Rightarrow> unit option" where
  "pm_ValidateRange vaddr bytes allow_zero =
     exit_if ((\<not> allow_zero \<and> vaddr = 0) \<or> bytes = 0 \<or> vaddr \<ge> TRACKER_ADDRESS_SIZE \<or>
              bytes > sub64 TRACKER_ADDRESS_SIZE vaddr)"

definition PageStart :: "u64 \<Rightarrow> u64" where
  "PageStart vaddr = vaddr - vaddr mod TRACKER_PAGE_SIZE"

definition PageEnd :: "u64 \<Rightarrow> u64 \<Rightarrow> bool \<Rightarrow> u64 option" where
  "PageEnd vaddr bytes allow_zero = do {
     pm_ValidateRange vaddr bytes allow_zero;
     Some (PageStart (vaddr + bytes - 1) + TRACKER_PAGE_SIZE)
   }"

definition FindRegion :: "u64 \<Rightarrow> page_manager \<Rightarrow> page_state list option" where
  "FindRegion vaddr pm =
     (if vaddr < TRACKER_ADDRESS_SIZE then pm_regions pm (vaddr div TRACKER_REGION_SIZE) else None)"

definition GetOrCreatePages :: "u64 \<Rightarrow> page_manager \<Rightarrow> page_state list" where
  "GetOrCreatePages vaddr pm =
     (case pm_regions pm (vaddr div TRACKER_REGION_SIZE) of Some ps \<Rightarrow> ps | None \<Rightarrow> new_region)"

definition Protect :: "(host_call \<Rightarrow> bool) \<Rightarrow> u64 \<Rightarrow> u64 \<Rightarrow> nat \<Rightarrow> host_call list \<Rightarrow> host_call list option" where
  "Protect protect vaddr bytes protection calls = do {
     m \<leftarrow> ToMemoryMode protection;
     if protect (vaddr, bytes, m) then Some (calls @ [(vaddr, bytes, m)]) else None
   }"

text \<open>The loop variables of \<open>UpdateRegionWatchers\<close>.\<close>

record watch_loop =
  wl_pages :: "page_state list"
  wl_perms :: nat
  wl_begin :: nat
  wl_bytes :: nat
  wl_potential :: nat
  wl_calls :: "host_call list"

definition release_pending :: "(host_call \<Rightarrow> bool) \<Rightarrow> u64 \<Rightarrow> watch_loop \<Rightarrow> watch_loop option" where
  "release_pending protect base_addr st =
     (if wl_bytes st \<noteq> 0 then do {
        calls \<leftarrow> Protect protect (base_addr + wl_begin st * TRACKER_PAGE_SIZE) (wl_bytes st) (wl_perms st) (wl_calls st);
        Some (st\<lparr>wl_calls := calls, wl_bytes := 0, wl_potential := 0\<rparr>)
      } else Some st)"

text \<open>A page whose protection differs from the run's ends the run; one that agrees may extend it.\<close>

definition perms_step :: "(host_call \<Rightarrow> bool) \<Rightarrow> u64 \<Rightarrow> nat \<Rightarrow> watch_loop \<Rightarrow> watch_loop option" where
  "perms_step protect base_addr new_perms st =
     (if new_perms \<noteq> wl_perms st then do {
        st \<leftarrow> release_pending protect base_addr st;
        Some (st\<lparr>wl_perms := new_perms\<rparr>)
      } else if wl_bytes st \<noteq> 0 then
        Some (st\<lparr>wl_potential := wl_potential st + TRACKER_PAGE_SIZE\<rparr>)
      else Some st)"

definition extend_range :: "nat \<Rightarrow> watch_loop \<Rightarrow> watch_loop" where
  "extend_range page_index st =
     (let st = (if wl_bytes st = 0
                then st\<lparr>wl_begin := page_index, wl_potential := TRACKER_PAGE_SIZE\<rparr> else st) in
      st\<lparr>wl_bytes := wl_potential st\<rparr>)"

definition watch_page ::
  "(host_call \<Rightarrow> bool) \<Rightarrow> bool \<Rightarrow> bool \<Rightarrow> (nat \<Rightarrow> bool option) \<Rightarrow> u64 \<Rightarrow> nat \<Rightarrow> watch_loop \<Rightarrow> watch_loop option" where
  "watch_page protect track is_read update_at base_addr page_index st =
     (if page_index \<ge> length (wl_pages st) then None else do {
        update \<leftarrow> update_at page_index;
        (new_count, page) \<leftarrow> AddDelta (if update then (if track then 1 else -1) else 0) is_read
                               (wl_pages st ! page_index);
        st' \<leftarrow> perms_step protect base_addr (Perms page) (st\<lparr>wl_pages := (wl_pages st)[page_index := page]\<rparr>);
        Some (if update \<and> ((track \<and> new_count = 1) \<or> (\<not> track \<and> new_count = 0)) \<and>
                 Perms (wl_pages st ! page_index) \<noteq> Perms page
              then extend_range page_index st' else st')
      })"

fun watch_pages ::
  "(host_call \<Rightarrow> bool) \<Rightarrow> bool \<Rightarrow> bool \<Rightarrow> (nat \<Rightarrow> bool option) \<Rightarrow> u64 \<Rightarrow> nat list \<Rightarrow> watch_loop \<Rightarrow> watch_loop option" where
  "watch_pages protect track is_read update_at base_addr [] st = Some st"
| "watch_pages protect track is_read update_at base_addr (i # is) st =
     Option.bind (watch_page protect track is_read update_at base_addr i st)
       (watch_pages protect track is_read update_at base_addr is)"

definition UpdateRegionWatchers ::
  "(host_call \<Rightarrow> bool) \<Rightarrow> bool \<Rightarrow> bool \<Rightarrow> bit_array option \<Rightarrow> u64 \<Rightarrow> nat \<Rightarrow> nat \<Rightarrow>
   page_state list \<Rightarrow> host_call list \<Rightarrow> (page_state list \<times> host_call list) option" where
  "UpdateRegionWatchers protect track is_read page_mask base_addr first_page last_page pages calls =
     (if first_page \<ge> length pages then None else do {
        let update_at = (\<lambda>i. case page_mask of None \<Rightarrow> Some True | Some bits \<Rightarrow> BitArray_Get i bits);
        st \<leftarrow> watch_pages protect track is_read update_at base_addr [first_page..<last_page]
               \<lparr>wl_pages = pages, wl_perms = Perms (pages ! first_page), wl_begin = 0, wl_bytes = 0,
                wl_potential = 0, wl_calls = calls\<rparr>;
        st \<leftarrow> release_pending protect base_addr st;
        Some (wl_pages st, wl_calls st)
      })"

text \<open>One region's share of an update: \<open>track\<close> creates the region, untracking needs it.\<close>

definition update_region ::
  "(host_call \<Rightarrow> bool) \<Rightarrow> bool \<Rightarrow> bool \<Rightarrow> bit_array option \<Rightarrow> u64 \<Rightarrow> nat \<Rightarrow> nat \<Rightarrow> u64 \<Rightarrow> page_manager \<Rightarrow> page_manager option" where
  "update_region protect track is_read page_mask region_base first_page last_page vaddr pm = do {
     pages \<leftarrow> (if track then Some (GetOrCreatePages vaddr pm) else FindRegion vaddr pm);
     (pages', calls) \<leftarrow> UpdateRegionWatchers protect track is_read page_mask region_base first_page last_page
                          pages (pm_calls pm);
     Some \<lparr>pm_regions = (pm_regions pm)(vaddr div TRACKER_REGION_SIZE \<mapsto> pages'), pm_calls = calls\<rparr>
   }"

function update_chunks ::
  "(host_call \<Rightarrow> bool) \<Rightarrow> bool \<Rightarrow> bool \<Rightarrow> u64 \<Rightarrow> u64 \<Rightarrow> page_manager \<Rightarrow> page_manager option" where
  "update_chunks protect track is_read chunk_begin end pm =
     (if chunk_begin < end then do {
        let chunk_end = min end ((chunk_begin div TRACKER_REGION_SIZE + 1) * TRACKER_REGION_SIZE);
        let region_base = chunk_begin div TRACKER_REGION_SIZE * TRACKER_REGION_SIZE;
        pm' \<leftarrow> update_region protect track is_read None region_base
                 ((chunk_begin - region_base) div TRACKER_PAGE_SIZE)
                 ((chunk_end - region_base) div TRACKER_PAGE_SIZE) chunk_begin pm;
        update_chunks protect track is_read chunk_end end pm'
      } else Some pm)"
  by pat_completeness auto
termination
proof (relation "measure (\<lambda>(protect, track, is_read, b, e, pm). e - b)")
  fix b e x :: nat
  assume "b < e" and x: "x = min e ((b div TRACKER_REGION_SIZE + 1) * TRACKER_REGION_SIZE)"
  moreover have "b < (b div TRACKER_REGION_SIZE + 1) * TRACKER_REGION_SIZE"
    using dividend_less_div_times [of TRACKER_REGION_SIZE b] by simp
  ultimately have "b < x" by simp
  then show "\<And>protect track is_read pm pm' r.
    ((protect, track, is_read, x, e, pm'), protect, track, is_read, b, e, pm)
      \<in> measure (\<lambda>(protect, track, is_read, b, e, pm). e - b)"
    using \<open>b < e\<close> by simp
qed simp

declare update_chunks.simps [simp del]

definition Impl_UpdatePageWatchers ::
  "(host_call \<Rightarrow> bool) \<Rightarrow> bool \<Rightarrow> bool \<Rightarrow> u64 \<Rightarrow> u64 \<Rightarrow> page_manager \<Rightarrow> page_manager option" where
  "Impl_UpdatePageWatchers protect track is_read vaddr bytes pm = do {
     end \<leftarrow> PageEnd vaddr bytes True;
     update_chunks protect track is_read (PageStart vaddr) end pm
   }"

definition UpdatePageWatchers ::
  "(host_call \<Rightarrow> bool) \<Rightarrow> bool \<Rightarrow> u64 \<Rightarrow> u64 \<Rightarrow> page_manager \<Rightarrow> page_manager option" where
  "UpdatePageWatchers protect track vaddr bytes pm = do {
     (if track then pm_ValidateRange vaddr bytes False else Some ());
     Impl_UpdatePageWatchers protect track False vaddr bytes pm
   }"

definition UpdatePageWatchersForRegion ::
  "(host_call \<Rightarrow> bool) \<Rightarrow> bool \<Rightarrow> bool \<Rightarrow> u64 \<Rightarrow> bit_array \<Rightarrow> page_manager \<Rightarrow> page_manager option" where
  "UpdatePageWatchersForRegion protect track is_read base_addr page_mask pm = do {
     exit_if (base_addr mod TRACKER_REGION_SIZE \<noteq> 0 \<or> base_addr \<ge> TRACKER_ADDRESS_SIZE \<or>
              TRACKER_REGION_SIZE > TRACKER_ADDRESS_SIZE - base_addr);
     let start_range = BitArray_FirstRange page_mask;
     let end_range = BitArray_LastRange page_mask;
     exit_if (fst start_range = TRACKER_REGION_PAGES);
     let first_page = fst start_range;
     let last_page = snd end_range;
     if snd start_range = snd end_range then
       Impl_UpdatePageWatchers protect track is_read (base_addr + first_page * TRACKER_PAGE_SIZE)
         ((last_page - first_page) * TRACKER_PAGE_SIZE) pm
     else update_region protect track is_read (Some page_mask) base_addr first_page last_page base_addr pm
   }"

section \<open>What the host calls amount to\<close>

definition call_covers :: "host_call \<Rightarrow> nat \<Rightarrow> bool" where
  "call_covers c p = (fst c div TRACKER_PAGE_SIZE \<le> p \<and> p < (fst c + fst (snd c)) div TRACKER_PAGE_SIZE)"

definition host_mode :: "host_call list \<Rightarrow> nat \<Rightarrow> mode" where
  "host_mode calls p = fold (\<lambda>c m. if call_covers c p then snd (snd c) else m) calls ReadWrite"

definition page_mode :: "page_state \<Rightarrow> mode" where
  "page_mode p = (if access_watchers p \<noteq> 0 then NoAccess else if write_watchers p \<noteq> 0 then Read else ReadWrite)"

lemma host_mode_Nil [simp]: "host_mode [] p = ReadWrite"
  by (simp add: host_mode_def)

lemma host_mode_snoc [simp]:
  "host_mode (calls @ [c]) p = (if call_covers c p then snd (snd c) else host_mode calls p)"
  by (simp add: host_mode_def)

lemmas protection_defs = NO_ACCESS_PROTECTION_def READ_ONLY_PROTECTION_def READ_WRITE_PROTECTION_def

lemma ToMemoryMode_Perms [simp]: "ToMemoryMode (Perms p) = Some (page_mode p)"
  by (simp add: ToMemoryMode_def Perms_def page_mode_def protection_defs)

lemma Perms_eq_iff: "Perms p = Perms q \<longleftrightarrow> page_mode p = page_mode q"
  by (simp add: Perms_def page_mode_def protection_defs)

lemma AddDelta_edge:
  assumes "AddDelta (if track then 1 else -1) is_read p = Some (n, p')" and "Perms p \<noteq> Perms p'"
  shows "(track \<and> n = 1) \<or> (\<not> track \<and> n = 0)"
  using assms by (auto simp: AddDelta_def Perms_def protection_defs split: if_splits)

lemma AddDelta_0 [simp]: "AddDelta 0 is_read p = Some (if is_read then access_watchers p else write_watchers p, p)"
  by (simp add: AddDelta_def)

section \<open>The coalescing loop\<close>

definition pending :: "watch_loop \<Rightarrow> nat \<Rightarrow> bool" where
  "pending st i \<longleftrightarrow> wl_begin st \<le> i \<and> i < wl_begin st + wl_bytes st div TRACKER_PAGE_SIZE"

definition loop_inv ::
  "page_state list \<Rightarrow> host_call list \<Rightarrow> nat \<Rightarrow> nat \<Rightarrow> nat \<Rightarrow> watch_loop \<Rightarrow> bool" where
  "loop_inv pages0 calls0 B first_page k st \<longleftrightarrow>
     length (wl_pages st) = length pages0 \<and> first_page \<le> k \<and>
     (\<forall>i. i < first_page \<or> k \<le> i \<longrightarrow> wl_pages st ! i = pages0 ! i) \<and>
     (\<forall>p. p < B + first_page \<or> B + k \<le> p \<longrightarrow> host_mode (wl_calls st) p = host_mode calls0 p) \<and>
     (\<forall>i\<in>{first_page..<k}. pending st i \<or> host_mode (wl_calls st) (B + i) = page_mode (wl_pages st ! i)) \<and>
     TRACKER_PAGE_SIZE dvd wl_bytes st \<and>
     (wl_bytes st \<noteq> 0 \<longrightarrow> first_page \<le> wl_begin st \<and> wl_begin st + wl_bytes st div TRACKER_PAGE_SIZE \<le> k \<and>
        wl_potential st = TRACKER_PAGE_SIZE * (k - wl_begin st) \<and>
        (\<forall>i\<in>{wl_begin st..<k}. Perms (wl_pages st ! i) = wl_perms st))"

lemma release_pending_inv:
  assumes inv: "loop_inv pages0 calls0 B first_page k st"
    and rel: "release_pending protect (B * TRACKER_PAGE_SIZE) st = Some st'"
  shows "loop_inv pages0 calls0 B first_page k st'" and "wl_bytes st' = 0"
    and "wl_pages st' = wl_pages st" and "wl_perms st' = wl_perms st"
proof -
  show "wl_bytes st' = 0" "wl_pages st' = wl_pages st" "wl_perms st' = wl_perms st"
    using rel by (auto simp: release_pending_def bind_eq_Some_iff split: if_splits)
  show "loop_inv pages0 calls0 B first_page k st'"
  proof (cases "wl_bytes st = 0")
    case True
    then show ?thesis using rel inv by (simp add: release_pending_def)
  next
    case False
    obtain nb where nb: "wl_bytes st = TRACKER_PAGE_SIZE * nb" "0 < nb"
      using inv False unfolding loop_inv_def by (metis dvdE gr0I mult_0_right)
    have le: "wl_begin st + nb \<le> k" and fb: "first_page \<le> wl_begin st"
      using inv False nb by (auto simp: loop_inv_def)
    have "wl_begin st \<in> {wl_begin st..<k}" using le nb by simp
    then have "ToMemoryMode (wl_perms st) = Some (page_mode (wl_pages st ! wl_begin st))"
      using inv False unfolding loop_inv_def by (metis ToMemoryMode_Perms)
    then obtain c where c: "c = (B * TRACKER_PAGE_SIZE + wl_begin st * TRACKER_PAGE_SIZE, wl_bytes st,
        page_mode (wl_pages st ! wl_begin st))"
      and st': "st' = st\<lparr>wl_calls := wl_calls st @ [c], wl_bytes := 0, wl_potential := 0\<rparr>"
      using rel False by (auto simp: release_pending_def Protect_def bind_eq_Some_iff split: if_splits)
    have "fst c = TRACKER_PAGE_SIZE * (B + wl_begin st)"
      "fst c + fst (snd c) = TRACKER_PAGE_SIZE * (B + wl_begin st + nb)"
      by (simp_all add: c nb algebra_simps)
    then have cov: "call_covers c p \<longleftrightarrow> B + wl_begin st \<le> p \<and> p < B + wl_begin st + nb" for p
      by (simp only: call_covers_def nonzero_mult_div_cancel_left [OF zero_neq_numeral [symmetric]])
    have same: "page_mode (wl_pages st ! i) = page_mode (wl_pages st ! wl_begin st)"
      if "wl_begin st \<le> i" "i < k" for i
      using inv False that le nb unfolding loop_inv_def
      by (metis Perms_eq_iff atLeastLessThan_iff le_refl order_le_less_trans)
    have host: "host_mode (wl_calls st') p =
        (if B + wl_begin st \<le> p \<and> p < B + wl_begin st + nb then page_mode (wl_pages st ! wl_begin st)
         else host_mode (wl_calls st) p)" for p
      using cov [of p] by (simp add: st' c)
    have settled: "host_mode (wl_calls st') (B + i) = page_mode (wl_pages st ! i)"
      if i: "i \<in> {first_page..<k}" for i
    proof (cases "wl_begin st \<le> i \<and> i < wl_begin st + nb")
      case True
      then show ?thesis using host [of "B + i"] same [of i] le by simp
    next
      case False
      then have "\<not> pending st i" using nb by (simp add: pending_def)
      then have "host_mode (wl_calls st) (B + i) = page_mode (wl_pages st ! i)"
        using inv i by (auto simp: loop_inv_def)
      then show ?thesis using host [of "B + i"] False by auto
    qed
    have outside: "host_mode (wl_calls st') p = host_mode calls0 p" if "p < B + first_page \<or> B + k \<le> p" for p
      using inv that host [of p] le fb by (auto simp: loop_inv_def)
    have "wl_bytes st' = 0" "wl_pages st' = wl_pages st" by (simp_all add: st')
    then show ?thesis
      using inv settled outside unfolding loop_inv_def by simp
  qed
qed

lemma release_pending_pages:
  "release_pending protect b (st\<lparr>wl_pages := q\<rparr>) =
   map_option (\<lambda>s. s\<lparr>wl_pages := q\<rparr>) (release_pending protect b st)"
  by (cases "Protect protect (b + wl_begin st * TRACKER_PAGE_SIZE) (wl_bytes st) (wl_perms st) (wl_calls st)")
    (simp_all add: release_pending_def)

text \<open>Between the two halves of an iteration: only page \<open>k\<close> may still need its protection.\<close>

definition mid_inv ::
  "page_state list \<Rightarrow> host_call list \<Rightarrow> nat \<Rightarrow> nat \<Rightarrow> nat \<Rightarrow> watch_loop \<Rightarrow> bool" where
  "mid_inv pages0 calls0 B first_page k st \<longleftrightarrow>
     length (wl_pages st) = length pages0 \<and> first_page \<le> k \<and>
     (\<forall>i. i < first_page \<or> k < i \<longrightarrow> wl_pages st ! i = pages0 ! i) \<and>
     (\<forall>p. p < B + first_page \<or> B + k \<le> p \<longrightarrow> host_mode (wl_calls st) p = host_mode calls0 p) \<and>
     (\<forall>i\<in>{first_page..<k}. pending st i \<or> host_mode (wl_calls st) (B + i) = page_mode (wl_pages st ! i)) \<and>
     TRACKER_PAGE_SIZE dvd wl_bytes st \<and> wl_perms st = Perms (wl_pages st ! k) \<and>
     (wl_bytes st \<noteq> 0 \<longrightarrow> first_page \<le> wl_begin st \<and> wl_begin st + wl_bytes st div TRACKER_PAGE_SIZE \<le> k \<and>
        wl_potential st = TRACKER_PAGE_SIZE * (Suc k - wl_begin st) \<and>
        (\<forall>i\<in>{wl_begin st..k}. Perms (wl_pages st ! i) = wl_perms st))"

lemma perms_step_inv:
  assumes inv: "loop_inv pages0 calls0 B first_page k st" and k: "k < length pages0"
    and step: "perms_step protect (B * TRACKER_PAGE_SIZE) (Perms p') (st\<lparr>wl_pages := (wl_pages st)[k := p']\<rparr>) = Some st2"
  shows "mid_inv pages0 calls0 B first_page k st2" and "wl_pages st2 = (wl_pages st)[k := p']"
proof -
  have len: "length (wl_pages st) = length pages0" using inv by (simp add: loop_inv_def)
  consider
    (change) st1 where "release_pending protect (B * TRACKER_PAGE_SIZE) st = Some st1"
      "st2 = st1\<lparr>wl_pages := (wl_pages st)[k := p'], wl_perms := Perms p'\<rparr>"
  | (extend) "Perms p' = wl_perms st" "wl_bytes st \<noteq> 0"
      "st2 = st\<lparr>wl_pages := (wl_pages st)[k := p'], wl_potential := wl_potential st + TRACKER_PAGE_SIZE\<rparr>"
  | (idle) "Perms p' = wl_perms st" "wl_bytes st = 0" "st2 = st\<lparr>wl_pages := (wl_pages st)[k := p']\<rparr>"
    using step by (auto simp: perms_step_def release_pending_pages bind_eq_Some_iff split: if_splits)
  then have "mid_inv pages0 calls0 B first_page k st2 \<and> wl_pages st2 = (wl_pages st)[k := p']"
  proof cases
    case change
    note r = release_pending_inv [OF inv change(1)]
    show ?thesis using r(1-3) k len unfolding change(2) mid_inv_def loop_inv_def pending_def
      by (simp add: nth_list_update)
  next
    case extend
    have "wl_begin st \<le> k" using inv extend(2) by (auto simp: loop_inv_def)
    then show ?thesis using inv extend(1,2) k len unfolding extend(3) mid_inv_def loop_inv_def pending_def
      by (auto simp: nth_list_update Suc_diff_le)
  next
    case idle
    then show ?thesis using inv k len unfolding idle(3) mid_inv_def loop_inv_def pending_def
      by (simp add: nth_list_update)
  qed
  then show "mid_inv pages0 calls0 B first_page k st2" "wl_pages st2 = (wl_pages st)[k := p']" by auto
qed

lemma extend_range_inv:
  assumes mid: "mid_inv pages0 calls0 B first_page k st"
  shows "loop_inv pages0 calls0 B first_page (Suc k) (extend_range k st)"
    and "wl_pages (extend_range k st) = wl_pages st"
proof -
  show "wl_pages (extend_range k st) = wl_pages st" by (simp add: extend_range_def Let_def)
  show "loop_inv pages0 calls0 B first_page (Suc k) (extend_range k st)"
  proof (cases "wl_bytes st = 0")
    case True
    then show ?thesis using mid unfolding mid_inv_def loop_inv_def pending_def extend_range_def
      by (auto simp: less_Suc_eq)
  next
    case False
    then have b: "wl_begin st \<le> k" "wl_begin st + wl_bytes st div TRACKER_PAGE_SIZE \<le> k"
      and pot: "wl_potential st = TRACKER_PAGE_SIZE * (Suc k - wl_begin st)"
      using mid by (auto simp: mid_inv_def)
    have er: "extend_range k st = st\<lparr>wl_bytes := wl_potential st\<rparr>"
      using False by (simp add: extend_range_def)
    have pend: "pending (extend_range k st) i \<longleftrightarrow> wl_begin st \<le> i \<and> i \<le> k" for i
      using b pot by (auto simp: er pending_def)
    have "pending (extend_range k st) i \<or> host_mode (wl_calls st) (B + i) = page_mode (wl_pages st ! i)"
      if "i \<in> {first_page..<Suc k}" for i
    proof (cases "i = k")
      case True
      then show ?thesis using pend b by simp
    next
      case ne: False
      then have "pending st i \<or> host_mode (wl_calls st) (B + i) = page_mode (wl_pages st ! i)"
        using mid that by (auto simp: mid_inv_def)
      moreover have "pending st i \<Longrightarrow> wl_begin st \<le> i \<and> i \<le> k"
        using b(2) unfolding pending_def by linarith
      ultimately show ?thesis unfolding pend by blast
    qed
    moreover have "\<forall>i\<in>{wl_begin st..<Suc k}. Perms (wl_pages st ! i) = wl_perms st"
      using mid False unfolding mid_inv_def atLeastLessThanSuc_atLeastAtMost by blast
    moreover have "wl_begin st + wl_potential st div TRACKER_PAGE_SIZE \<le> Suc k" using b pot by simp
    moreover have "TRACKER_PAGE_SIZE dvd wl_potential st" using pot by simp
    moreover have "first_page \<le> k" "first_page \<le> wl_begin st" "length (wl_pages st) = length pages0"
      "\<forall>i. i < first_page \<or> Suc k \<le> i \<longrightarrow> wl_pages st ! i = pages0 ! i"
      "\<forall>p. p < B + first_page \<or> B + Suc k \<le> p \<longrightarrow> host_mode (wl_calls st) p = host_mode calls0 p"
      using mid False unfolding mid_inv_def by auto
    ultimately show ?thesis using pot unfolding loop_inv_def er
      by (intro conjI) simp_all
  qed
qed

lemma skip_range_inv:
  assumes mid: "mid_inv pages0 calls0 B first_page k st"
    and same: "host_mode calls0 (B + k) = page_mode (wl_pages st ! k)"
  shows "loop_inv pages0 calls0 B first_page (Suc k) st"
proof -
  have "host_mode (wl_calls st) (B + k) = page_mode (wl_pages st ! k)"
    using mid same by (auto simp: mid_inv_def)
  then show ?thesis using mid unfolding mid_inv_def loop_inv_def pending_def
    by (auto simp: less_Suc_eq less_Suc_eq_le)
qed

text \<open>What one iteration does to its page.\<close>

definition bumped :: "bool \<Rightarrow> bool \<Rightarrow> bool \<Rightarrow> page_state \<Rightarrow> page_state option" where
  "bumped update track is_read p = map_option snd (AddDelta (if update then (if track then 1 else -1) else 0) is_read p)"

lemma watch_page_inv:
  assumes inv: "loop_inv pages0 calls0 B first_page k st" and k: "k < length pages0"
    and coh: "\<And>i. i < length pages0 \<Longrightarrow> host_mode calls0 (B + i) = page_mode (pages0 ! i)"
    and step: "watch_page protect track is_read upd (B * TRACKER_PAGE_SIZE) k st = Some st'"
  shows "loop_inv pages0 calls0 B first_page (Suc k) st'"
    and "\<exists>u. upd k = Some u \<and> bumped u track is_read (pages0 ! k) = Some (wl_pages st' ! k)
      \<and> (\<forall>i. i \<noteq> k \<longrightarrow> wl_pages st' ! i = wl_pages st ! i)"
proof -
  have len: "length (wl_pages st) = length pages0" and pk: "wl_pages st ! k = pages0 ! k"
    and fk: "first_page \<le> k"
    using inv by (auto simp: loop_inv_def)
  obtain u n p' st2 where u: "upd k = Some u"
    and ad: "AddDelta (if u then (if track then 1 else -1) else 0) is_read (pages0 ! k) = Some (n, p')"
    and st2: "perms_step protect (B * TRACKER_PAGE_SIZE) (Perms p') (st\<lparr>wl_pages := (wl_pages st)[k := p']\<rparr>) = Some st2"
    and st': "st' = (if u \<and> ((track \<and> n = 1) \<or> (\<not> track \<and> n = 0)) \<and> Perms (pages0 ! k) \<noteq> Perms p'
              then extend_range k st2 else st2)"
    using step k len pk by (fastforce simp: watch_page_def bind_eq_Some_iff split: if_splits)
  note mid = perms_step_inv [OF inv k st2]
  have p': "wl_pages st2 ! k = p'" using mid(2) k len by simp
  show "loop_inv pages0 calls0 B first_page (Suc k) st'"
  proof (cases "u \<and> ((track \<and> n = 1) \<or> (\<not> track \<and> n = 0)) \<and> Perms (pages0 ! k) \<noteq> Perms p'")
    case True
    then show ?thesis using st' extend_range_inv(1) [OF mid(1)] by simp
  next
    case False
    have "Perms p' = Perms (pages0 ! k)"
    proof (cases u)
      case True
      then have "AddDelta (if track then 1 else -1) is_read (pages0 ! k) = Some (n, p')" using ad by simp
      then show ?thesis using AddDelta_edge True False by metis
    next
      case not_u: False
      then show ?thesis using ad by simp
    qed
    then have "host_mode calls0 (B + k) = page_mode (wl_pages st2 ! k)"
      using coh [OF k] p' Perms_eq_iff by metis
    then show ?thesis using skip_range_inv [OF mid(1)] unfolding st' if_not_P [OF False] by blast
  qed
  have "wl_pages st' = (wl_pages st)[k := p']"
    using st' mid(2) extend_range_inv(2) [OF mid(1)] by simp
  then show "\<exists>u. upd k = Some u \<and> bumped u track is_read (pages0 ! k) = Some (wl_pages st' ! k)
      \<and> (\<forall>i. i \<noteq> k \<longrightarrow> wl_pages st' ! i = wl_pages st ! i)"
    using u ad k len by (auto simp: bumped_def)
qed

lemma watch_pages_inv:
  assumes "watch_pages protect track is_read upd (B * TRACKER_PAGE_SIZE) [k..<l] st = Some st'"
    and "loop_inv pages0 calls0 B first_page k st" and "l \<le> length pages0" and "k \<le> l"
    and coh: "\<And>i. i < length pages0 \<Longrightarrow> host_mode calls0 (B + i) = page_mode (pages0 ! i)"
  shows "loop_inv pages0 calls0 B first_page l st'
    \<and> (\<forall>i\<in>{k..<l}. \<exists>u. upd i = Some u \<and> bumped u track is_read (pages0 ! i) = Some (wl_pages st' ! i))
    \<and> (\<forall>i. i < k \<or> l \<le> i \<longrightarrow> wl_pages st' ! i = wl_pages st ! i)"
  using assms(1,2,4)
proof (induction "l - k" arbitrary: k st)
  case 0
  then show ?case by simp
next
  case (Suc d)
  have kl: "k < l" using Suc.hyps(2) by simp
  then have upt: "[k..<l] = k # [Suc k..<l]" by (rule upt_conv_Cons)
  obtain st1 where st1: "watch_page protect track is_read upd (B * TRACKER_PAGE_SIZE) k st = Some st1"
    and rest: "watch_pages protect track is_read upd (B * TRACKER_PAGE_SIZE) [Suc k..<l] st1 = Some st'"
    using Suc.prems(1) unfolding upt by (auto simp: bind_eq_Some_iff)
  have "k < length pages0" using kl assms(3) by simp
  note w = watch_page_inv [OF Suc.prems(2) this coh st1]
  have "d = l - Suc k" using Suc.hyps(2) by simp
  note IH = Suc.hyps(1) [OF this rest w(1)]
  then have IH': "loop_inv pages0 calls0 B first_page l st'"
    "\<forall>i\<in>{Suc k..<l}. \<exists>u. upd i = Some u \<and> bumped u track is_read (pages0 ! i) = Some (wl_pages st' ! i)"
    "\<forall>i. i < Suc k \<or> l \<le> i \<longrightarrow> wl_pages st' ! i = wl_pages st1 ! i"
    using kl by simp_all
  obtain u where "upd k = Some u" "bumped u track is_read (pages0 ! k) = Some (wl_pages st1 ! k)"
    "\<forall>i. i \<noteq> k \<longrightarrow> wl_pages st1 ! i = wl_pages st ! i" using w(2) by blast
  moreover from this have "wl_pages st' ! k = wl_pages st1 ! k" using IH'(3) by blast
  moreover have "i = k \<or> i \<in> {Suc k..<l}" if "i \<in> {k..<l}" for i using that by auto
  ultimately have "\<forall>i\<in>{k..<l}. \<exists>u. upd i = Some u \<and> bumped u track is_read (pages0 ! i) = Some (wl_pages st' ! i)"
    using IH'(2) by metis
  moreover have "wl_pages st' ! i = wl_pages st ! i" if "i < k \<or> l \<le> i" for i
  proof -
    have "i \<noteq> k" "i < Suc k \<or> l \<le> i" using that kl by auto
    then show ?thesis using IH'(3) \<open>\<forall>i. i \<noteq> k \<longrightarrow> wl_pages st1 ! i = wl_pages st ! i\<close> by metis
  qed
  ultimately show ?case using IH'(1) by blast
qed

lemma UpdateRegionWatchers_spec:
  assumes run: "UpdateRegionWatchers protect track is_read msk (B * TRACKER_PAGE_SIZE) f l pages calls
      = Some (pages', calls')"
    and coh: "\<And>i. i < length pages \<Longrightarrow> host_mode calls (B + i) = page_mode (pages ! i)"
    and l: "l \<le> length pages" "f \<le> l"
  shows "length pages' = length pages"
    and "\<And>i. i < length pages \<Longrightarrow> host_mode calls' (B + i) = page_mode (pages' ! i)"
    and "\<And>p. p < B + f \<or> B + l \<le> p \<Longrightarrow> host_mode calls' p = host_mode calls p"
    and "\<And>i. i < f \<or> l \<le> i \<Longrightarrow> pages' ! i = pages ! i"
    and "\<And>i. f \<le> i \<Longrightarrow> i < l \<Longrightarrow> \<exists>u. (case msk of None \<Rightarrow> Some True | Some bits \<Rightarrow> BitArray_Get i bits) = Some u
      \<and> bumped u track is_read (pages ! i) = Some (pages' ! i)"
proof -
  let ?upd = "\<lambda>i. case msk of None \<Rightarrow> Some True | Some bits \<Rightarrow> BitArray_Get i bits"
  let ?st0 = "\<lparr>wl_pages = pages, wl_perms = Perms (pages ! f), wl_begin = 0, wl_bytes = 0,
                wl_potential = 0, wl_calls = calls\<rparr>"
  obtain st1 st2 where st1: "watch_pages protect track is_read ?upd (B * TRACKER_PAGE_SIZE) [f..<l] ?st0 = Some st1"
    and st2: "release_pending protect (B * TRACKER_PAGE_SIZE) st1 = Some st2"
    and res: "pages' = wl_pages st2" "calls' = wl_calls st2"
    using run by (auto simp: UpdateRegionWatchers_def bind_eq_Some_iff split: if_splits)
  have inv0: "loop_inv pages calls B f f ?st0" by (simp add: loop_inv_def)
  note w = watch_pages_inv [OF st1 inv0 l coh]
  have inv1: "loop_inv pages calls B f l st1" using w by blast
  note r = release_pending_inv [OF inv1 st2]
  show len: "length pages' = length pages" using r(1) by (simp add: loop_inv_def res)
  show out: "host_mode calls' p = host_mode calls p" if "p < B + f \<or> B + l \<le> p" for p
    using r(1) that unfolding loop_inv_def res by blast
  show same: "pages' ! i = pages ! i" if "i < f \<or> l \<le> i" for i
    using r(1) that unfolding loop_inv_def res by blast
  show "\<exists>u. ?upd i = Some u \<and> bumped u track is_read (pages ! i) = Some (pages' ! i)" if "f \<le> i" "i < l" for i
    using w that r(3) by (simp add: res)
  show "host_mode calls' (B + i) = page_mode (pages' ! i)" if "i < length pages" for i
  proof (cases "f \<le> i \<and> i < l")
    case True
    have "\<not> pending st2 i" using r(2) by (simp add: pending_def)
    then show ?thesis using r(1) True by (auto simp: loop_inv_def res)
  next
    case False
    then show ?thesis using out [of "B + i"] same [of i] coh [OF that] by auto
  qed
qed

section \<open>The manager\<close>

definition page_at :: "page_manager \<Rightarrow> nat \<Rightarrow> page_state" where
  "page_at pm p = (case pm_regions pm (p div TRACKER_REGION_PAGES) of
     None \<Rightarrow> new_page | Some pages \<Rightarrow> pages ! (p mod TRACKER_REGION_PAGES))"

definition pm_wf :: "page_manager \<Rightarrow> bool" where
  "pm_wf pm \<longleftrightarrow> (\<forall>r pages. pm_regions pm r = Some pages \<longrightarrow> length pages = TRACKER_REGION_PAGES)"

definition pm_coherent :: "page_manager \<Rightarrow> bool" where
  "pm_coherent pm \<longleftrightarrow> (\<forall>p. host_mode (pm_calls pm) p = page_mode (page_at pm p))"

lemma pm_wf_new [simp]: "pm_wf new_page_manager"
  by (simp add: pm_wf_def new_page_manager_def)

lemma page_mode_new_page [simp]: "page_mode new_page = ReadWrite"
  by (simp add: page_mode_def new_page_def)

lemma pm_coherent_new [simp]: "pm_coherent new_page_manager"
  by (simp add: pm_coherent_def new_page_manager_def page_at_def)

text \<open>
  \<open>watched\<close> relates the state before and after an operation: the pages in \<open>S\<close> are bumped, all
  others are as they were, and coherence is kept.
\<close>

definition watched :: "bool \<Rightarrow> bool \<Rightarrow> nat set \<Rightarrow> page_manager \<Rightarrow> page_manager \<Rightarrow> bool" where
  "watched track is_read S pm pm' \<longleftrightarrow> pm_wf pm' \<and> pm_coherent pm' \<and>
     (\<forall>p. bumped (p \<in> S) track is_read (page_at pm p) = Some (page_at pm' p))"

lemma bumped_False [simp]: "bumped False track is_read p = Some p"
  by (simp add: bumped_def)

lemma watched_trans:
  assumes "watched track is_read S pm pm1" and "watched track is_read T pm1 pm2" and "S \<inter> T = {}"
  shows "watched track is_read (S \<union> T) pm pm2"
  unfolding watched_def
proof (intro conjI allI)
  fix p
  have 1: "bumped (p \<in> S) track is_read (page_at pm p) = Some (page_at pm1 p)"
    and 2: "bumped (p \<in> T) track is_read (page_at pm1 p) = Some (page_at pm2 p)"
    using assms by (auto simp: watched_def)
  show "bumped (p \<in> S \<union> T) track is_read (page_at pm p) = Some (page_at pm2 p)"
    using 1 2 assms(3) by (cases "p \<in> S"; cases "p \<in> T") auto
qed (use assms(2) in \<open>auto simp: watched_def\<close>)

definition mask_has :: "bit_array option \<Rightarrow> nat \<Rightarrow> bool" where
  "mask_has msk i = (case msk of None \<Rightarrow> True | Some bits \<Rightarrow> i \<in> ba_bits bits)"

definition region_part :: "nat \<Rightarrow> nat \<Rightarrow> nat \<Rightarrow> bit_array option \<Rightarrow> nat set" where
  "region_part r f l msk = {p. p div TRACKER_REGION_PAGES = r \<and> f \<le> p mod TRACKER_REGION_PAGES \<and>
     p mod TRACKER_REGION_PAGES < l \<and> mask_has msk (p mod TRACKER_REGION_PAGES)}"

lemma region_part_interval:
  assumes "r * TRACKER_REGION_PAGES \<le> b" and "m \<le> (r + 1) * TRACKER_REGION_PAGES"
  shows "region_part r (b - r * TRACKER_REGION_PAGES) (m - r * TRACKER_REGION_PAGES) None = {b..<m}"
proof (rule set_eqI)
  fix p :: nat
  obtain q i where p: "p = q * 1024 + i" "i < 1024" "p div 1024 = q" "p mod 1024 = i"
    using mod_less_divisor [of 1024 p] div_mult_mod_eq [of p 1024] by (metis zero_less_numeral)
  consider "q = r" | "q + 1 \<le> r" | "r + 1 \<le> q" by linarith
  then show "p \<in> region_part r (b - r * TRACKER_REGION_PAGES) (m - r * TRACKER_REGION_PAGES) None \<longleftrightarrow> p \<in> {b..<m}"
  proof cases
    case 1
    have "b - r * 1024 \<le> i \<longleftrightarrow> b \<le> p" "i < m - r * 1024 \<longleftrightarrow> p < m" using 1 p(1) assms by linarith+
    then show ?thesis using 1 p(3,4) by (simp add: region_part_def mask_has_def)
  next
    case 2
    then have "\<not> b \<le> p" "p div 1024 \<noteq> r" using p(1-3) assms(1) by linarith+
    then show ?thesis by (simp add: region_part_def)
  next
    case 3
    then have "(r + 1) * 1024 \<le> q * 1024" by (rule mult_le_mono1)
    then have "\<not> p < m" using p(1) assms(2) by linarith
    moreover have "p div 1024 \<noteq> r" using 3 p(3) by linarith
    ultimately show ?thesis by (simp add: region_part_def)
  qed
qed

lemma page_in_region: "i < 1024 \<Longrightarrow> (1024 * r + i) div 1024 = (r :: nat) \<and> (1024 * r + i) mod 1024 = i"
  by simp

lemma update_region_spec:
  assumes wf: "pm_wf pm" and coh: "pm_coherent pm"
    and run: "update_region protect track is_read msk (r * TRACKER_REGION_SIZE) f l vaddr pm = Some pm'"
    and r: "vaddr div TRACKER_REGION_SIZE = r" and l: "f \<le> l" "l \<le> TRACKER_REGION_PAGES"
    and msk: "\<And>bits. msk = Some bits \<Longrightarrow> ba_N bits = TRACKER_REGION_PAGES"
  shows "watched track is_read (region_part r f l msk) pm pm'"
proof -
  obtain pages pages' calls where pg: "(if track then Some (GetOrCreatePages vaddr pm) else FindRegion vaddr pm) = Some pages"
    and up: "UpdateRegionWatchers protect track is_read msk (1024 * r * TRACKER_PAGE_SIZE) f l pages (pm_calls pm)
      = Some (pages', calls)"
    and pm': "pm' = \<lparr>pm_regions = (pm_regions pm)(r \<mapsto> pages'), pm_calls = calls\<rparr>"
    using run r by (auto simp: update_region_def bind_eq_Some_iff mult.commute)
  have len: "length pages = 1024"
    and at: "\<And>i. i < 1024 \<Longrightarrow> page_at pm (1024 * r + i) = pages ! i"
    using pg wf r by (auto simp: GetOrCreatePages_def FindRegion_def pm_wf_def page_at_def new_region_def
        split: if_splits option.splits)
  have coh': "host_mode (pm_calls pm) (1024 * r + i) = page_mode (pages ! i)" if "i < length pages" for i
    using coh at [of i] that len by (simp add: pm_coherent_def)
  have l': "l \<le> length pages" using l len by simp
  note u = UpdateRegionWatchers_spec [OF up coh' l' l(1)]
  have at': "page_at pm' p = (if p div 1024 = r then pages' ! (p mod 1024) else page_at pm p)" for p
    by (simp add: page_at_def pm')
  have calls': "pm_calls pm' = calls" by (simp add: pm')
  have upd: "(case msk of None \<Rightarrow> Some True | Some bits \<Rightarrow> BitArray_Get i bits) = Some (mask_has msk i)" if "i < l" for i
    using that l msk by (auto simp: mask_has_def BitArray_Get_iff split: option.splits)
  show ?thesis
    unfolding watched_def
  proof (intro conjI allI)
    show "pm_wf pm'" using wf u(1) len by (auto simp: pm_wf_def pm')
    show "pm_coherent pm'"
      unfolding pm_coherent_def
    proof
      fix p
      show "host_mode (pm_calls pm') p = page_mode (page_at pm' p)"
      proof (cases "p div 1024 = r")
        case True
        then have "1024 * r + p mod 1024 = p" by auto
        then show ?thesis using u(2) [of "p mod 1024"] len True by (simp add: at' calls')
      next
        case False
        then have "p < 1024 * r + f \<or> 1024 * r + l \<le> p"
          using l by (metis add_leD1 div_nat_eqI mult.commute mult_Suc_right not_le nat_add_left_cancel_le add.commute order.strict_trans2)
        then show ?thesis using u(3) coh False by (simp add: at' calls' pm_coherent_def)
      qed
    qed
    fix p
    show "bumped (p \<in> region_part r f l msk) track is_read (page_at pm p) = Some (page_at pm' p)"
    proof (cases "p div 1024 = r")
      case True
      let ?i = "p mod 1024"
      have p: "page_at pm p = pages ! ?i" using at [of ?i] True by auto
      show ?thesis
      proof (cases "f \<le> ?i \<and> ?i < l")
        case in_range: True
        then show ?thesis using u(5) [of ?i] upd [of ?i] True p by (auto simp: at' region_part_def)
      next
        case out: False
        then have "pages' ! ?i = pages ! ?i" using u(4) [of ?i] by auto
        then show ?thesis using out True p by (auto simp: at' region_part_def)
      qed
    next
      case False
      then show ?thesis by (simp add: at' region_part_def)
    qed
  qed
qed

lemma update_chunks_spec:
  assumes "update_chunks protect track is_read (b * TRACKER_PAGE_SIZE) (e * TRACKER_PAGE_SIZE) pm = Some pm'"
    and "pm_wf pm" and "pm_coherent pm"
  shows "watched track is_read {b..<e} pm pm'"
  using assms
proof (induction "e - b" arbitrary: b pm rule: less_induct)
  case less
  show ?case
  proof (cases "b < e")
    case False
    then have "pm' = pm" using less.prems(1) update_chunks.simps [of protect track is_read "b * TRACKER_PAGE_SIZE" "e * TRACKER_PAGE_SIZE" pm]
      by simp
    then show ?thesis using less.prems False by (simp add: watched_def)
  next
    case True
    define r where "r = b div TRACKER_REGION_PAGES"
    define m where "m = min e ((r + 1) * TRACKER_REGION_PAGES)"
    have rb: "b * TRACKER_PAGE_SIZE div TRACKER_REGION_SIZE = r"
      using div_mult_mult2 [of TRACKER_PAGE_SIZE b TRACKER_REGION_PAGES] by (simp add: r_def)
    have bm: "b < m" "m \<le> e" "r * TRACKER_REGION_PAGES \<le> b"
      using True by (auto simp: m_def r_def)
    have me: "min (e * TRACKER_PAGE_SIZE) ((r + 1) * TRACKER_REGION_SIZE) = m * TRACKER_PAGE_SIZE"
      by (auto simp: m_def min_def)
    have ranges: "(b * TRACKER_PAGE_SIZE - r * TRACKER_REGION_SIZE) div TRACKER_PAGE_SIZE = b - r * TRACKER_REGION_PAGES"
      "(m * TRACKER_PAGE_SIZE - r * TRACKER_REGION_SIZE) div TRACKER_PAGE_SIZE = m - r * TRACKER_REGION_PAGES"
      using div_mult_self1_is_m [of TRACKER_PAGE_SIZE] by (simp_all add: diff_mult_distrib flip: mult.assoc)
    obtain pm1 where pm1: "update_region protect track is_read None (r * TRACKER_REGION_SIZE)
        (b - r * TRACKER_REGION_PAGES) (m - r * TRACKER_REGION_PAGES) (b * TRACKER_PAGE_SIZE) pm = Some pm1"
      and rest: "update_chunks protect track is_read (m * TRACKER_PAGE_SIZE) (e * TRACKER_PAGE_SIZE) pm1 = Some pm'"
      using less.prems(1) True update_chunks.simps [of protect track is_read "b * TRACKER_PAGE_SIZE" "e * TRACKER_PAGE_SIZE" pm]
      unfolding rb me by (auto simp: Let_def ranges bind_eq_Some_iff)
    have ml: "b - r * TRACKER_REGION_PAGES \<le> m - r * TRACKER_REGION_PAGES" "m - r * TRACKER_REGION_PAGES \<le> TRACKER_REGION_PAGES"
      using bm by (auto simp: m_def)
    have w1: "watched track is_read (region_part r (b - r * TRACKER_REGION_PAGES) (m - r * TRACKER_REGION_PAGES) None) pm pm1"
      by (rule update_region_spec [OF less.prems(2,3) pm1 rb ml]) simp
    moreover have "region_part r (b - r * TRACKER_REGION_PAGES) (m - r * TRACKER_REGION_PAGES) None = {b..<m}"
      using bm by (intro region_part_interval) (auto simp: m_def)
    ultimately have w1': "watched track is_read {b..<m} pm pm1" by simp
    have "watched track is_read {m..<e} pm1 pm'"
      using less.hyps [OF _ rest] w1 bm True by (auto simp: watched_def)
    from watched_trans [OF w1' this] show ?thesis using bm by (auto simp: ivl_disj_un)
  qed
qed

lemma Impl_UpdatePageWatchers_spec:
  assumes run: "Impl_UpdatePageWatchers protect track is_read vaddr bytes pm = Some pm'"
    and "pm_wf pm" and "pm_coherent pm"
  shows "watched track is_read {vaddr div TRACKER_PAGE_SIZE..(vaddr + bytes - 1) div TRACKER_PAGE_SIZE} pm pm'"
proof -
  have start: "PageStart x = x div TRACKER_PAGE_SIZE * TRACKER_PAGE_SIZE" for x
    by (simp add: PageStart_def minus_mod_eq_div_mult)
  have "update_chunks protect track is_read (vaddr div TRACKER_PAGE_SIZE * TRACKER_PAGE_SIZE)
      (((vaddr + bytes - 1) div TRACKER_PAGE_SIZE + 1) * TRACKER_PAGE_SIZE) pm = Some pm'"
    using run by (auto simp: Impl_UpdatePageWatchers_def PageEnd_def bind_eq_Some_iff start algebra_simps)
  from update_chunks_spec [OF this assms(2,3)] show ?thesis
    by (simp add: atLeastLessThanSuc_atLeastAtMost)
qed

lemma UpdatePageWatchers_spec:
  assumes "UpdatePageWatchers protect track vaddr bytes pm = Some pm'"
    and "pm_wf pm" and "pm_coherent pm"
  shows "watched track False {vaddr div TRACKER_PAGE_SIZE..(vaddr + bytes - 1) div TRACKER_PAGE_SIZE} pm pm'"
  using assms by (intro Impl_UpdatePageWatchers_spec) (auto simp: UpdatePageWatchers_def bind_eq_Some_iff)

lemma FirstRange_LastRange:
  assumes any: "ba_bits m \<noteq> {}"
  obtains f l f' l' where "BitArray_FirstRange m = (f, l)" "BitArray_LastRange m = (f', l')"
    "f < l" "l \<le> l'" "l' \<le> ba_N m" "f < l'" "ba_bits m \<subseteq> {f..<l'}" "l = l' \<Longrightarrow> ba_bits m = {f..<l'}"
proof -
  obtain f l f' l' where fl: "BitArray_FirstRange m = (f, l)" and fl': "BitArray_LastRange m = (f', l')"
    by (metis surj_pair)
  have F: "(f < l \<and> l \<le> ba_N m \<and> ba_bits m \<inter> {0..<f} = {} \<and> {f..<l} \<subseteq> ba_bits m \<and> l \<notin> ba_bits m)"
    using FirstRangeFrom_spec [of 0 m f l] fl any by (auto simp: BitArray_FirstRange_def)
  have sub: "ba_bits m \<subseteq> {..<ba_N m}" using ba_bits_bound by auto
  have L: "f' < l' \<and> l' \<le> ba_N m \<and> ba_bits m \<inter> {l'..<ba_N m} = {} \<and> {f'..<l'} \<subseteq> ba_bits m"
    using LastRangeFrom_spec [of "ba_N m" m f' l'] fl' any sub by (auto simp: BitArray_LastRange_def)
  have "l - 1 \<in> ba_bits m" using F by auto
  have ll: "l \<le> l'"
  proof (rule ccontr)
    assume "\<not> l \<le> l'"
    then have "l - 1 \<in> ba_bits m \<inter> {l'..<ba_N m}" using \<open>l - 1 \<in> ba_bits m\<close> F by auto
    then show False using L by blast
  qed
  have s: "ba_bits m \<subseteq> {f..<l'}"
  proof
    fix x assume x: "x \<in> ba_bits m"
    then have "x < ba_N m" using sub by auto
    then show "x \<in> {f..<l'}" using x F L by (metis Int_iff atLeastLessThan_iff empty_iff linorder_not_le zero_le)
  qed
  show ?thesis using that [OF fl fl'] F L ll s by auto
qed

text \<open>The pages of the region at \<open>base_addr\<close> whose bits are set.\<close>

definition mask_pages :: "u64 \<Rightarrow> bit_array \<Rightarrow> nat set" where
  "mask_pages base_addr msk = {p. p div TRACKER_REGION_PAGES = base_addr div TRACKER_REGION_SIZE \<and>
     p mod TRACKER_REGION_PAGES \<in> ba_bits msk}"

lemma UpdatePageWatchersForRegion_spec:
  assumes run: "UpdatePageWatchersForRegion protect track is_read base_addr msk pm = Some pm'"
    and N: "ba_N msk = TRACKER_REGION_PAGES" and wf: "pm_wf pm" and coh: "pm_coherent pm"
  shows "watched track is_read (mask_pages base_addr msk) pm pm'"
proof -
  define r where "r = base_addr div TRACKER_REGION_SIZE"
  have base: "base_addr = r * TRACKER_REGION_SIZE"
    using run by (auto simp: UpdatePageWatchersForRegion_def r_def)
  have any: "ba_bits msk \<noteq> {}"
  proof
    assume "ba_bits msk = {}"
    then have "fst (BitArray_FirstRange msk) = TRACKER_REGION_PAGES"
      using FirstRangeFrom_spec [of 0 msk "fst (BitArray_FirstRange msk)" "snd (BitArray_FirstRange msk)"] N
      by (auto simp: BitArray_FirstRange_def)
    then show False using run by (simp add: UpdatePageWatchersForRegion_def Let_def bind_eq_Some_iff)
  qed
  obtain f l f' l' where fl: "BitArray_FirstRange msk = (f, l)" "BitArray_LastRange msk = (f', l')"
    and b: "f < l" "l \<le> l'" "l' \<le> TRACKER_REGION_PAGES" "f < l'" "ba_bits msk \<subseteq> {f..<l'}"
    and whole: "l = l' \<Longrightarrow> ba_bits msk = {f..<l'}"
    using FirstRange_LastRange [OF any] N by metis
  have part: "mask_pages base_addr msk = region_part r f l' (Some msk)"
    using b(5) by (auto simp: mask_pages_def region_part_def mask_has_def r_def)
  show ?thesis
  proof (cases "l = l'")
    case False
    then have "update_region protect track is_read (Some msk) (r * TRACKER_REGION_SIZE) f l' base_addr pm = Some pm'"
      using run fl by (simp add: UpdatePageWatchersForRegion_def Let_def bind_eq_Some_iff flip: base)
    from update_region_spec [OF wf coh this] b N show ?thesis by (simp add: part r_def)
  next
    case True
    then have *: "Impl_UpdatePageWatchers protect track is_read (base_addr + f * TRACKER_PAGE_SIZE)
        ((l' - f) * TRACKER_PAGE_SIZE) pm = Some pm'"
      using run fl by (simp add: UpdatePageWatchersForRegion_def Let_def bind_eq_Some_iff)
    define d where "d = l' - f - 1"
    then have d: "l' = f + d + 1" using b(4) by simp
    have "l' - f = d + 1" using d by simp
    then have e: "base_addr + f * TRACKER_PAGE_SIZE + (l' - f) * TRACKER_PAGE_SIZE - 1 = (r * 1024 + f + d) * 4096 + 4095"
      unfolding base by (simp add: algebra_simps)
    have e0: "base_addr + f * TRACKER_PAGE_SIZE = (r * 1024 + f) * 4096" by (simp add: base)
    have dv: "x * 4096 div 4096 = x" "(x * 4096 + 4095) div 4096 = x" for x :: nat by simp_all
    have "{(base_addr + f * TRACKER_PAGE_SIZE) div TRACKER_PAGE_SIZE..
        (base_addr + f * TRACKER_PAGE_SIZE + (l' - f) * TRACKER_PAGE_SIZE - 1) div TRACKER_PAGE_SIZE}
      = {r * 1024 + f..r * 1024 + f + d}"
      unfolding e unfolding e0 dv ..
    also have "\<dots> = {r * 1024 + f..<r * 1024 + l'}" using d by auto
    also have "\<dots> = region_part r f l' None"
      using region_part_interval [of r "r * 1024 + f" "r * 1024 + l'"] b by simp
    also have "\<dots> = region_part r f l' (Some msk)"
      using whole [OF True] by (auto simp: region_part_def mask_has_def)
    finally show ?thesis using Impl_UpdatePageWatchers_spec [OF * wf coh] by (simp add: part)
  qed
qed

section \<open>An update of valid counts succeeds\<close>

text \<open>Here the operating system never refuses a protection change.\<close>

lemma release_pending_total:
  assumes "\<forall>c. protect c" and "ToMemoryMode (wl_perms st) \<noteq> None"
  shows "\<exists>st'. release_pending protect base st = Some st' \<and> wl_pages st' = wl_pages st \<and> wl_perms st' = wl_perms st"
  using assms by (auto simp: release_pending_def Protect_def)

lemma watch_page_total:
  assumes ok: "\<forall>c. protect c" and valid: "ToMemoryMode (wl_perms st) \<noteq> None" and k: "k < length (wl_pages st)"
    and u: "upd k = Some u" and b: "bumped u track is_read (wl_pages st ! k) \<noteq> None"
  shows "\<exists>st'. watch_page protect track is_read upd base k st = Some st' \<and> ToMemoryMode (wl_perms st') \<noteq> None
    \<and> length (wl_pages st') = length (wl_pages st) \<and> (\<forall>i. i \<noteq> k \<longrightarrow> wl_pages st' ! i = wl_pages st ! i)"
proof -
  obtain n q where ad: "AddDelta (if u then (if track then 1 else -1) else 0) is_read (wl_pages st ! k) = Some (n, q)"
    using b by (auto simp: bumped_def)
  let ?st1 = "st\<lparr>wl_pages := (wl_pages st)[k := q]\<rparr>"
  have "\<exists>st2. perms_step protect base (Perms q) ?st1 = Some st2 \<and> wl_perms st2 = Perms q \<and> wl_pages st2 = wl_pages ?st1"
    using release_pending_total [of protect ?st1 base] ok valid by (auto simp: perms_step_def)
  then obtain st2 where st2: "perms_step protect base (Perms q) ?st1 = Some st2" "wl_perms st2 = Perms q"
    "wl_pages st2 = wl_pages ?st1" by blast
  have e: "wl_perms (extend_range k x) = wl_perms x" "wl_pages (extend_range k x) = wl_pages x" for x
    by (simp_all add: extend_range_def Let_def)
  show ?thesis using k u ad st2 e by (simp add: watch_page_def)
qed

lemma watch_pages_total:
  assumes ok: "\<forall>c. protect c"
  shows "ToMemoryMode (wl_perms st) \<noteq> None \<Longrightarrow> distinct is \<Longrightarrow>
    (\<forall>i\<in>set is. i < length (wl_pages st) \<and> (\<exists>u. upd i = Some u \<and> bumped u track is_read (wl_pages st ! i) \<noteq> None)) \<Longrightarrow>
    \<exists>st'. watch_pages protect track is_read upd base is st = Some st' \<and> ToMemoryMode (wl_perms st') \<noteq> None"
proof (induction "is" arbitrary: st)
  case (Cons k ks)
  obtain u where "upd k = Some u" "bumped u track is_read (wl_pages st ! k) \<noteq> None" "k < length (wl_pages st)"
    using Cons.prems(3) by auto
  note t = watch_page_total [of protect st k upd u track is_read base, OF ok Cons.prems(1) this(3,1,2)]
  obtain st1 where 1: "watch_page protect track is_read upd base k st = Some st1"
    "ToMemoryMode (wl_perms st1) \<noteq> None" "length (wl_pages st1) = length (wl_pages st)"
    "\<forall>i. i \<noteq> k \<longrightarrow> wl_pages st1 ! i = wl_pages st ! i" using t by blast
  have "\<forall>i\<in>set ks. i < length (wl_pages st1) \<and> (\<exists>u. upd i = Some u \<and> bumped u track is_read (wl_pages st1 ! i) \<noteq> None)"
    using Cons.prems(2,3) 1(3,4) by (metis distinct.simps(2) list.set_intros(2))
  from Cons.IH [OF 1(2) _ this] Cons.prems(2) 1(1) show ?case by auto
qed simp

lemma UpdateRegionWatchers_total:
  assumes ok: "\<forall>c. protect c" and l: "f < length pages" "l \<le> length pages"
    and b: "\<And>i. f \<le> i \<Longrightarrow> i < l \<Longrightarrow> \<exists>u. (case msk of None \<Rightarrow> Some True | Some bits \<Rightarrow> BitArray_Get i bits) = Some u
      \<and> bumped u track is_read (pages ! i) \<noteq> None"
  shows "\<exists>pages' calls'. UpdateRegionWatchers protect track is_read msk base f l pages calls = Some (pages', calls')"
proof -
  let ?upd = "\<lambda>i. case msk of None \<Rightarrow> Some True | Some bits \<Rightarrow> BitArray_Get i bits"
  let ?st = "\<lparr>wl_pages = pages, wl_perms = Perms (pages ! f), wl_begin = 0, wl_bytes = 0,
                wl_potential = 0, wl_calls = calls\<rparr>"
  have "\<exists>st'. watch_pages protect track is_read ?upd base [f..<l] ?st = Some st' \<and> ToMemoryMode (wl_perms st') \<noteq> None"
    by (rule watch_pages_total [OF ok]) (use b l in auto)
  then obtain st' where st': "watch_pages protect track is_read ?upd base [f..<l] ?st = Some st'"
    "ToMemoryMode (wl_perms st') \<noteq> None" by blast
  obtain st'' where "release_pending protect base st' = Some st''"
    using release_pending_total [OF ok st'(2)] by blast
  then show ?thesis using l st' by (simp add: UpdateRegionWatchers_def)
qed

lemma update_region_total:
  assumes ok: "\<forall>c. protect c" and wf: "pm_wf pm"
    and r: "vaddr div TRACKER_REGION_SIZE = r" "vaddr < TRACKER_ADDRESS_SIZE" and l: "f < l" "l \<le> TRACKER_REGION_PAGES"
    and msk: "mask_has msk f" "\<And>bits. msk = Some bits \<Longrightarrow> ba_N bits = TRACKER_REGION_PAGES"
    and b: "\<And>i. f \<le> i \<Longrightarrow> i < l \<Longrightarrow> bumped (mask_has msk i) track is_read (page_at pm (TRACKER_REGION_PAGES * r + i)) \<noteq> None"
  shows "\<exists>pm'. update_region protect track is_read msk base f l vaddr pm = Some pm'"
proof -
  have at: "page_at pm (1024 * r + i) = (case pm_regions pm r of None \<Rightarrow> new_page | Some ps \<Rightarrow> ps ! i)" if "i < 1024" for i
    using page_in_region [OF that, of r] unfolding page_at_def by (simp only: simp_thms)
  obtain pages where pg: "(if track then Some (GetOrCreatePages vaddr pm) else FindRegion vaddr pm) = Some pages"
    and len: "length pages = 1024" and at': "\<And>i. i < 1024 \<Longrightarrow> page_at pm (1024 * r + i) = pages ! i"
  proof (cases "pm_regions pm r")
    case None
    have "track"
    proof (rule ccontr)
      assume "\<not> track"
      moreover have "bumped True False is_read new_page = None"
        by (simp add: bumped_def AddDelta_def new_page_def)
      ultimately show False using b [of f] at [of f] l None msk(1) by simp
    qed
    then show ?thesis using that [of new_region] None r at by (simp add: GetOrCreatePages_def new_region_def)
  next
    case (Some ps)
    then show ?thesis using that [of ps] wf r at by (auto simp: GetOrCreatePages_def FindRegion_def pm_wf_def)
  qed
  have upd: "(case msk of None \<Rightarrow> Some True | Some bits \<Rightarrow> BitArray_Get i bits) = Some (mask_has msk i)" if "i < l" for i
    using that l msk(2) by (auto simp: mask_has_def BitArray_Get_iff split: option.splits)
  have "\<exists>pages' calls'. UpdateRegionWatchers protect track is_read msk base f l pages (pm_calls pm) = Some (pages', calls')"
    by (rule UpdateRegionWatchers_total [OF ok]) (use l len b at' upd in auto)
  then obtain pages' calls' where "UpdateRegionWatchers protect track is_read msk base f l pages (pm_calls pm) = Some (pages', calls')"
    by blast
  then show ?thesis using pg by (auto simp: update_region_def bind_eq_Some_iff split: if_splits)
qed

lemma update_chunks_total:
  assumes "\<forall>c. protect c" and "pm_wf pm" and "pm_coherent pm" and "e * TRACKER_PAGE_SIZE \<le> TRACKER_ADDRESS_SIZE"
    and "\<And>p. b \<le> p \<Longrightarrow> p < e \<Longrightarrow> bumped True track is_read (page_at pm p) \<noteq> None"
  shows "\<exists>pm'. update_chunks protect track is_read (b * TRACKER_PAGE_SIZE) (e * TRACKER_PAGE_SIZE) pm = Some pm'"
  using assms
proof (induction "e - b" arbitrary: b pm rule: less_induct)
  case less
  show ?case
  proof (cases "b < e")
    case False
    then show ?thesis using update_chunks.simps [of protect track is_read "b * TRACKER_PAGE_SIZE" "e * TRACKER_PAGE_SIZE" pm]
      by simp
  next
    case True
    define r where "r = b div TRACKER_REGION_PAGES"
    define m where "m = min e ((r + 1) * TRACKER_REGION_PAGES)"
    have rb: "b * TRACKER_PAGE_SIZE div TRACKER_REGION_SIZE = r"
      using div_mult_mult2 [of TRACKER_PAGE_SIZE b TRACKER_REGION_PAGES] by (simp add: r_def)
    have bm: "b < m" "m \<le> e" "r * TRACKER_REGION_PAGES \<le> b"
      using True by (auto simp: m_def r_def)
    have me: "min (e * TRACKER_PAGE_SIZE) ((r + 1) * TRACKER_REGION_SIZE) = m * TRACKER_PAGE_SIZE"
      by (auto simp: m_def min_def)
    have ranges: "(b * TRACKER_PAGE_SIZE - r * TRACKER_REGION_SIZE) div TRACKER_PAGE_SIZE = b - r * TRACKER_REGION_PAGES"
      "(m * TRACKER_PAGE_SIZE - r * TRACKER_REGION_SIZE) div TRACKER_PAGE_SIZE = m - r * TRACKER_REGION_PAGES"
      using div_mult_self1_is_m [of TRACKER_PAGE_SIZE] by (simp_all add: diff_mult_distrib flip: mult.assoc)
    have l: "b - r * TRACKER_REGION_PAGES < m - r * TRACKER_REGION_PAGES" "m - r * TRACKER_REGION_PAGES \<le> TRACKER_REGION_PAGES"
      using bm by (auto simp: m_def)
    have "b * TRACKER_PAGE_SIZE < TRACKER_ADDRESS_SIZE" using True less.prems(4) by simp
    moreover have "bumped True track is_read (page_at pm (TRACKER_REGION_PAGES * r + i)) \<noteq> None"
      if "b - r * TRACKER_REGION_PAGES \<le> i" "i < m - r * TRACKER_REGION_PAGES" for i
      by (rule less.prems(5)) (use that bm in auto)
    ultimately obtain pm1 where pm1: "update_region protect track is_read None (r * TRACKER_REGION_SIZE)
        (b - r * TRACKER_REGION_PAGES) (m - r * TRACKER_REGION_PAGES) (b * TRACKER_PAGE_SIZE) pm = Some pm1"
      using update_region_total [of protect pm "b * TRACKER_PAGE_SIZE" r _ _ None track is_read,
        OF less.prems(1,2) rb _ l]
      by (fastforce simp: mask_has_def)
    have w: "watched track is_read (region_part r (b - r * TRACKER_REGION_PAGES) (m - r * TRACKER_REGION_PAGES) None) pm pm1"
      by (rule update_region_spec [OF less.prems(2,3) pm1 rb less_imp_le [OF l(1)] l(2)]) simp
    have w': "bumped (p \<in> {b..<m}) track is_read (page_at pm p) = Some (page_at pm1 p)" for p
      using w region_part_interval [OF bm(3), of m] by (simp add: watched_def m_def)
    have "page_at pm1 p = page_at pm p" if "m \<le> p" for p using w' [of p] that by simp
    then have "\<exists>pm'. update_chunks protect track is_read (m * TRACKER_PAGE_SIZE) (e * TRACKER_PAGE_SIZE) pm1 = Some pm'"
      using less.hyps [of m pm1] less.prems(1,4,5) w bm by (auto simp: watched_def)
    then show ?thesis
      using True pm1 update_chunks.simps [of protect track is_read "b * TRACKER_PAGE_SIZE" "e * TRACKER_PAGE_SIZE" pm]
      unfolding rb me by (auto simp: Let_def ranges)
  qed
qed

lemma UpdatePageWatchers_total:
  assumes "\<forall>c. protect c" and "pm_wf pm" and "pm_coherent pm"
    and v: "0 < vaddr" "0 < bytes" "vaddr + bytes \<le> TRACKER_ADDRESS_SIZE"
    and b: "\<And>p. p \<in> {vaddr div TRACKER_PAGE_SIZE..(vaddr + bytes - 1) div TRACKER_PAGE_SIZE} \<Longrightarrow>
      bumped True track False (page_at pm p) \<noteq> None"
  shows "\<exists>pm'. UpdatePageWatchers protect track vaddr bytes pm = Some pm'"
proof -
  have start: "PageStart x = x div TRACKER_PAGE_SIZE * TRACKER_PAGE_SIZE" for x
    by (simp add: PageStart_def minus_mod_eq_div_mult)
  have "((vaddr + bytes - 1) div TRACKER_PAGE_SIZE + 1) * TRACKER_PAGE_SIZE \<le> TRACKER_ADDRESS_SIZE"
  proof -
    have "(vaddr + bytes - 1) div 4096 \<le> 1099511627775 div 4096" using v by (intro div_le_mono) simp
    then show ?thesis by simp
  qed
  then have "\<exists>pm'. update_chunks protect track False (vaddr div TRACKER_PAGE_SIZE * TRACKER_PAGE_SIZE)
      (((vaddr + bytes - 1) div TRACKER_PAGE_SIZE + 1) * TRACKER_PAGE_SIZE) pm = Some pm'"
    by (intro update_chunks_total [OF assms(1-3)] b) auto
  then show ?thesis using v
    by (auto simp: UpdatePageWatchers_def Impl_UpdatePageWatchers_def PageEnd_def pm_ValidateRange_def start algebra_simps)
qed


lemma UpdatePageWatchersForRegion_total:
  assumes ok: "\<forall>c. protect c" and wf: "pm_wf pm" and coh: "pm_coherent pm"
    and N: "ba_N msk = TRACKER_REGION_PAGES" and any: "ba_bits msk \<noteq> {}"
    and base: "base_addr mod TRACKER_REGION_SIZE = 0" "base_addr < TRACKER_ADDRESS_SIZE"
    and b: "\<And>p. p \<in> mask_pages base_addr msk \<Longrightarrow> bumped True track is_read (page_at pm p) \<noteq> None"
  shows "\<exists>pm'. UpdatePageWatchersForRegion protect track is_read base_addr msk pm = Some pm'"
proof -
  define r where "r = base_addr div TRACKER_REGION_SIZE"
  have br: "base_addr = r * TRACKER_REGION_SIZE" and r: "r < 262144" using base by (auto simp: r_def)
  then have rs: "TRACKER_REGION_SIZE \<le> TRACKER_ADDRESS_SIZE - base_addr" by linarith
  obtain f l f' l' where fl: "BitArray_FirstRange msk = (f, l)" "BitArray_LastRange msk = (f', l')"
    and fb: "f < l" "l \<le> l'" "l' \<le> TRACKER_REGION_PAGES" "f < l'" "ba_bits msk \<subseteq> {f..<l'}"
    and whole: "l = l' \<Longrightarrow> ba_bits msk = {f..<l'}"
    using FirstRange_LastRange [OF any] N by metis
  have f: "f \<in> ba_bits msk"
    using FirstRangeFrom_spec [of 0 msk f l] fl fb N by (auto simp: BitArray_FirstRange_def)
  have mem: "TRACKER_REGION_PAGES * r + i \<in> mask_pages base_addr msk \<longleftrightarrow> i \<in> ba_bits msk" if "i < TRACKER_REGION_PAGES" for i
    using page_in_region [OF that, of r] unfolding mask_pages_def mem_Collect_eq by (simp only: r_def simp_thms)
  show ?thesis
  proof (cases "l = l'")
    case False
    have "\<exists>pm'. update_region protect track is_read (Some msk) base_addr f l' base_addr pm = Some pm'"
    proof (rule update_region_total [OF ok wf r_def [symmetric] base(2) fb(4,3)])
      fix i assume i: "f \<le> i" "i < l'"
      then show "bumped (mask_has (Some msk) i) track is_read (page_at pm (TRACKER_REGION_PAGES * r + i)) \<noteq> None"
        using mem [of i] b fb(3) by (cases "i \<in> ba_bits msk") (auto simp: mask_has_def)
    qed (use f N in \<open>auto simp: mask_has_def\<close>)
    then show ?thesis using fl fb base rs False by (simp add: UpdatePageWatchersForRegion_def Let_def)
  next
    case True
    define d where "d = l' - f - 1"
    then have d: "l' = f + d + 1" using fb(4) by simp
    then have "l' - f = d + 1" by simp
    then have e: "base_addr + f * TRACKER_PAGE_SIZE + (l' - f) * TRACKER_PAGE_SIZE - 1 = (r * 1024 + f + d) * 4096 + 4095"
      unfolding br by (simp add: algebra_simps)
    have e0: "base_addr + f * TRACKER_PAGE_SIZE = (r * 1024 + f) * 4096" by (simp add: br)
    have dv: "(x * 4096 + 4095) div 4096 = x" "x * 4096 - x * 4096 mod 4096 = x * 4096"
      "x * 4096 + 4095 - (x * 4096 + 4095) mod 4096 = x * 4096" for x :: nat by simp_all
    have pe: "PageEnd (base_addr + f * TRACKER_PAGE_SIZE) ((l' - f) * TRACKER_PAGE_SIZE) True = Some ((r * 1024 + l') * 4096)"
    proof -
      have "base_addr + f * TRACKER_PAGE_SIZE + (l' - f) * TRACKER_PAGE_SIZE \<le> TRACKER_ADDRESS_SIZE"
        using rs fb(3,4) d base(2) by simp
      moreover have "0 < (l' - f) * TRACKER_PAGE_SIZE" using fb(4) by simp
      moreover have "pm_ValidateRange a n True = Some ()" if "a + n \<le> TRACKER_ADDRESS_SIZE" "0 < n" for a n
        using that by (auto simp: pm_ValidateRange_def)
      ultimately have "pm_ValidateRange (base_addr + f * TRACKER_PAGE_SIZE) ((l' - f) * TRACKER_PAGE_SIZE) True = Some ()"
        by blast
      then show ?thesis unfolding PageEnd_def e PageStart_def dv using d by simp
    qed
    have "\<exists>pm'. update_chunks protect track is_read ((r * 1024 + f) * 4096) ((r * 1024 + l') * 4096) pm = Some pm'"
    proof (rule update_chunks_total [OF ok wf coh])
      show "(r * 1024 + l') * 4096 \<le> TRACKER_ADDRESS_SIZE" using fb(3) r by simp
      fix p assume p: "r * 1024 + f \<le> p" "p < r * 1024 + l'"
      define i where "i = p - r * 1024"
      have i: "p = TRACKER_REGION_PAGES * r + i" "i \<in> {f..<l'}" "i < TRACKER_REGION_PAGES"
        using p fb(3) by (auto simp: i_def)
      then show "bumped True track is_read (page_at pm p) \<noteq> None" using b mem [OF i(3)] whole [OF True] by blast
    qed
    then show ?thesis using fl fb base rs True pe
      by (simp add: UpdatePageWatchersForRegion_def Impl_UpdatePageWatchers_def Let_def e0 PageStart_def dv)
  qed
qed

section \<open>Properties\<close>

text \<open>
  C15: Watching or unwatching any valid byte range, when no count overflows or underflows,
  succeeds; it changes the write count of exactly the pages the range touches by one, and
  afterwards every page of the address space has the host protection its counts call for,
  although the code only protects the coalesced runs of pages whose protection changed.
\<close>

theorem watch_update_correct:
  assumes "\<forall>c. protect c" and "pm_wf pm" and "pm_coherent pm"
    and "0 < vaddr" and "0 < bytes" and "vaddr + bytes \<le> TRACKER_ADDRESS_SIZE"
    and "\<forall>p\<in>{vaddr div TRACKER_PAGE_SIZE..(vaddr + bytes - 1) div TRACKER_PAGE_SIZE}.
      write_watchers (page_at pm p) \<noteq> (if track then 127 else 0)"
  shows "\<exists>pm'. UpdatePageWatchers protect track vaddr bytes pm = Some pm' \<and> pm_wf pm' \<and>
    (\<forall>p. page_at pm' p =
      (if p \<in> {vaddr div TRACKER_PAGE_SIZE..(vaddr + bytes - 1) div TRACKER_PAGE_SIZE}
       then page_at pm p\<lparr>write_watchers := (if track then write_watchers (page_at pm p) + 1 else write_watchers (page_at pm p) - 1)\<rparr>
       else page_at pm p)) \<and>
    (\<forall>p. host_mode (pm_calls pm') p = page_mode (page_at pm' p))"
proof -
  let ?S = "{vaddr div TRACKER_PAGE_SIZE..(vaddr + bytes - 1) div TRACKER_PAGE_SIZE}"
  have b: "bumped True track False (page_at pm p) = Some (page_at pm p\<lparr>write_watchers :=
      (if track then write_watchers (page_at pm p) + 1 else write_watchers (page_at pm p) - 1)\<rparr>)" if "p \<in> ?S" for p
    using assms(7) that by (cases track) (auto simp: bumped_def AddDelta_def)
  then obtain pm' where run: "UpdatePageWatchers protect track vaddr bytes pm = Some pm'"
    using UpdatePageWatchers_total [OF assms(1-6)] by (metis option.distinct(1))
  have w: "watched track False ?S pm pm'" by (rule UpdatePageWatchers_spec [OF run assms(2,3)])
  have "page_at pm' p = (if p \<in> ?S then page_at pm p\<lparr>write_watchers :=
      (if track then write_watchers (page_at pm p) + 1 else write_watchers (page_at pm p) - 1)\<rparr> else page_at pm p)" for p
  proof (cases "p \<in> ?S")
    case True
    then have "bumped True track False (page_at pm p) = Some (page_at pm' p)" using w unfolding watched_def by (metis (full_types))
    then show ?thesis using b [OF True] True by simp
  next
    case False
    then have "bumped False track False (page_at pm p) = Some (page_at pm' p)" using w unfolding watched_def by (metis (full_types))
    then show ?thesis unfolding if_not_P [OF False] by simp
  qed
  moreover have "pm_wf pm'" "\<forall>p. host_mode (pm_calls pm') p = page_mode (page_at pm' p)"
    using w by (simp_all add: watched_def pm_coherent_def)
  ultimately show ?thesis using run by blast
qed

theorem watch_update_correct_witness:
  "\<exists>pm'. UpdatePageWatchers (\<lambda>_. True) True 4194300 8 new_page_manager = Some pm' \<and>
    host_mode (pm_calls pm') 1023 = Read \<and> host_mode (pm_calls pm') 1024 = Read \<and> host_mode (pm_calls pm') 1025 = ReadWrite"
proof -
  have pg: "page_at new_page_manager p = new_page" for p by (simp add: page_at_def new_page_manager_def)
  show ?thesis
    using watch_update_correct [of "\<lambda>_. True" new_page_manager 4194300 8 True]
    by (auto simp: pg new_page_def page_mode_def)
qed

end
