(* ===== verification/RegionManager.thy ===== *)
theory RegionManager
  imports PageManager ByteStore
begin

text \<open>
  \<open>RegionManager\<close> (src/src/graphics/host_gpu/regionManager.h): for the 1024 pages of one 4 MiB
  region, which were written by the CPU since the GPU last read them (\<open>cpu_dirty\<close>) and which
  were written by the GPU and not read back (\<open>gpu_dirty\<close>), with the shadow copies \<open>writable\<close>
  and \<open>readable\<close> of the protection last asked of the page manager. A state change computes the
  pages whose shadow bit changed and asks the page manager for exactly those.

  The operations work on the pair of the region and the page manager it refers to. The
  callback of \<open>ForEachModifiedRange\<close> is modelled by the list of its calls' arguments.

  Main lemmas: the operations keep \<open>region_ok\<close> and the ledger \<open>watched_by\<close>, which says that the
  page manager counts one write watcher for each page that is not CPU-dirty and one access
  watcher for each GPU-dirty page, and nothing else on this region's behalf.
\<close>

datatype DirtySource = Cpu | Gpu

record region_manager =
  rm_cpu_addr :: u64
  rm_cpu_dirty :: bit_array
  rm_gpu_dirty :: bit_array
  rm_writable :: bit_array
  rm_readable :: bit_array

definition RegionBits :: bit_array where
  "RegionBits = BitArray_empty 16"

definition new_region_manager :: "u64 \<Rightarrow> region_manager option" where
  "new_region_manager cpu_addr = do {
     exit_if (cpu_addr mod TRACKER_REGION_SIZE \<noteq> 0);
     Some \<lparr>rm_cpu_addr = cpu_addr, rm_cpu_dirty = BitArray_Fill RegionBits, rm_gpu_dirty = RegionBits,
           rm_writable = BitArray_Fill RegionBits, rm_readable = BitArray_Fill RegionBits\<rparr>
   }"

definition GetBits :: "DirtySource \<Rightarrow> region_manager \<Rightarrow> bit_array" where
  "GetBits source rm = (case source of Cpu \<Rightarrow> rm_cpu_dirty rm | Gpu \<Rightarrow> rm_gpu_dirty rm)"

definition SetBits :: "DirtySource \<Rightarrow> bit_array \<Rightarrow> region_manager \<Rightarrow> region_manager" where
  "SetBits source bits rm =
     (case source of Cpu \<Rightarrow> rm\<lparr>rm_cpu_dirty := bits\<rparr> | Gpu \<Rightarrow> rm\<lparr>rm_gpu_dirty := bits\<rparr>)"

definition GetPageRange :: "u64 \<Rightarrow> u64 \<Rightarrow> region_manager \<Rightarrow> (nat \<times> nat) option" where
  "GetPageRange vaddr bytes rm = do {
     exit_if (bytes = 0 \<or> vaddr < rm_cpu_addr rm \<or> vaddr \<ge> rm_cpu_addr rm + TRACKER_REGION_SIZE \<or>
              bytes > rm_cpu_addr rm + TRACKER_REGION_SIZE - vaddr);
     let offset = vaddr - rm_cpu_addr rm;
     Some (offset div TRACKER_PAGE_SIZE, (offset + bytes + TRACKER_PAGE_SIZE - 1) div TRACKER_PAGE_SIZE)
   }"

definition IsModified :: "DirtySource \<Rightarrow> u64 \<Rightarrow> u64 \<Rightarrow> region_manager \<Rightarrow> bool option" where
  "IsModified source offset bytes rm = do {
     (start, end) \<leftarrow> GetPageRange (rm_cpu_addr rm + offset) bytes rm;
     Some (BitArray_Any (BitArray_copy (GetBits source rm) start end))
   }"

type_synonym tracking = "region_manager \<times> page_manager"

definition UpdateCpuProtection :: "(host_call \<Rightarrow> bool) \<Rightarrow> bool \<Rightarrow> tracking \<Rightarrow> tracking option" where
  "UpdateCpuProtection protect track s = (case s of (rm, pm) \<Rightarrow>
     let msk = BitArray_xor (rm_cpu_dirty rm) (rm_writable rm);
         rm = rm\<lparr>rm_writable := rm_cpu_dirty rm\<rparr> in
     if BitArray_None msk then Some (rm, pm)
     else do {
       pm \<leftarrow> UpdatePageWatchersForRegion protect track False (rm_cpu_addr rm) msk pm;
       Some (rm, pm)
     })"

definition UpdateGpuProtection :: "(host_call \<Rightarrow> bool) \<Rightarrow> bool \<Rightarrow> tracking \<Rightarrow> tracking option" where
  "UpdateGpuProtection protect track s = (case s of (rm, pm) \<Rightarrow>
     let readable = BitArray_not (rm_gpu_dirty rm);
         msk = BitArray_xor readable (rm_readable rm);
         rm = rm\<lparr>rm_readable := readable\<rparr> in
     if BitArray_None msk then Some (rm, pm)
     else do {
       pm \<leftarrow> UpdatePageWatchersForRegion protect track True (rm_cpu_addr rm) msk pm;
       Some (rm, pm)
     })"

definition ChangeState :: "(host_call \<Rightarrow> bool) \<Rightarrow> DirtySource \<Rightarrow> bool \<Rightarrow> u64 \<Rightarrow> u64 \<Rightarrow> tracking \<Rightarrow> tracking option" where
  "ChangeState protect source enable vaddr bytes s = (case s of (rm, pm) \<Rightarrow> do {
     (start, end) \<leftarrow> GetPageRange vaddr bytes rm;
     exit_if (source = Cpu \<and> enable \<and> BitArray_Any (BitArray_copy (rm_gpu_dirty rm) start end));
     exit_if (source = Gpu \<and> enable \<and> BitArray_Any (BitArray_copy (rm_cpu_dirty rm) start end));
     let rm = SetBits source
       (if enable then BitArray_SetRange start end (GetBits source rm)
        else BitArray_UnsetRange start end (GetBits source rm)) rm;
     (if source = Cpu then UpdateCpuProtection protect (\<not> enable) (rm, pm)
      else UpdateGpuProtection protect enable (rm, pm))
   })"

definition ForEachRange :: "bit_array \<Rightarrow> region_manager \<Rightarrow> (u64 \<times> u64) list" where
  "ForEachRange bits rm = map (\<lambda>(start, end).
     (rm_cpu_addr rm + start * TRACKER_PAGE_SIZE, (end - start) * TRACKER_PAGE_SIZE)) (BitArray_ranges bits)"

definition ForEachModifiedRange ::
  "(host_call \<Rightarrow> bool) \<Rightarrow> DirtySource \<Rightarrow> bool \<Rightarrow> u64 \<Rightarrow> u64 \<Rightarrow> tracking \<Rightarrow> ((u64 \<times> u64) list \<times> tracking) option" where
  "ForEachModifiedRange protect source clear vaddr bytes s = (case s of (rm, pm) \<Rightarrow> do {
     (start, end) \<leftarrow> GetPageRange vaddr bytes rm;
     let msk = BitArray_copy (GetBits source rm) start end;
     let rm = (if clear then SetBits source (BitArray_UnsetRange start end (GetBits source rm)) rm else rm);
     (rm, pm) \<leftarrow> (if clear then
         (if source = Cpu then UpdateCpuProtection protect True (rm, pm)
          else UpdateGpuProtection protect False (rm, pm))
       else Some (rm, pm));
     Some (ForEachRange msk rm, (rm, pm))
   })"

section \<open>The sets of pages a region describes\<close>

abbreviation cpu_pages :: "region_manager \<Rightarrow> nat set" where
  "cpu_pages rm \<equiv> mask_pages (rm_cpu_addr rm) (rm_cpu_dirty rm)"

abbreviation gpu_pages :: "region_manager \<Rightarrow> nat set" where
  "gpu_pages rm \<equiv> mask_pages (rm_cpu_addr rm) (rm_gpu_dirty rm)"

definition region_pages :: "u64 \<Rightarrow> nat set" where
  "region_pages addr = {p. p div TRACKER_REGION_PAGES = addr div TRACKER_REGION_SIZE}"

text \<open>The pages a byte range touches.\<close>

definition pages_of :: "u64 \<Rightarrow> u64 \<Rightarrow> nat set" where
  "pages_of vaddr bytes = {vaddr div TRACKER_PAGE_SIZE..(vaddr + bytes - 1) div TRACKER_PAGE_SIZE}"

definition region_ok :: "region_manager \<Rightarrow> bool" where
  "region_ok rm \<longleftrightarrow> rm_cpu_addr rm mod TRACKER_REGION_SIZE = 0 \<and> rm_cpu_addr rm < TRACKER_ADDRESS_SIZE \<and>
     ba_N (rm_cpu_dirty rm) = TRACKER_REGION_PAGES \<and> ba_N (rm_gpu_dirty rm) = TRACKER_REGION_PAGES \<and>
     rm_writable rm = rm_cpu_dirty rm \<and> rm_readable rm = BitArray_not (rm_gpu_dirty rm) \<and>
     cpu_pages rm \<inter> gpu_pages rm = {}"

text \<open>The ledger: \<open>others\<close> is what every other client of the page manager has watched.\<close>

definition watched_by :: "(nat \<Rightarrow> nat) \<Rightarrow> tracking \<Rightarrow> bool" where
  "watched_by others s \<longleftrightarrow> pm_wf (snd s) \<and> pm_coherent (snd s) \<and>
     (\<forall>p\<in>region_pages (rm_cpu_addr (fst s)).
        write_watchers (page_at (snd s) p) = others p + (if p \<in> cpu_pages (fst s) then 0 else 1) \<and>
        access_watchers (page_at (snd s) p) = (if p \<in> gpu_pages (fst s) then 1 else 0))"

section \<open>Page sets of bit arrays\<close>

lemma mask_pages_region: "p \<in> mask_pages addr m \<Longrightarrow> p \<in> region_pages addr"
  by (simp add: mask_pages_def region_pages_def)

lemma mask_pages_xor:
  "ba_N m = ba_N m' \<Longrightarrow> mask_pages addr (BitArray_xor m m')
    = (mask_pages addr m - mask_pages addr m') \<union> (mask_pages addr m' - mask_pages addr m)"
  by (auto simp: mask_pages_def ba_N_def)

lemma mask_pages_not:
  "ba_N m = TRACKER_REGION_PAGES \<Longrightarrow> mask_pages addr (BitArray_not m) = region_pages addr - mask_pages addr m"
  by (auto simp: mask_pages_def region_pages_def)

lemma mask_pages_empty_iff:
  assumes "ba_N m = TRACKER_REGION_PAGES"
  shows "mask_pages addr m = {} \<longleftrightarrow> ba_bits m = {}"
proof
  assume e: "mask_pages addr m = {}"
  show "ba_bits m = {}"
  proof (rule ccontr)
    assume "ba_bits m \<noteq> {}"
    then obtain i where i: "i \<in> ba_bits m" by blast
    then have "i < 1024" using ba_bits_bound [OF i] assms by simp
    from page_in_region [OF this, of "addr div TRACKER_REGION_SIZE"]
    have "1024 * (addr div TRACKER_REGION_SIZE) + i \<in> mask_pages addr m"
      using i unfolding mask_pages_def mem_Collect_eq by (simp only: simp_thms)
    with e show False by blast
  qed
qed (auto simp: mask_pages_def)

lemma region_pages_iff: "addr = r * TRACKER_REGION_SIZE \<Longrightarrow> p \<in> region_pages addr \<longleftrightarrow> p div TRACKER_REGION_PAGES = r"
  by (simp add: region_pages_def)

lemma GetPageRange_spec:
  assumes run: "GetPageRange vaddr bytes rm = Some (s, e)" and al: "rm_cpu_addr rm mod TRACKER_REGION_SIZE = 0"
  shows "s < e" and "e \<le> TRACKER_REGION_PAGES" and "pages_of vaddr bytes \<subseteq> region_pages (rm_cpu_addr rm)"
    and "p \<in> region_pages (rm_cpu_addr rm) \<Longrightarrow> p mod TRACKER_REGION_PAGES \<in> {s..<e} \<longleftrightarrow> p \<in> pages_of vaddr bytes"
proof -
  define r where "r = rm_cpu_addr rm div TRACKER_REGION_SIZE"
  define off where "off = vaddr - rm_cpu_addr rm"
  have addr: "rm_cpu_addr rm = r * 4194304" using al by (auto simp: r_def)
  have v: "vaddr = r * 4194304 + off" "0 < bytes" "off + bytes \<le> 4194304"
    and s: "s = off div 4096" and e: "e = (off + bytes + 4096 - 1) div 4096"
    using run addr by (auto simp: GetPageRange_def bind_eq_Some_iff off_def Let_def)
  define n where "n = off + bytes - 1"
  have n: "off \<le> n" "n < 4194304" "off + bytes = n + 1" using v by (auto simp: n_def)
  have e': "e = n div 4096 + 1" using n by (simp add: e)
  have n1: "n div 4096 < 1024" using n(2) by (simp add: less_mult_imp_div_less)
  show "s < e" using n(1) by (simp add: s e' div_le_mono le_imp_less_Suc)
  show "e \<le> TRACKER_REGION_PAGES" using n1 e' by simp
  have vb: "vaddr + bytes - 1 = r * 1024 * 4096 + n" using v n by simp
  have va: "vaddr = r * 1024 * 4096 + off" using v by simp
  have dv: "(x * 4096 + y) div 4096 = x + y div 4096" for x y :: nat by simp
  have po: "pages_of vaddr bytes = {r * 1024 + s..<r * 1024 + e}"
    unfolding pages_of_def vb unfolding va dv by (simp add: s e' atLeastLessThanSuc_atLeastAtMost)
  have reg: "p \<in> region_pages (rm_cpu_addr rm) \<longleftrightarrow> p div 1024 = r" for p
    by (rule region_pages_iff [OF addr])
  have "p div 1024 = r \<longleftrightarrow> r * 1024 \<le> p \<and> p < r * 1024 + 1024" for p by auto
  then show "pages_of vaddr bytes \<subseteq> region_pages (rm_cpu_addr rm)"
    using n1 e' unfolding po reg subset_iff by simp
  assume "p \<in> region_pages (rm_cpu_addr rm)"
  then have "p div 1024 = r" by (simp add: reg)
  then have "p = r * 1024 + p mod 1024" by auto
  then show "p mod TRACKER_REGION_PAGES \<in> {s..<e} \<longleftrightarrow> p \<in> pages_of vaddr bytes"
    unfolding po atLeastLessThan_iff by linarith
qed

lemma mask_pages_range:
  assumes "GetPageRange vaddr bytes rm = Some (s, e)" and "rm_cpu_addr rm mod TRACKER_REGION_SIZE = 0"
    and "ba_N m = TRACKER_REGION_PAGES"
  shows "mask_pages (rm_cpu_addr rm) (BitArray_SetRange s e m) = mask_pages (rm_cpu_addr rm) m \<union> pages_of vaddr bytes"
    and "mask_pages (rm_cpu_addr rm) (BitArray_UnsetRange s e m) = mask_pages (rm_cpu_addr rm) m - pages_of vaddr bytes"
    and "mask_pages (rm_cpu_addr rm) (BitArray_copy m s e) = mask_pages (rm_cpu_addr rm) m \<inter> pages_of vaddr bytes"
proof -
  note g = GetPageRange_spec [OF assms(1,2)]
  have b: "s < e" "e \<le> ba_N m" using g(1,2) assms(3) by auto
  have iff: "p mod TRACKER_REGION_PAGES \<in> {s..<e} \<longleftrightarrow> p \<in> pages_of vaddr bytes" if "p \<in> region_pages (rm_cpu_addr rm)" for p
    using g(4) [OF that] .
  have mem: "p \<in> mask_pages (rm_cpu_addr rm) x \<longleftrightarrow> p \<in> region_pages (rm_cpu_addr rm) \<and> p mod TRACKER_REGION_PAGES \<in> ba_bits x" for p x
    by (simp add: mask_pages_def region_pages_def)
  show "mask_pages (rm_cpu_addr rm) (BitArray_SetRange s e m) = mask_pages (rm_cpu_addr rm) m \<union> pages_of vaddr bytes"
  proof (rule set_eqI)
    fix p show "p \<in> mask_pages (rm_cpu_addr rm) (BitArray_SetRange s e m)
        \<longleftrightarrow> p \<in> mask_pages (rm_cpu_addr rm) m \<union> pages_of vaddr bytes"
      using g(3) iff [of p] by (auto simp: mem b)
  qed
  show "mask_pages (rm_cpu_addr rm) (BitArray_UnsetRange s e m) = mask_pages (rm_cpu_addr rm) m - pages_of vaddr bytes"
    "mask_pages (rm_cpu_addr rm) (BitArray_copy m s e) = mask_pages (rm_cpu_addr rm) m \<inter> pages_of vaddr bytes"
    unfolding set_eq_iff Diff_iff Int_iff mem using iff by (simp_all add: b) blast+
qed

section \<open>Protection updates keep the ledger\<close>

definition ledger :: "(nat \<Rightarrow> nat) \<Rightarrow> u64 \<Rightarrow> nat set \<Rightarrow> nat set \<Rightarrow> page_manager \<Rightarrow> bool" where
  "ledger others addr C G pm \<longleftrightarrow> pm_wf pm \<and> pm_coherent pm \<and>
     (\<forall>p\<in>region_pages addr. write_watchers (page_at pm p) = others p + (if p \<in> C then 0 else 1) \<and>
        access_watchers (page_at pm p) = (if p \<in> G then 1 else 0))"

lemma watched_by_ledger: "watched_by others (rm, pm) = ledger others (rm_cpu_addr rm) (cpu_pages rm) (gpu_pages rm) pm"
  by (simp add: watched_by_def ledger_def)

lemma bumped_write:
  "bumped True True False p = Some p' \<longleftrightarrow> write_watchers p \<noteq> 127 \<and> p' = p\<lparr>write_watchers := write_watchers p + 1\<rparr>"
  "bumped True False False p = Some p' \<longleftrightarrow> write_watchers p \<noteq> 0 \<and> p' = p\<lparr>write_watchers := write_watchers p - 1\<rparr>"
  "bumped True True True p = Some p' \<longleftrightarrow> access_watchers p = 0 \<and> p' = p\<lparr>access_watchers := access_watchers p + 1\<rparr>"
  "bumped True False True p = Some p' \<longleftrightarrow> access_watchers p \<noteq> 0 \<and> p' = p\<lparr>access_watchers := access_watchers p - 1\<rparr>"
  by (auto simp: bumped_def AddDelta_def)

lemma ledger_write:
  assumes l: "ledger others addr C G pm" and w: "watched track False S pm pm'" and S: "S \<subseteq> region_pages addr"
    and dir: "if track then S = C - C' \<and> C' \<subseteq> C else S = C' - C \<and> C \<subseteq> C'"
  shows "ledger others addr C' G pm'"
proof -
  have "write_watchers (page_at pm' p) = others p + (if p \<in> C' then 0 else 1) \<and>
      access_watchers (page_at pm' p) = (if p \<in> G then 1 else 0)" if p: "p \<in> region_pages addr" for p
  proof -
    have b: "bumped (p \<in> S) track False (page_at pm p) = Some (page_at pm' p)" using w by (simp add: watched_def)
    have l': "write_watchers (page_at pm p) = others p + (if p \<in> C then 0 else 1)"
      "access_watchers (page_at pm p) = (if p \<in> G then 1 else 0)" using l p by (auto simp: ledger_def)
    show ?thesis
    proof (cases "p \<in> S")
      case True
      then show ?thesis using b l' dir by (cases track) (auto simp: bumped_write)
    next
      case False
      then have "p \<in> C' \<longleftrightarrow> p \<in> C" using dir by (cases track) auto
      then show ?thesis using b l' False by simp
    qed
  qed
  then show ?thesis using w by (simp add: ledger_def watched_def)
qed

lemma ledger_access:
  assumes l: "ledger others addr C G pm" and w: "watched track True S pm pm'" and S: "S \<subseteq> region_pages addr"
    and dir: "if track then S = G' - G \<and> G \<subseteq> G' else S = G - G' \<and> G' \<subseteq> G"
  shows "ledger others addr C G' pm'"
proof -
  have "write_watchers (page_at pm' p) = others p + (if p \<in> C then 0 else 1) \<and>
      access_watchers (page_at pm' p) = (if p \<in> G' then 1 else 0)" if p: "p \<in> region_pages addr" for p
  proof -
    have b: "bumped (p \<in> S) track True (page_at pm p) = Some (page_at pm' p)" using w by (simp add: watched_def)
    have l': "write_watchers (page_at pm p) = others p + (if p \<in> C then 0 else 1)"
      "access_watchers (page_at pm p) = (if p \<in> G then 1 else 0)" using l p by (auto simp: ledger_def)
    show ?thesis
    proof (cases "p \<in> S")
      case True
      then show ?thesis using b l' dir by (cases track) (auto simp: bumped_write)
    next
      case False
      then have "p \<in> G' \<longleftrightarrow> p \<in> G" using dir by (cases track) auto
      then show ?thesis using b l' False by simp
    qed
  qed
  then show ?thesis using w by (simp add: ledger_def watched_def)
qed

lemma UpdateCpuProtection_spec:
  assumes run: "UpdateCpuProtection protect track (rm, pm) = Some (rm', pm')"
    and N: "ba_N (rm_cpu_dirty rm) = TRACKER_REGION_PAGES" "ba_N (rm_writable rm) = TRACKER_REGION_PAGES"
    and l: "ledger others (rm_cpu_addr rm) (mask_pages (rm_cpu_addr rm) (rm_writable rm)) G pm"
    and dir: "if track then cpu_pages rm \<subseteq> mask_pages (rm_cpu_addr rm) (rm_writable rm)
      else mask_pages (rm_cpu_addr rm) (rm_writable rm) \<subseteq> cpu_pages rm"
  shows "rm' = rm\<lparr>rm_writable := rm_cpu_dirty rm\<rparr>" and "ledger others (rm_cpu_addr rm) (cpu_pages rm) G pm'"
    and "\<And>p. p \<notin> region_pages (rm_cpu_addr rm) \<Longrightarrow> page_at pm' p = page_at pm p"
proof -
  let ?a = "rm_cpu_addr rm" and ?m = "BitArray_xor (rm_cpu_dirty rm) (rm_writable rm)"
  let ?W = "mask_pages ?a (rm_writable rm)"
  have mN: "ba_N ?m = TRACKER_REGION_PAGES" using N by (simp add: ba_N_def BitArray_xor_def)
  have mp: "mask_pages ?a ?m = (cpu_pages rm - ?W) \<union> (?W - cpu_pages rm)"
    by (rule mask_pages_xor) (simp add: N)
  show "rm' = rm\<lparr>rm_writable := rm_cpu_dirty rm\<rparr>"
    using run by (auto simp: UpdateCpuProtection_def Let_def bind_eq_Some_iff split: if_splits)
  have "ledger others ?a (cpu_pages rm) G pm' \<and> (\<forall>p. p \<notin> region_pages ?a \<longrightarrow> page_at pm' p = page_at pm p)"
  proof (cases "BitArray_None ?m")
    case True
    then have "pm' = pm" using run by (simp add: UpdateCpuProtection_def)
    moreover have "cpu_pages rm = ?W" using True mp by (auto simp: BitArray_None_iff mask_pages_def)
    ultimately show ?thesis using l by simp
  next
    case False
    then have "UpdatePageWatchersForRegion protect track False ?a ?m pm = Some pm'"
      using run by (auto simp: UpdateCpuProtection_def Let_def bind_eq_Some_iff)
    then have w: "watched track False (mask_pages ?a ?m) pm pm'"
      using UpdatePageWatchersForRegion_spec mN l unfolding ledger_def by blast
    have S: "mask_pages ?a ?m \<subseteq> region_pages ?a" using mask_pages_region by blast
    have "ledger others ?a (cpu_pages rm) G pm'"
      by (rule ledger_write [OF l w S]) (use dir mp in \<open>auto split: if_splits\<close>)
    moreover have "page_at pm' p = page_at pm p" if "p \<notin> region_pages ?a" for p
    proof -
      have "p \<notin> mask_pages ?a ?m" using S that by blast
      moreover have "bumped (p \<in> mask_pages ?a ?m) track False (page_at pm p) = Some (page_at pm' p)"
        using w by (simp add: watched_def)
      ultimately show ?thesis by simp
    qed
    ultimately show ?thesis by blast
  qed
  then show "ledger others ?a (cpu_pages rm) G pm'" and "\<And>p. p \<notin> region_pages ?a \<Longrightarrow> page_at pm' p = page_at pm p"
    by blast+
qed

lemma UpdateGpuProtection_spec:
  assumes run: "UpdateGpuProtection protect track (rm, pm) = Some (rm', pm')"
    and N: "ba_N (rm_gpu_dirty rm) = TRACKER_REGION_PAGES" "ba_N (rm_readable rm) = TRACKER_REGION_PAGES"
    and l: "ledger others (rm_cpu_addr rm) C (region_pages (rm_cpu_addr rm) - mask_pages (rm_cpu_addr rm) (rm_readable rm)) pm"
    and dir: "if track then mask_pages (rm_cpu_addr rm) (rm_readable rm) \<union> gpu_pages rm = region_pages (rm_cpu_addr rm)
      else mask_pages (rm_cpu_addr rm) (rm_readable rm) \<inter> gpu_pages rm = {}"
  shows "rm' = rm\<lparr>rm_readable := BitArray_not (rm_gpu_dirty rm)\<rparr>" and "ledger others (rm_cpu_addr rm) C (gpu_pages rm) pm'"
    and "\<And>p. p \<notin> region_pages (rm_cpu_addr rm) \<Longrightarrow> page_at pm' p = page_at pm p"
proof -
  let ?a = "rm_cpu_addr rm" and ?m = "BitArray_xor (BitArray_not (rm_gpu_dirty rm)) (rm_readable rm)"
  let ?R = "mask_pages ?a (rm_readable rm)" and ?A = "region_pages (rm_cpu_addr rm)"
  have mN: "ba_N ?m = TRACKER_REGION_PAGES" using N by (simp add: ba_N_def BitArray_xor_def BitArray_not_def)
  have "mask_pages ?a ?m = (mask_pages ?a (BitArray_not (rm_gpu_dirty rm)) - ?R) \<union> (?R - mask_pages ?a (BitArray_not (rm_gpu_dirty rm)))"
    by (rule mask_pages_xor) (simp add: N)
  then have mp: "mask_pages ?a ?m = (?A - gpu_pages rm - ?R) \<union> (?R - (?A - gpu_pages rm))"
    by (simp only: mask_pages_not [OF N(1)])
  have sub: "?R \<subseteq> ?A" "gpu_pages rm \<subseteq> ?A" "mask_pages ?a ?m \<subseteq> ?A" using mask_pages_region by blast+
  show "rm' = rm\<lparr>rm_readable := BitArray_not (rm_gpu_dirty rm)\<rparr>"
    using run by (auto simp: UpdateGpuProtection_def Let_def bind_eq_Some_iff split: if_splits)
  have "ledger others ?a C (gpu_pages rm) pm' \<and> (\<forall>p. p \<notin> ?A \<longrightarrow> page_at pm' p = page_at pm p)"
  proof (cases "BitArray_None ?m")
    case True
    then have "pm' = pm" using run by (simp add: UpdateGpuProtection_def)
    moreover have "mask_pages ?a ?m = {}" using True by (auto simp: BitArray_None_iff mask_pages_def)
    then have "?A - ?R = gpu_pages rm" using mp sub by blast
    ultimately show ?thesis using l by simp
  next
    case False
    then have "UpdatePageWatchersForRegion protect track True ?a ?m pm = Some pm'"
      using run by (auto simp: UpdateGpuProtection_def Let_def bind_eq_Some_iff)
    then have w: "watched track True (mask_pages ?a ?m) pm pm'"
      using UpdatePageWatchersForRegion_spec mN l unfolding ledger_def by blast
    have "if track then mask_pages ?a ?m = gpu_pages rm - (?A - ?R) \<and> ?A - ?R \<subseteq> gpu_pages rm
      else mask_pages ?a ?m = ?A - ?R - gpu_pages rm \<and> gpu_pages rm \<subseteq> ?A - ?R"
    proof (cases track)
      case True
      then have d: "?R \<union> gpu_pages rm = ?A" using dir by simp
      have "mask_pages ?a ?m = gpu_pages rm - (?A - ?R)" unfolding mp using d by blast
      then show ?thesis using d True by auto
    next
      case False
      then have d: "?R \<inter> gpu_pages rm = {}" using dir by simp
      have "mask_pages ?a ?m = ?A - ?R - gpu_pages rm" unfolding mp using d sub by blast
      then show ?thesis using d sub False by auto
    qed
    from ledger_access [OF l w sub(3) this]
    have "ledger others ?a C (gpu_pages rm) pm'" .
    moreover have "page_at pm' p = page_at pm p" if "p \<notin> ?A" for p
    proof -
      have "p \<notin> mask_pages ?a ?m" using sub that by blast
      moreover have "bumped (p \<in> mask_pages ?a ?m) track True (page_at pm p) = Some (page_at pm' p)"
        using w by (simp add: watched_def)
      ultimately show ?thesis by simp
    qed
    ultimately show ?thesis by blast
  qed
  then show "ledger others ?a C (gpu_pages rm) pm'" and "\<And>p. p \<notin> ?A \<Longrightarrow> page_at pm' p = page_at pm p"
    by blast+
qed

section \<open>The operations\<close>

definition tracking_ok :: "(nat \<Rightarrow> nat) \<Rightarrow> tracking \<Rightarrow> bool" where
  "tracking_ok others s \<longleftrightarrow> region_ok (fst s) \<and> watched_by others s"

definition switched :: "bool \<Rightarrow> nat set \<Rightarrow> nat set \<Rightarrow> nat set" where
  "switched enable P X = (if enable then X \<union> P else X - P)"

lemma Any_copy:
  assumes "GetPageRange vaddr bytes rm = Some (s, e)" and "rm_cpu_addr rm mod TRACKER_REGION_SIZE = 0"
    and N: "ba_N m = TRACKER_REGION_PAGES"
  shows "BitArray_Any (BitArray_copy m s e) \<longleftrightarrow> mask_pages (rm_cpu_addr rm) m \<inter> pages_of vaddr bytes \<noteq> {}"
  using mask_pages_range(3) [OF assms] mask_pages_empty_iff [of "BitArray_copy m s e" "rm_cpu_addr rm"] N
  by (simp add: BitArray_Any_iff)

lemma IsModified_spec:
  assumes "IsModified source offset bytes rm = Some b" and "region_ok rm"
  shows "b \<longleftrightarrow> mask_pages (rm_cpu_addr rm) (GetBits source rm) \<inter> pages_of (rm_cpu_addr rm + offset) bytes \<noteq> {}"
proof -
  obtain s e where g: "GetPageRange (rm_cpu_addr rm + offset) bytes rm = Some (s, e)"
    and b: "b = BitArray_Any (BitArray_copy (GetBits source rm) s e)"
    using assms(1) by (auto simp: IsModified_def bind_eq_Some_iff)
  have "ba_N (GetBits source rm) = TRACKER_REGION_PAGES"
    using assms(2) by (cases source) (auto simp: region_ok_def GetBits_def)
  then show ?thesis using Any_copy [OF g] assms(2) unfolding b by (simp add: region_ok_def)
qed

lemma ChangeState_Cpu_spec:
  assumes run: "ChangeState protect Cpu enable vaddr bytes (rm, pm) = Some (rm', pm')"
    and ok: "tracking_ok others (rm, pm)"
  shows "tracking_ok others (rm', pm')" and "rm_cpu_addr rm' = rm_cpu_addr rm"
    and "cpu_pages rm' = switched enable (pages_of vaddr bytes) (cpu_pages rm)" and "gpu_pages rm' = gpu_pages rm"
    and "\<And>p. p \<notin> region_pages (rm_cpu_addr rm) \<Longrightarrow> page_at pm' p = page_at pm p"
    and "pages_of vaddr bytes \<subseteq> region_pages (rm_cpu_addr rm)"
proof -
  have al: "rm_cpu_addr rm mod TRACKER_REGION_SIZE = 0" "ba_N (rm_cpu_dirty rm) = TRACKER_REGION_PAGES"
    "ba_N (rm_gpu_dirty rm) = TRACKER_REGION_PAGES" and sh: "rm_writable rm = rm_cpu_dirty rm"
    and dis: "cpu_pages rm \<inter> gpu_pages rm = {}"
    using ok by (auto simp: tracking_ok_def region_ok_def)
  obtain s e where g: "GetPageRange vaddr bytes rm = Some (s, e)" using run by (auto simp: ChangeState_def bind_eq_Some_iff)
  define bits where "bits = (if enable then BitArray_SetRange s e (rm_cpu_dirty rm) else BitArray_UnsetRange s e (rm_cpu_dirty rm))"
  define rm1 where "rm1 = rm\<lparr>rm_cpu_dirty := bits\<rparr>"
  have conf: "enable \<Longrightarrow> gpu_pages rm \<inter> pages_of vaddr bytes = {}"
    using run g Any_copy [OF g al(1,3)] by (auto simp: ChangeState_def bind_eq_Some_iff)
  have up: "UpdateCpuProtection protect (\<not> enable) (rm1, pm) = Some (rm', pm')"
    using run g by (auto simp: ChangeState_def bind_eq_Some_iff GetBits_def SetBits_def Let_def rm1_def bits_def split: if_splits)
  have cp: "mask_pages (rm_cpu_addr rm) bits = switched enable (pages_of vaddr bytes) (cpu_pages rm)"
    using mask_pages_range(1,2) [OF g al(1,2)] by (simp add: bits_def switched_def)
  have N: "ba_N bits = TRACKER_REGION_PAGES" using al by (simp add: bits_def)
  have l: "ledger others (rm_cpu_addr rm1) (mask_pages (rm_cpu_addr rm1) (rm_writable rm1)) (gpu_pages rm) pm"
    using ok sh by (simp add: tracking_ok_def watched_by_ledger rm1_def)
  have "if \<not> enable then cpu_pages rm1 \<subseteq> mask_pages (rm_cpu_addr rm1) (rm_writable rm1)
      else mask_pages (rm_cpu_addr rm1) (rm_writable rm1) \<subseteq> cpu_pages rm1"
    using cp sh by (auto simp: rm1_def switched_def)
  note u = UpdateCpuProtection_spec [OF up _ _ l this]
  have N1: "ba_N (rm_cpu_dirty rm1) = TRACKER_REGION_PAGES" "ba_N (rm_writable rm1) = TRACKER_REGION_PAGES"
    using N al sh by (simp_all add: rm1_def)
  show "rm_cpu_addr rm' = rm_cpu_addr rm" "gpu_pages rm' = gpu_pages rm"
    "cpu_pages rm' = switched enable (pages_of vaddr bytes) (cpu_pages rm)"
    using u(1) [OF N1] cp by (simp_all add: rm1_def)
  then have "cpu_pages rm' \<inter> gpu_pages rm' = {}" using dis conf by (auto simp: switched_def)
  moreover have "watched_by others (rm', pm')"
    using u(1,2) [OF N1] by (simp add: watched_by_ledger rm1_def)
  ultimately show "tracking_ok others (rm', pm')"
    using u(1) [OF N1] ok N by (simp add: tracking_ok_def region_ok_def rm1_def)
  show "\<And>p. p \<notin> region_pages (rm_cpu_addr rm) \<Longrightarrow> page_at pm' p = page_at pm p"
    using u(3) [OF N1] by (simp add: rm1_def)
  show "pages_of vaddr bytes \<subseteq> region_pages (rm_cpu_addr rm)" using GetPageRange_spec(3) [OF g al(1)] .
qed

lemma ChangeState_Gpu_spec:
  assumes run: "ChangeState protect Gpu enable vaddr bytes (rm, pm) = Some (rm', pm')"
    and ok: "tracking_ok others (rm, pm)"
  shows "tracking_ok others (rm', pm')" and "rm_cpu_addr rm' = rm_cpu_addr rm"
    and "gpu_pages rm' = switched enable (pages_of vaddr bytes) (gpu_pages rm)" and "cpu_pages rm' = cpu_pages rm"
    and "\<And>p. p \<notin> region_pages (rm_cpu_addr rm) \<Longrightarrow> page_at pm' p = page_at pm p"
    and "pages_of vaddr bytes \<subseteq> region_pages (rm_cpu_addr rm)"
proof -
  have al: "rm_cpu_addr rm mod TRACKER_REGION_SIZE = 0" "ba_N (rm_cpu_dirty rm) = TRACKER_REGION_PAGES"
    "ba_N (rm_gpu_dirty rm) = TRACKER_REGION_PAGES" and sh: "rm_readable rm = BitArray_not (rm_gpu_dirty rm)"
    and dis: "cpu_pages rm \<inter> gpu_pages rm = {}"
    using ok by (auto simp: tracking_ok_def region_ok_def)
  obtain s e where g: "GetPageRange vaddr bytes rm = Some (s, e)" using run by (auto simp: ChangeState_def bind_eq_Some_iff)
  define bits where "bits = (if enable then BitArray_SetRange s e (rm_gpu_dirty rm) else BitArray_UnsetRange s e (rm_gpu_dirty rm))"
  define rm1 where "rm1 = rm\<lparr>rm_gpu_dirty := bits\<rparr>"
  have conf: "enable \<Longrightarrow> cpu_pages rm \<inter> pages_of vaddr bytes = {}"
    using run g Any_copy [OF g al(1,2)] by (auto simp: ChangeState_def bind_eq_Some_iff)
  have up: "UpdateGpuProtection protect enable (rm1, pm) = Some (rm', pm')"
    using run g by (auto simp: ChangeState_def bind_eq_Some_iff GetBits_def SetBits_def Let_def rm1_def bits_def split: if_splits)
  have cp: "mask_pages (rm_cpu_addr rm) bits = switched enable (pages_of vaddr bytes) (gpu_pages rm)"
    using mask_pages_range(1,2) [OF g al(1,3)] by (simp add: bits_def switched_def)
  have N: "ba_N bits = TRACKER_REGION_PAGES" using al by (simp add: bits_def)
  have rd: "mask_pages (rm_cpu_addr rm) (rm_readable rm) = region_pages (rm_cpu_addr rm) - gpu_pages rm"
    unfolding sh by (rule mask_pages_not [OF al(3)])
  have sub: "gpu_pages rm \<subseteq> region_pages (rm_cpu_addr rm)" using mask_pages_region by blast
  then have G: "region_pages (rm_cpu_addr rm) - mask_pages (rm_cpu_addr rm) (rm_readable rm) = gpu_pages rm"
    unfolding rd by blast
  have l: "ledger others (rm_cpu_addr rm1) (cpu_pages rm)
      (region_pages (rm_cpu_addr rm1) - mask_pages (rm_cpu_addr rm1) (rm_readable rm1)) pm"
    using ok G by (simp add: tracking_ok_def watched_by_ledger rm1_def)
  have po: "pages_of vaddr bytes \<subseteq> region_pages (rm_cpu_addr rm)" using GetPageRange_spec(3) [OF g al(1)] .
  have "if enable then mask_pages (rm_cpu_addr rm1) (rm_readable rm1) \<union> gpu_pages rm1 = region_pages (rm_cpu_addr rm1)
      else mask_pages (rm_cpu_addr rm1) (rm_readable rm1) \<inter> gpu_pages rm1 = {}"
    using cp rd sub po by (auto simp: rm1_def switched_def)
  note u = UpdateGpuProtection_spec [OF up _ _ l this]
  have N1: "ba_N (rm_gpu_dirty rm1) = TRACKER_REGION_PAGES" "ba_N (rm_readable rm1) = TRACKER_REGION_PAGES"
    using N al sh by (simp_all add: rm1_def)
  show "rm_cpu_addr rm' = rm_cpu_addr rm" "cpu_pages rm' = cpu_pages rm"
    "gpu_pages rm' = switched enable (pages_of vaddr bytes) (gpu_pages rm)"
    using u(1) [OF N1] cp by (simp_all add: rm1_def)
  then have "cpu_pages rm' \<inter> gpu_pages rm' = {}" using dis conf by (auto simp: switched_def)
  moreover have "watched_by others (rm', pm')"
    using u(1,2) [OF N1] by (simp add: watched_by_ledger rm1_def)
  ultimately show "tracking_ok others (rm', pm')"
    using u(1) [OF N1] ok N by (simp add: tracking_ok_def region_ok_def rm1_def)
  show "\<And>p. p \<notin> region_pages (rm_cpu_addr rm) \<Longrightarrow> page_at pm' p = page_at pm p"
    using u(3) [OF N1] by (simp add: rm1_def)
  show "pages_of vaddr bytes \<subseteq> region_pages (rm_cpu_addr rm)" by (rule po)
qed

definition page_bytes :: "nat set \<Rightarrow> u64 set" where
  "page_bytes S = {x. x div TRACKER_PAGE_SIZE \<in> S}"

lemma page_mult_le: "k * 4096 \<le> x \<longleftrightarrow> k \<le> x div (4096::nat)"
  using less_eq_div_iff_mult_less_eq [of 4096 k x] by simp

lemma page_mult_gt: "x < k * 4096 \<longleftrightarrow> x div (4096::nat) < k"
  by (metis page_mult_le not_le)

lemma ForEachRange_cover:
  assumes al: "rm_cpu_addr rm mod TRACKER_REGION_SIZE = 0" and N: "ba_N bits = TRACKER_REGION_PAGES"
  shows "pieces_cover (ForEachRange bits rm) = page_bytes (mask_pages (rm_cpu_addr rm) bits)"
proof -
  define r where "r = rm_cpu_addr rm div TRACKER_REGION_SIZE"
  have addr: "rm_cpu_addr rm = r * 1024 * 4096" using al by (auto simp: r_def)
  note rs = BitArray_ranges_spec [of bits]
  have piece: "x \<in> bytes_of (rm_cpu_addr rm + s * 4096) ((e - s) * 4096)
      \<longleftrightarrow> r * 1024 + s \<le> x div 4096 \<and> x div 4096 < r * 1024 + e" if "s < e" for x s e
  proof -
    have 1: "rm_cpu_addr rm + s * 4096 = (r * 1024 + s) * 4096" by (simp add: addr)
    have 2: "(r * 1024 + s) * 4096 + (e - s) * 4096 = (r * 1024 + e) * 4096"
      using that by (simp flip: add_mult_distrib)
    show ?thesis unfolding mem_bytes_of 1 2 page_mult_le page_mult_gt ..
  qed
  have nth: "k < 1024 \<Longrightarrow> (r * 1024 + k) div 1024 = r \<and> (r * 1024 + k) mod 1024 = k" for k :: nat by simp
  show ?thesis
  proof (rule set_eqI)
    fix x
    have "x \<in> pieces_cover (ForEachRange bits rm) \<longleftrightarrow>
        (\<exists>p\<in>set (BitArray_ranges bits). x \<in> bytes_of (rm_cpu_addr rm + fst p * 4096) ((snd p - fst p) * 4096))"
      by (force simp: pieces_cover_def ForEachRange_def case_prod_unfold)
    also have "\<dots> \<longleftrightarrow> (\<exists>p\<in>set (BitArray_ranges bits). r * 1024 + fst p \<le> x div 4096 \<and> x div 4096 < r * 1024 + snd p)"
      using piece ivs_ok_nonempty rs by (metis (no_types, lifting))
    also have "\<dots> \<longleftrightarrow> r * 1024 \<le> x div 4096 \<and> x div 4096 - r * 1024 \<in> ivs_cover (BitArray_ranges bits)"
      by (auto simp: mem_ivs_cover) (force+)
    also have "\<dots> \<longleftrightarrow> r * 1024 \<le> x div 4096 \<and> x div 4096 - r * 1024 \<in> ba_bits bits" using rs by simp
    also have "\<dots> \<longleftrightarrow> x div 4096 div 1024 = r \<and> x div 4096 mod 1024 \<in> ba_bits bits"
    proof
      assume a: "r * 1024 \<le> x div 4096 \<and> x div 4096 - r * 1024 \<in> ba_bits bits"
      then have "x div 4096 - r * 1024 < 1024" using ba_bits_bound N by fastforce
      from nth [OF this] a show "x div 4096 div 1024 = r \<and> x div 4096 mod 1024 \<in> ba_bits bits" by simp
    next
      assume "x div 4096 div 1024 = r \<and> x div 4096 mod 1024 \<in> ba_bits bits"
      moreover have "x div 4096 = x div 4096 div 1024 * 1024 + x div 4096 mod 1024" by (rule div_mult_mod_eq [symmetric])
      ultimately show "r * 1024 \<le> x div 4096 \<and> x div 4096 - r * 1024 \<in> ba_bits bits"
        by (metis add_diff_cancel_left' le_add1)
    qed
    also have "\<dots> \<longleftrightarrow> x \<in> page_bytes (mask_pages (rm_cpu_addr rm) bits)"
      unfolding page_bytes_def mask_pages_def r_def by simp
    finally show "x \<in> pieces_cover (ForEachRange bits rm) \<longleftrightarrow> x \<in> page_bytes (mask_pages (rm_cpu_addr rm) bits)" .
  qed
qed

text \<open>Iterating with \<open>clear\<close> changes the state as disabling the source's bits does; without it, not at all.\<close>

lemma ForEachModifiedRange_clear:
  assumes "ForEachModifiedRange protect source True vaddr bytes s = Some (ranges, s')"
  shows "ChangeState protect source False vaddr bytes s = Some s'"
  using assms by (cases source; cases s)
    (auto simp: ForEachModifiedRange_def ChangeState_def bind_eq_Some_iff SetBits_def Let_def)

lemma ForEachModifiedRange_keep:
  assumes "ForEachModifiedRange protect source False vaddr bytes s = Some (ranges, s')"
  shows "s' = s"
  using assms by (auto simp: ForEachModifiedRange_def bind_eq_Some_iff Let_def split: prod.splits)

lemma ForEachModifiedRange_ranges:
  assumes run: "ForEachModifiedRange protect source clear vaddr bytes (rm, pm) = Some (ranges, s')"
    and ok: "tracking_ok others (rm, pm)"
  shows "pieces_cover ranges = page_bytes (mask_pages (rm_cpu_addr rm) (GetBits source rm) \<inter> pages_of vaddr bytes)"
proof -
  have al: "rm_cpu_addr rm mod TRACKER_REGION_SIZE = 0" and N: "ba_N (GetBits source rm) = TRACKER_REGION_PAGES"
    using ok by (cases source; simp add: tracking_ok_def region_ok_def GetBits_def)+
  obtain s e where g: "GetPageRange vaddr bytes rm = Some (s, e)"
    using run by (auto simp: ForEachModifiedRange_def bind_eq_Some_iff)
  obtain rm' where rm': "rm_cpu_addr rm' = rm_cpu_addr rm"
    and r: "ranges = ForEachRange (BitArray_copy (GetBits source rm) s e) rm'"
  proof (cases clear)
    case False
    then show ?thesis using that [of rm] run g by (auto simp: ForEachModifiedRange_def bind_eq_Some_iff Let_def)
  next
    case True
    obtain rm' pm' where s': "s' = (rm', pm')" by (cases s')
    have "ChangeState protect source False vaddr bytes (rm, pm) = Some (rm', pm')"
      using ForEachModifiedRange_clear run True s' by simp
    then have "rm_cpu_addr rm' = rm_cpu_addr rm"
      using ok ChangeState_Cpu_spec(2) ChangeState_Gpu_spec(2) by (cases source) blast+
    then show ?thesis using that [of rm'] run g True s'
      by (auto simp: ForEachModifiedRange_def bind_eq_Some_iff Let_def)
  qed
  have "ranges = ForEachRange (BitArray_copy (GetBits source rm) s e) rm"
    unfolding r ForEachRange_def rm' ..
  then show ?thesis
    using ForEachRange_cover [OF al, of "BitArray_copy (GetBits source rm) s e"] N mask_pages_range(3) [OF g al N] by simp
qed

section \<open>A change without conflict succeeds\<close>

lemma UpdateCpuProtection_total:
  assumes prot: "\<forall>c. protect c" and al: "rm_cpu_addr rm mod TRACKER_REGION_SIZE = 0" "rm_cpu_addr rm < TRACKER_ADDRESS_SIZE"
    and N: "ba_N (rm_cpu_dirty rm) = TRACKER_REGION_PAGES" "ba_N (rm_writable rm) = TRACKER_REGION_PAGES"
    and l: "ledger others (rm_cpu_addr rm) (mask_pages (rm_cpu_addr rm) (rm_writable rm)) G pm"
    and dir: "if track then cpu_pages rm \<subseteq> mask_pages (rm_cpu_addr rm) (rm_writable rm) \<and>
        (\<forall>p\<in>mask_pages (rm_cpu_addr rm) (rm_writable rm) - cpu_pages rm. others p < 127)
      else mask_pages (rm_cpu_addr rm) (rm_writable rm) \<subseteq> cpu_pages rm"
  shows "\<exists>s'. UpdateCpuProtection protect track (rm, pm) = Some s'"
proof -
  let ?a = "rm_cpu_addr rm" and ?m = "BitArray_xor (rm_cpu_dirty rm) (rm_writable rm)"
  have mN: "ba_N ?m = TRACKER_REGION_PAGES" using N by (simp add: ba_N_def BitArray_xor_def)
  have mp: "mask_pages ?a ?m = (cpu_pages rm - mask_pages ?a (rm_writable rm)) \<union> (mask_pages ?a (rm_writable rm) - cpu_pages rm)"
    by (rule mask_pages_xor) (simp add: N)
  have b: "bumped True track False (page_at pm p) \<noteq> None" if p: "p \<in> mask_pages ?a ?m" for p
  proof -
    have "write_watchers (page_at pm p) = others p + (if p \<in> mask_pages ?a (rm_writable rm) then 0 else 1)"
      using l mask_pages_region [OF p] by (auto simp: ledger_def)
    moreover have "if track then p \<in> mask_pages ?a (rm_writable rm) \<and> others p < 127 else p \<notin> mask_pages ?a (rm_writable rm)"
      using p dir unfolding mp by (cases track) auto
    ultimately show ?thesis by (cases track) (simp_all add: bumped_def AddDelta_def)
  qed
  show ?thesis
  proof (cases "BitArray_None ?m")
    case False
    then have ne: "ba_bits ?m \<noteq> {}" by (simp add: BitArray_None_iff)
    have "pm_wf pm" "pm_coherent pm" using l by (auto simp: ledger_def)
    from UpdatePageWatchersForRegion_total [OF prot this mN ne al b]
    obtain pm' where "UpdatePageWatchersForRegion protect track False ?a ?m pm = Some pm'" by blast
    then show ?thesis by (simp add: UpdateCpuProtection_def Let_def)
  qed (simp add: UpdateCpuProtection_def)
qed

lemma UpdateGpuProtection_total:
  assumes prot: "\<forall>c. protect c" and al: "rm_cpu_addr rm mod TRACKER_REGION_SIZE = 0" "rm_cpu_addr rm < TRACKER_ADDRESS_SIZE"
    and N: "ba_N (rm_gpu_dirty rm) = TRACKER_REGION_PAGES" "ba_N (rm_readable rm) = TRACKER_REGION_PAGES"
    and l: "ledger others (rm_cpu_addr rm) C (region_pages (rm_cpu_addr rm) - mask_pages (rm_cpu_addr rm) (rm_readable rm)) pm"
    and dir: "if track then mask_pages (rm_cpu_addr rm) (rm_readable rm) \<union> gpu_pages rm = region_pages (rm_cpu_addr rm)
      else mask_pages (rm_cpu_addr rm) (rm_readable rm) \<inter> gpu_pages rm = {}"
  shows "\<exists>s'. UpdateGpuProtection protect track (rm, pm) = Some s'"
proof -
  let ?a = "rm_cpu_addr rm" and ?m = "BitArray_xor (BitArray_not (rm_gpu_dirty rm)) (rm_readable rm)"
  let ?R = "mask_pages ?a (rm_readable rm)" and ?A = "region_pages (rm_cpu_addr rm)"
  have mN: "ba_N ?m = TRACKER_REGION_PAGES" using N by (simp add: ba_N_def BitArray_xor_def BitArray_not_def)
  have "mask_pages ?a ?m = (mask_pages ?a (BitArray_not (rm_gpu_dirty rm)) - ?R) \<union> (?R - mask_pages ?a (BitArray_not (rm_gpu_dirty rm)))"
    by (rule mask_pages_xor) (simp add: N)
  then have mp: "mask_pages ?a ?m = (?A - gpu_pages rm - ?R) \<union> (?R - (?A - gpu_pages rm))"
    by (simp only: mask_pages_not [OF N(1)])
  have b: "bumped True track True (page_at pm p) \<noteq> None" if p: "p \<in> mask_pages ?a ?m" for p
  proof -
    have A: "p \<in> ?A" using mask_pages_region [OF p] .
    then have "access_watchers (page_at pm p) = (if p \<in> ?A - ?R then 1 else 0)"
      using l by (auto simp: ledger_def)
    moreover have "if track then p \<notin> ?A - ?R else p \<in> ?A - ?R"
    proof (cases track)
      case True
      then have "?R \<union> gpu_pages rm = ?A" using dir by simp
      then show ?thesis using p True unfolding mp by auto
    next
      case False
      then have "?R \<inter> gpu_pages rm = {}" using dir by simp
      then show ?thesis using p A False unfolding mp by auto
    qed
    ultimately show ?thesis by (cases track) (simp_all add: bumped_def AddDelta_def)
  qed
  show ?thesis
  proof (cases "BitArray_None ?m")
    case False
    then have ne: "ba_bits ?m \<noteq> {}" by (simp add: BitArray_None_iff)
    have "pm_wf pm" "pm_coherent pm" using l by (auto simp: ledger_def)
    from UpdatePageWatchersForRegion_total [OF prot this mN ne al b]
    obtain pm' where "UpdatePageWatchersForRegion protect track True ?a ?m pm = Some pm'" by blast
    then show ?thesis by (simp add: UpdateGpuProtection_def Let_def)
  qed (simp add: UpdateGpuProtection_def)
qed

definition in_region :: "u64 \<Rightarrow> u64 \<Rightarrow> region_manager \<Rightarrow> bool" where
  "in_region vaddr bytes rm \<longleftrightarrow> 0 < bytes \<and> rm_cpu_addr rm \<le> vaddr \<and> vaddr + bytes \<le> rm_cpu_addr rm + TRACKER_REGION_SIZE"

lemma GetPageRange_total: "in_region vaddr bytes rm \<Longrightarrow> \<exists>s e. GetPageRange vaddr bytes rm = Some (s, e)"
  by (auto simp: in_region_def GetPageRange_def)

definition change_allowed :: "(nat \<Rightarrow> nat) \<Rightarrow> DirtySource \<Rightarrow> bool \<Rightarrow> nat set \<Rightarrow> region_manager \<Rightarrow> bool" where
  "change_allowed others source enable P rm \<longleftrightarrow>
     (source = Cpu \<and> enable \<longrightarrow> gpu_pages rm \<inter> P = {}) \<and> (source = Gpu \<and> enable \<longrightarrow> cpu_pages rm \<inter> P = {}) \<and>
     (source = Cpu \<and> \<not> enable \<longrightarrow> (\<forall>p\<in>cpu_pages rm \<inter> P. others p < 127))"

lemma ChangeState_total:
  assumes prot: "\<forall>c. protect c" and ok: "tracking_ok others (rm, pm)" and r: "in_region vaddr bytes rm"
    and allowed: "change_allowed others source enable (pages_of vaddr bytes) rm"
  shows "\<exists>s'. ChangeState protect source enable vaddr bytes (rm, pm) = Some s'"
proof -
  have al: "rm_cpu_addr rm mod TRACKER_REGION_SIZE = 0" "rm_cpu_addr rm < TRACKER_ADDRESS_SIZE"
    and N: "ba_N (rm_cpu_dirty rm) = TRACKER_REGION_PAGES" "ba_N (rm_gpu_dirty rm) = TRACKER_REGION_PAGES"
    and sh: "rm_writable rm = rm_cpu_dirty rm" "rm_readable rm = BitArray_not (rm_gpu_dirty rm)"
    using ok by (auto simp: tracking_ok_def region_ok_def)
  obtain s e where g: "GetPageRange vaddr bytes rm = Some (s, e)" using GetPageRange_total [OF r] by blast
  define bits where "bits = (if enable then BitArray_SetRange s e (GetBits source rm) else BitArray_UnsetRange s e (GetBits source rm))"
  define rm1 where "rm1 = SetBits source bits rm"
  have run: "ChangeState protect source enable vaddr bytes (rm, pm) =
      (if source = Cpu then UpdateCpuProtection protect (\<not> enable) (rm1, pm) else UpdateGpuProtection protect enable (rm1, pm))"
    using allowed Any_copy [OF g al(1)] N by (cases source) (auto simp: ChangeState_def g change_allowed_def rm1_def bits_def)
  have l: "ledger others (rm_cpu_addr rm) (cpu_pages rm) (gpu_pages rm) pm"
    using ok by (simp add: tracking_ok_def watched_by_ledger)
  have po: "pages_of vaddr bytes \<subseteq> region_pages (rm_cpu_addr rm)" using GetPageRange_spec(3) [OF g al(1)] .
  show ?thesis
  proof (cases source)
    case Cpu
    have cp: "mask_pages (rm_cpu_addr rm) bits = switched enable (pages_of vaddr bytes) (cpu_pages rm)"
      using mask_pages_range(1,2) [OF g al(1) N(1)] by (simp add: bits_def switched_def Cpu GetBits_def)
    have "\<exists>s'. UpdateCpuProtection protect (\<not> enable) (rm1, pm) = Some s'"
      by (rule UpdateCpuProtection_total [OF prot, where G = "gpu_pages rm" and others = others])
        (use Cpu al N sh l cp allowed in
          \<open>auto simp: rm1_def SetBits_def bits_def GetBits_def switched_def change_allowed_def split: if_splits\<close>)
    then show ?thesis using run Cpu by simp
  next
    case Gpu
    have cp: "mask_pages (rm_cpu_addr rm) bits = switched enable (pages_of vaddr bytes) (gpu_pages rm)"
      using mask_pages_range(1,2) [OF g al(1) N(2)] by (simp add: bits_def switched_def Gpu GetBits_def)
    have rd: "mask_pages (rm_cpu_addr rm) (rm_readable rm) = region_pages (rm_cpu_addr rm) - gpu_pages rm"
      unfolding sh by (rule mask_pages_not [OF N(2)])
    have sub: "gpu_pages rm \<subseteq> region_pages (rm_cpu_addr rm)" using mask_pages_region by blast
    then have G: "region_pages (rm_cpu_addr rm) - mask_pages (rm_cpu_addr rm) (rm_readable rm) = gpu_pages rm"
      unfolding rd by blast
    have 1: "rm_cpu_addr rm1 = rm_cpu_addr rm" "rm_readable rm1 = rm_readable rm" "rm_gpu_dirty rm1 = bits"
      by (simp_all add: rm1_def SetBits_def Gpu)
    have "if enable then mask_pages (rm_cpu_addr rm1) (rm_readable rm1) \<union> gpu_pages rm1 = region_pages (rm_cpu_addr rm1)
      else mask_pages (rm_cpu_addr rm1) (rm_readable rm1) \<inter> gpu_pages rm1 = {}"
      unfolding 1 cp rd using sub po by (auto simp: switched_def)
    then have "\<exists>s'. UpdateGpuProtection protect enable (rm1, pm) = Some s'"
      using G l al N by (intro UpdateGpuProtection_total [OF prot, where C = "cpu_pages rm" and others = others])
        (auto simp: 1 sh bits_def GetBits_def Gpu)
    then show ?thesis using run Gpu by simp
  qed
qed

section \<open>Properties\<close>

text \<open>
  C16: A state change on a range of one region succeeds exactly as the caller needs: without a
  conflict it turns the chosen dirty bits of the pages of the range on or off, leaves the other
  side's bits and every page outside the region alone, and keeps the watcher counts equal to
  what the dirty bits call for.
\<close>

theorem region_change_correct:
  assumes "\<forall>c. protect c" and "tracking_ok others (rm, pm)" and "in_region vaddr bytes rm"
    and "change_allowed others source enable (pages_of vaddr bytes) rm"
  shows "\<exists>rm' pm'. ChangeState protect source enable vaddr bytes (rm, pm) = Some (rm', pm') \<and> tracking_ok others (rm', pm') \<and>
    cpu_pages rm' = (if source = Cpu then switched enable (pages_of vaddr bytes) (cpu_pages rm) else cpu_pages rm) \<and>
    gpu_pages rm' = (if source = Gpu then switched enable (pages_of vaddr bytes) (gpu_pages rm) else gpu_pages rm) \<and>
    (\<forall>p. p \<notin> region_pages (rm_cpu_addr rm) \<longrightarrow> page_at pm' p = page_at pm p)"
proof -
  obtain rm' pm' where run: "ChangeState protect source enable vaddr bytes (rm, pm) = Some (rm', pm')"
    using ChangeState_total [OF assms] by fastforce
  show ?thesis
  proof (cases source)
    case Cpu
    from ChangeState_Cpu_spec [OF run [unfolded Cpu] assms(2)] run Cpu show ?thesis by auto
  next
    case Gpu
    from ChangeState_Gpu_spec [OF run [unfolded Gpu] assms(2)] run Gpu show ?thesis by auto
  qed
qed

lemma start_region:
  obtains rm where "new_region_manager 0 = Some rm" "tracking_ok (\<lambda>_. 0) (rm, new_page_manager)"
    "rm_cpu_addr rm = 0" "cpu_pages rm = {..<1024}" "gpu_pages rm = {}"
proof -
  define rm where "rm = \<lparr>rm_cpu_addr = 0, rm_cpu_dirty = BitArray_Fill RegionBits, rm_gpu_dirty = RegionBits,
           rm_writable = BitArray_Fill RegionBits, rm_readable = BitArray_Fill RegionBits\<rparr>"
  have f: "BitArray_Fill RegionBits = BitArray_not RegionBits"
    by (simp add: BitArray_Fill_def BitArray_not_def RegionBits_def BitArray_empty_def)
  have d: "p div 1024 = 0 \<longleftrightarrow> p < 1024" for p :: nat by (simp add: div_eq_0_iff)
  have c: "cpu_pages rm = {..<1024}" "gpu_pages rm = {}" "region_pages 0 = {..<1024}"
    by (auto simp: rm_def mask_pages_def RegionBits_def region_pages_def d)
  have N: "ba_N (BitArray_Fill RegionBits) = 1024" "ba_N RegionBits = 1024" by (simp_all add: RegionBits_def)
  have a: "rm_cpu_addr rm = 0" by (simp add: rm_def)
  have ok: "region_ok rm" using c N f by (simp add: region_ok_def) (simp add: rm_def)
  have pg: "page_at new_page_manager p = new_page" for p by (simp add: page_at_def new_page_manager_def)
  have "watched_by (\<lambda>_. 0) (rm, new_page_manager)"
    using c a by (simp add: watched_by_def pg new_page_def)
  then have "tracking_ok (\<lambda>_. 0) (rm, new_page_manager)" using ok by (simp add: tracking_ok_def)
  then show ?thesis using that [of rm] a c by (simp add: new_region_manager_def rm_def)
qed

theorem region_change_correct_witness:
  "\<exists>rm rm' pm'. new_region_manager 0 = Some rm \<and>
    ChangeState (\<lambda>_. True) Cpu False 4096 8192 (rm, new_page_manager) = Some (rm', pm') \<and> cpu_pages rm' = {..<1024} - {1..2}"
proof -
  obtain rm where r: "new_region_manager 0 = Some rm" "tracking_ok (\<lambda>_. 0) (rm, new_page_manager)"
    "rm_cpu_addr rm = 0" "cpu_pages rm = {..<1024}" "gpu_pages rm = {}" by (rule start_region)
  have "in_region 4096 8192 rm" "change_allowed (\<lambda>_. 0) Cpu False (pages_of 4096 8192) rm"
    using r by (auto simp: in_region_def change_allowed_def)
  from region_change_correct [OF _ r(2) this, of "\<lambda>_. True"] r show ?thesis
    by (auto simp: switched_def pages_of_def)
qed

end
