(* ===== verification/MemoryTracker.thy ===== *)
theory MemoryTracker
  imports RegionManager
begin

text \<open>
  \<open>MemoryTracker\<close> (src/src/graphics/host_gpu/memoryTracker.h, memoryTracker.cpp): the dirty
  state of the whole guest address space, one \<open>RegionManager\<close> per 4 MiB region, created on
  demand. Every operation validates its range and walks the regions the range touches
  (\<open>Iterate\<close>), handing each its share.

  State: the region table, the page manager it refers to, and whether the calling thread is
  inside an upload callback of this tracker (\<open>s_upload_owner == this\<close>). The callbacks that
  receive ranges are modelled by the list of their arguments; \<open>on_flush\<close> and \<open>upload_func\<close>,
  which are the caller's, are arguments. The access mutex makes the operations atomic; the
  region locks are \<open>TrackingSpinLock\<close>'s.

  Main lemmas: the operations refine set operations on the CPU-dirty and GPU-dirty pages
  (\<open>mt_cpu\<close>, \<open>mt_gpu\<close>; a region that does not exist yet is CPU-dirty throughout) and keep
  \<open>mt_ok\<close>, so that no page is ever dirty on both sides and the host protection always lets
  the next conflicting access be noticed.
\<close>

type_synonym regions = "nat \<rightharpoonup> region_manager"

record memory_tracker =
  mt_regions :: regions
  mt_pages :: page_manager
  mt_uploading :: bool

definition new_memory_tracker :: "page_manager \<Rightarrow> memory_tracker" where
  "new_memory_tracker pm = \<lparr>mt_regions = Map.empty, mt_pages = pm, mt_uploading = False\<rparr>"

definition mt_ValidateRange :: "u64 \<Rightarrow> u64 \<Rightarrow> unit option" where
  "mt_ValidateRange vaddr bytes =
     exit_if (vaddr = 0 \<or> bytes = 0 \<or> vaddr \<ge> TRACKER_ADDRESS_SIZE \<or> bytes > sub64 TRACKER_ADDRESS_SIZE vaddr)"

definition CheckNotInUploadCallback :: "memory_tracker \<Rightarrow> unit option" where
  "CheckNotInUploadCallback mt = exit_if (mt_uploading mt)"

definition GetOrCreateRegion :: "nat \<Rightarrow> regions \<Rightarrow> region_manager option" where
  "GetOrCreateRegion index regions =
     (case regions index of Some rm \<Rightarrow> Some rm | None \<Rightarrow> new_region_manager (index * TRACKER_REGION_SIZE))"

text \<open>
  A callback of \<open>Iterate\<close> gets the region, the offset and the byte count; it returns whether to
  stop, the ranges it reported, and the new state of the region and the page manager.
\<close>

type_synonym visit = "u64 \<Rightarrow> u64 \<Rightarrow> tracking \<Rightarrow> (bool \<times> (u64 \<times> u64) list \<times> tracking) option"

function Iterate_loop ::
  "bool \<Rightarrow> visit \<Rightarrow> u64 \<Rightarrow> nat \<Rightarrow> u64 \<Rightarrow> regions \<times> page_manager \<Rightarrow>
   (bool \<times> (u64 \<times> u64) list \<times> regions \<times> page_manager) option" where
  "Iterate_loop create func remaining index offset s =
     (if remaining = 0 then Some (False, [], s)
      else (case s of (regions, pm) \<Rightarrow> do {
        let bytes = min (TRACKER_REGION_SIZE - offset) remaining;
        (case (if create then GetOrCreateRegion index regions else regions index) of
           None \<Rightarrow> if create then None
                   else Iterate_loop create func (remaining - bytes) (index + 1) 0 s
         | Some rm \<Rightarrow> do {
             (stop, ranges, rm', pm') \<leftarrow> func offset bytes (rm, pm);
             let s' = (regions(index \<mapsto> rm'), pm');
             if stop then Some (True, ranges, s')
             else do {
               (stop', ranges', s'') \<leftarrow> Iterate_loop create func (remaining - bytes) (index + 1) 0 s';
               Some (stop', ranges @ ranges', s'')
             }
           })
      }))"
  by pat_completeness auto
termination
  by (relation "measure (\<lambda>(create, func, remaining, index, offset, s). 2 * remaining + (if offset > 0 then 1 else 0))")
    (auto simp: min_def split: if_splits)

declare Iterate_loop.simps [simp del]

definition Iterate ::
  "bool \<Rightarrow> visit \<Rightarrow> u64 \<Rightarrow> u64 \<Rightarrow> memory_tracker \<Rightarrow> (bool \<times> (u64 \<times> u64) list \<times> memory_tracker) option" where
  "Iterate create func vaddr bytes mt = do {
     mt_ValidateRange vaddr bytes;
     (stop, ranges, regions, pm) \<leftarrow> Iterate_loop create func bytes (vaddr div TRACKER_REGION_SIZE)
        (vaddr mod TRACKER_REGION_SIZE) (mt_regions mt, mt_pages mt);
     Some (stop, ranges, mt\<lparr>mt_regions := regions, mt_pages := pm\<rparr>)
   }"

section \<open>The visits\<close>

definition visit_is_modified :: "DirtySource \<Rightarrow> visit" where
  "visit_is_modified source offset bytes s = do {
     m \<leftarrow> IsModified source offset bytes (fst s);
     Some (m, [], s)
   }"

definition visit_change :: "(host_call \<Rightarrow> bool) \<Rightarrow> DirtySource \<Rightarrow> bool \<Rightarrow> visit" where
  "visit_change protect source enable offset bytes s = do {
     s' \<leftarrow> ChangeState protect source enable (rm_cpu_addr (fst s) + offset) bytes s;
     Some (False, [], s')
   }"

definition visit_ranges :: "(host_call \<Rightarrow> bool) \<Rightarrow> DirtySource \<Rightarrow> bool \<Rightarrow> visit" where
  "visit_ranges protect source clear offset bytes s = do {
     (ranges, s') \<leftarrow> ForEachModifiedRange protect source clear (rm_cpu_addr (fst s) + offset) bytes s;
     Some (False, ranges, s')
   }"

definition visit_nothing :: visit where
  "visit_nothing offset bytes s = Some (False, [], s)"

section \<open>The operations\<close>

definition IsRegionCpuModified :: "u64 \<Rightarrow> u64 \<Rightarrow> memory_tracker \<Rightarrow> (bool \<times> memory_tracker) option" where
  "IsRegionCpuModified vaddr bytes mt = do {
     CheckNotInUploadCallback mt;
     (m, _, mt') \<leftarrow> Iterate True (visit_is_modified Cpu) vaddr bytes mt;
     Some (m, mt')
   }"

definition IsRegionGpuModified :: "u64 \<Rightarrow> u64 \<Rightarrow> memory_tracker \<Rightarrow> (bool \<times> memory_tracker) option" where
  "IsRegionGpuModified vaddr bytes mt = do {
     CheckNotInUploadCallback mt;
     (m, _, mt') \<leftarrow> Iterate False (visit_is_modified Gpu) vaddr bytes mt;
     Some (m, mt')
   }"

definition MarkRegionAsCpuModified :: "(host_call \<Rightarrow> bool) \<Rightarrow> u64 \<Rightarrow> u64 \<Rightarrow> memory_tracker \<Rightarrow> memory_tracker option" where
  "MarkRegionAsCpuModified protect vaddr bytes mt = do {
     CheckNotInUploadCallback mt;
     (_, _, mt') \<leftarrow> Iterate True (visit_change protect Cpu True) vaddr bytes mt;
     Some mt'
   }"

definition MarkRegionAsGpuModified :: "(host_call \<Rightarrow> bool) \<Rightarrow> u64 \<Rightarrow> u64 \<Rightarrow> memory_tracker \<Rightarrow> memory_tracker option" where
  "MarkRegionAsGpuModified protect vaddr bytes mt = do {
     CheckNotInUploadCallback mt;
     (_, _, mt') \<leftarrow> Iterate True (visit_change protect Gpu True) vaddr bytes mt;
     Some mt'
   }"

definition UnmarkRegionAsGpuModified :: "(host_call \<Rightarrow> bool) \<Rightarrow> u64 \<Rightarrow> u64 \<Rightarrow> memory_tracker \<Rightarrow> memory_tracker option" where
  "UnmarkRegionAsGpuModified protect vaddr bytes mt = do {
     CheckNotInUploadCallback mt;
     (_, _, mt') \<leftarrow> Iterate False (visit_change protect Gpu False) vaddr bytes mt;
     Some mt'
   }"

definition UntrackMemory :: "(host_call \<Rightarrow> bool) \<Rightarrow> u64 \<Rightarrow> u64 \<Rightarrow> memory_tracker \<Rightarrow> memory_tracker option" where
  "UntrackMemory protect vaddr bytes mt = do {
     CheckNotInUploadCallback mt;
     (_, _, mt) \<leftarrow> Iterate False visit_nothing vaddr bytes mt;
     (modified, _, mt) \<leftarrow> Iterate False (visit_is_modified Gpu) vaddr bytes mt;
     exit_if modified;
     (_, _, mt) \<leftarrow> Iterate False (visit_change protect Cpu True) vaddr bytes mt;
     Some mt
   }"

text \<open>\<open>update_cpu_state\<close> of \<open>InvalidateRegion\<close>: True when the GPU owns a page of the range.\<close>

definition update_cpu_state :: "(host_call \<Rightarrow> bool) \<Rightarrow> u64 \<Rightarrow> u64 \<Rightarrow> memory_tracker \<Rightarrow> (bool \<times> memory_tracker) option" where
  "update_cpu_state protect vaddr bytes mt = do {
     (_, _, mt) \<leftarrow> Iterate False visit_nothing vaddr bytes mt;
     (gpu_modified, _, mt) \<leftarrow> Iterate False (visit_is_modified Gpu) vaddr bytes mt;
     if gpu_modified then Some (True, mt)
     else do {
       (_, _, mt) \<leftarrow> Iterate False (visit_change protect Cpu True) vaddr bytes mt;
       Some (False, mt)
     }
   }"

definition InvalidateRegion ::
  "(host_call \<Rightarrow> bool) \<Rightarrow> (memory_tracker \<Rightarrow> memory_tracker option) \<Rightarrow> u64 \<Rightarrow> u64 \<Rightarrow> memory_tracker \<Rightarrow> memory_tracker option" where
  "InvalidateRegion protect on_flush vaddr bytes mt = do {
     CheckNotInUploadCallback mt;
     mt_ValidateRange vaddr bytes;
     (owned, mt) \<leftarrow> update_cpu_state protect vaddr bytes mt;
     if \<not> owned then Some mt
     else do {
       mt \<leftarrow> on_flush mt;
       (owned, mt) \<leftarrow> update_cpu_state protect vaddr bytes mt;
       exit_if owned;
       Some mt
     }
   }"

text \<open>The results are the ranges given to \<open>preflight\<close> and those given to \<open>func\<close>.\<close>

definition ForEachDownloadRange ::
  "(host_call \<Rightarrow> bool) \<Rightarrow> bool \<Rightarrow> u64 \<Rightarrow> u64 \<Rightarrow> memory_tracker \<Rightarrow>
   ((u64 \<times> u64) list \<times> (u64 \<times> u64) list \<times> memory_tracker) option" where
  "ForEachDownloadRange protect clear vaddr bytes mt = do {
     CheckNotInUploadCallback mt;
     (_, _, mt) \<leftarrow> Iterate False visit_nothing vaddr bytes mt;
     (_, preflight, mt) \<leftarrow> Iterate False (visit_ranges protect Gpu False) vaddr bytes mt;
     (_, ranges, mt) \<leftarrow> Iterate False (visit_ranges protect Gpu False) vaddr bytes mt;
     if clear then do {
       (_, _, mt) \<leftarrow> Iterate False (visit_ranges protect Gpu True) vaddr bytes mt;
       Some (preflight, ranges, mt)
     } else Some (preflight, ranges, mt)
   }"

definition ForEachUploadRange ::
  "(host_call \<Rightarrow> bool) \<Rightarrow> (memory_tracker \<Rightarrow> memory_tracker option) \<Rightarrow> bool \<Rightarrow> u64 \<Rightarrow> u64 \<Rightarrow> memory_tracker \<Rightarrow>
   ((u64 \<times> u64) list \<times> memory_tracker) option" where
  "ForEachUploadRange protect upload_func is_written vaddr bytes mt = do {
     CheckNotInUploadCallback mt;
     (_, _, mt) \<leftarrow> Iterate True visit_nothing vaddr bytes mt;
     (_, ranges, mt) \<leftarrow> Iterate False (visit_ranges protect Cpu True) vaddr bytes (mt\<lparr>mt_uploading := True\<rparr>);
     mt \<leftarrow> upload_func mt;
     (_, _, mt) \<leftarrow> (if is_written then Iterate False (visit_change protect Gpu True) vaddr bytes mt
                     else Some (False, [], mt));
     Some (ranges, mt\<lparr>mt_uploading := False\<rparr>)
   }"

section \<open>The sets of dirty pages\<close>

definition mt_cpu :: "regions \<Rightarrow> nat set" where
  "mt_cpu regions = {p. case regions (p div TRACKER_REGION_PAGES) of None \<Rightarrow> True | Some rm \<Rightarrow> p \<in> cpu_pages rm}"

definition mt_gpu :: "regions \<Rightarrow> nat set" where
  "mt_gpu regions = {p. case regions (p div TRACKER_REGION_PAGES) of None \<Rightarrow> False | Some rm \<Rightarrow> p \<in> gpu_pages rm}"

definition dirty :: "DirtySource option \<Rightarrow> nat set \<times> nat set \<Rightarrow> nat set" where
  "dirty source s = (case source of None \<Rightarrow> {} | Some Cpu \<Rightarrow> fst s | Some Gpu \<Rightarrow> snd s)"

definition mt_sets :: "regions \<Rightarrow> nat set \<times> nat set" where
  "mt_sets regions = (mt_cpu regions, mt_gpu regions)"

definition rm_sets :: "region_manager \<Rightarrow> nat set \<times> nat set" where
  "rm_sets rm = (cpu_pages rm, gpu_pages rm)"

text \<open>The change of state a visit makes, on the sets.\<close>

definition apply_change :: "(DirtySource \<times> bool) option \<Rightarrow> nat set \<Rightarrow> nat set \<times> nat set \<Rightarrow> nat set \<times> nat set" where
  "apply_change ch P s = (case ch of None \<Rightarrow> s
     | Some (Cpu, enable) \<Rightarrow> (switched enable P (fst s), snd s)
     | Some (Gpu, enable) \<Rightarrow> (fst s, switched enable P (snd s)))"

definition index_pages :: "nat \<Rightarrow> nat set" where
  "index_pages i = {p. p div TRACKER_REGION_PAGES = i}"

definition mt_ok :: "(nat \<Rightarrow> nat) \<Rightarrow> regions \<times> page_manager \<Rightarrow> bool" where
  "mt_ok others s \<longleftrightarrow> pm_wf (snd s) \<and> pm_coherent (snd s) \<and>
     (\<forall>i rm. fst s i = Some rm \<longrightarrow> region_ok rm \<and> rm_cpu_addr rm = i * TRACKER_REGION_SIZE) \<and>
     (\<forall>p. write_watchers (page_at (snd s) p) = others p + (if p \<in> mt_cpu (fst s) then 0 else 1) \<and>
          access_watchers (page_at (snd s) p) = (if p \<in> mt_gpu (fst s) then 1 else 0))"

lemma region_pages_index: "region_pages (i * TRACKER_REGION_SIZE) = index_pages i"
  by (simp add: region_pages_def index_pages_def)

lemma mt_sets_update:
  assumes "rm_cpu_addr rm = i * TRACKER_REGION_SIZE"
  shows "mt_cpu (regions(i \<mapsto> rm)) = (mt_cpu regions - index_pages i) \<union> cpu_pages rm"
    and "mt_gpu (regions(i \<mapsto> rm)) = (mt_gpu regions - index_pages i) \<union> gpu_pages rm"
  using assms by (auto simp: mt_cpu_def mt_gpu_def index_pages_def mask_pages_def split: if_splits)

lemma mt_region_sets:
  assumes "regions i = Some rm" and "rm_cpu_addr rm = i * TRACKER_REGION_SIZE"
  shows "mt_cpu regions \<inter> index_pages i = cpu_pages rm" and "mt_gpu regions \<inter> index_pages i = gpu_pages rm"
  using assms by (auto simp: mt_cpu_def mt_gpu_def index_pages_def mask_pages_def)

lemma mt_absent_sets:
  assumes "regions i = None"
  shows "index_pages i \<subseteq> mt_cpu regions" and "mt_gpu regions \<inter> index_pages i = {}"
  using assms by (auto simp: mt_cpu_def mt_gpu_def index_pages_def)

lemma new_region_manager_sets:
  assumes "new_region_manager addr = Some rm" and "addr < TRACKER_ADDRESS_SIZE"
  shows "region_ok rm" and "rm_cpu_addr rm = addr" and "cpu_pages rm = region_pages addr" and "gpu_pages rm = {}"
proof -
  have rm: "rm = \<lparr>rm_cpu_addr = addr, rm_cpu_dirty = BitArray_Fill RegionBits, rm_gpu_dirty = RegionBits,
           rm_writable = BitArray_Fill RegionBits, rm_readable = BitArray_Fill RegionBits\<rparr>"
    and al: "addr mod TRACKER_REGION_SIZE = 0"
    using assms by (auto simp: new_region_manager_def)
  have f: "BitArray_Fill RegionBits = BitArray_not RegionBits"
    by (simp add: BitArray_Fill_def BitArray_not_def RegionBits_def BitArray_empty_def)
  show "cpu_pages rm = region_pages addr" "gpu_pages rm = {}" "rm_cpu_addr rm = addr"
    by (auto simp: rm mask_pages_def region_pages_def RegionBits_def)
  then show "region_ok rm" using al assms(2) using f by (simp add: region_ok_def rm) (simp add: RegionBits_def)
qed

text \<open>Looking a region up, creating it if asked, does not change the sets.\<close>

lemma lookup_region:
  assumes ok: "mt_ok others (regions, pm)" and i: "i < 262144"
    and l: "(if create then GetOrCreateRegion i regions else regions i) = Some rm"
  shows "region_ok rm" and "rm_cpu_addr rm = i * TRACKER_REGION_SIZE"
    and "mt_cpu regions \<inter> index_pages i = cpu_pages rm" and "mt_gpu regions \<inter> index_pages i = gpu_pages rm"
    and "tracking_ok others (rm, pm)"
proof -
  have 1: "region_ok rm \<and> rm_cpu_addr rm = i * TRACKER_REGION_SIZE \<and>
      mt_cpu regions \<inter> index_pages i = cpu_pages rm \<and> mt_gpu regions \<inter> index_pages i = gpu_pages rm"
  proof (cases "regions i")
    case (Some rm')
    then have "rm' = rm" using l by (auto simp: GetOrCreateRegion_def split: if_splits)
    then show ?thesis using ok Some mt_region_sets [of regions i rm] by (simp add: mt_ok_def)
  next
    case None
    then have "new_region_manager (i * TRACKER_REGION_SIZE) = Some rm"
      using l by (auto simp: GetOrCreateRegion_def split: if_splits)
    note new_region_manager_sets [OF this]
    moreover have "index_pages i \<subseteq> mt_cpu regions" "mt_gpu regions \<inter> index_pages i = {}"
      using mt_absent_sets None by blast+
    ultimately show ?thesis using i by (auto simp: region_pages_index)
  qed
  then show "region_ok rm" "rm_cpu_addr rm = i * TRACKER_REGION_SIZE"
    "mt_cpu regions \<inter> index_pages i = cpu_pages rm" "mt_gpu regions \<inter> index_pages i = gpu_pages rm" by blast+
  have "p \<in> mt_cpu regions \<longleftrightarrow> p \<in> cpu_pages rm" "p \<in> mt_gpu regions \<longleftrightarrow> p \<in> gpu_pages rm"
    if "p \<in> index_pages i" for p using 1 that by blast+
  then show "tracking_ok others (rm, pm)" using ok 1
    by (simp add: tracking_ok_def watched_by_def mt_ok_def region_pages_index)
qed

lemma store_region:
  assumes ok: "mt_ok others (regions, pm)" and t: "tracking_ok others (rm', pm')"
    and a: "rm_cpu_addr rm' = i * TRACKER_REGION_SIZE"
    and out: "\<And>p. p \<notin> index_pages i \<Longrightarrow> page_at pm' p = page_at pm p"
  shows "mt_ok others (regions(i \<mapsto> rm'), pm')"
proof -
  have sub: "cpu_pages rm' \<subseteq> index_pages i" "gpu_pages rm' \<subseteq> index_pages i"
    using mask_pages_region [of _ "rm_cpu_addr rm'"] a by (auto simp: region_pages_index)
  have w: "watched_by others (rm', pm')" and r: "region_ok rm'" using t by (auto simp: tracking_ok_def)
  have "write_watchers (page_at pm' p) = others p + (if p \<in> mt_cpu (regions(i \<mapsto> rm')) then 0 else 1) \<and>
      access_watchers (page_at pm' p) = (if p \<in> mt_gpu (regions(i \<mapsto> rm')) then 1 else 0)" for p
  proof (cases "p \<in> index_pages i")
    case True
    then have "p \<in> region_pages (rm_cpu_addr rm')" by (simp add: a region_pages_index)
    moreover have "p \<in> mt_cpu (regions(i \<mapsto> rm')) \<longleftrightarrow> p \<in> cpu_pages rm'"
      "p \<in> mt_gpu (regions(i \<mapsto> rm')) \<longleftrightarrow> p \<in> gpu_pages rm'"
      using True by (auto simp: mt_sets_update [OF a])
    ultimately show ?thesis using w by (simp add: watched_by_def)
  next
    case False
    then have "p \<in> mt_cpu (regions(i \<mapsto> rm')) \<longleftrightarrow> p \<in> mt_cpu regions"
      "p \<in> mt_gpu (regions(i \<mapsto> rm')) \<longleftrightarrow> p \<in> mt_gpu regions"
      using sub by (auto simp: mt_sets_update [OF a])
    then show ?thesis using ok out [OF False] by (simp add: mt_ok_def)
  qed
  then show ?thesis using ok w r a by (auto simp: mt_ok_def watched_by_def)
qed

section \<open>Walking the regions\<close>

text \<open>What a visit does to its region: the change, the dirty set whose ranges it reports, and
  the dirty set it looks for.\<close>

definition visit_spec ::
  "(nat \<Rightarrow> nat) \<Rightarrow> (DirtySource \<times> bool) option \<Rightarrow> DirtySource option \<Rightarrow> DirtySource option \<Rightarrow> visit \<Rightarrow> bool" where
  "visit_spec others ch rsel ssel func \<longleftrightarrow>
     (\<forall>off n rm pm stop ranges rm' pm'. tracking_ok others (rm, pm) \<longrightarrow> func off n (rm, pm) = Some (stop, ranges, rm', pm') \<longrightarrow>
        in_region (rm_cpu_addr rm + off) n rm \<longrightarrow>
        (let P = pages_of (rm_cpu_addr rm + off) n in
         tracking_ok others (rm', pm') \<and> rm_cpu_addr rm' = rm_cpu_addr rm \<and>
         rm_sets rm' = apply_change ch P (rm_sets rm) \<and>
         (\<forall>p. p \<notin> region_pages (rm_cpu_addr rm) \<longrightarrow> page_at pm' p = page_at pm p) \<and>
         pieces_cover ranges = page_bytes (dirty rsel (rm_sets rm) \<inter> P) \<and>
         (stop \<longleftrightarrow> dirty ssel (rm_sets rm) \<inter> P \<noteq> {})))"

definition span :: "nat \<Rightarrow> u64 \<Rightarrow> u64 \<Rightarrow> nat set" where
  "span i offset n = (if n = 0 then {} else pages_of (i * TRACKER_REGION_SIZE + offset) n)"

lemma span_split:
  assumes n: "0 < n" and off: "offset < TRACKER_REGION_SIZE"
  defines "b \<equiv> min (TRACKER_REGION_SIZE - offset) n"
  shows "span i offset n = pages_of (i * TRACKER_REGION_SIZE + offset) b \<union> span (i + 1) 0 (n - b)"
    and "pages_of (i * TRACKER_REGION_SIZE + offset) b \<subseteq> index_pages i"
    and "span (i + 1) 0 m \<inter> index_pages i = {}"
proof -
  have idx: "index_pages i = {i * 1024..<(i + 1) * 1024}" by (auto simp: index_pages_def)
  have b: "0 < b" "offset + b \<le> 4194304" using n off by (auto simp: b_def)
  have lo: "i * 1024 \<le> (i * TRACKER_REGION_SIZE + offset) div 4096" by simp
  have hi: "(i * TRACKER_REGION_SIZE + offset + b - 1) div 4096 < (i + 1) * 1024"
    using b by (simp add: less_mult_imp_div_less)
  show "pages_of (i * TRACKER_REGION_SIZE + offset) b \<subseteq> index_pages i"
    unfolding idx pages_of_def using lo hi by auto
  have nxt: "(i + 1) * TRACKER_REGION_SIZE div 4096 = (i + 1) * 1024" by simp
  show "span (i + 1) 0 m \<inter> index_pages i = {}"
    unfolding idx span_def pages_of_def add_0_right nxt by auto
  show "span i offset n = pages_of (i * TRACKER_REGION_SIZE + offset) b \<union> span (i + 1) 0 (n - b)"
  proof (cases "n = b")
    case True
    then show ?thesis using n by (simp add: span_def)
  next
    case False
    then have bn: "b = 4194304 - offset" "b < n" by (auto simp: b_def min_def split: if_splits)
    have e1: "i * TRACKER_REGION_SIZE + offset + b - 1 = i * 4194304 + 4194303" using bn off by simp
    have e2: "i * TRACKER_REGION_SIZE + offset + n - 1 = (i + 1) * TRACKER_REGION_SIZE + (n - b) - 1" using bn off by simp
    have d1: "(i * 4194304 + 4194303) div 4096 = i * 1024 + 1023" by presburger
    define h where "h = ((i + 1) * TRACKER_REGION_SIZE + (n - b) - 1) div 4096"
    have h: "(i + 1) * 1024 \<le> h" unfolding h_def nxt [symmetric] by (rule div_le_mono) (use bn in simp)
    have s1: "span i offset n = {(i * TRACKER_REGION_SIZE + offset) div 4096..h}"
      unfolding span_def if_not_P [OF gr_implies_not0 [OF n]] pages_of_def e2 h_def ..
    have s2: "pages_of (i * TRACKER_REGION_SIZE + offset) b = {(i * TRACKER_REGION_SIZE + offset) div 4096..i * 1024 + 1023}"
      unfolding pages_of_def e1 d1 ..
    have s3: "span (i + 1) 0 (n - b) = {(i + 1) * 1024..h}"
      using bn by (simp only: span_def pages_of_def add_0_right nxt h_def zero_less_diff less_not_refl2) (simp add: algebra_simps)
    have "(i * TRACKER_REGION_SIZE + offset) div 4096 \<le> i * 1024 + 1023" using off by linarith
    then show ?thesis unfolding s1 s2 s3 using h by auto
  qed
qed

text \<open>A region that does not exist is skipped unless it is created: that must not lose anything.\<close>

definition skippable :: "bool \<Rightarrow> (DirtySource \<times> bool) option \<Rightarrow> DirtySource option \<Rightarrow> DirtySource option \<Rightarrow> regions \<Rightarrow> nat set \<Rightarrow> bool" where
  "skippable create ch rsel ssel regions P \<longleftrightarrow> create \<or> (\<forall>p\<in>P. regions (p div TRACKER_REGION_PAGES) \<noteq> None) \<or>
     (ch \<in> {None, Some (Cpu, True), Some (Gpu, False)} \<and> rsel \<noteq> Some Cpu \<and> ssel \<noteq> Some Cpu)"

lemma apply_change_Un: "apply_change ch Q (apply_change ch P s) = apply_change ch (P \<union> Q) s"
  by (cases s) (auto simp: apply_change_def switched_def split: option.splits DirtySource.splits)

lemma dirty_apply_change:
  "P \<inter> Q = {} \<Longrightarrow> dirty sel (apply_change ch P s) \<inter> Q = dirty sel s \<inter> Q"
  by (cases s) (auto simp: apply_change_def dirty_def switched_def split: option.splits DirtySource.splits prod.splits)

lemma page_bytes_Un: "page_bytes (S \<union> T) = page_bytes S \<union> page_bytes T"
  by (auto simp: page_bytes_def)

lemma page_bytes_empty [simp]: "page_bytes {} = {}"
  by (simp add: page_bytes_def)

lemma apply_change_empty [simp]: "apply_change ch {} s = s"
  by (cases s) (auto simp: apply_change_def switched_def split: option.splits DirtySource.splits)

text \<open>One region's share of a walk, seen on the sets.\<close>

lemma visit_step:
  assumes spec: "visit_spec others ch rsel ssel func" and ok: "mt_ok others (regions, pm)" and i: "i < 262144"
    and l: "(if create then GetOrCreateRegion i regions else regions i) = Some rm"
    and run: "func off n (rm, pm) = Some (stop, ranges, rm', pm')"
    and off: "off < TRACKER_REGION_SIZE" "0 < n" "off + n \<le> TRACKER_REGION_SIZE"
    and P: "P = pages_of (i * TRACKER_REGION_SIZE + off) n"
  shows "mt_ok others (regions(i \<mapsto> rm'), pm')" and "mt_sets (regions(i \<mapsto> rm')) = apply_change ch P (mt_sets regions)"
    and "pieces_cover ranges = page_bytes (dirty rsel (mt_sets regions) \<inter> P)"
    and "stop \<longleftrightarrow> dirty ssel (mt_sets regions) \<inter> P \<noteq> {}"
proof -
  note lk = lookup_region [OF ok i l]
  have "in_region (rm_cpu_addr rm + off) n rm" using off by (simp add: in_region_def)
  with spec [unfolded visit_spec_def Let_def, rule_format, OF lk(5) run] P lk(2)
  have s: "tracking_ok others (rm', pm')" "rm_cpu_addr rm' = i * TRACKER_REGION_SIZE"
      "rm_sets rm' = apply_change ch P (rm_sets rm)"
      "\<And>p. p \<notin> index_pages i \<Longrightarrow> page_at pm' p = page_at pm p"
      "pieces_cover ranges = page_bytes (dirty rsel (rm_sets rm) \<inter> P)"
      "stop \<longleftrightarrow> dirty ssel (rm_sets rm) \<inter> P \<noteq> {}"
    by (simp_all add: region_pages_index)
  have "min (TRACKER_REGION_SIZE - off) n = n" using off by simp
  then have PI: "P \<subseteq> index_pages i" using span_split(2) [OF off(2,1), of i] P by simp
  have d: "dirty sel (rm_sets rm) \<inter> P = dirty sel (mt_sets regions) \<inter> P" for sel
    using lk(3,4) PI by (auto simp: dirty_def rm_sets_def mt_sets_def split: option.splits DirtySource.splits)
  show "mt_ok others (regions(i \<mapsto> rm'), pm')" by (rule store_region [OF ok s(1,2,4)])
  show "mt_sets (regions(i \<mapsto> rm')) = apply_change ch P (mt_sets regions)"
    using s(3) lk(3,4) PI unfolding mt_sets_def mt_sets_update [OF s(2)]
    by (auto simp: apply_change_def rm_sets_def switched_def split: option.splits DirtySource.splits)
  show "pieces_cover ranges = page_bytes (dirty rsel (mt_sets regions) \<inter> P)" using s(5) d by simp
  show "stop \<longleftrightarrow> dirty ssel (mt_sets regions) \<inter> P \<noteq> {}" using s(6) d by simp
qed

lemma Iterate_loop_spec:
  assumes spec: "visit_spec others ch rsel ssel func" and quiet: "ssel \<noteq> None \<Longrightarrow> ch = None"
  shows "Iterate_loop create func n i offset (regions, pm) = Some (stop, ranges, regions', pm') \<Longrightarrow>
    mt_ok others (regions, pm) \<Longrightarrow> offset < TRACKER_REGION_SIZE \<Longrightarrow>
    i * TRACKER_REGION_SIZE + offset + n \<le> TRACKER_ADDRESS_SIZE \<Longrightarrow>
    skippable create ch rsel ssel regions (span i offset n) \<Longrightarrow>
    mt_ok others (regions', pm') \<and> mt_sets regions' = apply_change ch (span i offset n) (mt_sets regions) \<and>
    (stop \<longleftrightarrow> dirty ssel (mt_sets regions) \<inter> span i offset n \<noteq> {}) \<and>
    (\<not> stop \<longrightarrow> pieces_cover ranges = page_bytes (dirty rsel (mt_sets regions) \<inter> span i offset n)) \<and>
    (\<forall>j. regions j \<noteq> None \<longrightarrow> regions' j \<noteq> None) \<and>
    (create \<and> \<not> stop \<longrightarrow> (\<forall>p\<in>span i offset n. regions' (p div TRACKER_REGION_PAGES) \<noteq> None))"
proof (induction n arbitrary: i offset regions pm ranges rule: less_induct)
  case (less n)
  show ?case
  proof (cases "n = 0")
    case True
    then show ?thesis using less.prems(1,2)
      by (auto simp: Iterate_loop.simps [of create func 0 i offset] span_def)
  next
    case False
    then have n: "0 < n" by simp
    define b where "b = min (TRACKER_REGION_SIZE - offset) n"
    define P where "P = pages_of (i * TRACKER_REGION_SIZE + offset) b"
    define Q where "Q = span (i + 1) 0 (n - b)"
    have b: "0 < b" "b \<le> n" "offset + b \<le> TRACKER_REGION_SIZE" using n less.prems(3) by (auto simp: b_def)
    have PQ: "span i offset n = P \<union> Q" "P \<subseteq> index_pages i" "Q \<inter> index_pages i = {}" "P \<inter> Q = {}"
      using span_split [OF n less.prems(3), of i] unfolding P_def Q_def b_def by blast+
    have i: "i < 262144" using less.prems(4) n by simp
    have nxt: "(i + 1) * TRACKER_REGION_SIZE + 0 + (n - b) \<le> TRACKER_ADDRESS_SIZE"
    proof (cases "n = b")
      case False
      then have "b = TRACKER_REGION_SIZE - offset" by (auto simp: b_def min_def split: if_splits)
      then show ?thesis using less.prems(3,4) b(2) by simp
    qed (use i in simp)
    have loop: "Iterate_loop create func n i offset (regions, pm) =
      (case (if create then GetOrCreateRegion i regions else regions i) of
           None \<Rightarrow> if create then None else Iterate_loop create func (n - b) (i + 1) 0 (regions, pm)
         | Some rm \<Rightarrow> do {
             (stop, ranges, rm', pm') \<leftarrow> func offset b (rm, pm);
             let s' = (regions(i \<mapsto> rm'), pm');
             if stop then Some (True, ranges, s')
             else do {
               (stop', ranges', s'') \<leftarrow> Iterate_loop create func (n - b) (i + 1) 0 s';
               Some (stop', ranges @ ranges', s'')
             }
           })"
    proof -
      have n0: "(n = 0) = False" using n by simp
      show ?thesis by (subst Iterate_loop.simps) (simp only: n0 if_False prod.case Let_def b_def)
    qed
    show ?thesis
    proof (cases "if create then GetOrCreateRegion i regions else regions i")
      case None
      then have c: "\<not> create" and ri: "regions i = None" and "Iterate_loop create func (n - b) (i + 1) 0 (regions, pm) = Some (stop, ranges, regions', pm')"
        using less.prems(1) loop by (auto split: if_splits)
      moreover have sk: "skippable create ch rsel ssel regions Q"
        using less.prems(5) PQ(1) by (auto simp: skippable_def)
      ultimately have IH: "mt_ok others (regions', pm') \<and> mt_sets regions' = apply_change ch Q (mt_sets regions) \<and>
          (stop \<longleftrightarrow> dirty ssel (mt_sets regions) \<inter> Q \<noteq> {}) \<and>
          (\<not> stop \<longrightarrow> pieces_cover ranges = page_bytes (dirty rsel (mt_sets regions) \<inter> Q)) \<and>
          (\<forall>j. regions j \<noteq> None \<longrightarrow> regions' j \<noteq> None)"
        using less.IH [of "n - b" "i + 1" 0 regions pm ranges] b less.prems(2) nxt unfolding Q_def by simp
      have "P \<noteq> {}" using b(1) unfolding P_def pages_of_def by (auto intro: div_le_mono)
      then obtain p where "p \<in> P" by blast
      then have "p \<in> span i offset n" "regions (p div TRACKER_REGION_PAGES) = None"
        using PQ(1,2) ri by (auto simp: index_pages_def)
      then have h: "ch \<in> {None, Some (Cpu, True), Some (Gpu, False)}" "rsel \<noteq> Some Cpu" "ssel \<noteq> Some Cpu"
        using less.prems(5) c by (auto simp: skippable_def)
      have ab: "P \<subseteq> mt_cpu regions" "mt_gpu regions \<inter> P = {}" using mt_absent_sets [of regions i] ri PQ(2) by blast+
      have "apply_change ch P (mt_sets regions) = mt_sets regions"
        using h(1) ab by (auto simp: apply_change_def switched_def mt_sets_def)
      then have 1: "apply_change ch (P \<union> Q) (mt_sets regions) = apply_change ch Q (mt_sets regions)"
        by (simp flip: apply_change_Un)
      have "dirty sel (mt_sets regions) \<inter> P = {}" if "sel \<noteq> Some Cpu" for sel
        using ab that by (cases sel; cases "the sel") (auto simp: dirty_def mt_sets_def)
      then have "dirty sel (mt_sets regions) \<inter> (P \<union> Q) = dirty sel (mt_sets regions) \<inter> Q" if "sel \<noteq> Some Cpu" for sel
        using that by (simp add: Int_Un_distrib)
      then show ?thesis using IH c h 1 unfolding PQ(1) by simp
    next
      case (Some rm)
      then obtain stop1 ranges1 rm' pm1 where run1: "func offset b (rm, pm) = Some (stop1, ranges1, rm', pm1)"
        and rest: "if stop1 then (stop, ranges, regions', pm') = (True, ranges1, regions(i \<mapsto> rm'), pm1)
          else (\<exists>ranges2. Iterate_loop create func (n - b) (i + 1) 0 (regions(i \<mapsto> rm'), pm1) = Some (stop, ranges2, regions', pm')
            \<and> ranges = ranges1 @ ranges2)"
        using less.prems(1) loop by (auto simp: bind_eq_Some_iff Let_def split: if_splits)
      note st = visit_step [OF spec less.prems(2) i Some run1 less.prems(3) b(1,3) P_def]
      show ?thesis
      proof (cases stop1)
        case True
        then have d: "dirty ssel (mt_sets regions) \<inter> P \<noteq> {}" using st(4) by simp
        then have "ssel \<noteq> None" by (auto simp: dirty_def)
        then have "ch = None" by (rule quiet)
        then have "mt_sets (regions(i \<mapsto> rm')) = apply_change ch (P \<union> Q) (mt_sets regions)"
          using st(2) by (simp add: apply_change_def)
        moreover have r: "regions' = regions(i \<mapsto> rm')" "pm' = pm1" stop using rest True by auto
        moreover have "dirty ssel (mt_sets regions) \<inter> (P \<union> Q) \<noteq> {}" using d by blast
        moreover have "\<forall>j. regions j \<noteq> None \<longrightarrow> (regions(i \<mapsto> rm')) j \<noteq> None" by simp
        ultimately show ?thesis using st(1) unfolding PQ(1) by metis
      next
        case False
        define r1 where "r1 = regions(i \<mapsto> rm')"
        note st' = st [folded r1_def]
        obtain ranges2 where run2: "Iterate_loop create func (n - b) (i + 1) 0 (r1, pm1) = Some (stop, ranges2, regions', pm')"
          and rg: "ranges = ranges1 @ ranges2" using rest False by (auto simp: r1_def)
        have sk: "skippable create ch rsel ssel r1 Q"
          using less.prems(5) PQ(1) by (auto simp: skippable_def r1_def)
        have IH: "mt_ok others (regions', pm') \<and> mt_sets regions' = apply_change ch Q (mt_sets r1) \<and>
            (stop \<longleftrightarrow> dirty ssel (mt_sets r1) \<inter> Q \<noteq> {}) \<and>
            (\<not> stop \<longrightarrow> pieces_cover ranges2 = page_bytes (dirty rsel (mt_sets r1) \<inter> Q)) \<and>
            (\<forall>j. r1 j \<noteq> None \<longrightarrow> regions' j \<noteq> None) \<and>
            (create \<and> \<not> stop \<longrightarrow> (\<forall>p\<in>Q. regions' (p div TRACKER_REGION_PAGES) \<noteq> None))"
        proof -
          have "n - b < n" "(0::nat) < TRACKER_REGION_SIZE" using b n by simp_all
          from less.IH [OF this(1) run2 st'(1) this(2) nxt sk [unfolded Q_def]] show ?thesis
            unfolding Q_def .
        qed
        have dq: "dirty sel (mt_sets r1) \<inter> Q = dirty sel (mt_sets regions) \<inter> Q" for sel
          unfolding st'(2) by (rule dirty_apply_change [OF PQ(4)])
        have r1: "\<forall>j. regions j \<noteq> None \<longrightarrow> r1 j \<noteq> None" "r1 i \<noteq> None" by (auto simp: r1_def)
        then have "\<forall>p\<in>P. regions' (p div TRACKER_REGION_PAGES) \<noteq> None"
          using IH PQ(2) by (auto simp: index_pages_def)
        moreover have "dirty ssel (mt_sets regions) \<inter> P = {}" using st'(4) False by simp
        ultimately show ?thesis using IH rg st'(2,3) dq r1 unfolding PQ(1)
          by (auto simp: apply_change_Un Int_Un_distrib page_bytes_Un)
      qed
    qed
  qed
qed

section \<open>The visits of the operations\<close>

lemma visit_nothing_spec: "visit_spec others None None None visit_nothing"
  by (simp add: visit_spec_def visit_nothing_def apply_change_def dirty_def Let_def)

lemma visit_is_modified_spec: "visit_spec others None None (Some source) (visit_is_modified source)"
  unfolding visit_spec_def
proof (intro allI impI)
  fix off n rm pm stop ranges rm' pm'
  assume t: "tracking_ok others (rm, pm)" and run: "visit_is_modified source off n (rm, pm) = Some (stop, ranges, rm', pm')"
  have m: "IsModified source off n rm = Some stop" and r: "ranges = []" "rm' = rm" "pm' = pm"
    using run by (auto simp: visit_is_modified_def bind_eq_Some_iff)
  have "mask_pages (rm_cpu_addr rm) (GetBits source rm) = dirty (Some source) (rm_sets rm)"
    by (cases source) (simp_all add: GetBits_def dirty_def rm_sets_def)
  then show "let P = pages_of (rm_cpu_addr rm + off) n in
         tracking_ok others (rm', pm') \<and> rm_cpu_addr rm' = rm_cpu_addr rm \<and>
         rm_sets rm' = apply_change None P (rm_sets rm) \<and>
         (\<forall>p. p \<notin> region_pages (rm_cpu_addr rm) \<longrightarrow> page_at pm' p = page_at pm p) \<and>
         pieces_cover ranges = page_bytes (dirty None (rm_sets rm) \<inter> P) \<and>
         (stop \<longleftrightarrow> dirty (Some source) (rm_sets rm) \<inter> P \<noteq> {})"
    using IsModified_spec [OF m] t r by (simp add: Let_def tracking_ok_def apply_change_def dirty_def)
qed

lemma ChangeState_sets:
  assumes run: "ChangeState protect source enable vaddr n (rm, pm) = Some (rm', pm')"
    and ok: "tracking_ok others (rm, pm)"
  shows "tracking_ok others (rm', pm')" and "rm_cpu_addr rm' = rm_cpu_addr rm"
    and "rm_sets rm' = apply_change (Some (source, enable)) (pages_of vaddr n) (rm_sets rm)"
    and "\<And>p. p \<notin> region_pages (rm_cpu_addr rm) \<Longrightarrow> page_at pm' p = page_at pm p"
proof -
  have "tracking_ok others (rm', pm') \<and> rm_cpu_addr rm' = rm_cpu_addr rm \<and>
    rm_sets rm' = apply_change (Some (source, enable)) (pages_of vaddr n) (rm_sets rm) \<and>
    (\<forall>p. p \<notin> region_pages (rm_cpu_addr rm) \<longrightarrow> page_at pm' p = page_at pm p)"
  proof (cases source)
    case Cpu
    then show ?thesis using ChangeState_Cpu_spec [OF run [unfolded Cpu] ok] by (simp add: rm_sets_def apply_change_def)
  next
    case Gpu
    then show ?thesis using ChangeState_Gpu_spec [OF run [unfolded Gpu] ok] by (simp add: rm_sets_def apply_change_def)
  qed
  then show "tracking_ok others (rm', pm')" "rm_cpu_addr rm' = rm_cpu_addr rm"
    "rm_sets rm' = apply_change (Some (source, enable)) (pages_of vaddr n) (rm_sets rm)"
    "\<And>p. p \<notin> region_pages (rm_cpu_addr rm) \<Longrightarrow> page_at pm' p = page_at pm p" by blast+
qed

lemma visit_change_spec: "visit_spec others (Some (source, enable)) None None (visit_change protect source enable)"
  unfolding visit_spec_def
proof (intro allI impI)
  fix off n rm pm stop ranges rm' pm'
  assume t: "tracking_ok others (rm, pm)" and run: "visit_change protect source enable off n (rm, pm) = Some (stop, ranges, rm', pm')"
  have m: "ChangeState protect source enable (rm_cpu_addr rm + off) n (rm, pm) = Some (rm', pm')" and r: "ranges = []" "\<not> stop"
    using run by (auto simp: visit_change_def bind_eq_Some_iff)
  show "let P = pages_of (rm_cpu_addr rm + off) n in
         tracking_ok others (rm', pm') \<and> rm_cpu_addr rm' = rm_cpu_addr rm \<and>
         rm_sets rm' = apply_change (Some (source, enable)) P (rm_sets rm) \<and>
         (\<forall>p. p \<notin> region_pages (rm_cpu_addr rm) \<longrightarrow> page_at pm' p = page_at pm p) \<and>
         pieces_cover ranges = page_bytes (dirty None (rm_sets rm) \<inter> P) \<and>
         (stop \<longleftrightarrow> dirty None (rm_sets rm) \<inter> P \<noteq> {})"
    using ChangeState_sets [OF m t] r by (simp add: Let_def dirty_def)
qed

lemma visit_ranges_spec:
  "visit_spec others (if clear then Some (source, False) else None) (Some source) None (visit_ranges protect source clear)"
  unfolding visit_spec_def
proof (intro allI impI)
  fix off n rm pm stop ranges rm' pm'
  assume t: "tracking_ok others (rm, pm)" and run: "visit_ranges protect source clear off n (rm, pm) = Some (stop, ranges, rm', pm')"
  let ?v = "rm_cpu_addr rm + off"
  have m: "ForEachModifiedRange protect source clear ?v n (rm, pm) = Some (ranges, (rm', pm'))" and r: "\<not> stop"
    using run by (auto simp: visit_ranges_def bind_eq_Some_iff)
  have "mask_pages (rm_cpu_addr rm) (GetBits source rm) = dirty (Some source) (rm_sets rm)"
    by (cases source) (simp_all add: GetBits_def dirty_def rm_sets_def)
  then have "pieces_cover ranges = page_bytes (dirty (Some source) (rm_sets rm) \<inter> pages_of ?v n)"
    using ForEachModifiedRange_ranges [OF m t] by simp
  moreover have "tracking_ok others (rm', pm') \<and> rm_cpu_addr rm' = rm_cpu_addr rm \<and>
      rm_sets rm' = apply_change (if clear then Some (source, False) else None) (pages_of ?v n) (rm_sets rm) \<and>
      (\<forall>p. p \<notin> region_pages (rm_cpu_addr rm) \<longrightarrow> page_at pm' p = page_at pm p)"
  proof (cases clear)
    case True
    then have "ForEachModifiedRange protect source True ?v n (rm, pm) = Some (ranges, (rm', pm'))" using m by simp
    from ChangeState_sets [OF ForEachModifiedRange_clear [OF this] t] True show ?thesis by simp
  next
    case False
    then have "ForEachModifiedRange protect source False ?v n (rm, pm) = Some (ranges, (rm', pm'))" using m by simp
    from ForEachModifiedRange_keep [OF this] False t show ?thesis by (simp add: apply_change_def)
  qed
  ultimately show "let P = pages_of ?v n in
         tracking_ok others (rm', pm') \<and> rm_cpu_addr rm' = rm_cpu_addr rm \<and>
         rm_sets rm' = apply_change (if clear then Some (source, False) else None) P (rm_sets rm) \<and>
         (\<forall>p. p \<notin> region_pages (rm_cpu_addr rm) \<longrightarrow> page_at pm' p = page_at pm p) \<and>
         pieces_cover ranges = page_bytes (dirty (Some source) (rm_sets rm) \<inter> P) \<and>
         (stop \<longleftrightarrow> dirty None (rm_sets rm) \<inter> P \<noteq> {})"
    using r by (simp add: Let_def dirty_def)
qed

section \<open>The tracker\<close>

definition mt_good :: "(nat \<Rightarrow> nat) \<Rightarrow> memory_tracker \<Rightarrow> bool" where
  "mt_good others mt \<longleftrightarrow> mt_ok others (mt_regions mt, mt_pages mt)"

abbreviation cpu_dirty_pages :: "memory_tracker \<Rightarrow> nat set" where
  "cpu_dirty_pages mt \<equiv> mt_cpu (mt_regions mt)"

abbreviation gpu_dirty_pages :: "memory_tracker \<Rightarrow> nat set" where
  "gpu_dirty_pages mt \<equiv> mt_gpu (mt_regions mt)"

lemma Iterate_spec:
  assumes run: "Iterate create func vaddr n mt = Some (stop, ranges, mt')" and good: "mt_good others mt"
    and spec: "visit_spec others ch rsel ssel func" and quiet: "ssel \<noteq> None \<Longrightarrow> ch = None"
    and sk: "skippable create ch rsel ssel (mt_regions mt) (pages_of vaddr n)"
  shows "mt_good others mt' \<and> mt_sets (mt_regions mt') = apply_change ch (pages_of vaddr n) (mt_sets (mt_regions mt)) \<and>
    (stop \<longleftrightarrow> dirty ssel (mt_sets (mt_regions mt)) \<inter> pages_of vaddr n \<noteq> {}) \<and>
    (\<not> stop \<longrightarrow> pieces_cover ranges = page_bytes (dirty rsel (mt_sets (mt_regions mt)) \<inter> pages_of vaddr n)) \<and>
    mt_uploading mt' = mt_uploading mt \<and>
    (\<forall>j. mt_regions mt j \<noteq> None \<longrightarrow> mt_regions mt' j \<noteq> None) \<and>
    (create \<and> \<not> stop \<longrightarrow> (\<forall>p\<in>pages_of vaddr n. mt_regions mt' (p div TRACKER_REGION_PAGES) \<noteq> None))"
proof -
  let ?i = "vaddr div TRACKER_REGION_SIZE" and ?o = "vaddr mod TRACKER_REGION_SIZE"
  obtain regions' pm' where l: "Iterate_loop create func n ?i ?o (mt_regions mt, mt_pages mt) = Some (stop, ranges, regions', pm')"
    and mt': "mt' = mt\<lparr>mt_regions := regions', mt_pages := pm'\<rparr>"
    using run by (auto simp: Iterate_def bind_eq_Some_iff)
  have v: "0 < n" "vaddr < TRACKER_ADDRESS_SIZE" "vaddr + n \<le> TRACKER_ADDRESS_SIZE"
    using run by (auto simp: Iterate_def mt_ValidateRange_def bind_eq_Some_iff)
  have va: "?i * TRACKER_REGION_SIZE + ?o = vaddr" by (rule div_mult_mod_eq)
  have sp: "span ?i ?o n = pages_of vaddr n" using v by (simp only: span_def va) simp
  note lp = Iterate_loop_spec [OF spec quiet l, unfolded sp va, OF _ good [unfolded mt_good_def] _ v(3) sk]
  show ?thesis using lp by (simp add: mt_good_def mt')
qed

section \<open>The operations on the sets\<close>

lemma mt_sets_eq: "mt_sets r = (C, G) \<longleftrightarrow> mt_cpu r = C \<and> mt_gpu r = G"
  by (auto simp: mt_sets_def)

lemma skip_simps [simp]:
  "skippable True ch rsel ssel r P" "skippable False None None None r P"
  "skippable False None (Some Gpu) None r P" "skippable False None None (Some Gpu) r P"
  "skippable False (Some (Cpu, True)) None None r P" "skippable False (Some (Gpu, False)) None None r P"
  "skippable False (Some (Gpu, False)) (Some Gpu) None r P"
  by (simp_all add: skippable_def)

lemma change_simps [simp]:
  "apply_change None P s = s" "apply_change (Some (Cpu, e)) P (C, G) = (switched e P C, G)"
  "apply_change (Some (Gpu, e)) P (C, G) = (C, switched e P G)"
  "dirty None s = {}" "dirty (Some Cpu) (C, G) = C" "dirty (Some Gpu) (C, G) = G"
  by (simp_all add: apply_change_def dirty_def)

lemma Iterate_nothing:
  assumes "Iterate create visit_nothing vaddr n mt = Some (stop, ranges, mt')" and "mt_good others mt"
  shows "mt_good others mt'" and "cpu_dirty_pages mt' = cpu_dirty_pages mt" and "gpu_dirty_pages mt' = gpu_dirty_pages mt"
    and "mt_uploading mt' = mt_uploading mt"
    and "create \<Longrightarrow> \<forall>p\<in>pages_of vaddr n. mt_regions mt' (p div TRACKER_REGION_PAGES) \<noteq> None"
  using Iterate_spec [OF assms(1,2) visit_nothing_spec] by (cases create; simp add: mt_sets_def)+

lemma Iterate_is_modified:
  assumes "Iterate create (visit_is_modified source) vaddr n mt = Some (stop, ranges, mt')" and "mt_good others mt"
    and "create \<or> source = Gpu"
  shows "mt_good others mt'" and "cpu_dirty_pages mt' = cpu_dirty_pages mt" and "gpu_dirty_pages mt' = gpu_dirty_pages mt"
    and "mt_uploading mt' = mt_uploading mt"
    and "stop \<longleftrightarrow> dirty (Some source) (mt_sets (mt_regions mt)) \<inter> pages_of vaddr n \<noteq> {}"
proof -
  have "skippable create None None (Some source) (mt_regions mt) (pages_of vaddr n)"
    using assms(3) by (auto simp: skippable_def)
  from Iterate_spec [OF assms(1,2) visit_is_modified_spec _ this]
  show "mt_good others mt'" "cpu_dirty_pages mt' = cpu_dirty_pages mt" "gpu_dirty_pages mt' = gpu_dirty_pages mt"
    "mt_uploading mt' = mt_uploading mt"
    "stop \<longleftrightarrow> dirty (Some source) (mt_sets (mt_regions mt)) \<inter> pages_of vaddr n \<noteq> {}"
    by (simp_all add: mt_sets_def)
qed

lemma Iterate_change:
  assumes "Iterate create (visit_change protect source enable) vaddr n mt = Some (stop, ranges, mt')" and "mt_good others mt"
    and "create \<or> enable = (source = Cpu) \<or> (\<forall>p\<in>pages_of vaddr n. mt_regions mt (p div TRACKER_REGION_PAGES) \<noteq> None)"
  shows "mt_good others mt'" and "mt_uploading mt' = mt_uploading mt" and "\<not> stop"
    and "mt_sets (mt_regions mt') = apply_change (Some (source, enable)) (pages_of vaddr n) (mt_sets (mt_regions mt))"
proof -
  have "skippable create (Some (source, enable)) None None (mt_regions mt) (pages_of vaddr n)"
    using assms(3) by (cases source; cases enable) (auto simp: skippable_def)
  from Iterate_spec [OF assms(1,2) visit_change_spec _ this]
  show "mt_good others mt'" "mt_uploading mt' = mt_uploading mt" "\<not> stop"
    "mt_sets (mt_regions mt') = apply_change (Some (source, enable)) (pages_of vaddr n) (mt_sets (mt_regions mt))"
    by simp_all
qed

lemma Iterate_ranges:
  assumes "Iterate False (visit_ranges protect source clear) vaddr n mt = Some (stop, ranges, mt')" and "mt_good others mt"
    and "source = Gpu \<or> (\<forall>p\<in>pages_of vaddr n. mt_regions mt (p div TRACKER_REGION_PAGES) \<noteq> None)"
  shows "mt_good others mt'" and "mt_uploading mt' = mt_uploading mt"
    and "mt_sets (mt_regions mt') = apply_change (if clear then Some (source, False) else None) (pages_of vaddr n) (mt_sets (mt_regions mt))"
    and "pieces_cover ranges = page_bytes (dirty (Some source) (mt_sets (mt_regions mt)) \<inter> pages_of vaddr n)"
    and "\<forall>j. mt_regions mt j \<noteq> None \<longrightarrow> mt_regions mt' j \<noteq> None"
proof -
  have "skippable False (if clear then Some (source, False) else None) (Some source) None (mt_regions mt) (pages_of vaddr n)"
    using assms(3) by (auto simp: skippable_def)
  from Iterate_spec [OF assms(1,2) visit_ranges_spec _ this]
  show "mt_good others mt'" "mt_uploading mt' = mt_uploading mt"
    "mt_sets (mt_regions mt') = apply_change (if clear then Some (source, False) else None) (pages_of vaddr n) (mt_sets (mt_regions mt))"
    "pieces_cover ranges = page_bytes (dirty (Some source) (mt_sets (mt_regions mt)) \<inter> pages_of vaddr n)"
    "\<forall>j. mt_regions mt j \<noteq> None \<longrightarrow> mt_regions mt' j \<noteq> None"
    by simp_all
qed

text \<open>No page is dirty on both sides, and the host protection follows the two sets.\<close>

lemma mt_good_disjoint: "mt_good others mt \<Longrightarrow> cpu_dirty_pages mt \<inter> gpu_dirty_pages mt = {}"
proof -
  assume good: "mt_good others mt"
  have "p \<notin> gpu_dirty_pages mt" if p: "p \<in> cpu_dirty_pages mt" for p
  proof (cases "mt_regions mt (p div TRACKER_REGION_PAGES)")
    case (Some rm)
    then have "region_ok rm" using good unfolding mt_good_def mt_ok_def fst_conv by blast
    then have "cpu_pages rm \<inter> gpu_pages rm = {}" by (simp add: region_ok_def)
    then show ?thesis using p Some by (auto simp: mt_cpu_def mt_gpu_def)
  qed (simp add: mt_gpu_def)
  then show ?thesis by blast
qed

lemma mt_good_host:
  assumes "mt_good others mt"
  shows "host_mode (pm_calls (mt_pages mt)) p =
    (if p \<in> gpu_dirty_pages mt then NoAccess else if p \<in> cpu_dirty_pages mt \<and> others p = 0 then ReadWrite else Read)"
  using assms by (auto simp: mt_good_def mt_ok_def pm_coherent_def page_mode_def)

lemma mt_good_new: "(\<And>p. pm_wf pm \<and> pm_coherent pm \<and> write_watchers (page_at pm p) = others p \<and> access_watchers (page_at pm p) = 0)
    \<Longrightarrow> mt_good others (new_memory_tracker pm)"
  by (simp add: mt_good_def mt_ok_def new_memory_tracker_def mt_cpu_def mt_gpu_def)

lemma mt_good_uploading [simp]: "mt_good others (mt\<lparr>mt_uploading := b\<rparr>) = mt_good others mt"
  by (simp add: mt_good_def)

section \<open>Operation by operation\<close>

lemma IsRegionCpuModified_spec:
  assumes "IsRegionCpuModified vaddr n mt = Some (b, mt')" and "mt_good others mt"
  shows "mt_good others mt'" and "cpu_dirty_pages mt' = cpu_dirty_pages mt" and "gpu_dirty_pages mt' = gpu_dirty_pages mt"
    and "b \<longleftrightarrow> cpu_dirty_pages mt \<inter> pages_of vaddr n \<noteq> {}"
proof -
  obtain r where "Iterate True (visit_is_modified Cpu) vaddr n mt = Some (b, r, mt')"
    using assms(1) by (auto simp: IsRegionCpuModified_def bind_eq_Some_iff)
  from Iterate_is_modified [OF this assms(2)]
  show "mt_good others mt'" "cpu_dirty_pages mt' = cpu_dirty_pages mt" "gpu_dirty_pages mt' = gpu_dirty_pages mt"
    "b \<longleftrightarrow> cpu_dirty_pages mt \<inter> pages_of vaddr n \<noteq> {}" by (simp_all add: mt_sets_def)
qed

lemma IsRegionGpuModified_spec:
  assumes "IsRegionGpuModified vaddr n mt = Some (b, mt')" and "mt_good others mt"
  shows "mt_good others mt'" and "cpu_dirty_pages mt' = cpu_dirty_pages mt" and "gpu_dirty_pages mt' = gpu_dirty_pages mt"
    and "b \<longleftrightarrow> gpu_dirty_pages mt \<inter> pages_of vaddr n \<noteq> {}"
proof -
  obtain r where "Iterate False (visit_is_modified Gpu) vaddr n mt = Some (b, r, mt')"
    using assms(1) by (auto simp: IsRegionGpuModified_def bind_eq_Some_iff)
  from Iterate_is_modified [OF this assms(2)]
  show "mt_good others mt'" "cpu_dirty_pages mt' = cpu_dirty_pages mt" "gpu_dirty_pages mt' = gpu_dirty_pages mt"
    "b \<longleftrightarrow> gpu_dirty_pages mt \<inter> pages_of vaddr n \<noteq> {}" by (simp_all add: mt_sets_def)
qed

lemma MarkRegionAsCpuModified_spec:
  assumes "MarkRegionAsCpuModified protect vaddr n mt = Some mt'" and "mt_good others mt"
  shows "mt_good others mt'" and "cpu_dirty_pages mt' = cpu_dirty_pages mt \<union> pages_of vaddr n"
    and "gpu_dirty_pages mt' = gpu_dirty_pages mt"
proof -
  obtain b r where "Iterate True (visit_change protect Cpu True) vaddr n mt = Some (b, r, mt')"
    using assms(1) by (auto simp: MarkRegionAsCpuModified_def bind_eq_Some_iff)
  from Iterate_change [OF this assms(2)]
  show "mt_good others mt'" "cpu_dirty_pages mt' = cpu_dirty_pages mt \<union> pages_of vaddr n"
    "gpu_dirty_pages mt' = gpu_dirty_pages mt" by (simp_all add: mt_sets_def switched_def)
qed

lemma MarkRegionAsGpuModified_spec:
  assumes "MarkRegionAsGpuModified protect vaddr n mt = Some mt'" and "mt_good others mt"
  shows "mt_good others mt'" and "gpu_dirty_pages mt' = gpu_dirty_pages mt \<union> pages_of vaddr n"
    and "cpu_dirty_pages mt' = cpu_dirty_pages mt"
proof -
  obtain b r where "Iterate True (visit_change protect Gpu True) vaddr n mt = Some (b, r, mt')"
    using assms(1) by (auto simp: MarkRegionAsGpuModified_def bind_eq_Some_iff)
  from Iterate_change [OF this assms(2)]
  show "mt_good others mt'" "gpu_dirty_pages mt' = gpu_dirty_pages mt \<union> pages_of vaddr n"
    "cpu_dirty_pages mt' = cpu_dirty_pages mt" by (simp_all add: mt_sets_def switched_def)
qed

lemma UnmarkRegionAsGpuModified_spec:
  assumes "UnmarkRegionAsGpuModified protect vaddr n mt = Some mt'" and "mt_good others mt"
  shows "mt_good others mt'" and "gpu_dirty_pages mt' = gpu_dirty_pages mt - pages_of vaddr n"
    and "cpu_dirty_pages mt' = cpu_dirty_pages mt"
proof -
  obtain b r where "Iterate False (visit_change protect Gpu False) vaddr n mt = Some (b, r, mt')"
    using assms(1) by (auto simp: UnmarkRegionAsGpuModified_def bind_eq_Some_iff)
  from Iterate_change [OF this assms(2)]
  show "mt_good others mt'" "gpu_dirty_pages mt' = gpu_dirty_pages mt - pages_of vaddr n"
    "cpu_dirty_pages mt' = cpu_dirty_pages mt" by (simp_all add: mt_sets_def switched_def)
qed

lemma update_cpu_state_spec:
  assumes "update_cpu_state protect vaddr n mt = Some (owned, mt')" and "mt_good others mt"
  shows "mt_good others mt'" and "owned \<longleftrightarrow> gpu_dirty_pages mt \<inter> pages_of vaddr n \<noteq> {}"
    and "cpu_dirty_pages mt' = (if owned then cpu_dirty_pages mt else cpu_dirty_pages mt \<union> pages_of vaddr n)"
    and "gpu_dirty_pages mt' = gpu_dirty_pages mt" and "mt_uploading mt' = mt_uploading mt"
proof -
  obtain b1 r1 mt1 b2 r2 mt2 where 1: "Iterate False visit_nothing vaddr n mt = Some (b1, r1, mt1)"
    and 2: "Iterate False (visit_is_modified Gpu) vaddr n mt1 = Some (b2, r2, mt2)"
    and 3: "if b2 then owned \<and> mt' = mt2
      else (\<exists>b3 r3. Iterate False (visit_change protect Cpu True) vaddr n mt2 = Some (b3, r3, mt') \<and> \<not> owned)"
    using assms(1) by (auto simp: update_cpu_state_def bind_eq_Some_iff split: if_splits)
  note s1 = Iterate_nothing [OF 1 assms(2)]
  note s2 = Iterate_is_modified [OF 2 s1(1) disjI2 [OF refl]]
  have "mt_good others mt' \<and> (owned \<longleftrightarrow> gpu_dirty_pages mt \<inter> pages_of vaddr n \<noteq> {}) \<and>
    cpu_dirty_pages mt' = (if owned then cpu_dirty_pages mt else cpu_dirty_pages mt \<union> pages_of vaddr n) \<and>
    gpu_dirty_pages mt' = gpu_dirty_pages mt \<and> mt_uploading mt' = mt_uploading mt"
  proof (cases b2)
    case True
    then show ?thesis using 3 s1 s2 by (simp add: mt_sets_def)
  next
    case False
    then obtain b3 r3 where i3: "Iterate False (visit_change protect Cpu True) vaddr n mt2 = Some (b3, r3, mt')" "\<not> owned"
      using 3 by auto
    show ?thesis using Iterate_change [OF i3(1) s2(1)] i3(2) s1 s2 False by (simp add: mt_sets_def switched_def)
  qed
  then show "mt_good others mt'" "owned \<longleftrightarrow> gpu_dirty_pages mt \<inter> pages_of vaddr n \<noteq> {}"
    "cpu_dirty_pages mt' = (if owned then cpu_dirty_pages mt else cpu_dirty_pages mt \<union> pages_of vaddr n)"
    "gpu_dirty_pages mt' = gpu_dirty_pages mt" "mt_uploading mt' = mt_uploading mt" by blast+
qed

lemma UntrackMemory_spec:
  assumes "UntrackMemory protect vaddr n mt = Some mt'" and "mt_good others mt"
  shows "mt_good others mt'" and "cpu_dirty_pages mt' = cpu_dirty_pages mt \<union> pages_of vaddr n"
    and "gpu_dirty_pages mt' = gpu_dirty_pages mt" and "gpu_dirty_pages mt \<inter> pages_of vaddr n = {}"
proof -
  obtain b1 r1 mt1 r2 mt2 b3 r3 where 1: "Iterate False visit_nothing vaddr n mt = Some (b1, r1, mt1)"
    and 2: "Iterate False (visit_is_modified Gpu) vaddr n mt1 = Some (False, r2, mt2)"
    and 3: "Iterate False (visit_change protect Cpu True) vaddr n mt2 = Some (b3, r3, mt')"
    using assms(1) by (auto simp: UntrackMemory_def bind_eq_Some_iff)
  note s1 = Iterate_nothing [OF 1 assms(2)]
  note s2 = Iterate_is_modified [OF 2 s1(1) disjI2 [OF refl]]
  show "mt_good others mt'" "cpu_dirty_pages mt' = cpu_dirty_pages mt \<union> pages_of vaddr n"
    "gpu_dirty_pages mt' = gpu_dirty_pages mt" "gpu_dirty_pages mt \<inter> pages_of vaddr n = {}"
    using Iterate_change [OF 3 s2(1)] s1 s2 by (simp_all add: mt_sets_def switched_def)
qed

text \<open>Whatever the flush does, an invalidation that returns leaves the range to the CPU alone.\<close>

lemma InvalidateRegion_spec:
  assumes run: "InvalidateRegion protect on_flush vaddr n mt = Some mt'" and good: "mt_good others mt"
    and flush: "\<And>m m'. on_flush m = Some m' \<Longrightarrow> mt_good others m \<Longrightarrow> mt_good others m'"
  shows "mt_good others mt'" and "pages_of vaddr n \<subseteq> cpu_dirty_pages mt'" and "gpu_dirty_pages mt' \<inter> pages_of vaddr n = {}"
    and "gpu_dirty_pages mt \<inter> pages_of vaddr n = {} \<Longrightarrow>
      gpu_dirty_pages mt' = gpu_dirty_pages mt \<and> cpu_dirty_pages mt' = cpu_dirty_pages mt \<union> pages_of vaddr n"
proof -
  obtain owned mt1 where 1: "update_cpu_state protect vaddr n mt = Some (owned, mt1)"
    and 2: "if owned then (\<exists>mt2. on_flush mt1 = Some mt2 \<and> update_cpu_state protect vaddr n mt2 = Some (False, mt')) else mt' = mt1"
    using run by (auto simp: InvalidateRegion_def bind_eq_Some_iff split: if_splits)
  note s1 = update_cpu_state_spec [OF 1 good]
  have "mt_good others mt' \<and> pages_of vaddr n \<subseteq> cpu_dirty_pages mt' \<and> gpu_dirty_pages mt' \<inter> pages_of vaddr n = {}
    \<and> (gpu_dirty_pages mt \<inter> pages_of vaddr n = {} \<longrightarrow>
      gpu_dirty_pages mt' = gpu_dirty_pages mt \<and> cpu_dirty_pages mt' = cpu_dirty_pages mt \<union> pages_of vaddr n)"
  proof (cases owned)
    case True
    then obtain mt2 where m: "on_flush mt1 = Some mt2" "update_cpu_state protect vaddr n mt2 = Some (False, mt')" using 2 by auto
    note s2 = update_cpu_state_spec [OF m(2) flush [OF m(1) s1(1)]]
    then show ?thesis using s1(2) True by auto
  next
    case False
    then show ?thesis using 2 s1 by auto
  qed
  then show "mt_good others mt'" "pages_of vaddr n \<subseteq> cpu_dirty_pages mt'" "gpu_dirty_pages mt' \<inter> pages_of vaddr n = {}"
    "gpu_dirty_pages mt \<inter> pages_of vaddr n = {} \<Longrightarrow>
      gpu_dirty_pages mt' = gpu_dirty_pages mt \<and> cpu_dirty_pages mt' = cpu_dirty_pages mt \<union> pages_of vaddr n"
    by blast+
qed

lemma ForEachDownloadRange_spec:
  assumes run: "ForEachDownloadRange protect clear vaddr n mt = Some (preflight, ranges, mt')" and good: "mt_good others mt"
  shows "mt_good others mt'" and "cpu_dirty_pages mt' = cpu_dirty_pages mt"
    and "gpu_dirty_pages mt' = (if clear then gpu_dirty_pages mt - pages_of vaddr n else gpu_dirty_pages mt)"
    and "pieces_cover ranges = page_bytes (gpu_dirty_pages mt \<inter> pages_of vaddr n)"
    and "pieces_cover preflight = pieces_cover ranges"
proof -
  obtain b1 r1 mt1 b2 mt2 b3 mt3 where 1: "Iterate False visit_nothing vaddr n mt = Some (b1, r1, mt1)"
    and 2: "Iterate False (visit_ranges protect Gpu False) vaddr n mt1 = Some (b2, preflight, mt2)"
    and 3: "Iterate False (visit_ranges protect Gpu False) vaddr n mt2 = Some (b3, ranges, mt3)"
    and 4: "if clear then (\<exists>b4 r4. Iterate False (visit_ranges protect Gpu True) vaddr n mt3 = Some (b4, r4, mt')) else mt' = mt3"
    using run by (auto simp: ForEachDownloadRange_def bind_eq_Some_iff split: if_splits)
  note s1 = Iterate_nothing [OF 1 good]
  note s2 = Iterate_ranges [OF 2 s1(1) disjI1 [OF refl]]
  note s3 = Iterate_ranges [OF 3 s2(1) disjI1 [OF refl]]
  have m3: "mt_sets (mt_regions mt3) = mt_sets (mt_regions mt)" using s1 s2 s3 by (simp add: mt_sets_def)
  have "mt_good others mt' \<and> mt_sets (mt_regions mt') = (cpu_dirty_pages mt, if clear then gpu_dirty_pages mt - pages_of vaddr n else gpu_dirty_pages mt)"
  proof (cases clear)
    case True
    then obtain b4 r4 where i: "Iterate False (visit_ranges protect Gpu True) vaddr n mt3 = Some (b4, r4, mt')" using 4 by auto
    from Iterate_ranges [OF i s3(1) disjI1 [OF refl]] m3 True show ?thesis by (simp add: mt_sets_def switched_def)
  next
    case False
    then show ?thesis using 4 s3(1) m3 by (simp add: mt_sets_def)
  qed
  then show "mt_good others mt'" "cpu_dirty_pages mt' = cpu_dirty_pages mt"
    "gpu_dirty_pages mt' = (if clear then gpu_dirty_pages mt - pages_of vaddr n else gpu_dirty_pages mt)"
    by (simp_all add: mt_sets_def)
  show "pieces_cover ranges = page_bytes (gpu_dirty_pages mt \<inter> pages_of vaddr n)" "pieces_cover preflight = pieces_cover ranges"
    using s1 s2 s3 by (simp_all add: mt_sets_def)
qed

lemma ForEachUploadRange_spec:
  assumes run: "ForEachUploadRange protect upload is_written vaddr n mt = Some (ranges, mt')" and good: "mt_good others mt"
    and up: "\<And>m m'. upload m = Some m' \<Longrightarrow> m' = m"
  shows "mt_good others mt'" and "cpu_dirty_pages mt' = cpu_dirty_pages mt - pages_of vaddr n"
    and "gpu_dirty_pages mt' = (if is_written then gpu_dirty_pages mt \<union> pages_of vaddr n else gpu_dirty_pages mt)"
    and "pieces_cover ranges = page_bytes (cpu_dirty_pages mt \<inter> pages_of vaddr n)"
    and "\<not> mt_uploading mt'"
proof -
  obtain b1 r1 mt1 b2 mt2 b4 r4 mt4 where 1: "Iterate True visit_nothing vaddr n mt = Some (b1, r1, mt1)"
    and 2: "Iterate False (visit_ranges protect Cpu True) vaddr n (mt1\<lparr>mt_uploading := True\<rparr>) = Some (b2, ranges, mt2)"
    and 4: "(if is_written then Iterate False (visit_change protect Gpu True) vaddr n mt2 else Some (False, [], mt2)) = Some (b4, r4, mt4)"
    and mt': "mt' = mt4\<lparr>mt_uploading := False\<rparr>"
    using run up by (fastforce simp: ForEachUploadRange_def bind_eq_Some_iff)
  note s1 = Iterate_nothing [OF 1 good]
  have ex: "\<forall>p\<in>pages_of vaddr n. mt_regions (mt1\<lparr>mt_uploading := True\<rparr>) (p div TRACKER_REGION_PAGES) \<noteq> None"
    using s1(5) by simp
  have g1: "mt_good others (mt1\<lparr>mt_uploading := True\<rparr>)" using s1(1) by simp
  note s2 = Iterate_ranges [OF 2 g1 disjI2 [OF ex]]
  have ex2: "\<forall>p\<in>pages_of vaddr n. mt_regions mt2 (p div TRACKER_REGION_PAGES) \<noteq> None" using ex s2(5) by blast
  have "mt_good others mt4 \<and> mt_sets (mt_regions mt4) = (cpu_dirty_pages mt - pages_of vaddr n,
      if is_written then gpu_dirty_pages mt \<union> pages_of vaddr n else gpu_dirty_pages mt)"
  proof (cases is_written)
    case True
    then have i: "Iterate False (visit_change protect Gpu True) vaddr n mt2 = Some (b4, r4, mt4)" using 4 by simp
    from Iterate_change [OF i s2(1) disjI2 [OF disjI2 [OF ex2]]] s1 s2 True show ?thesis
      by (simp add: mt_sets_def switched_def)
  next
    case False
    then show ?thesis using 4 s1 s2 by (simp add: mt_sets_def switched_def)
  qed
  then show "mt_good others mt'" "cpu_dirty_pages mt' = cpu_dirty_pages mt - pages_of vaddr n"
    "gpu_dirty_pages mt' = (if is_written then gpu_dirty_pages mt \<union> pages_of vaddr n else gpu_dirty_pages mt)"
    by (simp_all add: mt_sets_def mt')
  show "pieces_cover ranges = page_bytes (cpu_dirty_pages mt \<inter> pages_of vaddr n)"
    using s1 s2(4) by (simp add: mt_sets_def)
  show "\<not> mt_uploading mt'" by (simp add: mt')
qed

section \<open>Operations without conflict succeed\<close>

definition allowed :: "(nat \<Rightarrow> nat) \<Rightarrow> (DirtySource \<times> bool) option \<Rightarrow> nat set \<Rightarrow> nat set \<times> nat set \<Rightarrow> bool" where
  "allowed others ch P s \<longleftrightarrow> (ch = Some (Cpu, True) \<longrightarrow> snd s \<inter> P = {}) \<and> (ch = Some (Gpu, True) \<longrightarrow> fst s \<inter> P = {}) \<and>
     (ch = Some (Cpu, False) \<longrightarrow> (\<forall>p\<in>fst s \<inter> P. others p < 127))"

definition visit_total :: "(nat \<Rightarrow> nat) \<Rightarrow> (DirtySource \<times> bool) option \<Rightarrow> visit \<Rightarrow> bool" where
  "visit_total others ch func \<longleftrightarrow>
     (\<forall>off n rm pm. tracking_ok others (rm, pm) \<longrightarrow> in_region (rm_cpu_addr rm + off) n rm \<longrightarrow>
        allowed others ch (pages_of (rm_cpu_addr rm + off) n) (rm_sets rm) \<longrightarrow> func off n (rm, pm) \<noteq> None)"

lemma allowed_rest:
  assumes "allowed others ch (P \<union> Q) s" and "P \<inter> Q = {}"
  shows "allowed others ch Q (apply_change ch P s)" and "allowed others ch Q s" and "allowed others ch P s"
  using assms by (cases s; cases ch; auto simp: allowed_def apply_change_def switched_def split: DirtySource.splits)+

lemma visit_nothing_total: "visit_total others None visit_nothing"
  by (simp add: visit_total_def visit_nothing_def)

lemma visit_is_modified_total: "visit_total others None (visit_is_modified source)"
  unfolding visit_total_def visit_is_modified_def IsModified_def
  using GetPageRange_total by fastforce

lemma change_allowed_sets: "allowed others (Some (source, enable)) P (rm_sets rm) \<Longrightarrow> change_allowed others source enable P rm"
  by (auto simp: allowed_def change_allowed_def rm_sets_def)

lemma visit_change_total:
  assumes "\<forall>c. protect c"
  shows "visit_total others (Some (source, enable)) (visit_change protect source enable)"
  unfolding visit_total_def
proof (intro allI impI)
  fix off n rm pm
  assume t: "tracking_ok others (rm, pm)" "in_region (rm_cpu_addr rm + off) n rm"
    "allowed others (Some (source, enable)) (pages_of (rm_cpu_addr rm + off) n) (rm_sets rm)"
  obtain s' where "ChangeState protect source enable (rm_cpu_addr rm + off) n (rm, pm) = Some s'"
    using ChangeState_total [OF assms t(1,2) change_allowed_sets [OF t(3)]] by blast
  then show "visit_change protect source enable off n (rm, pm) \<noteq> None" by (simp add: visit_change_def)
qed

lemma ForEachModifiedRange_def_iff:
  "ForEachModifiedRange protect source True vaddr n s \<noteq> None \<longleftrightarrow> ChangeState protect source False vaddr n s \<noteq> None"
proof -
  have b: "Option.bind m (\<lambda>(x, y). Some (f x y)) \<noteq> None \<longleftrightarrow> m \<noteq> None" for m :: "('a \<times> 'b) option" and f :: "'a \<Rightarrow> 'b \<Rightarrow> 'c"
    by (cases m) auto
  obtain rm pm where s: "s = (rm, pm)" by (cases s)
  show ?thesis
  proof (cases "GetPageRange vaddr n rm")
    case None
    then show ?thesis by (simp add: s ForEachModifiedRange_def ChangeState_def)
  next
    case (Some p)
    then obtain a e where g: "GetPageRange vaddr n rm = Some (a, e)" by (cases p) simp
    show ?thesis
    proof (cases source)
      case Cpu
      show ?thesis unfolding s Cpu ForEachModifiedRange_def ChangeState_def
        by (simp add: g Let_def b del: not_None_eq)
    next
      case Gpu
      show ?thesis unfolding s Gpu ForEachModifiedRange_def ChangeState_def
        by (simp add: g Let_def b del: not_None_eq)
    qed
  qed
qed

lemma visit_ranges_total:
  assumes "\<forall>c. protect c"
  shows "visit_total others (if clear then Some (source, False) else None) (visit_ranges protect source clear)"
proof -
  have "ForEachModifiedRange protect source clear (rm_cpu_addr rm + off) n (rm, pm) \<noteq> None"
    if "tracking_ok others (rm, pm)" "in_region (rm_cpu_addr rm + off) n rm"
      "allowed others (if clear then Some (source, False) else None) (pages_of (rm_cpu_addr rm + off) n) (rm_sets rm)"
    for rm pm off n
  proof (cases clear)
    case True
    then have "allowed others (Some (source, False)) (pages_of (rm_cpu_addr rm + off) n) (rm_sets rm)" using that(3) by simp
    from ChangeState_total [OF assms that(1,2) change_allowed_sets [OF this]] True show ?thesis
      using ForEachModifiedRange_def_iff [of protect source "rm_cpu_addr rm + off" n "(rm, pm)"] by auto
  next
    case False
    then show ?thesis using GetPageRange_total [OF that(2)] by (auto simp: ForEachModifiedRange_def)
  qed
  then show ?thesis unfolding visit_total_def visit_ranges_def by fastforce
qed

lemma Iterate_loop_total:
  assumes spec: "visit_spec others ch rsel ssel func" and tot: "visit_total others ch func"
  shows "mt_ok others (regions, pm) \<Longrightarrow> offset < TRACKER_REGION_SIZE \<Longrightarrow>
    i * TRACKER_REGION_SIZE + offset + n \<le> TRACKER_ADDRESS_SIZE \<Longrightarrow>
    allowed others ch (span i offset n) (mt_sets regions) \<Longrightarrow>
    Iterate_loop create func n i offset (regions, pm) \<noteq> None"
proof (induction n arbitrary: i offset regions pm rule: less_induct)
  case (less n)
  show ?case
  proof (cases "n = 0")
    case True
    then show ?thesis by (simp add: Iterate_loop.simps [of create func 0 i offset])
  next
    case False
    then have n: "0 < n" by simp
    define b where "b = min (TRACKER_REGION_SIZE - offset) n"
    define P where "P = pages_of (i * TRACKER_REGION_SIZE + offset) b"
    define Q where "Q = span (i + 1) 0 (n - b)"
    have b: "0 < b" "b \<le> n" "offset + b \<le> TRACKER_REGION_SIZE" using n less.prems(2) by (auto simp: b_def)
    have PQ: "span i offset n = P \<union> Q" "P \<inter> Q = {}" "P \<subseteq> index_pages i"
      using span_split [OF n less.prems(2), of i] unfolding P_def Q_def b_def by blast+
    have i: "i < 262144" using less.prems(3) n by simp
    have nxt: "(i + 1) * TRACKER_REGION_SIZE + 0 + (n - b) \<le> TRACKER_ADDRESS_SIZE"
    proof (cases "n = b")
      case False
      then have "b = TRACKER_REGION_SIZE - offset" by (auto simp: b_def min_def split: if_splits)
      then show ?thesis using less.prems(2,3) b(2) by simp
    qed (use i in simp)
    note al = allowed_rest [OF less.prems(4) [unfolded PQ(1)] PQ(2)]
    have lt: "n - b < n" "(0::nat) < TRACKER_REGION_SIZE" using n b by simp_all
    have n0: "(n = 0) = False" using n by simp
    have loop: "Iterate_loop create func n i offset (regions, pm) =
      (case (if create then GetOrCreateRegion i regions else regions i) of
           None \<Rightarrow> if create then None else Iterate_loop create func (n - b) (i + 1) 0 (regions, pm)
         | Some rm \<Rightarrow> do {
             (stop, ranges, rm', pm') \<leftarrow> func offset b (rm, pm);
             let s' = (regions(i \<mapsto> rm'), pm');
             if stop then Some (True, ranges, s')
             else do {
               (stop', ranges', s'') \<leftarrow> Iterate_loop create func (n - b) (i + 1) 0 s';
               Some (stop', ranges @ ranges', s'')
             }
           })"
      by (subst Iterate_loop.simps) (simp only: n0 if_False prod.case Let_def b_def)
    show ?thesis
    proof (cases "if create then GetOrCreateRegion i regions else regions i")
      case None
      then have "\<not> create" by (auto simp: GetOrCreateRegion_def new_region_manager_def split: option.splits if_splits)
      then show ?thesis using less.IH [OF lt(1) less.prems(1) lt(2) nxt al(2) [unfolded Q_def]] None
        unfolding loop None option.case by simp
    next
      case (Some rm)
      note lk = lookup_region [OF less.prems(1) i Some]
      have ir: "in_region (rm_cpu_addr rm + offset) b rm" using b by (simp add: in_region_def)
      have "allowed others ch P (rm_sets rm)"
        using al(3) lk(3,4) PQ(3) unfolding allowed_def rm_sets_def mt_sets_def fst_conv snd_conv by blast
      then have "func offset b (rm, pm) \<noteq> None"
        using tot lk(2,5) ir unfolding visit_total_def P_def by simp
      then obtain stop ranges rm' pm' where run: "func offset b (rm, pm) = Some (stop, ranges, rm', pm')" by auto
      note st = visit_step [OF spec less.prems(1) i Some run less.prems(2) b(1,3) P_def]
      have "Iterate_loop create func (n - b) (i + 1) 0 (regions(i \<mapsto> rm'), pm') \<noteq> None"
        by (rule less.IH [OF lt(1) st(1) lt(2) nxt]) (unfold st(2) Q_def [symmetric], rule al(1))
      then show ?thesis unfolding loop Some option.case run bind.bind_lunit prod.case Let_def by auto
    qed
  qed
qed

definition mt_range :: "u64 \<Rightarrow> u64 \<Rightarrow> bool" where
  "mt_range vaddr n \<longleftrightarrow> 0 < vaddr \<and> 0 < n \<and> vaddr + n \<le> TRACKER_ADDRESS_SIZE"

lemma Iterate_total:
  assumes spec: "visit_spec others ch rsel ssel func" and tot: "visit_total others ch func" and good: "mt_good others mt"
    and range: "mt_range vaddr n" and al: "allowed others ch (pages_of vaddr n) (mt_sets (mt_regions mt))"
  shows "\<exists>stop ranges mt'. Iterate create func vaddr n mt = Some (stop, ranges, mt')"
proof -
  let ?i = "vaddr div TRACKER_REGION_SIZE" and ?o = "vaddr mod TRACKER_REGION_SIZE"
  have va: "?i * TRACKER_REGION_SIZE + ?o = vaddr" by (rule div_mult_mod_eq)
  have sp: "span ?i ?o n = pages_of vaddr n" using range by (simp only: span_def va mt_range_def) simp
  have "Iterate_loop create func n ?i ?o (mt_regions mt, mt_pages mt) \<noteq> None"
  proof (rule Iterate_loop_total [OF spec tot good [unfolded mt_good_def]])
    show "?i * TRACKER_REGION_SIZE + ?o + n \<le> TRACKER_ADDRESS_SIZE" using range unfolding va by (simp add: mt_range_def)
    show "allowed others ch (span ?i ?o n) (mt_sets (mt_regions mt))" using al unfolding sp .
  qed simp
  moreover have "mt_ValidateRange vaddr n = Some ()"
    using range by (auto simp: mt_ValidateRange_def mt_range_def)
  ultimately show ?thesis by (auto simp: Iterate_def)
qed

lemma allowed_simps [simp]:
  "allowed others None P s" "allowed others (Some (Gpu, False)) P s"
  "allowed others (Some (Cpu, True)) P (C, G) \<longleftrightarrow> G \<inter> P = {}"
  "allowed others (Some (Gpu, True)) P (C, G) \<longleftrightarrow> C \<inter> P = {}"
  "allowed others (Some (Cpu, False)) P (C, G) \<longleftrightarrow> (\<forall>p\<in>C \<inter> P. others p < 127)"
  by (simp_all add: allowed_def)

lemma update_cpu_state_total:
  assumes prot: "\<forall>c. protect c" and good: "mt_good others mt" and range: "mt_range vaddr n"
  shows "\<exists>owned mt'. update_cpu_state protect vaddr n mt = Some (owned, mt')"
proof -
  obtain b1 r1 mt1 where 1: "Iterate False visit_nothing vaddr n mt = Some (b1, r1, mt1)"
    using Iterate_total [OF visit_nothing_spec visit_nothing_total good range] by fastforce
  note s1 = Iterate_nothing [OF 1 good]
  obtain b2 r2 mt2 where 2: "Iterate False (visit_is_modified Gpu) vaddr n mt1 = Some (b2, r2, mt2)"
    using Iterate_total [OF visit_is_modified_spec visit_is_modified_total s1(1) range] by fastforce
  note s2 = Iterate_is_modified [OF 2 s1(1) disjI2 [OF refl]]
  show ?thesis
  proof (cases b2)
    case True
    then have "update_cpu_state protect vaddr n mt = Some (True, mt2)" using 1 2 by (simp add: update_cpu_state_def)
    then show ?thesis by blast
  next
    case False
    then have "allowed others (Some (Cpu, True)) (pages_of vaddr n) (mt_sets (mt_regions mt2))"
      using s1 s2 by (simp add: mt_sets_def)
    then obtain b3 r3 mt3 where "Iterate False (visit_change protect Cpu True) vaddr n mt2 = Some (b3, r3, mt3)"
      using Iterate_total [OF visit_change_spec visit_change_total [OF prot] s2(1) range] by blast
    then have "update_cpu_state protect vaddr n mt = Some (False, mt3)" using 1 2 False by (simp add: update_cpu_state_def)
    then show ?thesis by blast
  qed
qed

lemma ForEachUploadRange_total:
  assumes prot: "\<forall>c. protect c" and good: "mt_good others mt" and idle: "\<not> mt_uploading mt" and range: "mt_range vaddr n"
    and few: "\<forall>p\<in>cpu_dirty_pages mt \<inter> pages_of vaddr n. others p < 127" and up: "\<forall>m. upload m = Some m"
  shows "\<exists>ranges mt'. ForEachUploadRange protect upload is_written vaddr n mt = Some (ranges, mt')"
proof -
  obtain b1 r1 mt1 where 1: "Iterate True visit_nothing vaddr n mt = Some (b1, r1, mt1)"
    using Iterate_total [OF visit_nothing_spec visit_nothing_total good range] by fastforce
  note s1 = Iterate_nothing [OF 1 good]
  let ?mt1 = "mt1\<lparr>mt_uploading := True\<rparr>"
  have g1: "mt_good others ?mt1" using s1(1) by simp
  have "allowed others (if True then Some (Cpu, False) else None) (pages_of vaddr n) (mt_sets (mt_regions ?mt1))"
    using few s1 by (simp add: mt_sets_def)
  then obtain b2 r2 mt2 where 2: "Iterate False (visit_ranges protect Cpu True) vaddr n ?mt1 = Some (b2, r2, mt2)"
    using Iterate_total [OF visit_ranges_spec visit_ranges_total [OF prot] g1 range] by blast
  have ex: "\<forall>p\<in>pages_of vaddr n. mt_regions ?mt1 (p div TRACKER_REGION_PAGES) \<noteq> None"
    using s1(5) by simp
  note s2 = Iterate_ranges [OF 2 g1 disjI2 [OF ex]]
  have "allowed others (Some (Gpu, True)) (pages_of vaddr n) (mt_sets (mt_regions mt2))"
    using s2(3) by (auto simp: mt_sets_def switched_def)
  then obtain b3 r3 mt3 where 3: "Iterate False (visit_change protect Gpu True) vaddr n mt2 = Some (b3, r3, mt3)"
    using Iterate_total [OF visit_change_spec visit_change_total [OF prot] s2(1) range] by blast
  show ?thesis using 1 2 3 up idle by (simp add: ForEachUploadRange_def CheckNotInUploadCallback_def)
qed

lemma InvalidateRegion_total:
  assumes prot: "\<forall>c. protect c" and good: "mt_good others mt" and idle: "\<not> mt_uploading mt" and range: "mt_range vaddr n"
    and flush: "\<And>m. mt_good others m \<Longrightarrow> \<not> mt_uploading m \<Longrightarrow> \<exists>m'. on_flush m = Some m' \<and> mt_good others m' \<and> gpu_dirty_pages m' \<inter> pages_of vaddr n = {}"
  shows "\<exists>mt'. InvalidateRegion protect on_flush vaddr n mt = Some mt'"
proof -
  have v: "mt_ValidateRange vaddr n = Some ()" "CheckNotInUploadCallback mt = Some ()"
    using range idle by (auto simp: mt_ValidateRange_def mt_range_def CheckNotInUploadCallback_def)
  obtain owned mt1 where 1: "update_cpu_state protect vaddr n mt = Some (owned, mt1)"
    using update_cpu_state_total [OF prot good range] by blast
  show ?thesis
  proof (cases owned)
    case False
    then show ?thesis using 1 v by (simp add: InvalidateRegion_def)
  next
    case True
    obtain mt2 where m2: "on_flush mt1 = Some mt2" "mt_good others mt2" "gpu_dirty_pages mt2 \<inter> pages_of vaddr n = {}"
      using flush update_cpu_state_spec(1,5) [OF 1 good] idle by blast
    obtain o3 mt3 where 3: "update_cpu_state protect vaddr n mt2 = Some (o3, mt3)"
      using update_cpu_state_total [OF prot m2(2) range] by blast
    have "\<not> o3" using update_cpu_state_spec(2) [OF 3 m2(2)] m2(3) by simp
    then show ?thesis using 1 3 v True m2(1) by (simp add: InvalidateRegion_def)
  qed
qed

lemma ForEachDownloadRange_total:
  assumes prot: "\<forall>c. protect c" and good: "mt_good others mt" and idle: "\<not> mt_uploading mt" and range: "mt_range vaddr n"
  shows "\<exists>preflight ranges mt'. ForEachDownloadRange protect clear vaddr n mt = Some (preflight, ranges, mt')"
proof -
  obtain b1 r1 mt1 where 1: "Iterate False visit_nothing vaddr n mt = Some (b1, r1, mt1)"
    using Iterate_total [OF visit_nothing_spec visit_nothing_total good range] by fastforce
  have al: "allowed others (if c then Some (Gpu, False) else None) P s" for c P s by simp
  note t = Iterate_total [OF visit_ranges_spec [where source = Gpu] visit_ranges_total [OF prot] _ range al]
  obtain b2 r2 mt2 where 2: "Iterate False (visit_ranges protect Gpu False) vaddr n mt1 = Some (b2, r2, mt2)"
    using t [OF Iterate_nothing(1) [OF 1 good]] by blast
  note g2 = Iterate_ranges(1) [OF 2 Iterate_nothing(1) [OF 1 good] disjI1 [OF refl]]
  obtain b3 r3 mt3 where 3: "Iterate False (visit_ranges protect Gpu False) vaddr n mt2 = Some (b3, r3, mt3)"
    using t [OF g2] by blast
  obtain b4 r4 mt4 where "Iterate False (visit_ranges protect Gpu True) vaddr n mt3 = Some (b4, r4, mt4)"
    using t [OF Iterate_ranges(1) [OF 3 g2 disjI1 [OF refl]]] by blast
  then show ?thesis using 1 2 3 idle by (simp add: ForEachDownloadRange_def CheckNotInUploadCallback_def)
qed

lemma MarkRegionAsGpuModified_total:
  assumes prot: "\<forall>c. protect c" and good: "mt_good others mt" and idle: "\<not> mt_uploading mt" and range: "mt_range vaddr n"
  shows "MarkRegionAsGpuModified protect vaddr n mt \<noteq> None \<longleftrightarrow> cpu_dirty_pages mt \<inter> pages_of vaddr n = {}"
proof
  assume "cpu_dirty_pages mt \<inter> pages_of vaddr n = {}"
  then have "allowed others (Some (Gpu, True)) (pages_of vaddr n) (mt_sets (mt_regions mt))" by (simp add: mt_sets_def)
  then obtain b r mt' where "Iterate True (visit_change protect Gpu True) vaddr n mt = Some (b, r, mt')"
    using Iterate_total [OF visit_change_spec visit_change_total [OF prot] good range] by blast
  then show "MarkRegionAsGpuModified protect vaddr n mt \<noteq> None"
    using idle by (simp add: MarkRegionAsGpuModified_def CheckNotInUploadCallback_def)
next
  assume "MarkRegionAsGpuModified protect vaddr n mt \<noteq> None"
  then obtain mt' where run: "MarkRegionAsGpuModified protect vaddr n mt = Some mt'" by blast
  note s = MarkRegionAsGpuModified_spec [OF run good]
  show "cpu_dirty_pages mt \<inter> pages_of vaddr n = {}" using mt_good_disjoint [OF s(1)] s(2,3) by blast
qed

section \<open>Properties\<close>

lemma mt_good_start: "mt_good (\<lambda>_. 0) (new_memory_tracker new_page_manager)"
proof (intro mt_good_new conjI)
  show "pm_wf new_page_manager" "pm_coherent new_page_manager" by simp_all
qed (simp_all add: page_at_def new_page_manager_def new_page_def)

lemma start_sets [simp]:
  "cpu_dirty_pages (new_memory_tracker pm) = UNIV" "gpu_dirty_pages (new_memory_tracker pm) = {}"
  "\<not> mt_uploading (new_memory_tracker pm)"
  by (auto simp: new_memory_tracker_def mt_cpu_def mt_gpu_def)

text \<open>
  C12: An upload of any valid range succeeds and hands the callback exactly the bytes of the
  pages that the CPU dirtied in the range; afterwards none of them is CPU-dirty, the pages of
  the range are GPU-dirty if the GPU writes them, every other page is as it was, and the
  tracker's invariant holds, so the next CPU write to any of those pages faults.
\<close>

theorem upload_range_correct:
  assumes "\<forall>c. protect c" and "mt_good others mt" and "\<not> mt_uploading mt" and "mt_range vaddr n"
    and "\<forall>p\<in>cpu_dirty_pages mt \<inter> pages_of vaddr n. others p < 127" and "\<forall>m. upload m = Some m"
  shows "\<exists>ranges mt'. ForEachUploadRange protect upload is_written vaddr n mt = Some (ranges, mt') \<and>
    mt_good others mt' \<and> \<not> mt_uploading mt' \<and>
    pieces_cover ranges = page_bytes (cpu_dirty_pages mt \<inter> pages_of vaddr n) \<and>
    cpu_dirty_pages mt' = cpu_dirty_pages mt - pages_of vaddr n \<and>
    gpu_dirty_pages mt' = (if is_written then gpu_dirty_pages mt \<union> pages_of vaddr n else gpu_dirty_pages mt) \<and>
    (\<forall>p\<in>pages_of vaddr n. host_mode (pm_calls (mt_pages mt')) p \<noteq> ReadWrite)"
proof -
  obtain ranges mt' where run: "ForEachUploadRange protect upload is_written vaddr n mt = Some (ranges, mt')"
    using ForEachUploadRange_total [OF assms] by blast
  have "m' = m" if "upload m = Some m'" for m m' using assms(6) that by simp
  note s = ForEachUploadRange_spec [OF run assms(2) this]
  show ?thesis using run s mt_good_host [OF s(1)] by auto
qed

theorem upload_range_correct_witness:
  "\<exists>ranges mt'. ForEachUploadRange (\<lambda>_. True) Some True 4096 8192 (new_memory_tracker new_page_manager) = Some (ranges, mt') \<and>
    pieces_cover ranges = page_bytes {1..2} \<and> gpu_dirty_pages mt' = {1..2}"
  using upload_range_correct [of "\<lambda>_. True" "\<lambda>_. 0" "new_memory_tracker new_page_manager" 4096 8192 Some True] mt_good_start
  by (auto simp: mt_range_def pages_of_def)

text \<open>A client's history of operations; an invalidation flushes by downloading what the GPU owns.\<close>

datatype tracker_op =
  QueryCpu u64 u64 | QueryGpu u64 u64 | MarkCpu u64 u64 | MarkGpu u64 u64 | UnmarkGpu u64 u64 | Untrack u64 u64
| Invalidate u64 u64 | Download bool u64 u64 | Upload bool u64 u64

definition download_flush :: "(host_call \<Rightarrow> bool) \<Rightarrow> u64 \<Rightarrow> u64 \<Rightarrow> memory_tracker \<Rightarrow> memory_tracker option" where
  "download_flush protect v n mt = map_option (snd \<circ> snd) (ForEachDownloadRange protect True v n mt)"

fun exec_op :: "(host_call \<Rightarrow> bool) \<Rightarrow> tracker_op \<Rightarrow> memory_tracker \<Rightarrow> memory_tracker option" where
  "exec_op protect (QueryCpu v n) mt = map_option snd (IsRegionCpuModified v n mt)"
| "exec_op protect (QueryGpu v n) mt = map_option snd (IsRegionGpuModified v n mt)"
| "exec_op protect (MarkCpu v n) mt = MarkRegionAsCpuModified protect v n mt"
| "exec_op protect (MarkGpu v n) mt = MarkRegionAsGpuModified protect v n mt"
| "exec_op protect (UnmarkGpu v n) mt = UnmarkRegionAsGpuModified protect v n mt"
| "exec_op protect (Untrack v n) mt = UntrackMemory protect v n mt"
| "exec_op protect (Invalidate v n) mt = InvalidateRegion protect (download_flush protect v n) v n mt"
| "exec_op protect (Download clear v n) mt = map_option (snd \<circ> snd) (ForEachDownloadRange protect clear v n mt)"
| "exec_op protect (Upload written v n) mt = map_option snd (ForEachUploadRange protect Some written v n mt)"

lemma download_flush_good: "download_flush protect v n m = Some m' \<Longrightarrow> mt_good others m \<Longrightarrow>
    mt_good others m' \<and> gpu_dirty_pages m' \<inter> pages_of v n = {}"
  using ForEachDownloadRange_spec(1,3) [of protect True v n m _ _ m' others] by (auto simp: download_flush_def)

lemma exec_op_good: "exec_op protect op mt = Some mt' \<Longrightarrow> mt_good others mt \<Longrightarrow> mt_good others mt'"
proof (induction protect op mt rule: exec_op.induct)
  case (7 protect v n mt)
  then show ?case using InvalidateRegion_spec(1) download_flush_good by (metis exec_op.simps(7))
next
  case (9 protect written v n mt)
  then obtain ranges where run: "ForEachUploadRange protect Some written v n mt = Some (ranges, mt')" by auto
  show ?case by (rule ForEachUploadRange_spec(1) [OF run 9(2)]) simp
qed (auto dest: IsRegionCpuModified_spec(1) IsRegionGpuModified_spec(1) MarkRegionAsCpuModified_spec(1)
  MarkRegionAsGpuModified_spec(1) UnmarkRegionAsGpuModified_spec(1) UntrackMemory_spec(1) ForEachDownloadRange_spec(1))

lemma exec_ops_good: "fold_opt (exec_op protect) ops mt = Some mt' \<Longrightarrow> mt_good others mt \<Longrightarrow> mt_good others mt'"
  by (induction ops arbitrary: mt) (auto simp: bind_eq_Some_iff dest: exec_op_good)

text \<open>
  C1: After any history of tracker operations that runs to its end, whatever their order and
  their ranges, no page is dirty on both sides, and every page of the address space has the
  host protection its dirty state calls for: no access where the GPU owns the page, read-only
  where neither side has written it or another client of the page manager watches it, and
  read-write otherwise.
\<close>

theorem tracker_history_safe:
  assumes "fold_opt (exec_op protect) ops (new_memory_tracker pm) = Some mt"
    and "mt_good others (new_memory_tracker pm)"
  shows "cpu_dirty_pages mt \<inter> gpu_dirty_pages mt = {} \<and>
    host_mode (pm_calls (mt_pages mt)) p =
      (if p \<in> gpu_dirty_pages mt then NoAccess
       else if p \<in> cpu_dirty_pages mt \<and> others p = 0 then ReadWrite else Read)"
  using exec_ops_good [OF assms] mt_good_disjoint mt_good_host by blast

lemma download_flush_total:
  assumes "\<forall>c. protect c" and "mt_range v n" and "mt_good others m" and "\<not> mt_uploading m"
  shows "\<exists>m'. download_flush protect v n m = Some m' \<and> mt_good others m' \<and> gpu_dirty_pages m' \<inter> pages_of v n = {}"
proof -
  obtain pre ranges m' where "ForEachDownloadRange protect True v n m = Some (pre, ranges, m')"
    using ForEachDownloadRange_total [OF assms(1,3,4,2)] by blast
  then have "download_flush protect v n m = Some m'" by (simp add: download_flush_def)
  then show ?thesis using download_flush_good assms(3) by blast
qed

theorem tracker_history_safe_witness:
  "\<exists>mt. fold_opt (exec_op (\<lambda>_. True)) [Upload True 4096 4096, Invalidate 4096 4096] (new_memory_tracker new_page_manager) = Some mt
    \<and> cpu_dirty_pages mt \<inter> gpu_dirty_pages mt = {} \<and> host_mode (pm_calls (mt_pages mt)) 1 = ReadWrite"
proof -
  let ?p = "\<lambda>_ :: host_call. True" and ?m0 = "new_memory_tracker new_page_manager"
  have r: "mt_range 4096 4096" by (simp add: mt_range_def)
  have P: "pages_of 4096 4096 = {1}" by (simp add: pages_of_def)
  have s: "\<And>m m' :: memory_tracker. Some m = Some m' \<Longrightarrow> m' = m" by simp
  obtain rs m1 where 1: "ForEachUploadRange ?p Some True 4096 4096 ?m0 = Some (rs, m1)"
    using ForEachUploadRange_total [of ?p "\<lambda>_. 0" ?m0 4096 4096 Some True] mt_good_start r by auto
  note s1 = ForEachUploadRange_spec [OF 1 mt_good_start s]
  have "\<exists>mt. InvalidateRegion ?p (download_flush ?p 4096 4096) 4096 4096 m1 = Some mt"
    by (rule InvalidateRegion_total [OF _ s1(1,5) r download_flush_total [OF _ r]]) auto
  then obtain mt where 2: "InvalidateRegion ?p (download_flush ?p 4096 4096) 4096 4096 m1 = Some mt" by blast
  have run: "fold_opt (exec_op ?p) [Upload True 4096 4096, Invalidate 4096 4096] ?m0 = Some mt" using 1 2 by simp
  have "1 \<in> cpu_dirty_pages mt" "1 \<notin> gpu_dirty_pages mt"
    using InvalidateRegion_spec(2,3) [OF 2 s1(1)] download_flush_good P by blast+
  then show ?thesis using run tracker_history_safe [OF run mt_good_start, of 1] by auto
qed

text \<open>What an invalidation does with an arbitrary flush.\<close>

lemma InvalidateRegion_exact:
  assumes prot: "\<forall>c. protect c" and good: "mt_good others mt" and idle: "\<not> mt_uploading mt" and range: "mt_range vaddr n"
  shows "(gpu_dirty_pages mt \<inter> pages_of vaddr n = {} \<longrightarrow>
      (\<exists>mt'. (\<forall>on_flush. InvalidateRegion protect on_flush vaddr n mt = Some mt') \<and> mt_good others mt' \<and>
        gpu_dirty_pages mt' = gpu_dirty_pages mt \<and> cpu_dirty_pages mt' = cpu_dirty_pages mt \<union> pages_of vaddr n)) \<and>
    (gpu_dirty_pages mt \<inter> pages_of vaddr n \<noteq> {} \<longrightarrow>
      (\<exists>m0. mt_good others m0 \<and> \<not> mt_uploading m0 \<and> gpu_dirty_pages m0 = gpu_dirty_pages mt \<and> cpu_dirty_pages m0 = cpu_dirty_pages mt \<and>
        (\<forall>on_flush. (on_flush m0 = None \<longrightarrow> InvalidateRegion protect on_flush vaddr n mt = None) \<and>
          (\<forall>m. on_flush m0 = Some m \<and> mt_good others m \<longrightarrow>
            (if gpu_dirty_pages m \<inter> pages_of vaddr n \<noteq> {} then InvalidateRegion protect on_flush vaddr n mt = None
             else \<exists>mt'. InvalidateRegion protect on_flush vaddr n mt = Some mt' \<and> mt_good others mt' \<and>
               gpu_dirty_pages mt' = gpu_dirty_pages m \<and> cpu_dirty_pages mt' = cpu_dirty_pages m \<union> pages_of vaddr n)))))"
proof -
  obtain owned m0 where 0: "update_cpu_state protect vaddr n mt = Some (owned, m0)"
    using update_cpu_state_total [OF prot good range] by blast
  note s0 = update_cpu_state_spec [OF 0 good]
  have v: "mt_ValidateRange vaddr n = Some ()" "CheckNotInUploadCallback mt = Some ()"
    using range idle by (auto simp: mt_ValidateRange_def mt_range_def CheckNotInUploadCallback_def)
  have eq: "InvalidateRegion protect on_flush vaddr n mt = (if \<not> owned then Some m0 else do {
      m \<leftarrow> on_flush m0; (owned, mt) \<leftarrow> update_cpu_state protect vaddr n m; exit_if owned; Some mt })" for on_flush
    by (simp add: InvalidateRegion_def v 0)
  have again: "if gpu_dirty_pages m \<inter> pages_of vaddr n \<noteq> {} then InvalidateRegion protect on_flush vaddr n mt = None
      else \<exists>mt'. InvalidateRegion protect on_flush vaddr n mt = Some mt' \<and> mt_good others mt' \<and>
        gpu_dirty_pages mt' = gpu_dirty_pages m \<and> cpu_dirty_pages mt' = cpu_dirty_pages m \<union> pages_of vaddr n"
    if owned and m: "on_flush m0 = Some m" "mt_good others m" for on_flush m
  proof -
    obtain o2 m2 where 2: "update_cpu_state protect vaddr n m = Some (o2, m2)"
      using update_cpu_state_total [OF prot m(2) range] by blast
    note s2 = update_cpu_state_spec [OF 2 m(2)]
    have run: "InvalidateRegion protect on_flush vaddr n mt = (if o2 then None else Some m2)"
      by (cases o2) (simp_all add: eq \<open>owned\<close> m(1) 2)
    show ?thesis
    proof (cases o2)
      case True
      then show ?thesis using run s2(2) by simp
    next
      case False
      then show ?thesis using run s2 by simp
    qed
  qed
  show ?thesis
  proof (cases owned)
    case True
    have none: "InvalidateRegion protect on_flush vaddr n mt = None" if "on_flush m0 = None" for on_flush
      using eq [of on_flush] that True by simp
    have ne: "gpu_dirty_pages mt \<inter> pages_of vaddr n \<noteq> {}" using s0(2) True by simp
    have state: "mt_good others m0 \<and> \<not> mt_uploading m0 \<and> gpu_dirty_pages m0 = gpu_dirty_pages mt \<and> cpu_dirty_pages m0 = cpu_dirty_pages mt"
      using s0 idle True by simp
    show ?thesis
      by (intro conjI impI exI [of _ m0] allI) (use ne state none again [OF True] in blast)+
  next
    case False
    then show ?thesis using s0 eq by auto
  qed
qed

text \<open>
  C14: A CPU write to a range (an invalidation), with any flush. If the GPU owns nothing of the range, the
  flush is not called: the call succeeds whatever the flush would do, the pages of the range become CPU-dirty
  and nothing else changes. If the GPU owns a page of it, the flush is called, on unchanged dirty sets, and
  the call goes wrong when the flush does or when it leaves a page of the range GPU-owned, and otherwise
  makes the range CPU-dirty on top of what the flush left. With the download of the range as the flush the
  call always gets through, and the range ends CPU-dirty and not GPU-dirty.
\<close>

theorem invalidate_correct:
  assumes "\<forall>c. protect c" and "mt_good others mt" and "\<not> mt_uploading mt" and "mt_range vaddr n"
  shows "(gpu_dirty_pages mt \<inter> pages_of vaddr n = {} \<longrightarrow>
      (\<exists>mt'. (\<forall>on_flush. InvalidateRegion protect on_flush vaddr n mt = Some mt') \<and> mt_good others mt' \<and>
        gpu_dirty_pages mt' = gpu_dirty_pages mt \<and> cpu_dirty_pages mt' = cpu_dirty_pages mt \<union> pages_of vaddr n)) \<and>
    (gpu_dirty_pages mt \<inter> pages_of vaddr n \<noteq> {} \<longrightarrow>
      (\<exists>m0. mt_good others m0 \<and> \<not> mt_uploading m0 \<and> gpu_dirty_pages m0 = gpu_dirty_pages mt \<and> cpu_dirty_pages m0 = cpu_dirty_pages mt \<and>
        (\<forall>on_flush. (on_flush m0 = None \<longrightarrow> InvalidateRegion protect on_flush vaddr n mt = None) \<and>
          (\<forall>m. on_flush m0 = Some m \<and> mt_good others m \<longrightarrow>
            (if gpu_dirty_pages m \<inter> pages_of vaddr n \<noteq> {} then InvalidateRegion protect on_flush vaddr n mt = None
             else \<exists>mt'. InvalidateRegion protect on_flush vaddr n mt = Some mt' \<and> mt_good others mt' \<and>
               gpu_dirty_pages mt' = gpu_dirty_pages m \<and> cpu_dirty_pages mt' = cpu_dirty_pages m \<union> pages_of vaddr n))))) \<and>
    (\<exists>mt'. InvalidateRegion protect (download_flush protect vaddr n) vaddr n mt = Some mt' \<and> mt_good others mt' \<and>
      pages_of vaddr n \<subseteq> cpu_dirty_pages mt' \<and> gpu_dirty_pages mt' \<inter> pages_of vaddr n = {})"
proof (intro conjI InvalidateRegion_exact [OF assms, THEN conjunct1] InvalidateRegion_exact [OF assms, THEN conjunct2])
  have "\<exists>mt'. InvalidateRegion protect (download_flush protect vaddr n) vaddr n mt = Some mt'"
    by (rule InvalidateRegion_total [OF assms download_flush_total [OF assms(1,4)]])
  then obtain mt' where run: "InvalidateRegion protect (download_flush protect vaddr n) vaddr n mt = Some mt'" by blast
  note spec = InvalidateRegion_spec [OF run assms(2)]
  have "mt_good others mt'" "pages_of vaddr n \<subseteq> cpu_dirty_pages mt'" "gpu_dirty_pages mt' \<inter> pages_of vaddr n = {}"
    using spec(1,2,3) download_flush_good by blast+
  then show "\<exists>mt'. InvalidateRegion protect (download_flush protect vaddr n) vaddr n mt = Some mt' \<and> mt_good others mt' \<and>
      pages_of vaddr n \<subseteq> cpu_dirty_pages mt' \<and> gpu_dirty_pages mt' \<inter> pages_of vaddr n = {}" using run by blast
qed

text \<open>A page nobody has dirtied needs no flush; one the GPU has written needs it.\<close>

theorem invalidate_correct_witness:
  "(\<exists>mt'. InvalidateRegion (\<lambda>_. True) (\<lambda>_. None) 12288 4096 (new_memory_tracker new_page_manager) = Some mt' \<and> 3 \<in> cpu_dirty_pages mt') \<and>
   (\<exists>mt. mt_good (\<lambda>_. 0) mt \<and> 3 \<in> gpu_dirty_pages mt \<and> InvalidateRegion (\<lambda>_. True) (\<lambda>_. None) 12288 4096 mt = None)"
proof
  let ?p = "\<lambda>_ :: host_call. True" and ?m0 = "new_memory_tracker new_page_manager"
  have r: "mt_range 12288 4096" by (simp add: mt_range_def)
  have P: "pages_of 12288 4096 = {3}" by (simp add: pages_of_def)
  have i0: "\<not> mt_uploading ?m0" by simp
  have new: "gpu_dirty_pages ?m0 = {}" by simp
  have "\<exists>mt'. (\<forall>on_flush. InvalidateRegion ?p on_flush 12288 4096 ?m0 = Some mt') \<and> mt_good (\<lambda>_. 0) mt' \<and>
        gpu_dirty_pages mt' = gpu_dirty_pages ?m0 \<and> cpu_dirty_pages mt' = cpu_dirty_pages ?m0 \<union> pages_of 12288 4096"
    using invalidate_correct [of ?p "\<lambda>_. 0" ?m0 12288 4096] mt_good_start i0 r new by simp
  then show "\<exists>mt'. InvalidateRegion ?p (\<lambda>_. None) 12288 4096 ?m0 = Some mt' \<and> 3 \<in> cpu_dirty_pages mt'"
    using P by auto
  obtain rs m1 where 1: "ForEachUploadRange ?p Some True 12288 4096 ?m0 = Some (rs, m1)"
    using ForEachUploadRange_total [of ?p "\<lambda>_. 0" ?m0 12288 4096 Some True] mt_good_start r by auto
  have s: "\<And>m m' :: memory_tracker. Some m = Some m' \<Longrightarrow> m' = m" by simp
  note s1 = ForEachUploadRange_spec [OF 1 mt_good_start s]
  have pc: "\<forall>c. ?p c" by simp
  have g1: "mt_good (\<lambda>_. 0) m1" "\<not> mt_uploading m1" using s1(1,5) by auto
  have g: "3 \<in> gpu_dirty_pages m1" using s1(3) P by simp
  then have ne: "gpu_dirty_pages m1 \<inter> pages_of 12288 4096 \<noteq> {}" using P by blast
  have "InvalidateRegion ?p (\<lambda>_. None) 12288 4096 m1 = None"
    using invalidate_correct [of ?p "\<lambda>_. 0" m1 12288 4096, OF pc g1 r, THEN conjunct2, THEN conjunct1, THEN mp, OF ne]
    by (elim exE conjE) (drule spec [of _ "\<lambda>_. None"], simp_all)
  then show "\<exists>mt. mt_good (\<lambda>_. 0) mt \<and> 3 \<in> gpu_dirty_pages mt \<and> InvalidateRegion ?p (\<lambda>_. None) 12288 4096 mt = None"
    using g1(1) g by blast
qed

text \<open>
  Marking a range GPU-dirty terminates the process exactly when a page of it is still
  CPU-dirty; otherwise it adds the pages of the range to the GPU-dirty set and changes nothing else.
\<close>

lemma mark_gpu_conflict:
  assumes "\<forall>c. protect c" and "mt_good others mt" and "\<not> mt_uploading mt" and "mt_range vaddr n"
  shows "if cpu_dirty_pages mt \<inter> pages_of vaddr n = {} then
    \<exists>mt'. MarkRegionAsGpuModified protect vaddr n mt = Some mt' \<and> mt_good others mt' \<and>
      gpu_dirty_pages mt' = gpu_dirty_pages mt \<union> pages_of vaddr n \<and> cpu_dirty_pages mt' = cpu_dirty_pages mt
    else MarkRegionAsGpuModified protect vaddr n mt = None"
  using MarkRegionAsGpuModified_total [OF assms] MarkRegionAsGpuModified_spec [OF _ assms(2)] by auto

lemma mark_gpu_conflict_witness:
  "MarkRegionAsGpuModified (\<lambda>_. True) 4096 4096 (new_memory_tracker new_page_manager) = None"
  using mark_gpu_conflict [of "\<lambda>_. True" "\<lambda>_. 0" "new_memory_tracker new_page_manager" 4096 4096] mt_good_start
  by (simp add: mt_range_def pages_of_def)

text \<open>
  C13: A download reports exactly the bytes of the GPU-dirty pages of the range, first to the
  preflight and then to the consumer, and clears them if asked to; CPU-dirty pages stay.
\<close>

theorem download_correct:
  assumes "\<forall>c. protect c" and "mt_good others mt" and "\<not> mt_uploading mt" and "mt_range vaddr n"
  shows "\<exists>preflight ranges mt'. ForEachDownloadRange protect clear vaddr n mt = Some (preflight, ranges, mt') \<and>
    mt_good others mt' \<and> pieces_cover ranges = page_bytes (gpu_dirty_pages mt \<inter> pages_of vaddr n) \<and>
    pieces_cover preflight = pieces_cover ranges \<and> cpu_dirty_pages mt' = cpu_dirty_pages mt \<and>
    gpu_dirty_pages mt' = (if clear then gpu_dirty_pages mt - pages_of vaddr n else gpu_dirty_pages mt)"
proof -
  obtain preflight ranges mt' where run: "ForEachDownloadRange protect clear vaddr n mt = Some (preflight, ranges, mt')"
    using ForEachDownloadRange_total [OF assms] by blast
  from ForEachDownloadRange_spec [OF run assms(2)] run show ?thesis by blast
qed

theorem download_correct_witness:
  "\<exists>preflight ranges mt'. ForEachDownloadRange (\<lambda>_. True) True 4096 4096 (new_memory_tracker new_page_manager)
    = Some (preflight, ranges, mt') \<and> pieces_cover ranges = {}"
  using download_correct [of "\<lambda>_. True" "\<lambda>_. 0" "new_memory_tracker new_page_manager" 4096 4096 True] mt_good_start
  by (auto simp: mt_range_def)

end
