(* ===== verification/VirtualRanges.thy ===== *)
theory VirtualRanges
  imports Prelude
begin

unbundle bit_operations_syntax

text \<open>
  \<open>VirtualRanges\<close> (src/src/kernel/memory.cpp): the kernel's table of guest virtual ranges, a
  vector sorted by start address, with the protection, memory type, kind and name of each. Also
  the free functions on which it rests: the decoding of protection flags, the overlap test and
  the bounded copy of names.

  Ends saturate at \<open>UINT64_MAX\<close> (\<open>End\<close>). The table is used with ranges that do not pass the end
  of the address space (\<open>vr_ok\<close>), for which no sum of the code wraps.

  The abstract view is \<open>attr\<close>: what the kernel knows of each byte. The lemmas show that every
  editing operation is the pointwise operation on that view, whatever the pieces it cuts the
  ranges into and however the pieces merge afterwards, and that the table stays sorted and
  disjoint.
\<close>

abbreviation PROT_CPU_READ :: int where "PROT_CPU_READ \<equiv> 1"
abbreviation PROT_CPU_WRITE :: int where "PROT_CPU_WRITE \<equiv> 2"
abbreviation PROT_CPU_EXEC :: int where "PROT_CPU_EXEC \<equiv> 4"
abbreviation PROT_GPU_READ :: int where "PROT_GPU_READ \<equiv> 16"
abbreviation PROT_GPU_WRITE :: int where "PROT_GPU_WRITE \<equiv> 32"

datatype GpuAccessMode = GpuNoAccess | GpuRead | GpuWrite | GpuReadWrite

text \<open>The result is None where the code returns false.\<close>

definition DecodeMemoryProtection :: "int \<Rightarrow> (mode \<times> GpuAccessMode) option" where
  "DecodeMemoryProtection prot =
     (let cpu_read = prot AND PROT_CPU_READ \<noteq> 0; cpu_write = prot AND PROT_CPU_WRITE \<noteq> 0;
          cpu_exec = prot AND PROT_CPU_EXEC \<noteq> 0;
          gpu_read = prot AND PROT_GPU_READ \<noteq> 0; gpu_write = prot AND PROT_GPU_WRITE \<noteq> 0 in
      if prot AND (PROT_CPU_READ OR PROT_CPU_WRITE OR PROT_CPU_EXEC OR PROT_GPU_READ OR PROT_GPU_WRITE) = 0 \<and> prot \<noteq> 0
      then None
      else
        (let gpu_mode = (if gpu_read \<and> gpu_write then GpuReadWrite else if gpu_read then GpuRead
                         else if gpu_write then GpuWrite else GpuNoAccess);
             host_write = cpu_write \<or> gpu_write;
             host_read = cpu_read \<or> gpu_read \<or> host_write;
             m = (if cpu_exec then (if host_write then ExecuteReadWrite else if host_read then ExecuteRead else Execute)
                  else if host_write then ReadWrite
                  else if host_read then Read else NoAccess) in
         Some (m, gpu_mode)))"

text \<open>Names are character arrays of 32 bytes, zero-padded: the characters before the first zero.\<close>

definition CopyVirtualRangeName :: "string option \<Rightarrow> string" where
  "CopyVirtualRangeName name =
     (case name of None \<Rightarrow> [] | Some s \<Rightarrow> take 31 (takeWhile (\<lambda>c. c \<noteq> CHR 0x00) s))"

definition VirtualRangesOverlap :: "u64 \<Rightarrow> u64 \<Rightarrow> u64 \<Rightarrow> u64 \<Rightarrow> bool" where
  "VirtualRangesOverlap left_start left_size right_start right_size =
     (if left_size = 0 \<or> right_size = 0 then False
      else
        (let left_end = (if UINT64_MAX - left_start < left_size then UINT64_MAX else left_start + left_size);
             right_end = (if UINT64_MAX - right_start < right_size then UINT64_MAX else right_start + right_size) in
         left_start < right_end \<and> right_start < left_end))"

datatype VirtualRangeType = Reserved | PoolReserved | Direct | Flexible | Pooled | Stack | Code | Runtime

definition IsReservedRangeType :: "VirtualRangeType \<Rightarrow> bool" where
  "IsReservedRangeType t = (t = Reserved \<or> t = PoolReserved)"

definition IsPooledRangeType :: "VirtualRangeType \<Rightarrow> bool" where
  "IsPooledRangeType t = (t = Pooled \<or> t = PoolReserved)"

definition IsCommittedRangeType :: "VirtualRangeType \<Rightarrow> bool" where
  "IsCommittedRangeType t = (\<not> IsReservedRangeType t)"

definition IsPrivateCommittedRangeType :: "VirtualRangeType \<Rightarrow> bool" where
  "IsPrivateCommittedRangeType t = (t = Stack \<or> t = Code \<or> t = Runtime)"

record vrange =
  vr_start :: u64
  vr_size :: u64
  vr_offset :: u64
  vr_protection :: int
  vr_memory_type :: int
  vr_type :: VirtualRangeType
  vr_disallow_merge :: bool
  vr_name :: string

type_synonym vranges = "vrange list"

definition vr_End :: "u64 \<Rightarrow> u64 \<Rightarrow> u64" where
  "vr_End start bytes = (if UINT64_MAX - start < bytes then UINT64_MAX else start + bytes)"

abbreviation vr_end :: "vrange \<Rightarrow> u64" where
  "vr_end r \<equiv> vr_End (vr_start r) (vr_size r)"

definition SameMergeKey :: "vrange \<Rightarrow> vrange \<Rightarrow> bool" where
  "SameMergeKey l r =
     (if vr_disallow_merge l \<or> vr_disallow_merge r \<or> vr_type l = Direct \<or> vr_type r = Direct then False
      else vr_type l = vr_type r \<and> vr_protection l = vr_protection r \<and>
           vr_memory_type l = vr_memory_type r \<and> vr_name l = vr_name r)"

text \<open>The piece \<open>AddPiece\<close> appends: none when the interval is empty.\<close>

definition AddPiece :: "vrange \<Rightarrow> u64 \<Rightarrow> u64 \<Rightarrow> vranges" where
  "AddPiece source start end =
     (if end \<le> start then []
      else [source\<lparr>vr_start := start, vr_size := end - start,
        vr_offset := (if vr_type source = Direct then vr_offset source + (start - vr_start source) else vr_offset source)\<rparr>])"

definition vr_before :: "u64 \<Rightarrow> vranges \<Rightarrow> vranges" where
  "vr_before start m = takeWhile (\<lambda>r. vr_start r < start) m"

definition vr_from :: "u64 \<Rightarrow> vranges \<Rightarrow> vranges" where
  "vr_from start m = dropWhile (\<lambda>r. vr_start r < start) m"

text \<open>The loop of \<open>MergeAroundUnlocked\<close>: the range at the index swallows its followers.\<close>

fun merge_following :: "vranges \<Rightarrow> vranges" where
  "merge_following [] = []"
| "merge_following [r] = [r]"
| "merge_following (r # n # m) =
     (if vr_end r \<noteq> vr_start n \<or> \<not> SameMergeKey r n then r # n # m
      else merge_following (r\<lparr>vr_size := vr_size r + vr_size n\<rparr> # m))"

definition MergeAroundUnlocked :: "nat \<Rightarrow> vranges \<Rightarrow> vranges" where
  "MergeAroundUnlocked index m =
     (if index \<ge> length m then m
      else if index \<noteq> 0 \<and> vr_end (m ! (index - 1)) = vr_start (m ! index) \<and> SameMergeKey (m ! (index - 1)) (m ! index)
      then take (index - 1) m @
           merge_following ((m ! (index - 1))\<lparr>vr_size := vr_size (m ! (index - 1)) + vr_size (m ! index)\<rparr> # drop (index + 1) m)
      else take index m @ merge_following (drop index m))"

text \<open>The loop of \<open>MergeUnlocked\<close> over the sorted vector; the first argument is \<open>merged.back()\<close>.\<close>

fun merge_runs :: "vrange \<Rightarrow> vranges \<Rightarrow> vranges" where
  "merge_runs l [] = [l]"
| "merge_runs l (r # m) =
     (if vr_end l = vr_start r \<and> SameMergeKey l r
      then merge_runs (l\<lparr>vr_size := vr_size l + vr_size r\<rparr>) m
      else l # merge_runs r m)"

definition MergeUnlocked :: "vranges \<Rightarrow> vranges" where
  "MergeUnlocked m =
     (if length m < 2 then m
      else case sort_key vr_start m of [] \<Rightarrow> [] | r # rest \<Rightarrow> merge_runs r rest)"

definition edit_pieces :: "(vrange \<Rightarrow> vrange) \<Rightarrow> u64 \<Rightarrow> u64 \<Rightarrow> vrange \<Rightarrow> vranges" where
  "edit_pieces edit start bytes r =
     (if \<not> VirtualRangesOverlap start bytes (vr_start r) (vr_size r) then [r]
      else
        (let mid_start = max start (vr_start r); mid_end = min (vr_End start bytes) (vr_end r);
             mid = r\<lparr>vr_start := mid_start, vr_size := mid_end - mid_start,
               vr_offset := (if vr_type r = Direct then vr_offset r + (mid_start - vr_start r) else vr_offset r)\<rparr> in
         AddPiece r (vr_start r) mid_start @ [edit mid] @ AddPiece r mid_end (vr_end r)))"

definition EditUnlocked :: "u64 \<Rightarrow> u64 \<Rightarrow> (vrange \<Rightarrow> vrange) \<Rightarrow> vranges \<Rightarrow> vranges" where
  "EditUnlocked start bytes edit m =
     (if bytes = 0 then m else MergeUnlocked (concat (map (edit_pieces edit start bytes) m)))"

definition remove_pieces :: "u64 \<Rightarrow> u64 \<Rightarrow> vrange \<Rightarrow> vranges" where
  "remove_pieces start bytes r =
     (if \<not> VirtualRangesOverlap start bytes (vr_start r) (vr_size r) then [r]
      else AddPiece r (vr_start r) (max start (vr_start r)) @ AddPiece r (min (vr_End start bytes) (vr_end r)) (vr_end r))"

definition RemoveUnlocked :: "u64 \<Rightarrow> u64 \<Rightarrow> vranges \<Rightarrow> bool \<times> vranges" where
  "RemoveUnlocked start bytes m =
     (if bytes = 0 then (False, m)
      else (list_ex (\<lambda>r. VirtualRangesOverlap start bytes (vr_start r) (vr_size r)) m,
            concat (map (remove_pieces start bytes) m)))"

definition FindOverlap :: "u64 \<Rightarrow> u64 \<Rightarrow> vranges \<Rightarrow> vrange option" where
  "FindOverlap start bytes m =
     (if vr_from start m \<noteq> [] \<and> VirtualRangesOverlap start bytes (vr_start (hd (vr_from start m))) (vr_size (hd (vr_from start m)))
      then Some (hd (vr_from start m))
      else if vr_before start m \<noteq> [] \<and>
              VirtualRangesOverlap start bytes (vr_start (last (vr_before start m))) (vr_size (last (vr_before start m)))
      then Some (last (vr_before start m))
      else None)"

section \<open>The operations\<close>

definition VirtualRanges_Add ::
  "u64 \<Rightarrow> u64 \<Rightarrow> u64 \<Rightarrow> int \<Rightarrow> int \<Rightarrow> VirtualRangeType \<Rightarrow> string option \<Rightarrow> bool \<Rightarrow> vranges \<Rightarrow> bool \<times> vranges" where
  "VirtualRanges_Add start bytes offset protection memory_type type name disallow_merge m =
     (if start = 0 \<or> bytes = 0 then (False, m)
      else if (vr_from start m \<noteq> [] \<and>
               VirtualRangesOverlap start bytes (vr_start (hd (vr_from start m))) (vr_size (hd (vr_from start m)))) \<or>
              (vr_before start m \<noteq> [] \<and>
               VirtualRangesOverlap start bytes (vr_start (last (vr_before start m))) (vr_size (last (vr_before start m))))
      then (False, m)
      else
        (let r = \<lparr>vr_start = start, vr_size = bytes, vr_offset = offset, vr_protection = protection,
                  vr_memory_type = memory_type, vr_type = type, vr_disallow_merge = disallow_merge,
                  vr_name = CopyVirtualRangeName name\<rparr>;
             index = length (vr_before start m) in
         (True, MergeAroundUnlocked index (vr_before start m @ r # vr_from start m))))"

definition VirtualRanges_Remove :: "u64 \<Rightarrow> u64 \<Rightarrow> vranges \<Rightarrow> bool \<times> vranges" where
  "VirtualRanges_Remove start bytes m =
     (if vr_from start m \<noteq> [] \<and> vr_start (hd (vr_from start m)) = start \<and> vr_size (hd (vr_from start m)) = bytes
      then (True, vr_before start m @ tl (vr_from start m))
      else (let (removed, m') = RemoveUnlocked start bytes m in (removed, MergeUnlocked m')))"

definition VirtualRanges_HasOverlap :: "u64 \<Rightarrow> u64 \<Rightarrow> vranges \<Rightarrow> bool" where
  "VirtualRanges_HasOverlap start bytes m = (FindOverlap start bytes m \<noteq> None)"

definition VirtualRanges_QueryOverlap :: "u64 \<Rightarrow> u64 \<Rightarrow> vranges \<Rightarrow> vrange option" where
  "VirtualRanges_QueryOverlap start bytes m = FindOverlap start bytes m"

text \<open>The exact reserved range is erased; the function reports success in either case.\<close>

fun release_reserved :: "u64 \<Rightarrow> u64 \<Rightarrow> vranges \<Rightarrow> vranges" where
  "release_reserved start bytes [] = []"
| "release_reserved start bytes (r # m) =
     (if vr_start r = start \<and> vr_size r = bytes \<and> IsReservedRangeType (vr_type r) then m
      else r # release_reserved start bytes m)"

definition VirtualRanges_ReleaseReserved :: "u64 \<Rightarrow> u64 \<Rightarrow> vranges \<Rightarrow> bool \<times> vranges" where
  "VirtualRanges_ReleaseReserved start bytes m = (True, release_reserved start bytes m)"

definition VirtualRanges_ConsumeReserved :: "u64 \<Rightarrow> u64 \<Rightarrow> VirtualRangeType \<Rightarrow> vranges \<Rightarrow> bool \<times> vranges" where
  "VirtualRanges_ConsumeReserved start bytes type m =
     (if list_ex (\<lambda>r. vr_type r = type \<and> start \<ge> vr_start r \<and> vr_End start bytes \<le> vr_end r) m
      then (True, MergeUnlocked (snd (RemoveUnlocked start bytes m))) else (False, m))"

text \<open>
  The loop of \<open>ConsumeReservedSpan\<close>: the first reserved range, when every byte up to \<open>end\<close> is
  reserved. Each step passes the end of the range it found.
\<close>

function reserved_span :: "u64 \<Rightarrow> u64 \<Rightarrow> VirtualRangeType \<Rightarrow> vranges \<Rightarrow> bool" where
  "reserved_span current end type m =
     (if current < end then
        (case find (\<lambda>r. vr_type r = type \<and> current \<ge> vr_start r \<and> current < vr_end r) m of
           None \<Rightarrow> False
         | Some c \<Rightarrow> reserved_span (min end (vr_end c)) end type m)
      else True)"
  by pat_completeness auto
termination
  by (relation "measure (\<lambda>(current, end, type, m). end - current)") (auto simp: find_Some_iff)

declare reserved_span.simps [simp del]

definition VirtualRanges_ConsumeReservedSpan ::
  "u64 \<Rightarrow> u64 \<Rightarrow> VirtualRangeType \<Rightarrow> vranges \<Rightarrow> (bool \<times> vrange option) \<times> vranges" where
  "VirtualRanges_ConsumeReservedSpan start bytes type m =
     (let first_range = (if bytes \<noteq> 0 \<and> start < vr_End start bytes
            then find (\<lambda>r. vr_type r = type \<and> start \<ge> vr_start r \<and> start < vr_end r) m else None) in
      if bytes = 0 then ((False, None), m)
      else if \<not> reserved_span start (vr_End start bytes) type m then ((False, first_range), m)
      else ((True, first_range), MergeUnlocked (snd (RemoveUnlocked start bytes m))))"

definition VirtualRanges_Rename :: "u64 \<Rightarrow> u64 \<Rightarrow> string option \<Rightarrow> vranges \<Rightarrow> vranges" where
  "VirtualRanges_Rename start bytes name m =
     (if vr_from start m \<noteq> [] \<and> vr_start (hd (vr_from start m)) = start \<and> vr_size (hd (vr_from start m)) = bytes
      then MergeAroundUnlocked (length (vr_before start m))
             (vr_before start m @ (hd (vr_from start m))\<lparr>vr_name := CopyVirtualRangeName name\<rparr> # tl (vr_from start m))
      else EditUnlocked start bytes (\<lambda>r. r\<lparr>vr_name := CopyVirtualRangeName name\<rparr>) m)"

definition VirtualRanges_Protect :: "u64 \<Rightarrow> u64 \<Rightarrow> int \<Rightarrow> vranges \<Rightarrow> vranges" where
  "VirtualRanges_Protect start bytes protection m =
     EditUnlocked start bytes (\<lambda>r. r\<lparr>vr_protection := protection\<rparr>) m"

definition VirtualRanges_SetMemoryType :: "u64 \<Rightarrow> u64 \<Rightarrow> int \<Rightarrow> vranges \<Rightarrow> vranges" where
  "VirtualRanges_SetMemoryType start bytes memory_type m =
     EditUnlocked start bytes (\<lambda>r. r\<lparr>vr_memory_type := memory_type\<rparr>) m"

definition vr_before_ub :: "u64 \<Rightarrow> vranges \<Rightarrow> vranges" where
  "vr_before_ub addr m = takeWhile (\<lambda>r. vr_start r \<le> addr) m"

definition vr_from_ub :: "u64 \<Rightarrow> vranges \<Rightarrow> vranges" where
  "vr_from_ub addr m = dropWhile (\<lambda>r. vr_start r \<le> addr) m"

definition VirtualRanges_Query :: "u64 \<Rightarrow> int \<Rightarrow> vranges \<Rightarrow> vrange option" where
  "VirtualRanges_Query addr flags m =
     (if vr_before_ub addr m \<noteq> [] \<and> addr < vr_end (last (vr_before_ub addr m)) then Some (last (vr_before_ub addr m))
      else if flags \<noteq> 1 \<or> vr_from_ub addr m = [] then None
      else Some (hd (vr_from_ub addr m)))"

fun query_span :: "u64 \<Rightarrow> u64 \<Rightarrow> vranges \<Rightarrow> vranges option" where
  "query_span current end [] = None"
| "query_span current end (r # m) =
     (if vr_end r \<le> current then query_span current end m
      else if vr_start r > current then None
      else
        (let part = r\<lparr>vr_start := current, vr_size := min end (vr_end r) - current,
               vr_offset := (if vr_type r = Direct then vr_offset r + (current - vr_start r) else vr_offset r)\<rparr> in
         if current + vr_size part = end then Some [part]
         else map_option ((#) part) (query_span (current + vr_size part) end m)))"

definition VirtualRanges_QuerySpan :: "u64 \<Rightarrow> u64 \<Rightarrow> vranges \<Rightarrow> vranges option" where
  "VirtualRanges_QuerySpan start bytes m =
     (if start = 0 \<or> bytes = 0 \<or> bytes > UINT64_MAX - start then None
      else query_span start (start + bytes) m)"

fun clamp_loop :: "u64 \<Rightarrow> u64 \<Rightarrow> u64 \<Rightarrow> vranges \<Rightarrow> u64" where
  "clamp_loop bytes clamped expected [] = clamped"
| "clamp_loop bytes clamped expected (r # m) =
     (if vr_start r = expected \<and> IsCommittedRangeType (vr_type r) \<and> clamped < bytes
      then (let chunk = min (bytes - clamped) (vr_size r) in clamp_loop bytes (clamped + chunk) (expected + chunk) m)
      else clamped)"

definition VirtualRanges_ClampRangeSize :: "u64 \<Rightarrow> u64 \<Rightarrow> vranges \<Rightarrow> u64" where
  "VirtualRanges_ClampRangeSize addr bytes m =
     (if addr = 0 \<or> bytes = 0 \<or> bytes > UINT64_MAX - addr then 0
      else if vr_before_ub addr m = [] then 0
      else
        (let vma = last (vr_before_ub addr m) in
         if addr < vr_start vma \<or> addr \<ge> vr_end vma \<or> \<not> IsCommittedRangeType (vr_type vma) then 0
         else
           (let clamped = min bytes (vr_end vma - addr) in
            clamp_loop bytes clamped (addr + clamped) (vr_from_ub addr m))))"

abbreviation PAGE_TABLE_GRANULARITY :: u64 where "PAGE_TABLE_GRANULARITY \<equiv> 2097152"

definition CountPageTableEntries :: "bool \<Rightarrow> vranges \<Rightarrow> u64" where
  "CountPageTableEntries gpu m =
     fold (\<lambda>r used.
       if \<not> IsCommittedRangeType (vr_type r) \<or> vr_size r = 0 then used
       else
         (let has_cpu_access = vr_protection r AND (PROT_CPU_READ OR PROT_CPU_WRITE OR PROT_CPU_EXEC) \<noteq> 0;
              has_gpu_access = vr_protection r AND (PROT_GPU_READ OR PROT_GPU_WRITE) \<noteq> 0 in
          if (if gpu then \<not> has_gpu_access else \<not> has_cpu_access) then used
          else used + ((vr_end r - 1) div PAGE_TABLE_GRANULARITY - vr_start r div PAGE_TABLE_GRANULARITY + 1))) m 0"

section \<open>The bytes of a table\<close>

definition vbytes :: "vrange \<Rightarrow> u64 set" where
  "vbytes r = {vr_start r..<vr_start r + vr_size r}"

definition range_fits :: "vrange \<Rightarrow> bool" where
  "range_fits r \<longleftrightarrow> 0 < vr_start r \<and> 0 < vr_size r \<and> vr_start r + vr_size r \<le> UINT64_MAX"

definition vr_ok :: "vranges \<Rightarrow> bool" where
  "vr_ok m \<longleftrightarrow> (\<forall>r\<in>set m. range_fits r) \<and> sorted_wrt (\<lambda>x y. vr_start x + vr_size x \<le> vr_start y) m"

record byte_info =
  bi_protection :: int
  bi_memory_type :: int
  bi_type :: VirtualRangeType
  bi_disallow_merge :: bool
  bi_name :: string
  bi_backing :: "u64 option"

text \<open>What the table says of a byte; for direct memory, also which physical byte backs it.\<close>

definition info :: "vrange \<Rightarrow> u64 \<Rightarrow> byte_info" where
  "info r x = \<lparr>bi_protection = vr_protection r, bi_memory_type = vr_memory_type r, bi_type = vr_type r,
     bi_disallow_merge = vr_disallow_merge r, bi_name = vr_name r,
     bi_backing = (if vr_type r = Direct then Some (vr_offset r + (x - vr_start r)) else None)\<rparr>"

fun attr :: "vranges \<Rightarrow> u64 \<Rightarrow> byte_info option" where
  "attr [] x = None"
| "attr (r # m) x = (if x \<in> vbytes r then Some (info r x) else attr m x)"

lemma mem_vbytes [simp]: "x \<in> vbytes r \<longleftrightarrow> vr_start r \<le> x \<and> x < vr_start r + vr_size r"
  by (simp add: vbytes_def)

lemmas attr_Cons = attr.simps(2)
declare attr.simps(2) [simp del]

lemma vr_ok_Nil [simp]: "vr_ok []"
  by (simp add: vr_ok_def)

lemma vr_ok_Cons: "vr_ok (r # m) \<longleftrightarrow> range_fits r \<and> (\<forall>s\<in>set m. vr_start r + vr_size r \<le> vr_start s) \<and> vr_ok m"
  by (auto simp: vr_ok_def)

lemma vr_ok_append:
  "vr_ok (m @ n) \<longleftrightarrow> vr_ok m \<and> vr_ok n \<and> (\<forall>r\<in>set m. \<forall>s\<in>set n. vr_start r + vr_size r \<le> vr_start s)"
  by (auto simp: vr_ok_def sorted_wrt_append)

lemma vr_end_fits [simp]: "range_fits r \<Longrightarrow> vr_end r = vr_start r + vr_size r"
  by (auto simp: range_fits_def vr_End_def)

lemma vr_ok_fits: "vr_ok m \<Longrightarrow> r \<in> set m \<Longrightarrow> range_fits r"
  by (simp add: vr_ok_def)

lemma attr_append: "attr (m @ n) x = (case attr m x of None \<Rightarrow> attr n x | Some i \<Rightarrow> Some i)"
  by (induction m) (auto simp: attr_Cons)

lemma attr_append_cong: "attr n = attr n' \<Longrightarrow> attr (m @ n) = attr (m @ n')"
  by (rule ext) (simp add: attr_append split: option.split)

lemma attr_None_iff: "attr m x = None \<longleftrightarrow> (\<forall>r\<in>set m. x \<notin> vbytes r)"
  by (induction m) (auto simp: attr_Cons)

lemma attr_mem: "vr_ok m \<Longrightarrow> r \<in> set m \<Longrightarrow> x \<in> vbytes r \<Longrightarrow> attr m x = Some (info r x)"
  by (induction m) (fastforce simp: attr_Cons vr_ok_Cons range_fits_def)+

lemma attr_Some_iff: "vr_ok m \<Longrightarrow> attr m x = Some i \<longleftrightarrow> (\<exists>r\<in>set m. x \<in> vbytes r \<and> i = info r x)"
  by (metis attr_None_iff attr_mem not_None_eq option.inject)

definition mapped :: "vranges \<Rightarrow> u64 set" where
  "mapped m = {x. attr m x \<noteq> None}"

lemma mapped_iff: "x \<in> mapped m \<longleftrightarrow> (\<exists>r\<in>set m. x \<in> vbytes r)"
  by (auto simp: mapped_def attr_None_iff simp del: not_None_eq)

section \<open>Merging changes no byte\<close>

lemma join_two:
  assumes ok: "vr_ok (l # r # m)" and adj: "vr_end l = vr_start r" and key: "SameMergeKey l r"
  defines "j \<equiv> l\<lparr>vr_size := vr_size l + vr_size r\<rparr>"
  shows "vr_ok (j # m)" and "attr (j # m) = attr (l # r # m)"
proof -
  have f: "range_fits l" "range_fits r" "vr_start l + vr_size l = vr_start r"
    using ok adj by (auto simp: vr_ok_Cons)
  show "vr_ok (j # m)" using ok f by (auto simp: vr_ok_Cons j_def range_fits_def)
  have k: "vr_type l \<noteq> Direct" "vr_type r \<noteq> Direct" "info l x = info r y" for x y
    using key by (auto simp: SameMergeKey_def info_def split: if_splits)
  have i: "info j x = info l x" for x by (simp add: info_def j_def)
  show "attr (j # m) = attr (l # r # m)"
  proof
    fix x
    have "x \<in> vbytes j \<longleftrightarrow> x \<in> vbytes l \<or> x \<in> vbytes r" using f by (auto simp: j_def range_fits_def)
    then show "attr (j # m) x = attr (l # r # m) x" using k(3) i by (auto simp: attr_Cons simp del: mem_vbytes)
  qed
qed

lemma merge_runs_spec:
  "vr_ok (l # m) \<Longrightarrow> vr_ok (merge_runs l m) \<and> attr (merge_runs l m) = attr (l # m) \<and>
    (\<forall>s\<in>set (merge_runs l m). vr_start l \<le> vr_start s)"
proof (induction l m rule: merge_runs.induct)
  case (2 l r m)
  show ?case
  proof (cases "vr_end l = vr_start r \<and> SameMergeKey l r")
    case True
    note j = join_two [OF "2.prems"] 
    show ?thesis using "2.IH"(1) [OF True] j True by simp
  next
    case False
    have ok: "range_fits l" "vr_ok (r # m)" "vr_start l + vr_size l \<le> vr_start r"
      using "2.prems" by (auto simp: vr_ok_Cons)
    have IH: "vr_ok (merge_runs r m)" "attr (merge_runs r m) = attr (r # m)"
      "\<forall>s\<in>set (merge_runs r m). vr_start r \<le> vr_start s" using "2.IH"(2) [OF False ok(2)] by auto
    then show ?thesis using False ok by (fastforce simp: vr_ok_Cons attr_Cons fun_eq_iff)
  qed
qed simp

lemma merge_following_spec:
  "vr_ok m \<Longrightarrow> vr_ok (merge_following m) \<and> attr (merge_following m) = attr m \<and>
    (\<forall>s\<in>set (merge_following m). \<exists>r\<in>set m. vr_start r \<le> vr_start s)"
proof (induction m rule: merge_following.induct)
  case (3 r n m)
  show ?case
  proof (cases "vr_end r \<noteq> vr_start n \<or> \<not> SameMergeKey r n")
    case False
    note j = join_two [OF "3.prems"]
    show ?thesis using "3.IH" [OF False] j False by auto
  qed (use "3.prems" in auto)
qed auto

lemma sort_vr_ok: "vr_ok m \<Longrightarrow> sort_key vr_start m = m"
proof -
  assume ok: "vr_ok m"
  have "sorted (map vr_start m)" using ok by (induction m) (auto simp: vr_ok_Cons)
  then show ?thesis by (simp add: sort_key_id_if_sorted)
qed

lemma MergeUnlocked_spec: "vr_ok m \<Longrightarrow> vr_ok (MergeUnlocked m) \<and> attr (MergeUnlocked m) = attr m"
  using merge_runs_spec by (auto simp: MergeUnlocked_def sort_vr_ok split: list.splits)

lemma MergeAroundUnlocked_spec:
  assumes ok: "vr_ok m"
  shows "vr_ok (MergeAroundUnlocked index m) \<and> attr (MergeAroundUnlocked index m) = attr m"
proof -
  consider "index \<ge> length m" | "index < length m" "index \<noteq> 0" "vr_end (m ! (index - 1)) = vr_start (m ! index)"
      "SameMergeKey (m ! (index - 1)) (m ! index)"
    | "index < length m" "index = 0 \<or> vr_end (m ! (index - 1)) \<noteq> vr_start (m ! index) \<or> \<not> SameMergeKey (m ! (index - 1)) (m ! index)"
    by linarith
  then show ?thesis
  proof cases
    case 1
    then show ?thesis using ok by (simp add: MergeAroundUnlocked_def)
  next
    case 2
    let ?l = "m ! (index - 1)" and ?r = "m ! index" and ?p = "take (index - 1) m" and ?q = "drop (index + 1) m"
    let ?j = "?l\<lparr>vr_size := vr_size ?l + vr_size ?r\<rparr>"
    have m: "m = ?p @ ?l # ?r # ?q"
      using 2(1,2) by (metis Cons_nth_drop_Suc One_nat_def Suc_eq_plus1 Suc_pred append_take_drop_id less_imp_diff_less not_gr_zero)
    have ok': "vr_ok (?p @ ?l # ?r # ?q)" using ok m by simp
    then have okq: "vr_ok (?l # ?r # ?q)" "vr_ok ?p" "\<forall>x\<in>set ?p. vr_start x + vr_size x \<le> vr_start ?l"
      by (simp_all add: vr_ok_append)
    note j = join_two [OF okq(1) 2(3,4)]
    note mf = merge_following_spec [OF j(1)]
    have "\<forall>s\<in>set (merge_following (?j # ?q)). vr_start ?l \<le> vr_start s"
      using mf okq(1) by (fastforce simp: vr_ok_Cons)
    then have "vr_ok (?p @ merge_following (?j # ?q))"
      using mf okq(2,3) by (auto simp: vr_ok_append intro: order_trans)
    moreover have "attr (?p @ merge_following (?j # ?q)) = attr (?p @ ?l # ?r # ?q)"
      using mf j(2) by (intro attr_append_cong) simp
    ultimately show ?thesis using 2 m by (simp add: MergeAroundUnlocked_def)
  next
    case 3
    have "vr_ok (take index m @ drop index m)" using ok by simp
    then have p: "vr_ok (take index m)" "vr_ok (drop index m)"
      "\<forall>x\<in>set (take index m). \<forall>y\<in>set (drop index m). vr_start x + vr_size x \<le> vr_start y"
      unfolding vr_ok_append by auto
    note mf = merge_following_spec [OF p(2)]
    have "vr_ok (take index m @ merge_following (drop index m))"
      using mf p by (fastforce simp: vr_ok_append)
    moreover have "attr (take index m @ merge_following (drop index m)) = attr (take index m @ drop index m)"
      using mf by (intro attr_append_cong) simp
    ultimately show ?thesis using 3 by (auto simp: MergeAroundUnlocked_def)
  qed
qed

section \<open>Cutting the ranges into pieces\<close>

definition span_of :: "u64 \<Rightarrow> u64 \<Rightarrow> u64 set" where
  "span_of start bytes = {start..<vr_End start bytes}"

definition within :: "vrange \<Rightarrow> vranges \<Rightarrow> bool" where
  "within r ps \<longleftrightarrow> (\<forall>p\<in>set ps. vr_start r \<le> vr_start p \<and> vr_start p + vr_size p \<le> vr_start r + vr_size r)"

lemma within_simps [simp]: "within r []" "within r (ps @ qs) \<longleftrightarrow> within r ps \<and> within r qs"
  "within r (p # ps) \<longleftrightarrow> vr_start r \<le> vr_start p \<and> vr_start p + vr_size p \<le> vr_start r + vr_size r \<and> within r ps"
  by (auto simp: within_def)

lemma overlap_iff:
  assumes "range_fits r" and "0 < bytes"
  shows "VirtualRangesOverlap start bytes (vr_start r) (vr_size r) \<longleftrightarrow> start < vr_start r + vr_size r \<and> vr_start r < vr_End start bytes"
  using assms by (auto simp: VirtualRangesOverlap_def vr_End_def range_fits_def Let_def)

lemma AddPiece_attr:
  assumes "range_fits r" and "vr_start r \<le> s"
  shows "attr (AddPiece r s e) x = (if s \<le> x \<and> x < e then Some (info r x) else None)"
  using assms by (auto simp: AddPiece_def attr_Cons info_def)

lemma AddPiece_ok:
  assumes "range_fits r" and "vr_start r \<le> s" and "e \<le> vr_start r + vr_size r"
  shows "vr_ok (AddPiece r s e)" and "within r (AddPiece r s e)"
    and "p \<in> set (AddPiece r s e) \<Longrightarrow> s \<le> vr_start p \<and> vr_start p + vr_size p \<le> e"
  using assms by (auto simp: AddPiece_def vr_ok_Cons range_fits_def split: if_splits)

definition edits :: "(vrange \<Rightarrow> vrange) \<Rightarrow> (byte_info \<Rightarrow> byte_info) \<Rightarrow> bool" where
  "edits edit f \<longleftrightarrow> (\<forall>r. vr_start (edit r) = vr_start r \<and> vr_size (edit r) = vr_size r \<and> (\<forall>x. info (edit r) x = f (info r x)))"

lemma edit_pieces_spec:
  assumes fits: "range_fits r" and n: "0 < bytes" and ed: "edits edit f"
  shows "vr_ok (edit_pieces edit start bytes r)" and "within r (edit_pieces edit start bytes r)"
    and "attr (edit_pieces edit start bytes r) x =
      (if x \<in> vbytes r then Some (if x \<in> span_of start bytes then f (info r x) else info r x) else None)"
proof -
  let ?P = "edit_pieces edit start bytes r"
  have "vr_ok ?P \<and> within r ?P \<and> (\<forall>x. attr ?P x =
      (if x \<in> vbytes r then Some (if x \<in> span_of start bytes then f (info r x) else info r x) else None))"
  proof (cases "VirtualRangesOverlap start bytes (vr_start r) (vr_size r)")
    case False
    then have "\<not> (start < vr_start r + vr_size r \<and> vr_start r < vr_End start bytes)" using overlap_iff [OF fits n] by simp
    then show ?thesis using False fits by (auto simp: edit_pieces_def vr_ok_Cons attr_Cons span_of_def)
  next
    case True
    define a where "a = max start (vr_start r)"
    define b where "b = min (vr_End start bytes) (vr_start r + vr_size r)"
    define mid where "mid = r\<lparr>vr_start := a, vr_size := b - a,
               vr_offset := (if vr_type r = Direct then vr_offset r + (a - vr_start r) else vr_offset r)\<rparr>"
    have o: "start < vr_start r + vr_size r" "vr_start r < vr_End start bytes" using True overlap_iff [OF fits n] by auto
    have e: "start < vr_End start bytes" using o fits n by (auto simp: vr_End_def range_fits_def)
    have ab: "vr_start r \<le> a" "a < b" "b \<le> vr_start r + vr_size r" using o e fits by (auto simp: a_def b_def range_fits_def)
    have P: "?P = AddPiece r (vr_start r) a @ [edit mid] @ AddPiece r b (vr_start r + vr_size r)"
      using True fits by (simp add: edit_pieces_def Let_def a_def b_def mid_def)
    have m: "vr_start (edit mid) = a" "vr_size (edit mid) = b - a" "\<And>x. a \<le> x \<Longrightarrow> info (edit mid) x = f (info r x)"
      using ed ab by (auto simp: edits_def mid_def info_def)
    note pl = AddPiece_ok [OF fits order_refl, of a] and pr = AddPiece_ok [OF fits, of b "vr_start r + vr_size r"]
    have fm: "range_fits (edit mid)" using m ab fits by (auto simp: range_fits_def)
    have "vr_ok ?P" unfolding P vr_ok_append using pl pr fm m ab
      by (auto simp: vr_ok_Cons) (meson le_trans less_imp_le)+
    moreover have "within r ?P" unfolding P using pl(2) pr(2) m ab by simp
    moreover have "attr ?P x = (if x \<in> vbytes r then Some (if x \<in> span_of start bytes then f (info r x) else info r x) else None)" for x
    proof -
      have sp: "x \<in> vbytes r \<and> x \<in> span_of start bytes \<longleftrightarrow> a \<le> x \<and> x < b" by (auto simp: span_of_def a_def b_def)
      have "attr ?P x = (if vr_start r \<le> x \<and> x < a then Some (info r x) else if a \<le> x \<and> x < b then Some (f (info r x))
          else if b \<le> x \<and> x < vr_start r + vr_size r then Some (info r x) else None)"
        unfolding P attr_append AddPiece_attr [OF fits order_refl] AddPiece_attr [OF fits order_trans [OF ab(1) less_imp_le [OF ab(2)]]]
        using m ab by (simp add: attr_Cons)
      then show ?thesis using sp ab by auto
    qed
    ultimately show ?thesis by blast
  qed
  then show "vr_ok ?P" "within r ?P" "attr ?P x =
      (if x \<in> vbytes r then Some (if x \<in> span_of start bytes then f (info r x) else info r x) else None)" by blast+
qed

lemma remove_pieces_spec:
  assumes fits: "range_fits r" and n: "0 < bytes"
  shows "vr_ok (remove_pieces start bytes r)" and "within r (remove_pieces start bytes r)"
    and "attr (remove_pieces start bytes r) x = (if x \<in> vbytes r \<and> x \<notin> span_of start bytes then Some (info r x) else None)"
proof -
  let ?P = "remove_pieces start bytes r"
  have "vr_ok ?P \<and> within r ?P \<and> (\<forall>x. attr ?P x = (if x \<in> vbytes r \<and> x \<notin> span_of start bytes then Some (info r x) else None))"
  proof (cases "VirtualRangesOverlap start bytes (vr_start r) (vr_size r)")
    case False
    then have "\<not> (start < vr_start r + vr_size r \<and> vr_start r < vr_End start bytes)" using overlap_iff [OF fits n] by simp
    then show ?thesis using False fits by (auto simp: remove_pieces_def vr_ok_Cons attr_Cons span_of_def)
  next
    case True
    define a where "a = max start (vr_start r)"
    define b where "b = min (vr_End start bytes) (vr_start r + vr_size r)"
    have o: "start < vr_start r + vr_size r" "vr_start r < vr_End start bytes" using True overlap_iff [OF fits n] by auto
    have e: "start < vr_End start bytes" using o fits n by (auto simp: vr_End_def range_fits_def)
    have ab: "vr_start r \<le> a" "a < b" "b \<le> vr_start r + vr_size r" using o e fits by (auto simp: a_def b_def range_fits_def)
    have P: "?P = AddPiece r (vr_start r) a @ AddPiece r b (vr_start r + vr_size r)"
      using True fits by (simp add: remove_pieces_def a_def b_def)
    note pl = AddPiece_ok [OF fits order_refl, of a] and pr = AddPiece_ok [OF fits, of b "vr_start r + vr_size r"]
    have "vr_ok ?P" unfolding P vr_ok_append using pl pr ab by auto (meson le_trans less_imp_le)+
    moreover have "within r ?P" unfolding P using pl(2) pr(2) ab by simp
    moreover have "attr ?P x = (if x \<in> vbytes r \<and> x \<notin> span_of start bytes then Some (info r x) else None)" for x
    proof -
      have sp: "x \<in> vbytes r \<and> x \<in> span_of start bytes \<longleftrightarrow> a \<le> x \<and> x < b" by (auto simp: span_of_def a_def b_def)
      have "attr ?P x = (if vr_start r \<le> x \<and> x < a then Some (info r x)
          else if b \<le> x \<and> x < vr_start r + vr_size r then Some (info r x) else None)"
        unfolding P attr_append AddPiece_attr [OF fits order_refl] AddPiece_attr [OF fits order_trans [OF ab(1) less_imp_le [OF ab(2)]]]
        by simp
      then show ?thesis using sp ab by auto
    qed
    ultimately show ?thesis by blast
  qed
  then show "vr_ok ?P" "within r ?P"
    "attr ?P x = (if x \<in> vbytes r \<and> x \<notin> span_of start bytes then Some (info r x) else None)" by blast+
qed

lemma concat_pieces:
  assumes "vr_ok m"
    and "\<And>r. r \<in> set m \<Longrightarrow> vr_ok (f r) \<and> within r (f r) \<and> (\<forall>x. attr (f r) x = (if x \<in> vbytes r then h x (info r x) else None))"
  shows "vr_ok (concat (map f m)) \<and> (\<forall>x. attr (concat (map f m)) x = Option.bind (attr m x) (h x)) \<and>
    (\<forall>p\<in>set (concat (map f m)). \<exists>r\<in>set m. vr_start r \<le> vr_start p)"
  using assms
proof (induction m)
  case (Cons r m)
  have ok: "range_fits r" "\<forall>s\<in>set m. vr_start r + vr_size r \<le> vr_start s" "vr_ok m" using Cons.prems(1) by (auto simp: vr_ok_Cons)
  have IH: "vr_ok (concat (map f m))" "\<And>x. attr (concat (map f m)) x = Option.bind (attr m x) (h x)"
    "\<forall>p\<in>set (concat (map f m)). \<exists>r\<in>set m. vr_start r \<le> vr_start p"
    using Cons.IH [OF ok(3)] Cons.prems(2) by auto
  have fr: "vr_ok (f r)" "within r (f r)" "\<And>x. attr (f r) x = (if x \<in> vbytes r then h x (info r x) else None)"
    using Cons.prems(2) [of r] by auto
  have "vr_start p + vr_size p \<le> vr_start q" if p: "p \<in> set (f r)" and q: "q \<in> set (concat (map f m))" for p q
  proof -
    obtain s where "s \<in> set m" "vr_start s \<le> vr_start q" using IH(3) q by blast
    then show ?thesis using fr(2) p ok(2) unfolding within_def by (meson le_trans)
  qed
  then have "vr_ok (f r @ concat (map f m))" using fr(1) IH(1) unfolding vr_ok_append by blast
  moreover have "attr (f r @ concat (map f m)) x = Option.bind (attr (r # m) x) (h x)" for x
  proof (cases "x \<in> vbytes r")
    case True
    then have "attr m x = None" using ok(2) by (auto simp: attr_None_iff)
    then show ?thesis using True fr(3) [of x] IH(2) [of x] by (auto simp: attr_append attr_Cons split: option.split)
  next
    case False
    then show ?thesis using fr(3) [of x] IH(2) [of x] by (simp add: attr_append attr_Cons del: mem_vbytes)
  qed
  moreover have "\<forall>p\<in>set (f r @ concat (map f m)). \<exists>s\<in>set (r # m). vr_start s \<le> vr_start p"
    using fr(2) IH(3) unfolding within_def by fastforce
  ultimately show ?case by simp
qed simp

lemma EditUnlocked_spec:
  assumes ok: "vr_ok m" and ed: "edits edit f" and n: "0 < bytes"
  shows "vr_ok (EditUnlocked start bytes edit m)"
    and "attr (EditUnlocked start bytes edit m) x = map_option (\<lambda>i. if x \<in> span_of start bytes then f i else i) (attr m x)"
proof -
  have c: "vr_ok (concat (map (edit_pieces edit start bytes) m)) \<and>
      (\<forall>x. attr (concat (map (edit_pieces edit start bytes) m)) x = Option.bind (attr m x) (\<lambda>i. Some (if x \<in> span_of start bytes then f i else i)))"
    using concat_pieces [OF ok, of "edit_pieces edit start bytes" "\<lambda>x i. Some (if x \<in> span_of start bytes then f i else i)"]
      edit_pieces_spec [OF vr_ok_fits [OF ok] n ed] by blast
  note m = MergeUnlocked_spec [OF conjunct1 [OF c]]
  show "vr_ok (EditUnlocked start bytes edit m)" using m n by (simp add: EditUnlocked_def)
  show "attr (EditUnlocked start bytes edit m) x = map_option (\<lambda>i. if x \<in> span_of start bytes then f i else i) (attr m x)"
    using m c n by (cases "attr m x") (simp_all add: EditUnlocked_def)
qed

lemma RemoveUnlocked_spec:
  assumes ok: "vr_ok m" and n: "0 < bytes"
  shows "vr_ok (snd (RemoveUnlocked start bytes m))"
    and "attr (snd (RemoveUnlocked start bytes m)) x = (if x \<in> span_of start bytes then None else attr m x)"
    and "fst (RemoveUnlocked start bytes m) \<longleftrightarrow> span_of start bytes \<inter> mapped m \<noteq> {}"
proof -
  have c: "vr_ok (concat (map (remove_pieces start bytes) m)) \<and>
      (\<forall>x. attr (concat (map (remove_pieces start bytes) m)) x = Option.bind (attr m x) (\<lambda>i. if x \<in> span_of start bytes then None else Some i))"
    using concat_pieces [OF ok, of "remove_pieces start bytes" "\<lambda>x i. if x \<in> span_of start bytes then None else Some i"]
      remove_pieces_spec [OF vr_ok_fits [OF ok] n] by auto
  show "vr_ok (snd (RemoveUnlocked start bytes m))" using c n by (simp add: RemoveUnlocked_def)
  show "attr (snd (RemoveUnlocked start bytes m)) x = (if x \<in> span_of start bytes then None else attr m x)"
    using c n by (cases "attr m x") (simp_all add: RemoveUnlocked_def)
  have "VirtualRangesOverlap start bytes (vr_start r) (vr_size r) \<longleftrightarrow> span_of start bytes \<inter> vbytes r \<noteq> {}" if "r \<in> set m" for r
  proof -
    have f: "range_fits r" using vr_ok_fits [OF ok that] .
    have "start < vr_End start bytes" if "start < vr_start r + vr_size r" using that f n by (auto simp: vr_End_def range_fits_def)
    then have "(start < vr_start r + vr_size r \<and> vr_start r < vr_End start bytes) \<longleftrightarrow> max start (vr_start r) \<in> span_of start bytes \<inter> vbytes r"
      using f by (auto simp: span_of_def range_fits_def)
    moreover have "x \<in> span_of start bytes \<inter> vbytes r \<Longrightarrow> max start (vr_start r) \<in> span_of start bytes \<inter> vbytes r" for x
      by (auto simp: span_of_def)
    ultimately show ?thesis using overlap_iff [OF f n] by blast
  qed
  then have "fst (RemoveUnlocked start bytes m) \<longleftrightarrow> (\<exists>r\<in>set m. span_of start bytes \<inter> vbytes r \<noteq> {})"
    using n by (simp add: RemoveUnlocked_def list_ex_iff)
  also have "\<dots> \<longleftrightarrow> span_of start bytes \<inter> (\<Union>r\<in>set m. vbytes r) \<noteq> {}" by blast
  also have "(\<Union>r\<in>set m. vbytes r) = mapped m" using mapped_iff by blast
  finally show "fst (RemoveUnlocked start bytes m) \<longleftrightarrow> span_of start bytes \<inter> mapped m \<noteq> {}" .
qed

section \<open>The operations on the bytes\<close>

lemma vr_split: "vr_before k m @ vr_from k m = m"
  by (simp add: vr_before_def vr_from_def)

lemma vr_before_less: "r \<in> set (vr_before k m) \<Longrightarrow> vr_start r < k"
  by (auto simp: vr_before_def dest: in_takeWhileD)

lemma vr_from_ge: "vr_ok m \<Longrightarrow> r \<in> set (vr_from k m) \<Longrightarrow> k \<le> vr_start r"
  by (induction m) (fastforce simp: vr_from_def vr_ok_Cons split: if_splits)+

lemma vr_split_ok:
  assumes "vr_ok m"
  shows "vr_ok (vr_before k m)" and "vr_ok (vr_from k m)"
    and "\<forall>r\<in>set (vr_before k m). \<forall>s\<in>set (vr_from k m). vr_start r + vr_size r \<le> vr_start s"
  using assms vr_split [of k m] by (metis vr_ok_append)+

lemma vr_last_end:
  assumes "vr_ok m" and "r \<in> set m"
  shows "vr_start r + vr_size r \<le> vr_start (last m) + vr_size (last m)"
  using assms
proof (induction m)
  case (Cons s m)
  show ?case
  proof (cases "m = []")
    case False
    then have "range_fits (last m)" using Cons.prems(1) by (auto simp: vr_ok_Cons intro: vr_ok_fits)
    then show ?thesis using Cons False by (auto simp: vr_ok_Cons) (meson last_in_set le_add1 le_trans)
  qed (use Cons in auto)
qed simp

lemma vr_hd_start: "vr_ok m \<Longrightarrow> r \<in> set m \<Longrightarrow> vr_start (hd m) \<le> vr_start r"
  by (cases m) (auto simp: vr_ok_Cons)

lemma overlap_span:
  assumes f: "range_fits r" and n: "0 < bytes"
  shows "VirtualRangesOverlap start bytes (vr_start r) (vr_size r) \<longleftrightarrow> span_of start bytes \<inter> vbytes r \<noteq> {}"
proof -
  have "start < vr_End start bytes" if "start < vr_start r + vr_size r" using that f n by (auto simp: vr_End_def range_fits_def)
  then have "(start < vr_start r + vr_size r \<and> vr_start r < vr_End start bytes) \<longleftrightarrow> max start (vr_start r) \<in> span_of start bytes \<inter> vbytes r"
    using f by (auto simp: span_of_def range_fits_def)
  moreover have "x \<in> span_of start bytes \<inter> vbytes r \<Longrightarrow> max start (vr_start r) \<in> span_of start bytes \<inter> vbytes r" for x
    by (auto simp: span_of_def)
  ultimately show ?thesis using overlap_iff [OF f n] by blast
qed

lemma span_of_fits: "start + bytes \<le> UINT64_MAX \<Longrightarrow> span_of start bytes = {start..<start + bytes}"
  by (auto simp: span_of_def vr_End_def)

text \<open>Only the neighbours of the position need to be tested for an overlap.\<close>

lemma neighbours_decide:
  assumes ok: "vr_ok m" and n: "0 < bytes"
  shows "span_of start bytes \<inter> mapped m \<noteq> {} \<longleftrightarrow>
    (vr_from start m \<noteq> [] \<and> VirtualRangesOverlap start bytes (vr_start (hd (vr_from start m))) (vr_size (hd (vr_from start m)))) \<or>
    (vr_before start m \<noteq> [] \<and> VirtualRangesOverlap start bytes (vr_start (last (vr_before start m))) (vr_size (last (vr_before start m))))"
    (is "?L \<longleftrightarrow> ?R")
proof
  have set_m: "set m = set (vr_before start m) \<union> set (vr_from start m)" using vr_split [of start m] by (metis set_append)
  {
    assume R: ?R
    obtain r where "r \<in> set m" "VirtualRangesOverlap start bytes (vr_start r) (vr_size r)"
    proof (cases "vr_from start m \<noteq> [] \<and> VirtualRangesOverlap start bytes (vr_start (hd (vr_from start m))) (vr_size (hd (vr_from start m)))")
      case True
      then have "hd (vr_from start m) \<in> set m" using set_m hd_in_set by blast
      then show ?thesis using that True by blast
    next
      case False
      then have "vr_before start m \<noteq> []"
        and ov: "VirtualRangesOverlap start bytes (vr_start (last (vr_before start m))) (vr_size (last (vr_before start m)))"
        using R by blast+
      then have "last (vr_before start m) \<in> set m" using set_m last_in_set by blast
      then show ?thesis using that ov by blast
    qed
    then show ?L using overlap_span [OF vr_ok_fits [OF ok] n] mapped_iff by blast
  next
    assume ?L
    then obtain x r where x: "x \<in> span_of start bytes" "r \<in> set m" "x \<in> vbytes r" using mapped_iff by blast
    then have ov: "start < vr_start r + vr_size r" "vr_start r < vr_End start bytes" by (auto simp: span_of_def)
    show ?R
    proof (cases "r \<in> set (vr_from start m)")
      case True
      let ?h = "hd (vr_from start m)"
      have ne: "vr_from start m \<noteq> []" using True by auto
      then have h: "?h \<in> set (vr_from start m)" by simp
      have fh: "range_fits ?h" using vr_ok_fits [OF vr_split_ok(2) [OF ok] h] .
      have "vr_start ?h \<le> vr_start r" using vr_hd_start [OF vr_split_ok(2) [OF ok] True] .
      then have "start < vr_start ?h + vr_size ?h \<and> vr_start ?h < vr_End start bytes"
        using ov vr_from_ge [OF ok h] fh unfolding range_fits_def by linarith
      then show ?thesis using overlap_iff [OF fh n] ne by blast
    next
      case False
      then have rb: "r \<in> set (vr_before start m)" using x set_m by blast
      let ?l = "last (vr_before start m)"
      have ne: "vr_before start m \<noteq> []" using rb by auto
      then have l: "?l \<in> set (vr_before start m)" by simp
      have fl: "range_fits ?l" using vr_ok_fits [OF vr_split_ok(1) [OF ok] l] .
      have "vr_start r + vr_size r \<le> vr_start ?l + vr_size ?l" using vr_last_end [OF vr_split_ok(1) [OF ok] rb] .
      moreover have "vr_start ?l < vr_End start bytes"
        using vr_before_less [OF l] x(1) by (auto simp: span_of_def)
      ultimately have "start < vr_start ?l + vr_size ?l \<and> vr_start ?l < vr_End start bytes" using ov by linarith
      then show ?thesis using overlap_iff [OF fl n] ne by blast
    qed
  }
qed

lemma FindOverlap_spec:
  assumes ok: "vr_ok m" and n: "0 < bytes"
  shows "case FindOverlap start bytes m of None \<Rightarrow> span_of start bytes \<inter> mapped m = {}
    | Some r \<Rightarrow> r \<in> set m \<and> span_of start bytes \<inter> vbytes r \<noteq> {}"
proof -
  have set_m: "set m = set (vr_before start m) \<union> set (vr_from start m)" using vr_split [of start m] by (metis set_append)
  have h: "vr_from start m \<noteq> [] \<Longrightarrow> hd (vr_from start m) \<in> set m" "vr_before start m \<noteq> [] \<Longrightarrow> last (vr_before start m) \<in> set m"
    using set_m by auto
  show ?thesis
    using neighbours_decide [OF ok n, of start] overlap_span [OF vr_ok_fits [OF ok] n] h
    by (auto simp: FindOverlap_def split: option.splits)
qed

lemma vr_insert_ok:
  assumes ok: "vr_ok m" and f: "range_fits r" and free: "vbytes r \<inter> mapped m = {}"
  shows "vr_ok (vr_before (vr_start r) m @ r # vr_from (vr_start r) m)"
    and "attr (vr_before (vr_start r) m @ r # vr_from (vr_start r) m) x = (if x \<in> vbytes r then Some (info r x) else attr m x)"
proof -
  let ?p = "vr_before (vr_start r) m" and ?q = "vr_from (vr_start r) m"
  have set_m: "set m = set ?p \<union> set ?q" using vr_split [of "vr_start r" m] by (metis set_append)
  have dis: "vbytes r \<inter> vbytes s = {}" if "s \<in> set m" for s using free that mapped_iff by blast
  have bef: "vr_start s + vr_size s \<le> vr_start r" if s: "s \<in> set ?p" for s
  proof (rule ccontr)
    assume "\<not> ?thesis"
    then have "vr_start r \<in> vbytes r \<inter> vbytes s" using vr_before_less [OF s] f by (auto simp: range_fits_def)
    then show False using dis s set_m by blast
  qed
  have aft: "vr_start r + vr_size r \<le> vr_start s" if s: "s \<in> set ?q" for s
  proof (rule ccontr)
    assume "\<not> ?thesis"
    moreover have "range_fits s" using vr_ok_fits [OF ok] s set_m by blast
    ultimately have "vr_start s \<in> vbytes r \<inter> vbytes s" using vr_from_ge [OF ok s] by (auto simp: range_fits_def)
    then show False using dis s set_m by blast
  qed
  show "vr_ok (?p @ r # ?q)" using vr_split_ok [OF ok, of "vr_start r"] bef aft f by (auto simp: vr_ok_append vr_ok_Cons)
  show "attr (?p @ r # ?q) x = (if x \<in> vbytes r then Some (info r x) else attr m x)"
  proof (cases "x \<in> vbytes r")
    case True
    then have "attr ?p x = None" using bef by (fastforce simp: attr_None_iff)
    then show ?thesis using True by (simp add: attr_append attr_Cons)
  next
    case False
    have m: "attr m x = (case attr ?p x of None \<Rightarrow> attr ?q x | Some i \<Rightarrow> Some i)"
      by (metis attr_append vr_split)
    show ?thesis by (simp only: m attr_append attr_Cons False if_False)
  qed
qed

definition new_info :: "u64 \<Rightarrow> u64 \<Rightarrow> int \<Rightarrow> int \<Rightarrow> VirtualRangeType \<Rightarrow> string option \<Rightarrow> bool \<Rightarrow> u64 \<Rightarrow> byte_info" where
  "new_info start offset protection memory_type type name disallow_merge x =
     \<lparr>bi_protection = protection, bi_memory_type = memory_type, bi_type = type, bi_disallow_merge = disallow_merge,
      bi_name = CopyVirtualRangeName name, bi_backing = (if type = Direct then Some (offset + (x - start)) else None)\<rparr>"

lemma VirtualRanges_Add_spec:
  assumes ok: "vr_ok m" and fits: "0 < start" "0 < bytes" "start + bytes \<le> UINT64_MAX"
    and run: "VirtualRanges_Add start bytes offset protection memory_type type name dm m = (b, m')"
  shows "b \<longleftrightarrow> {start..<start + bytes} \<inter> mapped m = {}" and "vr_ok m'"
    and "attr m' x = (if b \<and> x \<in> {start..<start + bytes} then Some (new_info start offset protection memory_type type name dm x) else attr m x)"
proof -
  let ?r = "\<lparr>vr_start = start, vr_size = bytes, vr_offset = offset, vr_protection = protection,
                  vr_memory_type = memory_type, vr_type = type, vr_disallow_merge = dm,
                  vr_name = CopyVirtualRangeName name\<rparr>"
  have sp: "span_of start bytes = {start..<start + bytes}" "vbytes ?r = {start..<start + bytes}"
    using span_of_fits fits by (auto simp: vbytes_def)
  have nb: "b \<longleftrightarrow> {start..<start + bytes} \<inter> mapped m = {}"
    using run neighbours_decide [OF ok fits(2), of start] fits unfolding sp
    by (auto simp: VirtualRanges_Add_def Let_def split: if_splits)
  have i: "info ?r x = new_info start offset protection memory_type type name dm x" for x
    by (simp add: info_def new_info_def)
  have fr: "range_fits ?r" using fits by (simp add: range_fits_def)
  have "vr_ok m' \<and> attr m' x = (if b \<and> x \<in> {start..<start + bytes} then Some (new_info start offset protection memory_type type name dm x) else attr m x)"
  proof (cases b)
    case True
    then have m': "m' = MergeAroundUnlocked (length (vr_before start m)) (vr_before start m @ ?r # vr_from start m)"
      using run by (auto simp: VirtualRanges_Add_def Let_def split: if_splits)
    have "vbytes ?r \<inter> mapped m = {}" using nb True sp by simp
    note ins = vr_insert_ok [OF ok fr this]
    from ins have ins': "vr_ok (vr_before start m @ ?r # vr_from start m)"
      "attr (vr_before start m @ ?r # vr_from start m) x = (if x \<in> vbytes ?r then Some (info ?r x) else attr m x)" by simp_all
    show ?thesis using MergeAroundUnlocked_spec [OF ins'(1)] ins'(2) i True m' unfolding sp(2) by simp
  next
    case False
    then have "m' = m" using run by (auto simp: VirtualRanges_Add_def Let_def split: if_splits)
    then show ?thesis using ok False by simp
  qed
  then show "vr_ok m'" "attr m' x = (if b \<and> x \<in> {start..<start + bytes} then Some (new_info start offset protection memory_type type name dm x) else attr m x)"
    by blast+
  show "b \<longleftrightarrow> {start..<start + bytes} \<inter> mapped m = {}" by (rule nb)
qed

lemma VirtualRanges_Remove_spec:
  assumes ok: "vr_ok m" and n: "0 < bytes" and run: "VirtualRanges_Remove start bytes m = (b, m')"
  shows "vr_ok m'" and "attr m' x = (if x \<in> span_of start bytes then None else attr m x)"
    and "b \<longleftrightarrow> span_of start bytes \<inter> mapped m \<noteq> {}"
proof -
  let ?q = "vr_from start m"
  have "vr_ok m' \<and> attr m' x = (if x \<in> span_of start bytes then None else attr m x) \<and> (b \<longleftrightarrow> span_of start bytes \<inter> mapped m \<noteq> {})"
  proof (cases "?q \<noteq> [] \<and> vr_start (hd ?q) = start \<and> vr_size (hd ?q) = bytes")
    case True
    then obtain r q where q: "?q = r # q" by (cases ?q) auto
    have r: "vr_start r = start" "vr_size r = bytes" using True q by auto
    have m: "m = vr_before start m @ r # q" using vr_split [of start m] q by simp
    have ok': "vr_ok (vr_before start m @ r # q)" using ok m by simp
    then have f: "range_fits r" by (simp add: vr_ok_append vr_ok_Cons)
    then have sp: "span_of start bytes = vbytes r" using r span_of_fits [of start bytes] by (simp add: range_fits_def vbytes_def)
    have b': "b" "m' = vr_before start m @ q" using run True q by (simp_all add: VirtualRanges_Remove_def)
    have "vr_ok m'" using ok' unfolding b'(2) vr_ok_append vr_ok_Cons by auto
    moreover have "attr m' x = (if x \<in> span_of start bytes then None else attr m x)"
    proof (cases "x \<in> vbytes r")
      case True
      then have "\<forall>s\<in>set m'. x \<notin> vbytes s" using ok' unfolding b'(2) vr_ok_append vr_ok_Cons by fastforce
      then show ?thesis using True sp attr_None_iff by simp
    next
      case False
      have "attr m x = attr (vr_before start m @ r # q) x" using m by simp
      also have "\<dots> = attr m' x" by (simp only: b'(2) attr_append attr_Cons False if_False)
      finally show ?thesis by (simp add: sp False del: mem_vbytes)
    qed
    moreover have "start \<in> span_of start bytes \<inter> mapped m"
      using sp f r mapped_iff [of start m] m by (metis IntI in_set_conv_decomp le_refl mem_vbytes less_add_same_cancel1 n)
    ultimately show ?thesis using b'(1) by blast
  next
    case False
    then have "b = fst (RemoveUnlocked start bytes m)" "m' = MergeUnlocked (snd (RemoveUnlocked start bytes m))"
      using run by (auto simp: VirtualRanges_Remove_def split: prod.splits)
    then show ?thesis using RemoveUnlocked_spec [OF ok n, of start] MergeUnlocked_spec by simp
  qed
  then show "vr_ok m'" "attr m' x = (if x \<in> span_of start bytes then None else attr m x)"
    "b \<longleftrightarrow> span_of start bytes \<inter> mapped m \<noteq> {}" by blast+
qed

lemma edits_simps [simp]:
  "edits (\<lambda>r. r\<lparr>vr_protection := p\<rparr>) (\<lambda>i. i\<lparr>bi_protection := p\<rparr>)"
  "edits (\<lambda>r. r\<lparr>vr_memory_type := t\<rparr>) (\<lambda>i. i\<lparr>bi_memory_type := t\<rparr>)"
  "edits (\<lambda>r. r\<lparr>vr_name := s\<rparr>) (\<lambda>i. i\<lparr>bi_name := s\<rparr>)"
  by (simp_all add: edits_def info_def)

lemma EditUnlocked_attr:
  assumes ok: "vr_ok m" and ed: "edits edit f"
  shows "vr_ok (EditUnlocked start bytes edit m)"
    and "attr (EditUnlocked start bytes edit m) x = map_option (\<lambda>i. if x \<in> span_of start bytes then f i else i) (attr m x)"
proof -
  have "vr_ok (EditUnlocked start bytes edit m) \<and>
    attr (EditUnlocked start bytes edit m) x = map_option (\<lambda>i. if x \<in> span_of start bytes then f i else i) (attr m x)"
  proof (cases "bytes = 0")
    case True
    then have "x \<notin> span_of start bytes" by (simp add: span_of_def vr_End_def)
    then show ?thesis using True ok by (simp add: EditUnlocked_def option.map_ident)
  next
    case False
    then show ?thesis using EditUnlocked_spec [OF ok ed] by simp
  qed
  then show "vr_ok (EditUnlocked start bytes edit m)"
    "attr (EditUnlocked start bytes edit m) x = map_option (\<lambda>i. if x \<in> span_of start bytes then f i else i) (attr m x)" by blast+
qed

lemma Protect_spec:
  "vr_ok m \<Longrightarrow> vr_ok (VirtualRanges_Protect start bytes p m)"
  "vr_ok m \<Longrightarrow> attr (VirtualRanges_Protect start bytes p m) x =
    map_option (\<lambda>i. if x \<in> span_of start bytes then i\<lparr>bi_protection := p\<rparr> else i) (attr m x)"
  by (simp_all add: VirtualRanges_Protect_def EditUnlocked_attr [OF _ edits_simps(1)])

lemma SetMemoryType_spec:
  "vr_ok m \<Longrightarrow> vr_ok (VirtualRanges_SetMemoryType start bytes t m)"
  "vr_ok m \<Longrightarrow> attr (VirtualRanges_SetMemoryType start bytes t m) x =
    map_option (\<lambda>i. if x \<in> span_of start bytes then i\<lparr>bi_memory_type := t\<rparr> else i) (attr m x)"
  by (simp_all add: VirtualRanges_SetMemoryType_def EditUnlocked_attr [OF _ edits_simps(2)])

lemma Rename_spec:
  assumes ok: "vr_ok m"
  shows "vr_ok (VirtualRanges_Rename start bytes name m)"
    and "attr (VirtualRanges_Rename start bytes name m) x =
      map_option (\<lambda>i. if x \<in> span_of start bytes then i\<lparr>bi_name := CopyVirtualRangeName name\<rparr> else i) (attr m x)"
proof -
  let ?q = "vr_from start m" and ?e = "\<lambda>r. r\<lparr>vr_name := CopyVirtualRangeName name\<rparr>"
  have "vr_ok (VirtualRanges_Rename start bytes name m) \<and> attr (VirtualRanges_Rename start bytes name m) x =
      map_option (\<lambda>i. if x \<in> span_of start bytes then i\<lparr>bi_name := CopyVirtualRangeName name\<rparr> else i) (attr m x)"
  proof (cases "?q \<noteq> [] \<and> vr_start (hd ?q) = start \<and> vr_size (hd ?q) = bytes")
    case True
    then obtain r q where q: "?q = r # q" by (cases ?q) auto
    have r: "vr_start r = start" "vr_size r = bytes" using True q by auto
    let ?p = "vr_before start m"
    have m: "m = ?p @ r # q" using vr_split [of start m] q by simp
    have ok': "vr_ok (?p @ r # q)" using ok m by simp
    then have f: "range_fits r" by (simp add: vr_ok_append vr_ok_Cons)
    then have sp: "span_of start bytes = vbytes r" "vbytes (?e r) = vbytes r"
      using r span_of_fits [of start bytes] by (auto simp add: range_fits_def vbytes_def)
    have ok2: "vr_ok (?p @ ?e r # q)" using ok' by (simp add: vr_ok_append vr_ok_Cons range_fits_def)
    have res: "VirtualRanges_Rename start bytes name m = MergeAroundUnlocked (length ?p) (?p @ ?e r # q)"
      using True q by (simp add: VirtualRanges_Rename_def)
    have "attr (?p @ ?e r # q) x = map_option (\<lambda>i. if x \<in> span_of start bytes then i\<lparr>bi_name := CopyVirtualRangeName name\<rparr> else i) (attr (?p @ r # q) x)"
    proof (cases "x \<in> vbytes r")
      case True
      then have "attr ?p x = None" using ok' unfolding vr_ok_append by (fastforce simp: attr_None_iff)
      then show ?thesis using True sp by (simp add: attr_append attr_Cons info_def)
    next
      case False
      then show ?thesis unfolding sp attr_append attr_Cons by (simp add: option.map_ident del: mem_vbytes)
    qed
    then have "attr (?p @ ?e r # q) x = map_option (\<lambda>i. if x \<in> span_of start bytes then i\<lparr>bi_name := CopyVirtualRangeName name\<rparr> else i) (attr m x)"
      using m by simp
    then show ?thesis unfolding res using MergeAroundUnlocked_spec [OF ok2] by simp
  next
    case False
    then have "VirtualRanges_Rename start bytes name m = EditUnlocked start bytes ?e m"
      unfolding VirtualRanges_Rename_def by (rule if_not_P)
    then show ?thesis using EditUnlocked_attr [OF ok edits_simps(3)] by simp
  qed
  then show "vr_ok (VirtualRanges_Rename start bytes name m)" "attr (VirtualRanges_Rename start bytes name m) x =
      map_option (\<lambda>i. if x \<in> span_of start bytes then i\<lparr>bi_name := CopyVirtualRangeName name\<rparr> else i) (attr m x)" by blast+
qed

definition all_type :: "VirtualRangeType \<Rightarrow> u64 set \<Rightarrow> vranges \<Rightarrow> bool" where
  "all_type t S m \<longleftrightarrow> (\<forall>x\<in>S. \<exists>i. attr m x = Some i \<and> bi_type i = t)"

lemma find_attr:
  assumes ok: "vr_ok m"
  shows "find (\<lambda>r. vr_type r = t \<and> x \<ge> vr_start r \<and> x < vr_end r) m = None \<longleftrightarrow> \<not> (\<exists>i. attr m x = Some i \<and> bi_type i = t)"
proof -
  have "(vr_type r = t \<and> x \<ge> vr_start r \<and> x < vr_end r) \<longleftrightarrow> x \<in> vbytes r \<and> bi_type (info r x) = t" if "r \<in> set m" for r
    using vr_ok_fits [OF ok that] by (auto simp: info_def)
  then have "find (\<lambda>r. vr_type r = t \<and> x \<ge> vr_start r \<and> x < vr_end r) m = None \<longleftrightarrow> \<not> (\<exists>r\<in>set m. x \<in> vbytes r \<and> bi_type (info r x) = t)"
    unfolding find_None_iff by blast
  also have "\<dots> \<longleftrightarrow> \<not> (\<exists>i. attr m x = Some i \<and> bi_type i = t)"
    unfolding attr_Some_iff [OF ok] by blast
  finally show ?thesis .
qed

lemma all_type_split:
  "current \<le> k \<Longrightarrow> k \<le> end \<Longrightarrow> all_type t {current..<end} m \<longleftrightarrow> all_type t {current..<k} m \<and> all_type t {k..<end} m"
proof -
  assume "current \<le> k" "k \<le> end"
  then have e: "{current..<end} = {current..<k} \<union> {k..<end}" by (simp add: ivl_disj_un_two(3))
  show ?thesis unfolding all_type_def e ball_Un by (rule refl)
qed

lemma all_type_range: "vr_ok m \<Longrightarrow> r \<in> set m \<Longrightarrow> S \<subseteq> vbytes r \<Longrightarrow> all_type (vr_type r) S m"
  using attr_mem unfolding all_type_def by (fastforce simp: info_def)

lemma reserved_span_spec:
  "vr_ok m \<Longrightarrow> reserved_span current end t m \<longleftrightarrow> all_type t {current..<end} m"
proof (induction current "end" t m rule: reserved_span.induct)
  case (1 current "end" t m)
  show ?case
  proof (cases "current < end")
    case True
    show ?thesis
    proof (cases "find (\<lambda>r. vr_type r = t \<and> current \<ge> vr_start r \<and> current < vr_end r) m")
      case None
      then have "\<not> all_type t {current..<end} m" using find_attr [OF 1(2)] True by (fastforce simp: all_type_def)
      then show ?thesis using None True by (subst reserved_span.simps) simp
    next
      case (Some c)
      then have c: "c \<in> set m" "vr_type c = t" "vr_start c \<le> current" "current < vr_end c"
        by (auto simp: find_Some_iff)
      let ?k = "min end (vr_end c)"
      have k: "current \<le> ?k" "?k \<le> end" using c True by auto
      have "{current..<?k} \<subseteq> vbytes c" using c vr_ok_fits [OF 1(2) c(1)] by auto
      then have "all_type t {current..<?k} m" using all_type_range [OF 1(2) c(1)] c(2) by blast
      then show ?thesis using 1(1) [OF True Some 1(2)] Some True all_type_split [OF k]
        by (subst reserved_span.simps) simp
    qed
  next
    case False
    then show ?thesis by (subst reserved_span.simps) (simp add: all_type_def)
  qed
qed

lemma ConsumeReservedSpan_spec:
  assumes ok: "vr_ok m" and n: "0 < bytes" and run: "VirtualRanges_ConsumeReservedSpan start bytes t m = ((b, first), m')"
  shows "b \<longleftrightarrow> all_type t (span_of start bytes) m" and "vr_ok m'"
    and "attr m' x = (if b \<and> x \<in> span_of start bytes then None else attr m x)"
proof -
  have "(b \<longleftrightarrow> all_type t (span_of start bytes) m) \<and> vr_ok m' \<and>
      attr m' x = (if b \<and> x \<in> span_of start bytes then None else attr m x)"
    using run n ok RemoveUnlocked_spec [OF ok n, of start] MergeUnlocked_spec reserved_span_spec [OF ok]
    by (auto simp: VirtualRanges_ConsumeReservedSpan_def Let_def span_of_def split: if_splits)
  then show "b \<longleftrightarrow> all_type t (span_of start bytes) m" "vr_ok m'"
    "attr m' x = (if b \<and> x \<in> span_of start bytes then None else attr m x)" by blast+
qed

lemma ConsumeReserved_spec:
  assumes ok: "vr_ok m" and fits: "0 < bytes" "start + bytes \<le> UINT64_MAX"
    and run: "VirtualRanges_ConsumeReserved start bytes t m = (b, m')"
  shows "b \<longleftrightarrow> (\<exists>r\<in>set m. vr_type r = t \<and> span_of start bytes \<subseteq> vbytes r)" and "vr_ok m'"
    and "attr m' x = (if b \<and> x \<in> span_of start bytes then None else attr m x)"
proof -
  have e: "vr_End start bytes = start + bytes" using fits by (auto simp: vr_End_def)
  have "(start \<ge> vr_start r \<and> vr_End start bytes \<le> vr_end r) \<longleftrightarrow> span_of start bytes \<subseteq> vbytes r" if "r \<in> set m" for r
  proof -
    have f: "range_fits r" using vr_ok_fits [OF ok that] .
    have "{start..<start + bytes} \<subseteq> {vr_start r..<vr_start r + vr_size r} \<longleftrightarrow> vr_start r \<le> start \<and> start + bytes \<le> vr_start r + vr_size r"
      using fits by (subst ivl_subset) auto
    then show ?thesis using f fits by (simp add: e span_of_fits vbytes_def)
  qed
  then have l: "list_ex (\<lambda>r. vr_type r = t \<and> start \<ge> vr_start r \<and> vr_End start bytes \<le> vr_end r) m
      \<longleftrightarrow> (\<exists>r\<in>set m. vr_type r = t \<and> span_of start bytes \<subseteq> vbytes r)"
    unfolding list_ex_iff by blast
  have "(b \<longleftrightarrow> (\<exists>r\<in>set m. vr_type r = t \<and> span_of start bytes \<subseteq> vbytes r)) \<and> vr_ok m' \<and>
      attr m' x = (if b \<and> x \<in> span_of start bytes then None else attr m x)"
  proof (cases "\<exists>r\<in>set m. vr_type r = t \<and> span_of start bytes \<subseteq> vbytes r")
    case True
    then have "(b, m') = (True, MergeUnlocked (snd (RemoveUnlocked start bytes m)))"
      using run unfolding VirtualRanges_ConsumeReserved_def l by (simp only: if_True)
    then have "b" "m' = MergeUnlocked (snd (RemoveUnlocked start bytes m))" by simp_all
    then show ?thesis using True RemoveUnlocked_spec [OF ok fits(1), of start] MergeUnlocked_spec by simp
  next
    case False
    then have "(b, m') = (False, m)"
      using run unfolding VirtualRanges_ConsumeReserved_def l by (simp only: if_False)
    then have "\<not> b" "m' = m" by simp_all
    with False ok show ?thesis by (simp only: simp_thms if_False)
  qed
  then show "b \<longleftrightarrow> (\<exists>r\<in>set m. vr_type r = t \<and> span_of start bytes \<subseteq> vbytes r)" "vr_ok m'"
    "attr m' x = (if b \<and> x \<in> span_of start bytes then None else attr m x)" by blast+
qed

lemma release_reserved_subseq: "set (release_reserved start bytes m) \<subseteq> set m"
  by (induction m) auto

lemma release_reserved_spec:
  assumes "vr_ok m" and "0 < bytes" and "start + bytes \<le> UINT64_MAX"
  shows "vr_ok (release_reserved start bytes m)"
    and "attr (release_reserved start bytes m) x =
      (if (\<exists>r\<in>set m. vr_start r = start \<and> vr_size r = bytes \<and> IsReservedRangeType (vr_type r)) \<and> x \<in> span_of start bytes
       then None else attr m x)"
proof -
  have sp: "span_of start bytes = {start..<start + bytes}" using span_of_fits assms(3) .
  show "vr_ok (release_reserved start bytes m)"
    using assms(1)
  proof (induction m)
    case (Cons r m)
    have "s \<in> set m" if "s \<in> set (release_reserved start bytes m)" for s
      using that release_reserved_subseq by blast
    then show ?case using Cons by (auto simp: vr_ok_Cons)
  qed simp
  show "attr (release_reserved start bytes m) x =
      (if (\<exists>r\<in>set m. vr_start r = start \<and> vr_size r = bytes \<and> IsReservedRangeType (vr_type r)) \<and> x \<in> span_of start bytes
       then None else attr m x)"
    using assms(1)
  proof (induction m)
    case (Cons r m)
    show ?case
    proof (cases "vr_start r = start \<and> vr_size r = bytes \<and> IsReservedRangeType (vr_type r)")
      case True
      have "attr m x = None" if "x \<in> vbytes r"
        using Cons.prems that by (fastforce simp: vr_ok_Cons attr_None_iff)
      moreover have "vbytes r = span_of start bytes" using True by (simp add: sp vbytes_def)
      ultimately show ?thesis using True by (auto simp: attr_Cons simp del: mem_vbytes)
    next
      case False
      have "\<not> (x \<in> vbytes r \<and> x \<in> span_of start bytes)"
        if "s \<in> set m" "vr_start s = start" "vr_size s = bytes" for s
      proof -
        have "vr_start r + vr_size r \<le> start" using Cons.prems that by (auto simp: vr_ok_Cons)
        then show ?thesis by (auto simp: sp)
      qed
      then show ?thesis using Cons False by (auto simp: attr_Cons vr_ok_Cons simp del: mem_vbytes)
    qed
  qed simp
qed

lemma HasOverlap_spec:
  "vr_ok m \<Longrightarrow> 0 < bytes \<Longrightarrow> VirtualRanges_HasOverlap start bytes m \<longleftrightarrow> span_of start bytes \<inter> mapped m \<noteq> {}"
  using FindOverlap_spec [of m bytes start] mapped_iff
  by (fastforce simp: VirtualRanges_HasOverlap_def split: option.splits)

lemma vr_split_ub: "vr_before_ub k m @ vr_from_ub k m = m"
  by (simp add: vr_before_ub_def vr_from_ub_def)

lemma vr_before_ub_le: "r \<in> set (vr_before_ub k m) \<Longrightarrow> vr_start r \<le> k"
  by (auto simp: vr_before_ub_def dest: set_takeWhileD)

lemma vr_from_ub_gt: "vr_ok m \<Longrightarrow> r \<in> set (vr_from_ub k m) \<Longrightarrow> k < vr_start r"
  by (induction m) (fastforce simp: vr_from_ub_def vr_ok_Cons split: if_splits)+

lemma vr_split_ub_ok:
  assumes "vr_ok m"
  shows "vr_ok (vr_before_ub k m)" and "vr_ok (vr_from_ub k m)"
    and "\<forall>r\<in>set (vr_before_ub k m). \<forall>s\<in>set (vr_from_ub k m). vr_start r + vr_size r \<le> vr_start s"
proof -
  have "vr_ok (vr_before_ub k m @ vr_from_ub k m)" using assms by (simp add: vr_split_ub)
  then show "vr_ok (vr_before_ub k m)" "vr_ok (vr_from_ub k m)"
    "\<forall>r\<in>set (vr_before_ub k m). \<forall>s\<in>set (vr_from_ub k m). vr_start r + vr_size r \<le> vr_start s"
    unfolding vr_ok_append by blast+
qed

text \<open>Only the last range that starts at or before an address can hold it.\<close>

lemma holder_is_last:
  assumes ok: "vr_ok m"
  shows "attr m a = (if vr_before_ub a m \<noteq> [] \<and> a < vr_end (last (vr_before_ub a m))
    then Some (info (last (vr_before_ub a m)) a) else None)"
proof -
  let ?p = "vr_before_ub a m" and ?q = "vr_from_ub a m" and ?l = "last (vr_before_ub a m)"
  have set_m: "set m = set ?p \<union> set ?q" using vr_split_ub [of a m] by (metis set_append)
  have no: "r \<in> set ?p \<and> a < vr_start ?l + vr_size ?l" if r: "r \<in> set m" "a \<in> vbytes r" for r
  proof -
    have p: "r \<in> set ?p" using r set_m vr_from_ub_gt [OF ok, of r a] by auto
    then show ?thesis using vr_last_end [OF vr_split_ub_ok(1) [OF ok] p] r by auto
  qed
  show ?thesis
  proof (cases "?p \<noteq> [] \<and> a < vr_end ?l")
    case True
    then have "?l \<in> set ?p" by simp
    then have l: "?l \<in> set m" "vr_start ?l \<le> a" "range_fits ?l"
      using set_m vr_before_ub_le vr_ok_fits [OF vr_split_ub_ok(1) [OF ok]] by auto
    then show ?thesis using True attr_mem [OF ok l(1), of a] by simp
  next
    case False
    have "\<not> (r \<in> set m \<and> a \<in> vbytes r)" for r
    proof
      assume r: "r \<in> set m \<and> a \<in> vbytes r"
      then have "?l \<in> set ?p" using no by (metis empty_iff empty_set last_in_set)
      then have "vr_end ?l = vr_start ?l + vr_size ?l" using vr_ok_fits [OF vr_split_ub_ok(1) [OF ok]] by simp
      then show False using False no r by fastforce
    qed
    then show ?thesis using False attr_None_iff [of m a] by (simp del: mem_vbytes)
  qed
qed

lemma Query_spec:
  assumes ok: "vr_ok m"
  shows "case VirtualRanges_Query a flags m of
      Some r \<Rightarrow> r \<in> set m \<and> (a \<in> vbytes r \<or> flags = 1 \<and> a \<notin> mapped m \<and> a < vr_start r \<and>
          (\<forall>s\<in>set m. a < vr_start s \<longrightarrow> vr_start r \<le> vr_start s))
    | None \<Rightarrow> a \<notin> mapped m \<and> (flags = 1 \<longrightarrow> (\<forall>s\<in>set m. vr_start s < a))"
proof -
  let ?p = "vr_before_ub a m" and ?q = "vr_from_ub a m"
  have set_m: "set m = set ?p \<union> set ?q" using vr_split_ub [of a m] by (metis set_append)
  have h: "a \<notin> mapped m \<longleftrightarrow> \<not> (?p \<noteq> [] \<and> a < vr_end (last ?p))" using holder_is_last [OF ok, of a] by (simp add: mapped_def)
  show ?thesis
  proof (cases "?p \<noteq> [] \<and> a < vr_end (last ?p)")
    case True
    then have l: "last ?p \<in> set ?p" by simp
    then have "range_fits (last ?p)" using vr_ok_fits [OF vr_split_ub_ok(1) [OF ok]] by blast
    then show ?thesis using True set_m l vr_before_ub_le [OF l] by (simp add: VirtualRanges_Query_def)
  next
    case False
    have np: "vr_start s < a" if "s \<in> set ?p" for s
    proof -
      have "vr_start s \<noteq> a"
        using that h False set_m mapped_iff [of a m] vr_ok_fits [OF ok, of s] unfolding range_fits_def by auto
      then show ?thesis using vr_before_ub_le [OF that] by simp
    qed
    show ?thesis
    proof (cases "flags \<noteq> 1 \<or> ?q = []")
      case True
      then show ?thesis using False h np set_m by (auto simp: VirtualRanges_Query_def)
    next
      case q: False
      then have m: "hd ?q \<in> set ?q" by simp
      have "vr_start (hd ?q) \<le> vr_start s" if "s \<in> set m" "a < vr_start s" for s
        using that np set_m vr_hd_start [OF vr_split_ub_ok(2) [OF ok], of s a] by force
      moreover have "VirtualRanges_Query a flags m = Some (hd ?q)" using False q by (auto simp: VirtualRanges_Query_def)
      ultimately show ?thesis using q m False h set_m vr_from_ub_gt [OF ok m] by simp
    qed
  qed
qed

definition committed :: "vranges \<Rightarrow> u64 \<Rightarrow> bool" where
  "committed m x \<longleftrightarrow> (case attr m x of Some i \<Rightarrow> IsCommittedRangeType (bi_type i) | None \<Rightarrow> False)"

lemma clamp_loop_spec:
  assumes "vr_ok m" and "clamped \<le> bytes" and "clamped < bytes \<longrightarrow> (\<forall>r\<in>set m. expected \<le> vr_start r)"
  defines "n \<equiv> clamp_loop bytes clamped expected m"
  shows "clamped \<le> n \<and> n \<le> bytes \<and> (\<forall>x. expected \<le> x \<and> x < expected + (n - clamped) \<longrightarrow> committed m x) \<and>
    (n < bytes \<longrightarrow> \<not> committed m (expected + (n - clamped)))"
  using assms(1-3) unfolding n_def
proof (induction m arbitrary: clamped expected)
  case Nil
  then show ?case by (simp add: committed_def)
next
  case (Cons r m)
  have r: "range_fits r" "\<forall>s\<in>set m. vr_start r + vr_size r \<le> vr_start s" "vr_ok m"
    using Cons.prems(1) by (auto simp: vr_ok_Cons)
  have far: "committed (r # m) x \<longleftrightarrow> committed m x" if "vr_start r + vr_size r \<le> x" for x
    using that by (simp add: committed_def attr_Cons)
  have near: "committed (r # m) x \<longleftrightarrow> IsCommittedRangeType (vr_type r)" if "x \<in> vbytes r" for x
    using that by (simp add: committed_def attr_Cons info_def)
  show ?case
  proof (cases "vr_start r = expected \<and> IsCommittedRangeType (vr_type r) \<and> clamped < bytes")
    case True
    let ?c = "min (bytes - clamped) (vr_size r)"
    let ?n = "clamp_loop bytes (clamped + ?c) (expected + ?c) m"
    have IH: "clamped + ?c \<le> ?n \<and> ?n \<le> bytes \<and>
        (\<forall>x. expected + ?c \<le> x \<and> x < expected + ?c + (?n - (clamped + ?c)) \<longrightarrow> committed m x) \<and>
        (?n < bytes \<longrightarrow> \<not> committed m (expected + ?c + (?n - (clamped + ?c))))"
      by (rule Cons.IH) (use r True in \<open>auto simp: min_def split: if_splits\<close>)
    have e: "clamp_loop bytes clamped expected (r # m) = ?n" using True by (simp add: Let_def)
    have k: "expected + ?c + (?n - (clamped + ?c)) = expected + (?n - clamped)" using IH by simp
    have c: "?c \<le> vr_size r" "?n < bytes \<longrightarrow> ?c = vr_size r" using IH True by (auto simp: min_def)
    have "committed (r # m) x" if x: "expected \<le> x" "x < expected + (?n - clamped)" for x
    proof (cases "x < expected + ?c")
      case True
      then have "x \<in> vbytes r" using x c \<open>vr_start r = expected \<and> _\<close> by auto
      then show ?thesis using near \<open>vr_start r = expected \<and> _\<close> by blast
    next
      case False
      have "?c = vr_size r"
      proof (rule ccontr)
        assume "?c \<noteq> vr_size r"
        then have "clamped + ?c = bytes" using True by (auto simp: min_def)
        then show False using False x IH by linarith
      qed
      then have "committed m x" "vr_start r + vr_size r \<le> x" using IH False x k True by auto
      then show ?thesis using far by blast
    qed
    moreover have "\<not> committed (r # m) (expected + (?n - clamped))" if "?n < bytes"
    proof -
      have "vr_start r + vr_size r \<le> expected + (?n - clamped)" using that c True IH by linarith
      then have "committed (r # m) (expected + (?n - clamped)) \<longleftrightarrow> committed m (expected + (?n - clamped))" by (rule far)
      moreover have "?n < bytes \<longrightarrow> \<not> committed m (expected + ?c + (?n - (clamped + ?c)))" using IH by blast
      ultimately show ?thesis using that unfolding k by blast
    qed
    moreover have "clamped \<le> ?n" "?n \<le> bytes" using IH by simp_all
    ultimately show ?thesis unfolding e by blast
  next
    case False
    then have e: "clamp_loop bytes clamped expected (r # m) = clamped" by (rule if_not_P [OF _, THEN trans [OF clamp_loop.simps(2)]])
    have "\<not> committed (r # m) expected" if lt: "clamped < bytes"
    proof (cases "vr_start r = expected")
      case True
      then have "expected \<in> vbytes r" using r by (auto simp: range_fits_def)
      then show ?thesis using near True False lt by blast
    next
      case ne: False
      then have "\<forall>s\<in>set (r # m). expected < vr_start s" using Cons.prems(3) lt r by (fastforce simp: range_fits_def)
      then have "attr (r # m) expected = None" by (auto simp: attr_None_iff)
      then show ?thesis by (simp add: committed_def)
    qed
    then show ?thesis unfolding e using Cons.prems(2) by auto
  qed
qed

lemma ClampRangeSize_spec:
  assumes ok: "vr_ok m" and fits: "0 < a" "0 < bytes" "a + bytes \<le> UINT64_MAX"
  defines "n \<equiv> VirtualRanges_ClampRangeSize a bytes m"
  shows "n \<le> bytes" and "a \<le> x \<Longrightarrow> x < a + n \<Longrightarrow> committed m x" and "n < bytes \<Longrightarrow> \<not> committed m (a + n)"
proof -
  let ?p = "vr_before_ub a m" and ?q = "vr_from_ub a m" and ?l = "last (vr_before_ub a m)"
  have "n \<le> bytes \<and> (\<forall>x. a \<le> x \<and> x < a + n \<longrightarrow> committed m x) \<and> (n < bytes \<longrightarrow> \<not> committed m (a + n))"
  proof (cases "?p \<noteq> [] \<and> a < vr_end ?l \<and> IsCommittedRangeType (vr_type ?l)")
    case False
    have "n = 0" using False fits unfolding n_def VirtualRanges_ClampRangeSize_def by (auto simp: Let_def)
    moreover have "\<not> committed m a" using False unfolding committed_def holder_is_last [OF ok, of a] by (auto simp: info_def)
    ultimately show ?thesis by auto
  next
    case True
    then have l: "?l \<in> set ?p" by simp
    have le: "vr_start ?l \<le> a" using vr_before_ub_le [OF l] .
    have f: "range_fits ?l" using vr_ok_fits [OF vr_split_ub_ok(1) [OF ok] l] .
    have lm: "?l \<in> set m" using l vr_split_ub [of a m] by (metis Un_iff set_append)
    let ?e = "vr_start ?l + vr_size ?l"
    let ?c = "min bytes (?e - a)"
    have nw: "\<not> UINT64_MAX - a < bytes" using fits by linarith
    have n: "n = clamp_loop bytes ?c (a + ?c) ?q"
      using True fits le f nw unfolding n_def VirtualRanges_ClampRangeSize_def by (simp add: Let_def)
    have ge: "?e \<le> vr_start s" if "s \<in> set ?q" for s using vr_split_ub_ok(3) [OF ok] l that by blast
    have "?c < bytes \<longrightarrow> (\<forall>s\<in>set ?q. a + ?c \<le> vr_start s)"
    proof
      assume "?c < bytes"
      then have "a + ?c = ?e" using le True f by (auto simp: min_def split: if_splits)
      then show "\<forall>s\<in>set ?q. a + ?c \<le> vr_start s" using ge by simp
    qed
    note c = clamp_loop_spec [OF vr_split_ub_ok(2) [OF ok, of a] min.cobounded1 this, folded n]
    have far: "committed m x \<longleftrightarrow> committed ?q x" if "?e \<le> x" for x
    proof -
      have "attr ?p x = None" using vr_last_end [OF vr_split_ub_ok(1) [OF ok]] that
        unfolding attr_None_iff by (fastforce)
      then have "attr m x = attr ?q x" using attr_append [of ?p ?q x] vr_split_ub [of a m] by simp
      then show ?thesis by (simp add: committed_def)
    qed
    have near: "committed m x" if "a \<le> x" "x < ?e" for x
    proof -
      have "x \<in> vbytes ?l" using that le by simp
      then show ?thesis using attr_mem [OF ok lm] True by (simp add: committed_def info_def)
    qed
    have n1: "?c \<le> n" "n \<le> bytes" using c by blast+
    have "committed m x" if x: "a \<le> x" "x < a + n" for x
    proof (cases "x < ?e")
      case False
      then have "a + ?c \<le> x" "x < a + ?c + (n - ?c)" using x n1 by auto
      then have "committed ?q x" using c by blast
      then show ?thesis using far False by simp
    qed (use near x in blast)
    moreover have "\<not> committed m (a + n)" if lt: "n < bytes"
    proof -
      have ce: "a + ?c = ?e" using lt n1 True f by (auto simp: min_def split: if_splits)
      have "\<not> committed ?q (a + ?c + (n - ?c))" using c lt by blast
      moreover have "a + ?c + (n - ?c) = a + n" using n1 by simp
      moreover have "?e \<le> a + n" using ce n1 by linarith
      ultimately show ?thesis using far by metis
    qed
    ultimately show ?thesis using n1 by blast
  qed
  then show "n \<le> bytes" "a \<le> x \<Longrightarrow> x < a + n \<Longrightarrow> committed m x" "n < bytes \<Longrightarrow> \<not> committed m (a + n)" by blast+
qed

lemma query_span_spec:
  assumes "vr_ok m" and "current < end"
  shows "case query_span current end m of
      None \<Rightarrow> \<exists>x\<in>{current..<end}. attr m x = None
    | Some ps \<Rightarrow> {current..<end} \<subseteq> mapped m \<and> attr ps = attr m |` {current..<end} \<and>
        sorted_wrt (\<lambda>x y. vr_start x + vr_size x \<le> vr_start y) ps \<and> (\<forall>r\<in>set ps. current \<le> vr_start r \<and> 0 < vr_size r)"
  using assms
proof (induction m arbitrary: current)
  case Nil
  then show ?case by auto
next
  case (Cons r m)
  have r: "range_fits r" "\<forall>s\<in>set m. vr_start r + vr_size r \<le> vr_start s" "vr_ok m"
    using Cons.prems(1) by (auto simp: vr_ok_Cons)
  let ?e = "vr_start r + vr_size r"
  consider "?e \<le> current" | "current < vr_start r" | "vr_start r \<le> current" "current < ?e" "end \<le> ?e"
    | "vr_start r \<le> current" "current < ?e" "?e < end" by linarith
  then show ?case
  proof cases
    case c: 1
    then have a: "attr (r # m) x = attr m x" if "current \<le> x" for x using that by (simp add: attr_Cons)
    have e: "query_span current end (r # m) = query_span current end m" using c r by simp
    have mp: "{current..<end} \<subseteq> mapped (r # m) \<longleftrightarrow> {current..<end} \<subseteq> mapped m"
      using a by (auto simp: mapped_def)
    have rs: "attr (r # m) |` {current..<end} = attr m |` {current..<end}"
      using a by (auto simp: restrict_map_def)
    have nn: "(\<exists>x\<in>{current..<end}. attr (r # m) x = None) \<longleftrightarrow> (\<exists>x\<in>{current..<end}. attr m x = None)" using a by auto
    then show ?thesis unfolding e mp rs nn using Cons.IH [OF r(3) Cons.prems(2)] by blast
  next
    case c: 2
    then have "attr (r # m) current = None" using r by (auto simp: attr_None_iff)
    moreover have "query_span current end (r # m) = None" using c r by (auto simp: range_fits_def)
    ultimately show ?thesis using Cons.prems(2) by auto
  next
    case c: 3
    let ?part = "r\<lparr>vr_start := current, vr_size := end - current,
               vr_offset := (if vr_type r = Direct then vr_offset r + (current - vr_start r) else vr_offset r)\<rparr>"
    have e: "query_span current end (r # m) = Some [?part]" using c r Cons.prems(2) by (simp add: Let_def min_def)
    have i: "info ?part x = info r x" if "current \<le> x" for x using that c by (simp add: info_def)
    have "attr [?part] = attr (r # m) |` {current..<end}"
      using c i by (auto simp: fun_eq_iff attr_Cons restrict_map_def)
    moreover have "{current..<end} \<subseteq> mapped (r # m)" using c by (auto simp: mapped_iff)
    ultimately show ?thesis unfolding e using Cons.prems(2) by simp
  next
    case c: 4
    let ?part = "r\<lparr>vr_start := current, vr_size := ?e - current,
               vr_offset := (if vr_type r = Direct then vr_offset r + (current - vr_start r) else vr_offset r)\<rparr>"
    have e: "query_span current end (r # m) = map_option ((#) ?part) (query_span ?e end m)"
      using c r Cons.prems(2) by (simp add: Let_def min_def)
    have IH: "case query_span ?e end m of
      None \<Rightarrow> \<exists>x\<in>{?e..<end}. attr m x = None
    | Some ps \<Rightarrow> {?e..<end} \<subseteq> mapped m \<and> attr ps = attr m |` {?e..<end} \<and>
        sorted_wrt (\<lambda>x y. vr_start x + vr_size x \<le> vr_start y) ps \<and> (\<forall>r\<in>set ps. ?e \<le> vr_start r \<and> 0 < vr_size r)"
      using Cons.IH [OF r(3) c(3)] .
    have far: "attr (r # m) x = attr m x" if "?e \<le> x" for x using that by (simp add: attr_Cons)
    show ?thesis
    proof (cases "query_span ?e end m")
      case None
      then obtain x where "x \<in> {?e..<end}" "attr m x = None" using IH by auto
      then have "x \<in> {current..<end}" "attr (r # m) x = None" using far c by auto
      then show ?thesis unfolding e None by auto
    next
      case (Some ps)
      have ps: "{?e..<end} \<subseteq> mapped m" "attr ps = attr m |` {?e..<end}"
        "sorted_wrt (\<lambda>x y. vr_start x + vr_size x \<le> vr_start y) ps" "\<forall>r\<in>set ps. ?e \<le> vr_start r \<and> 0 < vr_size r"
        using IH Some by simp_all
      have i: "info ?part x = info r x" if "current \<le> x" for x using that c by (simp add: info_def)
      have "attr (?part # ps) x = (attr (r # m) |` {current..<end}) x" for x
      proof (cases "x \<in> {current..<?e}")
        case True
        then have "x \<in> vbytes ?part" "x \<in> vbytes r" "x \<in> {current..<end}" using c by auto
        then show ?thesis using i [of x] True by (simp add: attr_Cons del: mem_vbytes)
      next
        case False
        then have "x \<notin> vbytes ?part" using c by auto
        then have "attr (?part # ps) x = (attr m |` {?e..<end}) x" using ps(2) by (simp add: attr_Cons del: mem_vbytes)
        also have "\<dots> = (attr (r # m) |` {current..<end}) x" using False far c by (auto simp: restrict_map_def)
        finally show ?thesis .
      qed
      moreover have "{current..<end} \<subseteq> mapped (r # m)"
      proof
        fix x assume x: "x \<in> {current..<end}"
        show "x \<in> mapped (r # m)"
        proof (cases "x < ?e")
          case True
          then have "x \<in> vbytes r" using x c by auto
          then show ?thesis unfolding mapped_iff by (meson list.set_intros(1))
        next
          case False
          then have "x \<in> mapped m" using ps(1) x by auto
          then show ?thesis unfolding mapped_iff by (meson list.set_intros(2))
        qed
      qed
      ultimately show ?thesis unfolding e Some using ps(3,4) c by (auto simp: fun_eq_iff)
    qed
  qed
qed

lemma CountPageTableEntries_spec:
  assumes "vr_ok m"
  shows "CountPageTableEntries gpu m =
    sum_list (map (\<lambda>r. if IsCommittedRangeType (vr_type r) \<and>
        (if gpu then vr_protection r AND (PROT_GPU_READ OR PROT_GPU_WRITE) \<noteq> 0
         else vr_protection r AND (PROT_CPU_READ OR PROT_CPU_WRITE OR PROT_CPU_EXEC) \<noteq> 0)
      then card ((\<lambda>x. x div PAGE_TABLE_GRANULARITY) ` vbytes r) else 0) m)"
proof -
  let ?f = "\<lambda>r. if IsCommittedRangeType (vr_type r) \<and>
        (if gpu then vr_protection r AND (PROT_GPU_READ OR PROT_GPU_WRITE) \<noteq> 0
         else vr_protection r AND (PROT_CPU_READ OR PROT_CPU_WRITE OR PROT_CPU_EXEC) \<noteq> 0)
      then card ((\<lambda>x. x div PAGE_TABLE_GRANULARITY) ` vbytes r) else 0"
  let ?g = "\<lambda>r used. if \<not> IsCommittedRangeType (vr_type r) \<or> vr_size r = 0 then used
       else
         (let has_cpu_access = vr_protection r AND (PROT_CPU_READ OR PROT_CPU_WRITE OR PROT_CPU_EXEC) \<noteq> 0;
              has_gpu_access = vr_protection r AND (PROT_GPU_READ OR PROT_GPU_WRITE) \<noteq> 0 in
          if (if gpu then \<not> has_gpu_access else \<not> has_cpu_access) then used
          else used + ((vr_end r - 1) div PAGE_TABLE_GRANULARITY - vr_start r div PAGE_TABLE_GRANULARITY + 1))"
  have img: "(\<lambda>x. x div G) ` {a..<b} = {a div G..(b - 1) div G}" if "a < b" "0 < G" for a b G :: nat
  proof
    show "(\<lambda>x. x div G) ` {a..<b} \<subseteq> {a div G..(b - 1) div G}" by (auto intro!: div_le_mono)
    show "{a div G..(b - 1) div G} \<subseteq> (\<lambda>x. x div G) ` {a..<b}"
    proof
      fix y assume y: "y \<in> {a div G..(b - 1) div G}"
      let ?x = "max a (y * G)"
      have "y * G \<le> (b - 1) div G * G" using y by (intro mult_le_mono1) simp
      also have "\<dots> \<le> b - 1" by simp
      finally have lt: "?x < b" using that by auto
      have "a div G \<le> y" using y by simp
      then have "a < Suc y * G" using that by (meson div_less_iff_less_mult le_imp_less_Suc)
      then have "?x div G = y" using that by (auto simp: max_def mult.commute intro!: div_nat_eqI)
      then show "y \<in> (\<lambda>x. x div G) ` {a..<b}" using lt by (intro image_eqI [of _ _ ?x]) auto
    qed
  qed
  have g: "?g r used = used + ?f r" if "range_fits r" for r used
  proof -
    have "card ((\<lambda>x. x div PAGE_TABLE_GRANULARITY) ` vbytes r) =
        (vr_end r - 1) div PAGE_TABLE_GRANULARITY - vr_start r div PAGE_TABLE_GRANULARITY + 1"
      using that img [of "vr_start r" "vr_start r + vr_size r" PAGE_TABLE_GRANULARITY]
      by (simp add: vbytes_def range_fits_def) (rule Suc_diff_le, rule div_le_mono, linarith)
    then show ?thesis using that by (simp add: Let_def range_fits_def del: vr_end_fits)
  qed
  have "\<forall>r\<in>set m. range_fits r \<Longrightarrow> fold ?g m used = used + sum_list (map ?f m)" for used
    by (induction m arbitrary: used) (simp_all only: fold_simps g list.set ball_simps list.map sum_list.Cons sum_list.Nil, simp_all)
  then show ?thesis using assms unfolding CountPageTableEntries_def vr_ok_def by fastforce
qed

section \<open>Histories\<close>

datatype vr_op =
  OpAdd u64 u64 u64 int int VirtualRangeType "string option" bool
| OpRemove u64 u64
| OpConsumeReservedSpan u64 u64 VirtualRangeType
| OpRename u64 u64 "string option"
| OpProtect u64 u64 int
| OpSetMemoryType u64 u64 int
| OpHasOverlap u64 u64
| OpClampRangeSize u64 u64

fun vr_exec :: "vr_op \<Rightarrow> vranges \<Rightarrow> u64 \<times> vranges" where
  "vr_exec (OpAdd start bytes offset p t type name dm) m =
     map_prod of_bool id (VirtualRanges_Add start bytes offset p t type name dm m)"
| "vr_exec (OpRemove start bytes) m = map_prod of_bool id (VirtualRanges_Remove start bytes m)"
| "vr_exec (OpConsumeReservedSpan start bytes type) m =
     map_prod (of_bool \<circ> fst) id (VirtualRanges_ConsumeReservedSpan start bytes type m)"
| "vr_exec (OpRename start bytes name) m = (0, VirtualRanges_Rename start bytes name m)"
| "vr_exec (OpProtect start bytes p) m = (0, VirtualRanges_Protect start bytes p m)"
| "vr_exec (OpSetMemoryType start bytes t) m = (0, VirtualRanges_SetMemoryType start bytes t m)"
| "vr_exec (OpHasOverlap start bytes) m = (of_bool (VirtualRanges_HasOverlap start bytes m), m)"
| "vr_exec (OpClampRangeSize start bytes) m = (VirtualRanges_ClampRangeSize start bytes m, m)"

fun vr_run :: "vr_op list \<Rightarrow> vranges \<Rightarrow> u64 list \<times> vranges" where
  "vr_run [] m = ([], m)"
| "vr_run (op # ops) m = (let (b, m1) = vr_exec op m; (bs, m2) = vr_run ops m1 in (b # bs, m2))"

text \<open>The specification works on what is known of each byte.\<close>

type_synonym byte_view = "u64 \<Rightarrow> byte_info option"

definition update_span :: "u64 \<Rightarrow> u64 \<Rightarrow> (byte_info \<Rightarrow> byte_info) \<Rightarrow> byte_view \<Rightarrow> byte_view" where
  "update_span start bytes f v = (\<lambda>x. if start \<le> x \<and> x < start + bytes then map_option f (v x) else v x)"

definition unmap_span :: "u64 \<Rightarrow> u64 \<Rightarrow> byte_view \<Rightarrow> byte_view" where
  "unmap_span start bytes v = (\<lambda>x. if start \<le> x \<and> x < start + bytes then None else v x)"

definition is_committed :: "byte_info option \<Rightarrow> bool" where
  "is_committed b = (case b of None \<Rightarrow> False | Some i \<Rightarrow> \<not> IsReservedRangeType (bi_type i))"

text \<open>One operation: its result and the view after it.\<close>

fun spec_step :: "vr_op \<Rightarrow> byte_view \<Rightarrow> u64 \<Rightarrow> byte_view \<Rightarrow> bool" where
  "spec_step (OpAdd start bytes offset p t type name dm) v b v' =
     (if \<forall>x. start \<le> x \<and> x < start + bytes \<longrightarrow> v x = None
      then b = 1 \<and> v' = (\<lambda>x. if start \<le> x \<and> x < start + bytes then Some (new_info start offset p t type name dm x) else v x)
      else b = 0 \<and> v' = v)"
| "spec_step (OpRemove start bytes) v b v' =
     (b = of_bool (\<exists>x. start \<le> x \<and> x < start + bytes \<and> v x \<noteq> None) \<and> v' = unmap_span start bytes v)"
| "spec_step (OpConsumeReservedSpan start bytes type) v b v' =
     (if \<forall>x. start \<le> x \<and> x < start + bytes \<longrightarrow> (\<exists>i. v x = Some i \<and> bi_type i = type)
      then b = 1 \<and> v' = unmap_span start bytes v else b = 0 \<and> v' = v)"
| "spec_step (OpRename start bytes name) v b v' =
     (b = 0 \<and> v' = update_span start bytes (\<lambda>i. i\<lparr>bi_name := CopyVirtualRangeName name\<rparr>) v)"
| "spec_step (OpProtect start bytes p) v b v' = (b = 0 \<and> v' = update_span start bytes (\<lambda>i. i\<lparr>bi_protection := p\<rparr>) v)"
| "spec_step (OpSetMemoryType start bytes t) v b v' =
     (b = 0 \<and> v' = update_span start bytes (\<lambda>i. i\<lparr>bi_memory_type := t\<rparr>) v)"
| "spec_step (OpHasOverlap start bytes) v b v' =
     (b = of_bool (\<exists>x. start \<le> x \<and> x < start + bytes \<and> v x \<noteq> None) \<and> v' = v)"
| "spec_step (OpClampRangeSize start bytes) v b v' =
     (b \<le> bytes \<and> (\<forall>x. start \<le> x \<and> x < start + b \<longrightarrow> is_committed (v x)) \<and>
      (b < bytes \<longrightarrow> \<not> is_committed (v (start + b))) \<and> v' = v)"

fun spec_run :: "vr_op list \<Rightarrow> byte_view \<Rightarrow> u64 list \<Rightarrow> byte_view \<Rightarrow> bool" where
  "spec_run [] v bs v' = (bs = [] \<and> v' = v)"
| "spec_run (op # ops) v bs v' =
     (case bs of [] \<Rightarrow> False | b # bs \<Rightarrow> \<exists>v1. spec_step op v b v1 \<and> spec_run ops v1 bs v')"

fun op_fits :: "vr_op \<Rightarrow> bool" where
  "op_fits (OpAdd start bytes offset p t type name dm) = (0 < start \<and> 0 < bytes \<and> start + bytes \<le> UINT64_MAX)"
| "op_fits (OpRemove start bytes) = (0 < start \<and> 0 < bytes \<and> start + bytes \<le> UINT64_MAX)"
| "op_fits (OpConsumeReservedSpan start bytes type) = (0 < start \<and> 0 < bytes \<and> start + bytes \<le> UINT64_MAX)"
| "op_fits (OpRename start bytes name) = (0 < start \<and> 0 < bytes \<and> start + bytes \<le> UINT64_MAX)"
| "op_fits (OpProtect start bytes p) = (0 < start \<and> 0 < bytes \<and> start + bytes \<le> UINT64_MAX)"
| "op_fits (OpSetMemoryType start bytes t) = (0 < start \<and> 0 < bytes \<and> start + bytes \<le> UINT64_MAX)"
| "op_fits (OpHasOverlap start bytes) = (0 < start \<and> 0 < bytes \<and> start + bytes \<le> UINT64_MAX)"
| "op_fits (OpClampRangeSize start bytes) = (0 < start \<and> 0 < bytes \<and> start + bytes \<le> UINT64_MAX)"

lemma attr_update_span:
  assumes "\<And>x. attr m' x = map_option (\<lambda>i. if x \<in> span_of start bytes then f i else i) (attr m x)"
    and "start + bytes \<le> UINT64_MAX"
  shows "attr m' = update_span start bytes f (attr m)"
  using assms by (auto simp: fun_eq_iff update_span_def span_of_fits option.map_ident)

lemma attr_unmap_span:
  assumes "\<And>x. attr m' x = (if x \<in> span_of start bytes then None else attr m x)"
    and "start + bytes \<le> UINT64_MAX"
  shows "attr m' = unmap_span start bytes (attr m)"
  using assms by (auto simp: fun_eq_iff unmap_span_def span_of_fits)

lemma span_meets_mapped:
  "start + bytes \<le> UINT64_MAX \<Longrightarrow> span_of start bytes \<inter> mapped m \<noteq> {} \<longleftrightarrow> (\<exists>x. start \<le> x \<and> x < start + bytes \<and> attr m x \<noteq> None)"
  by (auto simp: span_of_fits mapped_def)

lemma vr_exec_correct:
  assumes ok: "vr_ok m" and fits: "op_fits op" and run: "vr_exec op m = (b, m')"
  shows "vr_ok m' \<and> spec_step op (attr m) b (attr m')"
proof (cases op)
  case (OpAdd start bytes offset p t type name dm)
  obtain c where c: "VirtualRanges_Add start bytes offset p t type name dm m = (c, m')" "b = of_bool c"
    using run OpAdd by (cases "VirtualRanges_Add start bytes offset p t type name dm m") auto
  have f: "0 < start" "0 < bytes" "start + bytes \<le> UINT64_MAX" using fits OpAdd by auto
  note s = VirtualRanges_Add_spec [OF ok f c(1)]
  have n: "c \<longleftrightarrow> (\<forall>x. start \<le> x \<and> x < start + bytes \<longrightarrow> attr m x = None)"
    unfolding s(1) by (auto simp: mapped_def)
  show ?thesis
  proof (cases c)
    case True
    have "attr m' = (\<lambda>x. if start \<le> x \<and> x < start + bytes then Some (new_info start offset p t type name dm x) else attr m x)"
      using s(3) True by (intro ext) simp
    then show ?thesis using n True s(2) c(2) OpAdd by simp
  next
    case False
    have "attr m' = attr m" using s(3) False by (intro ext) simp
    then show ?thesis using n False s(2) c(2) OpAdd by auto
  qed
next
  case (OpRemove start bytes)
  obtain c where c: "VirtualRanges_Remove start bytes m = (c, m')" "b = of_bool c"
    using run OpRemove by (cases "VirtualRanges_Remove start bytes m") auto
  have f: "0 < bytes" "start + bytes \<le> UINT64_MAX" using fits OpRemove by auto
  note s = VirtualRanges_Remove_spec [OF ok f(1) c(1)]
  show ?thesis using s(1) attr_unmap_span [OF s(2) f(2)] s(3) span_meets_mapped [OF f(2), of m] c(2) OpRemove by simp
next
  case (OpConsumeReservedSpan start bytes type)
  obtain c r where c: "VirtualRanges_ConsumeReservedSpan start bytes type m = ((c, r), m')" "b = of_bool c"
    using run OpConsumeReservedSpan by (cases "VirtualRanges_ConsumeReservedSpan start bytes type m") auto
  have f: "0 < bytes" "start + bytes \<le> UINT64_MAX" using fits OpConsumeReservedSpan by auto
  note s = ConsumeReservedSpan_spec [OF ok f(1) c(1)]
  have n: "c \<longleftrightarrow> (\<forall>x. start \<le> x \<and> x < start + bytes \<longrightarrow> (\<exists>i. attr m x = Some i \<and> bi_type i = type))"
    unfolding s(1) by (auto simp: all_type_def span_of_fits [OF f(2)])
  show ?thesis
  proof (cases c)
    case True
    have "attr m' = unmap_span start bytes (attr m)" using attr_unmap_span [OF _ f(2)] s(3) True by simp
    then show ?thesis using n True s(2) c(2) OpConsumeReservedSpan by simp
  next
    case False
    have "attr m' = attr m" using s(3) False by (intro ext) simp
    then show ?thesis using n False s(2) c(2) OpConsumeReservedSpan by auto
  qed
next
  case (OpRename start bytes name)
  then show ?thesis using run fits Rename_spec(1) [OF ok] attr_update_span [OF Rename_spec(2) [OF ok]] by auto
next
  case (OpProtect start bytes p)
  then show ?thesis using run fits Protect_spec(1) [OF ok] attr_update_span [OF Protect_spec(2) [OF ok]] by auto
next
  case (OpSetMemoryType start bytes t)
  then show ?thesis using run fits SetMemoryType_spec(1) [OF ok] attr_update_span [OF SetMemoryType_spec(2) [OF ok]] by auto
next
  case (OpHasOverlap start bytes)
  then show ?thesis using run fits ok HasOverlap_spec [OF ok] span_meets_mapped [of start bytes m] by auto
next
  case (OpClampRangeSize start bytes)
  have c: "is_committed (attr m x) \<longleftrightarrow> committed m x" for x
    by (simp add: is_committed_def committed_def IsCommittedRangeType_def split: option.split)
  have f: "0 < start" "0 < bytes" "start + bytes \<le> UINT64_MAX" using fits OpClampRangeSize by auto
  have r: "b = VirtualRanges_ClampRangeSize start bytes m" "m' = m" using run OpClampRangeSize by auto
  show ?thesis unfolding OpClampRangeSize r spec_step.simps c using ok ClampRangeSize_spec [OF ok f] by blast
qed

lemma vr_run_correct:
  "vr_ok m \<Longrightarrow> list_all op_fits ops \<Longrightarrow> vr_run ops m = (bs, m') \<Longrightarrow> vr_ok m' \<and> spec_run ops (attr m) bs (attr m')"
proof (induction ops arbitrary: m bs m')
  case (Cons op ops)
  obtain b m1 where e: "vr_exec op m = (b, m1)" by fastforce
  obtain bs1 m2 where r: "vr_run ops m1 = (bs1, m2)" by fastforce
  have res: "bs = b # bs1" "m' = m2" using Cons.prems(3) e r by auto
  have "vr_ok m1 \<and> spec_step op (attr m) b (attr m1)" using vr_exec_correct [OF Cons.prems(1) _ e] Cons.prems(2) by simp
  moreover from this have "vr_ok m2 \<and> spec_run ops (attr m1) bs1 (attr m2)" using Cons.IH [OF _ _ r] Cons.prems(2) by simp
  ultimately show ?case unfolding res by auto
qed simp

section \<open>Properties\<close>

text \<open>
  C5: Every history of table operations, from the empty table, keeps the table sorted, disjoint and
  inside the address space, and refines the table of bytes: every result (did the range overlap,
  was anything removed, were all bytes reserved, how long is the committed prefix) and the final
  attributes of every byte are those of the specification, whatever way the ranges were cut
  and merged.
\<close>

theorem virtual_ranges_refine:
  assumes "list_all op_fits ops" and "vr_run ops [] = (bs, m)"
  shows "vr_ok m \<and> spec_run ops (\<lambda>x. None) bs (attr m)"
proof -
  have "attr [] = (\<lambda>x. None)" by (simp add: fun_eq_iff)
  then show ?thesis using vr_run_correct [OF vr_ok_Nil assms] by simp
qed

abbreviation vr_example :: "vr_op list" where
  "vr_example \<equiv> [OpAdd 65536 65536 0 3 0 Flexible (Some ''heap'') False, OpAdd 131072 65536 0 3 0 Flexible (Some ''heap'') False,
     OpProtect 81920 16384 1, OpClampRangeSize 81920 1048576, OpAdd 98304 16384 0 3 0 Reserved None False, OpRemove 98304 16384]"

lemma virtual_ranges_refine_witness:
  "vr_run vr_example [] = (fst (vr_run vr_example []), snd (vr_run vr_example [])) \<and>
   fst (vr_run vr_example []) = [1, 1, 0, 114688, 0, 1] \<and> length (snd (vr_run vr_example [])) = 3 \<and>
   vr_ok (snd (vr_run vr_example [])) \<and> spec_run vr_example (\<lambda>x. None) (fst (vr_run vr_example [])) (attr (snd (vr_run vr_example [])))"
proof -
  have e: "vr_run vr_example [] = (fst (vr_run vr_example []), snd (vr_run vr_example []))" by simp
  have "list_all op_fits vr_example" by simp
  note r = virtual_ranges_refine [OF this e]
  have v: "fst (vr_run vr_example []) = [1, 1, 0, 114688, 0, 1] \<and> length (snd (vr_run vr_example [])) = 3"
    by (simp add: VirtualRanges_Add_def vr_from_def vr_before_def MergeAroundUnlocked_def VirtualRangesOverlap_def vr_End_def
      SameMergeKey_def CopyVirtualRangeName_def VirtualRanges_Protect_def EditUnlocked_def edit_pieces_def AddPiece_def MergeUnlocked_def
      VirtualRanges_ClampRangeSize_def vr_before_ub_def vr_from_ub_def IsCommittedRangeType_def IsReservedRangeType_def
      VirtualRanges_Remove_def RemoveUnlocked_def remove_pieces_def Let_def)
  show ?thesis using e r v by blast
qed

text \<open>
  \<open>QuerySpan\<close> succeeds exactly when every byte of the span is mapped; the parts it returns are
  sorted, disjoint and non-empty, lie in the span, cover it, and say of every byte what the table
  says of it (for direct memory, the same physical byte).
\<close>

lemma query_span_exact:
  assumes "vr_ok m" and "0 < start" and "0 < bytes" and "start + bytes \<le> UINT64_MAX"
  shows "case VirtualRanges_QuerySpan start bytes m of
      None \<Rightarrow> \<not> {start..<start + bytes} \<subseteq> mapped m
    | Some ps \<Rightarrow> {start..<start + bytes} \<subseteq> mapped m \<and> attr ps = attr m |` {start..<start + bytes} \<and>
        sorted_wrt (\<lambda>x y. vr_start x + vr_size x \<le> vr_start y) ps \<and> (\<forall>r\<in>set ps. start \<le> vr_start r \<and> 0 < vr_size r)"
proof -
  have "VirtualRanges_QuerySpan start bytes m = query_span start (start + bytes) m"
    using assms by (auto simp: VirtualRanges_QuerySpan_def)
  then show ?thesis using query_span_spec [OF assms(1), of start "start + bytes"] assms(3)
    by (auto simp: mapped_def split: option.splits)
qed

abbreviation vr_two :: vranges where
  "vr_two \<equiv> [\<lparr>vr_start = 65536, vr_size = 65536, vr_offset = 16384, vr_protection = 3, vr_memory_type = 0, vr_type = Direct,
      vr_disallow_merge = False, vr_name = []\<rparr>,
    \<lparr>vr_start = 131072, vr_size = 65536, vr_offset = 0, vr_protection = 3, vr_memory_type = 0, vr_type = Flexible,
      vr_disallow_merge = False, vr_name = []\<rparr>]"

lemma query_span_exact_witness:
  "vr_ok vr_two \<and> map_option (map (\<lambda>r. (vr_start r, vr_size r, vr_offset r))) (VirtualRanges_QuerySpan 81920 65536 vr_two)
     = Some [(81920, 49152, 32768), (131072, 16384, 0)] \<and> {81920..<147456} \<subseteq> mapped vr_two"
proof -
  have ok: "vr_ok vr_two" by (simp add: vr_ok_def range_fits_def)
  have v: "map_option (map (\<lambda>r. (vr_start r, vr_size r, vr_offset r))) (VirtualRanges_QuerySpan 81920 65536 vr_two)
     = Some [(81920, 49152, 32768), (131072, 16384, 0)]"
    by (simp add: VirtualRanges_QuerySpan_def vr_End_def Let_def)
  have "{81920..<81920 + 65536} \<subseteq> mapped vr_two"
    using query_span_exact [OF ok, of 81920 65536] v by (cases "VirtualRanges_QuerySpan 81920 65536 vr_two") simp_all
  then show ?thesis using ok v by simp
qed

definition mode_reads :: "mode \<Rightarrow> bool" where
  "mode_reads m \<longleftrightarrow> m = Read \<or> m = ReadWrite \<or> m = ExecuteRead \<or> m = ExecuteReadWrite"

definition mode_writes :: "mode \<Rightarrow> bool" where
  "mode_writes m \<longleftrightarrow> m = Write \<or> m = ReadWrite \<or> m = ExecuteWrite \<or> m = ExecuteReadWrite"

definition mode_executes :: "mode \<Rightarrow> bool" where
  "mode_executes m \<longleftrightarrow> m = Execute \<or> m = ExecuteRead \<or> m = ExecuteWrite \<or> m = ExecuteReadWrite"

text \<open>
  \<open>DecodeMemoryProtection\<close> rejects exactly the non-zero flags with no CPU or GPU bit; otherwise
  the host may execute iff the CPU may, write iff the CPU or the GPU may write, and read iff either
  may read or write; and the GPU mode is exactly the two GPU bits.
\<close>

lemma decode_protection_exact:
  "case DecodeMemoryProtection prot of
     None \<Rightarrow> prot \<noteq> 0 \<and> prot AND 55 = 0
   | Some (m, g) \<Rightarrow> (prot = 0 \<or> prot AND 55 \<noteq> 0) \<and>
      (mode_executes m \<longleftrightarrow> prot AND 4 \<noteq> 0) \<and> (mode_writes m \<longleftrightarrow> prot AND 2 \<noteq> 0 \<or> prot AND 32 \<noteq> 0) \<and>
      (mode_reads m \<longleftrightarrow> prot AND 1 \<noteq> 0 \<or> prot AND 2 \<noteq> 0 \<or> prot AND 16 \<noteq> 0 \<or> prot AND 32 \<noteq> 0) \<and>
      (g = GpuRead \<or> g = GpuReadWrite \<longleftrightarrow> prot AND 16 \<noteq> 0) \<and> (g = GpuWrite \<or> g = GpuReadWrite \<longleftrightarrow> prot AND 32 \<noteq> 0)"
proof -
  have "(1 OR 2 OR 4 OR 16 OR 32 :: int) = 55" by simp
  then show ?thesis
    by (auto simp: DecodeMemoryProtection_def Let_def mode_reads_def mode_writes_def mode_executes_def)
qed

lemma CopyVirtualRangeName_bounded:
  "length (CopyVirtualRangeName name) < 32 \<and> CHR 0x00 \<notin> set (CopyVirtualRangeName name)"
  by (auto simp: CopyVirtualRangeName_def split: option.split dest!: in_set_takeD set_takeWhileD)

lemma decode_protection_exact_witness:
  "case DecodeMemoryProtection 19 of None \<Rightarrow> False
   | Some (m, g) \<Rightarrow> mode_writes m \<and> \<not> mode_executes m \<and> (g = GpuRead \<or> g = GpuReadWrite)"
proof -
  have "DecodeMemoryProtection 19 \<noteq> None" by (simp add: DecodeMemoryProtection_def Let_def)
  then show ?thesis using decode_protection_exact [of 19] by (auto split: option.splits)
qed

end
