(* ===== verification/FreeList.thy ===== *)
theory FreeList
  imports ByteStore
begin

text \<open>
  The free lists of \<open>PhysicalMemory\<close> and \<open>FlexibleMemory\<close> (src/src/kernel/memory.cpp): a
  \<open>std::map\<close> from the start of each free range to its size. \<open>AddFreeRange\<close> coalesces, so the
  list stays sorted with a gap between any two ranges, and both functions are the set operations
  on the free bytes. \<open>FlexibleMemory\<close> has its own copy of both functions, which is the same
  function.

  The addresses are offsets into the guest's physical memory (less than 14 GiB), so no sum wraps.
\<close>

text \<open>\<open>ConsumeFreeRange\<close> takes the iterator of the range it cuts: its key and its size.\<close>

definition ConsumeFreeRange :: "u64 \<times> u64 \<Rightarrow> u64 \<Rightarrow> u64 \<Rightarrow> u64 smap \<Rightarrow> u64 smap" where
  "ConsumeFreeRange rng start bytes m =
     (let range_start = fst rng; range_end = fst rng + snd rng;
          m1 = erase_key range_start m;
          m2 = (if range_start < start then emplace range_start (start - range_start) m1 else m1) in
      if start + bytes < range_end then emplace (start + bytes) (range_end - start - bytes) m2 else m2)"

fun absorb_free :: "u64 \<Rightarrow> u64 smap \<Rightarrow> u64 \<times> u64 smap" where
  "absorb_free end [] = (end, [])"
| "absorb_free end ((s, n) # m) = (if s \<le> end then absorb_free (max end (s + n)) m else (end, (s, n) # m))"

definition AddFreeRange :: "u64 \<Rightarrow> u64 \<Rightarrow> u64 smap \<Rightarrow> u64 smap" where
  "AddFreeRange start bytes m =
     (let pre = before_lb start m;
          joins = pre \<noteq> [] \<and> fst (last pre) + snd (last pre) \<ge> start;
          begin = (if joins then fst (last pre) else start);
          end = (if joins then max (start + bytes) (fst (last pre) + snd (last pre)) else start + bytes);
          (fin, rest) = absorb_free end (from_lb start m) in
      emplace begin (fin - begin) ((if joins then butlast pre else pre) @ rest))"

definition Flexible_ConsumeFreeRange :: "u64 \<times> u64 \<Rightarrow> u64 \<Rightarrow> u64 \<Rightarrow> u64 smap \<Rightarrow> u64 smap" where
  "Flexible_ConsumeFreeRange rng start bytes m =
     (let range_start = fst rng; range_end = fst rng + snd rng;
          m1 = erase_key range_start m;
          m2 = (if range_start < start then emplace range_start (start - range_start) m1 else m1) in
      if start + bytes < range_end then emplace (start + bytes) (range_end - start - bytes) m2 else m2)"

definition Flexible_AddFreeRange :: "u64 \<Rightarrow> u64 \<Rightarrow> u64 smap \<Rightarrow> u64 smap" where
  "Flexible_AddFreeRange start bytes m =
     (let pre = before_lb start m;
          joins = pre \<noteq> [] \<and> fst (last pre) + snd (last pre) \<ge> start;
          begin = (if joins then fst (last pre) else start);
          end = (if joins then max (start + bytes) (fst (last pre) + snd (last pre)) else start + bytes);
          (fin, rest) = absorb_free end (from_lb start m) in
      emplace begin (fin - begin) ((if joins then butlast pre else pre) @ rest))"

lemma Flexible_free_list [simp]:
  "Flexible_ConsumeFreeRange = ConsumeFreeRange" "Flexible_AddFreeRange = AddFreeRange"
  by (simp_all add: fun_eq_iff Flexible_ConsumeFreeRange_def ConsumeFreeRange_def Flexible_AddFreeRange_def AddFreeRange_def)

text \<open>The same ranges by their ends, the representation of \<open>ivs_ok\<close> and \<open>ivs_cover\<close>.\<close>

definition ends :: "u64 smap \<Rightarrow> u64 smap" where
  "ends m = map (\<lambda>e. (fst e, fst e + snd e)) m"

definition fl_ok :: "u64 smap \<Rightarrow> bool" where
  "fl_ok m \<longleftrightarrow> ivs_ok (ends m)"

definition fl_bytes :: "u64 smap \<Rightarrow> u64 set" where
  "fl_bytes m = ivs_cover (ends m)"

lemma fl_ok_Nil [simp]: "fl_ok []"
  by (simp add: fl_ok_def ends_def)

lemma fl_ok_Cons: "fl_ok (e # m) \<longleftrightarrow> 0 < snd e \<and> (\<forall>x\<in>set m. fst e + snd e < fst x) \<and> fl_ok m"
  by (auto simp: fl_ok_def ends_def ivs_ok_Cons)

lemma fl_ok_append:
  "fl_ok (m @ n) \<longleftrightarrow> fl_ok m \<and> fl_ok n \<and> (\<forall>x\<in>set m. \<forall>y\<in>set n. fst x + snd x < fst y)"
  by (auto simp: fl_ok_def ends_def ivs_ok_append)

lemma fl_bytes_simps [simp]:
  "fl_bytes [] = {}" "fl_bytes (e # m) = {fst e..<fst e + snd e} \<union> fl_bytes m" "fl_bytes (m @ n) = fl_bytes m \<union> fl_bytes n"
  by (simp_all add: fl_bytes_def ends_def)

lemma mem_fl_bytes: "x \<in> fl_bytes m \<longleftrightarrow> (\<exists>e\<in>set m. fst e \<le> x \<and> x < fst e + snd e)"
  by (auto simp: fl_bytes_def ends_def mem_ivs_cover)

lemma fl_ok_smap_ok: "fl_ok m \<Longrightarrow> smap_ok m"
  by (induction m) (fastforce simp: fl_ok_Cons smap_ok_Cons)+

lemma fl_ok_pos: "fl_ok m \<Longrightarrow> e \<in> set m \<Longrightarrow> 0 < snd e"
  by (induction m) (auto simp: fl_ok_Cons)

lemma fl_finite [simp]: "finite (fl_bytes m)"
  by (induction m) auto

lemma emplace_first: "\<forall>e\<in>set m. k < fst e \<Longrightarrow> emplace k v m = (k, v) # m"
  using emplace_between [of "[]" k m v] by simp

lemma erase_key_split:
  "smap_ok (p @ (k, v) # q) \<Longrightarrow> erase_key k (p @ (k, v) # q) = p @ q"
proof -
  assume ok: "smap_ok (p @ (k, v) # q)"
  have "filter (\<lambda>e. fst e \<noteq> k) p = p" "filter (\<lambda>e. fst e \<noteq> k) q = q"
    unfolding filter_id_conv using ok by (auto simp: smap_ok_append smap_ok_Cons)
  then show ?thesis by (simp add: erase_key_def)
qed

lemma ConsumeFreeRange_split:
  assumes ok: "fl_ok (p @ (k, n) # q)" and s: "k \<le> s" "0 < b" "s + b \<le> k + n"
  shows "ConsumeFreeRange (k, n) s b (p @ (k, n) # q) =
    p @ (if k < s then [(k, s - k)] else []) @ (if s + b < k + n then [(s + b, k + n - s - b)] else []) @ q"
proof -
  let ?l = "if k < s then [(k, s - k)] else []"
  have e: "erase_key k (p @ (k, n) # q) = p @ q" using erase_key_split fl_ok_smap_ok [OF ok] .
  have p: "\<forall>e\<in>set p. fst e < k" and q: "\<forall>e\<in>set q. k + n < fst e"
    using ok fl_ok_pos [of p] by (fastforce simp: fl_ok_append fl_ok_Cons)+
  have "(if k < s then emplace k (s - k) (p @ q) else p @ q) = (p @ ?l) @ q"
    using emplace_between [of p k q "s - k"] p q by fastforce
  moreover have "emplace (s + b) (k + n - s - b) ((p @ ?l) @ q) = (p @ ?l) @ (s + b, k + n - s - b) # q"
    by (rule emplace_between) (use p q s in fastforce)+
  ultimately show ?thesis unfolding ConsumeFreeRange_def Let_def fst_conv snd_conv e by simp
qed

lemma ConsumeFreeRange_spec:
  assumes ok: "fl_ok m" and e: "(k, n) \<in> set m" and s: "k \<le> s" "0 < b" "s + b \<le> k + n"
  shows "fl_ok (ConsumeFreeRange (k, n) s b m)" and "fl_bytes (ConsumeFreeRange (k, n) s b m) = fl_bytes m - {s..<s + b}"
proof -
  obtain p q where m: "m = p @ (k, n) # q" using e by (auto simp: in_set_conv_decomp)
  have okm: "fl_ok (p @ (k, n) # q)" using ok m by simp
  note c = ConsumeFreeRange_split [OF okm s]
  have parts: "fl_ok p" "fl_ok q" "\<forall>x\<in>set p. fst x + snd x < k" "\<forall>y\<in>set q. k + n < fst y" "\<forall>x\<in>set p. \<forall>y\<in>set q. fst x + snd x < fst y"
    using okm by (auto simp: fl_ok_append fl_ok_Cons)
  show "fl_ok (ConsumeFreeRange (k, n) s b m)"
    unfolding m c using parts s by (fastforce simp: fl_ok_append fl_ok_Cons)
  have "{s..<s + b} \<inter> fl_bytes p = {}" "{s..<s + b} \<inter> fl_bytes q = {}"
    using parts s by (fastforce simp: mem_fl_bytes)+
  moreover have "{k..<k + n} - {s..<s + b} = fl_bytes (if k < s then [(k, s - k)] else []) \<union> fl_bytes (if s + b < k + n then [(s + b, k + n - s - b)] else [])"
    using s by auto
  ultimately show "fl_bytes (ConsumeFreeRange (k, n) s b m) = fl_bytes m - {s..<s + b}"
    unfolding m c by (auto simp del: atLeastLessThan_iff split del: if_split)
qed

lemma absorb_free_ends:
  "absorb b l (ends m) = (b', l', r') \<Longrightarrow> \<forall>e\<in>set m. b \<le> fst e \<Longrightarrow>
    b' = b \<and> (\<exists>r. absorb_free l m = (l', r) \<and> r' = ends r)"
proof (induction l m rule: absorb_free.induct)
  case (2 l s n m)
  then show ?case by (auto simp: ends_def min_def split: if_splits)
qed (auto simp: ends_def)

lemma AddFreeRange_spec:
  assumes ok: "fl_ok m" and n: "0 < bytes"
  shows "fl_ok (AddFreeRange start bytes m)" and "fl_bytes (AddFreeRange start bytes m) = fl_bytes m \<union> {start..<start + bytes}"
proof -
  let ?pre = "before_lb start m" and ?it = "from_lb start m"
  define joins where "joins = (?pre \<noteq> [] \<and> fst (last ?pre) + snd (last ?pre) \<ge> start)"
  define b where "b = (if joins then fst (last ?pre) else start)"
  define e where "e = (if joins then max (start + bytes) (fst (last ?pre) + snd (last ?pre)) else start + bytes)"
  define p where "p = (if joins then butlast ?pre else ?pre)"
  have m: "m = ?pre @ ?it" by (simp add: lb_split)
  have okp: "fl_ok ?pre" "fl_ok ?it" "\<forall>x\<in>set ?pre. \<forall>y\<in>set ?it. fst x + snd x < fst y"
    using ok m fl_ok_append by metis+
  have lt: "\<forall>x\<in>set ?pre. fst x < start" by (auto dest: before_lb_less)
  have ge: "\<forall>y\<in>set ?it. start \<le> fst y" using from_lb_ge [OF fl_ok_smap_ok [OF ok]] by blast
  have jl: "?pre = p @ [last ?pre]" if joins using that by (simp add: p_def joins_def)
  have lastin: "last ?pre \<in> set ?pre" if joins using that by (simp add: joins_def)
  have lf: "fst (last ?pre) < start" if joins using lt lastin [OF that] by blast
  have be: "b \<le> start" "b < e" "start + bytes \<le> e"
    using lf n by (cases joins; auto simp: b_def e_def less_max_iff_disj)+
  have okp': "fl_ok p" "\<forall>x\<in>set p. fst x + snd x < b"
  proof -
    have "fl_ok p \<and> (\<forall>x\<in>set p. fst x + snd x < b)"
    proof (cases joins)
      case True
      have "fl_ok (p @ [last ?pre])" using okp(1) jl [OF True] by simp
      then show ?thesis using True by (simp add: fl_ok_append b_def)
    next
      case False
      have pp: "p = ?pre" using False by (simp add: p_def)
      have "fst x + snd x < start" if x: "x \<in> set ?pre" for x
      proof -
        have ne: "?pre \<noteq> []" using x by auto
        then have sp: "?pre = butlast ?pre @ [last ?pre]" by simp
        have l: "fst (last ?pre) + snd (last ?pre) < start" using False ne by (simp add: joins_def)
        have "fl_ok (butlast ?pre @ [last ?pre])" using okp(1) sp by simp
        then have "x \<in> set (butlast ?pre) \<Longrightarrow> fst x + snd x < fst (last ?pre)" by (simp add: fl_ok_append)
        then show ?thesis using l in_set_butlast_or_last [OF x] by auto
      qed
      then show ?thesis using okp(1) False by (simp add: pp b_def)
    qed
    then show "fl_ok p" "\<forall>x\<in>set p. fst x + snd x < b" by blast+
  qed
  obtain b' l' r' where ab: "absorb b e (ends ?it) = (b', l', r')" by (cases "absorb b e (ends ?it)") auto
  have bge: "\<forall>x\<in>set ?it. b \<le> fst x" using ge be by auto
  obtain r where r: "b' = b" "absorb_free e ?it = (l', r)" "r' = ends r" using absorb_free_ends [OF ab bge] by blast
  have "\<forall>x\<in>set (ends ?it). b \<le> snd x" using bge by (auto simp: ends_def)
  note abs = absorb_spec [OF ab _ be(2) this, folded fl_ok_def, OF okp(2), unfolded r(1,3), folded fl_ok_def fl_bytes_def]
  have rl: "\<forall>x\<in>set r. l' < fst x" using abs(6) by (auto simp: ends_def)
  have keys: "\<forall>x\<in>set p. fst x < b" "\<forall>x\<in>set r. b < fst x" using okp'(2) rl abs(1) by fastforce+
  have res: "AddFreeRange start bytes m = p @ (b, l' - b) # r"
    using emplace_between [OF keys, of "l' - b"] r(2)
    unfolding AddFreeRange_def Let_def joins_def [symmetric] b_def [symmetric] e_def [symmetric] p_def [symmetric] by simp
  show "fl_ok (AddFreeRange start bytes m)"
    unfolding res using okp' abs(1,5) rl by (fastforce simp: fl_ok_append fl_ok_Cons)
  have "fl_bytes ?pre \<union> {start..<start + bytes} = fl_bytes p \<union> {b..<e}"
  proof (cases joins)
    case True
    have "fl_bytes ?pre = fl_bytes p \<union> {fst (last ?pre)..<fst (last ?pre) + snd (last ?pre)}"
      using jl [OF True] by (metis fl_bytes_simps(1,2,3) sup_bot_right)
    moreover have "{fst (last ?pre)..<fst (last ?pre) + snd (last ?pre)} \<union> {start..<start + bytes} = {b..<e}"
      using True lf [OF True] n by (auto simp: b_def e_def joins_def less_max_iff_disj)
    ultimately show ?thesis by blast
  next
    case False
    then show ?thesis by (simp add: p_def b_def e_def)
  qed
  moreover have "fl_bytes m = fl_bytes ?pre \<union> fl_bytes ?it" using m fl_bytes_simps(3) by metis
  moreover have "b + (l' - b) = l'" using abs(1) by simp
  ultimately show "fl_bytes (AddFreeRange start bytes m) = fl_bytes m \<union> {start..<start + bytes}"
    unfolding res fl_bytes_simps fst_conv snd_conv using abs(4) by auto
qed

text \<open>Coalesced lists are canonical: the bytes determine the list.\<close>

lemma fl_canonical: "fl_ok m \<Longrightarrow> fl_ok n \<Longrightarrow> fl_bytes m = fl_bytes n \<Longrightarrow> m = n"
proof (induction m arbitrary: n)
  case Nil
  then show ?case using fl_ok_pos [of n "hd n"] by (cases n) (auto simp: fl_ok_Cons)
next
  case (Cons e m)
  have e: "0 < snd e" "\<forall>x\<in>set m. fst e + snd e < fst x" "fl_ok m" using Cons.prems(1) by (auto simp: fl_ok_Cons)
  have "fst e \<in> fl_bytes n" using Cons.prems(3) e by auto
  then obtain f n' where n: "n = f # n'" by (cases n) auto
  have f: "0 < snd f" "\<forall>x\<in>set n'. fst f + snd f < fst x" "fl_ok n'" using Cons.prems(2) n by (auto simp: fl_ok_Cons)
  have me: "fst e \<le> x \<and> (x < fst e + snd e \<or> fst e + snd e < x)" if "x \<in> fl_bytes (e # m)" for x
    using that e by (fastforce simp: mem_fl_bytes)
  have nf: "fst f \<le> x \<and> (x < fst f + snd f \<or> fst f + snd f < x)" if "x \<in> fl_bytes (f # n')" for x
    using that f by (fastforce simp: mem_fl_bytes)
  have eq: "fl_bytes (e # m) = fl_bytes (f # n')" using Cons.prems(3) n by simp
  have in_e: "x \<in> fl_bytes (e # m)" if "fst e \<le> x" "x < fst e + snd e" for x using that by simp
  have in_f: "x \<in> fl_bytes (f # n')" if "fst f \<le> x" "x < fst f + snd f" for x using that by simp
  have "fst e \<in> fl_bytes (f # n')" "fst f \<in> fl_bytes (e # m)"
    using in_e [of "fst e"] in_f [of "fst f"] e(1) f(1) unfolding eq by simp_all
  then have fef: "fst e = fst f" using me [of "fst f"] nf [of "fst e"] by (intro le_antisym) blast+
  moreover have "fst e + snd e = fst f + snd f"
  proof (rule ccontr)
    assume "fst e + snd e \<noteq> fst f + snd f"
    then consider "fst e + snd e < fst f + snd f" | "fst f + snd f < fst e + snd e" by linarith
    then show False
    proof cases
      case 1
      have "fst e + snd e \<in> fl_bytes (f # n')" by (rule in_f) (use 1 fef in auto)
      then have "fst e + snd e \<in> fl_bytes (e # m)" by (simp only: eq)
      then show False using me by blast
    next
      case 2
      have "fst f + snd f \<in> fl_bytes (e # m)" by (rule in_e) (use 2 fef in auto)
      then have "fst f + snd f \<in> fl_bytes (f # n')" by (simp only: eq)
      then show False using nf by blast
    qed
  qed
  ultimately have ef: "e = f" by (simp add: prod_eq_iff)
  have "{fst e..<fst e + snd e} \<inter> fl_bytes m = {}" "{fst f..<fst f + snd f} \<inter> fl_bytes n' = {}"
    using e(2) f(2) by (fastforce simp: mem_fl_bytes)+
  then have "fl_bytes m = fl_bytes n'" using eq ef unfolding fl_bytes_simps by blast
  then show ?case using Cons.IH [OF e(3) f(3)] ef n by simp
qed

interpretation free_list: byte_pool fl_bytes fl_ok "\<lambda>a n. 0 < n" "\<lambda>a n m. Some (AddFreeRange a n m)"
  by unfold_locales (use AddFreeRange_spec in \<open>auto simp: bytes_of_def\<close>)

end
