(* ===== verification/IntervalTable.thy ===== *)
theory IntervalTable
  imports Prelude "HOL-Library.Multiset"
begin

text \<open>
  Lists of pairwise disjoint intervals that carry data: the mapping lists of \<open>PhysicalMemory\<close>,
  \<open>FlexibleMemory\<close> and \<open>PooledMemory\<close> (src/src/kernel/memory.cpp). \<open>view\<close> is what a list says of
  an address. The locale \<open>piece_edit\<close> is the contract of a function that cuts one interval into
  pieces; a loop that applies such a function to every entry is the pointwise edit of the view.
\<close>

definition iv :: "('b \<Rightarrow> u64) \<Rightarrow> ('b \<Rightarrow> u64) \<Rightarrow> 'b \<Rightarrow> u64 set" where
  "iv st sz b = {st b..<st b + sz b}"

lemma mem_iv [simp]: "x \<in> iv st sz b \<longleftrightarrow> st b \<le> x \<and> x < st b + sz b"
  by (simp add: iv_def)

fun view :: "('b \<Rightarrow> u64) \<Rightarrow> ('b \<Rightarrow> u64) \<Rightarrow> ('b \<Rightarrow> u64 \<Rightarrow> 'i) \<Rightarrow> 'b list \<Rightarrow> u64 \<Rightarrow> 'i option" where
  "view st sz w [] x = None"
| "view st sz w (b # bs) x = (if x \<in> iv st sz b then Some (w b x) else view st sz w bs x)"

definition table_ok :: "('b \<Rightarrow> u64) \<Rightarrow> ('b \<Rightarrow> u64) \<Rightarrow> 'b list \<Rightarrow> bool" where
  "table_ok st sz bs \<longleftrightarrow> sorted_wrt (\<lambda>a b. iv st sz a \<inter> iv st sz b = {}) bs"

definition table_bytes :: "('b \<Rightarrow> u64) \<Rightarrow> ('b \<Rightarrow> u64) \<Rightarrow> 'b list \<Rightarrow> u64 set" where
  "table_bytes st sz bs = (\<Union>b\<in>set bs. iv st sz b)"

lemma table_ok_Nil [simp]: "table_ok st sz []"
  by (simp add: table_ok_def)

lemma table_ok_Cons [simp]:
  "table_ok st sz (b # bs) \<longleftrightarrow> iv st sz b \<inter> table_bytes st sz bs = {} \<and> table_ok st sz bs"
  by (auto simp: table_ok_def table_bytes_def simp del: mem_iv)

lemma table_bytes_simps [simp]:
  "table_bytes st sz [] = {}" "table_bytes st sz (b # bs) = iv st sz b \<union> table_bytes st sz bs"
  "table_bytes st sz (bs @ cs) = table_bytes st sz bs \<union> table_bytes st sz cs"
  by (auto simp: table_bytes_def simp del: mem_iv)

lemma table_ok_append [simp]:
  "table_ok st sz (bs @ cs) \<longleftrightarrow> table_ok st sz bs \<and> table_ok st sz cs \<and> table_bytes st sz bs \<inter> table_bytes st sz cs = {}"
  by (induction bs) (auto simp del: mem_iv)

lemma mem_table_bytes: "x \<in> table_bytes st sz bs \<longleftrightarrow> (\<exists>b\<in>set bs. x \<in> iv st sz b)"
  by (simp add: table_bytes_def del: mem_iv)

lemma table_bytes_mono: "set bs \<subseteq> set cs \<Longrightarrow> table_bytes st sz bs \<subseteq> table_bytes st sz cs"
  by (auto simp: table_bytes_def simp del: mem_iv)

lemma view_None_iff: "view st sz w bs x = None \<longleftrightarrow> x \<notin> table_bytes st sz bs"
  by (induction bs) (auto simp del: mem_iv)

lemma view_append: "view st sz w (bs @ cs) x = (case view st sz w bs x of None \<Rightarrow> view st sz w cs x | Some i \<Rightarrow> Some i)"
  by (induction bs) auto

lemma view_mem:
  "table_ok st sz bs \<Longrightarrow> b \<in> set bs \<Longrightarrow> x \<in> iv st sz b \<Longrightarrow> view st sz w bs x = Some (w b x)"
  by (induction bs) (auto simp: table_bytes_def simp del: mem_iv)

lemma view_Some_iff:
  "table_ok st sz bs \<Longrightarrow> view st sz w bs x = Some i \<longleftrightarrow> (\<exists>b\<in>set bs. x \<in> iv st sz b \<and> i = w b x)"
  by (metis mem_table_bytes not_None_eq option.inject view_None_iff view_mem)

lemma table_ok_unique:
  "table_ok st sz bs \<Longrightarrow> a \<in> set bs \<Longrightarrow> b \<in> set bs \<Longrightarrow> x \<in> iv st sz a \<Longrightarrow> x \<in> iv st sz b \<Longrightarrow> a = b"
  by (induction bs) (auto simp: table_bytes_def simp del: mem_iv)

lemma view_cong:
  "table_ok st sz bs \<Longrightarrow> table_ok st sz cs \<Longrightarrow> set bs = set cs \<Longrightarrow> view st sz w bs x = view st sz w cs x"
  by (metis not_Some_eq view_Some_iff)

text \<open>The order of the entries does not matter.\<close>

lemma table_ok_perm: "mset bs = mset cs \<Longrightarrow> table_ok st sz bs \<Longrightarrow> table_ok st sz cs"
proof (induction bs arbitrary: cs)
  case (Cons b bs)
  then have "b \<in> set cs" by (metis list.set_intros(1) mset_eq_setD)
  then obtain xs ys where cs: "cs = xs @ b # ys" by (auto simp: in_set_conv_decomp)
  then have m: "mset bs = mset (xs @ ys)" using Cons.prems(1) by simp
  have ok: "table_ok st sz (xs @ ys)" using Cons.IH [OF m] Cons.prems(2) by simp
  have "table_bytes st sz bs = table_bytes st sz (xs @ ys)"
    using m unfolding table_bytes_def by (metis mset_eq_setD)
  then show ?case using ok Cons.prems(2) cs by (auto simp del: mem_iv)
qed simp

lemma view_perm: "mset bs = mset cs \<Longrightarrow> table_ok st sz bs \<Longrightarrow> view st sz w cs x = view st sz w bs x"
  by (metis mset_eq_setD table_ok_perm view_cong)

lemma table_replace:
  assumes ok: "table_ok st sz (p @ b # q)" and ps: "table_ok st sz ps" and ins: "table_bytes st sz ps \<subseteq> iv st sz b"
  shows "table_ok st sz (p @ ps @ q)"
    and "view st sz w (p @ ps @ q) x = (if x \<in> iv st sz b then view st sz w ps x else view st sz w (p @ b # q) x)"
proof -
  have pq: "iv st sz b \<inter> table_bytes st sz p = {}" "iv st sz b \<inter> table_bytes st sz q = {}" using ok by auto
  then show "table_ok st sz (p @ ps @ q)" using ok ps ins by (auto simp del: mem_iv)
  show "view st sz w (p @ ps @ q) x = (if x \<in> iv st sz b then view st sz w ps x else view st sz w (p @ b # q) x)"
  proof (cases "x \<in> iv st sz b")
    case True
    then have "view st sz w p x = None" "view st sz w q x = None" using pq view_None_iff by blast+
    then show ?thesis using True by (simp add: view_append del: mem_iv split: option.split)
  next
    case False
    then have "view st sz w ps x = None" using ins view_None_iff by blast
    then show ?thesis using False by (simp add: view_append del: mem_iv split: option.split)
  qed
qed

locale piece_edit =
  fixes st sz :: "'b \<Rightarrow> u64" and what :: "'b \<Rightarrow> u64 \<Rightarrow> 'i" and good :: "'b \<Rightarrow> bool"
    and cut :: "'b \<Rightarrow> 'b list" and edit :: "u64 \<Rightarrow> 'i \<Rightarrow> 'i option"
  assumes cut_ok: "good b \<Longrightarrow> table_ok st sz (cut b)"
    and cut_good: "good b \<Longrightarrow> p \<in> set (cut b) \<Longrightarrow> good p"
    and cut_view: "good b \<Longrightarrow> view st sz what (cut b) x = (if x \<in> iv st sz b then edit x (what b x) else None)"
begin

lemma cut_bytes: "good b \<Longrightarrow> table_bytes st sz (cut b) \<subseteq> iv st sz b"
  using cut_view view_None_iff by (metis option.distinct(1) subsetI)

lemma edit_bytes: "\<forall>b\<in>set bs. good b \<Longrightarrow> table_bytes st sz (concat (map cut bs)) \<subseteq> table_bytes st sz bs"
  by (induction bs) (use cut_bytes in auto)

lemma edit_all:
  assumes "table_ok st sz bs" and "\<forall>b\<in>set bs. good b"
  shows "table_ok st sz (concat (map cut bs))" and "\<forall>b\<in>set (concat (map cut bs)). good b"
    and "view st sz what (concat (map cut bs)) x = Option.bind (view st sz what bs x) (edit x)"
proof -
  have "table_ok st sz (concat (map cut bs)) \<and> (\<forall>b\<in>set (concat (map cut bs)). good b) \<and>
    view st sz what (concat (map cut bs)) x = Option.bind (view st sz what bs x) (edit x)"
    using assms
  proof (induction bs)
    case (Cons b bs)
    have g: "good b" "\<forall>b\<in>set bs. good b" using Cons.prems(2) by auto
    have IH: "table_ok st sz (concat (map cut bs))" "\<forall>b\<in>set (concat (map cut bs)). good b"
      "view st sz what (concat (map cut bs)) x = Option.bind (view st sz what bs x) (edit x)"
      using Cons.IH Cons.prems by simp_all
    have d: "table_bytes st sz (cut b) \<inter> table_bytes st sz (concat (map cut bs)) = {}"
      using cut_bytes [OF g(1)] edit_bytes [OF g(2)] Cons.prems(1) by auto
    have "view st sz what (concat (map cut (b # bs))) x = Option.bind (view st sz what (b # bs) x) (edit x)"
    proof (cases "x \<in> iv st sz b")
      case True
      then have "view st sz what bs x = None" using Cons.prems(1) view_None_iff [of st sz what bs x] by (auto simp del: mem_iv)
      then show ?thesis using True cut_view [OF g(1), of x] IH(3)
        by (simp add: view_append del: mem_iv split: option.split)
    next
      case False
      then show ?thesis using cut_view [OF g(1), of x] IH(3) by (simp add: view_append del: mem_iv)
    qed
    then show ?case using IH d cut_ok [OF g(1)] cut_good [OF g(1)] by auto
  qed simp
  then show "table_ok st sz (concat (map cut bs))" "\<forall>b\<in>set (concat (map cut bs)). good b"
    "view st sz what (concat (map cut bs)) x = Option.bind (view st sz what bs x) (edit x)" by blast+
qed

end

end
