(* ===== verification/PhysicalMemory.thy ===== *)
theory PhysicalMemory
  imports RangeSet FreeList IntervalTable VirtualRanges
begin

text \<open>
  \<open>PhysicalMemory\<close> (src/src/kernel/memory.cpp): the guest's direct memory. \<open>m_physical\<close> holds the
  allocated blocks by their physical address, \<open>m_free\<close> the free ranges, \<open>m_mappings\<close> the virtual
  mappings of allocated memory. Out-pointers are results; \<open>false\<close> is None or False; an outer None
  is \<open>EXIT_IF\<close>.

  The lemmas show that blocks and free ranges always partition the physical memory, that
  allocation is first fit (the lowest aligned address that fits), that a mapping is made exactly of
  allocated memory, and what each operation does to the mapping of every virtual byte.
\<close>

record AllocatedBlock =
  ab_start_addr :: u64
  ab_size :: u64
  ab_map_vaddr :: u64
  ab_map_size :: u64
  ab_host_vaddr :: u64
  ab_host_size :: u64
  ab_prot :: int
  ab_mode :: mode
  ab_gpu_mode :: GpuAccessMode
  ab_memory_type :: int
  ab_pool_expansion :: bool
  ab_name :: string

record physical_memory =
  m_physical :: "AllocatedBlock smap"
  m_free :: "u64 smap"
  m_mappings :: "AllocatedBlock list"

abbreviation PhysicalMemory_TotalSize :: u64 where
  "PhysicalMemory_TotalSize \<equiv> 14495514624"

definition PhysicalMemory_Size :: "u64 \<Rightarrow> u64 option" where
  "PhysicalMemory_Size flexible_memory_size = do {
     exit_if (flexible_memory_size \<ge> PhysicalMemory_TotalSize);
     Some (PhysicalMemory_TotalSize - flexible_memory_size) }"

text \<open>The new value of \<open>g_flexible_memory_size\<close>; the argument tells whether it is still open.\<close>

definition SetFlexibleMemorySize :: "bool \<Rightarrow> u64 \<Rightarrow> u64 option" where
  "SetFlexibleMemorySize frozen bytes = do {
     exit_if frozen;
     exit_if (bytes = 0 \<or> bytes mod 16384 \<noteq> 0 \<or> bytes \<ge> PhysicalMemory_TotalSize);
     Some bytes }"

definition new_physical_memory :: "u64 \<Rightarrow> physical_memory" where
  "new_physical_memory phys_size = \<lparr>m_physical = [], m_free = [(0, phys_size)], m_mappings = []\<rparr>"

text \<open>\<open>valid = false\<close> is None.\<close>

definition GetAlignedPos :: "u64 \<Rightarrow> u64 \<Rightarrow> u64 option" where
  "GetAlignedPos pos alignment =
     (if alignment = 0 then Some pos
      else
        (let remainder = pos mod alignment;
             increment = (if remainder \<noteq> 0 then alignment - remainder else 0) in
         if increment > UINT64_MAX - pos then None else Some (pos + increment)))"

section \<open>Allocation\<close>

fun alloc_scan :: "u64 \<Rightarrow> u64 \<Rightarrow> u64 \<Rightarrow> u64 \<Rightarrow> u64 smap \<Rightarrow> ((u64 \<times> u64) \<times> u64) option" where
  "alloc_scan search_start search_end len alignment [] = None"
| "alloc_scan search_start search_end len alignment ((s, n) # it) =
     (if s < search_end then
        (let range_end = min (s + n) search_end; lower_bound = max s search_start in
         case GetAlignedPos lower_bound alignment of
           None \<Rightarrow> alloc_scan search_start search_end len alignment it
         | Some free_pos \<Rightarrow>
             if free_pos < lower_bound \<or> free_pos > range_end \<or> len > range_end - free_pos
             then alloc_scan search_start search_end len alignment it
             else Some ((s, n), free_pos))
      else None)"

definition new_block :: "u64 \<Rightarrow> u64 \<Rightarrow> int \<Rightarrow> bool \<Rightarrow> AllocatedBlock" where
  "new_block free_pos len memory_type pool_expansion =
     \<lparr>ab_start_addr = free_pos, ab_size = len, ab_map_vaddr = 0, ab_map_size = 0, ab_host_vaddr = 0, ab_host_size = 0,
      ab_prot = 0, ab_mode = NoAccess, ab_gpu_mode = GpuNoAccess, ab_memory_type = memory_type,
      ab_pool_expansion = pool_expansion, ab_name = []\<rparr>"

definition PhysicalMemory_Alloc ::
  "u64 \<Rightarrow> u64 \<Rightarrow> u64 \<Rightarrow> u64 \<Rightarrow> u64 \<Rightarrow> int \<Rightarrow> bool \<Rightarrow> physical_memory \<Rightarrow> (u64 option \<times> physical_memory) option" where
  "PhysicalMemory_Alloc phys_size search_start search_end' len alignment memory_type pool_expansion s =
     (let search_end = min search_end' phys_size in
      if search_start \<ge> search_end then Some (None, s)
      else
        case alloc_scan search_start search_end len alignment
               (snd (step_back (\<lambda>_. True) (before_ub search_start (m_free s)) (from_ub search_start (m_free s)))) of
          None \<Rightarrow> Some (None, s)
        | Some (rng, free_pos) \<Rightarrow> do {
            exit_if (free_pos \<in> fst ` set (m_physical s));
            Some (Some free_pos,
              s\<lparr>m_free := ConsumeFreeRange rng free_pos len (m_free s),
                m_physical := emplace free_pos (new_block free_pos len memory_type pool_expansion) (m_physical s)\<rparr>) })"

fun available_scan :: "u64 \<Rightarrow> u64 \<Rightarrow> u64 \<Rightarrow> u64 \<times> u64 \<Rightarrow> u64 smap \<Rightarrow> u64 \<times> u64" where
  "available_scan search_start search_end alignment best [] = best"
| "available_scan search_start search_end alignment (best_addr, best_size) ((s, n) # it) =
     (if s \<ge> search_end then (best_addr, best_size)
      else
        (let range_end = min (s + n) search_end; lower_bound = max s search_start in
         case GetAlignedPos lower_bound alignment of
           None \<Rightarrow> available_scan search_start search_end alignment (best_addr, best_size) it
         | Some free_pos \<Rightarrow>
             if free_pos \<ge> lower_bound \<and> free_pos < range_end \<and> range_end - free_pos > best_size
             then available_scan search_start search_end alignment (free_pos, range_end - free_pos) it
             else available_scan search_start search_end alignment (best_addr, best_size) it))"

text \<open>The address and the size, when any suitable byte is free.\<close>

definition PhysicalMemory_Available :: "u64 \<Rightarrow> u64 \<Rightarrow> u64 \<Rightarrow> u64 \<Rightarrow> physical_memory \<Rightarrow> (u64 \<times> u64) option" where
  "PhysicalMemory_Available phys_size search_start search_end' alignment s =
     (let search_end = min search_end' phys_size in
      if search_start \<ge> search_end then None
      else
        (let (best_addr, best_size) = available_scan search_start search_end alignment (0, 0) (m_free s) in
         if best_size = 0 then None else Some (best_addr, best_size)))"

text \<open>The result is the virtual range that was mapped there and its GPU mode.\<close>

definition PhysicalMemory_Release :: "u64 \<Rightarrow> u64 \<Rightarrow> physical_memory \<Rightarrow> (u64 \<times> u64 \<times> GpuAccessMode) option \<times> physical_memory" where
  "PhysicalMemory_Release start len s =
     (let next = before_ub start (m_physical s) in
      if next = [] then (None, s)
      else
        (let key = fst (last next); b = snd (last next); old_start = ab_start_addr b; old_end = ab_start_addr b + ab_size b in
         if ab_pool_expansion b \<or> start < old_start \<or> start \<ge> old_end \<or> len > old_end - start then (None, s)
         else if start = old_start \<and> len = ab_size b then
           (Some (ab_map_vaddr b, ab_map_size b, ab_gpu_mode b),
            s\<lparr>m_physical := erase_key key (m_physical s), m_free := AddFreeRange start len (m_free s)\<rparr>)
         else if start > old_start \<and> start + len < old_end then
           (let mapped = (ab_map_vaddr b \<noteq> 0);
                right = b\<lparr>ab_start_addr := start + len, ab_size := old_end - (start + len),
                  ab_map_vaddr := (if mapped then ab_map_vaddr b + (start + len - old_start) else ab_map_vaddr b),
                  ab_map_size := (if mapped then old_end - (start + len) else ab_map_size b)\<rparr>;
                left = b\<lparr>ab_size := start - old_start, ab_map_size := (if mapped then start - old_start else ab_map_size b)\<rparr> in
            (Some (if mapped then ab_map_vaddr b + (start - old_start) else 0, if mapped then len else 0, ab_gpu_mode b),
             s\<lparr>m_physical := emplace (start + len) right (map (\<lambda>e. if fst e = key then (key, left) else e) (m_physical s)),
               m_free := AddFreeRange start len (m_free s)\<rparr>))
         else if start = old_start \<and> len < ab_size b then
           (let mapped = (ab_map_vaddr b \<noteq> 0);
                remaining = b\<lparr>ab_start_addr := old_start + len, ab_size := ab_size b - len,
                  ab_map_vaddr := (if mapped then ab_map_vaddr b + len else ab_map_vaddr b),
                  ab_map_size := (if mapped then ab_map_size b - len else ab_map_size b)\<rparr> in
            (Some (ab_map_vaddr b, if mapped then len else 0, ab_gpu_mode b),
             s\<lparr>m_physical := emplace (old_start + len) remaining (erase_key key (m_physical s)),
               m_free := AddFreeRange start len (m_free s)\<rparr>))
         else if start > old_start \<and> start + len = old_end then
           (let mapped = (ab_map_vaddr b \<noteq> 0);
                left = b\<lparr>ab_size := start - old_start, ab_map_size := (if mapped then start - old_start else ab_map_size b)\<rparr> in
            (Some (if mapped then ab_map_vaddr b + (start - old_start) else 0, if mapped then len else 0, ab_gpu_mode b),
             s\<lparr>m_physical := map (\<lambda>e. if fst e = key then (key, left) else e) (m_physical s),
               m_free := AddFreeRange start len (m_free s)\<rparr>))
         else (None, s)))"

definition PhysicalMemory_ReleasePoolExpansion :: "u64 \<Rightarrow> u64 \<Rightarrow> physical_memory \<Rightarrow> bool \<times> physical_memory" where
  "PhysicalMemory_ReleasePoolExpansion phys_addr len s =
     (case map_of (m_physical s) phys_addr of
        None \<Rightarrow> (False, s)
      | Some b \<Rightarrow>
          if \<not> ab_pool_expansion b \<or> ab_size b \<noteq> len then (False, s)
          else (True, s\<lparr>m_physical := erase_key phys_addr (m_physical s), m_free := AddFreeRange phys_addr len (m_free s)\<rparr>))"

section \<open>Mapping\<close>

function direct_span :: "u64 \<Rightarrow> u64 \<Rightarrow> AllocatedBlock smap \<Rightarrow> bool" where
  "direct_span current end m =
     (if current < end then
        (let before = before_ub current m; block = snd (last before); block_end = ab_start_addr block + ab_size block;
             following = from_ub current m; current' = min end block_end in
         if before = [] then False
         else if ab_pool_expansion block \<or> current < ab_start_addr block \<or> current \<ge> block_end then False
         else if current' < end \<and> (following = [] \<or> ab_start_addr (snd (hd following)) \<noteq> current') then False
         else direct_span current' end m)
      else True)"
  by pat_completeness auto
termination
  by (relation "measure (\<lambda>(current, end, m). end - current)") auto

declare direct_span.simps [simp del]

definition PhysicalMemory_Map ::
  "u64 \<Rightarrow> u64 \<Rightarrow> u64 \<Rightarrow> int \<Rightarrow> mode \<Rightarrow> GpuAccessMode \<Rightarrow> physical_memory \<Rightarrow> bool \<times> physical_memory" where
  "PhysicalMemory_Map vaddr phys_addr len prot mode gpu_mode s =
     (if len = 0 \<or> UINT64_MAX - phys_addr < len then (False, s)
      else if before_ub phys_addr (m_physical s) = [] then (False, s)
      else if \<not> direct_span phys_addr (phys_addr + len) (m_physical s) then (False, s)
      else
        (let first = snd (last (before_ub phys_addr (m_physical s)));
             mapping = first\<lparr>ab_start_addr := phys_addr, ab_size := len, ab_map_vaddr := vaddr, ab_map_size := len,
               ab_host_vaddr := vaddr, ab_host_size := len, ab_prot := prot, ab_mode := mode, ab_gpu_mode := gpu_mode\<rparr> in
         (True, s\<lparr>m_mappings := m_mappings s @ [mapping]\<rparr>)))"

definition PhysicalMemory_CanMapDirect :: "u64 \<Rightarrow> u64 \<Rightarrow> physical_memory \<Rightarrow> bool" where
  "PhysicalMemory_CanMapDirect phys_addr len s =
     (if len = 0 \<or> UINT64_MAX - phys_addr < len then False
      else direct_span phys_addr (phys_addr + len) (m_physical s))"

function allocated_span :: "u64 \<Rightarrow> u64 \<Rightarrow> AllocatedBlock smap \<Rightarrow> AllocatedBlock list option" where
  "allocated_span current end m =
     (if current < end then
        (let before = before_ub current m; block = snd (last before); block_end = ab_start_addr block + ab_size block;
             following = from_ub current m;
             part = block\<lparr>ab_start_addr := current, ab_size := min end block_end - current\<rparr>;
             current' = current + ab_size part in
         if before = [] then None
         else if ab_pool_expansion block \<or> current < ab_start_addr block \<or> current \<ge> block_end then None
         else if current' < end \<and> (following = [] \<or> ab_start_addr (snd (hd following)) \<noteq> current') then None
         else map_option ((#) part) (allocated_span current' end m))
      else Some [])"
  by pat_completeness auto
termination
  by (relation "measure (\<lambda>(current, end, m). end - current)") auto

declare allocated_span.simps [simp del]

definition PhysicalMemory_GetAllocatedSpan :: "u64 \<Rightarrow> u64 \<Rightarrow> physical_memory \<Rightarrow> AllocatedBlock list option" where
  "PhysicalMemory_GetAllocatedSpan phys_addr len s =
     (if len = 0 \<or> UINT64_MAX - phys_addr < len then None
      else allocated_span phys_addr (phys_addr + len) (m_physical s))"

text \<open>
  The loop of \<open>Unmap\<close>: the mode, the host range of an entry that was erased, the entries in
  place and the entry that was appended.
\<close>

fun unmap_scan :: "u64 \<Rightarrow> u64 \<Rightarrow> AllocatedBlock list \<Rightarrow>
    (GpuAccessMode \<times> (u64 \<times> u64) option \<times> AllocatedBlock list \<times> AllocatedBlock list) option" where
  "unmap_scan vaddr bytes [] = None"
| "unmap_scan vaddr bytes (b # bs) =
     (let b_end = add64 (ab_map_vaddr b) (ab_map_size b); end = add64 vaddr bytes in
      if ab_map_vaddr b = vaddr \<and> ab_map_size b = bytes then
        Some (ab_gpu_mode b, Some (ab_host_vaddr b, ab_host_size b), bs, [])
      else if vaddr > ab_map_vaddr b \<and> end < b_end then
        Some (ab_gpu_mode b, None,
          b\<lparr>ab_size := vaddr - ab_map_vaddr b, ab_map_size := vaddr - ab_map_vaddr b\<rparr> # bs,
          [b\<lparr>ab_start_addr := add64 (ab_start_addr b) (sub64 end (ab_map_vaddr b)), ab_size := sub64 b_end end,
             ab_map_size := sub64 b_end end, ab_map_vaddr := end\<rparr>])
      else if vaddr = ab_map_vaddr b \<and> bytes < ab_map_size b then
        Some (ab_gpu_mode b, None,
          b\<lparr>ab_start_addr := add64 (ab_start_addr b) bytes, ab_size := sub64 (ab_size b) bytes,
            ab_map_vaddr := add64 (ab_map_vaddr b) bytes, ab_map_size := ab_map_size b - bytes\<rparr> # bs, [])
      else if vaddr > ab_map_vaddr b \<and> end = b_end then
        Some (ab_gpu_mode b, None,
          b\<lparr>ab_size := vaddr - ab_map_vaddr b, ab_map_size := vaddr - ab_map_vaddr b\<rparr> # bs, [])
      else map_option (\<lambda>(g, h, l, a). (g, h, b # l, a)) (unmap_scan vaddr bytes bs))"

text \<open>The mode of the mapping and \<open>*host_vaddr_to_release\<close> (0 for none).\<close>

definition PhysicalMemory_Unmap :: "u64 \<Rightarrow> u64 \<Rightarrow> physical_memory \<Rightarrow> (GpuAccessMode \<times> u64) option \<times> physical_memory" where
  "PhysicalMemory_Unmap vaddr bytes s =
     (case unmap_scan vaddr bytes (m_mappings s) of
        None \<Rightarrow> (None, s)
      | Some (gpu_mode, host, kept, added) \<Rightarrow>
          (let ms = kept @ added;
               release = (case host of None \<Rightarrow> 0
                 | Some (host_vaddr, host_size) \<Rightarrow>
                     if host_vaddr = 0 \<or> host_size = 0 then 0
                     else if list_ex (\<lambda>b. ab_host_vaddr b = host_vaddr \<and> ab_host_size b = host_size) ms then 0
                     else host_vaddr) in
           (Some (gpu_mode, release), s\<lparr>m_mappings := ms\<rparr>)))"

definition protect_pieces :: "u64 \<Rightarrow> u64 \<Rightarrow> int \<Rightarrow> mode \<Rightarrow> GpuAccessMode \<Rightarrow> AllocatedBlock \<Rightarrow> AllocatedBlock list" where
  "protect_pieces vaddr bytes prot mode gpu_mode block =
     (let end = vaddr + bytes; block_end = ab_map_vaddr block + ab_map_size block in
      if \<not> VirtualRangesOverlap vaddr bytes (ab_map_vaddr block) (ab_map_size block) then [block]
      else
        (let overlap_start = max vaddr (ab_map_vaddr block); overlap_end = min end block_end in
         (if ab_map_vaddr block < overlap_start
          then [block\<lparr>ab_size := overlap_start - ab_map_vaddr block, ab_map_size := overlap_start - ab_map_vaddr block\<rparr>] else []) @
         [block\<lparr>ab_start_addr := ab_start_addr block + overlap_start - ab_map_vaddr block, ab_size := overlap_end - overlap_start,
            ab_map_vaddr := overlap_start, ab_map_size := overlap_end - overlap_start, ab_prot := prot, ab_mode := mode,
            ab_gpu_mode := gpu_mode\<rparr>] @
         (if overlap_end < block_end
          then [block\<lparr>ab_start_addr := ab_start_addr block + overlap_end - ab_map_vaddr block, ab_size := block_end - overlap_end,
            ab_map_vaddr := overlap_end, ab_map_size := block_end - overlap_end\<rparr>] else [])))"

definition PhysicalMemory_ProtectMapping ::
  "u64 \<Rightarrow> u64 \<Rightarrow> int \<Rightarrow> mode \<Rightarrow> GpuAccessMode \<Rightarrow> physical_memory \<Rightarrow> physical_memory" where
  "PhysicalMemory_ProtectMapping vaddr bytes prot mode gpu_mode s =
     (if bytes = 0 \<or> UINT64_MAX - vaddr < bytes then s
      else s\<lparr>m_mappings := concat (map (protect_pieces vaddr bytes prot mode gpu_mode) (m_mappings s))\<rparr>)"

section \<open>Queries\<close>

definition PhysicalMemory_Find_block :: "u64 \<Rightarrow> bool \<Rightarrow> physical_memory \<Rightarrow> AllocatedBlock option" where
  "PhysicalMemory_Find_block phys_addr next s =
     (let before = before_ub phys_addr (m_physical s); following = from_ub phys_addr (m_physical s) in
      if before \<noteq> [] \<and> phys_addr < ab_start_addr (snd (last before)) + ab_size (snd (last before))
      then Some (snd (last before))
      else if next \<and> following \<noteq> [] then Some (snd (hd following))
      else None)"

definition mapping_part :: "u64 \<Rightarrow> u64 \<Rightarrow> AllocatedBlock \<Rightarrow> AllocatedBlock list" where
  "mapping_part phys_addr len m =
     (if \<not> VirtualRangesOverlap phys_addr len (ab_start_addr m) (ab_size m) then []
      else
        (let overlap_start = max phys_addr (ab_start_addr m);
             overlap_end = min (add64 phys_addr len) (ab_start_addr m + ab_size m) in
         [m\<lparr>ab_start_addr := overlap_start, ab_size := overlap_end - overlap_start,
            ab_map_vaddr := ab_map_vaddr m + (overlap_start - ab_start_addr m), ab_map_size := overlap_end - overlap_start\<rparr>]))"

definition PhysicalMemory_FindMappings :: "u64 \<Rightarrow> u64 \<Rightarrow> physical_memory \<Rightarrow> AllocatedBlock list" where
  "PhysicalMemory_FindMappings phys_addr len s =
     sort_key ab_map_vaddr (concat (map (mapping_part phys_addr len) (m_mappings s)))"

text \<open>The base address, size, protection and modes of the mapping at a virtual address.\<close>

definition PhysicalMemory_Find_mapping :: "u64 \<Rightarrow> physical_memory \<Rightarrow> (u64 \<times> u64 \<times> int \<times> mode \<times> GpuAccessMode) option" where
  "PhysicalMemory_Find_mapping vaddr s =
     map_option (\<lambda>b. (ab_map_vaddr b, ab_map_size b, ab_prot b, ab_mode b, ab_gpu_mode b))
       (find (\<lambda>b. vaddr \<ge> ab_map_vaddr b \<and> vaddr < ab_map_vaddr b + ab_map_size b) (m_mappings s))"

definition PhysicalMemory_SetVirtualRangeName :: "u64 \<Rightarrow> u64 \<Rightarrow> string option \<Rightarrow> physical_memory \<Rightarrow> physical_memory" where
  "PhysicalMemory_SetVirtualRangeName vaddr len name s =
     s\<lparr>m_mappings := map (\<lambda>b. if VirtualRangesOverlap vaddr len (ab_map_vaddr b) (ab_map_size b)
       then b\<lparr>ab_name := CopyVirtualRangeName name\<rparr> else b) (m_mappings s)\<rparr>"

definition PhysicalMemory_SetVirtualRangeMemoryType :: "u64 \<Rightarrow> u64 \<Rightarrow> int \<Rightarrow> physical_memory \<Rightarrow> physical_memory" where
  "PhysicalMemory_SetVirtualRangeMemoryType vaddr len memory_type s =
     s\<lparr>m_mappings := map (\<lambda>b. if VirtualRangesOverlap vaddr len (ab_map_vaddr b) (ab_map_size b)
       then b\<lparr>ab_memory_type := memory_type\<rparr> else b) (m_mappings s)\<rparr>"

section \<open>First fit\<close>

definition is_aligned :: "u64 \<Rightarrow> u64 \<Rightarrow> bool" where
  "is_aligned alignment a \<longleftrightarrow> alignment = 0 \<or> a mod alignment = 0"

lemma GetAlignedPos_spec:
  assumes "pos \<le> UINT64_MAX"
  shows "case GetAlignedPos pos alignment of
      Some p \<Rightarrow> pos \<le> p \<and> is_aligned alignment p \<and> (\<forall>q. pos \<le> q \<and> is_aligned alignment q \<longrightarrow> p \<le> q)
    | None \<Rightarrow> \<forall>q. pos \<le> q \<and> is_aligned alignment q \<longrightarrow> UINT64_MAX < q"
proof (cases "alignment = 0")
  case False
  let ?r = "pos mod alignment"
  let ?i = "if ?r \<noteq> 0 then alignment - ?r else 0"
  have al: "(pos + ?i) mod alignment = 0"
  proof (cases "?r = 0")
    case ne: False
    have "pos div alignment * alignment + ?r = pos" by (rule div_mult_mod_eq)
    moreover have "?r \<le> alignment" using False by (simp add: less_imp_le)
    ultimately have "pos + (alignment - ?r) = pos div alignment * alignment + alignment" by linarith
    then show ?thesis using ne by simp
  qed simp
  have least: "pos + ?i \<le> q" if q: "pos \<le> q" "q mod alignment = 0" for q
  proof (rule ccontr)
    assume "\<not> pos + ?i \<le> q"
    then have lt: "q < pos + ?i" by simp
    then have r: "?r \<noteq> 0" using q by (auto split: if_splits)
    have "(q - pos + ?r) mod alignment = (q - pos + pos) mod alignment" by (metis mod_add_right_eq)
    also have "\<dots> = 0" using q by simp
    finally have "(q - pos + ?r) mod alignment = 0" .
    moreover have "q - pos + ?r < alignment" using lt r q(1) False by auto
    ultimately show False using r by simp
  qed
  show ?thesis using False al least assms
    by (fastforce simp: GetAlignedPos_def is_aligned_def Let_def split: option.split)
qed (simp add: GetAlignedPos_def is_aligned_def)

lemma fl_span_in_one:
  assumes ok: "fl_ok m" and n: "0 < len" and sub: "{q..<q + len} \<subseteq> fl_bytes m"
  shows "\<exists>e\<in>set m. fst e \<le> q \<and> q + len \<le> fst e + snd e"
proof -
  have "q \<in> fl_bytes m" using sub n by auto
  then obtain e where e: "e \<in> set m" "fst e \<le> q" "q < fst e + snd e" by (auto simp: mem_fl_bytes)
  have "q + len \<le> fst e + snd e"
  proof (rule ccontr)
    assume "\<not> ?thesis"
    then have "fst e + snd e \<in> fl_bytes m" using sub e by auto
    then obtain f where f: "f \<in> set m" "fst f \<le> fst e + snd e" "fst e + snd e < fst f + snd f" by (auto simp: mem_fl_bytes)
    have "(fst e, fst e + snd e) \<in> set (ends m)" "(fst f, fst f + snd f) \<in> set (ends m)"
      using e(1) f(1) by (auto simp: ends_def)
    then show False using ivs_ok_separated [OF ok [unfolded fl_ok_def]] e f by fastforce
  qed
  then show ?thesis using e by blast
qed

text \<open>The addresses at which a request fits.\<close>

definition fits_at :: "u64 \<Rightarrow> u64 \<Rightarrow> u64 \<Rightarrow> u64 \<Rightarrow> u64 set \<Rightarrow> u64 \<Rightarrow> bool" where
  "fits_at search_start search_end len alignment free a \<longleftrightarrow>
     search_start \<le> a \<and> a + len \<le> search_end \<and> is_aligned alignment a \<and> {a..<a + len} \<subseteq> free"

lemma fits_at_one:
  assumes "fl_ok m" and "0 < len"
  shows "fits_at ss se len al (fl_bytes m) a \<longleftrightarrow>
    ss \<le> a \<and> a + len \<le> se \<and> is_aligned al a \<and> (\<exists>e\<in>set m. fst e \<le> a \<and> a + len \<le> fst e + snd e)"
proof -
  have "{a..<a + len} \<subseteq> fl_bytes m" if "e \<in> set m" "fst e \<le> a" "a + len \<le> fst e + snd e" for e
  proof
    fix x assume "x \<in> {a..<a + len}"
    then have "fst e \<le> x \<and> x < fst e + snd e" using that by auto
    then show "x \<in> fl_bytes m" unfolding mem_fl_bytes using that(1) by blast
  qed
  then show ?thesis unfolding fits_at_def using fl_span_in_one [OF assms, of a] by blast
qed

lemma alloc_scan_spec:
  assumes "fl_ok m" and "0 < len" and "se \<le> UINT64_MAX"
  shows "case alloc_scan ss se len al m of
      Some ((s, n), a) \<Rightarrow> (s, n) \<in> set m \<and> s \<le> a \<and> a + len \<le> s + n \<and> fits_at ss se len al (fl_bytes m) a \<and>
        (\<forall>q. fits_at ss se len al (fl_bytes m) q \<longrightarrow> a \<le> q)
    | None \<Rightarrow> \<not> (\<exists>q. fits_at ss se len al (fl_bytes m) q)"
proof -
  define F where "F = (\<lambda>m a. ss \<le> a \<and> a + len \<le> se \<and> is_aligned al a \<and> (\<exists>e\<in>set m. fst e \<le> a \<and> a + len \<le> fst e + snd e))"
  have "case alloc_scan ss se len al m of
      Some ((s, n), a) \<Rightarrow> (s, n) \<in> set m \<and> s \<le> a \<and> a + len \<le> s + n \<and> F m a \<and> (\<forall>q. F m q \<longrightarrow> a \<le> q)
    | None \<Rightarrow> \<not> (\<exists>q. F m q)"
    using assms
  proof (induction m)
    case (Cons e m)
    obtain s n where e: "e = (s, n)" by fastforce
    have m: "0 < n" "\<forall>x\<in>set m. s + n < fst x" "fl_ok m" using Cons.prems(1) e by (auto simp: fl_ok_Cons)
    note IH = Cons.IH [OF m(3) Cons.prems(2,3)]
    show ?case
    proof (cases "s < se")
      case False
      then have "\<not> F (e # m) q" for q using m e Cons.prems(2) by (fastforce simp: F_def)
      then show ?thesis using False e by simp
    next
      case True
      let ?lb = "max s ss" and ?re = "min (s + n) se"
      have here: "F [e] q \<longleftrightarrow> ?lb \<le> q \<and> q + len \<le> ?re \<and> is_aligned al q" for q using e by (auto simp: F_def)
      have split: "F (e # m) q \<longleftrightarrow> F [e] q \<or> F m q" for q by (auto simp: F_def)
      have later: "s + n < q" if "F m q" for q using that m by (fastforce simp: F_def)
      have skip: "case alloc_scan ss se len al (e # m) of
      Some ((s, n), a) \<Rightarrow> (s, n) \<in> set (e # m) \<and> s \<le> a \<and> a + len \<le> s + n \<and> F (e # m) a \<and> (\<forall>q. F (e # m) q \<longrightarrow> a \<le> q)
    | None \<Rightarrow> \<not> (\<exists>q. F (e # m) q)" if "alloc_scan ss se len al (e # m) = alloc_scan ss se len al m" "\<forall>q. \<not> F [e] q"
      proof -
        have F: "\<And>q. F (e # m) q = F m q" using that(2) split by simp
        show ?thesis unfolding that(1) F using IH by (auto split: option.splits)
      qed
      show ?thesis
      proof (cases "GetAlignedPos ?lb al")
        case None
        have "\<not> F [e] q" for q
        proof (cases "?lb \<le> UINT64_MAX")
          case True
          then show ?thesis using GetAlignedPos_spec [of ?lb al] None here [of q] Cons.prems(3) by fastforce
        next
          case False
          then show ?thesis using here [of q] Cons.prems by auto
        qed
        then show ?thesis using skip None True e by simp
      next
        case (Some p)
        show ?thesis
        proof (cases "F [e] p")
          case F: True
          then have "p \<ge> ?lb" "p + len \<le> ?re" using here by auto
          then have "\<not> (p < ?lb \<or> p > ?re \<or> len > ?re - p)" by linarith
          then have res: "alloc_scan ss se len al (e # m) = Some ((s, n), p)"
            using Some True e by (simp only: alloc_scan.simps Let_def if_True option.case if_False)
          have lbu: "?lb \<le> UINT64_MAX" using \<open>p \<ge> ?lb\<close> \<open>p + len \<le> ?re\<close> Cons.prems(3) by linarith
          have "p \<le> q" if "F (e # m) q" for q
            using that split [of q] here [of q] GetAlignedPos_spec [OF lbu, of al] Some later [of q] \<open>p + len \<le> ?re\<close> by auto
          moreover have "F (e # m) p" using F split by blast
          moreover have "s \<le> p" "p + len \<le> s + n" using \<open>p \<ge> ?lb\<close> \<open>p + len \<le> ?re\<close> by simp_all
          ultimately show ?thesis unfolding res using e by simp
        next
          case F: False
          have lbu: "?lb \<le> UINT64_MAX" if "F [e] q" for q using that here [of q] Cons.prems(3) by auto
          have none: "\<not> F [e] q" for q
          proof
            assume q: "F [e] q"
            have "p \<le> q" "is_aligned al p" "?lb \<le> p" using GetAlignedPos_spec [OF lbu [OF q], of al] Some here [of q] q by auto
            then show False using F here [of p] here [of q] q by auto
          qed
          moreover have "alloc_scan ss se len al (e # m) = alloc_scan ss se len al m"
          proof (cases "?lb \<le> UINT64_MAX")
            case lb: True
            then have "?lb \<le> p" "is_aligned al p" using GetAlignedPos_spec [OF lb, of al] Some by auto
            then have "\<not> p + len \<le> ?re" using F here [of p] by blast
            then show ?thesis using Some True e by (auto simp: Let_def)
          next
            case lb: False
            then show ?thesis using Some True e Cons.prems(3) by (auto simp: Let_def)
          qed
          ultimately show ?thesis using skip by blast
        qed
      qed
    qed
  qed (simp add: F_def)
  then show ?thesis unfolding F_def fits_at_one [OF assms(1,2)] .
qed

section \<open>Blocks and free ranges partition the memory\<close>

definition block_ok :: "u64 \<times> AllocatedBlock \<Rightarrow> bool" where
  "block_ok e \<longleftrightarrow> ab_start_addr (snd e) = fst e \<and> 0 < ab_size (snd e) \<and> ab_map_vaddr (snd e) = 0 \<and> ab_map_size (snd e) = 0"

definition blocks_ok :: "AllocatedBlock smap \<Rightarrow> bool" where
  "blocks_ok m \<longleftrightarrow> (\<forall>e\<in>set m. block_ok e) \<and> sorted_wrt (\<lambda>x y. fst x + ab_size (snd x) \<le> fst y) m"

abbreviation blk_iv :: "u64 \<times> AllocatedBlock \<Rightarrow> u64 set" where
  "blk_iv \<equiv> iv fst (\<lambda>e. ab_size (snd e))"

abbreviation blk_bytes :: "AllocatedBlock smap \<Rightarrow> u64 set" where
  "blk_bytes \<equiv> table_bytes fst (\<lambda>e. ab_size (snd e))"

text \<open>The memory type of the block that owns a byte and whether it belongs to the memory pool.\<close>

definition owner :: "AllocatedBlock smap \<Rightarrow> u64 \<Rightarrow> (int \<times> bool) option" where
  "owner m = view fst (\<lambda>e. ab_size (snd e)) (\<lambda>e x. (ab_memory_type (snd e), ab_pool_expansion (snd e))) m"

definition pm_ok :: "u64 \<Rightarrow> physical_memory \<Rightarrow> bool" where
  "pm_ok phys_size s \<longleftrightarrow> fl_ok (m_free s) \<and> blocks_ok (m_physical s) \<and>
     fl_bytes (m_free s) \<inter> blk_bytes (m_physical s) = {} \<and> fl_bytes (m_free s) \<union> blk_bytes (m_physical s) = {0..<phys_size}"

lemma blocks_ok_Nil [simp]: "blocks_ok []"
  by (simp add: blocks_ok_def)

lemma blocks_ok_Cons:
  "blocks_ok (e # m) \<longleftrightarrow> block_ok e \<and> (\<forall>x\<in>set m. fst e + ab_size (snd e) \<le> fst x) \<and> blocks_ok m"
  by (auto simp: blocks_ok_def)

lemma blocks_ok_append:
  "blocks_ok (m @ n) \<longleftrightarrow> blocks_ok m \<and> blocks_ok n \<and> (\<forall>x\<in>set m. \<forall>y\<in>set n. fst x + ab_size (snd x) \<le> fst y)"
  by (auto simp: blocks_ok_def sorted_wrt_append)

lemma blocks_ok_block: "blocks_ok m \<Longrightarrow> e \<in> set m \<Longrightarrow> block_ok e"
  by (simp add: blocks_ok_def)

lemma blocks_ok_smap_ok: "blocks_ok m \<Longrightarrow> smap_ok m"
  by (induction m) (fastforce simp: blocks_ok_Cons smap_ok_Cons block_ok_def)+

lemma blocks_ok_table_ok: "blocks_ok m \<Longrightarrow> table_ok fst (\<lambda>e. ab_size (snd e)) m"
  by (induction m) (fastforce simp: blocks_ok_Cons table_bytes_def)+

lemma owner_None_iff: "owner m x = None \<longleftrightarrow> x \<notin> blk_bytes m"
  by (simp add: owner_def view_None_iff)

lemma owner_append: "owner (m @ n) x = (case owner m x of None \<Rightarrow> owner n x | Some i \<Rightarrow> Some i)"
  by (simp add: owner_def view_append split: option.split)

lemma owner_Cons: "owner (e # m) x = (if x \<in> blk_iv e then Some (ab_memory_type (snd e), ab_pool_expansion (snd e)) else owner m x)"
  by (simp add: owner_def)

lemma owner_Nil [simp]: "owner [] x = None"
  by (simp add: owner_def)

lemma emplace_lb: "smap_ok m \<Longrightarrow> k \<notin> fst ` set m \<Longrightarrow> emplace k v m = before_lb k m @ (k, v) # from_lb k m"
proof -
  assume ok: "smap_ok m" and k: "k \<notin> fst ` set m"
  have s: "set m = set (before_lb k m) \<union> set (from_lb k m)" by (metis lb_split set_append)
  have "\<forall>e\<in>set (before_lb k m). fst e < k" by (auto dest: before_lb_less)
  moreover have "\<forall>e\<in>set (from_lb k m). k < fst e"
    using from_lb_ge [OF ok] k s by (metis UnI2 image_eqI le_neq_implies_less)
  ultimately show ?thesis using emplace_between [of "before_lb k m" k "from_lb k m" v] by (simp add: lb_split)
qed

lemma blocks_insert:
  assumes ok: "blocks_ok m" and b: "block_ok (a, b)" and free: "blk_iv (a, b) \<inter> blk_bytes m = {}"
  shows "a \<notin> fst ` set m" and "blocks_ok (emplace a b m)"
    and "owner (emplace a b m) x = (if x \<in> blk_iv (a, b) then Some (ab_memory_type b, ab_pool_expansion b) else owner m x)"
    and "blk_bytes (emplace a b m) = blk_iv (a, b) \<union> blk_bytes m"
proof -
  let ?p = "before_lb a m" and ?q = "from_lb a m"
  have m: "m = ?p @ ?q" by (simp add: lb_split)
  have dis: "blk_iv (a, b) \<inter> blk_iv e = {}" if "e \<in> set m" for e
    using free that by (auto simp: table_bytes_def simp del: mem_iv)
  have pos: "0 < ab_size b" "\<And>e. e \<in> set m \<Longrightarrow> 0 < ab_size (snd e)"
    using b blocks_ok_block [OF ok] by (auto simp: block_ok_def)
  show a: "a \<notin> fst ` set m"
  proof
    assume "a \<in> fst ` set m"
    then obtain e where e: "e \<in> set m" "fst e = a" by auto
    then have "a \<in> blk_iv (a, b) \<inter> blk_iv e" using pos by auto
    then show False using dis e by blast
  qed
  have em: "emplace a b m = ?p @ (a, b) # ?q" using emplace_lb [OF blocks_ok_smap_ok [OF ok] a] .
  have sub: "e \<in> set ?p \<Longrightarrow> e \<in> set m" "e \<in> set ?q \<Longrightarrow> e \<in> set m" for e
    using m by (metis UnCI set_append)+
  have p: "fst e + ab_size (snd e) \<le> a" if e: "e \<in> set ?p" for e
  proof (rule ccontr)
    assume "\<not> ?thesis"
    then have "a \<in> blk_iv (a, b) \<inter> blk_iv e" using before_lb_less [OF e] pos by auto
    then show False using dis sub e by blast
  qed
  have q: "a + ab_size b \<le> fst e" if e: "e \<in> set ?q" for e
  proof (rule ccontr)
    assume n: "\<not> ?thesis"
    have "a \<le> fst e" using from_lb_ge [OF blocks_ok_smap_ok [OF ok] e] .
    then have "fst e \<in> blk_iv (a, b) \<inter> blk_iv e" using n pos sub e by auto
    then show False using dis sub e by blast
  qed
  have parts: "blocks_ok ?p" "blocks_ok ?q" "\<forall>x\<in>set ?p. \<forall>y\<in>set ?q. fst x + ab_size (snd x) \<le> fst y"
    using ok m blocks_ok_append by metis+
  show "blocks_ok (emplace a b m)" unfolding em using parts p q b by (simp add: blocks_ok_append blocks_ok_Cons)
  have om: "owner m x = (case owner ?p x of None \<Rightarrow> owner ?q x | Some i \<Rightarrow> Some i)" by (metis m owner_append)
  have bm: "blk_bytes m = blk_bytes ?p \<union> blk_bytes ?q" by (metis m table_bytes_simps(3))
  show "blk_bytes (emplace a b m) = blk_iv (a, b) \<union> blk_bytes m" unfolding em bm by (simp add: Un_ac)
  show "owner (emplace a b m) x = (if x \<in> blk_iv (a, b) then Some (ab_memory_type b, ab_pool_expansion b) else owner m x)"
  proof (cases "x \<in> blk_iv (a, b)")
    case True
    then have "x \<notin> blk_bytes ?p" using free bm by blast
    then have "owner ?p x = None" by (simp add: owner_None_iff)
    then show ?thesis using True by (simp add: em owner_append owner_Cons)
  next
    case False
    then show ?thesis unfolding em om owner_append owner_Cons by (simp only: if_False)
  qed
qed

lemma pm_ok_new: "0 < n \<Longrightarrow> pm_ok n (new_physical_memory n)"
  by (simp add: pm_ok_def new_physical_memory_def fl_ok_Cons)

lemma free_lt:
  assumes "pm_ok phys_size s" and "e \<in> set (m_free s)"
  shows "fst e + snd e \<le> phys_size"
proof -
  have p: "0 < snd e" using fl_ok_pos [OF _ assms(2)] assms(1) by (simp add: pm_ok_def)
  then have "fst e + snd e - 1 \<in> fl_bytes (m_free s)" using assms(2) by (auto simp: mem_fl_bytes intro!: bexI [of _ e])
  then have "fst e + snd e - 1 < phys_size" using assms(1) unfolding pm_ok_def by (metis UnI1 atLeastLessThan_iff)
  then show ?thesis using p by simp
qed

lemma fl_ub_skip:
  fixes ss :: u64
  assumes ok: "fl_ok m" and n: "0 < len"
  defines "it \<equiv> snd (step_back (\<lambda>_. True) (before_ub ss m) (from_ub ss m))"
  shows "fl_ok it" and "set it \<subseteq> set m" and "fits_at ss se len al (fl_bytes it) a = fits_at ss se len al (fl_bytes m) a"
proof -
  let ?p = "before_ub ss m" and ?q = "from_ub ss m"
  have m: "m = (if ?p = [] then [] else butlast ?p) @ it"
  proof (cases "?p = []")
    case True
    then show ?thesis using ub_split [of ss m] by (simp add: it_def step_back_def)
  next
    case False
    have "butlast ?p @ last ?p # ?q = (butlast ?p @ [last ?p]) @ ?q" by simp
    also have "\<dots> = m" unfolding append_butlast_last_id [OF False] by (rule ub_split)
    finally show ?thesis using False by (simp add: it_def step_back_def)
  qed
  then obtain pre where pre: "m = pre @ it" "pre = (if ?p = [] then [] else butlast ?p)" by blast
  have okp: "fl_ok (pre @ it)" using ok pre(1) by simp
  then show it: "fl_ok it" by (simp add: fl_ok_append)
  show "set it \<subseteq> set m" using pre(1) by (metis Un_upper2 set_append)
  have out: "\<not> (fst e \<le> a \<and> a + len \<le> fst e + snd e)" if e: "e \<in> set pre" and a: "ss \<le> a" for e
  proof -
    have ne: "?p \<noteq> []" using e pre(2) by auto
    then have "last ?p \<in> set ?p" by simp
    then have l: "fst (last ?p) \<le> ss" by (rule before_ub_le)
    have "last ?p \<in> set it" using ne by (simp add: it_def step_back_def)
    then have "fst e + snd e < fst (last ?p)" using okp e by (auto simp: fl_ok_append)
    then show ?thesis using a l n by linarith
  qed
  show "fits_at ss se len al (fl_bytes it) a = fits_at ss se len al (fl_bytes m) a"
    unfolding fits_at_one [OF it n] fits_at_one [OF ok n] using out pre(1) by (metis UnE UnI2 set_append)
qed

lemma PhysicalMemory_Alloc_spec:
  fixes ss se al :: u64
  assumes ok: "pm_ok phys_size s" and n: "0 < len" and sz: "phys_size \<le> UINT64_MAX"
  defines "fit \<equiv> fits_at ss (min se phys_size) len al (fl_bytes (m_free s))"
  shows "\<exists>r s'. PhysicalMemory_Alloc phys_size ss se len al mt pool s = Some (r, s') \<and> pm_ok phys_size s' \<and> m_mappings s' = m_mappings s \<and>
    (case r of None \<Rightarrow> s' = s \<and> \<not> (\<exists>a. fit a)
     | Some a \<Rightarrow> fit a \<and> (\<forall>q. fit q \<longrightarrow> a \<le> q) \<and> fl_bytes (m_free s') = fl_bytes (m_free s) - {a..<a + len} \<and>
         (\<forall>x. owner (m_physical s') x = (if x \<in> {a..<a + len} then Some (mt, pool) else owner (m_physical s) x)))"
proof (cases "ss \<ge> min se phys_size")
  case True
  then have "\<not> fit a" for a using n by (auto simp: fit_def fits_at_def)
  moreover have "PhysicalMemory_Alloc phys_size ss se len al mt pool s = Some (None, s)"
    using True by (simp add: PhysicalMemory_Alloc_def Let_def)
  ultimately show ?thesis using ok by auto
next
  case ss: False
  let ?it = "snd (step_back (\<lambda>_. True) (before_ub ss (m_free s)) (from_ub ss (m_free s)))"
  have ok': "fl_ok (m_free s)" "blocks_ok (m_physical s)" "fl_bytes (m_free s) \<inter> blk_bytes (m_physical s) = {}"
    "fl_bytes (m_free s) \<union> blk_bytes (m_physical s) = {0..<phys_size}"
    using ok by (auto simp: pm_ok_def)
  note it = fl_ub_skip [OF ok'(1) n, of ss]
  have se: "min se phys_size \<le> UINT64_MAX" using sz by simp
  note scan = alloc_scan_spec [OF it(1) n se, of ss al, unfolded it(3), folded fit_def]
  show ?thesis
  proof (cases "alloc_scan ss (min se phys_size) len al ?it")
    case None
    then have "PhysicalMemory_Alloc phys_size ss se len al mt pool s = Some (None, s)"
      using ss by (simp add: PhysicalMemory_Alloc_def Let_def)
    then show ?thesis using scan None ok by auto
  next
    case (Some r)
    obtain k n' a where r: "r = ((k, n'), a)" by (metis surj_pair)
    have a: "(k, n') \<in> set (m_free s)" "k \<le> a" "a + len \<le> k + n'" "fit a" "\<forall>q. fit q \<longrightarrow> a \<le> q"
      using scan Some r it(2) by auto
    let ?b = "new_block a len mt pool"
    have iv: "blk_iv (a, ?b) = {a..<a + len}" "block_ok (a, ?b)" using n by (auto simp: new_block_def block_ok_def)
    have sub: "{a..<a + len} \<subseteq> fl_bytes (m_free s)" using a(4) by (simp add: fit_def fits_at_def)
    then have dis: "blk_iv (a, ?b) \<inter> blk_bytes (m_physical s) = {}" using ok'(3) iv by blast
    note ins = blocks_insert [OF ok'(2) iv(2) dis, unfolded iv(1)]
    note c = ConsumeFreeRange_spec [OF ok'(1) a(1,2) n a(3)]
    let ?s = "s\<lparr>m_free := ConsumeFreeRange (k, n') a len (m_free s), m_physical := emplace a ?b (m_physical s)\<rparr>"
    have "PhysicalMemory_Alloc phys_size ss se len al mt pool s = Some (Some a, ?s)"
      using ss Some r ins(1) by (simp add: PhysicalMemory_Alloc_def Let_def)
    moreover have "pm_ok phys_size ?s"
      using c ins(2,4) ok'(3,4) sub by (auto simp: pm_ok_def)
    ultimately show ?thesis using a(4,5) c(2) ins(3) by (auto simp: new_block_def)
  qed
qed

section \<open>Releasing\<close>

lemma ub_last_split:
  assumes "before_ub k m \<noteq> []"
  shows "m = butlast (before_ub k m) @ last (before_ub k m) # from_ub k m"
proof -
  have "butlast (before_ub k m) @ last (before_ub k m) # from_ub k m = (butlast (before_ub k m) @ [last (before_ub k m)]) @ from_ub k m"
    by simp
  also have "\<dots> = m" unfolding append_butlast_last_id [OF assms] by (rule ub_split)
  finally show ?thesis by simp
qed

text \<open>Only the last block that starts at or before an address can hold it.\<close>

lemma owner_last:
  assumes ok: "blocks_ok m"
  shows "before_ub x m = [] \<Longrightarrow> x \<notin> blk_bytes m"
    and "before_ub x m \<noteq> [] \<Longrightarrow> last (before_ub x m) \<in> set m \<and> fst (last (before_ub x m)) \<le> x \<and>
      (x \<in> blk_bytes m \<longleftrightarrow> x \<in> blk_iv (last (before_ub x m)))"
proof -
  let ?p = "before_ub x m" and ?q = "from_ub x m"
  have q: "x \<notin> blk_bytes ?q" using from_ub_gt [OF blocks_ok_smap_ok [OF ok], of _ x] by (fastforce simp: table_bytes_def)
  have bm: "blk_bytes m = blk_bytes ?p \<union> blk_bytes ?q" by (metis ub_split table_bytes_simps(3))
  show "?p = [] \<Longrightarrow> x \<notin> blk_bytes m" using q bm by simp
  assume ne: "?p \<noteq> []"
  note m = ub_last_split [OF ne]
  have "last ?p \<in> set ?p" using ne by simp
  then have l: "fst (last ?p) \<le> x" by (rule before_ub_le)
  have "blocks_ok (butlast ?p @ last ?p # ?q)" using ok m by simp
  then have b: "\<forall>e\<in>set (butlast ?p). fst e + ab_size (snd e) \<le> fst (last ?p)" by (simp add: blocks_ok_append)
  have "x \<notin> blk_bytes (butlast ?p)" using b l by (fastforce simp: table_bytes_def)
  moreover have "blk_bytes m = blk_bytes (butlast ?p) \<union> (blk_iv (last ?p) \<union> blk_bytes ?q)" using m by (metis table_bytes_simps(2,3))
  moreover have "last ?p \<in> set m" using m by (metis in_set_conv_decomp)
  ultimately show "last ?p \<in> set m \<and> fst (last ?p) \<le> x \<and> (x \<in> blk_bytes m \<longleftrightarrow> x \<in> blk_iv (last ?p))" using l q by blast
qed

lemma blocks_replace:
  assumes ok: "blocks_ok (p @ e # q)" and ps: "blocks_ok ps"
    and ins: "\<forall>x\<in>set ps. fst e \<le> fst x \<and> fst x + ab_size (snd x) \<le> fst e + ab_size (snd e)"
  shows "blocks_ok (p @ ps @ q)"
    and "owner (p @ ps @ q) x = (if x \<in> blk_iv e then owner ps x else owner (p @ e # q) x)"
    and "blk_bytes (p @ ps @ q) = blk_bytes (p @ e # q) - blk_iv e \<union> blk_bytes ps"
proof -
  have parts: "blocks_ok p" "blocks_ok q" "\<forall>x\<in>set p. fst x + ab_size (snd x) \<le> fst e"
    "\<forall>y\<in>set q. fst e + ab_size (snd e) \<le> fst y" "\<forall>x\<in>set p. \<forall>y\<in>set q. fst x + ab_size (snd x) \<le> fst y"
    using ok by (auto simp: blocks_ok_append blocks_ok_Cons)
  show "blocks_ok (p @ ps @ q)" using parts ps ins by (fastforce simp: blocks_ok_append)
  have pq: "blk_iv e \<inter> blk_bytes p = {}" "blk_iv e \<inter> blk_bytes q = {}"
    using parts by (fastforce simp: table_bytes_def)+
  have psb: "blk_bytes ps \<subseteq> blk_iv e" using ins by (fastforce simp: table_bytes_def)
  show "blk_bytes (p @ ps @ q) = blk_bytes (p @ e # q) - blk_iv e \<union> blk_bytes ps"
    unfolding table_bytes_simps using pq by blast
  show "owner (p @ ps @ q) x = (if x \<in> blk_iv e then owner ps x else owner (p @ e # q) x)"
  proof (cases "x \<in> blk_iv e")
    case True
    then have "owner p x = None" "owner q x = None" using pq owner_None_iff by blast+
    then show ?thesis using True by (simp add: owner_append split: option.split)
  next
    case False
    then have "owner ps x = None" using psb owner_None_iff by blast
    then show ?thesis unfolding owner_append owner_Cons using False by (auto split: option.split simp del: mem_iv)
  qed
qed

lemma smap_update_split:
  "smap_ok (p @ (k, v) # q) \<Longrightarrow> map (\<lambda>e. if fst e = k then (k, w) else e) (p @ (k, v) # q) = p @ (k, w) # q"
  by (fastforce simp: smap_ok_append smap_ok_Cons intro!: map_idI)

text \<open>What is left of a block when a range of it is released.\<close>

definition left_over :: "u64 \<Rightarrow> u64 \<Rightarrow> u64 \<times> AllocatedBlock \<Rightarrow> AllocatedBlock smap" where
  "left_over start len e =
     (if fst e < start then [(fst e, (snd e)\<lparr>ab_size := start - fst e\<rparr>)] else []) @
     (if start + len < fst e + ab_size (snd e)
      then [(start + len, (snd e)\<lparr>ab_start_addr := start + len, ab_size := fst e + ab_size (snd e) - (start + len)\<rparr>)] else [])"

lemma left_over_spec:
  assumes e: "block_ok e" and r: "fst e \<le> start" "0 < len" "start + len \<le> fst e + ab_size (snd e)"
  shows "blocks_ok (left_over start len e)"
    and "\<forall>x\<in>set (left_over start len e). fst e \<le> fst x \<and> fst x + ab_size (snd x) \<le> fst e + ab_size (snd e)"
    and "owner (left_over start len e) x = (if x \<in> blk_iv e \<and> x \<notin> {start..<start + len}
        then Some (ab_memory_type (snd e), ab_pool_expansion (snd e)) else None)"
    and "blk_bytes (left_over start len e) = blk_iv e - {start..<start + len}"
  using assms by (auto simp: left_over_def block_ok_def blocks_ok_Cons owner_Cons)

definition releasable :: "u64 \<Rightarrow> u64 \<Rightarrow> AllocatedBlock smap \<Rightarrow> u64 \<times> AllocatedBlock \<Rightarrow> bool" where
  "releasable start len m e \<longleftrightarrow> e \<in> set m \<and> \<not> ab_pool_expansion (snd e) \<and> fst e \<le> start \<and>
     start + len \<le> fst e + ab_size (snd e)"

lemma PhysicalMemory_Release_cases:
  assumes ok: "blocks_ok (m_physical s)" and n: "0 < len"
  shows "(\<exists>p e q. m_physical s = p @ e # q \<and> releasable start len (m_physical s) e \<and>
      PhysicalMemory_Release start len s = (Some (0, 0, ab_gpu_mode (snd e)),
        s\<lparr>m_physical := p @ left_over start len e @ q, m_free := AddFreeRange start len (m_free s)\<rparr>)) \<or>
    (\<not> (\<exists>e. releasable start len (m_physical s) e) \<and> PhysicalMemory_Release start len s = (None, s))"
proof (cases "before_ub start (m_physical s) = []")
  case True
  have "start \<notin> blk_bytes (m_physical s)" using owner_last(1) [OF ok True] .
  then have "\<not> releasable start len (m_physical s) e" for e using n by (fastforce simp: releasable_def table_bytes_def)
  then show ?thesis using True by (simp add: PhysicalMemory_Release_def Let_def)
next
  case ne: False
  let ?m = "m_physical s"
  let ?e = "last (before_ub start ?m)" and ?p = "butlast (before_ub start ?m)" and ?q = "from_ub start ?m"
  have m: "?m = ?p @ ?e # ?q" using ub_last_split [OF ne] .
  obtain k b where e: "?e = (k, b)" by fastforce
  have ke: "(k, b) \<in> set ?m" "k \<le> start" using owner_last(2) [OF ok ne] e by auto
  have b: "ab_start_addr b = k" "0 < ab_size b" "ab_map_vaddr b = 0" "ab_map_size b = 0"
    using blocks_ok_block [OF ok ke(1)] by (auto simp: block_ok_def)
  have only: "f = (k, b)" if f: "releasable start len ?m f" for f
  proof -
    have fm: "f \<in> set ?m" "start \<in> blk_iv f" using f n by (auto simp: releasable_def)
    then have "start \<in> blk_iv (k, b)" using owner_last(2) [OF ok ne] e by (metis mem_table_bytes)
    then show ?thesis using table_ok_unique [OF blocks_ok_table_ok [OF ok] fm(1) ke(1) fm(2)] by blast
  qed
  have okm: "smap_ok (?p @ (k, b) # ?q)" using blocks_ok_smap_ok [OF ok] m e by simp
  have er: "erase_key k ?m = ?p @ ?q" using erase_key_split [OF okm] m e by simp
  have up: "map (\<lambda>x. if fst x = k then (k, w) else x) ?m = ?p @ (k, w) # ?q" for w
    using smap_update_split [OF okm, of w] unfolding m [unfolded e, symmetric] .
  have bok: "blocks_ok (?p @ (k, b) # ?q)" using ok m e by simp
  have pos: "\<forall>x\<in>set ?p. 0 < ab_size (snd x)" 
  proof -
    have "blocks_ok ?p" using bok by (simp only: blocks_ok_append)
    then show ?thesis by (simp add: blocks_ok_def block_ok_def)
  qed
  have Pe: "\<forall>x\<in>set ?p. fst x + ab_size (snd x) \<le> k" and Q: "\<forall>x\<in>set ?q. k + ab_size b \<le> fst x"
    using bok by (simp_all add: blocks_ok_append blocks_ok_Cons)
  have P: "\<forall>x\<in>set ?p. fst x < k"
  proof
    fix x assume "x \<in> set ?p"
    then have "0 < ab_size (snd x)" "fst x + ab_size (snd x) \<le> k" using pos Pe by blast+
    then show "fst x < k" by linarith
  qed
  show ?thesis
  proof (cases "releasable start len ?m (k, b)")
    case False
    then have no: "\<not> (\<exists>f. releasable start len ?m f)" using only by blast
    have "ab_pool_expansion b \<or> start \<ge> k + ab_size b \<or> len > k + ab_size b - start"
      using False ke unfolding releasable_def by auto
    then have "PhysicalMemory_Release start len s = (None, s)"
      using ne e b by (elim disjE) (simp_all add: PhysicalMemory_Release_def Let_def)
    then show ?thesis using no by blast
  next
    case True
    then have r: "\<not> ab_pool_expansion b" "k \<le> start" "start + len \<le> k + ab_size b" by (auto simp: releasable_def)
    then have g: "\<not> (ab_pool_expansion b \<or> start < k \<or> start \<ge> k + ab_size b \<or> len > k + ab_size b - start)" using n by auto
    have "PhysicalMemory_Release start len s = (Some (0, 0, ab_gpu_mode b),
        s\<lparr>m_physical := ?p @ left_over start len (k, b) @ ?q, m_free := AddFreeRange start len (m_free s)\<rparr>)"
    proof -
      consider "start = k" "len = ab_size b" | "k < start" "start + len < k + ab_size b" | "start = k" "len < ab_size b"
        | "k < start" "start + len = k + ab_size b" using r by linarith
      then show ?thesis
      proof cases
        case 1
        then show ?thesis using g ne e b er
          by (simp add: PhysicalMemory_Release_def Let_def left_over_def)
      next
        case 2
        have "emplace (start + len) w (?p @ (k, v) # ?q) = ?p @ (k, v) # (start + len, w) # ?q" for v w
          using emplace_between [of "?p @ [(k, v)]" "start + len" ?q w] P Q 2 by fastforce
        then show ?thesis using g ne e b up 2
          by (simp add: PhysicalMemory_Release_def Let_def left_over_def)
      next
        case 3
        have "emplace (k + len) w (?p @ ?q) = ?p @ (k + len, w) # ?q" for w
          using emplace_between [of ?p "k + len" ?q w] P Q 3 by fastforce
        then show ?thesis using g ne e b er 3 n
          by (simp add: PhysicalMemory_Release_def Let_def left_over_def)
      next
        case 4
        then show ?thesis using g ne e b up
          by (simp add: PhysicalMemory_Release_def Let_def left_over_def)
      qed
    qed
    then show ?thesis using True m e by (intro disjI1) (metis snd_conv)
  qed
qed

lemma PhysicalMemory_Release_spec:
  assumes ok: "pm_ok phys_size s" and n: "0 < len" and run: "PhysicalMemory_Release start len s = (r, s')"
  shows "pm_ok phys_size s'" and "m_mappings s' = m_mappings s"
    and "r \<noteq> None \<longleftrightarrow> (\<exists>e. releasable start len (m_physical s) e)"
    and "r = None \<Longrightarrow> s' = s"
    and "r = Some (v, k, g) \<Longrightarrow> v = 0 \<and> k = 0"
    and "r \<noteq> None \<Longrightarrow> fl_bytes (m_free s') = fl_bytes (m_free s) \<union> {start..<start + len}"
    and "r \<noteq> None \<Longrightarrow> owner (m_physical s') x = (if x \<in> {start..<start + len} then None else owner (m_physical s) x)"
proof -
  have okb: "blocks_ok (m_physical s)" and okf: "fl_ok (m_free s)"
    and part: "fl_bytes (m_free s) \<inter> blk_bytes (m_physical s) = {}" "fl_bytes (m_free s) \<union> blk_bytes (m_physical s) = {0..<phys_size}"
    using ok by (auto simp: pm_ok_def)
  consider (yes) p e q where "m_physical s = p @ e # q" "releasable start len (m_physical s) e"
      "r = Some (0, 0, ab_gpu_mode (snd e))" "s' = s\<lparr>m_physical := p @ left_over start len e @ q, m_free := AddFreeRange start len (m_free s)\<rparr>"
    | (no) "\<not> (\<exists>e. releasable start len (m_physical s) e)" "r = None" "s' = s"
    using PhysicalMemory_Release_cases [OF okb n, of start] run by auto
  note cs = this
  have "pm_ok phys_size s' \<and> m_mappings s' = m_mappings s \<and> (r \<noteq> None \<longleftrightarrow> (\<exists>e. releasable start len (m_physical s) e)) \<and> (r = None \<longrightarrow> s' = s) \<and>
    (r = Some (v, k, g) \<longrightarrow> v = 0 \<and> k = 0) \<and> (r \<noteq> None \<longrightarrow> fl_bytes (m_free s') = fl_bytes (m_free s) \<union> {start..<start + len}) \<and>
    (r \<noteq> None \<longrightarrow> owner (m_physical s') x = (if x \<in> {start..<start + len} then None else owner (m_physical s) x))"
    using cs
  proof cases
    case yes
    have e: "block_ok e" "fst e \<le> start" "start + len \<le> fst e + ab_size (snd e)"
      using yes(2) blocks_ok_block [OF okb] by (auto simp: releasable_def)
    have m: "blocks_ok (p @ e # q)" using okb yes(1) by simp
    note lo = left_over_spec [OF e(1,2) n e(3)]
    note rp = blocks_replace [OF m lo(1,2)]
    have sub: "{start..<start + len} \<subseteq> blk_iv e" using e by auto
    then have sub': "{start..<start + len} \<subseteq> blk_bytes (m_physical s)" unfolding yes(1) by auto
    have bb: "blk_bytes (p @ left_over start len e @ q) = blk_bytes (m_physical s) - {start..<start + len}"
    proof -
      have "blk_iv e \<subseteq> blk_bytes (p @ e # q)" by auto
      then show ?thesis unfolding rp(3) lo(4) yes(1) using sub by blast
    qed
    have "owner (p @ left_over start len e @ q) x = (if x \<in> {start..<start + len} then None else owner (m_physical s) x)"
    proof (cases "x \<in> blk_iv e")
      case True
      have "owner (m_physical s) x = Some (ab_memory_type (snd e), ab_pool_expansion (snd e))"
        using view_mem [OF blocks_ok_table_ok [OF okb], of e x] yes(1) True by (simp add: owner_def)
      then show ?thesis unfolding rp(2) lo(3) using True sub by simp
    next
      case False
      then have "x \<notin> {start..<start + len}" using sub by blast
      then show ?thesis unfolding rp(2) yes(1) using False by (simp only: if_False)
    qed
    then have "owner (m_physical s') x = (if x \<in> {start..<start + len} then None else owner (m_physical s) x)"
      by (simp add: yes(4))
    moreover have "pm_ok phys_size s'"
      unfolding pm_ok_def yes(4) using AddFreeRange_spec [OF okf n, of start] rp(1) bb part sub' by auto
    moreover have "m_mappings s' = m_mappings s" "fl_bytes (m_free s') = fl_bytes (m_free s) \<union> {start..<start + len}"
      using yes(4) AddFreeRange_spec(2) [OF okf n, of start] by simp_all
    moreover have "r \<noteq> None" "r = Some (v, k, g) \<longrightarrow> v = 0 \<and> k = 0" using yes(3) by auto
    ultimately show ?thesis using yes(2) by blast
  next
    case no
    then show ?thesis using ok by simp
  qed
  then show "pm_ok phys_size s'" "m_mappings s' = m_mappings s" "r \<noteq> None \<longleftrightarrow> (\<exists>e. releasable start len (m_physical s) e)"
    "r = None \<Longrightarrow> s' = s" "r = Some (v, k, g) \<Longrightarrow> v = 0 \<and> k = 0"
    "r \<noteq> None \<Longrightarrow> fl_bytes (m_free s') = fl_bytes (m_free s) \<union> {start..<start + len}"
    "r \<noteq> None \<Longrightarrow> owner (m_physical s') x = (if x \<in> {start..<start + len} then None else owner (m_physical s) x)" by blast+
qed

lemma PhysicalMemory_ReleasePoolExpansion_spec:
  assumes ok: "pm_ok phys_size s" and run: "PhysicalMemory_ReleasePoolExpansion start len s = (b, s')"
  shows "pm_ok phys_size s'" and "m_mappings s' = m_mappings s"
    and "b \<longleftrightarrow> (\<exists>e\<in>set (m_physical s). fst e = start \<and> ab_size (snd e) = len \<and> ab_pool_expansion (snd e))"
    and "\<not> b \<Longrightarrow> s' = s"
    and "b \<Longrightarrow> fl_bytes (m_free s') = fl_bytes (m_free s) \<union> {start..<start + len}"
    and "b \<Longrightarrow> owner (m_physical s') x = (if x \<in> {start..<start + len} then None else owner (m_physical s) x)"
proof -
  have okb: "blocks_ok (m_physical s)" and okf: "fl_ok (m_free s)"
    and part: "fl_bytes (m_free s) \<inter> blk_bytes (m_physical s) = {}" "fl_bytes (m_free s) \<union> blk_bytes (m_physical s) = {0..<phys_size}"
    using ok by (auto simp: pm_ok_def)
  have key: "map_of (m_physical s) start = Some d \<longleftrightarrow> (start, d) \<in> set (m_physical s)" for d
    using map_of_eq_Some_smap [OF blocks_ok_smap_ok [OF okb]] .
  have "pm_ok phys_size s' \<and> m_mappings s' = m_mappings s \<and> (b \<longleftrightarrow> (\<exists>e\<in>set (m_physical s). fst e = start \<and> ab_size (snd e) = len \<and> ab_pool_expansion (snd e))) \<and>
    (\<not> b \<longrightarrow> s' = s) \<and> (b \<longrightarrow> fl_bytes (m_free s') = fl_bytes (m_free s) \<union> {start..<start + len}) \<and>
    (b \<longrightarrow> owner (m_physical s') x = (if x \<in> {start..<start + len} then None else owner (m_physical s) x))"
  proof (cases "\<exists>d. (start, d) \<in> set (m_physical s) \<and> ab_size d = len \<and> ab_pool_expansion d")
    case True
    then obtain d where d: "(start, d) \<in> set (m_physical s)" "ab_size d = len" "ab_pool_expansion d" by blast
    have res: "b" "s' = s\<lparr>m_physical := erase_key start (m_physical s), m_free := AddFreeRange start len (m_free s)\<rparr>"
      using run key [of d] d by (auto simp: PhysicalMemory_ReleasePoolExpansion_def)
    obtain p q where m: "m_physical s = p @ (start, d) # q" using d(1) by (auto simp: in_set_conv_decomp)
    have n: "0 < len" using blocks_ok_block [OF okb d(1)] d(2) by (simp add: block_ok_def)
    have okm: "blocks_ok (p @ (start, d) # q)" using okb m by simp
    have er: "erase_key start (m_physical s) = p @ q" using erase_key_split [OF blocks_ok_smap_ok [OF okm]] m by simp
    have iv: "blk_iv (start, d) = {start..<start + len}" using d(2) by auto
    note rp = blocks_replace [OF okm, of "[]", simplified, unfolded iv]
    have sub: "{start..<start + len} \<subseteq> blk_bytes (m_physical s)" unfolding m iv [symmetric] by auto
    have bb: "blk_bytes (p @ q) = blk_bytes (m_physical s) - {start..<start + len}" using rp(3) unfolding m iv [symmetric] by auto
    have "pm_ok phys_size s'"
      unfolding pm_ok_def res(2) using AddFreeRange_spec [OF okf n, of start] rp(1) part sub bb by (auto simp: er)
    moreover have "owner (m_physical s') x = (if x \<in> {start..<start + len} then None else owner (m_physical s) x)"
    proof -
      have "m_physical s' = p @ q" using res(2) er by simp
      then show ?thesis using rp(2) [of x] d(2) by (simp add: m)
    qed
    moreover have "\<exists>e\<in>set (m_physical s). fst e = start \<and> ab_size (snd e) = len \<and> ab_pool_expansion (snd e)"
      using d by force
    ultimately show ?thesis using res AddFreeRange_spec(2) [OF okf n, of start] by simp
  next
    case False
    then have "\<not> b \<and> s' = s" using run key by (auto simp: PhysicalMemory_ReleasePoolExpansion_def split: option.splits if_splits)
    moreover have "\<not> (\<exists>e\<in>set (m_physical s). fst e = start \<and> ab_size (snd e) = len \<and> ab_pool_expansion (snd e))"
      using False by auto
    ultimately show ?thesis using ok by blast
  qed
  then show "pm_ok phys_size s'" "m_mappings s' = m_mappings s"
    "b \<longleftrightarrow> (\<exists>e\<in>set (m_physical s). fst e = start \<and> ab_size (snd e) = len \<and> ab_pool_expansion (snd e))" "\<not> b \<Longrightarrow> s' = s"
    "b \<Longrightarrow> fl_bytes (m_free s') = fl_bytes (m_free s) \<union> {start..<start + len}"
    "b \<Longrightarrow> owner (m_physical s') x = (if x \<in> {start..<start + len} then None else owner (m_physical s) x)" by blast+
qed

section \<open>Mapping needs allocated memory\<close>

definition direct_owned :: "AllocatedBlock smap \<Rightarrow> u64 set \<Rightarrow> bool" where
  "direct_owned m S \<longleftrightarrow> (\<forall>x\<in>S. \<exists>t. owner m x = Some (t, False))"

lemma owner_holder:
  assumes ok: "blocks_ok m" and ne: "before_ub c m \<noteq> []"
  defines "b \<equiv> snd (last (before_ub c m))"
  shows "ab_start_addr b \<le> c"
    and "ab_start_addr b \<le> x \<Longrightarrow> x < ab_start_addr b + ab_size b \<Longrightarrow> owner m x = Some (ab_memory_type b, ab_pool_expansion b)"
    and "c \<ge> ab_start_addr b + ab_size b \<Longrightarrow> owner m c = None"
    and "owner m (ab_start_addr b + ab_size b) \<noteq> None \<Longrightarrow> c < ab_start_addr b + ab_size b \<Longrightarrow>
      from_ub c m \<noteq> [] \<and> ab_start_addr (snd (hd (from_ub c m))) = ab_start_addr b + ab_size b"
proof -
  let ?e = "last (before_ub c m)" and ?q = "from_ub c m"
  have l: "?e \<in> set m" "fst ?e \<le> c" "c \<in> blk_bytes m \<longleftrightarrow> c \<in> blk_iv ?e" using owner_last(2) [OF ok ne] by auto
  have s: "ab_start_addr b = fst ?e" "0 < ab_size b" using blocks_ok_block [OF ok l(1)] by (auto simp: b_def block_ok_def)
  show "ab_start_addr b \<le> c" using l s by simp
  show "owner m x = Some (ab_memory_type b, ab_pool_expansion b)" if "ab_start_addr b \<le> x" "x < ab_start_addr b + ab_size b"
    using view_mem [OF blocks_ok_table_ok [OF ok] l(1), of x] that s by (simp add: owner_def b_def)
  show "owner m c = None" if "c \<ge> ab_start_addr b + ab_size b"
    using that l(3) s by (auto simp: owner_None_iff b_def)
  assume own: "owner m (ab_start_addr b + ab_size b) \<noteq> None" and lt: "c < ab_start_addr b + ab_size b"
  let ?y = "ab_start_addr b + ab_size b"
  have m: "m = butlast (before_ub c m) @ ?e # ?q" using ub_last_split [OF ne] .
  have "blocks_ok (butlast (before_ub c m) @ ?e # ?q)" using ok m by simp
  then have parts: "\<forall>f\<in>set (butlast (before_ub c m)). fst f + ab_size (snd f) \<le> fst ?e" "\<forall>f\<in>set ?q. fst ?e + ab_size b \<le> fst f"
    "blocks_ok ?q" by (auto simp: blocks_ok_append blocks_ok_Cons b_def)
  obtain f where f: "f \<in> set m" "?y \<in> blk_iv f" using own by (auto simp: owner_None_iff table_bytes_def)
  have "f \<in> set (butlast (before_ub c m)) \<or> f = ?e \<or> f \<in> set ?q" using f(1) m by (metis Un_iff set_ConsD set_append)
  then have fq: "f \<in> set ?q" using f(2) parts(1) s by (auto simp: b_def)
  then obtain h t where h: "?q = h # t" by (cases ?q) auto
  have "fst h \<le> fst f" using fq h parts(3) by (fastforce simp: blocks_ok_Cons)
  moreover have "fst f \<le> ?y" using f(2) by simp
  moreover have "?y \<le> fst h" using parts(2) h s by simp
  moreover have "ab_start_addr (snd h) = fst h" using parts(3) h by (simp add: blocks_ok_Cons block_ok_def)
  ultimately show "?q \<noteq> [] \<and> ab_start_addr (snd (hd ?q)) = ?y" using h by simp
qed

lemma direct_ownedD: "direct_owned m {c..<e} \<Longrightarrow> c \<le> x \<Longrightarrow> x < e \<Longrightarrow> \<exists>t. owner m x = Some (t, False)"
  by (simp add: direct_owned_def)

lemma direct_owned_split:
  "c \<le> k \<Longrightarrow> k \<le> e \<Longrightarrow> direct_owned m {c..<e} \<longleftrightarrow> direct_owned m {c..<k} \<and> direct_owned m {k..<e}"
proof -
  assume "c \<le> k" "k \<le> e"
  then have e: "{c..<e} = {c..<k} \<union> {k..<e}" by (simp add: ivl_disj_un_two(3))
  show ?thesis unfolding direct_owned_def e ball_Un by (rule refl)
qed

lemma direct_span_spec:
  "blocks_ok m \<Longrightarrow> direct_span c e m \<longleftrightarrow> direct_owned m {c..<e}"
proof (induction c e m rule: direct_span.induct)
  case (1 c e m)
  let ?before = "before_ub c m" and ?b = "snd (last (before_ub c m))"
  let ?y = "ab_start_addr ?b + ab_size ?b"
  show ?case
  proof (cases "c < e")
    case lt: True
    show ?thesis
    proof (cases "?before = []")
      case True
      then have "owner m c = None" using owner_last(1) [OF 1(2)] by (simp add: owner_None_iff)
      then have "\<not> direct_owned m {c..<e}" using lt direct_ownedD [of m c e c] by auto
      then show ?thesis using True lt by (subst direct_span.simps) (simp add: Let_def)
    next
      case ne: False
      note h = owner_holder [OF 1(2) ne]
      show ?thesis
      proof (cases "ab_pool_expansion ?b \<or> c < ab_start_addr ?b \<or> c \<ge> ?y")
        case True
        then have "\<not> (\<exists>t. owner m c = Some (t, False))" using h(1) h(2) [of c] h(3) by (cases "c \<ge> ?y") auto
        then have "\<not> direct_owned m {c..<e}" using lt direct_ownedD [of m c e c] by auto
        then show ?thesis using True ne lt by (subst direct_span.simps) (simp add: Let_def)
      next
        case False
        let ?k = "min e ?y"
        have k: "c \<le> ?k" "?k \<le> e" using lt False by auto
        have here: "direct_owned m {c..<?k}" using False h(2) by (auto simp: direct_owned_def)
        show ?thesis
        proof (cases "?k < e \<and> (from_ub c m = [] \<or> ab_start_addr (snd (hd (from_ub c m))) \<noteq> ?k)")
          case True
          then have "?k = ?y" by auto
          then have "owner m ?k = None" using h(4) True False by fastforce
          then have "\<not> direct_owned m {c..<e}" using True k direct_ownedD [of m c e ?k] by auto
          then show ?thesis using True False ne lt by (subst direct_span.simps) (simp add: Let_def)
        next
          case next_ok: False
          have "direct_span c e m = direct_span ?k e m"
            unfolding direct_span.simps [of c e m] Let_def using next_ok False ne lt by (simp only: if_True if_False)
          moreover have "direct_span ?k e m = direct_owned m {?k..<e}"
            using 1(1) [OF lt refl refl refl refl refl ne False next_ok 1(2)] .
          ultimately show ?thesis using direct_owned_split [OF k, of m] here by blast
        qed
      qed
    qed
  next
    case False
    then show ?thesis by (subst direct_span.simps) (simp add: direct_owned_def)
  qed
qed

section \<open>What is mapped at a virtual address\<close>

record mapping_info =
  mi_phys :: u64
  mi_prot :: int
  mi_mode :: mode
  mi_gpu_mode :: GpuAccessMode
  mi_memory_type :: int
  mi_host :: "u64 \<times> u64"
  mi_name :: string

definition map_info :: "AllocatedBlock \<Rightarrow> u64 \<Rightarrow> mapping_info" where
  "map_info b x = \<lparr>mi_phys = ab_start_addr b + (x - ab_map_vaddr b), mi_prot = ab_prot b, mi_mode = ab_mode b,
     mi_gpu_mode = ab_gpu_mode b, mi_memory_type = ab_memory_type b, mi_host = (ab_host_vaddr b, ab_host_size b), mi_name = ab_name b\<rparr>"

abbreviation map_iv :: "AllocatedBlock \<Rightarrow> u64 set" where
  "map_iv \<equiv> iv ab_map_vaddr ab_map_size"

definition map_at :: "AllocatedBlock list \<Rightarrow> u64 \<Rightarrow> mapping_info option" where
  "map_at = view ab_map_vaddr ab_map_size map_info"

definition mapping_ok :: "AllocatedBlock \<Rightarrow> bool" where
  "mapping_ok b \<longleftrightarrow> ab_size b = ab_map_size b \<and> 0 < ab_map_size b \<and> ab_map_vaddr b + ab_map_size b \<le> UINT64_MAX \<and>
     ab_start_addr b + ab_map_size b \<le> UINT64_MAX"

definition mappings_ok :: "AllocatedBlock list \<Rightarrow> bool" where
  "mappings_ok ms \<longleftrightarrow> table_ok ab_map_vaddr ab_map_size ms \<and> (\<forall>b\<in>set ms. mapping_ok b)"

definition map_left_over :: "u64 \<Rightarrow> u64 \<Rightarrow> AllocatedBlock \<Rightarrow> AllocatedBlock list" where
  "map_left_over vaddr bytes b =
     (if ab_map_vaddr b < vaddr then [b\<lparr>ab_size := vaddr - ab_map_vaddr b, ab_map_size := vaddr - ab_map_vaddr b\<rparr>] else []) @
     (if vaddr + bytes < ab_map_vaddr b + ab_map_size b
      then [b\<lparr>ab_start_addr := ab_start_addr b + (vaddr + bytes - ab_map_vaddr b), ab_size := ab_map_vaddr b + ab_map_size b - (vaddr + bytes),
        ab_map_vaddr := vaddr + bytes, ab_map_size := ab_map_vaddr b + ab_map_size b - (vaddr + bytes)\<rparr>] else [])"

lemma map_left_over_spec:
  assumes b: "mapping_ok b" and r: "ab_map_vaddr b \<le> vaddr" "0 < bytes" "vaddr + bytes \<le> ab_map_vaddr b + ab_map_size b"
  shows "mappings_ok (map_left_over vaddr bytes b)" and "table_bytes ab_map_vaddr ab_map_size (map_left_over vaddr bytes b) \<subseteq> map_iv b"
    and "map_at (map_left_over vaddr bytes b) x = (if x \<in> map_iv b \<and> x \<notin> {vaddr..<vaddr + bytes} then Some (map_info b x) else None)"
  using assms by (auto simp: map_left_over_def mappings_ok_def mapping_ok_def map_at_def map_info_def)

lemma unmap_scan_spec:
  assumes "mappings_ok ms" and n: "0 < bytes" "vaddr + bytes \<le> UINT64_MAX"
  shows "case unmap_scan vaddr bytes ms of
      None \<Rightarrow> \<not> (\<exists>b\<in>set ms. {vaddr..<vaddr + bytes} \<subseteq> map_iv b)
    | Some (g, h, kept, added) \<Rightarrow> \<exists>p b q. ms = p @ b # q \<and> {vaddr..<vaddr + bytes} \<subseteq> map_iv b \<and> g = ab_gpu_mode b \<and>
        mset (kept @ added) = mset (p @ map_left_over vaddr bytes b @ q) \<and>
        h = (if map_left_over vaddr bytes b = [] then Some (ab_host_vaddr b, ab_host_size b) else None)"
  using assms(1)
proof (induction ms)
  case Nil
  then show ?case by simp
next
  case (Cons b ms)
  have b: "ab_size b = ab_map_size b" "0 < ab_map_size b" "ab_map_vaddr b + ab_map_size b \<le> UINT64_MAX"
      "ab_start_addr b + ab_map_size b \<le> UINT64_MAX" and ok: "mappings_ok ms"
    using Cons.prems by (auto simp: mappings_ok_def mapping_ok_def)
  have e: "add64 vaddr bytes = vaddr + bytes" "add64 (ab_map_vaddr b) (ab_map_size b) = ab_map_vaddr b + ab_map_size b"
    using n b by simp_all
  let ?v = "ab_map_vaddr b" and ?e = "ab_map_vaddr b + ab_map_size b" and ?u = "vaddr + bytes"
  have sub: "{vaddr..<?u} \<subseteq> map_iv b \<longleftrightarrow> ?v \<le> vaddr \<and> ?u \<le> ?e"
  proof
    assume "{vaddr..<?u} \<subseteq> map_iv b"
    moreover have "vaddr \<in> {vaddr..<?u}" "?u - 1 \<in> {vaddr..<?u}" using n by auto
    ultimately have "vaddr \<in> map_iv b" "?u - 1 \<in> map_iv b" by blast+
    then show "?v \<le> vaddr \<and> ?u \<le> ?e" using n by auto
  qed auto
  have found: ?case if "unmap_scan vaddr bytes (b # ms) = Some (ab_gpu_mode b,
      if map_left_over vaddr bytes b = [] then Some (ab_host_vaddr b, ab_host_size b) else None, kept, added)"
      "mset (kept @ added) = mset (map_left_over vaddr bytes b @ ms)" "{vaddr..<?u} \<subseteq> map_iv b" for kept added
  proof -
    have "b # ms = [] @ b # ms" by simp
    then show ?thesis using that by (auto intro!: exI [of _ "[]"])
  qed
  consider (exact) "vaddr = ?v" "?u = ?e" | (mid) "?v < vaddr" "?u < ?e" | (hd) "vaddr = ?v" "?u < ?e" | (tl) "?v < vaddr" "?u = ?e"
    | (out) "\<not> (?v \<le> vaddr \<and> ?u \<le> ?e)" by linarith
  then show ?case
  proof cases
    case exact
    then show ?thesis using e by (intro found [of ms "[]"]) (auto simp: map_left_over_def sub)
  next
    case mid
    let ?l = "b\<lparr>ab_size := vaddr - ?v, ab_map_size := vaddr - ?v\<rparr>"
    let ?r = "b\<lparr>ab_start_addr := ab_start_addr b + (?u - ?v), ab_size := ?e - ?u, ab_map_vaddr := ?u, ab_map_size := ?e - ?u\<rparr>"
    have "add64 (ab_start_addr b) (sub64 ?u ?v) = ab_start_addr b + (?u - ?v)" "sub64 ?e ?u = ?e - ?u"
      using mid b n by simp_all
    then show ?thesis using mid e by (intro found [of "?l # ms" "[?r]"]) (auto simp: map_left_over_def sub Let_def)
  next
    case hd
    let ?r = "b\<lparr>ab_start_addr := ab_start_addr b + bytes, ab_size := ab_map_size b - bytes, ab_map_vaddr := ?v + bytes,
      ab_map_size := ab_map_size b - bytes\<rparr>"
    have lo: "map_left_over vaddr bytes b = [?r]" using hd by (simp add: map_left_over_def)
    have w: "add64 (ab_start_addr b) bytes = ab_start_addr b + bytes" "sub64 (ab_size b) bytes = ab_map_size b - bytes"
      "add64 ?v bytes = ?v + bytes" using hd b by simp_all
    have c: "\<not> (?v = vaddr \<and> ab_map_size b = bytes)" "\<not> (vaddr > ?v \<and> ?u < ?e)" "vaddr = ?v \<and> bytes < ab_map_size b"
      using hd by auto
    have "unmap_scan vaddr bytes (b # ms) = Some (ab_gpu_mode b, None, ?r # ms, [])"
      unfolding unmap_scan.simps Let_def e w if_not_P [OF c(1)] if_not_P [OF c(2)] if_P [OF c(3)] by (rule refl)
    moreover have "{vaddr..<?u} \<subseteq> map_iv b" using hd sub by simp
    ultimately show ?thesis by (intro found [of "?r # ms" "[]"]) (simp_all add: lo del: unmap_scan.simps)
  next
    case tl
    let ?l = "b\<lparr>ab_size := vaddr - ?v, ab_map_size := vaddr - ?v\<rparr>"
    show ?thesis using tl e by (intro found [of "?l # ms" "[]"]) (auto simp: map_left_over_def sub Let_def)
  next
    case out
    have "unmap_scan vaddr bytes (b # ms) = map_option (\<lambda>(g, h, l, a). (g, h, b # l, a)) (unmap_scan vaddr bytes ms)"
      using out e n b by (auto simp: Let_def)
    moreover have "\<not> {vaddr..<?u} \<subseteq> map_iv b" using out sub by blast
    ultimately show ?thesis using Cons.IH [OF ok]
    proof (cases "unmap_scan vaddr bytes ms")
      case (Some r)
      obtain g h kept added where r: "r = (g, h, kept, added)" by (metis prod_cases4)
      obtain p d q where d: "ms = p @ d # q" "{vaddr..<?u} \<subseteq> map_iv d" "g = ab_gpu_mode d"
        "mset (kept @ added) = mset (p @ map_left_over vaddr bytes d @ q)"
        "h = (if map_left_over vaddr bytes d = [] then Some (ab_host_vaddr d, ab_host_size d) else None)"
        using Cons.IH [OF ok] unfolding Some r option.case prod.case by blast
      have d': "b # ms = (b # p) @ d # q" "mset ((b # kept) @ added) = mset ((b # p) @ map_left_over vaddr bytes d @ q)"
        using d(1,4) by simp_all
      have sc: "unmap_scan vaddr bytes (b # ms) = Some (g, h, b # kept, added)"
        using \<open>unmap_scan vaddr bytes (b # ms) = map_option _ _\<close> Some r by simp
      show ?thesis unfolding sc option.case prod.case using d'(1) d(2,3) d'(2) d(5) by blast
    qed simp
  qed
qed

lemma mappings_ok_perm: "mset ms = mset ns \<Longrightarrow> mappings_ok ms \<Longrightarrow> mappings_ok ns \<and> map_at ns x = map_at ms x"
  unfolding mappings_ok_def map_at_def using table_ok_perm view_perm mset_eq_setD by metis

lemma mapping_bytes_pos: "mapping_ok b \<Longrightarrow> ab_map_vaddr b \<in> map_iv b"
  by (simp add: mapping_ok_def)

lemma PhysicalMemory_Unmap_spec:
  assumes ok: "mappings_ok (m_mappings s)" and n: "0 < bytes" "vaddr + bytes \<le> UINT64_MAX"
    and run: "PhysicalMemory_Unmap vaddr bytes s = (r, s')"
  shows "m_physical s' = m_physical s \<and> m_free s' = m_free s \<and> mappings_ok (m_mappings s')"
    and "r \<noteq> None \<longleftrightarrow> (\<exists>b\<in>set (m_mappings s). {vaddr..<vaddr + bytes} \<subseteq> map_iv b)"
    and "map_at (m_mappings s') x = (if r \<noteq> None \<and> x \<in> {vaddr..<vaddr + bytes} then None else map_at (m_mappings s) x)"
    and "r = Some (g, h) \<Longrightarrow> \<exists>i. map_at (m_mappings s) vaddr = Some i \<and> g = mi_gpu_mode i \<and>
      h = (if 0 < snd (mi_host i) \<and> \<not> (\<exists>y j. map_at (m_mappings s') y = Some j \<and> mi_host j = mi_host i) then fst (mi_host i) else 0)"
proof -
  let ?ms = "m_mappings s" and ?S = "{vaddr..<vaddr + bytes}"
  note scan = unmap_scan_spec [OF ok n]
  have "m_physical s' = m_physical s \<and> m_free s' = m_free s \<and> mappings_ok (m_mappings s') \<and>
      (r \<noteq> None \<longleftrightarrow> (\<exists>b\<in>set ?ms. ?S \<subseteq> map_iv b)) \<and>
      map_at (m_mappings s') x = (if r \<noteq> None \<and> x \<in> ?S then None else map_at ?ms x) \<and>
      (r = Some (g, h) \<longrightarrow> (\<exists>i. map_at ?ms vaddr = Some i \<and> g = mi_gpu_mode i \<and>
        h = (if 0 < snd (mi_host i) \<and> \<not> (\<exists>y j. map_at (m_mappings s') y = Some j \<and> mi_host j = mi_host i) then fst (mi_host i) else 0)))"
  proof (cases "unmap_scan vaddr bytes ?ms")
    case None
    then have "r = None" "s' = s" using run by (auto simp: PhysicalMemory_Unmap_def)
    then show ?thesis using scan ok None by simp
  next
    case (Some t)
    obtain g' ho kept added where t: "t = (g', ho, kept, added)" by (metis prod_cases4)
    obtain p b q where b: "?ms = p @ b # q" "?S \<subseteq> map_iv b" "g' = ab_gpu_mode b"
      "mset (kept @ added) = mset (p @ map_left_over vaddr bytes b @ q)"
      "ho = (if map_left_over vaddr bytes b = [] then Some (ab_host_vaddr b, ab_host_size b) else None)"
      using scan unfolding Some t option.case prod.case by blast
    let ?lo = "map_left_over vaddr bytes b"
    have bm: "b \<in> set ?ms" using b(1) by simp
    then have bok: "mapping_ok b" using ok by (simp add: mappings_ok_def)
    have r: "ab_map_vaddr b \<le> vaddr" "vaddr + bytes \<le> ab_map_vaddr b + ab_map_size b"
    proof -
      have "vaddr \<in> ?S" "vaddr + bytes - 1 \<in> ?S" using n by auto
      then have "vaddr \<in> map_iv b" "vaddr + bytes - 1 \<in> map_iv b" using b(2) by blast+
      then show "ab_map_vaddr b \<le> vaddr" "vaddr + bytes \<le> ab_map_vaddr b + ab_map_size b" using n by auto
    qed
    note lo = map_left_over_spec [OF bok r(1) n(1) r(2)]
    have tok: "table_ok ab_map_vaddr ab_map_size (p @ b # q)" using ok b(1) by (simp add: mappings_ok_def)
    note tr = table_replace [OF tok conjunct1 [OF lo(1) [unfolded mappings_ok_def]] lo(2)]
    have res: "m_mappings s' = kept @ added" "m_physical s' = m_physical s" "m_free s' = m_free s"
      using run Some t by (auto simp: PhysicalMemory_Unmap_def Let_def)
    have ok1: "mappings_ok (p @ ?lo @ q)"
      using tr(1) ok lo(1) b(1) by (auto simp: mappings_ok_def)
    note perm = mappings_ok_perm [OF b(4) [symmetric] ok1, folded res(1)]
    have at: "map_at (m_mappings s') y = (if y \<in> ?S then None else map_at ?ms y)" for y
    proof -
      have "map_at (m_mappings s') y = (if y \<in> map_iv b then map_at ?lo y else map_at ?ms y)"
        using perm [of y] tr(2) [of map_info y] by (simp add: map_at_def b(1))
      moreover have "map_at ?ms y = Some (map_info b y)" if "y \<in> map_iv b"
        using view_mem [OF tok [folded b(1)] bm that] by (simp add: map_at_def)
      ultimately show ?thesis using lo(3) [of y] b(2) by (auto simp del: mem_iv)
    qed
    let ?i = "map_info b vaddr"
    have vb: "vaddr \<in> map_iv b" using r n by auto
    have i: "map_at ?ms vaddr = Some ?i" using view_mem [OF tok [folded b(1)] bm vb] by (simp add: map_at_def)
    have host: "mi_host ?i = (ab_host_vaddr b, ab_host_size b)" "mi_gpu_mode ?i = ab_gpu_mode b" by (simp_all add: map_info_def)
    have tk: "table_ok ab_map_vaddr ab_map_size (kept @ added)" using perm by (simp only: mappings_ok_def res(1))
    have left: "(\<exists>y j. map_at (m_mappings s') y = Some j \<and> mi_host j = (hv, hs)) \<longleftrightarrow>
        list_ex (\<lambda>b. ab_host_vaddr b = hv \<and> ab_host_size b = hs) (kept @ added)" for hv hs
    proof
      assume "\<exists>y j. map_at (m_mappings s') y = Some j \<and> mi_host j = (hv, hs)"
      then obtain y j where y: "map_at (m_mappings s') y = Some j" "mi_host j = (hv, hs)" by blast
      obtain d where "d \<in> set (kept @ added)" "j = map_info d y"
        using y(1) unfolding map_at_def res(1) view_Some_iff [OF tk] by blast
      then show "list_ex (\<lambda>b. ab_host_vaddr b = hv \<and> ab_host_size b = hs) (kept @ added)"
        using y(2) unfolding list_ex_iff by (auto simp: map_info_def)
    next
      assume "list_ex (\<lambda>b. ab_host_vaddr b = hv \<and> ab_host_size b = hs) (kept @ added)"
      then obtain d where d: "d \<in> set (kept @ added)" "ab_host_vaddr d = hv" "ab_host_size d = hs" unfolding list_ex_iff by blast
      have "mapping_ok d" using perm d(1) res(1) by (simp add: mappings_ok_def)
      then have "map_at (m_mappings s') (ab_map_vaddr d) = Some (map_info d (ab_map_vaddr d))"
        using view_mem [OF tk d(1) mapping_bytes_pos, of map_info] unfolding map_at_def res(1) by blast
      moreover have "mi_host (map_info d (ab_map_vaddr d)) = (hv, hs)" using d by (simp add: map_info_def)
      ultimately show "\<exists>y j. map_at (m_mappings s') y = Some j \<and> mi_host j = (hv, hs)" by blast
    qed
    have h: "r = Some (g', if ho = None then 0 else if ab_host_vaddr b = 0 \<or> ab_host_size b = 0 then 0
        else if list_ex (\<lambda>d. ab_host_vaddr d = ab_host_vaddr b \<and> ab_host_size d = ab_host_size b) (kept @ added) then 0 else ab_host_vaddr b)"
      using run Some t b(5) by (auto simp: PhysicalMemory_Unmap_def Let_def split: if_splits)
    have keep: "list_ex (\<lambda>d. ab_host_vaddr d = ab_host_vaddr b \<and> ab_host_size d = ab_host_size b) (kept @ added)" if "ho = None"
    proof -
      have "?lo \<noteq> []" using b(5) that by auto
      then obtain d where d: "d \<in> set ?lo" using hd_in_set by blast
      then have "ab_host_vaddr d = ab_host_vaddr b \<and> ab_host_size d = ab_host_size b" by (auto simp: map_left_over_def split: if_splits)
      moreover have "d \<in> set (kept @ added)" using d b(4) mset_eq_setD by fastforce
      ultimately show ?thesis unfolding list_ex_iff by blast
    qed
    have "h = (if 0 < snd (mi_host ?i) \<and> \<not> (\<exists>y j. map_at (m_mappings s') y = Some j \<and> mi_host j = mi_host ?i) then fst (mi_host ?i) else 0)"
      if "r = Some (g, h)"
      using h that keep unfolding host left fst_conv snd_conv by (cases "ho = None"; simp split: if_splits)
    moreover have "g = mi_gpu_mode ?i" if "r = Some (g, h)" using h that b(3) host by simp
    moreover have "r \<noteq> None" using h by simp
    moreover have "\<exists>b\<in>set ?ms. ?S \<subseteq> map_iv b" using bm b(2) by blast
    ultimately show ?thesis using res(2,3) perm at [of x] i by (simp add: host)
  qed
  then show "m_physical s' = m_physical s \<and> m_free s' = m_free s \<and> mappings_ok (m_mappings s')"
    "r \<noteq> None \<longleftrightarrow> (\<exists>b\<in>set (m_mappings s). {vaddr..<vaddr + bytes} \<subseteq> map_iv b)"
    "map_at (m_mappings s') x = (if r \<noteq> None \<and> x \<in> {vaddr..<vaddr + bytes} then None else map_at (m_mappings s) x)"
    "r = Some (g, h) \<Longrightarrow> \<exists>i. map_at (m_mappings s) vaddr = Some i \<and> g = mi_gpu_mode i \<and>
      h = (if 0 < snd (mi_host i) \<and> \<not> (\<exists>y j. map_at (m_mappings s') y = Some j \<and> mi_host j = mi_host i) then fst (mi_host i) else 0)"
    by blast+
qed

lemma PhysicalMemory_Map_spec:
  assumes ok: "pm_ok phys_size s" "mappings_ok (m_mappings s)" and sz: "phys_size \<le> UINT64_MAX"
    and v: "vaddr + len \<le> UINT64_MAX" "{vaddr..<vaddr + len} \<inter> table_bytes ab_map_vaddr ab_map_size (m_mappings s) = {}"
    and run: "PhysicalMemory_Map vaddr phys_addr len prot mode gpu_mode s = (b, s')"
  shows "b \<longleftrightarrow> 0 < len \<and> direct_owned (m_physical s) {phys_addr..<phys_addr + len}"
    and "m_physical s' = m_physical s \<and> m_free s' = m_free s \<and> mappings_ok (m_mappings s')"
    and "map_at (m_mappings s') x = (if b \<and> x \<in> {vaddr..<vaddr + len}
      then Some \<lparr>mi_phys = phys_addr + (x - vaddr), mi_prot = prot, mi_mode = mode, mi_gpu_mode = gpu_mode,
        mi_memory_type = fst (the (owner (m_physical s) phys_addr)), mi_host = (vaddr, len),
        mi_name = ab_name (snd (last (before_ub phys_addr (m_physical s))))\<rparr>
      else map_at (m_mappings s) x)"
    and "PhysicalMemory_CanMapDirect phys_addr len s \<longleftrightarrow> b"
proof -
  let ?S = "{phys_addr..<phys_addr + len}" and ?V = "{vaddr..<vaddr + len}"
  have okb: "blocks_ok (m_physical s)" using ok by (simp add: pm_ok_def)
  have span: "direct_span phys_addr (phys_addr + len) (m_physical s) \<longleftrightarrow> direct_owned (m_physical s) ?S"
    using direct_span_spec [OF okb] .
  have bound: "x < phys_size" if "owner (m_physical s) x \<noteq> None" for x
    using that ok(1) by (auto simp: owner_None_iff pm_ok_def)
  have fits: "\<not> UINT64_MAX - phys_addr < len" if "0 < len" "direct_owned (m_physical s) ?S"
  proof -
    have "owner (m_physical s) (phys_addr + len - 1) \<noteq> None" using that direct_ownedD [of "m_physical s" phys_addr "phys_addr + len" "phys_addr + len - 1"] by fastforce
    then have "phys_addr + len - 1 < phys_size" by (rule bound)
    then show ?thesis using sz that by linarith
  qed
  have first: "before_ub phys_addr (m_physical s) \<noteq> []" if "0 < len" "direct_owned (m_physical s) ?S"
  proof -
    have "\<exists>t. owner (m_physical s) phys_addr = Some (t, False)" using direct_ownedD [OF that(2), of phys_addr] that(1) by simp
    then have "phys_addr \<in> blk_bytes (m_physical s)" using owner_None_iff [of "m_physical s" phys_addr] by auto
    then show ?thesis using owner_last(1) [OF okb, of phys_addr] by blast
  qed
  let ?f = "snd (last (before_ub phys_addr (m_physical s)))"
  let ?m = "?f\<lparr>ab_start_addr := phys_addr, ab_size := len, ab_map_vaddr := vaddr, ab_map_size := len,
               ab_host_vaddr := vaddr, ab_host_size := len, ab_prot := prot, ab_mode := mode, ab_gpu_mode := gpu_mode\<rparr>"
  have b: "b \<longleftrightarrow> 0 < len \<and> direct_owned (m_physical s) ?S"
    and s': "s' = (if b then s\<lparr>m_mappings := m_mappings s @ [?m]\<rparr> else s)"
    using run fits first span by (auto simp: PhysicalMemory_Map_def Let_def split: if_splits)
  show "b \<longleftrightarrow> 0 < len \<and> direct_owned (m_physical s) ?S" by (rule b)
  show "PhysicalMemory_CanMapDirect phys_addr len s \<longleftrightarrow> b"
    using b fits span by (auto simp: PhysicalMemory_CanMapDirect_def)
  have iv: "map_iv ?m = ?V" by auto
  have "m_physical s' = m_physical s \<and> m_free s' = m_free s \<and> mappings_ok (m_mappings s') \<and>
    map_at (m_mappings s') x = (if b \<and> x \<in> ?V
      then Some \<lparr>mi_phys = phys_addr + (x - vaddr), mi_prot = prot, mi_mode = mode, mi_gpu_mode = gpu_mode,
        mi_memory_type = fst (the (owner (m_physical s) phys_addr)), mi_host = (vaddr, len), mi_name = ab_name ?f\<rparr>
      else map_at (m_mappings s) x)"
  proof (cases b)
    case True
    then have d: "0 < len" "direct_owned (m_physical s) ?S" using b by auto
    have mk: "mapping_ok ?m" using d fits v by (simp add: mapping_ok_def)
    have dis: "table_bytes ab_map_vaddr ab_map_size (m_mappings s) \<inter> map_iv ?m = {}" using v(2) unfolding iv by blast
    have okm: "mappings_ok (m_mappings s @ [?m])" using ok(2) mk dis by (simp add: mappings_ok_def del: mem_iv)
    have o: "owner (m_physical s) phys_addr = Some (ab_memory_type ?f, ab_pool_expansion ?f)"
      using owner_holder [OF okb first [OF d]] direct_ownedD [OF d(2), of phys_addr] d(1) by fastforce
    have "map_at (m_mappings s @ [?m]) x = (if x \<in> ?V then Some (map_info ?m x) else map_at (m_mappings s) x)"
    proof (cases "x \<in> ?V")
      case True
      then have "x \<in> map_iv ?m" unfolding iv .
      then show ?thesis using view_mem [of ab_map_vaddr ab_map_size "m_mappings s @ [?m]" ?m x map_info] okm True
        unfolding map_at_def mappings_ok_def by simp
    next
      case False
      then have "x \<notin> map_iv ?m" unfolding iv .
      then show ?thesis using False by (auto simp: map_at_def view_append simp del: mem_iv split: option.split)
    qed
    then show ?thesis using True okm o by (simp add: s' map_info_def)
  next
    case False
    then show ?thesis using ok by (simp add: s')
  qed
  then show "m_physical s' = m_physical s \<and> m_free s' = m_free s \<and> mappings_ok (m_mappings s')"
    "map_at (m_mappings s') x = (if b \<and> x \<in> {vaddr..<vaddr + len}
      then Some \<lparr>mi_phys = phys_addr + (x - vaddr), mi_prot = prot, mi_mode = mode, mi_gpu_mode = gpu_mode,
        mi_memory_type = fst (the (owner (m_physical s) phys_addr)), mi_host = (vaddr, len), mi_name = ab_name ?f\<rparr>
      else map_at (m_mappings s) x)" by blast+
qed

section \<open>Protection\<close>

lemma overlap_fits:
  assumes "0 < bytes" and "0 < k" and "a + k \<le> UINT64_MAX"
  shows "VirtualRangesOverlap start bytes a k \<longleftrightarrow> start < a + k \<and> a < start + bytes"
  using assms by (auto simp: VirtualRangesOverlap_def Let_def)

definition set_access :: "int \<Rightarrow> mode \<Rightarrow> GpuAccessMode \<Rightarrow> mapping_info \<Rightarrow> mapping_info" where
  "set_access prot mode gpu_mode i = i\<lparr>mi_prot := prot, mi_mode := mode, mi_gpu_mode := gpu_mode\<rparr>"

lemma protect_pieces_spec:
  assumes b: "mapping_ok b"
  shows "table_ok ab_map_vaddr ab_map_size (protect_pieces vaddr bytes prot mode gpu_mode b)"
    and "p \<in> set (protect_pieces vaddr bytes prot mode gpu_mode b) \<Longrightarrow> mapping_ok p"
    and "view ab_map_vaddr ab_map_size map_info (protect_pieces vaddr bytes prot mode gpu_mode b) x =
      (if x \<in> map_iv b then Some (if x \<in> {vaddr..<vaddr + bytes} then set_access prot mode gpu_mode (map_info b x) else map_info b x) else None)"
proof -
  have f: "ab_size b = ab_map_size b" "0 < ab_map_size b" "ab_map_vaddr b + ab_map_size b \<le> UINT64_MAX"
    "ab_start_addr b + ab_map_size b \<le> UINT64_MAX" using b by (auto simp: mapping_ok_def)
  have all: "table_ok ab_map_vaddr ab_map_size (protect_pieces vaddr bytes prot mode gpu_mode b) \<and>
    (\<forall>p\<in>set (protect_pieces vaddr bytes prot mode gpu_mode b). mapping_ok p) \<and>
    view ab_map_vaddr ab_map_size map_info (protect_pieces vaddr bytes prot mode gpu_mode b) x =
      (if x \<in> map_iv b then Some (if x \<in> {vaddr..<vaddr + bytes} then set_access prot mode gpu_mode (map_info b x) else map_info b x) else None)"
  proof (cases "0 < bytes \<and> vaddr < ab_map_vaddr b + ab_map_size b \<and> ab_map_vaddr b < vaddr + bytes")
    case False
    then have "\<not> VirtualRangesOverlap vaddr bytes (ab_map_vaddr b) (ab_map_size b)"
      using f overlap_fits [of bytes "ab_map_size b" "ab_map_vaddr b" vaddr] by (cases "bytes = 0") (auto simp: VirtualRangesOverlap_def)
    then have "protect_pieces vaddr bytes prot mode gpu_mode b = [b]" by (simp add: protect_pieces_def)
    then show ?thesis using False b by auto
  next
    case True
    then have ov: "VirtualRangesOverlap vaddr bytes (ab_map_vaddr b) (ab_map_size b)"
      using f overlap_fits [of bytes "ab_map_size b" "ab_map_vaddr b" vaddr] by auto
    define lo where "lo = max vaddr (ab_map_vaddr b)"
    define hi where "hi = min (vaddr + bytes) (ab_map_vaddr b + ab_map_size b)"
    have lh: "ab_map_vaddr b \<le> lo" "lo < hi" "hi \<le> ab_map_vaddr b + ab_map_size b" using True f by (auto simp: lo_def hi_def)
    have inside: "x \<in> map_iv b \<Longrightarrow> x \<in> {vaddr..<vaddr + bytes} \<longleftrightarrow> lo \<le> x \<and> x < hi" by (auto simp: lo_def hi_def)
    have st: "ab_start_addr b + lo - ab_map_vaddr b = ab_start_addr b + (lo - ab_map_vaddr b)"
      "ab_start_addr b + hi - ab_map_vaddr b = ab_start_addr b + (hi - ab_map_vaddr b)" using lh by simp_all
    have pp: "protect_pieces vaddr bytes prot mode gpu_mode b =
      (if ab_map_vaddr b < lo then [b\<lparr>ab_size := lo - ab_map_vaddr b, ab_map_size := lo - ab_map_vaddr b\<rparr>] else []) @
      [b\<lparr>ab_start_addr := ab_start_addr b + (lo - ab_map_vaddr b), ab_size := hi - lo, ab_map_vaddr := lo, ab_map_size := hi - lo,
         ab_prot := prot, ab_mode := mode, ab_gpu_mode := gpu_mode\<rparr>] @
      (if hi < ab_map_vaddr b + ab_map_size b
       then [b\<lparr>ab_start_addr := ab_start_addr b + (hi - ab_map_vaddr b), ab_size := ab_map_vaddr b + ab_map_size b - hi,
          ab_map_vaddr := hi, ab_map_size := ab_map_vaddr b + ab_map_size b - hi\<rparr>] else [])"
      unfolding protect_pieces_def Let_def lo_def [symmetric] hi_def [symmetric] st using ov by simp
    have "table_ok ab_map_vaddr ab_map_size (protect_pieces vaddr bytes prot mode gpu_mode b)"
      unfolding pp using lh by auto
    moreover have "\<forall>p\<in>set (protect_pieces vaddr bytes prot mode gpu_mode b). mapping_ok p"
      unfolding pp using lh f by (auto simp: mapping_ok_def)
    moreover have "view ab_map_vaddr ab_map_size map_info (protect_pieces vaddr bytes prot mode gpu_mode b) x =
      (if x \<in> map_iv b then Some (if lo \<le> x \<and> x < hi then set_access prot mode gpu_mode (map_info b x) else map_info b x) else None)"
      unfolding pp using lh by (auto simp: map_info_def set_access_def)
    ultimately show ?thesis using inside by simp
  qed
  then show "table_ok ab_map_vaddr ab_map_size (protect_pieces vaddr bytes prot mode gpu_mode b)"
    "p \<in> set (protect_pieces vaddr bytes prot mode gpu_mode b) \<Longrightarrow> mapping_ok p"
    "view ab_map_vaddr ab_map_size map_info (protect_pieces vaddr bytes prot mode gpu_mode b) x =
      (if x \<in> map_iv b then Some (if x \<in> {vaddr..<vaddr + bytes} then set_access prot mode gpu_mode (map_info b x) else map_info b x) else None)"
    by blast+
qed

interpretation protect: piece_edit ab_map_vaddr ab_map_size map_info mapping_ok
  "protect_pieces vaddr bytes prot mode gpu_mode"
  "\<lambda>x i. Some (if x \<in> {vaddr..<vaddr + bytes} then set_access prot mode gpu_mode i else i)"
  for vaddr bytes prot mode gpu_mode
  by unfold_locales (use protect_pieces_spec in blast, use protect_pieces_spec in blast, simp only: protect_pieces_spec(3))

lemma PhysicalMemory_ProtectMapping_spec:
  fixes prot :: int and mode :: mode and gpu_mode :: GpuAccessMode
  assumes ok: "mappings_ok (m_mappings s)" and fits: "vaddr + bytes \<le> UINT64_MAX"
  defines "s' \<equiv> PhysicalMemory_ProtectMapping vaddr bytes prot mode gpu_mode s"
  shows "m_physical s' = m_physical s \<and> m_free s' = m_free s \<and> mappings_ok (m_mappings s')"
    and "map_at (m_mappings s') x =
      map_option (\<lambda>i. if x \<in> {vaddr..<vaddr + bytes} then set_access prot mode gpu_mode i else i) (map_at (m_mappings s) x)"
proof -
  have "m_physical s' = m_physical s \<and> m_free s' = m_free s \<and> mappings_ok (m_mappings s') \<and> map_at (m_mappings s') x =
      map_option (\<lambda>i. if x \<in> {vaddr..<vaddr + bytes} then set_access prot mode gpu_mode i else i) (map_at (m_mappings s) x)"
  proof (cases "bytes = 0")
    case True
    then show ?thesis using ok by (simp add: s'_def PhysicalMemory_ProtectMapping_def option.map_ident)
  next
    case False
    have t: "table_ok ab_map_vaddr ab_map_size (m_mappings s)" "\<forall>b\<in>set (m_mappings s). mapping_ok b"
      using ok by (simp_all add: mappings_ok_def)
    note e = protect.edit_all [OF t, of vaddr bytes prot mode gpu_mode]
    have "s' = s\<lparr>m_mappings := concat (map (protect_pieces vaddr bytes prot mode gpu_mode) (m_mappings s))\<rparr>"
      using False fits unfolding s'_def PhysicalMemory_ProtectMapping_def by auto
    then show ?thesis using e(1,2) e(3) [of x] by (cases "map_at (m_mappings s) x") (simp_all add: mappings_ok_def map_at_def)
  qed
  then show "m_physical s' = m_physical s \<and> m_free s' = m_free s \<and> mappings_ok (m_mappings s')"
    "map_at (m_mappings s') x =
      map_option (\<lambda>i. if x \<in> {vaddr..<vaddr + bytes} then set_access prot mode gpu_mode i else i) (map_at (m_mappings s) x)" by blast+
qed

section \<open>Queries\<close>

lemma allocated_span_spec:
  "blocks_ok m \<Longrightarrow> (case allocated_span c e m of
      None \<Rightarrow> \<not> direct_owned m {c..<e}
    | Some ps \<Rightarrow> direct_owned m {c..<e} \<and> table_ok ab_start_addr ab_size ps \<and> (\<forall>b\<in>set ps. c \<le> ab_start_addr b \<and> 0 < ab_size b) \<and>
        (\<forall>x. view ab_start_addr ab_size (\<lambda>b x. (ab_memory_type b, ab_pool_expansion b)) ps x = (if x \<in> {c..<e} then owner m x else None)))"
proof (induction c e m rule: allocated_span.induct)
  case (1 c e m)
  let ?before = "before_ub c m" and ?b = "snd (last (before_ub c m))"
  let ?y = "ab_start_addr ?b + ab_size ?b" and ?w = "\<lambda>b x. (ab_memory_type b, ab_pool_expansion b)"
  let ?k = "min e ?y"
  let ?part = "?b\<lparr>ab_start_addr := c, ab_size := ?k - c\<rparr>"
  show ?case
  proof (cases "c < e")
    case False
    then show ?thesis by (subst allocated_span.simps) (simp add: direct_owned_def)
  next
    case lt: True
    show ?thesis
    proof (cases "?before = [] \<or> ab_pool_expansion ?b \<or> c < ab_start_addr ?b \<or> c \<ge> ?y")
      case True
      have "\<not> (\<exists>t. owner m c = Some (t, False))"
      proof (cases "?before = []")
        case True
        then show ?thesis using owner_last(1) [OF 1(2)] by (simp add: owner_None_iff [symmetric])
      next
        case False
        then show ?thesis using True owner_holder(1,3) [OF 1(2) False] owner_holder(2) [OF 1(2) False, of c] by (cases "c \<ge> ?y") auto
      qed
      then have "\<not> direct_owned m {c..<e}" using lt direct_ownedD [of m c e c] by auto
      moreover have "allocated_span c e m = None" 
        unfolding allocated_span.simps [of c e m] Let_def if_P [OF lt] using True by (cases "?before = []") (simp_all only: if_True if_False simp_thms)
      ultimately show ?thesis by simp
    next
      case False
      then have ne: "?before \<noteq> []" and g: "\<not> (ab_pool_expansion ?b \<or> c < ab_start_addr ?b \<or> c \<ge> ?y)" by blast+
      note h = owner_holder [OF 1(2) ne]
      have k: "c < ?k" "?k \<le> e" "c \<le> ?k" using lt g by auto
      have ck: "c + ab_size ?part = ?k" using k by simp
      have here: "owner m x = Some (ab_memory_type ?b, False)" if "c \<le> x" "x < ?k" for x using g that h(2) [of x] by auto
      show ?thesis
      proof (cases "?k < e \<and> (from_ub c m = [] \<or> ab_start_addr (snd (hd (from_ub c m))) \<noteq> ?k)")
        case True
        then have "?k = ?y" by auto
        then have "owner m ?k = None" using h(4) True g by fastforce
        then have "\<not> direct_owned m {c..<e}" using True k direct_ownedD [of m c e ?k] by auto
        moreover have "allocated_span c e m = None"
          unfolding allocated_span.simps [of c e m] Let_def ck using True g ne lt by (simp only: if_True if_False simp_thms)
        ultimately show ?thesis by simp
      next
        case next_ok: False
        have eq: "allocated_span c e m = map_option ((#) ?part) (allocated_span ?k e m)"
          unfolding allocated_span.simps [of c e m] Let_def ck using next_ok g ne lt by (simp only: if_True if_False)
        have IH: "case allocated_span ?k e m of
            None \<Rightarrow> \<not> direct_owned m {?k..<e}
          | Some ps \<Rightarrow> direct_owned m {?k..<e} \<and> table_ok ab_start_addr ab_size ps \<and> (\<forall>b\<in>set ps. ?k \<le> ab_start_addr b \<and> 0 < ab_size b) \<and>
              (\<forall>x. view ab_start_addr ab_size ?w ps x = (if x \<in> {?k..<e} then owner m x else None))"
          using 1(1) [OF lt refl refl refl refl refl refl ne g _ 1(2)] next_ok unfolding ck by blast
        have split: "direct_owned m {c..<e} \<longleftrightarrow> direct_owned m {?k..<e}"
          using direct_owned_split [OF k(3,2), of m] here by (auto simp: direct_owned_def)
        show ?thesis
        proof (cases "allocated_span ?k e m")
          case None
          then show ?thesis using IH split eq by simp
        next
          case (Some ps)
          have ps: "direct_owned m {?k..<e}" "table_ok ab_start_addr ab_size ps" "\<forall>b\<in>set ps. ?k \<le> ab_start_addr b \<and> 0 < ab_size b"
            "\<And>x. view ab_start_addr ab_size ?w ps x = (if x \<in> {?k..<e} then owner m x else None)"
            using IH unfolding Some by auto
          have iv: "iv ab_start_addr ab_size ?part = {c..<?k}" using k by (auto simp: iv_def)
          have "{c..<?k} \<inter> table_bytes ab_start_addr ab_size ps = {}" using ps(3) by (fastforce simp: table_bytes_def)
          then have "table_ok ab_start_addr ab_size (?part # ps)" using ps(2) by (simp only: table_ok_Cons iv simp_thms)
          moreover have "view ab_start_addr ab_size ?w (?part # ps) x = (if x \<in> {c..<e} then owner m x else None)" for x
          proof (cases "x \<in> {c..<?k}")
            case True
            then show ?thesis using here [of x] k g by (simp add: iv del: mem_iv)
          next
            case False
            then have "view ab_start_addr ab_size ?w (?part # ps) x = view ab_start_addr ab_size ?w ps x" by (simp only: view.simps iv if_False)
            then show ?thesis using False k ps(4) [of x] by auto
          qed
          moreover have "\<forall>b\<in>set (?part # ps). c \<le> ab_start_addr b \<and> 0 < ab_size b" using ps(3) k by auto
          ultimately show ?thesis using eq Some split ps(1) by simp
        qed
      qed
    qed
  qed
qed

lemma available_scan_spec:
  assumes "fl_ok m" and "se \<le> UINT64_MAX" and "available_scan ss se al (a, n) m = (a', n')"
  shows "n \<le> n' \<and> ((a', n') = (a, n) \<or> 0 < n' \<and> fits_at ss se n' al (fl_bytes m) a') \<and>
    (\<forall>q k. 0 < k \<and> fits_at ss se k al (fl_bytes m) q \<longrightarrow> k \<le> n')"
  using assms(1,3)
proof (induction m arbitrary: a n)
  case Nil
  then show ?case by (fastforce simp: fits_at_def)
next
  case (Cons e m)
  obtain s z where e: "e = (s, z)" by fastforce
  have m: "0 < z" "\<forall>x\<in>set m. s + z < fst x" "fl_ok m" using Cons.prems(1) e by (auto simp: fl_ok_Cons)
  let ?lb = "max s ss" and ?re = "min (s + z) se"
  have split: "fits_at ss se k al (fl_bytes (e # m)) q \<longleftrightarrow>
      (?lb \<le> q \<and> q + k \<le> ?re \<and> is_aligned al q) \<or> fits_at ss se k al (fl_bytes m) q" if "0 < k" for k q
    unfolding fits_at_one [OF Cons.prems(1) that] fits_at_one [OF m(3) that] using e by auto
  show ?case
  proof (cases "s \<ge> se")
    case True
    have "\<not> fits_at ss se k al (fl_bytes (e # m)) q" if "0 < k" for k q
      unfolding fits_at_one [OF Cons.prems(1) that] using True m e that by fastforce
    then show ?thesis using Cons.prems(2) True e by auto
  next
    case lt: False
    have step: ?thesis if "available_scan ss se al (b, j) m = (a', n')" "n \<le> j" "(b, j) = (a, n) \<or> 0 < j \<and> fits_at ss se j al (fl_bytes (e # m)) b"
      "\<And>q k. 0 < k \<Longrightarrow> ?lb \<le> q \<Longrightarrow> q + k \<le> ?re \<Longrightarrow> is_aligned al q \<Longrightarrow> k \<le> j" for b j
    proof -
      note IH = Cons.IH [OF m(3) that(1)]
      have up: "fits_at ss se n' al (fl_bytes (e # m)) a'" if "0 < n'" "fits_at ss se n' al (fl_bytes m) a'" using split that by blast
      have "k \<le> n'" if k: "0 < k" "fits_at ss se k al (fl_bytes (e # m)) q" for k q
        using k(2) [unfolded split [OF k(1)]] IH \<open>\<And>q k. 0 < k \<Longrightarrow> ?lb \<le> q \<Longrightarrow> q + k \<le> ?re \<Longrightarrow> is_aligned al q \<Longrightarrow> k \<le> j\<close> [OF k(1)] k(1)
        by (meson le_trans)
      moreover have "n \<le> n'" using IH that(2) by simp
      moreover have "(a', n') = (a, n) \<or> 0 < n' \<and> fits_at ss se n' al (fl_bytes (e # m)) a'" using IH that(3) up by auto
      ultimately show ?thesis by blast
    qed
    show ?thesis
    proof (cases "GetAlignedPos ?lb al")
      case None
      have "False" if "0 < k" "?lb \<le> q" "q + k \<le> ?re" "is_aligned al q" for q k
      proof -
        have "?lb \<le> UINT64_MAX" using that assms(2) by linarith
        then show False using GetAlignedPos_spec [of ?lb al] None that assms(2) by fastforce
      qed
      then show ?thesis using Cons.prems(2) None lt e by (intro step [of a n]) (auto simp: Let_def)
    next
      case (Some p)
      have least: "p \<le> q \<and> ?lb \<le> p \<and> is_aligned al p" if "0 < k" "?lb \<le> q" "q + k \<le> ?re" "is_aligned al q" for q k
      proof -
        have "?lb \<le> UINT64_MAX" using that assms(2) by linarith
        then show ?thesis using GetAlignedPos_spec [of ?lb al] Some that by auto
      qed
      show ?thesis
      proof (cases "p \<ge> ?lb \<and> p < ?re \<and> ?re - p > n")
        case True
        have eq: "available_scan ss se al (a, n) (e # m) = available_scan ss se al (p, ?re - p) m"
          using Some True lt e by (simp add: Let_def)
        have "?lb \<le> UINT64_MAX" using True assms(2) by linarith
        then have "is_aligned al p" using GetAlignedPos_spec [of ?lb al] Some by auto
        then have "fits_at ss se (?re - p) al (fl_bytes (e # m)) p" using True split [of "?re - p" p] by auto
        moreover have "k \<le> ?re - p" if "0 < k" "?lb \<le> q" "q + k \<le> ?re" "is_aligned al q" for q k
          using least [OF that] that(3) by linarith
        moreover have "available_scan ss se al (p, ?re - p) m = (a', n')" using Cons.prems(2) eq by simp
        ultimately show ?thesis using True by (intro step [of p "?re - p"]) auto
      next
        case False
        have eq: "available_scan ss se al (a, n) (e # m) = available_scan ss se al (a, n) m"
          using Some False lt e by (auto simp: Let_def)
        have "k \<le> n" if "0 < k" "?lb \<le> q" "q + k \<le> ?re" "is_aligned al q" for q k
          using least [OF that] that False by linarith
        then show ?thesis using Cons.prems(2) eq by (intro step [of a n]) auto
      qed
    qed
  qed
qed

lemma PhysicalMemory_Available_spec:
  assumes ok: "pm_ok phys_size s" and sz: "phys_size \<le> UINT64_MAX"
  shows "case PhysicalMemory_Available phys_size ss se al s of
      None \<Rightarrow> \<not> (\<exists>a n. 0 < n \<and> fits_at ss (min se phys_size) n al (fl_bytes (m_free s)) a)
    | Some (a, n) \<Rightarrow> 0 < n \<and> fits_at ss (min se phys_size) n al (fl_bytes (m_free s)) a \<and>
        (\<forall>q k. 0 < k \<and> fits_at ss (min se phys_size) k al (fl_bytes (m_free s)) q \<longrightarrow> k \<le> n)"
proof (cases "ss \<ge> min se phys_size")
  case True
  then have "\<not> (\<exists>a n. 0 < n \<and> fits_at ss (min se phys_size) n al (fl_bytes (m_free s)) a)"
    by (auto simp: fits_at_def)
  then show ?thesis using True by (simp add: PhysicalMemory_Available_def Let_def)
next
  case False
  obtain a n where r: "available_scan ss (min se phys_size) al (0, 0) (m_free s) = (a, n)" by fastforce
  have "fl_ok (m_free s)" "min se phys_size \<le> UINT64_MAX" using ok sz by (auto simp: pm_ok_def)
  note sp = available_scan_spec [OF this r]
  show ?thesis
  proof (cases "n = 0")
    case True
    then have "PhysicalMemory_Available phys_size ss se al s = None" using False r by (simp add: PhysicalMemory_Available_def Let_def)
    then show ?thesis using sp True by auto
  next
    case n: False
    then have "PhysicalMemory_Available phys_size ss se al s = Some (a, n)" using False r by (simp add: PhysicalMemory_Available_def Let_def)
    then show ?thesis using sp n by auto
  qed
qed

section \<open>Reachable states\<close>

text \<open>One call; None is a process that exited. \<open>map\<close> is used on virtual memory that is not mapped yet.\<close>

inductive pm_step :: "u64 \<Rightarrow> physical_memory \<Rightarrow> physical_memory option \<Rightarrow> bool" for phys_size where
  alloc: "0 < len \<Longrightarrow> pm_step phys_size s (map_option snd (PhysicalMemory_Alloc phys_size ss se len al mt pool s))"
| release: "0 < len \<Longrightarrow> pm_step phys_size s (Some (snd (PhysicalMemory_Release start len s)))"
| release_pool: "pm_step phys_size s (Some (snd (PhysicalMemory_ReleasePoolExpansion start len s)))"
| map: "vaddr + len \<le> UINT64_MAX \<Longrightarrow> {vaddr..<vaddr + len} \<inter> table_bytes ab_map_vaddr ab_map_size (m_mappings s) = {} \<Longrightarrow>
    pm_step phys_size s (Some (snd (PhysicalMemory_Map vaddr phys_addr len prot md gpu_mode s)))"
| unmap: "0 < bytes \<Longrightarrow> vaddr + bytes \<le> UINT64_MAX \<Longrightarrow> pm_step phys_size s (Some (snd (PhysicalMemory_Unmap vaddr bytes s)))"
| protect: "vaddr + bytes \<le> UINT64_MAX \<Longrightarrow>
    pm_step phys_size s (Some (PhysicalMemory_ProtectMapping vaddr bytes prot md gpu_mode s))"

inductive pm_reachable :: "u64 \<Rightarrow> physical_memory option \<Rightarrow> bool" for phys_size where
  init: "pm_reachable phys_size (Some (new_physical_memory phys_size))"
| step: "pm_reachable phys_size (Some s) \<Longrightarrow> pm_step phys_size s t \<Longrightarrow> pm_reachable phys_size t"

inductive_cases pm_stepE: "pm_step phys_size s t"

lemma pm_step_safe:
  assumes ok: "pm_ok phys_size s" "mappings_ok (m_mappings s)" and sz: "phys_size \<le> UINT64_MAX" and st: "pm_step phys_size s t"
  shows "\<exists>s'. t = Some s' \<and> pm_ok phys_size s' \<and> mappings_ok (m_mappings s')"
  using st
proof cases
  case (alloc len ss se al mt pool)
  then show ?thesis using PhysicalMemory_Alloc_spec [OF ok(1) alloc(2) sz, of ss se al mt pool] ok(2) by auto
next
  case (release len start)
  obtain r s' where r: "PhysicalMemory_Release start len s = (r, s')" by fastforce
  then show ?thesis using release PhysicalMemory_Release_spec(1,2) [OF ok(1) release(2) r] ok(2) by simp
next
  case (release_pool start len)
  obtain r s' where r: "PhysicalMemory_ReleasePoolExpansion start len s = (r, s')" by fastforce
  then show ?thesis using release_pool PhysicalMemory_ReleasePoolExpansion_spec(1,2) [OF ok(1) r] ok(2) by simp
next
  case (map vaddr len phys_addr prot md gpu_mode)
  obtain r s' where r: "PhysicalMemory_Map vaddr phys_addr len prot md gpu_mode s = (r, s')" by fastforce
  then show ?thesis using map(1) PhysicalMemory_Map_spec(2) [OF ok sz map(2,3) r] ok(1) by (simp add: pm_ok_def)
next
  case (unmap bytes vaddr)
  obtain r s' where r: "PhysicalMemory_Unmap vaddr bytes s = (r, s')" by fastforce
  then show ?thesis using unmap PhysicalMemory_Unmap_spec(1) [OF ok(2) unmap(2,3) r] ok(1) by (simp add: pm_ok_def)
next
  case (protect vaddr bytes prot md gpu_mode)
  then show ?thesis using PhysicalMemory_ProtectMapping_spec(1) [OF ok(2) protect(2), of prot md gpu_mode] ok(1) by (simp add: pm_ok_def)
qed

lemma pm_reachable_safe:
  "pm_reachable phys_size t \<Longrightarrow> 0 < phys_size \<Longrightarrow> phys_size \<le> UINT64_MAX \<Longrightarrow>
    \<exists>s. t = Some s \<and> pm_ok phys_size s \<and> mappings_ok (m_mappings s)"
proof (induction rule: pm_reachable.induct)
  case init
  then show ?case using pm_ok_new by (simp add: new_physical_memory_def mappings_ok_def)
next
  case (step s t)
  then show ?case using pm_step_safe by blast
qed

lemma erase_emplace: "smap_ok m \<Longrightarrow> k \<notin> fst ` set m \<Longrightarrow> erase_key k (emplace k v m) = m"
proof -
  assume ok: "smap_ok m" "k \<notin> fst ` set m"
  have "smap_ok (before_lb k m @ (k, v) # from_lb k m)" using smap_ok_emplace [OF ok(1), of k v] emplace_lb [OF ok, of v] by simp
  then show ?thesis using erase_key_split emplace_lb [OF ok, of v] lb_split by metis
qed

lemma alloc_release:
  assumes ok: "pm_ok phys_size s" and n: "0 < len" and sz: "phys_size \<le> UINT64_MAX"
    and al: "PhysicalMemory_Alloc phys_size ss se len al mt False s = Some (Some a, s1)"
    and re: "PhysicalMemory_Release a len s1 = (r, s2)"
  shows "r \<noteq> None \<and> s2 = s"
proof -
  let ?b = "new_block a len mt False"
  note sp = PhysicalMemory_Alloc_spec [OF ok n sz, of ss se al mt False, unfolded al]
  have ok1: "pm_ok phys_size s1" and free1: "fl_bytes (m_free s1) = fl_bytes (m_free s) - {a..<a + len}"
    and sub: "{a..<a + len} \<subseteq> fl_bytes (m_free s)" and map1: "m_mappings s1 = m_mappings s"
    using sp by (auto simp: fits_at_def)
  have nk: "a \<notin> fst ` set (m_physical s)"
  proof
    assume "a \<in> fst ` set (m_physical s)"
    then obtain e where e: "e \<in> set (m_physical s)" "fst e = a" by blast
    then have "0 < ab_size (snd e)" using blocks_ok_block [OF _ e(1)] ok by (simp add: pm_ok_def block_ok_def)
    then have "a \<in> blk_bytes (m_physical s)" using e by (auto simp: table_bytes_def)
    moreover have "a \<in> fl_bytes (m_free s)" using subsetD [OF sub, of a] n by simp
    ultimately show False using ok unfolding pm_ok_def by blast
  qed
  have ph1: "m_physical s1 = emplace a ?b (m_physical s)"
    using al nk by (simp add: PhysicalMemory_Alloc_def Let_def bind_eq_Some_iff split: if_splits option.splits prod.splits) auto
  have okb: "smap_ok (m_physical s)" using ok blocks_ok_smap_ok by (auto simp: pm_ok_def)
  have okb1: "blocks_ok (m_physical s1)" using ok1 by (simp add: pm_ok_def)
  have mem: "(a, ?b) \<in> set (m_physical s1)" using set_emplace [OF nk] ph1 by simp
  have rel: "releasable a len (m_physical s1) (a, ?b)" using mem by (simp add: releasable_def new_block_def)
  obtain p e q where y: "m_physical s1 = p @ e # q" "releasable a len (m_physical s1) e" "r = Some (0, 0, ab_gpu_mode (snd e))"
      "s2 = s1\<lparr>m_physical := p @ left_over a len e @ q, m_free := AddFreeRange a len (m_free s1)\<rparr>"
    using PhysicalMemory_Release_cases [OF okb1 n, of a] re rel by auto
  have "a \<in> blk_iv e" "a \<in> blk_iv (a, ?b)" using y(2) n by (auto simp: releasable_def new_block_def)
  then have e: "e = (a, ?b)" using table_ok_unique [OF blocks_ok_table_ok [OF okb1] _ mem] y(2) unfolding releasable_def by blast
  have "left_over a len e = []" using e by (simp add: left_over_def new_block_def)
  moreover have "smap_ok (p @ (a, ?b) # q)" using blocks_ok_smap_ok [OF okb1] y(1) e by simp
  then have "p @ q = m_physical s" using erase_key_split erase_emplace [OF okb nk] y(1) e ph1 by metis
  ultimately have "m_physical s2 = m_physical s" using y(4) by simp
  moreover have "m_free s2 = m_free s"
  proof (rule fl_canonical)
    have f1: "fl_ok (m_free s1)" using ok1 by (simp add: pm_ok_def)
    show "fl_ok (m_free s2)" "fl_ok (m_free s)" using y(4) AddFreeRange_spec(1) [OF f1 n] ok by (simp_all add: pm_ok_def)
    show "fl_bytes (m_free s2) = fl_bytes (m_free s)" using y(4) AddFreeRange_spec(2) [OF f1 n, of a] free1 sub by auto
  qed
  moreover have "m_mappings s2 = m_mappings s" using y(4) map1 by simp
  ultimately show ?thesis using y(3) by simp
qed

section \<open>Properties\<close>

text \<open>
  C3: From the initial state, no sequence of calls (allocation, releases, mapping, unmapping,
  protection; mapping only where nothing is mapped) exits the process, and after each the
  allocated blocks and the free ranges partition the physical memory, the free list is coalesced
  and the mappings are disjoint.
\<close>

theorem physical_memory_safe:
  assumes "pm_reachable phys_size t" and "0 < phys_size" and "phys_size \<le> UINT64_MAX"
  shows "\<exists>s. t = Some s \<and> pm_ok phys_size s \<and> mappings_ok (m_mappings s)"
  using pm_reachable_safe assms .

abbreviation pm_after_alloc :: physical_memory where
  "pm_after_alloc \<equiv> \<lparr>m_physical = [(32768, new_block 32768 65536 0 False)], m_free = [(0, 32768), (98304, 950272)], m_mappings = []\<rparr>"

lemma pm_alloc_example:
  "PhysicalMemory_Alloc 1048576 20000 1048576 65536 32768 0 False (new_physical_memory 1048576) = Some (Some 32768, pm_after_alloc)"
  by (simp add: PhysicalMemory_Alloc_def new_physical_memory_def Let_def step_back_def before_ub_def from_ub_def GetAlignedPos_def
    ConsumeFreeRange_def erase_key_def)

lemma physical_memory_safe_witness:
  "pm_reachable 1048576 (Some pm_after_alloc) \<and> pm_ok 1048576 pm_after_alloc"
proof -
  have "pm_reachable 1048576 (Some pm_after_alloc)"
    using pm_reachable.step [OF pm_reachable.init pm_step.alloc, of 65536 1048576 20000 1048576 32768 0 False]
    by (simp add: pm_alloc_example)
  moreover from this have "pm_ok 1048576 pm_after_alloc" using physical_memory_safe [of 1048576] by auto
  ultimately show ?thesis by blast
qed

text \<open>
  C35: \<open>Alloc\<close> is first fit: it returns the lowest address in the search window at which an aligned
  run of the requested length is free, and fails only when there is none; it takes exactly that
  run from the free memory and changes the owner of no other byte.
\<close>

theorem alloc_first_fit:
  assumes "pm_ok phys_size s" and "0 < len" and "phys_size \<le> UINT64_MAX"
  shows "\<exists>r s'. PhysicalMemory_Alloc phys_size ss se len al mt pool s = Some (r, s') \<and> pm_ok phys_size s' \<and>
    (case r of None \<Rightarrow> s' = s \<and> \<not> (\<exists>a. fits_at ss (min se phys_size) len al (fl_bytes (m_free s)) a)
     | Some a \<Rightarrow> fits_at ss (min se phys_size) len al (fl_bytes (m_free s)) a \<and>
         (\<forall>q. fits_at ss (min se phys_size) len al (fl_bytes (m_free s)) q \<longrightarrow> a \<le> q) \<and>
         fl_bytes (m_free s') = fl_bytes (m_free s) - {a..<a + len} \<and>
         (\<forall>x. owner (m_physical s') x = (if x \<in> {a..<a + len} then Some (mt, pool) else owner (m_physical s) x)))"
  using PhysicalMemory_Alloc_spec [OF assms, of ss se al mt pool] by blast

lemma alloc_first_fit_witness:
  "PhysicalMemory_Alloc 1048576 20000 1048576 65536 32768 0 False (new_physical_memory 1048576) = Some (Some 32768, pm_after_alloc) \<and>
   fits_at 20000 (min 1048576 1048576) 65536 32768 (fl_bytes (m_free (new_physical_memory 1048576))) 32768"
proof -
  have "pm_ok 1048576 (new_physical_memory 1048576)" by (rule pm_ok_new) simp
  from alloc_first_fit [OF this, of 65536 20000 1048576 32768 0 False] show ?thesis by (auto simp: pm_alloc_example)
qed

text \<open>
  Releasing exactly what \<open>Alloc\<close> returned always succeeds and restores the state completely:
  the blocks, the mappings and the free list, ranges and all.
\<close>

lemma alloc_release_roundtrip:
  assumes "pm_ok phys_size s" and "0 < len" and "phys_size \<le> UINT64_MAX"
    and "PhysicalMemory_Alloc phys_size ss se len al mt False s = Some (Some a, s1)"
    and "PhysicalMemory_Release a len s1 = (r, s2)"
  shows "r \<noteq> None \<and> s2 = s"
  using alloc_release [OF assms] .

lemma alloc_release_roundtrip_witness:
  "snd (PhysicalMemory_Release 32768 65536 pm_after_alloc) = new_physical_memory 1048576"
proof -
  have ok: "pm_ok 1048576 (new_physical_memory 1048576)" by (rule pm_ok_new) simp
  obtain r s2 where r: "PhysicalMemory_Release 32768 65536 pm_after_alloc = (r, s2)" by fastforce
  have "s2 = new_physical_memory 1048576"
    using alloc_release_roundtrip [OF ok _ _ pm_alloc_example r] by simp
  then show ?thesis using r by simp
qed

text \<open>
  \<open>Release\<close> succeeds exactly when the range lies inside one allocated block that is not a pool
  expansion; it then frees exactly those bytes and leaves the owner of every other byte as it was,
  whichever of the four ways the block is cut. It never reports a mapped range (the blocks of
  \<open>m_physical\<close> carry none), and on failure nothing changes.
\<close>

lemma release_exact:
  assumes "pm_ok phys_size s" and "0 < len" and "PhysicalMemory_Release start len s = (r, s')"
  shows "pm_ok phys_size s' \<and> (r \<noteq> None \<longleftrightarrow> (\<exists>e. releasable start len (m_physical s) e)) \<and>
    (case r of None \<Rightarrow> s' = s
     | Some (v, k, g) \<Rightarrow> v = 0 \<and> k = 0 \<and> fl_bytes (m_free s') = fl_bytes (m_free s) \<union> {start..<start + len} \<and>
         (\<forall>x. owner (m_physical s') x = (if x \<in> {start..<start + len} then None else owner (m_physical s) x)))"
  using PhysicalMemory_Release_spec [OF assms] by (cases r) auto

lemma release_exact_witness:
  "PhysicalMemory_Release 49152 16384 pm_after_alloc = (Some (0, 0, GpuNoAccess),
     \<lparr>m_physical = [(32768, new_block 32768 16384 0 False), (65536, new_block 65536 32768 0 False)],
      m_free = [(0, 32768), (49152, 16384), (98304, 950272)], m_mappings = []\<rparr>) \<and>
   pm_ok 1048576 (snd (PhysicalMemory_Release 49152 16384 pm_after_alloc))"
proof -
  have ok: "pm_ok 1048576 pm_after_alloc"
    using PhysicalMemory_Alloc_spec [OF pm_ok_new, of 1048576 65536 20000 1048576 32768 0 False] by (auto simp: pm_alloc_example)
  have r: "PhysicalMemory_Release 49152 16384 pm_after_alloc = (Some (0, 0, GpuNoAccess),
     \<lparr>m_physical = [(32768, new_block 32768 16384 0 False), (65536, new_block 65536 32768 0 False)],
      m_free = [(0, 32768), (49152, 16384), (98304, 950272)], m_mappings = []\<rparr>)"
    by (simp add: PhysicalMemory_Release_def Let_def before_ub_def new_block_def AddFreeRange_def before_lb_def from_lb_def)
  then show ?thesis using release_exact [OF ok _ r] by simp
qed

text \<open>
  C36: \<open>CanMapDirect\<close>, \<open>Map\<close> and \<open>GetAllocatedSpan\<close> agree: each succeeds exactly when the span is not
  empty and every byte of it is allocated and not in the memory pool. The new mapping sends each
  virtual byte to its physical byte with the given protection; the parts returned by
  \<open>GetAllocatedSpan\<close> carry the owner of every byte of the span.
\<close>

theorem map_exactly_allocated:
  assumes "pm_ok phys_size s" and "mappings_ok (m_mappings s)" and "phys_size \<le> UINT64_MAX"
    and "vaddr + len \<le> UINT64_MAX" and "{vaddr..<vaddr + len} \<inter> table_bytes ab_map_vaddr ab_map_size (m_mappings s) = {}"
    and "PhysicalMemory_Map vaddr phys_addr len prot mode gpu_mode s = (b, s')"
  shows "(b \<longleftrightarrow> 0 < len \<and> direct_owned (m_physical s) {phys_addr..<phys_addr + len}) \<and>
    (PhysicalMemory_CanMapDirect phys_addr len s \<longleftrightarrow> b) \<and>
    (\<forall>x. map_option (\<lambda>i. (mi_phys i, mi_prot i, mi_mode i, mi_gpu_mode i)) (map_at (m_mappings s') x) =
      (if b \<and> x \<in> {vaddr..<vaddr + len} then Some (phys_addr + (x - vaddr), prot, mode, gpu_mode)
       else map_option (\<lambda>i. (mi_phys i, mi_prot i, mi_mode i, mi_gpu_mode i)) (map_at (m_mappings s) x))) \<and>
    (case PhysicalMemory_GetAllocatedSpan phys_addr len s of
       None \<Rightarrow> \<not> b
     | Some ps \<Rightarrow> b \<and> (\<forall>x. view ab_start_addr ab_size (\<lambda>b x. (ab_memory_type b, ab_pool_expansion b)) ps x =
         (if x \<in> {phys_addr..<phys_addr + len} then owner (m_physical s) x else None)))"
proof -
  note sp = PhysicalMemory_Map_spec [OF assms]
  have okb: "blocks_ok (m_physical s)" using assms(1) by (simp add: pm_ok_def)
  have "map_option (\<lambda>i. (mi_phys i, mi_prot i, mi_mode i, mi_gpu_mode i)) (map_at (m_mappings s') x) =
      (if b \<and> x \<in> {vaddr..<vaddr + len} then Some (phys_addr + (x - vaddr), prot, mode, gpu_mode)
       else map_option (\<lambda>i. (mi_phys i, mi_prot i, mi_mode i, mi_gpu_mode i)) (map_at (m_mappings s) x))" for x
    unfolding sp(3) [of x] by simp
  moreover have "case PhysicalMemory_GetAllocatedSpan phys_addr len s of
       None \<Rightarrow> \<not> b
     | Some ps \<Rightarrow> b \<and> (\<forall>x. view ab_start_addr ab_size (\<lambda>b x. (ab_memory_type b, ab_pool_expansion b)) ps x =
         (if x \<in> {phys_addr..<phys_addr + len} then owner (m_physical s) x else None))"
  proof (cases "len = 0 \<or> UINT64_MAX - phys_addr < len")
    case True
    then have "\<not> b" using sp(4) by (auto simp: PhysicalMemory_CanMapDirect_def)
    then show ?thesis using True by (simp add: PhysicalMemory_GetAllocatedSpan_def)
  next
    case False
    then show ?thesis using allocated_span_spec [OF okb, of phys_addr "phys_addr + len"] sp(1)
      by (auto simp: PhysicalMemory_GetAllocatedSpan_def split: option.splits)
  qed
  ultimately show ?thesis using sp(1,4) by blast
qed

lemma map_exactly_allocated_witness:
  "fst (PhysicalMemory_Map 1073741824 40960 16384 3 ReadWrite GpuReadWrite pm_after_alloc) \<and>
   PhysicalMemory_CanMapDirect 40960 16384 pm_after_alloc \<and>
   map_at (m_mappings (snd (PhysicalMemory_Map 1073741824 40960 16384 3 ReadWrite GpuReadWrite pm_after_alloc))) 1073741825 \<noteq> None"
proof -
  have ok: "pm_ok 1048576 pm_after_alloc"
    using PhysicalMemory_Alloc_spec [OF pm_ok_new, of 1048576 65536 20000 1048576 32768 0 False] by (auto simp: pm_alloc_example)
  obtain b s' where r: "PhysicalMemory_Map 1073741824 40960 16384 3 ReadWrite GpuReadWrite pm_after_alloc = (b, s')" by fastforce
  have b: "b" using r by (simp add: PhysicalMemory_Map_def before_ub_def direct_span.simps from_ub_def new_block_def split: if_splits)
  have "map_at (m_mappings s') 1073741825 \<noteq> None \<and> PhysicalMemory_CanMapDirect 40960 16384 pm_after_alloc"
    using map_exactly_allocated [OF ok _ _ _ _ r] b by (auto simp: mappings_ok_def map_option_case split: option.splits)
  then show ?thesis using b r by simp
qed

lemma Find_block_spec:
  assumes ok: "blocks_ok m" and s: "m_physical s = m"
  shows "PhysicalMemory_Find_block a False s = None \<longleftrightarrow> a \<notin> blk_bytes m"
    and "PhysicalMemory_Find_block a nx s = Some b \<Longrightarrow> a \<in> blk_bytes m \<Longrightarrow>
      owner m a = Some (ab_memory_type b, ab_pool_expansion b)"
proof -
  have "(PhysicalMemory_Find_block a False s = None \<longleftrightarrow> a \<notin> blk_bytes m) \<and>
    (PhysicalMemory_Find_block a nx s = Some b \<longrightarrow> a \<in> blk_bytes m \<longrightarrow> owner m a = Some (ab_memory_type b, ab_pool_expansion b))"
  proof (cases "before_ub a m = []")
    case True
    then show ?thesis using owner_last(1) [OF ok True] s by (simp add: PhysicalMemory_Find_block_def)
  next
    case False
    note h = owner_holder [OF ok False]
    have "a \<in> blk_bytes m \<longleftrightarrow> a < ab_start_addr (snd (last (before_ub a m))) + ab_size (snd (last (before_ub a m)))"
      using h(1) h(2) [of a] h(3) owner_None_iff [of m a] by (metis not_le option.distinct(1))
    then show ?thesis using False h(1) h(2) [of a] s by (auto simp: PhysicalMemory_Find_block_def Let_def)
  qed
  then show "PhysicalMemory_Find_block a False s = None \<longleftrightarrow> a \<notin> blk_bytes m"
    "PhysicalMemory_Find_block a nx s = Some b \<Longrightarrow> a \<in> blk_bytes m \<Longrightarrow> owner m a = Some (ab_memory_type b, ab_pool_expansion b)"
    by blast+
qed

lemma Find_mapping_spec:
  "map_option (\<lambda>(base, n, p, m, g). (p, m, g)) (PhysicalMemory_Find_mapping a s) =
    map_option (\<lambda>i. (mi_prot i, mi_mode i, mi_gpu_mode i)) (map_at (m_mappings s) a)"
proof -
  have "map_option (\<lambda>b. (ab_prot b, ab_mode b, ab_gpu_mode b)) (find (\<lambda>b. a \<ge> ab_map_vaddr b \<and> a < ab_map_vaddr b + ab_map_size b) bs) =
    map_option (\<lambda>i. (mi_prot i, mi_mode i, mi_gpu_mode i)) (view ab_map_vaddr ab_map_size map_info bs a)" for bs
    by (induction bs) (auto simp: map_info_def)
  then show ?thesis by (simp add: PhysicalMemory_Find_mapping_def map_at_def option.map_comp comp_def)
qed

text \<open>The entries \<open>FindMappings\<close> reports are the parts of the mappings that lie in the physical range.\<close>

lemma FindMappings_spec:
  assumes ok: "mappings_ok (m_mappings s)" and fits: "phys_addr + len \<le> UINT64_MAX" and n: "0 < len"
  shows "p \<in> set (PhysicalMemory_FindMappings phys_addr len s) \<longleftrightarrow>
    (\<exists>b\<in>set (m_mappings s). phys_addr < ab_start_addr b + ab_size b \<and> ab_start_addr b < phys_addr + len \<and>
      p = b\<lparr>ab_start_addr := max phys_addr (ab_start_addr b),
        ab_size := min (phys_addr + len) (ab_start_addr b + ab_size b) - max phys_addr (ab_start_addr b),
        ab_map_vaddr := ab_map_vaddr b + (max phys_addr (ab_start_addr b) - ab_start_addr b),
        ab_map_size := min (phys_addr + len) (ab_start_addr b + ab_size b) - max phys_addr (ab_start_addr b)\<rparr>)"
    and "sorted (map ab_map_vaddr (PhysicalMemory_FindMappings phys_addr len s))"
proof -
  have ov: "VirtualRangesOverlap phys_addr len (ab_start_addr b) (ab_size b) \<longleftrightarrow>
      phys_addr < ab_start_addr b + ab_size b \<and> ab_start_addr b < phys_addr + len" if "b \<in> set (m_mappings s)" for b
    using ok that by (intro overlap_fits [OF n]) (auto simp: mappings_ok_def mapping_ok_def)
  have "add64 phys_addr len = phys_addr + len" using fits by simp
  then show "p \<in> set (PhysicalMemory_FindMappings phys_addr len s) \<longleftrightarrow>
    (\<exists>b\<in>set (m_mappings s). phys_addr < ab_start_addr b + ab_size b \<and> ab_start_addr b < phys_addr + len \<and>
      p = b\<lparr>ab_start_addr := max phys_addr (ab_start_addr b),
        ab_size := min (phys_addr + len) (ab_start_addr b + ab_size b) - max phys_addr (ab_start_addr b),
        ab_map_vaddr := ab_map_vaddr b + (max phys_addr (ab_start_addr b) - ab_start_addr b),
        ab_map_size := min (phys_addr + len) (ab_start_addr b + ab_size b) - max phys_addr (ab_start_addr b)\<rparr>)"
    by (simp add: PhysicalMemory_FindMappings_def mapping_part_def Let_def ov cong: bex_cong) (auto simp: ov split: if_splits)
  show "sorted (map ab_map_vaddr (PhysicalMemory_FindMappings phys_addr len s))"
    by (simp add: PhysicalMemory_FindMappings_def)
qed

text \<open>
  \<open>Unmap\<close> succeeds exactly when one mapping holds the whole range; it then unmaps exactly these
  bytes, reports the GPU mode they had, and asks for the host range to be released exactly when
  the last byte that came from it has gone.
\<close>

lemma unmap_exact:
  assumes "mappings_ok (m_mappings s)" and "0 < bytes" and "vaddr + bytes \<le> UINT64_MAX"
    and "PhysicalMemory_Unmap vaddr bytes s = (r, s')"
  shows "mappings_ok (m_mappings s') \<and> (r \<noteq> None \<longleftrightarrow> (\<exists>b\<in>set (m_mappings s). {vaddr..<vaddr + bytes} \<subseteq> map_iv b)) \<and>
    (\<forall>x. map_at (m_mappings s') x = (if r \<noteq> None \<and> x \<in> {vaddr..<vaddr + bytes} then None else map_at (m_mappings s) x)) \<and>
    (case r of None \<Rightarrow> True
     | Some (g, h) \<Rightarrow> (\<exists>i. map_at (m_mappings s) vaddr = Some i \<and> g = mi_gpu_mode i \<and>
         h = (if 0 < snd (mi_host i) \<and> \<not> (\<exists>y j. map_at (m_mappings s') y = Some j \<and> mi_host j = mi_host i)
              then fst (mi_host i) else 0)))"
proof -
  note sp = PhysicalMemory_Unmap_spec [OF assms]
  have "case r of None \<Rightarrow> True
     | Some (g, h) \<Rightarrow> (\<exists>i. map_at (m_mappings s) vaddr = Some i \<and> g = mi_gpu_mode i \<and>
         h = (if 0 < snd (mi_host i) \<and> \<not> (\<exists>y j. map_at (m_mappings s') y = Some j \<and> mi_host j = mi_host i)
              then fst (mi_host i) else 0))"
  proof (cases r)
    case (Some p)
    obtain g h where p: "p = (g, h)" by fastforce
    show ?thesis unfolding Some p option.case prod.case by (rule sp(4)) (simp add: Some p)
  qed simp
  then show ?thesis using sp(1,2,3) by blast
qed

abbreviation pm_mapped :: AllocatedBlock where
  "pm_mapped \<equiv> (new_block 40960 32768 0 False)\<lparr>ab_map_vaddr := 1048576, ab_map_size := 32768, ab_host_vaddr := 1048576, ab_host_size := 32768\<rparr>"

lemma unmap_exact_witness:
  "fst (PhysicalMemory_Unmap 1048576 32768 \<lparr>m_physical = [], m_free = [], m_mappings = [pm_mapped]\<rparr>) = Some (GpuNoAccess, 1048576) \<and>
   fst (PhysicalMemory_Unmap 1048576 16384 \<lparr>m_physical = [], m_free = [], m_mappings = [pm_mapped]\<rparr>) = Some (GpuNoAccess, 0) \<and>
   map_at (m_mappings (snd (PhysicalMemory_Unmap 1048576 16384 \<lparr>m_physical = [], m_free = [], m_mappings = [pm_mapped]\<rparr>))) 1048580 = None"
proof -
  let ?s = "\<lparr>m_physical = [], m_free = [], m_mappings = [pm_mapped]\<rparr>"
  have v: "fst (PhysicalMemory_Unmap 1048576 32768 ?s) = Some (GpuNoAccess, 1048576)"
    "fst (PhysicalMemory_Unmap 1048576 16384 ?s) = Some (GpuNoAccess, 0)"
    by (simp_all add: PhysicalMemory_Unmap_def new_block_def Let_def)
  obtain r s' where r: "PhysicalMemory_Unmap 1048576 16384 ?s = (r, s')" by fastforce
  have ok: "mappings_ok (m_mappings ?s)" by (simp add: mappings_ok_def mapping_ok_def new_block_def)
  have "r \<noteq> None" using v(2) r by auto
  then have "map_at (m_mappings s') 1048580 = None"
    using unmap_exact [OF ok _ _ r] by simp
  then show ?thesis using v r by simp
qed

end
