(* ===== verification/IntervalSeq.thy ===== *)
theory IntervalSeq
  imports PhysicalMemory
begin

text \<open>
  Interval lists in ascending order (\<open>FlexibleMemory\<close> keeps its blocks sorted, \<open>PooledMemory\<close> its
  free ranges): sorting, cutting entries into pieces, the number of bytes; and taking an arbitrary
  run of free bytes out of a free list.
\<close>

definition seq_ok :: "('b \<Rightarrow> u64) \<Rightarrow> ('b \<Rightarrow> u64) \<Rightarrow> 'b list \<Rightarrow> bool" where
  "seq_ok st sz bs \<longleftrightarrow> sorted_wrt (\<lambda>a b. st a + sz a \<le> st b) bs"

lemma seq_ok_simps [simp]:
  "seq_ok st sz []" "seq_ok st sz (b # bs) \<longleftrightarrow> (\<forall>c\<in>set bs. st b + sz b \<le> st c) \<and> seq_ok st sz bs"
  by (simp_all add: seq_ok_def)

lemma seq_ok_append [simp]:
  "seq_ok st sz (bs @ cs) \<longleftrightarrow> seq_ok st sz bs \<and> seq_ok st sz cs \<and> (\<forall>b\<in>set bs. \<forall>c\<in>set cs. st b + sz b \<le> st c)"
  by (auto simp: seq_ok_def sorted_wrt_append)

lemma seq_ok_table_ok: "seq_ok st sz bs \<Longrightarrow> table_ok st sz bs"
  by (induction bs) (fastforce simp: table_bytes_def)+

lemma table_ok_sort: "table_ok st sz bs \<Longrightarrow> \<forall>b\<in>set bs. 0 < sz b \<Longrightarrow> seq_ok st sz (sort_key st bs)"
proof -
  assume t: "table_ok st sz bs" and p: "\<forall>b\<in>set bs. 0 < sz b"
  have t': "table_ok st sz (sort_key st bs)" using table_ok_perm [OF _ t] by simp
  have "sorted (map st cs) \<Longrightarrow> table_ok st sz cs \<Longrightarrow> \<forall>b\<in>set cs. 0 < sz b \<Longrightarrow> seq_ok st sz cs" for cs
  proof (induction cs)
    case (Cons c cs)
    have "st c + sz c \<le> st d" if d: "d \<in> set cs" for d
    proof (rule ccontr)
      assume n: "\<not> ?thesis"
      have "st c \<le> st d" using Cons.prems(1) d by simp
      then have "st d \<in> iv st sz c" "st d \<in> iv st sz d" using n d Cons.prems(3) by auto
      then show False using Cons.prems(2) d by (auto simp: table_bytes_def simp del: mem_iv)
    qed
    then show ?case using Cons by simp
  qed simp
  then show ?thesis using t' p by simp
qed

lemma view_sort: "table_ok st sz bs \<Longrightarrow> view st sz w (sort_key st bs) x = view st sz w bs x"
  by (rule view_perm) simp_all

lemma table_bytes_sort [simp]: "table_bytes st sz (sort_key k bs) = table_bytes st sz bs"
  by (simp add: table_bytes_def)

lemma seq_ok_cut:
  assumes "seq_ok st sz bs" and "\<forall>b\<in>set bs. seq_ok st sz (pcs b) \<and> (\<forall>p\<in>set (pcs b). st b \<le> st p \<and> st p + sz p \<le> st b + sz b)"
  shows "seq_ok st sz (concat (map pcs bs))"
  using assms
proof (induction bs)
  case (Cons b bs)
  have "st p + sz p \<le> st q" if "p \<in> set (pcs b)" "q \<in> set (pcs c)" "c \<in> set bs" for p q c
  proof -
    have "st p + sz p \<le> st b + sz b" "st b + sz b \<le> st c" "st c \<le> st q" using Cons.prems that by auto
    then show ?thesis by linarith
  qed
  then show ?case using Cons by auto
qed simp

lemma table_finite [simp]: "finite (table_bytes st sz bs)"
  by (simp add: table_bytes_def iv_def)

lemma table_card: "table_ok st sz bs \<Longrightarrow> card (table_bytes st sz bs) = sum_list (map sz bs)"
proof (induction bs)
  case (Cons b bs)
  have "card (iv st sz b) = sz b" by (simp add: iv_def)
  then show ?case using Cons card_Un_disjoint [of "iv st sz b" "table_bytes st sz bs"] by (simp add: iv_def)
qed simp

section \<open>Taking a run of free bytes\<close>

lemma fl_holder:
  assumes ok: "fl_ok m" and e: "e \<in> set m" and a: "fst e \<le> a" "a < fst e + snd e"
  shows "before_ub a m \<noteq> [] \<and> last (before_ub a m) = e"
proof -
  obtain p q where m: "m = p @ e # q" using e by (auto simp: in_set_conv_decomp)
  have parts: "\<forall>x\<in>set p. fst x + snd x < fst e" "\<forall>y\<in>set q. fst e + snd e < fst y" "fl_ok p"
    using ok unfolding m by (auto simp: fl_ok_append fl_ok_Cons)
  have "\<forall>x\<in>set p. fst x \<le> a" using parts(1) a(1) by fastforce
  moreover have "\<forall>y\<in>set q. \<not> fst y \<le> a" using parts(2) a(2) by fastforce
  then have "takeWhile (\<lambda>e. fst e \<le> a) q = []" by (cases q) auto
  ultimately have "before_ub a m = p @ [e]" unfolding before_ub_def m using a(1) by (simp add: takeWhile_append)
  then show ?thesis by simp
qed

lemma fl_take:
  assumes ok: "fl_ok m" and n: "0 < n" and sub: "{a..<a + n} \<subseteq> fl_bytes m"
  defines "e \<equiv> last (before_ub a m)"
  shows "before_ub a m \<noteq> []" and "fst e \<le> a" and "a + n \<le> fst e + snd e"
    and "fl_ok (ConsumeFreeRange e a n m)" and "fl_bytes (ConsumeFreeRange e a n m) = fl_bytes m - {a..<a + n}"
proof -
  obtain f where f: "f \<in> set m" "fst f \<le> a" "a + n \<le> fst f + snd f" using fl_span_in_one [OF ok n sub] by blast
  have "before_ub a m \<noteq> [] \<and> last (before_ub a m) = f" using fl_holder [OF ok f(1,2)] f(3) n by simp
  then have ef: "before_ub a m \<noteq> []" "e = f" by (simp_all add: e_def)
  have fs: "f = (fst f, snd f)" by simp
  show "before_ub a m \<noteq> []" "fst e \<le> a" "a + n \<le> fst e + snd e" using ef f by simp_all
  have c: "fl_ok (ConsumeFreeRange (fst f, snd f) a n m)" "fl_bytes (ConsumeFreeRange (fst f, snd f) a n m) = fl_bytes m - {a..<a + n}"
    using ConsumeFreeRange_spec [OF ok, of "fst f" "snd f" a n] f n by simp_all
  then show "fl_ok (ConsumeFreeRange e a n m)" "fl_bytes (ConsumeFreeRange e a n m) = fl_bytes m - {a..<a + n}"
    using ef by simp_all
qed

end
