(* ===== verification/FlexibleMemory.thy ===== *)
theory FlexibleMemory
  imports IntervalSeq
begin

text \<open>
  \<open>FlexibleMemory\<close> (src/src/kernel/memory.cpp): memory the guest maps without choosing physical
  pages. The backing bytes are the last part of the guest's physical memory; a mapping may be
  made of several pieces of it.

  The host's address space (\<open>ZeroBacking\<close>, \<open>MapBacking\<close>, \<open>UnmapBacking\<close>) is operating system
  calls: it is a parameter, a record of three functions on a host state that report success. The
  result None is \<open>EXIT_IF\<close>. \<open>std::sort\<close> is a stable sort; the keys of a well-formed list are
  distinct.
\<close>

record 'h host_ops =
  ZeroBacking :: "u64 \<Rightarrow> u64 \<Rightarrow> 'h \<Rightarrow> bool \<times> 'h"
  MapBacking :: "u64 \<Rightarrow> u64 \<Rightarrow> u64 \<Rightarrow> mode \<Rightarrow> 'h \<Rightarrow> bool \<times> 'h"
  UnmapBacking :: "u64 \<Rightarrow> u64 \<Rightarrow> 'h \<Rightarrow> bool \<times> 'h"

record FlexibleBlock =
  fb_map_vaddr :: u64
  fb_map_size :: u64
  fb_backing_offset :: u64
  fb_host_vaddr :: u64
  fb_host_size :: u64
  fb_prot :: int
  fb_mode :: mode
  fb_gpu_mode :: GpuAccessMode
  fb_name :: string

record flexible_memory =
  fm_allocated :: "FlexibleBlock list"
  fm_free :: "u64 smap"
  fm_allocated_total :: u64

definition new_flexible_memory :: "u64 \<Rightarrow> u64 \<Rightarrow> flexible_memory" where
  "new_flexible_memory base flexible_size = \<lparr>fm_allocated = [], fm_free = [(base, flexible_size)], fm_allocated_total = 0\<rparr>"

definition FlexibleMemory_Available :: "u64 \<Rightarrow> flexible_memory \<Rightarrow> u64" where
  "FlexibleMemory_Available flexible_size s = (if flexible_size \<ge> fm_allocated_total s then flexible_size - fm_allocated_total s else 0)"

section \<open>Mapping\<close>

text \<open>The first loop of \<open>Map\<close>: the pieces and what is left of the request.\<close>

fun plan_blocks :: "(u64 \<Rightarrow> u64 \<Rightarrow> u64 \<Rightarrow> FlexibleBlock) \<Rightarrow> u64 \<Rightarrow> u64 \<Rightarrow> u64 smap \<Rightarrow> FlexibleBlock list \<times> u64" where
  "plan_blocks mk current remaining [] = ([], remaining)"
| "plan_blocks mk current remaining ((backing_offset, free_size) # m) =
     (if remaining = 0 then ([], remaining)
      else
        (let chunk = min remaining free_size;
             (blocks, rest) = plan_blocks mk (current + chunk) (remaining - chunk) m in
         (mk current chunk backing_offset # blocks, rest)))"

text \<open>Unmapping what was mapped, last first; a failure exits.\<close>

fun rollback_blocks :: "'h host_ops \<Rightarrow> FlexibleBlock list \<Rightarrow> 'h \<Rightarrow> 'h option" where
  "rollback_blocks os [] h = Some h"
| "rollback_blocks os (b # mapped_blocks) h =
     (let (ok, h') = UnmapBacking os (fb_map_vaddr b) (fb_map_size b) h in
      if ok then rollback_blocks os mapped_blocks h' else None)"

text \<open>The second loop; the third argument is \<open>mapped\<close>, last first.\<close>

fun map_blocks :: "'h host_ops \<Rightarrow> bool \<Rightarrow> FlexibleBlock list \<Rightarrow> FlexibleBlock list \<Rightarrow> 'h \<Rightarrow> (bool \<times> 'h) option" where
  "map_blocks os zero mapped_blocks [] h = Some (True, h)"
| "map_blocks os zero mapped_blocks (b # blocks) h =
     (let (zeroed, h1) = (if zero then ZeroBacking os (fb_backing_offset b) (fb_map_size b) h else (True, h)) in
      if \<not> zeroed then map_option (Pair False) (rollback_blocks os mapped_blocks h1)
      else
        (let (ok, h2) = MapBacking os (fb_map_vaddr b) (fb_map_size b) (fb_backing_offset b) (fb_mode b) h1 in
         if \<not> ok then map_option (Pair False) (rollback_blocks os mapped_blocks h2)
         else map_blocks os zero (b # mapped_blocks) blocks h2))"

text \<open>The third loop: the free ranges are consumed one block at a time.\<close>

fun consume_blocks :: "FlexibleBlock list \<Rightarrow> u64 smap \<Rightarrow> u64 smap option" where
  "consume_blocks [] free = Some free"
| "consume_blocks (b # blocks) free =
     (let before = before_ub (fb_backing_offset b) free; rng = last before in
      if before = [] then None
      else if fb_backing_offset b < fst rng \<or> fb_map_size b > fst rng + snd rng - fb_backing_offset b then None
      else consume_blocks blocks (Flexible_ConsumeFreeRange rng (fb_backing_offset b) (fb_map_size b) free))"

definition FlexibleMemory_Map ::
  "'h host_ops \<Rightarrow> u64 \<Rightarrow> u64 \<Rightarrow> u64 \<Rightarrow> int \<Rightarrow> mode \<Rightarrow> GpuAccessMode \<Rightarrow> string option \<Rightarrow> flexible_memory \<Rightarrow> 'h
    \<Rightarrow> (bool \<times> flexible_memory \<times> 'h) option" where
  "FlexibleMemory_Map os flexible_size vaddr len prot mode gpu_mode name s h =
     (let available = (if flexible_size \<ge> fm_allocated_total s then flexible_size - fm_allocated_total s else 0) in
      if len = 0 \<or> len > available then Some (False, s, h)
      else
        (let mk = (\<lambda>current chunk backing_offset.
               \<lparr>fb_map_vaddr = current, fb_map_size = chunk, fb_backing_offset = backing_offset, fb_host_vaddr = vaddr,
                fb_host_size = len, fb_prot = prot, fb_mode = mode, fb_gpu_mode = gpu_mode, fb_name = CopyVirtualRangeName name\<rparr>);
             (blocks, remaining) = plan_blocks mk vaddr len (fm_free s) in
         if remaining \<noteq> 0 then Some (False, s, h)
         else do {
           (all_mapped, h') \<leftarrow> map_blocks os True [] blocks h;
           if \<not> all_mapped then Some (False, s, h')
           else do {
             free \<leftarrow> consume_blocks blocks (fm_free s);
             Some (True, s\<lparr>fm_free := free, fm_allocated := sort_key fb_map_vaddr (fm_allocated s @ blocks),
               fm_allocated_total := fm_allocated_total s + len\<rparr>, h') } }))"

section \<open>Unmapping\<close>

text \<open>The loop that looks for the span: the mode of the first block and how far the blocks reach.\<close>

fun flexible_span :: "u64 \<Rightarrow> u64 \<Rightarrow> GpuAccessMode option \<Rightarrow> FlexibleBlock list \<Rightarrow> GpuAccessMode option \<times> u64" where
  "flexible_span end current g [] = (g, current)"
| "flexible_span end current g (b # bs) =
     (if fb_map_vaddr b + fb_map_size b \<le> current then flexible_span end current g bs
      else if fb_map_vaddr b > current \<or> fb_map_vaddr b \<ge> end then (g, current)
      else
        (let g' = (case g of None \<Rightarrow> Some (fb_gpu_mode b) | Some x \<Rightarrow> Some x);
             current' = min end (fb_map_vaddr b + fb_map_size b) in
         if current' = end then (g', current') else flexible_span end current' g' bs))"

definition unmap_pieces :: "u64 \<Rightarrow> u64 \<Rightarrow> FlexibleBlock \<Rightarrow> FlexibleBlock list" where
  "unmap_pieces vaddr bytes block =
     (let end = vaddr + bytes; block_end = fb_map_vaddr block + fb_map_size block in
      if \<not> VirtualRangesOverlap vaddr bytes (fb_map_vaddr block) (fb_map_size block) then [block]
      else
        (let overlap_start = max vaddr (fb_map_vaddr block); overlap_end = min end block_end in
         (if fb_map_vaddr block < overlap_start then [block\<lparr>fb_map_size := overlap_start - fb_map_vaddr block\<rparr>] else []) @
         (if overlap_end < block_end
          then [block\<lparr>fb_map_vaddr := overlap_end, fb_map_size := block_end - overlap_end,
            fb_backing_offset := fb_backing_offset block + overlap_end - fb_map_vaddr block\<rparr>] else [])))"

text \<open>What the loop gives back: the free list and the number of bytes removed.\<close>

fun give_back :: "u64 \<Rightarrow> u64 \<Rightarrow> FlexibleBlock list \<Rightarrow> u64 smap \<Rightarrow> u64 \<Rightarrow> u64 smap \<times> u64" where
  "give_back vaddr bytes [] free removed = (free, removed)"
| "give_back vaddr bytes (block # bs) free removed =
     (let end = vaddr + bytes; block_end = fb_map_vaddr block + fb_map_size block in
      if \<not> VirtualRangesOverlap vaddr bytes (fb_map_vaddr block) (fb_map_size block) then give_back vaddr bytes bs free removed
      else
        (let overlap_start = max vaddr (fb_map_vaddr block); overlap_end = min end block_end; overlap_size = overlap_end - overlap_start in
         give_back vaddr bytes bs
           (Flexible_AddFreeRange (fb_backing_offset block + overlap_start - fb_map_vaddr block) overlap_size free) (removed + overlap_size)))"

definition FlexibleMemory_Unmap ::
  "'h host_ops \<Rightarrow> u64 \<Rightarrow> u64 \<Rightarrow> flexible_memory \<Rightarrow> 'h \<Rightarrow> (GpuAccessMode option \<times> flexible_memory \<times> 'h) option" where
  "FlexibleMemory_Unmap os vaddr bytes s h =
     (if bytes = 0 \<or> UINT64_MAX - vaddr < bytes then Some (None, s, h)
      else
        (let (g, current) = flexible_span (vaddr + bytes) vaddr None (fm_allocated s) in
         if g = None \<or> current \<noteq> vaddr + bytes then Some (None, s, h)
         else
           (let (ok, h') = UnmapBacking os vaddr bytes h in
            if \<not> ok then Some (None, s, h')
            else
              (let (free, removed) = give_back vaddr bytes (fm_allocated s) (fm_free s) 0 in do {
                exit_if (removed \<noteq> bytes \<or> removed > fm_allocated_total s);
                Some (g, s\<lparr>fm_free := free, fm_allocated := concat (map (unmap_pieces vaddr bytes) (fm_allocated s)),
                  fm_allocated_total := fm_allocated_total s - removed\<rparr>, h') }))))"

section \<open>Saving and restoring a span\<close>

fun snapshot_span :: "u64 \<Rightarrow> u64 \<Rightarrow> FlexibleBlock list \<Rightarrow> FlexibleBlock list option" where
  "snapshot_span end current [] = None"
| "snapshot_span end current (b # bs) =
     (let block_end = fb_map_vaddr b + fb_map_size b in
      if block_end \<le> current then snapshot_span end current bs
      else if fb_map_vaddr b > current \<or> fb_map_vaddr b \<ge> end then None
      else
        (let part_end = min end block_end;
             part = b\<lparr>fb_map_vaddr := current, fb_map_size := part_end - current,
               fb_backing_offset := fb_backing_offset b + (current - fb_map_vaddr b)\<rparr> in
         if part_end = end then Some [part] else map_option ((#) part) (snapshot_span end part_end bs)))"

definition FlexibleMemory_Snapshot :: "u64 \<Rightarrow> u64 \<Rightarrow> flexible_memory \<Rightarrow> FlexibleBlock list option" where
  "FlexibleMemory_Snapshot vaddr bytes s =
     (if bytes = 0 \<or> UINT64_MAX - vaddr < bytes then None
      else snapshot_span (vaddr + bytes) vaddr (fm_allocated s))"

definition backing_is_free :: "u64 smap \<Rightarrow> FlexibleBlock \<Rightarrow> bool" where
  "backing_is_free free b =
     (let before = before_ub (fb_backing_offset b) free; rng = last before in
      if before = [] then False
      else \<not> (fb_backing_offset b < fst rng \<or> fb_map_size b > fst rng + snd rng - fb_backing_offset b))"

text \<open>The consuming loop of \<open>Restore\<close>, which adds up the sizes.\<close>

fun restore_blocks :: "FlexibleBlock list \<Rightarrow> flexible_memory \<Rightarrow> flexible_memory option" where
  "restore_blocks [] s = Some s"
| "restore_blocks (b # blocks) s =
     (let before = before_ub (fb_backing_offset b) (fm_free s) in
      if before = [] then None
      else restore_blocks blocks
        (s\<lparr>fm_free := Flexible_ConsumeFreeRange (last before) (fb_backing_offset b) (fb_map_size b) (fm_free s),
           fm_allocated := fm_allocated s @ [b], fm_allocated_total := fm_allocated_total s + fb_map_size b\<rparr>))"

definition FlexibleMemory_Restore ::
  "'h host_ops \<Rightarrow> FlexibleBlock list \<Rightarrow> flexible_memory \<Rightarrow> 'h \<Rightarrow> (bool \<times> flexible_memory \<times> 'h) option" where
  "FlexibleMemory_Restore os blocks s h =
     (if blocks = [] then Some (False, s, h)
      else if \<not> list_all (backing_is_free (fm_free s)) blocks then Some (False, s, h)
      else do {
        (all_mapped, h') \<leftarrow> map_blocks os False [] blocks h;
        if \<not> all_mapped then Some (False, s, h')
        else do {
          s' \<leftarrow> restore_blocks blocks s;
          Some (True, s'\<lparr>fm_allocated := sort_key fb_map_vaddr (fm_allocated s')\<rparr>, h') } })"

section \<open>Protection, names and queries\<close>

definition flexible_protect_pieces :: "u64 \<Rightarrow> u64 \<Rightarrow> int \<Rightarrow> mode \<Rightarrow> GpuAccessMode \<Rightarrow> FlexibleBlock \<Rightarrow> FlexibleBlock list" where
  "flexible_protect_pieces vaddr bytes prot mode gpu_mode block =
     (let end = vaddr + bytes; block_end = fb_map_vaddr block + fb_map_size block in
      if \<not> VirtualRangesOverlap vaddr bytes (fb_map_vaddr block) (fb_map_size block) then [block]
      else
        (let overlap_start = max vaddr (fb_map_vaddr block); overlap_end = min end block_end in
         (if fb_map_vaddr block < overlap_start then [block\<lparr>fb_map_size := overlap_start - fb_map_vaddr block\<rparr>] else []) @
         [block\<lparr>fb_map_vaddr := overlap_start, fb_map_size := overlap_end - overlap_start,
            fb_backing_offset := fb_backing_offset block + overlap_start - fb_map_vaddr block,
            fb_prot := prot, fb_mode := mode, fb_gpu_mode := gpu_mode\<rparr>] @
         (if overlap_end < block_end
          then [block\<lparr>fb_map_vaddr := overlap_end, fb_map_size := block_end - overlap_end,
            fb_backing_offset := fb_backing_offset block + overlap_end - fb_map_vaddr block\<rparr>] else [])))"

definition FlexibleMemory_Protect :: "u64 \<Rightarrow> u64 \<Rightarrow> int \<Rightarrow> mode \<Rightarrow> GpuAccessMode \<Rightarrow> flexible_memory \<Rightarrow> flexible_memory" where
  "FlexibleMemory_Protect vaddr bytes prot mode gpu_mode s =
     (if bytes = 0 \<or> UINT64_MAX - vaddr < bytes then s
      else s\<lparr>fm_allocated := concat (map (flexible_protect_pieces vaddr bytes prot mode gpu_mode) (fm_allocated s))\<rparr>)"

definition FlexibleMemory_Find :: "u64 \<Rightarrow> flexible_memory \<Rightarrow> (u64 \<times> u64 \<times> int \<times> mode \<times> GpuAccessMode) option" where
  "FlexibleMemory_Find vaddr s =
     map_option (\<lambda>b. (fb_map_vaddr b, fb_map_size b, fb_prot b, fb_mode b, fb_gpu_mode b))
       (find (\<lambda>b. vaddr \<ge> fb_map_vaddr b \<and> vaddr < fb_map_vaddr b + fb_map_size b) (fm_allocated s))"

definition FlexibleMemory_SetVirtualRangeName :: "u64 \<Rightarrow> u64 \<Rightarrow> string option \<Rightarrow> flexible_memory \<Rightarrow> flexible_memory" where
  "FlexibleMemory_SetVirtualRangeName vaddr len name s =
     s\<lparr>fm_allocated := map (\<lambda>b. if VirtualRangesOverlap vaddr len (fb_map_vaddr b) (fb_map_size b)
       then b\<lparr>fb_name := CopyVirtualRangeName name\<rparr> else b) (fm_allocated s)\<rparr>"

section \<open>The host and the state\<close>

text \<open>
  What the code relies on of the host: mapping and unmapping change exactly the given range when
  they succeed and nothing when they fail, and zeroing changes no mapping. Each of the three may fail, also
  unmapping memory that is mapped. \<open>backed h x\<close> is the backing byte mapped at the address \<open>x\<close>.
\<close>

definition span_to :: "u64 \<Rightarrow> u64 \<Rightarrow> u64 \<Rightarrow> (u64 \<Rightarrow> u64 option) \<Rightarrow> u64 \<Rightarrow> u64 option" where
  "span_to v n off f = (\<lambda>x. if v \<le> x \<and> x < v + n then Some (off + (x - v)) else f x)"

definition span_none :: "u64 \<Rightarrow> u64 \<Rightarrow> (u64 \<Rightarrow> u64 option) \<Rightarrow> u64 \<Rightarrow> u64 option" where
  "span_none v n f = (\<lambda>x. if v \<le> x \<and> x < v + n then None else f x)"

definition host_contract :: "'h host_ops \<Rightarrow> ('h \<Rightarrow> u64 \<Rightarrow> u64 option) \<Rightarrow> bool" where
  "host_contract os backed \<longleftrightarrow>
     (\<forall>off n h. backed (snd (ZeroBacking os off n h)) = backed h) \<and>
     (\<forall>v n off md h. backed (snd (MapBacking os v n off md h)) =
        (if fst (MapBacking os v n off md h) then span_to v n off (backed h) else backed h)) \<and>
     (\<forall>v n h. backed (snd (UnmapBacking os v n h)) = (if fst (UnmapBacking os v n h) then span_none v n (backed h) else backed h))"

text \<open>
  The host refuses, in some state, to unmap a part of a span that is mapped; and the host never refuses to
  zero or to map.
\<close>

definition unmap_refused :: "'h host_ops \<Rightarrow> ('h \<Rightarrow> u64 \<Rightarrow> u64 option) \<Rightarrow> u64 \<Rightarrow> u64 \<Rightarrow> bool" where
  "unmap_refused os backed vaddr bytes \<longleftrightarrow>
     (\<exists>v n h. 0 < n \<and> vaddr \<le> v \<and> v + n \<le> vaddr + bytes \<and> (\<forall>x. v \<le> x \<and> x < v + n \<longrightarrow> backed h x \<noteq> None) \<and> \<not> fst (UnmapBacking os v n h))"

definition maps_all :: "'h host_ops \<Rightarrow> bool" where
  "maps_all os \<longleftrightarrow> (\<forall>v n off md h. fst (MapBacking os v n off md h)) \<and> (\<forall>off n h. fst (ZeroBacking os off n h))"

record flex_info =
  fi_backing :: u64
  fi_prot :: int
  fi_mode :: mode
  fi_gpu_mode :: GpuAccessMode
  fi_host :: "u64 \<times> u64"
  fi_name :: string

definition block_info :: "FlexibleBlock \<Rightarrow> u64 \<Rightarrow> flex_info" where
  "block_info b x = \<lparr>fi_backing = fb_backing_offset b + (x - fb_map_vaddr b), fi_prot = fb_prot b, fi_mode = fb_mode b,
     fi_gpu_mode = fb_gpu_mode b, fi_host = (fb_host_vaddr b, fb_host_size b), fi_name = fb_name b\<rparr>"

definition flex_at :: "FlexibleBlock list \<Rightarrow> u64 \<Rightarrow> flex_info option" where
  "flex_at = view fb_map_vaddr fb_map_size block_info"

abbreviation vbytes_of :: "FlexibleBlock list \<Rightarrow> u64 set" where
  "vbytes_of \<equiv> table_bytes fb_map_vaddr fb_map_size"

abbreviation bbytes_of :: "FlexibleBlock list \<Rightarrow> u64 set" where
  "bbytes_of \<equiv> table_bytes fb_backing_offset fb_map_size"

text \<open>The virtual address a backing byte is mapped at.\<close>

definition user_of :: "FlexibleBlock list \<Rightarrow> u64 \<Rightarrow> u64 option" where
  "user_of = view fb_backing_offset fb_map_size (\<lambda>b y. fb_map_vaddr b + (y - fb_backing_offset b))"

definition fblock_ok :: "FlexibleBlock \<Rightarrow> bool" where
  "fblock_ok b \<longleftrightarrow> 0 < fb_map_size b \<and> fb_map_vaddr b + fb_map_size b \<le> UINT64_MAX"

definition blocks_wf :: "FlexibleBlock list \<Rightarrow> bool" where
  "blocks_wf bs \<longleftrightarrow> table_ok fb_map_vaddr fb_map_size bs \<and> table_ok fb_backing_offset fb_map_size bs \<and> (\<forall>b\<in>set bs. fblock_ok b)"

definition fx_ok :: "u64 \<Rightarrow> u64 \<Rightarrow> flexible_memory \<Rightarrow> bool" where
  "fx_ok base flexible_size s \<longleftrightarrow> fl_ok (fm_free s) \<and> blocks_wf (fm_allocated s) \<and> seq_ok fb_map_vaddr fb_map_size (fm_allocated s) \<and>
     fl_bytes (fm_free s) \<inter> bbytes_of (fm_allocated s) = {} \<and>
     fl_bytes (fm_free s) \<union> bbytes_of (fm_allocated s) = {base..<base + flexible_size} \<and>
     fm_allocated_total s = sum_list (map fb_map_size (fm_allocated s))"

text \<open>The host maps every allocated byte to its backing byte.\<close>

definition host_agrees :: "('h \<Rightarrow> u64 \<Rightarrow> u64 option) \<Rightarrow> flexible_memory \<Rightarrow> 'h \<Rightarrow> bool" where
  "host_agrees backed s h \<longleftrightarrow> (\<forall>x i. flex_at (fm_allocated s) x = Some i \<longrightarrow> backed h x = Some (fi_backing i))"

lemma blocks_wf_simps [simp]:
  "blocks_wf []"
  "blocks_wf (b # bs) \<longleftrightarrow> fblock_ok b \<and> iv fb_map_vaddr fb_map_size b \<inter> vbytes_of bs = {} \<and>
     iv fb_backing_offset fb_map_size b \<inter> bbytes_of bs = {} \<and> blocks_wf bs"
  "blocks_wf (bs @ cs) \<longleftrightarrow> blocks_wf bs \<and> blocks_wf cs \<and> vbytes_of bs \<inter> vbytes_of cs = {} \<and> bbytes_of bs \<inter> bbytes_of cs = {}"
  by (auto simp: blocks_wf_def simp del: mem_iv)

lemma fx_total:
  assumes "fx_ok base flexible_size s"
  shows "fm_allocated_total s + card (fl_bytes (fm_free s)) = flexible_size" and "FlexibleMemory_Available flexible_size s = card (fl_bytes (fm_free s))"
proof -
  have b: "table_ok fb_backing_offset fb_map_size (fm_allocated s)" using assms by (simp add: fx_ok_def blocks_wf_def)
  have "flexible_size = card ({base..<base + flexible_size})" by simp
  also have "\<dots> = card (fl_bytes (fm_free s) \<union> bbytes_of (fm_allocated s))" using assms by (simp add: fx_ok_def)
  also have "\<dots> = card (fl_bytes (fm_free s)) + card (bbytes_of (fm_allocated s))"
    using assms by (intro card_Un_disjoint) (simp_all add: fx_ok_def)
  also have "card (bbytes_of (fm_allocated s)) = fm_allocated_total s" using table_card [OF b] assms by (simp add: fx_ok_def)
  finally show t: "fm_allocated_total s + card (fl_bytes (fm_free s)) = flexible_size" by simp
  then show "FlexibleMemory_Available flexible_size s = card (fl_bytes (fm_free s))" by (auto simp: FlexibleMemory_Available_def)
qed

section \<open>Mapping\<close>

lemma plan_blocks_spec:
  fixes mk :: "u64 \<Rightarrow> u64 \<Rightarrow> u64 \<Rightarrow> FlexibleBlock"
  assumes mk: "\<And>c n off. fb_map_vaddr (mk c n off) = c \<and> fb_map_size (mk c n off) = n \<and> fb_backing_offset (mk c n off) = off"
    and "fl_ok m" and "current + remaining \<le> UINT64_MAX" and "plan_blocks mk current remaining m = (bs, rest)"
  shows "blocks_wf bs \<and> vbytes_of bs = {current..<current + (remaining - rest)} \<and> bbytes_of bs \<subseteq> fl_bytes m \<and>
    rest = remaining - min remaining (card (fl_bytes m)) \<and> sum_list (map fb_map_size bs) = remaining - rest \<and> rest \<le> remaining \<and>
    (\<forall>b\<in>set bs. \<exists>c n off. b = mk c n off)"
  using assms(2-)
proof (induction m arbitrary: current remaining bs rest)
  case Nil
  then show ?case by simp
next
  case (Cons e m)
  obtain off n where e: "e = (off, n)" by fastforce
  have m: "0 < n" "\<forall>x\<in>set m. off + n < fst x" "fl_ok m" using Cons.prems(1) e by (auto simp: fl_ok_Cons)
  show ?case
  proof (cases "remaining = 0")
    case True
    then show ?thesis using Cons.prems(3) e by simp
  next
    case False
    let ?c = "min remaining n"
    obtain bs' where p: "plan_blocks mk (current + ?c) (remaining - ?c) m = (bs', rest)" "bs = mk current ?c off # bs'"
      using Cons.prems(3) False e by (auto simp: Let_def split: prod.splits)
    have fit: "current + ?c + (remaining - ?c) \<le> UINT64_MAX" using Cons.prems(2) by simp
    note IH = Cons.IH [OF m(3) fit p(1)]
    have dis: "{off..<off + n} \<inter> fl_bytes m = {}" using m(2) by (fastforce simp: mem_fl_bytes)
    have "card (fl_bytes (e # m)) = n + card (fl_bytes m)" using dis by (simp add: e card_Un_disjoint)
    then have rest: "rest = remaining - min remaining (card (fl_bytes (e # m)))" "rest \<le> remaining - ?c" using IH by auto
    have ivv: "iv fb_map_vaddr fb_map_size (mk current ?c off) = {current..<current + ?c}"
      "iv fb_backing_offset fb_map_size (mk current ?c off) = {off..<off + ?c}" using mk by (simp_all add: iv_def)
    have sub: "{off..<off + ?c} \<subseteq> {off..<off + n}" by auto
    have IH1: "blocks_wf bs'" "vbytes_of bs' = {current + ?c..<current + ?c + (remaining - ?c - rest)}" "bbytes_of bs' \<subseteq> fl_bytes m"
      "sum_list (map fb_map_size bs') = remaining - ?c - rest" "\<forall>b\<in>set bs'. \<exists>c n off. b = mk c n off" using IH by blast+
    have join: "{current..<current + ?c} \<union> {current + ?c..<current + ?c + (remaining - ?c - rest)} = {current..<current + (remaining - rest)}"
      using rest(2) by (subst ivl_disj_un_two(3)) auto
    have sz: "?c + (remaining - ?c - rest) = remaining - rest" using rest(2) by simp
    have "{off..<off + ?c} \<inter> bbytes_of bs' = {}" using IH1(3) dis sub by blast
    moreover have "{current..<current + ?c} \<inter> {current + ?c..<current + ?c + (remaining - ?c - rest)} = {}" by auto
    moreover have "fblock_ok (mk current ?c off)" using mk False m(1) fit by (simp add: fblock_ok_def)
    ultimately have "blocks_wf bs" unfolding p(2) blocks_wf_simps ivv IH1(2) using IH1(1) by blast
    moreover have "vbytes_of bs = {current..<current + (remaining - rest)}" unfolding p(2) table_bytes_simps ivv IH1(2) by (rule join)
    moreover have "bbytes_of bs \<subseteq> fl_bytes (e # m)"
      unfolding p(2) table_bytes_simps ivv fl_bytes_simps e fst_conv snd_conv using IH1(3) sub by blast
    moreover have "sum_list (map fb_map_size bs) = remaining - rest" using p(2) IH1(4) mk sz by simp
    moreover have "\<forall>b\<in>set bs. \<exists>c n off. b = mk c n off" using IH1(5) p(2) by auto
    moreover have "rest \<le> remaining" using rest(2) by linarith
    ultimately show ?thesis using rest(1) by blast
  qed
qed

lemma consume_blocks_spec:
  assumes "fl_ok m" and "table_ok fb_backing_offset fb_map_size bs" and "\<forall>b\<in>set bs. fblock_ok b" and "bbytes_of bs \<subseteq> fl_bytes m"
  shows "\<exists>m'. consume_blocks bs m = Some m' \<and> fl_ok m' \<and> fl_bytes m' = fl_bytes m - bbytes_of bs"
  using assms
proof (induction bs arbitrary: m)
  case (Cons b bs)
  have iv: "iv fb_backing_offset fb_map_size b = {fb_backing_offset b..<fb_backing_offset b + fb_map_size b}" by (simp add: iv_def)
  have n: "0 < fb_map_size b" using Cons.prems(3) by (simp add: fblock_ok_def)
  have sub: "{fb_backing_offset b..<fb_backing_offset b + fb_map_size b} \<subseteq> fl_bytes m" using Cons.prems(4) iv by auto
  note t = fl_take [OF Cons.prems(1) n sub]
  let ?m = "ConsumeFreeRange (last (before_ub (fb_backing_offset b) m)) (fb_backing_offset b) (fb_map_size b) m"
  have "bbytes_of bs \<subseteq> fl_bytes ?m" using Cons.prems(2,4) t(5) iv by auto
  then obtain m' where m': "consume_blocks bs ?m = Some m'" "fl_ok m'" "fl_bytes m' = fl_bytes ?m - bbytes_of bs"
    using Cons.IH [OF t(4)] Cons.prems(2,3) by auto
  have "\<not> (fb_backing_offset b < fst (last (before_ub (fb_backing_offset b) m)) \<or>
      fb_map_size b > fst (last (before_ub (fb_backing_offset b) m)) + snd (last (before_ub (fb_backing_offset b) m)) - fb_backing_offset b)"
    using t(2,3) by linarith
  then have "consume_blocks (b # bs) m = Some m'" using t(1) m'(1) by (simp add: Let_def)
  then show ?case using m' t(5) iv by auto
qed simp

text \<open>The backing of every address once the blocks are mapped on top of what was there.\<close>

definition overlay :: "FlexibleBlock list \<Rightarrow> (u64 \<Rightarrow> u64 option) \<Rightarrow> u64 \<Rightarrow> u64 option" where
  "overlay bs f = (\<lambda>x. case flex_at bs x of Some i \<Rightarrow> Some (fi_backing i) | None \<Rightarrow> f x)"

lemma flex_at_simps [simp]:
  "flex_at [] x = None"
  "flex_at (b # bs) x = (if x \<in> iv fb_map_vaddr fb_map_size b then Some (block_info b x) else flex_at bs x)"
  by (simp_all add: flex_at_def)

lemma flex_at_append: "flex_at (bs @ cs) x = (case flex_at bs x of None \<Rightarrow> flex_at cs x | Some i \<Rightarrow> Some i)"
  by (simp add: flex_at_def view_append split: option.split)

lemma flex_at_None_iff: "flex_at bs x = None \<longleftrightarrow> x \<notin> vbytes_of bs"
  by (simp add: flex_at_def view_None_iff)

lemma overlay_Nil [simp]: "overlay [] f = f"
  by (simp add: overlay_def)

text \<open>A block inside a span.\<close>

definition in_part :: "u64 \<Rightarrow> u64 \<Rightarrow> FlexibleBlock \<Rightarrow> bool" where
  "in_part vaddr bytes b \<longleftrightarrow> 0 < fb_map_size b \<and> vaddr \<le> fb_map_vaddr b \<and> fb_map_vaddr b + fb_map_size b \<le> vaddr + bytes"

lemma blocks_in_part:
  assumes "blocks_wf bs" and "vbytes_of bs \<subseteq> {vaddr..<vaddr + bytes}" and "b \<in> set bs"
  shows "in_part vaddr bytes b"
proof -
  have n: "0 < fb_map_size b" using assms(1,3) by (simp add: blocks_wf_def fblock_ok_def)
  have "iv fb_map_vaddr fb_map_size b \<subseteq> {vaddr..<vaddr + bytes}" using assms(2,3) by (auto simp: table_bytes_def simp del: mem_iv)
  moreover have "fb_map_vaddr b \<in> iv fb_map_vaddr fb_map_size b" "fb_map_vaddr b + fb_map_size b - 1 \<in> iv fb_map_vaddr fb_map_size b"
    using n by auto
  ultimately have "fb_map_vaddr b \<in> {vaddr..<vaddr + bytes}" "fb_map_vaddr b + fb_map_size b - 1 \<in> {vaddr..<vaddr + bytes}" by blast+
  then have "vaddr \<le> fb_map_vaddr b" "fb_map_vaddr b + fb_map_size b - 1 < vaddr + bytes" by auto
  then show ?thesis using n by (simp add: in_part_def)
qed

text \<open>A call that may exit.\<close>

lemma case_ran:
  "M = None \<and> U \<or> (\<exists>r s h. M = Some (r, s, h) \<and> P r s h) \<Longrightarrow> (case M of None \<Rightarrow> U | Some (r, s, h) \<Rightarrow> P r s h)"
  by auto

lemma rollback_blocks_spec:
  assumes c: "host_contract os backed" and "table_ok fb_map_vaddr fb_map_size bs" and "\<forall>x\<in>vbytes_of bs. f x = None"
    and "backed h = overlay bs f" and "\<forall>b\<in>set bs. in_part vaddr bytes b"
  shows "rollback_blocks os bs h = None \<and> unmap_refused os backed vaddr bytes \<or> (\<exists>h'. rollback_blocks os bs h = Some h' \<and> backed h' = f)"
  using assms(2-)
proof (induction bs arbitrary: h)
  case (Cons b bs)
  obtain ok h1 where u: "UnmapBacking os (fb_map_vaddr b) (fb_map_size b) h = (ok, h1)" by fastforce
  have full: "\<forall>x. fb_map_vaddr b \<le> x \<and> x < fb_map_vaddr b + fb_map_size b \<longrightarrow> backed h x \<noteq> None"
    using Cons.prems(3) by (simp add: overlay_def)
  show ?case
  proof (cases ok)
    case False
    have "unmap_refused os backed vaddr bytes"
      unfolding unmap_refused_def
    proof (intro exI conjI)
      show "0 < fb_map_size b" "vaddr \<le> fb_map_vaddr b" "fb_map_vaddr b + fb_map_size b \<le> vaddr + bytes"
        using Cons.prems(4) by (simp_all add: in_part_def)
      show "\<not> fst (UnmapBacking os (fb_map_vaddr b) (fb_map_size b) h)" using u False by simp
    qed (rule full)
    then show ?thesis using u False by simp
  next
    case ok: True
    have "backed h1 = span_none (fb_map_vaddr b) (fb_map_size b) (backed h)"
      using c u ok unfolding host_contract_def by (metis fst_conv snd_conv)
    also have "\<dots> = overlay bs f"
    proof
      fix x
      show "span_none (fb_map_vaddr b) (fb_map_size b) (backed h) x = overlay bs f x"
      proof (cases "x \<in> iv fb_map_vaddr fb_map_size b")
        case True
        then have "x \<notin> vbytes_of bs" using Cons.prems(1) by auto
        then have "flex_at bs x = None" by (simp add: flex_at_None_iff)
        then show ?thesis using True Cons.prems(2) by (simp add: span_none_def overlay_def)
      next
        case False
        then show ?thesis using Cons.prems(3) by (auto simp: span_none_def overlay_def)
      qed
    qed
    finally have "backed h1 = overlay bs f" .
    then have "rollback_blocks os bs h1 = None \<and> unmap_refused os backed vaddr bytes \<or> (\<exists>h'. rollback_blocks os bs h1 = Some h' \<and> backed h' = f)"
      using Cons.IH [of h1] Cons.prems by auto
    then show ?thesis using u ok by simp
  qed
qed simp

lemma overlay_snoc:
  "x \<notin> vbytes_of bs \<Longrightarrow> overlay (b # bs) f x = (if x \<in> iv fb_map_vaddr fb_map_size b then Some (fb_backing_offset b + (x - fb_map_vaddr b)) else f x)"
  by (auto simp: overlay_def block_info_def flex_at_None_iff [symmetric])

lemma map_blocks_spec:
  assumes c: "host_contract os backed" and "table_ok fb_map_vaddr fb_map_size (rev bs @ done_bs)"
    and "\<forall>x\<in>vbytes_of (rev bs @ done_bs). f x = None" and "backed h = overlay done_bs f"
    and "\<forall>b\<in>set (rev bs @ done_bs). in_part vaddr bytes b"
  shows "map_blocks os zero done_bs bs h = None \<and> unmap_refused os backed vaddr bytes \<and> \<not> maps_all os \<or>
    (\<exists>r h'. map_blocks os zero done_bs bs h = Some (r, h') \<and> backed h' = (if r then overlay (rev bs @ done_bs) f else f) \<and> (maps_all os \<longrightarrow> r))"
  using assms(2-)
proof (induction bs arbitrary: done_bs h)
  case Nil
  then show ?case by (intro disjI2 exI [of _ True] exI [of _ h]) simp
next
  case (Cons b bs)
  have t: "table_ok fb_map_vaddr fb_map_size (rev bs @ b # done_bs)" using Cons.prems(1) by simp
  have td: "table_ok fb_map_vaddr fb_map_size done_bs" "\<forall>x\<in>vbytes_of done_bs. f x = None" "\<forall>b\<in>set done_bs. in_part vaddr bytes b"
    using Cons.prems(1,2,4) by auto
  obtain z h1 where z: "(if zero then ZeroBacking os (fb_backing_offset b) (fb_map_size b) h else (True, h)) = (z, h1)" by fastforce
  have b1: "backed h1 = overlay done_bs f"
  proof (cases zero)
    case True
    then have "ZeroBacking os (fb_backing_offset b) (fb_map_size b) h = (z, h1)" using z by simp
    then show ?thesis using c Cons.prems(3) unfolding host_contract_def by (metis snd_conv)
  qed (use z Cons.prems(3) in simp)
  have zok: "z" if "maps_all os" using that z unfolding maps_all_def by (metis fst_conv)
  show ?case
  proof (cases z)
    case False
    then show ?thesis using rollback_blocks_spec [OF c td(1,2) b1 td(3)] z zok by auto
  next
    case True
    obtain ok h2 where m: "MapBacking os (fb_map_vaddr b) (fb_map_size b) (fb_backing_offset b) (fb_mode b) h1 = (ok, h2)" by fastforce
    show ?thesis
    proof (cases ok)
      case False
      then have "backed h2 = overlay done_bs f" using c m b1 unfolding host_contract_def by (metis fst_conv snd_conv)
      note rollback_blocks_spec [OF c td(1,2) this td(3)]
      moreover have "\<not> maps_all os" using m False unfolding maps_all_def by (metis fst_conv)
      ultimately show ?thesis using False True z m by auto
    next
      case ok: True
      have dis: "iv fb_map_vaddr fb_map_size b \<inter> vbytes_of done_bs = {}" using t by auto
      have "backed h2 = span_to (fb_map_vaddr b) (fb_map_size b) (fb_backing_offset b) (overlay done_bs f)"
        using c m ok b1 unfolding host_contract_def by (metis fst_conv snd_conv)
      also have "\<dots> = overlay (b # done_bs) f"
        by (auto simp: fun_eq_iff span_to_def overlay_def block_info_def)
      finally have b2: "backed h2 = overlay (b # done_bs) f" .
      have f: "\<forall>x\<in>vbytes_of (rev bs @ b # done_bs). f x = None" using Cons.prems(2) by auto
      have p: "\<forall>b\<in>set (rev bs @ b # done_bs). in_part vaddr bytes b" using Cons.prems(4) by auto
      have run: "map_blocks os zero done_bs (b # bs) h = map_blocks os zero (b # done_bs) bs h2" using True ok z m by simp
      have blocks: "rev (b # bs) @ done_bs = rev bs @ b # done_bs" by simp
      show ?thesis unfolding run blocks by (rule Cons.IH [OF t f b2 p])
    qed
  qed
qed

lemma overlay_perm:
  assumes "table_ok fb_map_vaddr fb_map_size bs"
  shows "overlay (rev bs) f = overlay bs f"
proof -
  have "flex_at (rev bs) = flex_at bs" unfolding flex_at_def by (rule ext, rule view_perm) (use assms in simp_all)
  then show ?thesis by (simp add: overlay_def)
qed

lemma flex_at_sort: "table_ok fb_map_vaddr fb_map_size bs \<Longrightarrow> flex_at (sort_key fb_map_vaddr bs) x = flex_at bs x"
  by (simp add: flex_at_def view_sort)

lemma blocks_wf_sort: "blocks_wf bs \<Longrightarrow> blocks_wf (sort_key fb_map_vaddr bs) \<and> seq_ok fb_map_vaddr fb_map_size (sort_key fb_map_vaddr bs)"
  using table_ok_perm [of bs "sort_key fb_map_vaddr bs"] table_ok_sort [of fb_map_vaddr fb_map_size bs]
  by (auto simp: blocks_wf_def fblock_ok_def)

lemma sum_list_sort [simp]: "sum_list (map fb_map_size (sort_key k bs)) = sum_list (map fb_map_size bs)"
  by (metis mset_map mset_sort sum_mset_sum_list)

lemma vbytes_flex: "x \<in> vbytes_of bs \<longleftrightarrow> (\<exists>i. flex_at bs x = Some i)"
  using flex_at_None_iff [of bs x] by auto

lemma block_info_backing: "table_ok fb_map_vaddr fb_map_size bs \<Longrightarrow> flex_at bs x = Some i \<Longrightarrow> fi_backing i \<in> bbytes_of bs"
proof -
  assume t: "table_ok fb_map_vaddr fb_map_size bs" and i: "flex_at bs x = Some i"
  then obtain b where "b \<in> set bs" "x \<in> iv fb_map_vaddr fb_map_size b" "i = block_info b x"
    unfolding flex_at_def view_Some_iff [OF t] by blast
  then have "b \<in> set bs" "fi_backing i \<in> iv fb_backing_offset fb_map_size b" by (auto simp: block_info_def)
  then show ?thesis unfolding mem_table_bytes by blast
qed

lemma FlexibleMemory_Map_spec:
  assumes ok: "fx_ok base flexible_size s" and c: "host_contract os backed" and agree: "host_agrees backed s h"
    and fits: "vaddr + len \<le> UINT64_MAX" and fresh: "\<forall>x. vaddr \<le> x \<and> x < vaddr + len \<longrightarrow> flex_at (fm_allocated s) x = None \<and> backed h x = None"
  shows "FlexibleMemory_Map os flexible_size vaddr len prot md gpu_mode name s h = None \<and> unmap_refused os backed vaddr len \<and> \<not> maps_all os \<or>
    (\<exists>r s' h'. FlexibleMemory_Map os flexible_size vaddr len prot md gpu_mode name s h = Some (r, s', h') \<and>
    fx_ok base flexible_size s' \<and> host_agrees backed s' h' \<and>
    (\<not> r \<longrightarrow> s' = s \<and> backed h' = backed h) \<and>
    (r \<longrightarrow> 0 < len \<and> FlexibleMemory_Available flexible_size s' + len = FlexibleMemory_Available flexible_size s \<and>
      (\<forall>x. if vaddr \<le> x \<and> x < vaddr + len
         then \<exists>i. flex_at (fm_allocated s') x = Some i \<and> fi_backing i \<in> fl_bytes (fm_free s) \<and> fi_prot i = prot \<and> fi_mode i = md \<and>
           fi_gpu_mode i = gpu_mode \<and> fi_host i = (vaddr, len) \<and> fi_name i = CopyVirtualRangeName name
         else flex_at (fm_allocated s') x = flex_at (fm_allocated s) x \<and> backed h' x = backed h x)) \<and>
    (0 < len \<and> len \<le> FlexibleMemory_Available flexible_size s \<and> maps_all os \<longrightarrow> r))"
  (is "_ \<or> ?ran")
proof (cases "len = 0 \<or> len > FlexibleMemory_Available flexible_size s")
  case True
  then have "FlexibleMemory_Map os flexible_size vaddr len prot md gpu_mode name s h = Some (False, s, h)"
    by (auto simp: FlexibleMemory_Map_def FlexibleMemory_Available_def Let_def)
  moreover have "\<not> (0 < len \<and> len \<le> FlexibleMemory_Available flexible_size s)" using True by linarith
  ultimately have ?ran using ok agree by (intro exI [of _ False] exI [of _ s] exI [of _ h]) blast
  then show ?thesis ..
next
  case False
  let ?mk = "\<lambda>current chunk backing_offset.
               \<lparr>fb_map_vaddr = current, fb_map_size = chunk, fb_backing_offset = backing_offset, fb_host_vaddr = vaddr,
                fb_host_size = len, fb_prot = prot, fb_mode = md, fb_gpu_mode = gpu_mode, fb_name = CopyVirtualRangeName name\<rparr>"
  obtain bs rest where p: "plan_blocks ?mk vaddr len (fm_free s) = (bs, rest)" by fastforce
  have okp: "fl_ok (fm_free s)" "blocks_wf (fm_allocated s)" "seq_ok fb_map_vaddr fb_map_size (fm_allocated s)"
     "fl_bytes (fm_free s) \<inter> bbytes_of (fm_allocated s) = {}"
     "fl_bytes (fm_free s) \<union> bbytes_of (fm_allocated s) = {base..<base + flexible_size}"
     "fm_allocated_total s = sum_list (map fb_map_size (fm_allocated s))" using ok by (auto simp: fx_ok_def)
  have "rest = len - min len (card (fl_bytes (fm_free s)))"
    using plan_blocks_spec [OF _ okp(1) fits p] by simp
  then have rest: "rest = 0" using False fx_total(2) [OF ok] by simp
  have pl: "blocks_wf bs" "vbytes_of bs = {vaddr..<vaddr + len}" "bbytes_of bs \<subseteq> fl_bytes (fm_free s)"
    "sum_list (map fb_map_size bs) = len" "\<forall>b\<in>set bs. \<exists>c n off. b = ?mk c n off"
    using plan_blocks_spec [OF _ okp(1) fits p] rest by simp_all
  have tb: "table_ok fb_map_vaddr fb_map_size bs" "table_ok fb_backing_offset fb_map_size bs" "\<forall>b\<in>set bs. fblock_ok b"
    using pl(1) by (simp_all add: blocks_wf_def)
  have tr: "table_ok fb_map_vaddr fb_map_size (rev bs @ [])" using table_ok_perm [of bs "rev bs"] tb(1) by simp
  have nr: "\<forall>x\<in>vbytes_of (rev bs @ []). backed h x = None"
  proof -
    have "vbytes_of (rev bs @ []) = {vaddr..<vaddr + len}" using pl(2) by (simp add: table_bytes_def)
    then show ?thesis using fresh by simp
  qed
  have ov: "backed h = overlay [] (backed h)" by simp
  have pt: "\<forall>b\<in>set (rev bs @ []). in_part vaddr len b" using blocks_in_part [OF pl(1)] pl(2) by simp
  note mbs = map_blocks_spec [OF c tr nr ov pt, of True]
  show ?thesis
  proof (cases "map_blocks os True [] bs h")
    case None
    then have "FlexibleMemory_Map os flexible_size vaddr len prot md gpu_mode name s h = None"
      using False p rest by (auto simp: FlexibleMemory_Map_def FlexibleMemory_Available_def Let_def)
    then show ?thesis using mbs None by simp
  next
  case (Some x)
  then obtain r h' where mb: "map_blocks os True [] bs h = Some (r, h')" "backed h' = (if r then overlay (rev bs @ []) (backed h) else backed h)"
    "maps_all os \<longrightarrow> r"
    using mbs by auto
  have bh: "backed h' = (if r then overlay bs (backed h) else backed h)" using mb(2) overlay_perm [OF tb(1)] by simp
  have eq: "FlexibleMemory_Map os flexible_size vaddr len prot md gpu_mode name s h =
    (if \<not> r then Some (False, s, h') else do {
       free \<leftarrow> consume_blocks bs (fm_free s);
       Some (True, s\<lparr>fm_free := free, fm_allocated := sort_key fb_map_vaddr (fm_allocated s @ bs),
               fm_allocated_total := fm_allocated_total s + len\<rparr>, h') })"
    using False p rest mb(1) by (auto simp: FlexibleMemory_Map_def FlexibleMemory_Available_def Let_def)
  show ?thesis
  proof (cases r)
    case r: False
    have "host_agrees backed s h'" using agree bh r by (simp add: host_agrees_def)
    moreover have "FlexibleMemory_Map os flexible_size vaddr len prot md gpu_mode name s h = Some (False, s, h')" using eq r by simp
    ultimately have ?ran using r ok mb(3) bh by (intro exI [of _ False] exI [of _ s] exI [of _ h']) simp
    then show ?thesis ..
  next
    case r: True
    obtain free where free: "consume_blocks bs (fm_free s) = Some free" "fl_ok free" "fl_bytes free = fl_bytes (fm_free s) - bbytes_of bs"
      using consume_blocks_spec [OF okp(1) tb(2,3) pl(3)] by blast
    let ?s = "s\<lparr>fm_free := free, fm_allocated := sort_key fb_map_vaddr (fm_allocated s @ bs), fm_allocated_total := fm_allocated_total s + len\<rparr>"
    have dv: "vbytes_of (fm_allocated s) \<inter> vbytes_of bs = {}" unfolding pl(2) using fresh vbytes_flex by fastforce
    have db: "bbytes_of (fm_allocated s) \<inter> bbytes_of bs = {}" using pl(3) okp(4) by blast
    have wf: "blocks_wf (fm_allocated s @ bs)" using okp(2) pl(1) dv db by simp
    have tall: "table_ok fb_map_vaddr fb_map_size (fm_allocated s @ bs)" using wf by (simp add: blocks_wf_def)
    have at: "flex_at (fm_allocated ?s) x = (case flex_at (fm_allocated s) x of None \<Rightarrow> flex_at bs x | Some i \<Rightarrow> Some i)" for x
      by (simp add: flex_at_sort [OF tall] flex_at_append)
    have fx: "fx_ok base flexible_size ?s"
      using blocks_wf_sort [OF wf] free okp pl(3,4) db unfolding fx_ok_def by auto
    have inb: "\<exists>i. flex_at bs x = Some i \<and> fi_backing i \<in> fl_bytes (fm_free s) \<and> fi_prot i = prot \<and> fi_mode i = md \<and>
           fi_gpu_mode i = gpu_mode \<and> fi_host i = (vaddr, len) \<and> fi_name i = CopyVirtualRangeName name"
      if x: "vaddr \<le> x" "x < vaddr + len" for x
    proof -
      have "x \<in> vbytes_of bs" unfolding pl(2) using x by simp
      then obtain i where i: "flex_at bs x = Some i" using vbytes_flex by blast
      then obtain b where b: "b \<in> set bs" "i = block_info b x" unfolding flex_at_def view_Some_iff [OF tb(1)] by blast
      obtain cc n off where mk: "b = ?mk cc n off" using pl(5) b(1) by blast
      have "fi_backing i \<in> fl_bytes (fm_free s)" using block_info_backing [OF tb(1) i] pl(3) by blast
      then show ?thesis using i b(2) mk by (simp add: block_info_def)
    qed
    have out: "flex_at bs x = None" if "\<not> (vaddr \<le> x \<and> x < vaddr + len)" for x
      using that pl(2) flex_at_None_iff [of bs x] by auto
    have views: "if vaddr \<le> x \<and> x < vaddr + len
         then \<exists>i. flex_at (fm_allocated ?s) x = Some i \<and> fi_backing i \<in> fl_bytes (fm_free s) \<and> fi_prot i = prot \<and> fi_mode i = md \<and>
           fi_gpu_mode i = gpu_mode \<and> fi_host i = (vaddr, len) \<and> fi_name i = CopyVirtualRangeName name
         else flex_at (fm_allocated ?s) x = flex_at (fm_allocated s) x \<and> backed h' x = backed h x" for x
    proof (cases "vaddr \<le> x \<and> x < vaddr + len")
      case True
      then show ?thesis unfolding at using inb fresh by simp
    next
      case False
      have bx: "backed h' x = backed h x" using bh r out [OF False] by (simp add: overlay_def)
      have "flex_at (fm_allocated ?s) x = flex_at (fm_allocated s) x" unfolding at out [OF False] by (simp split: option.split)
      with bx show ?thesis unfolding if_not_P [OF False] by blast
    qed
    have ag: "host_agrees backed ?s h'"
      unfolding host_agrees_def
    proof (intro allI impI)
      fix x i assume i: "flex_at (fm_allocated ?s) x = Some i"
      show "backed h' x = Some (fi_backing i)"
      proof (cases "vaddr \<le> x \<and> x < vaddr + len")
        case True
        then have "flex_at bs x = Some i" using i [unfolded at] fresh by simp
        then show ?thesis using bh r by (simp add: overlay_def)
      next
        case False
        then have "flex_at (fm_allocated s) x = Some i" using i [unfolded at] out [OF False] by (simp split: option.splits)
        moreover have "backed h' x = backed h x" using views [of x] False by (simp only: if_False)
        ultimately show ?thesis using agree by (simp add: host_agrees_def)
      qed
    qed
    have av: "FlexibleMemory_Available flexible_size ?s + len = FlexibleMemory_Available flexible_size s"
      using fx_total [OF fx] fx_total [OF ok] by simp
    have "FlexibleMemory_Map os flexible_size vaddr len prot md gpu_mode name s h = Some (True, ?s, h')"
      using eq r free(1) by simp
    moreover have "0 < len" using False by simp
    moreover note allI [of "\<lambda>x. if vaddr \<le> x \<and> x < vaddr + len then _ x else _ x", OF views]
    ultimately have ?ran using fx ag av by (intro exI [of _ True] exI [of _ ?s] exI [of _ h']) (simp only: simp_thms)
    then show ?thesis ..
  qed
  qed
qed

section \<open>Cutting blocks\<close>

definition head_part :: "u64 \<Rightarrow> FlexibleBlock \<Rightarrow> FlexibleBlock list" where
  "head_part lo b = (if fb_map_vaddr b < lo then [b\<lparr>fb_map_size := lo - fb_map_vaddr b\<rparr>] else [])"

definition tail_part :: "u64 \<Rightarrow> FlexibleBlock \<Rightarrow> FlexibleBlock list" where
  "tail_part hi b = (if hi < fb_map_vaddr b + fb_map_size b
     then [b\<lparr>fb_map_vaddr := hi, fb_map_size := fb_map_vaddr b + fb_map_size b - hi,
       fb_backing_offset := fb_backing_offset b + (hi - fb_map_vaddr b)\<rparr>] else [])"

definition touches :: "u64 \<Rightarrow> u64 \<Rightarrow> FlexibleBlock \<Rightarrow> bool" where
  "touches vaddr bytes b \<longleftrightarrow> 0 < bytes \<and> vaddr < fb_map_vaddr b + fb_map_size b \<and> fb_map_vaddr b < vaddr + bytes"

lemma overlap_touches: "fblock_ok b \<Longrightarrow> VirtualRangesOverlap vaddr bytes (fb_map_vaddr b) (fb_map_size b) \<longleftrightarrow> touches vaddr bytes b"
  using overlap_fits [of bytes "fb_map_size b" "fb_map_vaddr b" vaddr]
  by (cases "bytes = 0") (auto simp: touches_def fblock_ok_def VirtualRangesOverlap_def)

lemma touches_bounds:
  assumes "touches vaddr bytes b" and "fblock_ok b"
  defines "lo \<equiv> max vaddr (fb_map_vaddr b)" and "hi \<equiv> min (vaddr + bytes) (fb_map_vaddr b + fb_map_size b)"
  shows "fb_map_vaddr b \<le> lo" and "lo < hi" and "hi \<le> fb_map_vaddr b + fb_map_size b"
    and "\<And>x. fb_map_vaddr b \<le> x \<Longrightarrow> x < fb_map_vaddr b + fb_map_size b \<Longrightarrow> vaddr \<le> x \<and> x < vaddr + bytes \<longleftrightarrow> lo \<le> x \<and> x < hi"
    and "fb_backing_offset b + lo - fb_map_vaddr b = fb_backing_offset b + (lo - fb_map_vaddr b)"
    and "fb_backing_offset b + hi - fb_map_vaddr b = fb_backing_offset b + (hi - fb_map_vaddr b)"
  using assms by (auto simp: touches_def fblock_ok_def)

lemma unmap_pieces_form:
  assumes b: "fblock_ok b"
  shows "unmap_pieces vaddr bytes b = (if touches vaddr bytes b
    then head_part (max vaddr (fb_map_vaddr b)) b @ tail_part (min (vaddr + bytes) (fb_map_vaddr b + fb_map_size b)) b else [b])"
proof (cases "touches vaddr bytes b")
  case True
  define lo where "lo = max vaddr (fb_map_vaddr b)"
  define hi where "hi = min (vaddr + bytes) (fb_map_vaddr b + fb_map_size b)"
  note t = touches_bounds [OF True b, folded lo_def hi_def]
  show ?thesis unfolding unmap_pieces_def Let_def overlap_touches [OF b] lo_def [symmetric] hi_def [symmetric] t(6)
      head_part_def tail_part_def if_P [OF True] using True by (simp only: not_True_eq_False if_False)
qed (simp add: unmap_pieces_def Let_def overlap_touches [OF b])

lemma flexible_protect_form:
  assumes b: "fblock_ok b"
  shows "flexible_protect_pieces vaddr bytes prot md gpu_mode b = (if touches vaddr bytes b
    then (let lo = max vaddr (fb_map_vaddr b); hi = min (vaddr + bytes) (fb_map_vaddr b + fb_map_size b) in
      head_part lo b @ [b\<lparr>fb_map_vaddr := lo, fb_map_size := hi - lo, fb_backing_offset := fb_backing_offset b + (lo - fb_map_vaddr b),
        fb_prot := prot, fb_mode := md, fb_gpu_mode := gpu_mode\<rparr>] @ tail_part hi b) else [b])"
proof (cases "touches vaddr bytes b")
  case True
  define lo where "lo = max vaddr (fb_map_vaddr b)"
  define hi where "hi = min (vaddr + bytes) (fb_map_vaddr b + fb_map_size b)"
  note t = touches_bounds [OF True b, folded lo_def hi_def]
  show ?thesis unfolding flexible_protect_pieces_def Let_def overlap_touches [OF b] lo_def [symmetric] hi_def [symmetric] t(5,6)
      head_part_def tail_part_def if_P [OF True] using True by (simp only: not_True_eq_False if_False)
qed (simp add: flexible_protect_pieces_def Let_def overlap_touches [OF b])

lemma parts_ok:
  assumes b: "fblock_ok b" and lo: "fb_map_vaddr b \<le> lo" "lo < hi" "hi \<le> fb_map_vaddr b + fb_map_size b"
  shows "p \<in> set (head_part lo b) \<or> p \<in> set (tail_part hi b) \<Longrightarrow> fblock_ok p \<and> fb_map_vaddr b \<le> fb_map_vaddr p \<and>
      fb_map_vaddr p + fb_map_size p \<le> fb_map_vaddr b + fb_map_size b"
    and "seq_ok fb_map_vaddr fb_map_size (head_part lo b @ tail_part hi b)"
    and "table_ok fb_backing_offset fb_map_size (head_part lo b @ tail_part hi b)"
    and "view fb_map_vaddr fb_map_size block_info (head_part lo b @ tail_part hi b) x =
      (if fb_map_vaddr b \<le> x \<and> x < fb_map_vaddr b + fb_map_size b \<and> \<not> (lo \<le> x \<and> x < hi) then Some (block_info b x) else None)"
    and "view fb_backing_offset fb_map_size (\<lambda>b y. fb_map_vaddr b + (y - fb_backing_offset b)) (head_part lo b @ tail_part hi b) y =
      (if fb_backing_offset b \<le> y \<and> y < fb_backing_offset b + fb_map_size b \<and>
          \<not> (lo \<le> fb_map_vaddr b + (y - fb_backing_offset b) \<and> fb_map_vaddr b + (y - fb_backing_offset b) < hi)
       then Some (fb_map_vaddr b + (y - fb_backing_offset b)) else None)"
proof -
  have f: "0 < fb_map_size b" "fb_map_vaddr b + fb_map_size b \<le> UINT64_MAX" using b by (simp_all add: fblock_ok_def)
  show "p \<in> set (head_part lo b) \<or> p \<in> set (tail_part hi b) \<Longrightarrow> fblock_ok p \<and> fb_map_vaddr b \<le> fb_map_vaddr p \<and>
      fb_map_vaddr p + fb_map_size p \<le> fb_map_vaddr b + fb_map_size b"
    using f lo by (auto simp: head_part_def tail_part_def fblock_ok_def split: if_splits)
  show "seq_ok fb_map_vaddr fb_map_size (head_part lo b @ tail_part hi b)"
    using lo by (simp add: head_part_def tail_part_def)
  have d: "fb_backing_offset b + (lo - fb_map_vaddr b) \<le> fb_backing_offset b + (hi - fb_map_vaddr b)" using lo by simp
  show "table_ok fb_backing_offset fb_map_size (head_part lo b @ tail_part hi b)"
    by (rule seq_ok_table_ok) (use d lo in \<open>auto simp: head_part_def tail_part_def\<close>)
  show "view fb_map_vaddr fb_map_size block_info (head_part lo b @ tail_part hi b) x =
      (if fb_map_vaddr b \<le> x \<and> x < fb_map_vaddr b + fb_map_size b \<and> \<not> (lo \<le> x \<and> x < hi) then Some (block_info b x) else None)"
    using lo by (cases "fb_map_vaddr b < lo"; cases "hi < fb_map_vaddr b + fb_map_size b") (auto simp: head_part_def tail_part_def block_info_def)
  show "view fb_backing_offset fb_map_size (\<lambda>b y. fb_map_vaddr b + (y - fb_backing_offset b)) (head_part lo b @ tail_part hi b) y =
      (if fb_backing_offset b \<le> y \<and> y < fb_backing_offset b + fb_map_size b \<and>
          \<not> (lo \<le> fb_map_vaddr b + (y - fb_backing_offset b) \<and> fb_map_vaddr b + (y - fb_backing_offset b) < hi)
       then Some (fb_map_vaddr b + (y - fb_backing_offset b)) else None)"
    using lo by (cases "fb_map_vaddr b < lo"; cases "hi < fb_map_vaddr b + fb_map_size b") (auto simp: head_part_def tail_part_def)
qed

definition in_span :: "u64 \<Rightarrow> u64 \<Rightarrow> u64 \<Rightarrow> bool" where
  "in_span vaddr bytes x \<longleftrightarrow> vaddr \<le> x \<and> x < vaddr + bytes"

lemma unmap_pieces_inside:
  assumes b: "fblock_ok b" and p: "p \<in> set (unmap_pieces vaddr bytes b)"
  shows "fblock_ok p \<and> fb_map_vaddr b \<le> fb_map_vaddr p \<and> fb_map_vaddr p + fb_map_size p \<le> fb_map_vaddr b + fb_map_size b"
  using p parts_ok(1) [OF b touches_bounds(1-3) [OF _ b]] b by (auto simp: unmap_pieces_form [OF b] split: if_splits)

lemma unmap_pieces_seq_one:
  assumes b: "fblock_ok b"
  shows "seq_ok fb_map_vaddr fb_map_size (unmap_pieces vaddr bytes b)"
proof (cases "touches vaddr bytes b")
  case True
  show ?thesis unfolding unmap_pieces_form [OF b] if_P [OF True] by (rule parts_ok(2) [OF b touches_bounds(1-3) [OF True b]])
qed (simp add: unmap_pieces_form [OF b])

lemma not_touches: "fblock_ok b \<Longrightarrow> \<not> touches vaddr bytes b \<Longrightarrow> x \<in> iv fb_map_vaddr fb_map_size b \<Longrightarrow> \<not> in_span vaddr bytes x"
  by (auto simp: touches_def in_span_def fblock_ok_def)

interpretation unmap_v: piece_edit fb_map_vaddr fb_map_size block_info fblock_ok "unmap_pieces vaddr bytes"
  "\<lambda>x i. if in_span vaddr bytes x then None else Some i" for vaddr bytes
proof
  fix b x p assume b: "fblock_ok b"
  show "table_ok fb_map_vaddr fb_map_size (unmap_pieces vaddr bytes b)"
    by (rule seq_ok_table_ok, rule unmap_pieces_seq_one [OF b])
  show "p \<in> set (unmap_pieces vaddr bytes b) \<Longrightarrow> fblock_ok p" using unmap_pieces_inside [OF b] by blast
  show "view fb_map_vaddr fb_map_size block_info (unmap_pieces vaddr bytes b) x =
      (if x \<in> iv fb_map_vaddr fb_map_size b then if in_span vaddr bytes x then None else Some (block_info b x) else None)"
  proof (cases "touches vaddr bytes b")
    case True
    note t = touches_bounds [OF True b]
    show ?thesis unfolding unmap_pieces_form [OF b] if_P [OF True] parts_ok(4) [OF b t(1-3)] using t(4) by (simp add: in_span_def)
  next
    case False
    then show ?thesis using not_touches [OF b False, of x] by (simp add: unmap_pieces_form [OF b])
  qed
qed

interpretation unmap_b: piece_edit fb_backing_offset fb_map_size "\<lambda>b y. fb_map_vaddr b + (y - fb_backing_offset b)" fblock_ok
  "unmap_pieces vaddr bytes" "\<lambda>y u. if in_span vaddr bytes u then None else Some u" for vaddr bytes
proof
  fix b y p assume b: "fblock_ok b"
  show "table_ok fb_backing_offset fb_map_size (unmap_pieces vaddr bytes b)"
  proof (cases "touches vaddr bytes b")
    case True
    show ?thesis unfolding unmap_pieces_form [OF b] if_P [OF True] by (rule parts_ok(3) [OF b touches_bounds(1-3) [OF True b]])
  qed (simp add: unmap_pieces_form [OF b])
  show "p \<in> set (unmap_pieces vaddr bytes b) \<Longrightarrow> fblock_ok p" using unmap_pieces_inside [OF b] by blast
  let ?u = "fb_map_vaddr b + (y - fb_backing_offset b)"
  show "view fb_backing_offset fb_map_size (\<lambda>b y. fb_map_vaddr b + (y - fb_backing_offset b)) (unmap_pieces vaddr bytes b) y =
      (if y \<in> iv fb_backing_offset fb_map_size b then if in_span vaddr bytes ?u then None else Some ?u else None)"
  proof (cases "touches vaddr bytes b")
    case True
    note t = touches_bounds [OF True b]
    show ?thesis unfolding unmap_pieces_form [OF b] if_P [OF True] parts_ok(5) [OF b t(1-3)] using t(4) [of ?u] by (auto simp: in_span_def)
  next
    case False
    have "\<not> in_span vaddr bytes ?u" if "y \<in> iv fb_backing_offset fb_map_size b"
      by (rule not_touches [OF b False]) (use that in auto)
    then show ?thesis using False by (auto simp: unmap_pieces_form [OF b] simp del: mem_iv)
  qed
qed

lemma unmap_pieces_seq:
  "seq_ok fb_map_vaddr fb_map_size bs \<Longrightarrow> \<forall>b\<in>set bs. fblock_ok b \<Longrightarrow> seq_ok fb_map_vaddr fb_map_size (concat (map (unmap_pieces vaddr bytes) bs))"
proof (rule seq_ok_cut)
  assume ok: "\<forall>b\<in>set bs. fblock_ok b"
  show "\<forall>b\<in>set bs. seq_ok fb_map_vaddr fb_map_size (unmap_pieces vaddr bytes b) \<and>
      (\<forall>p\<in>set (unmap_pieces vaddr bytes b). fb_map_vaddr b \<le> fb_map_vaddr p \<and> fb_map_vaddr p + fb_map_size p \<le> fb_map_vaddr b + fb_map_size b)"
  proof
    fix b assume "b \<in> set bs"
    then have b: "fblock_ok b" using ok by blast
    have "seq_ok fb_map_vaddr fb_map_size (unmap_pieces vaddr bytes b)"
      by (rule unmap_pieces_seq_one [OF b])
    then show "seq_ok fb_map_vaddr fb_map_size (unmap_pieces vaddr bytes b) \<and>
      (\<forall>p\<in>set (unmap_pieces vaddr bytes b). fb_map_vaddr b \<le> fb_map_vaddr p \<and> fb_map_vaddr p + fb_map_size p \<le> fb_map_vaddr b + fb_map_size b)"
      using unmap_pieces_inside [OF b] by blast
  qed
qed

section \<open>Unmapping\<close>

lemma flexible_span_spec:
  assumes "seq_ok fb_map_vaddr fb_map_size bs" and "\<forall>b\<in>set bs. fblock_ok b" and "cur < e" and "flexible_span e cur g bs = (g', c')"
  shows "(c' = e \<longleftrightarrow> {cur..<e} \<subseteq> vbytes_of bs) \<and>
    (c' = e \<longrightarrow> g' = (case g of Some x \<Rightarrow> Some x | None \<Rightarrow> map_option fi_gpu_mode (flex_at bs cur)))"
  using assms
proof (induction bs arbitrary: cur g)
  case Nil
  then show ?case by auto
next
  case (Cons b bs)
  let ?v = "fb_map_vaddr b" and ?z = "fb_map_vaddr b + fb_map_size b"
  have b: "0 < fb_map_size b" "\<forall>c\<in>set bs. ?z \<le> fb_map_vaddr c" using Cons.prems(1,2) by (auto simp: fblock_ok_def)
  have later: "x \<in> vbytes_of bs \<Longrightarrow> ?z \<le> x" for x using b(2) by (fastforce simp: table_bytes_def)
  consider "?z \<le> cur" | "cur < ?z" "cur < ?v" | "?v \<le> cur" "cur < ?z" "e \<le> ?z" | "?v \<le> cur" "cur < ?z" "?z < e" by linarith
  then show ?case
  proof cases
    case 1
    have "flexible_span e cur g bs = (g', c')" using Cons.prems(4) 1 by simp
    then have IH: "(c' = e \<longleftrightarrow> {cur..<e} \<subseteq> vbytes_of bs) \<and>
      (c' = e \<longrightarrow> g' = (case g of Some x \<Rightarrow> Some x | None \<Rightarrow> map_option fi_gpu_mode (flex_at bs cur)))"
      using Cons.IH [of cur g] Cons.prems by simp
    have e1: "{cur..<e} \<subseteq> vbytes_of (b # bs) \<longleftrightarrow> {cur..<e} \<subseteq> vbytes_of bs" using 1 by auto
    have e2: "flex_at (b # bs) cur = flex_at bs cur" using 1 by simp
    show ?thesis unfolding e1 e2 by (rule IH)
  next
    case 2
    have "c' = cur" using Cons.prems(4) 2 by auto
    moreover have "cur \<notin> vbytes_of (b # bs)" using 2 later [of cur] by auto
    then have "\<not> {cur..<e} \<subseteq> vbytes_of (b # bs)" using Cons.prems(3) by (metis atLeastLessThan_iff le_refl subsetD)
    ultimately show ?thesis using Cons.prems(3) by simp
  next
    case 3
    have "c' = e" "g' = (case g of None \<Rightarrow> Some (fb_gpu_mode b) | Some x \<Rightarrow> Some x)"
      using Cons.prems(3,4) 3 by (auto simp: Let_def min_def split: if_splits)
    moreover have "{cur..<e} \<subseteq> vbytes_of (b # bs)" using 3 by auto
    moreover have "map_option fi_gpu_mode (flex_at (b # bs) cur) = Some (fb_gpu_mode b)" using 3 by (simp add: block_info_def)
    ultimately show ?thesis by (auto split: option.split)
  next
    case 4
    let ?g = "case g of None \<Rightarrow> Some (fb_gpu_mode b) | Some x \<Rightarrow> Some x"
    have "flexible_span e ?z ?g bs = (g', c')" using Cons.prems(4) 4 by (simp add: Let_def min_def split: if_splits)
    then have IH: "(c' = e \<longleftrightarrow> {?z..<e} \<subseteq> vbytes_of bs) \<and>
      (c' = e \<longrightarrow> g' = (case ?g of Some x \<Rightarrow> Some x | None \<Rightarrow> map_option fi_gpu_mode (flex_at bs ?z)))"
      using Cons.IH [of ?z ?g] Cons.prems 4 by simp
    have "{cur..<e} \<subseteq> vbytes_of (b # bs) \<longleftrightarrow> {?z..<e} \<subseteq> vbytes_of bs"
    proof
      assume s: "{cur..<e} \<subseteq> vbytes_of (b # bs)"
      show "{?z..<e} \<subseteq> vbytes_of bs"
      proof
        fix x assume x: "x \<in> {?z..<e}"
        then have "x \<in> {cur..<e}" using 4 by simp
        then have "x \<in> vbytes_of (b # bs)" by (rule subsetD [OF s])
        moreover have "x \<notin> iv fb_map_vaddr fb_map_size b" using x by simp
        ultimately show "x \<in> vbytes_of bs" unfolding table_bytes_simps by blast
      qed
    next
      assume s: "{?z..<e} \<subseteq> vbytes_of bs"
      show "{cur..<e} \<subseteq> vbytes_of (b # bs)"
      proof
        fix x assume x: "x \<in> {cur..<e}"
        show "x \<in> vbytes_of (b # bs)"
        proof (cases "x < ?z")
          case True
          then show ?thesis using x 4 by simp
        next
          case False
          then have "x \<in> vbytes_of bs" using s x by auto
          then show ?thesis by simp
        qed
      qed
    qed
    moreover have "map_option fi_gpu_mode (flex_at (b # bs) cur) = Some (fb_gpu_mode b)" using 4 by (simp add: block_info_def)
    ultimately show ?thesis using IH by (auto split: option.splits)
  qed
qed

lemma give_back_spec:
  assumes "blocks_wf bs" and "fl_ok free" and "give_back vaddr bytes bs free k = (free', k')"
  shows "fl_ok free' \<and> fl_bytes free' = fl_bytes free \<union> {y. \<exists>u. user_of bs y = Some u \<and> in_span vaddr bytes u} \<and>
    k' = k + card ({vaddr..<vaddr + bytes} \<inter> vbytes_of bs)"
  using assms
proof (induction bs arbitrary: free k)
  case Nil
  then show ?case by (simp add: user_of_def)
next
  case (Cons b bs)
  have b: "fblock_ok b" and wf: "blocks_wf bs" using Cons.prems(1) by simp_all
  have dv: "iv fb_map_vaddr fb_map_size b \<inter> vbytes_of bs = {}" and db: "iv fb_backing_offset fb_map_size b \<inter> bbytes_of bs = {}"
    using Cons.prems(1) by simp_all
  let ?m = "\<lambda>y. fb_map_vaddr b + (y - fb_backing_offset b)"
  let ?U = "{y. \<exists>u. user_of bs y = Some u \<and> in_span vaddr bytes u}"
  have uo: "user_of (b # bs) y = (if y \<in> iv fb_backing_offset fb_map_size b then Some (?m y) else user_of bs y)" for y
    by (simp add: user_of_def)
  have un: "user_of bs y = None" if "y \<in> iv fb_backing_offset fb_map_size b" for y
    using that db view_None_iff unfolding user_of_def by (metis IntI empty_iff)
  have us: "{y. \<exists>u. user_of (b # bs) y = Some u \<and> in_span vaddr bytes u} =
      {y \<in> iv fb_backing_offset fb_map_size b. in_span vaddr bytes (?m y)} \<union> ?U"
    using un by (auto simp: uo simp del: mem_iv split: if_splits)
  have cs: "card ({vaddr..<vaddr + bytes} \<inter> vbytes_of (b # bs)) =
      card ({vaddr..<vaddr + bytes} \<inter> iv fb_map_vaddr fb_map_size b) + card ({vaddr..<vaddr + bytes} \<inter> vbytes_of bs)"
    unfolding table_bytes_simps Int_Un_distrib using dv by (intro card_Un_disjoint) auto
  show ?case
  proof (cases "touches vaddr bytes b")
    case False
    then have "give_back vaddr bytes bs free k = (free', k')" using Cons.prems(3) by (simp add: overlap_touches [OF b] Let_def)
    note IH = Cons.IH [OF wf Cons.prems(2) this]
    have e0: "{y \<in> iv fb_backing_offset fb_map_size b. in_span vaddr bytes (?m y)} = {}"
    proof -
      have "\<not> in_span vaddr bytes (?m y)" if "y \<in> iv fb_backing_offset fb_map_size b" for y
        by (rule not_touches [OF b False]) (use that in auto)
      then show ?thesis by blast
    qed
    have i0: "{vaddr..<vaddr + bytes} \<inter> iv fb_map_vaddr fb_map_size b = {}"
      using not_touches [OF b False] by (auto simp: in_span_def)
    show ?thesis using IH unfolding us cs e0 i0 by simp
  next
    case True
    define lo where "lo = max vaddr (fb_map_vaddr b)"
    define hi where "hi = min (vaddr + bytes) (fb_map_vaddr b + fb_map_size b)"
    note t = touches_bounds [OF True b, folded lo_def hi_def]
    let ?f = "AddFreeRange (fb_backing_offset b + (lo - fb_map_vaddr b)) (hi - lo) free"
    have "give_back vaddr bytes bs ?f (k + (hi - lo)) = (free', k')"
      using Cons.prems(3) True unfolding give_back.simps Let_def overlap_touches [OF b] lo_def [symmetric] hi_def [symmetric] t(5)
        Flexible_free_list by (simp only: not_True_eq_False if_False)
    moreover have fr: "fl_ok ?f" "fl_bytes ?f = fl_bytes free \<union> {fb_backing_offset b + (lo - fb_map_vaddr b)..<fb_backing_offset b + (lo - fb_map_vaddr b) + (hi - lo)}"
      using AddFreeRange_spec [OF Cons.prems(2)] t(2) by simp_all
    ultimately have IH: "fl_ok free'" "fl_bytes free' = fl_bytes ?f \<union> ?U" "k' = k + (hi - lo) + card ({vaddr..<vaddr + bytes} \<inter> vbytes_of bs)"
      using Cons.IH [OF wf fr(1)] by blast+
    have "{y \<in> iv fb_backing_offset fb_map_size b. in_span vaddr bytes (?m y)} =
      {fb_backing_offset b + (lo - fb_map_vaddr b)..<fb_backing_offset b + (lo - fb_map_vaddr b) + (hi - lo)}"
    proof (rule set_eqI)
      fix y
      show "y \<in> {y \<in> iv fb_backing_offset fb_map_size b. in_span vaddr bytes (?m y)} \<longleftrightarrow>
        y \<in> {fb_backing_offset b + (lo - fb_map_vaddr b)..<fb_backing_offset b + (lo - fb_map_vaddr b) + (hi - lo)}"
      proof (cases "y \<in> iv fb_backing_offset fb_map_size b")
        case True
        then have "in_span vaddr bytes (?m y) \<longleftrightarrow> lo \<le> ?m y \<and> ?m y < hi" using t(4) [of "?m y"] by (auto simp: in_span_def)
        then show ?thesis using True t(1-3) by auto
      next
        case False
        then show ?thesis using t(1-3) by auto
      qed
    qed
    moreover have "{vaddr..<vaddr + bytes} \<inter> iv fb_map_vaddr fb_map_size b = {lo..<hi}"
      by (auto simp: lo_def hi_def iv_def)
    ultimately show ?thesis using IH us cs fr(2) by auto
  qed
qed

lemma unmap_all:
  fixes vaddr bytes :: u64
  assumes wf: "blocks_wf bs" and sq: "seq_ok fb_map_vaddr fb_map_size bs"
  defines "cs \<equiv> concat (map (unmap_pieces vaddr bytes) bs)"
  shows "blocks_wf cs" and "seq_ok fb_map_vaddr fb_map_size cs"
    and "flex_at cs x = (if in_span vaddr bytes x then None else flex_at bs x)"
    and "user_of cs y = (case user_of bs y of None \<Rightarrow> None | Some u \<Rightarrow> if in_span vaddr bytes u then None else Some u)"
proof -
  have t: "table_ok fb_map_vaddr fb_map_size bs" "table_ok fb_backing_offset fb_map_size bs" "\<forall>b\<in>set bs. fblock_ok b"
    using wf by (simp_all add: blocks_wf_def)
  note v = unmap_v.edit_all [OF t(1,3), of vaddr bytes, folded cs_def]
  note b = unmap_b.edit_all [OF t(2,3), of vaddr bytes, folded cs_def]
  show "blocks_wf cs" unfolding blocks_wf_def using v(1,2) b(1) by blast
  show "seq_ok fb_map_vaddr fb_map_size cs" unfolding cs_def by (rule unmap_pieces_seq [OF sq t(3)])
  show "flex_at cs x = (if in_span vaddr bytes x then None else flex_at bs x)"
    unfolding flex_at_def v(3) by (cases "view fb_map_vaddr fb_map_size block_info bs x") simp_all
  show "user_of cs y = (case user_of bs y of None \<Rightarrow> None | Some u \<Rightarrow> if in_span vaddr bytes u then None else Some u)"
    unfolding user_of_def b(3) by (simp split: option.split)
qed

lemma bbytes_user: "y \<in> bbytes_of bs \<longleftrightarrow> (\<exists>u. user_of bs y = Some u)"
  using view_None_iff [of fb_backing_offset fb_map_size "\<lambda>b y. fb_map_vaddr b + (y - fb_backing_offset b)" bs y]
  by (auto simp: user_of_def)

lemma FlexibleMemory_Unmap_spec:
  assumes ok: "fx_ok base flexible_size s" and c: "host_contract os backed" and agree: "host_agrees backed s h"
    and n: "0 < bytes" "vaddr + bytes \<le> UINT64_MAX"
  shows "\<exists>r s' h'. FlexibleMemory_Unmap os vaddr bytes s h = Some (r, s', h') \<and> fx_ok base flexible_size s' \<and> host_agrees backed s' h' \<and>
    (r \<noteq> None \<longleftrightarrow> {vaddr..<vaddr + bytes} \<subseteq> vbytes_of (fm_allocated s) \<and> fst (UnmapBacking os vaddr bytes h)) \<and>
    (r = None \<longrightarrow> s' = s \<and> backed h' = backed h) \<and> (\<not> {vaddr..<vaddr + bytes} \<subseteq> vbytes_of (fm_allocated s) \<longrightarrow> h' = h) \<and>
    (r \<noteq> None \<longrightarrow> r = map_option fi_gpu_mode (flex_at (fm_allocated s) vaddr) \<and>
      FlexibleMemory_Available flexible_size s' = FlexibleMemory_Available flexible_size s + bytes \<and>
      fl_bytes (fm_free s') = fl_bytes (fm_free s) \<union> {y. \<exists>u. user_of (fm_allocated s) y = Some u \<and> in_span vaddr bytes u} \<and>
      backed h' = span_none vaddr bytes (backed h) \<and>
      (\<forall>x. flex_at (fm_allocated s') x = (if in_span vaddr bytes x then None else flex_at (fm_allocated s) x)))"
proof -
  have okp: "fl_ok (fm_free s)" "blocks_wf (fm_allocated s)" "seq_ok fb_map_vaddr fb_map_size (fm_allocated s)"
     "fl_bytes (fm_free s) \<inter> bbytes_of (fm_allocated s) = {}"
     "fl_bytes (fm_free s) \<union> bbytes_of (fm_allocated s) = {base..<base + flexible_size}"
     "fm_allocated_total s = sum_list (map fb_map_size (fm_allocated s))" using ok by (auto simp: fx_ok_def)
  have t: "table_ok fb_map_vaddr fb_map_size (fm_allocated s)" "\<forall>b\<in>set (fm_allocated s). fblock_ok b" using okp(2) by (simp_all add: blocks_wf_def)
  obtain g cur where sp: "flexible_span (vaddr + bytes) vaddr None (fm_allocated s) = (g, cur)" by fastforce
  have lt: "vaddr < vaddr + bytes" using n by simp
  note fs = flexible_span_spec [OF okp(3) t(2) lt sp]
  have guard: "\<not> (bytes = 0 \<or> UINT64_MAX - vaddr < bytes)" using n by auto
  show ?thesis
  proof (cases "{vaddr..<vaddr + bytes} \<subseteq> vbytes_of (fm_allocated s)")
    case False
    then have "cur \<noteq> vaddr + bytes" using fs by blast
    then have "FlexibleMemory_Unmap os vaddr bytes s h = Some (None, s, h)"
      unfolding FlexibleMemory_Unmap_def if_not_P [OF guard] sp by simp
    then show ?thesis using False ok agree by (intro exI [of _ None] exI [of _ s] exI [of _ h]) simp
  next
    case True
    then have cur: "cur = vaddr + bytes" and g: "g = map_option fi_gpu_mode (flex_at (fm_allocated s) vaddr)" using fs by simp_all
    have "vaddr \<in> vbytes_of (fm_allocated s)" using True n by (metis atLeastLessThan_iff le_refl less_add_same_cancel1 subsetD)
    then have gn: "g \<noteq> None" using g vbytes_flex by auto
    obtain okh h' where u: "UnmapBacking os vaddr bytes h = (okh, h')" by fastforce
    show ?thesis
    proof (cases okh)
      case okh: False
      then have "backed h' = backed h" using c u unfolding host_contract_def by (metis fst_conv snd_conv)
      moreover have "host_agrees backed s h'" using agree calculation by (simp add: host_agrees_def)
      moreover have "FlexibleMemory_Unmap os vaddr bytes s h = Some (None, s, h')"
        unfolding FlexibleMemory_Unmap_def if_not_P [OF guard] sp using cur gn u okh by auto
      ultimately show ?thesis using ok u okh True by (intro exI [of _ None] exI [of _ s] exI [of _ h']) simp
    next
    case okh: True
    have bh: "backed h' = span_none vaddr bytes (backed h)" using c u okh unfolding host_contract_def by (metis fst_conv snd_conv)
    obtain free k where gb: "give_back vaddr bytes (fm_allocated s) (fm_free s) 0 = (free, k)" by fastforce
    note gs = give_back_spec [OF okp(2,1) gb]
    have "{vaddr..<vaddr + bytes} \<inter> vbytes_of (fm_allocated s) = {vaddr..<vaddr + bytes}" using True by blast
    then have k: "k = bytes" using gs by simp
    have card: "card (vbytes_of (fm_allocated s)) = fm_allocated_total s" using table_card [OF t(1)] okp(6) by simp
    have kt: "bytes \<le> fm_allocated_total s" using card_mono [OF table_finite True] card by simp
    let ?cs = "concat (map (unmap_pieces vaddr bytes) (fm_allocated s))"
    let ?s = "s\<lparr>fm_free := free, fm_allocated := ?cs, fm_allocated_total := fm_allocated_total s - bytes\<rparr>"
    note ua = unmap_all [OF okp(2,3), of vaddr bytes]
    have eq: "FlexibleMemory_Unmap os vaddr bytes s h = Some (g, ?s, h')"
      unfolding FlexibleMemory_Unmap_def if_not_P [OF guard] sp using cur gn u okh gb k kt by auto
    have vb: "vbytes_of ?cs = vbytes_of (fm_allocated s) - {vaddr..<vaddr + bytes}"
    proof (rule set_eqI)
      fix x show "x \<in> vbytes_of ?cs \<longleftrightarrow> x \<in> vbytes_of (fm_allocated s) - {vaddr..<vaddr + bytes}"
        unfolding Diff_iff vbytes_flex ua(3) by (simp add: in_span_def)
    qed
    have tc: "table_ok fb_map_vaddr fb_map_size ?cs" using ua(1) by (simp add: blocks_wf_def)
    have "sum_list (map fb_map_size ?cs) = card (vbytes_of ?cs)" using table_card [OF tc] by simp
    also have "\<dots> = fm_allocated_total s - bytes" unfolding vb using True by (subst card_Diff_subset) (simp_all add: card)
    finally have sum: "sum_list (map fb_map_size ?cs) = fm_allocated_total s - bytes" .
    have bb: "bbytes_of ?cs = bbytes_of (fm_allocated s) - {y. \<exists>u. user_of (fm_allocated s) y = Some u \<and> in_span vaddr bytes u}"
    proof (rule set_eqI)
      fix y show "y \<in> bbytes_of ?cs \<longleftrightarrow> y \<in> bbytes_of (fm_allocated s) - {y. \<exists>u. user_of (fm_allocated s) y = Some u \<and> in_span vaddr bytes u}"
        unfolding Diff_iff bbytes_user mem_Collect_eq ua(4) by (cases "user_of (fm_allocated s) y") simp_all
    qed
    have sub: "{y. \<exists>u. user_of (fm_allocated s) y = Some u \<and> in_span vaddr bytes u} \<subseteq> bbytes_of (fm_allocated s)" by (auto simp: bbytes_user)
    have fx: "fx_ok base flexible_size ?s"
      unfolding fx_ok_def using gs ua(1,2) bb sub okp(4,5) sum by auto
    have ag: "host_agrees backed ?s h'"
      unfolding host_agrees_def
    proof (intro allI impI)
      fix x i assume a: "flex_at (fm_allocated ?s) x = Some i"
      then have "flex_at ?cs x = Some i" by simp
      then have "\<not> in_span vaddr bytes x" "flex_at (fm_allocated s) x = Some i" unfolding ua(3) by (simp_all split: if_splits)
      then show "backed h' x = Some (fi_backing i)" using agree bh by (simp add: host_agrees_def span_none_def in_span_def)
    qed
    have av: "FlexibleMemory_Available flexible_size ?s = FlexibleMemory_Available flexible_size s + bytes"
      using fx_total [OF fx] fx_total [OF ok] kt by simp
    have f1: "fl_bytes (fm_free ?s) = fl_bytes (fm_free s) \<union> {y. \<exists>u. user_of (fm_allocated s) y = Some u \<and> in_span vaddr bytes u}"
      using gs by simp
    have f2: "\<forall>x. flex_at (fm_allocated ?s) x = (if in_span vaddr bytes x then None else flex_at (fm_allocated s) x)"
      using ua(3) by simp
    show ?thesis
      using eq fx ag gn True g av f1 f2 bh u okh by (intro exI [of _ g] exI [of _ ?s] exI [of _ h']) auto
    qed
  qed
qed

lemma snapshot_span_spec:
  assumes "seq_ok fb_map_vaddr fb_map_size bs" and "blocks_wf bs" and "cur < e" and "e \<le> UINT64_MAX"
  shows "case snapshot_span e cur bs of
      None \<Rightarrow> \<not> {cur..<e} \<subseteq> vbytes_of bs
    | Some ps \<Rightarrow> {cur..<e} \<subseteq> vbytes_of bs \<and> ps \<noteq> [] \<and> blocks_wf ps \<and> vbytes_of ps = {cur..<e} \<and>
        (\<forall>x. flex_at ps x = (if cur \<le> x \<and> x < e then flex_at bs x else None)) \<and>
        (\<forall>y. user_of ps y = (case user_of bs y of None \<Rightarrow> None | Some u \<Rightarrow> if cur \<le> u \<and> u < e then Some u else None))"
  using assms
proof (induction bs arbitrary: cur)
  case Nil
  then show ?case by auto
next
  case (Cons b bs)
  let ?v = "fb_map_vaddr b" and ?z = "fb_map_vaddr b + fb_map_size b"
  have b: "0 < fb_map_size b" "\<forall>c\<in>set bs. ?z \<le> fb_map_vaddr c" "fblock_ok b" "blocks_wf bs" "seq_ok fb_map_vaddr fb_map_size bs"
    using Cons.prems(1,2) by (auto simp: fblock_ok_def)
  have later: "x \<in> vbytes_of bs \<Longrightarrow> ?z \<le> x" for x using b(2) by (fastforce simp: table_bytes_def)
  have tb: "table_ok fb_backing_offset fb_map_size bs" "\<forall>c\<in>set bs. fblock_ok c" using b(4) by (simp_all add: blocks_wf_def)
  have laterb: "user_of bs y = Some u \<Longrightarrow> ?z \<le> u" for y u
  proof -
    assume a: "user_of bs y = Some u"
    obtain c where "c \<in> set bs" "u = fb_map_vaddr c + (y - fb_backing_offset c)"
      using a unfolding user_of_def view_Some_iff [OF tb(1)] by blast
    then show ?thesis using b(2) by force
  qed
  have db: "iv fb_backing_offset fb_map_size b \<inter> bbytes_of bs = {}" using Cons.prems(2) by simp
  have uo: "user_of (b # bs) y = (if y \<in> iv fb_backing_offset fb_map_size b then Some (?v + (y - fb_backing_offset b)) else user_of bs y)" for y
    by (simp add: user_of_def)
  have un: "user_of bs y = None" if "y \<in> iv fb_backing_offset fb_map_size b" for y
    using that db bbytes_user [of y bs] by (metis IntI empty_iff not_None_eq)
  consider "?z \<le> cur" | "cur < ?z" "cur < ?v" | "?v \<le> cur" "cur < ?z" "e \<le> ?z" | "?v \<le> cur" "cur < ?z" "?z < e" by linarith
  then show ?case
  proof cases
    case 1
    note IH = Cons.IH [OF b(5,4) Cons.prems(3,4)]
    have e0: "snapshot_span e cur (b # bs) = snapshot_span e cur bs" using 1 by simp
    have e1: "{cur..<e} \<subseteq> vbytes_of (b # bs) \<longleftrightarrow> {cur..<e} \<subseteq> vbytes_of bs" using 1 by auto
    have e2: "(if cur \<le> x \<and> x < e then flex_at (b # bs) x else None) = (if cur \<le> x \<and> x < e then flex_at bs x else None)" for x using 1 by simp
    have e3: "(case user_of (b # bs) y of None \<Rightarrow> None | Some u \<Rightarrow> if cur \<le> u \<and> u < e then Some u else None) =
        (case user_of bs y of None \<Rightarrow> None | Some u \<Rightarrow> if cur \<le> u \<and> u < e then Some u else None)" for y
      using 1 un [of y] by (auto simp: uo)
    show ?thesis unfolding e0 e1 e2 e3 by (rule IH)
  next
    case 2
    have "cur \<notin> vbytes_of (b # bs)" using 2 later [of cur] by auto
    then have "\<not> {cur..<e} \<subseteq> vbytes_of (b # bs)" using Cons.prems(3) by (metis atLeastLessThan_iff le_refl subsetD)
    moreover have "snapshot_span e cur (b # bs) = None" using 2 by simp
    ultimately show ?thesis by simp
  next
    case 3
    let ?p = "b\<lparr>fb_map_vaddr := cur, fb_map_size := e - cur, fb_backing_offset := fb_backing_offset b + (cur - ?v)\<rparr>"
    have e0: "snapshot_span e cur (b # bs) = Some [?p]" using 3 Cons.prems(3) by (simp add: Let_def min_def)
    have e1: "{cur..<e} \<subseteq> vbytes_of (b # bs)" using 3 by auto
    have e2: "vbytes_of [?p] = {cur..<e}" using Cons.prems(3) by (simp add: iv_def)
    have e3: "blocks_wf [?p]" using b(3) 3 Cons.prems(3,4) by (simp add: fblock_ok_def)
    have e4: "flex_at [?p] x = (if cur \<le> x \<and> x < e then flex_at (b # bs) x else None)" for x
      using 3 Cons.prems(3) by (auto simp: block_info_def)
    have e5: "user_of [?p] y = (case user_of (b # bs) y of None \<Rightarrow> None | Some u \<Rightarrow> if cur \<le> u \<and> u < e then Some u else None)" for y
    proof (cases "y \<in> iv fb_backing_offset fb_map_size b")
      case True
      then show ?thesis using 3 Cons.prems(3) by (auto simp: uo user_of_def)
    next
      case False
      then have "user_of [?p] y = None" using 3 by (auto simp: user_of_def)
      then show ?thesis using False laterb [of y] 3 by (auto simp: uo split: option.split)
    qed
    show ?thesis unfolding e0 option.case using e1 e2 e3 e4 e5 by blast
  next
    case 4
    let ?p = "b\<lparr>fb_map_vaddr := cur, fb_map_size := ?z - cur, fb_backing_offset := fb_backing_offset b + (cur - ?v)\<rparr>"
    have e0: "snapshot_span e cur (b # bs) = map_option ((#) ?p) (snapshot_span e ?z bs)" using 4 by (simp add: Let_def min_def)
    note IH = Cons.IH [OF b(5,4) 4(3) Cons.prems(4)]
    have sub: "{cur..<e} \<subseteq> vbytes_of (b # bs) \<longleftrightarrow> {?z..<e} \<subseteq> vbytes_of bs"
    proof
      assume s: "{cur..<e} \<subseteq> vbytes_of (b # bs)"
      show "{?z..<e} \<subseteq> vbytes_of bs"
      proof
        fix x assume x: "x \<in> {?z..<e}"
        then have "x \<in> {cur..<e}" using 4 by simp
        then have "x \<in> vbytes_of (b # bs)" by (rule subsetD [OF s])
        moreover have "x \<notin> iv fb_map_vaddr fb_map_size b" using x by simp
        ultimately show "x \<in> vbytes_of bs" unfolding table_bytes_simps by blast
      qed
    next
      assume s: "{?z..<e} \<subseteq> vbytes_of bs"
      have "{cur..<e} \<subseteq> iv fb_map_vaddr fb_map_size b \<union> {?z..<e}" using 4 by auto
      then show "{cur..<e} \<subseteq> vbytes_of (b # bs)" unfolding table_bytes_simps using s by blast
    qed
    show ?thesis
    proof (cases "snapshot_span e ?z bs")
      case None
      then show ?thesis using IH sub e0 by simp
    next
      case (Some ps)
      have I: "{?z..<e} \<subseteq> vbytes_of bs" "blocks_wf ps" "vbytes_of ps = {?z..<e}"
        "\<And>x. flex_at ps x = (if ?z \<le> x \<and> x < e then flex_at bs x else None)"
        "\<And>y. user_of ps y = (case user_of bs y of None \<Rightarrow> None | Some u \<Rightarrow> if ?z \<le> u \<and> u < e then Some u else None)"
        using IH unfolding Some option.case by blast+
      have ivp: "iv fb_map_vaddr fb_map_size ?p = {cur..<?z}" using 4 by (simp add: iv_def)
      have bsub: "iv fb_backing_offset fb_map_size ?p \<subseteq> iv fb_backing_offset fb_map_size b" using 4 by auto
      have psb: "bbytes_of ps \<subseteq> bbytes_of bs" using I(5) by (auto simp: bbytes_user split: option.splits)
      have "blocks_wf (?p # ps)"
        unfolding blocks_wf_simps ivp I(3) using I(2) b(3) 4 bsub psb db by (auto simp: fblock_ok_def simp del: mem_iv)
      moreover have "vbytes_of (?p # ps) = {cur..<e}" unfolding table_bytes_simps ivp I(3) using 4 by auto
      moreover have "flex_at (?p # ps) x = (if cur \<le> x \<and> x < e then flex_at (b # bs) x else None)" for x
      proof -
        consider "cur \<le> x" "x < ?z" | "?z \<le> x" | "x < cur" by linarith
        then show ?thesis
        proof cases
          case 1
          then have "x \<in> iv fb_map_vaddr fb_map_size ?p" "x \<in> iv fb_map_vaddr fb_map_size b" unfolding ivp using 4 by auto
          then show ?thesis using 1 4 by (simp add: block_info_def del: mem_iv)
        next
          case 2
          then have "x \<notin> iv fb_map_vaddr fb_map_size ?p" "x \<notin> iv fb_map_vaddr fb_map_size b" unfolding ivp by auto
          then show ?thesis using 2 4 I(4) [of x] by (simp del: mem_iv)
        next
          case 3
          then have "x \<notin> iv fb_map_vaddr fb_map_size ?p" unfolding ivp by auto
          then show ?thesis using 3 4 I(4) [of x] by (simp del: mem_iv)
        qed
      qed
      moreover have "user_of (?p # ps) y = (case user_of (b # bs) y of None \<Rightarrow> None | Some u \<Rightarrow> if cur \<le> u \<and> u < e then Some u else None)" for y
      proof (cases "y \<in> iv fb_backing_offset fb_map_size b")
        case True
        have "user_of ps y = None" using I(5) [of y] un [OF True] by simp
        then show ?thesis using 4 True by (auto simp: uo user_of_def)
      next
        case False
        then have "y \<notin> iv fb_backing_offset fb_map_size ?p" using bsub by blast
        then have "user_of (?p # ps) y = user_of ps y" by (simp add: user_of_def del: mem_iv)
        then show ?thesis using I(5) [of y] False laterb [of y] 4 by (auto simp: uo simp del: mem_iv split: option.splits)
      qed
      ultimately show ?thesis unfolding e0 Some option.map option.case sub using I(1) by blast
    qed
  qed
qed

section \<open>Restoring\<close>

lemma block_take:
  assumes "fl_ok m" and "fblock_ok b" and "iv fb_backing_offset fb_map_size b \<subseteq> fl_bytes m"
  shows "backing_is_free m b" and "before_ub (fb_backing_offset b) m \<noteq> []"
    and "fl_ok (ConsumeFreeRange (last (before_ub (fb_backing_offset b) m)) (fb_backing_offset b) (fb_map_size b) m)"
    and "fl_bytes (ConsumeFreeRange (last (before_ub (fb_backing_offset b) m)) (fb_backing_offset b) (fb_map_size b) m) =
      fl_bytes m - iv fb_backing_offset fb_map_size b"
proof -
  have n: "0 < fb_map_size b" using assms(2) by (simp add: fblock_ok_def)
  note t = fl_take [OF assms(1) n assms(3) [unfolded iv_def]]
  show "before_ub (fb_backing_offset b) m \<noteq> []" by (rule t(1))
  have "\<not> (fb_backing_offset b < fst (last (before_ub (fb_backing_offset b) m)) \<or>
      fb_map_size b > fst (last (before_ub (fb_backing_offset b) m)) + snd (last (before_ub (fb_backing_offset b) m)) - fb_backing_offset b)"
    using t(2,3) by linarith
  then show "backing_is_free m b" using t(1) by (simp add: backing_is_free_def Let_def)
  show "fl_ok (ConsumeFreeRange (last (before_ub (fb_backing_offset b) m)) (fb_backing_offset b) (fb_map_size b) m)" by (rule t(4))
  show "fl_bytes (ConsumeFreeRange (last (before_ub (fb_backing_offset b) m)) (fb_backing_offset b) (fb_map_size b) m) =
      fl_bytes m - iv fb_backing_offset fb_map_size b" using t(5) by (simp add: iv_def)
qed

lemma restore_blocks_spec:
  assumes "fl_ok (fm_free s)" and "table_ok fb_backing_offset fb_map_size bs" and "\<forall>b\<in>set bs. fblock_ok b" and "bbytes_of bs \<subseteq> fl_bytes (fm_free s)"
  shows "\<exists>free. restore_blocks bs s = Some (s\<lparr>fm_free := free, fm_allocated := fm_allocated s @ bs,
      fm_allocated_total := fm_allocated_total s + sum_list (map fb_map_size bs)\<rparr>) \<and> fl_ok free \<and> fl_bytes free = fl_bytes (fm_free s) - bbytes_of bs"
  using assms
proof (induction bs arbitrary: s)
  case Nil
  then show ?case by (intro exI [of _ "fm_free s"]) simp
next
  case (Cons b bs)
  have b: "fblock_ok b" "iv fb_backing_offset fb_map_size b \<subseteq> fl_bytes (fm_free s)" using Cons.prems(3,4) by (simp_all add: table_bytes_def)
  note t = block_take [OF Cons.prems(1) b]
  let ?s = "s\<lparr>fm_free := ConsumeFreeRange (last (before_ub (fb_backing_offset b) (fm_free s))) (fb_backing_offset b) (fb_map_size b) (fm_free s),
           fm_allocated := fm_allocated s @ [b], fm_allocated_total := fm_allocated_total s + fb_map_size b\<rparr>"
  have "fl_ok (fm_free ?s)" "bbytes_of bs \<subseteq> fl_bytes (fm_free ?s)" using t(3,4) Cons.prems(2,4) by (simp, auto simp del: mem_iv)
  then obtain free where f: "restore_blocks bs ?s = Some (?s\<lparr>fm_free := free, fm_allocated := fm_allocated ?s @ bs,
      fm_allocated_total := fm_allocated_total ?s + sum_list (map fb_map_size bs)\<rparr>)" "fl_ok free" "fl_bytes free = fl_bytes (fm_free ?s) - bbytes_of bs"
    using Cons.IH [of ?s] Cons.prems(2,3) by auto
  have "restore_blocks (b # bs) s = restore_blocks bs ?s" using t(2) by (simp add: Let_def)
  moreover have "fl_bytes free = fl_bytes (fm_free s) - bbytes_of (b # bs)" unfolding f(3) table_bytes_simps using t(4) by (simp add: Diff_eq Int_ac)
  ultimately show ?case using f by (intro exI [of _ free]) (simp add: add.assoc)
qed

lemma FlexibleMemory_Restore_spec:
  assumes ok: "fx_ok base flexible_size s" and c: "host_contract os backed" and agree: "host_agrees backed s h"
    and wf: "blocks_wf ps" "ps \<noteq> []" and free: "bbytes_of ps \<subseteq> fl_bytes (fm_free s)"
    and fresh: "vbytes_of ps \<inter> vbytes_of (fm_allocated s) = {}" "\<forall>x\<in>vbytes_of ps. backed h x = None"
    and part: "vbytes_of ps \<subseteq> {vaddr..<vaddr + bytes}"
  shows "FlexibleMemory_Restore os ps s h = None \<and> unmap_refused os backed vaddr bytes \<and> \<not> maps_all os \<or>
   (\<exists>r s' h'. FlexibleMemory_Restore os ps s h = Some (r, s', h') \<and> fx_ok base flexible_size s' \<and> host_agrees backed s' h' \<and>
    (\<not> r \<longrightarrow> s' = s \<and> backed h' = backed h) \<and>
    (r \<longrightarrow> (\<forall>x. flex_at (fm_allocated s') x = (case flex_at ps x of None \<Rightarrow> flex_at (fm_allocated s) x | Some i \<Rightarrow> Some i)) \<and>
      backed h' = overlay ps (backed h) \<and> fl_bytes (fm_free s') = fl_bytes (fm_free s) - bbytes_of ps) \<and>
    (maps_all os \<longrightarrow> r))"
  (is "_ \<or> ?ran")
proof -
  have okp: "fl_ok (fm_free s)" "blocks_wf (fm_allocated s)" "seq_ok fb_map_vaddr fb_map_size (fm_allocated s)"
     "fl_bytes (fm_free s) \<inter> bbytes_of (fm_allocated s) = {}"
     "fl_bytes (fm_free s) \<union> bbytes_of (fm_allocated s) = {base..<base + flexible_size}"
     "fm_allocated_total s = sum_list (map fb_map_size (fm_allocated s))" using ok by (auto simp: fx_ok_def)
  have tb: "table_ok fb_map_vaddr fb_map_size ps" "table_ok fb_backing_offset fb_map_size ps" "\<forall>b\<in>set ps. fblock_ok b"
    using wf(1) by (simp_all add: blocks_wf_def)
  have all: "list_all (backing_is_free (fm_free s)) ps"
  proof (unfold list_all_iff, rule ballI)
    fix b assume b: "b \<in> set ps"
    have "iv fb_backing_offset fb_map_size b \<subseteq> fl_bytes (fm_free s)" using b free by (auto simp: table_bytes_def simp del: mem_iv)
    then show "backing_is_free (fm_free s) b" using block_take(1) [OF okp(1)] tb(3) b by blast
  qed
  have tr: "table_ok fb_map_vaddr fb_map_size (rev ps @ [])" using table_ok_perm [of ps "rev ps"] tb(1) by simp
  have nr: "\<forall>x\<in>vbytes_of (rev ps @ []). backed h x = None" using fresh(2) by (simp add: table_bytes_def)
  have ov: "backed h = overlay [] (backed h)" by simp
  have pt: "\<forall>b\<in>set (rev ps @ []). in_part vaddr bytes b" using blocks_in_part [OF wf(1) part] by simp
  note mbs = map_blocks_spec [OF c tr nr ov pt, of False]
  show ?thesis
  proof (cases "map_blocks os False [] ps h")
    case None
    then have "FlexibleMemory_Restore os ps s h = None" using wf(2) all by (simp add: FlexibleMemory_Restore_def)
    then show ?thesis using mbs None by simp
  next
  case (Some x)
  then obtain r h' where mb: "map_blocks os False [] ps h = Some (r, h')" "backed h' = (if r then overlay (rev ps @ []) (backed h) else backed h)"
    "maps_all os \<longrightarrow> r"
    using mbs by auto
  have bh: "backed h' = (if r then overlay ps (backed h) else backed h)" using mb(2) overlay_perm [OF tb(1)] by simp
  have eq: "FlexibleMemory_Restore os ps s h =
    (if \<not> r then Some (False, s, h') else do {
          s' \<leftarrow> restore_blocks ps s;
          Some (True, s'\<lparr>fm_allocated := sort_key fb_map_vaddr (fm_allocated s')\<rparr>, h') })"
    using wf(2) all mb(1) by (simp add: FlexibleMemory_Restore_def)
  show ?thesis
  proof (cases r)
    case r: False
    have "host_agrees backed s h'" using agree bh r by (simp add: host_agrees_def)
    then have ?ran using eq r ok mb(3) bh by (intro exI [of _ False] exI [of _ s] exI [of _ h']) simp
    then show ?thesis ..
  next
    case r: True
    obtain fr where fr: "restore_blocks ps s = Some (s\<lparr>fm_free := fr, fm_allocated := fm_allocated s @ ps,
      fm_allocated_total := fm_allocated_total s + sum_list (map fb_map_size ps)\<rparr>)" "fl_ok fr" "fl_bytes fr = fl_bytes (fm_free s) - bbytes_of ps"
      using restore_blocks_spec [OF okp(1) tb(2,3) free] by blast
    let ?s = "s\<lparr>fm_free := fr, fm_allocated := sort_key fb_map_vaddr (fm_allocated s @ ps),
      fm_allocated_total := fm_allocated_total s + sum_list (map fb_map_size ps)\<rparr>"
    have db: "bbytes_of (fm_allocated s) \<inter> bbytes_of ps = {}" using free okp(4) by blast
    have wfa: "blocks_wf (fm_allocated s @ ps)" using okp(2) wf(1) fresh(1) db by auto
    have tall: "table_ok fb_map_vaddr fb_map_size (fm_allocated s @ ps)" using wfa by (simp only: blocks_wf_def)
    have at: "flex_at (fm_allocated ?s) x = (case flex_at ps x of None \<Rightarrow> flex_at (fm_allocated s) x | Some i \<Rightarrow> Some i)" for x
    proof -
      have "flex_at (fm_allocated ?s) x = (case flex_at (fm_allocated s) x of None \<Rightarrow> flex_at ps x | Some i \<Rightarrow> Some i)"
        by (simp add: flex_at_sort [OF tall] flex_at_append)
      moreover have "flex_at ps x = None \<or> flex_at (fm_allocated s) x = None"
        using fresh(1) flex_at_None_iff [of ps x] flex_at_None_iff [of "fm_allocated s" x] by (metis IntI emptyE)
      ultimately show ?thesis by (cases "flex_at ps x"; cases "flex_at (fm_allocated s) x") simp_all
    qed
    have fx: "fx_ok base flexible_size ?s"
      using blocks_wf_sort [OF wfa] fr okp free db unfolding fx_ok_def by auto
    have ag: "host_agrees backed ?s h'"
      unfolding host_agrees_def
    proof (intro allI impI)
      fix x i assume "flex_at (fm_allocated ?s) x = Some i"
      then have i: "(case flex_at ps x of None \<Rightarrow> flex_at (fm_allocated s) x | Some i \<Rightarrow> Some i) = Some i" unfolding at .
      show "backed h' x = Some (fi_backing i)"
        using i agree bh r by (cases "flex_at ps x") (simp_all add: overlay_def host_agrees_def)
    qed
    have "FlexibleMemory_Restore os ps s h = Some (True, ?s, h')" using eq r fr(1) by simp
    moreover have "\<forall>x. flex_at (fm_allocated ?s) x = (case flex_at ps x of None \<Rightarrow> flex_at (fm_allocated s) x | Some i \<Rightarrow> Some i)" using at by blast
    moreover have "fl_bytes (fm_free ?s) = fl_bytes (fm_free s) - bbytes_of ps" using fr(3) by simp
    ultimately have ?ran using fx ag bh r by (intro exI [of _ True] exI [of _ ?s] exI [of _ h']) (simp only: simp_thms if_True)
    then show ?thesis ..
  qed
  qed
qed

lemma snapshot_restore:
  assumes ok: "fx_ok base flexible_size s" and c: "host_contract os backed" and agree: "host_agrees backed s h"
    and snap: "FlexibleMemory_Snapshot vaddr bytes s = Some ps"
    and unmap: "fst (UnmapBacking os vaddr bytes h)"
  shows "\<exists>g s1 h1. FlexibleMemory_Unmap os vaddr bytes s h = Some (Some g, s1, h1) \<and>
    (FlexibleMemory_Restore os ps s1 h1 = None \<and> unmap_refused os backed vaddr bytes \<and> \<not> maps_all os \<or>
     (\<exists>r s2 h2. FlexibleMemory_Restore os ps s1 h1 = Some (r, s2, h2) \<and>
      (r \<longrightarrow> (\<forall>x. flex_at (fm_allocated s2) x = flex_at (fm_allocated s) x) \<and> fm_free s2 = fm_free s \<and>
        fm_allocated_total s2 = fm_allocated_total s \<and> backed h2 = backed h) \<and>
      (\<not> r \<longrightarrow> s2 = s1 \<and> backed h2 = backed h1) \<and> (maps_all os \<longrightarrow> r)))"
proof -
  have n: "0 < bytes" "vaddr + bytes \<le> UINT64_MAX" using snap by (auto simp: FlexibleMemory_Snapshot_def split: if_splits)
  have sn: "snapshot_span (vaddr + bytes) vaddr (fm_allocated s) = Some ps" using snap by (auto simp: FlexibleMemory_Snapshot_def split: if_splits)
  have okp: "blocks_wf (fm_allocated s)" "seq_ok fb_map_vaddr fb_map_size (fm_allocated s)" "fl_ok (fm_free s)"
    "fl_bytes (fm_free s) \<inter> bbytes_of (fm_allocated s) = {}" using ok by (auto simp: fx_ok_def)
  have lt: "vaddr < vaddr + bytes" using n by simp
  have ps: "{vaddr..<vaddr + bytes} \<subseteq> vbytes_of (fm_allocated s)" "ps \<noteq> []" "blocks_wf ps" "vbytes_of ps = {vaddr..<vaddr + bytes}"
    "\<And>x. flex_at ps x = (if vaddr \<le> x \<and> x < vaddr + bytes then flex_at (fm_allocated s) x else None)"
    "\<And>y. user_of ps y = (case user_of (fm_allocated s) y of None \<Rightarrow> None | Some u \<Rightarrow> if vaddr \<le> u \<and> u < vaddr + bytes then Some u else None)"
    using snapshot_span_spec [OF okp(2,1) lt n(2)] unfolding sn option.case by blast+
  have pb: "bbytes_of ps = {y. \<exists>u. user_of (fm_allocated s) y = Some u \<and> in_span vaddr bytes u}"
  proof (rule set_eqI)
    fix y show "y \<in> bbytes_of ps \<longleftrightarrow> y \<in> {y. \<exists>u. user_of (fm_allocated s) y = Some u \<and> in_span vaddr bytes u}"
      unfolding bbytes_user mem_Collect_eq ps(6) by (cases "user_of (fm_allocated s) y") (simp_all add: in_span_def)
  qed
  obtain r1 s1 h1 where u: "FlexibleMemory_Unmap os vaddr bytes s h = Some (r1, s1, h1)" "fx_ok base flexible_size s1" "host_agrees backed s1 h1"
    "r1 \<noteq> None" "FlexibleMemory_Available flexible_size s1 = FlexibleMemory_Available flexible_size s + bytes"
    "fl_bytes (fm_free s1) = fl_bytes (fm_free s) \<union> bbytes_of ps" "backed h1 = span_none vaddr bytes (backed h)"
    "\<And>x. flex_at (fm_allocated s1) x = (if in_span vaddr bytes x then None else flex_at (fm_allocated s) x)"
    using FlexibleMemory_Unmap_spec [OF ok c agree n] ps(1) unmap unfolding pb by blast
  obtain g where g: "r1 = Some g" using u(4) by blast
  have "bbytes_of ps \<subseteq> fl_bytes (fm_free s1)" using u(6) by blast
  moreover have "vbytes_of ps \<inter> vbytes_of (fm_allocated s1) = {}"
    unfolding ps(4) using u(8) by (auto simp: vbytes_flex in_span_def split: if_splits)
  moreover have "\<forall>x\<in>vbytes_of ps. backed h1 x = None" unfolding ps(4) u(7) by (simp add: span_none_def)
  moreover have "vbytes_of ps \<subseteq> {vaddr..<vaddr + bytes}" unfolding ps(4) by simp
  ultimately have restore: "FlexibleMemory_Restore os ps s1 h1 = None \<and> unmap_refused os backed vaddr bytes \<and> \<not> maps_all os \<or>
    (\<exists>r s2 h2. FlexibleMemory_Restore os ps s1 h1 = Some (r, s2, h2) \<and> fx_ok base flexible_size s2 \<and> host_agrees backed s2 h2 \<and>
     (\<not> r \<longrightarrow> s2 = s1 \<and> backed h2 = backed h1) \<and>
     (r \<longrightarrow> (\<forall>x. flex_at (fm_allocated s2) x = (case flex_at ps x of None \<Rightarrow> flex_at (fm_allocated s1) x | Some i \<Rightarrow> Some i)) \<and>
      backed h2 = overlay ps (backed h1) \<and> fl_bytes (fm_free s2) = fl_bytes (fm_free s1) - bbytes_of ps) \<and> (maps_all os \<longrightarrow> r))"
    using FlexibleMemory_Restore_spec [OF u(2) c u(3) ps(3,2)] by simp
  show ?thesis
  proof (cases "FlexibleMemory_Restore os ps s1 h1")
    case None
    then show ?thesis using restore u(1) g by simp
  next
  case (Some x)
  then obtain r s2 h2 where r: "FlexibleMemory_Restore os ps s1 h1 = Some (r, s2, h2)" "fx_ok base flexible_size s2"
    "r \<longrightarrow> (\<forall>x. flex_at (fm_allocated s2) x = (case flex_at ps x of None \<Rightarrow> flex_at (fm_allocated s1) x | Some i \<Rightarrow> Some i)) \<and>
      backed h2 = overlay ps (backed h1) \<and> fl_bytes (fm_free s2) = fl_bytes (fm_free s1) - bbytes_of ps"
    "maps_all os \<longrightarrow> r" "\<not> r \<longrightarrow> s2 = s1 \<and> backed h2 = backed h1"
    using restore by auto
  have "(\<forall>x. flex_at (fm_allocated s2) x = flex_at (fm_allocated s) x) \<and> fm_free s2 = fm_free s \<and>
      fm_allocated_total s2 = fm_allocated_total s \<and> backed h2 = backed h" if R: r
  proof -
    have f: "flex_at (fm_allocated s2) x = flex_at (fm_allocated s) x" for x
    proof (cases "vaddr \<le> x \<and> x < vaddr + bytes")
      case True
      then have "x \<in> vbytes_of (fm_allocated s)" using ps(1) by auto
      then obtain i where "flex_at (fm_allocated s) x = Some i" using vbytes_flex by blast
      then show ?thesis using r(3) R ps(5) [of x] True by simp
    next
      case False
      then have "flex_at ps x = None" "flex_at (fm_allocated s1) x = flex_at (fm_allocated s) x"
        unfolding ps(5) u(8) in_span_def by (simp_all only: if_False)
      then show ?thesis using r(3) R by simp
    qed
    have "fl_bytes (fm_free s2) = fl_bytes (fm_free s)"
    proof -
      have "bbytes_of ps \<subseteq> bbytes_of (fm_allocated s)" unfolding pb by (auto simp: bbytes_user)
      then show ?thesis using r(3) R u(6) okp(4) by blast
    qed
    then have fr: "fm_free s2 = fm_free s" using fl_canonical r(2) ok by (simp add: fx_ok_def)
    have "fm_allocated_total s2 = fm_allocated_total s" using fx_total(1) [OF ok] fx_total(1) [OF r(2)] fr by simp
    moreover have "backed h2 = backed h"
    proof
      fix x
      show "backed h2 x = backed h x"
      proof (cases "vaddr \<le> x \<and> x < vaddr + bytes")
        case True
        then have "x \<in> vbytes_of (fm_allocated s)" using ps(1) by auto
        then obtain i where i: "flex_at (fm_allocated s) x = Some i" using vbytes_flex by blast
        then have "backed h x = Some (fi_backing i)" using agree by (simp add: host_agrees_def)
        then show ?thesis using r(3) R ps(5) [of x] True i by (simp add: overlay_def)
      next
        case False
        then have "flex_at ps x = None" "span_none vaddr bytes (backed h) x = backed h x"
          unfolding ps(5) span_none_def by (simp_all only: if_False)
        then show ?thesis using r(3) R u(7) by (simp add: overlay_def)
      qed
    qed
    ultimately show ?thesis using f fr by blast
  qed
  then show ?thesis using u(1) g r(1,4,5) by blast
  qed
qed

section \<open>Protecting\<close>

definition flex_access :: "int \<Rightarrow> mode \<Rightarrow> GpuAccessMode \<Rightarrow> flex_info \<Rightarrow> flex_info" where
  "flex_access prot md gpu_mode i = i\<lparr>fi_prot := prot, fi_mode := md, fi_gpu_mode := gpu_mode\<rparr>"

definition mid_part :: "u64 \<Rightarrow> u64 \<Rightarrow> int \<Rightarrow> mode \<Rightarrow> GpuAccessMode \<Rightarrow> FlexibleBlock \<Rightarrow> FlexibleBlock" where
  "mid_part lo hi prot md gpu_mode b = b\<lparr>fb_map_vaddr := lo, fb_map_size := hi - lo, fb_backing_offset := fb_backing_offset b + (lo - fb_map_vaddr b),
     fb_prot := prot, fb_mode := md, fb_gpu_mode := gpu_mode\<rparr>"

lemma block_info_mid:
  "fb_map_vaddr b \<le> lo \<Longrightarrow> lo \<le> x \<Longrightarrow> block_info (mid_part lo hi prot md gpu_mode b) x = flex_access prot md gpu_mode (block_info b x)"
  by (simp add: block_info_def mid_part_def flex_access_def)

lemma parts3_ok:
  fixes prot :: int and md :: mode and gpu_mode :: GpuAccessMode
  assumes b: "fblock_ok b" and lo: "fb_map_vaddr b \<le> lo" "lo < hi" "hi \<le> fb_map_vaddr b + fb_map_size b"
  defines "ps \<equiv> head_part lo b @ [mid_part lo hi prot md gpu_mode b] @ tail_part hi b"
  shows "p \<in> set ps \<Longrightarrow> fblock_ok p \<and> fb_map_vaddr b \<le> fb_map_vaddr p \<and> fb_map_vaddr p + fb_map_size p \<le> fb_map_vaddr b + fb_map_size b"
    and "seq_ok fb_map_vaddr fb_map_size ps"
    and "table_ok fb_backing_offset fb_map_size ps"
    and "view fb_map_vaddr fb_map_size block_info ps x =
      (if fb_map_vaddr b \<le> x \<and> x < fb_map_vaddr b + fb_map_size b
       then Some (if lo \<le> x \<and> x < hi then flex_access prot md gpu_mode (block_info b x) else block_info b x) else None)"
    and "view fb_backing_offset fb_map_size (\<lambda>b y. fb_map_vaddr b + (y - fb_backing_offset b)) ps y =
      (if fb_backing_offset b \<le> y \<and> y < fb_backing_offset b + fb_map_size b then Some (fb_map_vaddr b + (y - fb_backing_offset b)) else None)"
    and "sum_list (map fb_map_size ps) = fb_map_size b"
proof -
  have f: "0 < fb_map_size b" "fb_map_vaddr b + fb_map_size b \<le> UINT64_MAX" using b by (simp_all add: fblock_ok_def)
  show "p \<in> set ps \<Longrightarrow> fblock_ok p \<and> fb_map_vaddr b \<le> fb_map_vaddr p \<and> fb_map_vaddr p + fb_map_size p \<le> fb_map_vaddr b + fb_map_size b"
    using f lo by (auto simp: ps_def head_part_def tail_part_def mid_part_def fblock_ok_def split: if_splits)
  show "seq_ok fb_map_vaddr fb_map_size ps"
    using lo by (simp add: ps_def head_part_def tail_part_def mid_part_def)
  show "table_ok fb_backing_offset fb_map_size ps"
    by (rule seq_ok_table_ok) (use lo in \<open>auto simp: ps_def head_part_def tail_part_def mid_part_def\<close>)
  show "sum_list (map fb_map_size ps) = fb_map_size b" using lo by (simp add: ps_def head_part_def tail_part_def mid_part_def)
  show "view fb_map_vaddr fb_map_size block_info ps x =
      (if fb_map_vaddr b \<le> x \<and> x < fb_map_vaddr b + fb_map_size b
       then Some (if lo \<le> x \<and> x < hi then flex_access prot md gpu_mode (block_info b x) else block_info b x) else None)"
    using lo unfolding ps_def
    by (cases "fb_map_vaddr b < lo"; cases "hi < fb_map_vaddr b + fb_map_size b")
      (auto simp: head_part_def tail_part_def mid_part_def block_info_def flex_access_def)
  show "view fb_backing_offset fb_map_size (\<lambda>b y. fb_map_vaddr b + (y - fb_backing_offset b)) ps y =
      (if fb_backing_offset b \<le> y \<and> y < fb_backing_offset b + fb_map_size b then Some (fb_map_vaddr b + (y - fb_backing_offset b)) else None)"
    using lo unfolding ps_def
    by (cases "fb_map_vaddr b < lo"; cases "hi < fb_map_vaddr b + fb_map_size b") (auto simp: head_part_def tail_part_def mid_part_def)
qed

lemma flexible_protect_parts:
  assumes b: "fblock_ok b"
  shows "flexible_protect_pieces vaddr bytes prot md gpu_mode b = (if touches vaddr bytes b
    then head_part (max vaddr (fb_map_vaddr b)) b @
      [mid_part (max vaddr (fb_map_vaddr b)) (min (vaddr + bytes) (fb_map_vaddr b + fb_map_size b)) prot md gpu_mode b] @
      tail_part (min (vaddr + bytes) (fb_map_vaddr b + fb_map_size b)) b else [b])"
  unfolding flexible_protect_form [OF b] mid_part_def Let_def by (rule refl)

lemma flexible_protect_one:
  fixes prot :: int and md :: mode and gpu_mode :: GpuAccessMode and vaddr bytes :: u64
  assumes b: "fblock_ok b"
  defines "ps \<equiv> flexible_protect_pieces vaddr bytes prot md gpu_mode b"
  shows "p \<in> set ps \<Longrightarrow> fblock_ok p \<and> fb_map_vaddr b \<le> fb_map_vaddr p \<and> fb_map_vaddr p + fb_map_size p \<le> fb_map_vaddr b + fb_map_size b"
    and "seq_ok fb_map_vaddr fb_map_size ps"
    and "table_ok fb_backing_offset fb_map_size ps"
    and "view fb_map_vaddr fb_map_size block_info ps x = (if x \<in> iv fb_map_vaddr fb_map_size b
       then Some (if in_span vaddr bytes x then flex_access prot md gpu_mode (block_info b x) else block_info b x) else None)"
    and "view fb_backing_offset fb_map_size (\<lambda>b y. fb_map_vaddr b + (y - fb_backing_offset b)) ps y =
      (if y \<in> iv fb_backing_offset fb_map_size b then Some (fb_map_vaddr b + (y - fb_backing_offset b)) else None)"
    and "sum_list (map fb_map_size ps) = fb_map_size b"
proof -
  have "(p \<in> set ps \<longrightarrow> fblock_ok p \<and> fb_map_vaddr b \<le> fb_map_vaddr p \<and> fb_map_vaddr p + fb_map_size p \<le> fb_map_vaddr b + fb_map_size b) \<and>
    seq_ok fb_map_vaddr fb_map_size ps \<and> table_ok fb_backing_offset fb_map_size ps \<and>
    view fb_map_vaddr fb_map_size block_info ps x = (if x \<in> iv fb_map_vaddr fb_map_size b
       then Some (if in_span vaddr bytes x then flex_access prot md gpu_mode (block_info b x) else block_info b x) else None) \<and>
    view fb_backing_offset fb_map_size (\<lambda>b y. fb_map_vaddr b + (y - fb_backing_offset b)) ps y =
      (if y \<in> iv fb_backing_offset fb_map_size b then Some (fb_map_vaddr b + (y - fb_backing_offset b)) else None) \<and>
    sum_list (map fb_map_size ps) = fb_map_size b" for p
  proof (cases "touches vaddr bytes b")
    case True
    note t = touches_bounds [OF True b]
    note q = parts3_ok [OF b t(1-3), where prot = prot and md = md and gpu_mode = gpu_mode]
    have v: "x \<in> iv fb_map_vaddr fb_map_size b \<Longrightarrow> in_span vaddr bytes x \<longleftrightarrow>
        max vaddr (fb_map_vaddr b) \<le> x \<and> x < min (vaddr + bytes) (fb_map_vaddr b + fb_map_size b)"
      using t(4) [of x] by (simp add: in_span_def)
    show ?thesis unfolding ps_def flexible_protect_parts [OF b] if_P [OF True] q(4,5,6)
      using q(1) [of p] q(2,3) v by simp
  next
    case False
    then have ps: "ps = [b]" by (simp add: ps_def flexible_protect_parts [OF b])
    show ?thesis unfolding ps using b not_touches [OF b False, of x] by simp
  qed
  then show "p \<in> set ps \<Longrightarrow> fblock_ok p \<and> fb_map_vaddr b \<le> fb_map_vaddr p \<and> fb_map_vaddr p + fb_map_size p \<le> fb_map_vaddr b + fb_map_size b"
    "seq_ok fb_map_vaddr fb_map_size ps" "table_ok fb_backing_offset fb_map_size ps"
    "view fb_map_vaddr fb_map_size block_info ps x = (if x \<in> iv fb_map_vaddr fb_map_size b
       then Some (if in_span vaddr bytes x then flex_access prot md gpu_mode (block_info b x) else block_info b x) else None)"
    "view fb_backing_offset fb_map_size (\<lambda>b y. fb_map_vaddr b + (y - fb_backing_offset b)) ps y =
      (if y \<in> iv fb_backing_offset fb_map_size b then Some (fb_map_vaddr b + (y - fb_backing_offset b)) else None)"
    "sum_list (map fb_map_size ps) = fb_map_size b" by blast+
qed

interpretation flex_protect_v: piece_edit fb_map_vaddr fb_map_size block_info fblock_ok
  "flexible_protect_pieces vaddr bytes prot md gpu_mode"
  "\<lambda>x i. Some (if in_span vaddr bytes x then flex_access prot md gpu_mode i else i)" for vaddr bytes prot md gpu_mode
  by unfold_locales (use flexible_protect_one(2) seq_ok_table_ok in blast, use flexible_protect_one(1) in blast, simp only: flexible_protect_one(4))

interpretation flex_protect_b: piece_edit fb_backing_offset fb_map_size "\<lambda>b y. fb_map_vaddr b + (y - fb_backing_offset b)" fblock_ok
  "flexible_protect_pieces vaddr bytes prot md gpu_mode" "\<lambda>y. Some" for vaddr bytes prot md gpu_mode
  by unfold_locales (use flexible_protect_one(3) in blast, use flexible_protect_one(1) in blast, simp only: flexible_protect_one(5))

lemma cut_sum:
  "\<forall>b\<in>set bs. fblock_ok b \<Longrightarrow> (\<And>b. fblock_ok b \<Longrightarrow> sum_list (map fb_map_size (f b)) = fb_map_size b) \<Longrightarrow>
   sum_list (map fb_map_size (concat (map f bs))) = sum_list (map fb_map_size bs)"
  by (induction bs) simp_all

lemma FlexibleMemory_Protect_spec:
  fixes prot :: int and md :: mode and gpu_mode :: GpuAccessMode
  assumes ok: "fx_ok base flexible_size s" and agree: "host_agrees backed s h" and fits: "vaddr + bytes \<le> UINT64_MAX"
  defines "s' \<equiv> FlexibleMemory_Protect vaddr bytes prot md gpu_mode s"
  shows "fx_ok base flexible_size s'" and "host_agrees backed s' h" and "fm_free s' = fm_free s"
    and "flex_at (fm_allocated s') x =
      map_option (\<lambda>i. if in_span vaddr bytes x then flex_access prot md gpu_mode i else i) (flex_at (fm_allocated s) x)"
proof -
  let ?bs = "fm_allocated s" and ?cs = "concat (map (flexible_protect_pieces vaddr bytes prot md gpu_mode) (fm_allocated s))"
  have okp: "fl_ok (fm_free s)" "blocks_wf ?bs" "seq_ok fb_map_vaddr fb_map_size ?bs" using ok by (auto simp: fx_ok_def)
  have t: "table_ok fb_map_vaddr fb_map_size ?bs" "table_ok fb_backing_offset fb_map_size ?bs" "\<forall>b\<in>set ?bs. fblock_ok b"
    using okp(2) by (simp_all add: blocks_wf_def)
  have at: "flex_at ?cs x = map_option (\<lambda>i. if in_span vaddr bytes x then flex_access prot md gpu_mode i else i) (flex_at ?bs x)" for x
    unfolding flex_at_def flex_protect_v.edit_all(3) [OF t(1,3)] by (cases "view fb_map_vaddr fb_map_size block_info ?bs x") simp_all
  have us: "user_of ?cs y = user_of ?bs y" for y
    unfolding user_of_def flex_protect_b.edit_all(3) [OF t(2,3)] by (cases "user_of ?bs y") (simp_all add: user_of_def)
  have by_eq: "bbytes_of ?cs = bbytes_of ?bs" by (rule set_eqI) (simp add: bbytes_user us)
  have wf: "blocks_wf ?cs"
    using flex_protect_v.edit_all(1,2) [OF t(1,3)] flex_protect_b.edit_all(1) [OF t(2,3)] by (simp add: blocks_wf_def)
  have sq: "seq_ok fb_map_vaddr fb_map_size ?cs"
    by (rule seq_ok_cut [OF okp(3)]) (use t(3) flexible_protect_one(1,2) in blast)
  have sum: "sum_list (map fb_map_size ?cs) = sum_list (map fb_map_size ?bs)"
    by (rule cut_sum [OF t(3)]) (rule flexible_protect_one(6))
  have fx: "fx_ok base flexible_size (s\<lparr>fm_allocated := ?cs\<rparr>)" using ok wf sq by (simp add: fx_ok_def by_eq sum)
  have ag: "host_agrees backed (s\<lparr>fm_allocated := ?cs\<rparr>) h"
    using agree by (auto simp: host_agrees_def at flex_access_def split: if_splits)
  show "fx_ok base flexible_size s'" "host_agrees backed s' h" "fm_free s' = fm_free s"
    "flex_at (fm_allocated s') x = map_option (\<lambda>i. if in_span vaddr bytes x then flex_access prot md gpu_mode i else i) (flex_at ?bs x)"
  proof -
    consider "bytes = 0" | "s' = s\<lparr>fm_allocated := ?cs\<rparr>" using fits
    proof (cases "bytes = 0")
      case False
      then have "\<not> (bytes = 0 \<or> UINT64_MAX - vaddr < bytes)" using fits by linarith
      then have "s' = s\<lparr>fm_allocated := ?cs\<rparr>" unfolding s'_def FlexibleMemory_Protect_def by (simp only: if_False)
      then show ?thesis by (rule that(2))
    qed (rule that(1))
    then have "fx_ok base flexible_size s' \<and> host_agrees backed s' h \<and> fm_free s' = fm_free s \<and>
      flex_at (fm_allocated s') x = map_option (\<lambda>i. if in_span vaddr bytes x then flex_access prot md gpu_mode i else i) (flex_at ?bs x)"
    proof cases
      case 1
      then have "s' = s" by (simp add: s'_def FlexibleMemory_Protect_def)
      moreover have "\<not> in_span vaddr bytes x" using 1 by (simp add: in_span_def)
      ultimately show ?thesis using ok agree 1 by (simp add: option.map_ident)
    next
      case 2
      then show ?thesis using fx ag at by simp
    qed
    then show "fx_ok base flexible_size s'" "host_agrees backed s' h" "fm_free s' = fm_free s"
      "flex_at (fm_allocated s') x = map_option (\<lambda>i. if in_span vaddr bytes x then flex_access prot md gpu_mode i else i) (flex_at ?bs x)" by blast+
  qed
qed

section \<open>Names and queries\<close>

lemma FlexibleMemory_Find_spec:
  assumes "fx_ok base flexible_size s"
  shows "case FlexibleMemory_Find x s of
      None \<Rightarrow> flex_at (fm_allocated s) x = None
    | Some (v, n, prot, md, gpu_mode) \<Rightarrow> v \<le> x \<and> x < v + n \<and> (\<exists>i. flex_at (fm_allocated s) x = Some i \<and> fi_prot i = prot \<and> fi_mode i = md \<and> fi_gpu_mode i = gpu_mode)"
proof -
  have "case map_option (\<lambda>b. (fb_map_vaddr b, fb_map_size b, fb_prot b, fb_mode b, fb_gpu_mode b))
       (find (\<lambda>b. x \<ge> fb_map_vaddr b \<and> x < fb_map_vaddr b + fb_map_size b) bs) of
      None \<Rightarrow> flex_at bs x = None
    | Some (v, n, prot, md, gpu_mode) \<Rightarrow> v \<le> x \<and> x < v + n \<and> (\<exists>i. flex_at bs x = Some i \<and> fi_prot i = prot \<and> fi_mode i = md \<and> fi_gpu_mode i = gpu_mode)" for bs
    by (induction bs) (auto simp: block_info_def split: option.splits)
  then show ?thesis by (simp add: FlexibleMemory_Find_def)
qed

lemma FlexibleMemory_SetVirtualRangeName_spec:
  assumes ok: "fx_ok base flexible_size s" and agree: "host_agrees backed s h"
  shows "fx_ok base flexible_size (FlexibleMemory_SetVirtualRangeName vaddr len name s)"
    and "host_agrees backed (FlexibleMemory_SetVirtualRangeName vaddr len name s) h"
proof -
  define ren :: "FlexibleBlock \<Rightarrow> FlexibleBlock" where "ren = (\<lambda>b. if VirtualRangesOverlap vaddr len (fb_map_vaddr b) (fb_map_size b) then b\<lparr>fb_name := CopyVirtualRangeName name\<rparr> else b)"
  have f: "fb_map_vaddr (ren b) = fb_map_vaddr b" "fb_map_size (ren b) = fb_map_size b" "fb_backing_offset (ren b) = fb_backing_offset b" for b by (simp_all add: ren_def)
  have ivs: "iv fb_map_vaddr fb_map_size (ren b) = iv fb_map_vaddr fb_map_size b" "iv fb_backing_offset fb_map_size (ren b) = iv fb_backing_offset fb_map_size b"
    "fblock_ok (ren b) = fblock_ok b" for b by (simp_all add: iv_def fblock_ok_def f)
  have eq: "FlexibleMemory_SetVirtualRangeName vaddr len name s = s\<lparr>fm_allocated := map ren (fm_allocated s)\<rparr>"
    unfolding FlexibleMemory_SetVirtualRangeName_def ren_def by (rule refl)
  have tb: "vbytes_of (map ren bs) = vbytes_of bs" "bbytes_of (map ren bs) = bbytes_of bs" for bs
    unfolding table_bytes_def set_map image_image ivs by simp_all
  have wf: "blocks_wf (map ren bs) = blocks_wf bs" for bs
    by (induction bs) (simp_all only: list.map blocks_wf_simps ivs tb)
  have sq: "seq_ok fb_map_vaddr fb_map_size (map ren bs) = seq_ok fb_map_vaddr fb_map_size bs" for bs
    unfolding seq_ok_def sorted_wrt_map f by (rule refl)
  have sm: "sum_list (map fb_map_size (map ren bs)) = sum_list (map fb_map_size bs)" for bs by (induction bs) (simp_all add: f)
  show "fx_ok base flexible_size (FlexibleMemory_SetVirtualRangeName vaddr len name s)"
    using ok unfolding eq fx_ok_def by (simp add: wf sq sm tb del: map_map)
  have "map_option fi_backing (flex_at (map ren bs) x) = map_option fi_backing (flex_at bs x)" for bs x
    by (induction bs) (auto simp: block_info_def f)
  note same = this
  show "host_agrees backed (FlexibleMemory_SetVirtualRangeName vaddr len name s) h"
    unfolding host_agrees_def eq
  proof (intro allI impI)
    fix x i assume "flex_at (fm_allocated (s\<lparr>fm_allocated := map ren (fm_allocated s)\<rparr>)) x = Some i"
    then have "map_option fi_backing (flex_at (fm_allocated s) x) = Some (fi_backing i)" using same [of "fm_allocated s" x] by simp
    then obtain j where "flex_at (fm_allocated s) x = Some j" "fi_backing j = fi_backing i" by (auto simp: map_option_case split: option.splits)
    then show "backed h x = Some (fi_backing i)" using agree by (auto simp: host_agrees_def)
  qed
qed

section \<open>Histories\<close>

text \<open>
  The states of a \<open>FlexibleMemory\<close> under any sequence of its operations. The callers choose a free
  span for \<open>Map\<close> and restore only blocks they took a snapshot of and unmapped (\<open>KernelMunmap\<close>,
  \<open>KernelBatchMap\<close>); these are the guards of the two steps.
\<close>

inductive flex_reachable :: "'h host_ops \<Rightarrow> ('h \<Rightarrow> u64 \<Rightarrow> u64 option) \<Rightarrow> u64 \<Rightarrow> u64 \<Rightarrow> flexible_memory \<Rightarrow> 'h \<Rightarrow> bool"
  for os backed base flexible_size where
  flex_new: "flex_reachable os backed base flexible_size (new_flexible_memory base flexible_size) h"
| flex_map: "flex_reachable os backed base flexible_size s h \<Longrightarrow> vaddr + len \<le> UINT64_MAX \<Longrightarrow>
    \<forall>x. vaddr \<le> x \<and> x < vaddr + len \<longrightarrow> flex_at (fm_allocated s) x = None \<and> backed h x = None \<Longrightarrow>
    FlexibleMemory_Map os flexible_size vaddr len prot md gpu_mode name s h = Some (r, s', h') \<Longrightarrow>
    flex_reachable os backed base flexible_size s' h'"
| flex_unmap: "flex_reachable os backed base flexible_size s h \<Longrightarrow> 0 < bytes \<Longrightarrow> vaddr + bytes \<le> UINT64_MAX \<Longrightarrow>
    FlexibleMemory_Unmap os vaddr bytes s h = Some (r, s', h') \<Longrightarrow> flex_reachable os backed base flexible_size s' h'"
| flex_restore: "flex_reachable os backed base flexible_size s h \<Longrightarrow> blocks_wf ps \<Longrightarrow> ps \<noteq> [] \<Longrightarrow>
    bbytes_of ps \<subseteq> fl_bytes (fm_free s) \<Longrightarrow> vbytes_of ps \<inter> vbytes_of (fm_allocated s) = {} \<Longrightarrow> \<forall>x\<in>vbytes_of ps. backed h x = None \<Longrightarrow>
    FlexibleMemory_Restore os ps s h = Some (r, s', h') \<Longrightarrow> flex_reachable os backed base flexible_size s' h'"
| flex_protect: "flex_reachable os backed base flexible_size s h \<Longrightarrow> vaddr + bytes \<le> UINT64_MAX \<Longrightarrow>
    flex_reachable os backed base flexible_size (FlexibleMemory_Protect vaddr bytes prot md gpu_mode s) h"
| flex_name: "flex_reachable os backed base flexible_size s h \<Longrightarrow>
    flex_reachable os backed base flexible_size (FlexibleMemory_SetVirtualRangeName vaddr len name s) h"

lemma new_flexible_ok: "0 < flexible_size \<Longrightarrow> base + flexible_size \<le> UINT64_MAX \<Longrightarrow> fx_ok base flexible_size (new_flexible_memory base flexible_size)"
  by (simp add: fx_ok_def new_flexible_memory_def fl_ok_Cons)

lemma finite_nat_bounded_span: "finite (X :: nat set) \<Longrightarrow> \<exists>v n. X \<subseteq> {v..<v + n}"
proof -
  assume "finite X"
  then obtain m where "\<forall>n\<in>X. n < m" unfolding finite_nat_set_iff_bounded by blast
  then have "X \<subseteq> {0..<0 + m}" by auto
  then show ?thesis by blast
qed

lemma flex_reachable_ok:
  assumes "flex_reachable os backed base flexible_size s h" and "host_contract os backed" and "0 < flexible_size" and "base + flexible_size \<le> UINT64_MAX"
  shows "fx_ok base flexible_size s \<and> host_agrees backed s h"
  using assms(1)
proof induction
  case (flex_new h)
  then show ?case using new_flexible_ok [OF assms(3,4)] by (simp add: host_agrees_def new_flexible_memory_def)
next
  case (flex_map s h vaddr len prot md gpu_mode name r s' h')
  then show ?case using FlexibleMemory_Map_spec [OF _ assms(2) _ flex_map.hyps(2,3), of base flexible_size prot md gpu_mode name] by auto
next
  case (flex_unmap s h bytes vaddr r s' h')
  then show ?case using FlexibleMemory_Unmap_spec [OF _ assms(2) _ flex_unmap.hyps(2,3), of base flexible_size s h] by auto
next
  case (flex_restore s h ps r s' h')
  obtain vaddr bytes where part: "vbytes_of ps \<subseteq> {vaddr..<vaddr + bytes}"
    using finite_nat_bounded_span [OF table_finite] by blast
  show ?case using FlexibleMemory_Restore_spec [OF _ assms(2) _ flex_restore.hyps(2-6) part, of base flexible_size] flex_restore.IH flex_restore.hyps(7) by auto
next
  case (flex_protect s h vaddr bytes prot md gpu_mode)
  then have i: "fx_ok base flexible_size s" "host_agrees backed s h" by blast+
  show ?case by (intro conjI FlexibleMemory_Protect_spec(1) [OF i flex_protect.hyps(2)] FlexibleMemory_Protect_spec(2) [OF i flex_protect.hyps(2)])
next
  case (flex_name s h vaddr len name)
  then have i: "fx_ok base flexible_size s" "host_agrees backed s h" by blast+
  show ?case by (rule conjI [OF FlexibleMemory_SetVirtualRangeName_spec(1) [OF i] FlexibleMemory_SetVirtualRangeName_spec(2) [OF i]])
qed

section \<open>Properties\<close>

text \<open>A host whose operations all succeed: the state is the mapping itself.\<close>

definition page_table_host :: "(u64 \<Rightarrow> u64 option) host_ops" where
  "page_table_host = \<lparr>ZeroBacking = (\<lambda>off n h. (True, h)), MapBacking = (\<lambda>v n off md h. (True, span_to v n off h)),
     UnmapBacking = (\<lambda>v n h. (True, span_none v n h))\<rparr>"

lemma page_table_host_contract: "host_contract page_table_host (\<lambda>h. h)"
  by (simp add: host_contract_def page_table_host_def)

text \<open>
  C6: Whatever the order of operations, the free ranges and the backing of the mapped blocks split the
  flexible part of physical memory without overlap (no backing byte is leaked or given twice), mapped
  blocks do not overlap in the address space, the running total is the number of mapped bytes, and the
  host maps each mapped byte to the backing byte the table records.
\<close>

theorem flexible_memory_safe:
  assumes "flex_reachable os backed base flexible_size s h" and "host_contract os backed" and "0 < flexible_size" and "base + flexible_size \<le> UINT64_MAX"
  shows "fl_ok (fm_free s) \<and> table_ok fb_map_vaddr fb_map_size (fm_allocated s) \<and> table_ok fb_backing_offset fb_map_size (fm_allocated s) \<and>
    fl_bytes (fm_free s) \<union> bbytes_of (fm_allocated s) = {base..<base + flexible_size} \<and>
    fl_bytes (fm_free s) \<inter> bbytes_of (fm_allocated s) = {} \<and>
    fm_allocated_total s = card (vbytes_of (fm_allocated s)) \<and>
    FlexibleMemory_Available flexible_size s = card (fl_bytes (fm_free s)) \<and>
    (\<forall>x i. flex_at (fm_allocated s) x = Some i \<longrightarrow> backed h x = Some (fi_backing i))"
proof -
  have ok: "fx_ok base flexible_size s" "host_agrees backed s h" using flex_reachable_ok [OF assms] by blast+
  have t: "table_ok fb_map_vaddr fb_map_size (fm_allocated s)" using ok(1) by (simp add: fx_ok_def blocks_wf_def)
  have "fm_allocated_total s = card (vbytes_of (fm_allocated s))" using ok(1) table_card [OF t] by (simp add: fx_ok_def)
  then show ?thesis using ok fx_total(2) [OF ok(1)] by (simp add: fx_ok_def blocks_wf_def host_agrees_def)
qed

text \<open>A state after two mappings and the unmapping of the first: the free memory is in two ranges.\<close>

definition flex_block :: "u64 \<Rightarrow> u64 \<Rightarrow> u64 \<Rightarrow> u64 \<Rightarrow> u64 \<Rightarrow> FlexibleBlock" where
  "flex_block v n off hv hn = \<lparr>fb_map_vaddr = v, fb_map_size = n, fb_backing_offset = off, fb_host_vaddr = hv, fb_host_size = hn,
     fb_prot = 3, fb_mode = ReadWrite, fb_gpu_mode = GpuNoAccess, fb_name = []\<rparr>"

definition flex_demo :: flexible_memory where
  "flex_demo = \<lparr>fm_allocated = [flex_block 200 2 18 200 2], fm_free = [(16, 2), (20, 4)], fm_allocated_total = 2\<rparr>"

definition flex_demo_host :: "u64 \<Rightarrow> u64 option" where
  "flex_demo_host = span_to 200 2 18 (\<lambda>x. None)"

definition flex_demo_mapped :: flexible_memory where
  "flex_demo_mapped = \<lparr>fm_allocated = [flex_block 200 2 18 200 2, flex_block 300 2 16 300 4, flex_block 302 2 20 300 4], fm_free = [(22, 2)],
     fm_allocated_total = 6\<rparr>"

definition flex_demo_mapped_host :: "u64 \<Rightarrow> u64 option" where
  "flex_demo_mapped_host = span_to 302 2 20 (span_to 300 2 16 flex_demo_host)"

lemma flex_demo_ok: "fx_ok 16 8 flex_demo" "host_agrees (\<lambda>h. h) flex_demo flex_demo_host"
  "flex_at (fm_allocated flex_demo) x = None \<and> flex_demo_host x = None \<longleftrightarrow> \<not> (200 \<le> x \<and> x < 202)"
proof -
  show "fx_ok 16 8 flex_demo"
    by (simp add: fx_ok_def flex_demo_def flex_block_def fl_ok_Cons fblock_ok_def) auto
  show "host_agrees (\<lambda>h. h) flex_demo flex_demo_host"
    by (auto simp: host_agrees_def flex_demo_def flex_block_def flex_demo_host_def span_to_def block_info_def split: if_splits)
  show "flex_at (fm_allocated flex_demo) x = None \<and> flex_demo_host x = None \<longleftrightarrow> \<not> (200 \<le> x \<and> x < 202)"
    by (auto simp: flex_demo_def flex_block_def flex_demo_host_def span_to_def)
qed

lemma flex_demo_map:
  "FlexibleMemory_Map page_table_host 8 300 4 3 ReadWrite GpuNoAccess None flex_demo flex_demo_host = Some (True, flex_demo_mapped, flex_demo_mapped_host)"
  by (simp add: FlexibleMemory_Map_def flex_demo_def flex_block_def page_table_host_def before_ub_def ConsumeFreeRange_def erase_key_def Let_def
    flex_demo_mapped_def flex_demo_mapped_host_def CopyVirtualRangeName_def)

lemma flex_demo_reachable: "flex_reachable page_table_host (\<lambda>h. h) 16 8 flex_demo flex_demo_host"
proof -
  let ?a = "\<lparr>fm_allocated = [flex_block 100 2 16 100 2], fm_free = [(18, 6)], fm_allocated_total = 2\<rparr>"
  let ?ha = "span_to 100 2 16 (\<lambda>x. None)"
  let ?b = "\<lparr>fm_allocated = [flex_block 100 2 16 100 2, flex_block 200 2 18 200 2], fm_free = [(20, 4)], fm_allocated_total = 4\<rparr>"
  let ?hb = "span_to 200 2 18 ?ha"
  note defs = FlexibleMemory_Map_def flex_block_def page_table_host_def before_ub_def ConsumeFreeRange_def erase_key_def CopyVirtualRangeName_def
  have a: "flex_reachable page_table_host (\<lambda>h. h) 16 8 ?a ?ha"
    by (rule flex_map [OF flex_new, where vaddr = 100 and len = 2 and prot = 3 and md = ReadWrite and gpu_mode = GpuNoAccess and name = None and r = True]) (simp_all add: new_flexible_memory_def defs)
  have b: "flex_reachable page_table_host (\<lambda>h. h) 16 8 ?b ?hb"
    by (rule flex_map [OF a, where vaddr = 200 and len = 2 and prot = 3 and md = ReadWrite and gpu_mode = GpuNoAccess and name = None and r = True]) (auto simp: defs span_to_def)
  have host: "span_none 100 2 ?hb = flex_demo_host" by (auto simp: fun_eq_iff span_none_def span_to_def flex_demo_host_def)
  have u: "FlexibleMemory_Unmap page_table_host 100 2 ?b ?hb = Some (Some GpuNoAccess, flex_demo, flex_demo_host)"
    by (simp add: FlexibleMemory_Unmap_def page_table_host_def flex_block_def VirtualRangesOverlap_def AddFreeRange_def before_lb_def from_lb_def
      unmap_pieces_def flex_demo_def host [unfolded flex_block_def])
  show ?thesis by (rule flex_unmap [OF b _ _ u]) simp_all
qed

lemma flexible_memory_safe_witness:
  "fl_bytes (fm_free flex_demo) \<union> bbytes_of (fm_allocated flex_demo) = {16..<16 + 8} \<and>
   fm_allocated_total flex_demo = card (vbytes_of (fm_allocated flex_demo))"
  using flexible_memory_safe [OF flex_demo_reachable page_table_host_contract] by simp

text \<open>
  C32: \<open>Map\<close> at a free span, in a consistent state, with a host any of whose calls may fail. If the host
  refuses to zero or to map a piece, the pieces mapped so far are unmapped again: then the call fails and
  neither the tables nor what the host has mapped are different. Only if the host also refuses to unmap one
  of these pieces does the process exit. If the call succeeds it has mapped every byte of the span, and no
  other, to free backing with the requested protection. It succeeds whenever enough memory is available,
  however fragmented, and the host never refuses to zero or to map.
\<close>

theorem flexible_map_correct:
  assumes "fx_ok base flexible_size s" and "host_contract os backed" and "host_agrees backed s h"
    and "vaddr + len \<le> UINT64_MAX" and "\<forall>x. vaddr \<le> x \<and> x < vaddr + len \<longrightarrow> flex_at (fm_allocated s) x = None \<and> backed h x = None"
  shows "case FlexibleMemory_Map os flexible_size vaddr len prot md gpu_mode name s h of
      None \<Rightarrow> unmap_refused os backed vaddr len \<and> \<not> maps_all os
    | Some (r, s', h') \<Rightarrow> fx_ok base flexible_size s' \<and> host_agrees backed s' h' \<and>
      (\<not> r \<longrightarrow> s' = s \<and> backed h' = backed h) \<and>
      (r \<longrightarrow> 0 < len \<and> FlexibleMemory_Available flexible_size s' + len = FlexibleMemory_Available flexible_size s \<and>
        (\<forall>x. if vaddr \<le> x \<and> x < vaddr + len
           then \<exists>i. flex_at (fm_allocated s') x = Some i \<and> fi_backing i \<in> fl_bytes (fm_free s) \<and> fi_prot i = prot \<and> fi_mode i = md \<and>
             fi_gpu_mode i = gpu_mode \<and> fi_host i = (vaddr, len) \<and> fi_name i = CopyVirtualRangeName name
           else flex_at (fm_allocated s') x = flex_at (fm_allocated s) x \<and> backed h' x = backed h x)) \<and>
      (0 < len \<and> len \<le> FlexibleMemory_Available flexible_size s \<and> maps_all os \<longrightarrow> r)"
  by (rule case_ran) (rule FlexibleMemory_Map_spec [OF assms])

text \<open>A host that maps but refuses the third piece, and refuses to unmap or not.\<close>

definition refusing_host :: "bool \<Rightarrow> (u64 \<Rightarrow> u64 option) host_ops" where
  "refusing_host unmaps = \<lparr>ZeroBacking = (\<lambda>off n h. (True, h)),
     MapBacking = (\<lambda>v n off md h. if v = 302 then (False, h) else (True, span_to v n off h)),
     UnmapBacking = (\<lambda>v n h. if unmaps then (True, span_none v n h) else (False, h))\<rparr>"

lemma refusing_host_contract: "host_contract (refusing_host unmaps) (\<lambda>h. h)"
  by (simp add: host_contract_def refusing_host_def)

lemma flexible_map_correct_witness:
  "FlexibleMemory_Map page_table_host 8 300 4 3 ReadWrite GpuNoAccess None flex_demo flex_demo_host = Some (True, flex_demo_mapped, flex_demo_mapped_host) \<and>
   fx_ok 16 8 flex_demo_mapped \<and> FlexibleMemory_Available 8 flex_demo_mapped + 4 = FlexibleMemory_Available 8 flex_demo \<and>
   (\<exists>h'. FlexibleMemory_Map (refusing_host True) 8 300 4 3 ReadWrite GpuNoAccess None flex_demo flex_demo_host = Some (False, flex_demo, h') \<and>
      h' = flex_demo_host) \<and>
   FlexibleMemory_Map (refusing_host False) 8 300 4 3 ReadWrite GpuNoAccess None flex_demo flex_demo_host = None"
proof -
  have fresh: "\<forall>x. 300 \<le> x \<and> x < 300 + 4 \<longrightarrow> flex_at (fm_allocated flex_demo) x = None \<and> flex_demo_host x = None"
    using flex_demo_ok(3) by auto
  note correct = flexible_map_correct [where backed = "\<lambda>h. h" and vaddr = 300 and len = 4 and prot = 3 and md = ReadWrite and gpu_mode = GpuNoAccess and name = None,
      OF flex_demo_ok(1) _ flex_demo_ok(2) _ fresh]
  have 1: "fx_ok 16 8 flex_demo_mapped \<and> FlexibleMemory_Available 8 flex_demo_mapped + 4 = FlexibleMemory_Available 8 flex_demo"
    using correct [OF page_table_host_contract] flex_demo_map by simp
  note defs = FlexibleMemory_Map_def flex_demo_def flex_block_def refusing_host_def CopyVirtualRangeName_def
  have 2: "\<exists>h'. FlexibleMemory_Map (refusing_host True) 8 300 4 3 ReadWrite GpuNoAccess None flex_demo flex_demo_host = Some (False, flex_demo, h')"
    by (simp add: defs Let_def)
  have 3: "FlexibleMemory_Map (refusing_host False) 8 300 4 3 ReadWrite GpuNoAccess None flex_demo flex_demo_host = None"
    by (simp add: defs Let_def)
  show ?thesis using flex_demo_map 1 2 3 correct [OF refusing_host_contract [of True]] by auto
qed

text \<open>
  C33: \<open>Unmap\<close> never exits: it succeeds exactly when every byte of the span is mapped and the host agrees to
  unmap it, and then unmaps exactly those bytes, in the tables and in the host, however the span cuts the
  blocks; the backing bytes that served the span, and only those, become free. It reports the GPU access of
  the first byte. Where it fails, nothing is different in the tables or in what the host has mapped, and the
  host is not even asked if the span is not mapped.
\<close>

theorem flexible_unmap_exact:
  assumes "fx_ok base flexible_size s" and "host_contract os backed" and "host_agrees backed s h" and "0 < bytes" and "vaddr + bytes \<le> UINT64_MAX"
  shows "\<exists>r s' h'. FlexibleMemory_Unmap os vaddr bytes s h = Some (r, s', h') \<and> fx_ok base flexible_size s' \<and> host_agrees backed s' h' \<and>
    (r \<noteq> None \<longleftrightarrow> {vaddr..<vaddr + bytes} \<subseteq> vbytes_of (fm_allocated s) \<and> fst (UnmapBacking os vaddr bytes h)) \<and>
    (r = None \<longrightarrow> s' = s \<and> backed h' = backed h) \<and> (\<not> {vaddr..<vaddr + bytes} \<subseteq> vbytes_of (fm_allocated s) \<longrightarrow> h' = h) \<and>
    (r \<noteq> None \<longrightarrow> r = map_option fi_gpu_mode (flex_at (fm_allocated s) vaddr) \<and>
      FlexibleMemory_Available flexible_size s' = FlexibleMemory_Available flexible_size s + bytes \<and>
      fl_bytes (fm_free s') = fl_bytes (fm_free s) \<union> {y. \<exists>u. user_of (fm_allocated s) y = Some u \<and> in_span vaddr bytes u} \<and>
      backed h' = span_none vaddr bytes (backed h) \<and>
      (\<forall>x. flex_at (fm_allocated s') x = (if in_span vaddr bytes x then None else flex_at (fm_allocated s) x)))"
  by (rule FlexibleMemory_Unmap_spec [OF assms])

lemma flex_demo_mapped_ok: "fx_ok 16 8 flex_demo_mapped \<and> host_agrees (\<lambda>h. h) flex_demo_mapped flex_demo_mapped_host"
proof -
  have "\<forall>x. 300 \<le> x \<and> x < 300 + 4 \<longrightarrow> flex_at (fm_allocated flex_demo) x = None \<and> flex_demo_host x = None"
    using flex_demo_ok(3) by auto
  from FlexibleMemory_Map_spec [where os = page_table_host and backed = "\<lambda>h. h" and vaddr = 300 and len = 4 and prot = 3 and md = ReadWrite and gpu_mode = GpuNoAccess and name = None,
      OF flex_demo_ok(1) page_table_host_contract flex_demo_ok(2) _ this] flex_demo_map
  show ?thesis by auto
qed

lemma flexible_unmap_exact_witness:
  "\<exists>s' h'. FlexibleMemory_Unmap page_table_host 301 2 flex_demo_mapped flex_demo_mapped_host = Some (Some GpuNoAccess, s', h') \<and>
     FlexibleMemory_Available 8 s' = 4 \<and> flex_at (fm_allocated s') 302 = None \<and> flex_at (fm_allocated s') 303 \<noteq> None \<and>
   fst (the (FlexibleMemory_Unmap (refusing_host False) 301 2 flex_demo_mapped flex_demo_mapped_host)) = None"
proof -
  have sub: "{301..<301 + 2} \<subseteq> vbytes_of (fm_allocated flex_demo_mapped)" by (auto simp: flex_demo_mapped_def flex_block_def table_bytes_def)
  have at: "map_option fi_gpu_mode (flex_at (fm_allocated flex_demo_mapped) 301) = Some GpuNoAccess"
    "flex_at (fm_allocated flex_demo_mapped) 303 \<noteq> None" "FlexibleMemory_Available 8 flex_demo_mapped = 2"
    by (simp_all add: flex_demo_mapped_def flex_block_def block_info_def FlexibleMemory_Available_def)
  have u: "fst (UnmapBacking page_table_host 301 2 flex_demo_mapped_host)" "\<not> fst (UnmapBacking (refusing_host False) 301 2 flex_demo_mapped_host)"
    by (simp_all add: page_table_host_def refusing_host_def)
  note exact = flexible_unmap_exact [OF flex_demo_mapped_ok [THEN conjunct1] _ flex_demo_mapped_ok [THEN conjunct2], of _ 2 301]
  have 1: "\<exists>s' h'. FlexibleMemory_Unmap page_table_host 301 2 flex_demo_mapped flex_demo_mapped_host = Some (Some GpuNoAccess, s', h') \<and>
     FlexibleMemory_Available 8 s' = 4 \<and> flex_at (fm_allocated s') 302 = None \<and> flex_at (fm_allocated s') 303 \<noteq> None"
    using exact [OF page_table_host_contract] sub at u(1) by (auto simp: in_span_def)
  moreover have "fst (the (FlexibleMemory_Unmap (refusing_host False) 301 2 flex_demo_mapped flex_demo_mapped_host)) = None"
    using exact [OF refusing_host_contract [of False]] u(2) by auto
  ultimately show ?thesis by blast
qed

text \<open>
  C34: Saving a span with \<open>Snapshot\<close>, unmapping it and restoring it is the identity: every byte of every
  block has its backing, protection, name and host range again, the free list is the same list and the
  host maps what it mapped. If the host refuses to unmap the span, nothing is different. If it refuses to map
  a piece again, the restoring fails and leaves the unmapped state, or exits when it also refuses to unmap a
  piece already mapped; if it never refuses to map, the restoring succeeds.
\<close>

theorem flexible_snapshot_restore:
  assumes "fx_ok base flexible_size s" and "host_contract os backed" and "host_agrees backed s h" and "FlexibleMemory_Snapshot vaddr bytes s = Some ps"
  shows "if fst (UnmapBacking os vaddr bytes h)
    then \<exists>g s1 h1. FlexibleMemory_Unmap os vaddr bytes s h = Some (Some g, s1, h1) \<and>
      (case FlexibleMemory_Restore os ps s1 h1 of
        None \<Rightarrow> unmap_refused os backed vaddr bytes \<and> \<not> maps_all os
      | Some (r, s2, h2) \<Rightarrow>
          (r \<longrightarrow> (\<forall>x. flex_at (fm_allocated s2) x = flex_at (fm_allocated s) x) \<and> fm_free s2 = fm_free s \<and>
            fm_allocated_total s2 = fm_allocated_total s \<and> backed h2 = backed h) \<and>
          (\<not> r \<longrightarrow> s2 = s1 \<and> backed h2 = backed h1) \<and> (maps_all os \<longrightarrow> r))
    else \<exists>h1. FlexibleMemory_Unmap os vaddr bytes s h = Some (None, s, h1) \<and> backed h1 = backed h"
proof (cases "fst (UnmapBacking os vaddr bytes h)")
  case True
  then obtain g s1 h1 where u: "FlexibleMemory_Unmap os vaddr bytes s h = Some (Some g, s1, h1)"
    and r: "FlexibleMemory_Restore os ps s1 h1 = None \<and> unmap_refused os backed vaddr bytes \<and> \<not> maps_all os \<or>
     (\<exists>r s2 h2. FlexibleMemory_Restore os ps s1 h1 = Some (r, s2, h2) \<and>
      (r \<longrightarrow> (\<forall>x. flex_at (fm_allocated s2) x = flex_at (fm_allocated s) x) \<and> fm_free s2 = fm_free s \<and>
        fm_allocated_total s2 = fm_allocated_total s \<and> backed h2 = backed h) \<and>
      (\<not> r \<longrightarrow> s2 = s1 \<and> backed h2 = backed h1) \<and> (maps_all os \<longrightarrow> r))"
    using snapshot_restore [OF assms] by blast
  show ?thesis unfolding if_P [OF True] by (intro exI conjI, rule u, rule case_ran, rule r)
next
  case False
  have n: "0 < bytes" "vaddr + bytes \<le> UINT64_MAX" using assms(4) by (auto simp: FlexibleMemory_Snapshot_def split: if_splits)
  from FlexibleMemory_Unmap_spec [OF assms(1-3) n] show ?thesis using False by auto
qed

lemma flexible_snapshot_restore_witness:
  "\<exists>s1 h1 s2. FlexibleMemory_Unmap page_table_host 301 2 flex_demo_mapped flex_demo_mapped_host = Some (Some GpuNoAccess, s1, h1) \<and>
     FlexibleMemory_Restore page_table_host [flex_block 301 1 17 300 4, flex_block 302 1 20 300 4] s1 h1 = Some (True, s2, flex_demo_mapped_host) \<and>
     fm_free s2 = [(22, 2)]"
proof -
  have sn: "FlexibleMemory_Snapshot 301 2 flex_demo_mapped = Some [flex_block 301 1 17 300 4, flex_block 302 1 20 300 4]"
    by (simp add: FlexibleMemory_Snapshot_def flex_demo_mapped_def flex_block_def)
  have "\<exists>s1 h1. FlexibleMemory_Unmap page_table_host 301 2 flex_demo_mapped flex_demo_mapped_host = Some (Some GpuNoAccess, s1, h1)"
    by (simp add: FlexibleMemory_Unmap_def flex_demo_mapped_def page_table_host_def flex_block_def VirtualRangesOverlap_def)
  then show ?thesis
    using flexible_snapshot_restore [OF flex_demo_mapped_ok [THEN conjunct1] page_table_host_contract flex_demo_mapped_ok [THEN conjunct2] sn]
    by (fastforce simp: page_table_host_def flex_demo_mapped_def maps_all_def unmap_refused_def split: option.splits)
qed

end
