(* ===== verification/PooledMemory.thy ===== *)
theory PooledMemory
  imports IntervalSeq
begin

text \<open>
  \<open>PooledMemory\<close> (src/src/kernel/memory.cpp): the pool of physical memory behind \<open>sceKernelMemoryPool*\<close>.
  The pool is made of expansions (ranges the pool got from \<open>PhysicalMemory\<close>); committing a span of
  addresses takes bytes of its free ranges in order. A \<open>PhysicalRange\<close> is the pair of its start and its
  size, like the entries of the other free lists. \<open>std::sort\<close> is by start, and the starts are distinct
  in every reachable state.

  The result None of \<open>Allocate\<close>, \<open>Query\<close> and \<open>Release\<close> is false.
\<close>

record pool_mapping =
  pl_vaddr :: u64
  pl_size :: u64
  pl_phys_addr :: u64
  pl_gpu_mode :: GpuAccessMode

record pooled_memory =
  pl_free :: "u64 smap"
  pl_expansions :: "u64 smap"
  pl_mappings :: "pool_mapping list"

definition new_pooled_memory :: pooled_memory where
  "new_pooled_memory = \<lparr>pl_free = [], pl_expansions = [], pl_mappings = []\<rparr>"

section \<open>Operations\<close>

text \<open>The merging loop; the first argument is \<open>merged.back()\<close>.\<close>

fun merge_from :: "u64 \<times> u64 \<Rightarrow> u64 smap \<Rightarrow> u64 smap" where
  "merge_from back [] = [back]"
| "merge_from back (r # rs) =
     (if fst r \<le> fst back + snd back
      then merge_from (fst back, max (fst back + snd back) (fst r + snd r) - fst back) rs
      else back # merge_from r rs)"

definition merge_ranges :: "u64 smap \<Rightarrow> u64 smap" where
  "merge_ranges m = (case m of [] \<Rightarrow> [] | r # rs \<Rightarrow> merge_from r rs)"

definition AddFreeUnlocked :: "u64 \<Rightarrow> u64 \<Rightarrow> u64 smap \<Rightarrow> u64 smap" where
  "AddFreeUnlocked start bytes m = (if bytes = 0 then m else merge_ranges (sort_key fst (m @ [(start, bytes)])))"

definition PooledMemory_Expand :: "u64 \<Rightarrow> u64 \<Rightarrow> pooled_memory \<Rightarrow> pooled_memory" where
  "PooledMemory_Expand phys_addr bytes s =
     s\<lparr>pl_expansions := pl_expansions s @ [(phys_addr, bytes)], pl_free := AddFreeUnlocked phys_addr bytes (pl_free s)\<rparr>"

definition PooledMemory_ReleaseExpansion :: "u64 \<Rightarrow> u64 \<Rightarrow> pooled_memory \<Rightarrow> bool \<times> pooled_memory" where
  "PooledMemory_ReleaseExpansion phys_addr bytes s =
     (if \<not> list_ex (\<lambda>r. fst r = phys_addr \<and> snd r = bytes) (pl_expansions s) then (False, s)
      else if list_ex (\<lambda>m. VirtualRangesOverlap phys_addr bytes (pl_phys_addr m) (pl_size m)) (pl_mappings s) then (False, s)
      else
        (case find (\<lambda>r. phys_addr \<ge> fst r \<and> phys_addr + bytes \<le> fst r + snd r) (pl_free s) of
           None \<Rightarrow> (False, s)
         | Some old \<Rightarrow>
             (let end = phys_addr + bytes; left_size = phys_addr - fst old; right_size = fst old + snd old - end in
              (True, s\<lparr>pl_free := sort_key fst (remove1 old (pl_free s) @ (if left_size \<noteq> 0 then [(fst old, left_size)] else []) @
                 (if right_size \<noteq> 0 then [(end, right_size)] else [])),
               pl_expansions := remove1 (phys_addr, bytes) (pl_expansions s)\<rparr>))))"

text \<open>The loop of \<open>Allocate\<close>: the new mappings, the free ranges after it and what is left of the request.\<close>

fun pool_take :: "GpuAccessMode \<Rightarrow> u64 \<Rightarrow> u64 \<Rightarrow> u64 smap \<Rightarrow> pool_mapping list \<times> u64 smap \<times> u64" where
  "pool_take gpu_mode current remaining [] = ([], [], remaining)"
| "pool_take gpu_mode current remaining (r # rs) =
     (if remaining = 0 \<or> snd r = 0
      then (let (ms, fs, rest) = pool_take gpu_mode current remaining rs in (ms, r # fs, rest))
      else
        (let part_size = min (snd r) remaining;
             (ms, fs, rest) = pool_take gpu_mode (current + part_size) (remaining - part_size) rs in
         (\<lparr>pl_vaddr = current, pl_size = part_size, pl_phys_addr = fst r, pl_gpu_mode = gpu_mode\<rparr> # ms,
          (fst r + part_size, snd r - part_size) # fs, rest)))"

definition PooledMemory_Allocate ::
  "u64 \<Rightarrow> u64 \<Rightarrow> GpuAccessMode \<Rightarrow> pooled_memory \<Rightarrow> pool_mapping list option \<times> pooled_memory" where
  "PooledMemory_Allocate vaddr bytes gpu_mode s =
     (if vaddr = 0 \<or> bytes = 0 \<or> UINT64_MAX - vaddr < bytes then (None, s)
      else
        (let (ms, fs, remaining) = pool_take gpu_mode vaddr bytes (pl_free s) in
         if remaining \<noteq> 0 then (None, s)
         else (Some ms, s\<lparr>pl_free := filter (\<lambda>r. snd r \<noteq> 0) fs, pl_mappings := pl_mappings s @ ms\<rparr>)))"

text \<open>The loop of \<open>QueryUnlocked\<close>: every step covers at least the byte at \<open>current\<close>.\<close>

function pool_query :: "pool_mapping list \<Rightarrow> u64 \<Rightarrow> u64 \<Rightarrow> pool_mapping list option" where
  "pool_query ms end current =
     (if current < end
      then
        (case find (\<lambda>m. current \<ge> pl_vaddr m \<and> current < pl_vaddr m + pl_size m) ms of
           None \<Rightarrow> None
         | Some it \<Rightarrow>
             (let part_size = min end (pl_vaddr it + pl_size it) - current in
              map_option ((#) \<lparr>pl_vaddr = current, pl_size = part_size, pl_phys_addr = pl_phys_addr it + (current - pl_vaddr it),
                  pl_gpu_mode = pl_gpu_mode it\<rparr>)
                (pool_query ms end (current + part_size))))
      else Some [])"
  by pat_completeness auto
termination
  by (relation "measure (\<lambda>(ms, end, current). end - current)") (auto simp: find_Some_iff)

declare pool_query.simps [simp del]

definition PooledMemory_Query :: "u64 \<Rightarrow> u64 \<Rightarrow> pooled_memory \<Rightarrow> pool_mapping list option" where
  "PooledMemory_Query vaddr bytes s =
     (if vaddr = 0 \<or> bytes = 0 \<or> UINT64_MAX - vaddr < bytes then None
      else pool_query (pl_mappings s) (vaddr + bytes) vaddr)"

definition release_pieces :: "u64 \<Rightarrow> u64 \<Rightarrow> pool_mapping \<Rightarrow> pool_mapping list" where
  "release_pieces vaddr bytes mapping =
     (let mapping_end = pl_vaddr mapping + pl_size mapping; cut_start = max vaddr (pl_vaddr mapping);
          cut_end = min (vaddr + bytes) mapping_end in
      if cut_start \<ge> cut_end then [mapping]
      else
        (if pl_vaddr mapping < cut_start then [mapping\<lparr>pl_size := cut_start - pl_vaddr mapping\<rparr>] else []) @
        (if cut_end < mapping_end
         then [mapping\<lparr>pl_vaddr := cut_end, pl_size := mapping_end - cut_end,
           pl_phys_addr := pl_phys_addr mapping + (cut_end - pl_vaddr mapping)\<rparr>] else []))"

definition PooledMemory_Release :: "u64 \<Rightarrow> u64 \<Rightarrow> pooled_memory \<Rightarrow> GpuAccessMode option \<times> pooled_memory" where
  "PooledMemory_Release vaddr bytes s =
     (case PooledMemory_Query vaddr bytes s of
        None \<Rightarrow> (None, s)
      | Some released \<Rightarrow>
          (Some (pl_gpu_mode (hd released)),
           s\<lparr>pl_mappings := concat (map (release_pieces vaddr bytes) (pl_mappings s)),
             pl_free := fold (\<lambda>m. AddFreeUnlocked (pl_phys_addr m) (pl_size m)) released (pl_free s)\<rparr>))"

definition PooledMemory_Available :: "pooled_memory \<Rightarrow> u64" where
  "PooledMemory_Available s = sum_list (map snd (pl_free s))"

section \<open>The free ranges\<close>

lemma merge_from_spec:
  assumes "0 < snd e" and "\<forall>r\<in>set rs. 0 < snd r" and "sorted_wrt (\<lambda>a b. fst a \<le> fst b) (e # rs)"
  shows "fl_ok (merge_from e rs) \<and> fl_bytes (merge_from e rs) = fl_bytes (e # rs) \<and> (\<forall>x\<in>set (merge_from e rs). fst e \<le> fst x)"
  using assms
proof (induction e rs rule: merge_from.induct)
  case (2 e r rs)
  have le: "fst e \<le> fst r" using "2.prems"(3) by simp
  show ?case
  proof (cases "fst r \<le> fst e + snd e")
    case True
    let ?e = "(fst e, max (fst e + snd e) (fst r + snd r) - fst e)"
    have "0 < snd ?e" using "2.prems"(1) by simp
    moreover have "sorted_wrt (\<lambda>a b. fst a \<le> fst b) (?e # rs)" using "2.prems"(3) by auto
    ultimately have ih: "fl_ok (merge_from ?e rs)" "fl_bytes (merge_from ?e rs) = fl_bytes (?e # rs)" "\<forall>x\<in>set (merge_from ?e rs). fst ?e \<le> fst x"
      using "2.IH"(1) [OF True] "2.prems"(2) by simp_all
    have "fl_bytes (?e # rs) = fl_bytes (e # r # rs)" using True le by auto
    then show ?thesis using ih True by simp
  next
    case False
    have "fl_ok (merge_from r rs) \<and> fl_bytes (merge_from r rs) = fl_bytes (r # rs) \<and> (\<forall>x\<in>set (merge_from r rs). fst r \<le> fst x)"
      using "2.IH"(2) [OF False] "2.prems" by simp
    then show ?thesis using False "2.prems"(1) by (fastforce simp: fl_ok_Cons)
  qed
qed (simp add: fl_ok_Cons)

lemma fl_bytes_perm: "set m = set n \<Longrightarrow> fl_bytes m = fl_bytes n"
  by (rule set_eqI) (simp add: mem_fl_bytes)

lemma AddFreeUnlocked_spec:
  assumes ok: "fl_ok m" and n: "0 < bytes"
  shows "fl_ok (AddFreeUnlocked start bytes m)" and "fl_bytes (AddFreeUnlocked start bytes m) = fl_bytes m \<union> {start..<start + bytes}"
proof -
  define l where "l = sort_key fst (m @ [(start, bytes)])"
  have set: "set l = set (m @ [(start, bytes)])" unfolding l_def by (rule set_sort)
  then obtain e rs where l: "l = e # rs" by (cases l) auto
  have "sorted (map fst l)" unfolding l_def by (rule sorted_sort_key)
  then have s: "sorted_wrt (\<lambda>a b. fst a \<le> fst b) (e # rs)" unfolding l sorted_map .
  have p: "\<forall>r\<in>set (e # rs). 0 < snd r" unfolding l [symmetric] set using fl_ok_pos [OF ok] n by auto
  have eq: "AddFreeUnlocked start bytes m = merge_from e rs"
    using n by (simp add: AddFreeUnlocked_def l_def [symmetric] l merge_ranges_def)
  note sp = merge_from_spec [of e rs]
  show "fl_ok (AddFreeUnlocked start bytes m)" unfolding eq using sp p s by simp
  have "fl_bytes (merge_from e rs) = fl_bytes l" unfolding l using sp p s by simp
  also have "\<dots> = fl_bytes (m @ [(start, bytes)])" by (rule fl_bytes_perm [OF set])
  finally show "fl_bytes (AddFreeUnlocked start bytes m) = fl_bytes m \<union> {start..<start + bytes}" unfolding eq by simp
qed

lemma fl_split: "fl_ok m \<Longrightarrow> e \<in> set m \<Longrightarrow> \<exists>p q. m = p @ e # q \<and> remove1 e m = p @ q \<and> fl_ok (p @ q)"
proof -
  assume ok: "fl_ok m" and e: "e \<in> set m"
  obtain p q where m: "m = p @ e # q" "e \<notin> set p" using split_list_first [OF e] by blast
  then show ?thesis using ok by (intro exI [of _ p] exI [of _ q]) (auto simp: remove1_append fl_ok_append fl_ok_Cons)
qed

lemma fl_ok_sorted: "fl_ok m \<Longrightarrow> sorted (map fst m)"
  by (induction m) (auto simp: fl_ok_Cons)

text \<open>Cutting a run out of the range that holds it, sorted again.\<close>

lemma cut_free_range:
  assumes ok: "fl_ok m" and old: "old \<in> set m" and a: "fst old \<le> a" "a + n \<le> fst old + snd old" and n: "0 < n"
  defines "r \<equiv> sort_key fst (remove1 old m @ (if a - fst old \<noteq> 0 then [(fst old, a - fst old)] else []) @
    (if fst old + snd old - (a + n) \<noteq> 0 then [(a + n, fst old + snd old - (a + n))] else []))"
  shows "fl_ok r" and "fl_bytes r = fl_bytes m - {a..<a + n}"
proof -
  obtain p q where m: "m = p @ old # q" "remove1 old m = p @ q" using fl_split [OF ok old] by blast
  define mid where "mid = (if a - fst old \<noteq> 0 then [(fst old, a - fst old)] else []) @
    (if fst old + snd old - (a + n) \<noteq> 0 then [(a + n, fst old + snd old - (a + n))] else [])"
  have parts: "\<forall>x\<in>set p. fst x + snd x < fst old" "\<forall>y\<in>set q. fst old + snd old < fst y" "fl_ok p" "fl_ok q"
    using ok unfolding m(1) by (auto simp: fl_ok_append fl_ok_Cons)
  have mid: "fl_ok mid" "\<forall>x\<in>set mid. fst old \<le> fst x \<and> fst x + snd x \<le> fst old + snd old"
    "fl_bytes mid = {fst old..<fst old + snd old} - {a..<a + n}"
    using a n by (auto simp: mid_def fl_ok_Cons)
  have c: "fl_ok (p @ mid @ q)" using parts mid(1,2) by (fastforce simp: fl_ok_append)
  have srt: "sorted (map fst (p @ mid @ q))" "distinct (map fst (p @ mid @ q))"
    using fl_ok_sorted [OF c] fl_ok_smap_ok [OF c] by (auto simp: smap_ok_def strict_sorted_iff)
  have r: "r = sort_key fst (p @ q @ mid)" unfolding r_def m(2) mid_def by simp
  have "sort_key fst (p @ q @ mid) = p @ mid @ q"
  proof (rule sort_key_inj_key_eq)
    show "mset (p @ q @ mid) = mset (p @ mid @ q)" by simp
    have "inj_on fst (set (p @ mid @ q))" using srt(2) by (simp only: distinct_map)
    moreover have "set (p @ q @ mid) = set (p @ mid @ q)" by auto
    ultimately show "inj_on fst (set (p @ q @ mid))" by simp
    show "sorted (map fst (p @ mid @ q))" by (rule srt(1))
  qed
  then have req: "r = p @ mid @ q" using r by simp
  show "fl_ok r" unfolding req by (rule c)
  have "fl_bytes p \<inter> {a..<a + n} = {}" "fl_bytes q \<inter> {a..<a + n} = {}"
    using parts(1,2) a by (fastforce simp: mem_fl_bytes)+
  then show "fl_bytes r = fl_bytes m - {a..<a + n}" unfolding req m(1) fl_bytes_simps mid(3) by blast
qed

section \<open>The state\<close>

text \<open>What the pool says of an address (its physical byte and GPU access), and of a physical byte.\<close>

definition pool_at :: "pool_mapping list \<Rightarrow> u64 \<Rightarrow> (u64 \<times> GpuAccessMode) option" where
  "pool_at = view pl_vaddr pl_size (\<lambda>m x. (pl_phys_addr m + (x - pl_vaddr m), pl_gpu_mode m))"

definition pool_user :: "pool_mapping list \<Rightarrow> u64 \<Rightarrow> u64 option" where
  "pool_user = view pl_phys_addr pl_size (\<lambda>m y. pl_vaddr m + (y - pl_phys_addr m))"

abbreviation va_bytes :: "pool_mapping list \<Rightarrow> u64 set" where
  "va_bytes \<equiv> table_bytes pl_vaddr pl_size"

abbreviation pa_bytes :: "pool_mapping list \<Rightarrow> u64 set" where
  "pa_bytes \<equiv> table_bytes pl_phys_addr pl_size"

definition pmap_ok :: "pool_mapping \<Rightarrow> bool" where
  "pmap_ok m \<longleftrightarrow> 0 < pl_size m \<and> pl_vaddr m + pl_size m \<le> UINT64_MAX \<and> pl_phys_addr m + pl_size m \<le> UINT64_MAX"

definition maps_ok :: "pool_mapping list \<Rightarrow> bool" where
  "maps_ok ms \<longleftrightarrow> table_ok pl_vaddr pl_size ms \<and> table_ok pl_phys_addr pl_size ms \<and> (\<forall>m\<in>set ms. pmap_ok m)"

definition pool_ok :: "pooled_memory \<Rightarrow> bool" where
  "pool_ok s \<longleftrightarrow> fl_ok (pl_free s) \<and> maps_ok (pl_mappings s) \<and> table_ok fst snd (pl_expansions s) \<and>
     (\<forall>e\<in>set (pl_expansions s). 0 < snd e \<and> fst e + snd e \<le> UINT64_MAX) \<and>
     fl_bytes (pl_free s) \<inter> pa_bytes (pl_mappings s) = {} \<and>
     fl_bytes (pl_free s) \<union> pa_bytes (pl_mappings s) = table_bytes fst snd (pl_expansions s)"

lemma maps_ok_simps [simp]:
  "maps_ok []"
  "maps_ok (m # ms) \<longleftrightarrow> pmap_ok m \<and> iv pl_vaddr pl_size m \<inter> va_bytes ms = {} \<and> iv pl_phys_addr pl_size m \<inter> pa_bytes ms = {} \<and> maps_ok ms"
  "maps_ok (ms @ ns) \<longleftrightarrow> maps_ok ms \<and> maps_ok ns \<and> va_bytes ms \<inter> va_bytes ns = {} \<and> pa_bytes ms \<inter> pa_bytes ns = {}"
  by (auto simp: maps_ok_def simp del: mem_iv)

lemma pool_at_simps [simp]:
  "pool_at [] x = None"
  "pool_at (m # ms) x = (if pl_vaddr m \<le> x \<and> x < pl_vaddr m + pl_size m then Some (pl_phys_addr m + (x - pl_vaddr m), pl_gpu_mode m) else pool_at ms x)"
  by (simp_all add: pool_at_def)

lemma pool_user_simps [simp]:
  "pool_user [] y = None"
  "pool_user (m # ms) y = (if pl_phys_addr m \<le> y \<and> y < pl_phys_addr m + pl_size m then Some (pl_vaddr m + (y - pl_phys_addr m)) else pool_user ms y)"
  by (simp_all add: pool_user_def)

lemma pool_at_None: "pool_at ms x = None \<longleftrightarrow> x \<notin> va_bytes ms"
  by (simp add: pool_at_def view_None_iff)

lemma pool_user_None: "pool_user ms y = None \<longleftrightarrow> y \<notin> pa_bytes ms"
  by (simp add: pool_user_def view_None_iff)

lemma pool_at_append: "pool_at (ms @ ns) x = (case pool_at ms x of None \<Rightarrow> pool_at ns x | Some i \<Rightarrow> Some i)"
  unfolding pool_at_def by (rule view_append)

lemma pool_available_card: "fl_ok m \<Longrightarrow> sum_list (map snd m) = card (fl_bytes m)"
proof (induction m)
  case (Cons e m)
  have "{fst e..<fst e + snd e} \<inter> fl_bytes m = {}" using Cons.prems by (fastforce simp: fl_ok_Cons mem_fl_bytes)
  then show ?case using Cons card_Un_disjoint [of "{fst e..<fst e + snd e}" "fl_bytes m"] by (simp add: fl_ok_Cons)
qed simp

section \<open>Committing\<close>

lemma pool_take_spec:
  assumes "fl_ok free" and "current + remaining \<le> UINT64_MAX" and "\<forall>y\<in>fl_bytes free. y < UINT64_MAX"
    and "pool_take gpu_mode current remaining free = (ms, fs, rest)"
  shows "maps_ok ms \<and> rest \<le> remaining \<and> va_bytes ms = {current..<current + (remaining - rest)} \<and>
    fl_ok (filter (\<lambda>r. snd r \<noteq> 0) fs) \<and>
    fl_bytes (filter (\<lambda>r. snd r \<noteq> 0) fs) = fl_bytes free - pa_bytes ms \<and> pa_bytes ms \<subseteq> fl_bytes free \<and>
    (\<forall>f\<in>set fs. \<exists>e\<in>set free. fst e \<le> fst f) \<and> rest = remaining - card (fl_bytes free) \<and>
    (\<forall>x\<in>va_bytes ms. \<exists>y\<in>fl_bytes free. pool_at ms x = Some (y, gpu_mode))"
  using assms
proof (induction free arbitrary: current remaining ms fs rest)
  case (Cons r rs)
  have rs: "fl_ok rs" "0 < snd r" "\<forall>x\<in>set rs. fst r + snd r < fst x" using Cons.prems(1) by (simp_all add: fl_ok_Cons)
  have dis: "{fst r..<fst r + snd r} \<inter> fl_bytes rs = {}" using rs(3) by (fastforce simp: mem_fl_bytes)
  have top: "\<forall>y\<in>fl_bytes rs. y < UINT64_MAX" using Cons.prems(3) by simp
  have card: "card (fl_bytes (r # rs)) = snd r + card (fl_bytes rs)"
    using dis card_Un_disjoint [of "{fst r..<fst r + snd r}" "fl_bytes rs"] by simp
  show ?case
  proof (cases "remaining = 0")
    case True
    obtain ms' fs' rest' where t: "pool_take gpu_mode current remaining rs = (ms', fs', rest')" by (metis prod_cases3)
    have eq: "ms = ms'" "fs = r # fs'" "rest = rest'" using Cons.prems(4) t True by simp_all
    note ih = Cons.IH [OF rs(1) Cons.prems(2) top t]
    have "va_bytes ms' = {}" using ih True by simp
    then have none: "ms' = []" using ih by (cases ms') (auto simp: pmap_ok_def iv_def)
    have "\<forall>f\<in>set (filter (\<lambda>r. snd r \<noteq> 0) fs'). fst r + snd r < fst f" using ih rs(3) by fastforce
    then have "fl_ok (filter (\<lambda>r. snd r \<noteq> 0) fs)" using ih rs(2) eq by (simp add: fl_ok_Cons)
    then show ?thesis using ih eq none True rs(2) by auto
  next
    case False
    define part where "part = min (snd r) remaining"
    obtain ms' fs' rest' where t: "pool_take gpu_mode (current + part) (remaining - part) rs = (ms', fs', rest')" by (metis prod_cases3)
    let ?m = "\<lparr>pl_vaddr = current, pl_size = part, pl_phys_addr = fst r, pl_gpu_mode = gpu_mode\<rparr>"
    have eq: "ms = ?m # ms'" "fs = (fst r + part, snd r - part) # fs'" "rest = rest'"
      using Cons.prems(4) t False rs(2) by (simp_all add: part_def [symmetric] Let_def)
    have p: "0 < part" "part \<le> snd r" "part \<le> remaining" using False rs(2) by (simp_all add: part_def)
    have fits: "current + part + (remaining - part) \<le> UINT64_MAX" using Cons.prems(2) p by simp
    note ih = Cons.IH [OF rs(1) fits top t]
    have "fst r + snd r - 1 \<in> {fst r..<fst r + snd r}" using rs(2) by auto
    then have "fst r + snd r - 1 \<in> fl_bytes (r # rs)" by simp
    then have lim: "fst r + snd r \<le> UINT64_MAX" using Cons.prems(3) rs(2) by fastforce
    have m: "pmap_ok ?m" using p lim Cons.prems(2) by (simp add: pmap_ok_def)
    have va: "va_bytes ms' = {current + part..<current + part + (remaining - part - rest')}" using ih by blast
    have pa: "pa_bytes ms' \<subseteq> fl_bytes rs" using ih by blast
    have mok: "maps_ok ms" unfolding eq maps_ok_simps using ih m va pa dis p by (fastforce simp: iv_def)
    have le: "rest' \<le> remaining - part" using ih by blast
    have vb: "va_bytes ms = {current..<current + (remaining - rest)}"
      unfolding eq table_bytes_simps va iv_def using le p by auto
    have after: "\<forall>f\<in>set (filter (\<lambda>r. snd r \<noteq> 0) fs'). fst r + snd r < fst f" using ih rs(3) by fastforce
    have fok: "fl_ok (filter (\<lambda>r. snd r \<noteq> 0) fs)"
      using ih after p by (cases "snd r = part") (auto simp: eq fl_ok_Cons)
    have fb: "fl_bytes (filter (\<lambda>r. snd r \<noteq> 0) fs) = {fst r + part..<fst r + snd r} \<union> fl_bytes (filter (\<lambda>r. snd r \<noteq> 0) fs')"
      using p by (auto simp: eq)
    have fbe: "fl_bytes (filter (\<lambda>r. snd r \<noteq> 0) fs) = fl_bytes (r # rs) - pa_bytes ms"
    proof -
      have "{fst r + part..<fst r + snd r} = {fst r..<fst r + snd r} - iv pl_phys_addr pl_size ?m" using p by (auto simp: iv_def)
      moreover have "iv pl_phys_addr pl_size ?m \<subseteq> {fst r..<fst r + snd r}" using p by (auto simp: iv_def)
      moreover have "fl_bytes (filter (\<lambda>r. snd r \<noteq> 0) fs') = fl_bytes rs - pa_bytes ms'" using ih by blast
      ultimately show ?thesis using dis pa unfolding fb eq(1) table_bytes_simps fl_bytes_simps by blast
    qed
    have sub: "pa_bytes ms \<subseteq> fl_bytes (r # rs)" unfolding eq table_bytes_simps using pa p by (auto simp: iv_def)
    have rest: "rest = remaining - card (fl_bytes (r # rs))"
      unfolding card eq(3) using ih by (auto simp: part_def)
    have starts: "\<forall>f\<in>set fs. \<exists>e\<in>set (r # rs). fst e \<le> fst f" using ih by (fastforce simp: eq)
    have at: "\<exists>y\<in>fl_bytes (r # rs). pool_at ms x = Some (y, gpu_mode)" if x: "x \<in> va_bytes ms" for x
    proof (cases "x \<in> iv pl_vaddr pl_size ?m")
      case True
      then show ?thesis using p by (auto simp: eq)
    next
      case False
      then have "x \<in> va_bytes ms'" using x unfolding eq table_bytes_simps by blast
      then show ?thesis using ih False by (fastforce simp: eq)
    qed
    show ?thesis using mok le p(3) eq(3) vb fok fbe sub starts rest at by simp
  qed
qed simp

lemma PooledMemory_Allocate_spec:
  assumes ok: "pool_ok s" and fresh: "{vaddr..<vaddr + bytes} \<inter> va_bytes (pl_mappings s) = {}"
    and r: "PooledMemory_Allocate vaddr bytes gpu_mode s = (r, s')"
  shows "pool_ok s' \<and>
    (r \<noteq> None \<longleftrightarrow> vaddr \<noteq> 0 \<and> 0 < bytes \<and> vaddr + bytes \<le> UINT64_MAX \<and> bytes \<le> PooledMemory_Available s) \<and>
    (case r of None \<Rightarrow> s' = s
     | Some ms \<Rightarrow> pl_mappings s' = pl_mappings s @ ms \<and> va_bytes ms = {vaddr..<vaddr + bytes} \<and>
         fl_bytes (pl_free s') = fl_bytes (pl_free s) - pa_bytes ms \<and>
         (\<forall>x\<in>{vaddr..<vaddr + bytes}. \<exists>y\<in>fl_bytes (pl_free s). pool_at (pl_mappings s') x = Some (y, gpu_mode)))"
proof -
  have okp: "fl_ok (pl_free s)" "maps_ok (pl_mappings s)" "table_ok fst snd (pl_expansions s)"
    "\<forall>e\<in>set (pl_expansions s). 0 < snd e \<and> fst e + snd e \<le> UINT64_MAX" "fl_bytes (pl_free s) \<inter> pa_bytes (pl_mappings s) = {}"
    "fl_bytes (pl_free s) \<union> pa_bytes (pl_mappings s) = table_bytes fst snd (pl_expansions s)" using ok by (simp_all add: pool_ok_def)
  have av: "PooledMemory_Available s = card (fl_bytes (pl_free s))" using pool_available_card [OF okp(1)] by (simp add: PooledMemory_Available_def)
  show ?thesis
  proof (cases "vaddr = 0 \<or> bytes = 0 \<or> UINT64_MAX - vaddr < bytes")
    case True
    then have "r = None" "s' = s" using r by (auto simp: PooledMemory_Allocate_def)
    moreover have "\<not> (vaddr \<noteq> 0 \<and> 0 < bytes \<and> vaddr + bytes \<le> UINT64_MAX)" using True by linarith
    ultimately show ?thesis using ok by auto
  next
    case False
    obtain ms fs rest where t: "pool_take gpu_mode vaddr bytes (pl_free s) = (ms, fs, rest)" by (metis prod_cases3)
    have fits: "vaddr + bytes \<le> UINT64_MAX" using False by linarith
    have top: "\<forall>y\<in>fl_bytes (pl_free s). y < UINT64_MAX"
    proof
      fix y assume "y \<in> fl_bytes (pl_free s)"
      then have "y \<in> table_bytes fst snd (pl_expansions s)" using okp(6) by blast
      then show "y < UINT64_MAX" using okp(4) by (fastforce simp: mem_table_bytes)
    qed
    note sp = pool_take_spec [OF okp(1) fits top t]
    have iff: "rest = 0 \<longleftrightarrow> bytes \<le> PooledMemory_Available s" using sp av by auto
    show ?thesis
    proof (cases "rest = 0")
      case rest: False
      then have "r = None" "s' = s" using r False t by (auto simp: PooledMemory_Allocate_def)
      then show ?thesis using ok iff rest by simp
    next
      case rest: True
      have eq: "r = Some ms" "s' = s\<lparr>pl_free := filter (\<lambda>r. snd r \<noteq> 0) fs, pl_mappings := pl_mappings s @ ms\<rparr>"
        using r False t rest by (auto simp: PooledMemory_Allocate_def)
      have va: "va_bytes ms = {vaddr..<vaddr + bytes}" using sp rest by simp
      have sub: "pa_bytes ms \<subseteq> fl_bytes (pl_free s)" "maps_ok ms" "fl_bytes (filter (\<lambda>r. snd r \<noteq> 0) fs) = fl_bytes (pl_free s) - pa_bytes ms"
        "fl_ok (filter (\<lambda>r. snd r \<noteq> 0) fs)" using sp by blast+
      have mok: "maps_ok (pl_mappings s @ ms)" unfolding maps_ok_simps using okp(2,5) sub(1,2) va fresh by blast
      have "pool_ok s'" unfolding pool_ok_def eq(2)
        using mok sub okp(3,4,5,6) by (simp del: maps_ok_simps) blast
      moreover have "\<exists>y\<in>fl_bytes (pl_free s). pool_at (pl_mappings s') x = Some (y, gpu_mode)" if "x \<in> {vaddr..<vaddr + bytes}" for x
      proof -
        have "pool_at (pl_mappings s) x = None" using that fresh pool_at_None by blast
        moreover have "\<exists>y\<in>fl_bytes (pl_free s). pool_at ms x = Some (y, gpu_mode)" using sp that va by blast
        ultimately show ?thesis by (auto simp: eq pool_at_append)
      qed
      ultimately show ?thesis using False fits iff rest eq va sub(3) by simp
    qed
  qed
qed

section \<open>Querying and decommitting\<close>

lemma find_mem: "find P xs = Some x \<Longrightarrow> x \<in> set xs \<and> P x"
  by (induction xs) (auto split: if_splits)

lemma pool_user_Some_iff:
  "maps_ok ms \<Longrightarrow> pool_user ms y = Some u \<longleftrightarrow> (\<exists>m\<in>set ms. y \<in> iv pl_phys_addr pl_size m \<and> u = pl_vaddr m + (y - pl_phys_addr m))"
  unfolding pool_user_def by (rule view_Some_iff) (simp add: maps_ok_def)

lemma pool_query_spec:
  assumes "maps_ok ms" and "current \<le> e" and "e \<le> UINT64_MAX"
  shows "case pool_query ms e current of
      None \<Rightarrow> \<not> {current..<e} \<subseteq> va_bytes ms
    | Some ps \<Rightarrow> {current..<e} \<subseteq> va_bytes ms \<and> maps_ok ps \<and> va_bytes ps = {current..<e} \<and>
        (\<forall>x\<in>{current..<e}. pool_at ps x = pool_at ms x) \<and>
        (\<forall>y u. pool_user ps y = Some u \<longleftrightarrow> pool_user ms y = Some u \<and> current \<le> u \<and> u < e)"
  using assms
proof (induction ms e current rule: pool_query.induct)
  case (1 ms e current)
  show ?case
  proof (cases "current < e")
    case False
    then have "pool_query ms e current = Some []" by (simp add: pool_query.simps)
    then show ?thesis using False by auto
  next
    case lt: True
    let ?P = "\<lambda>m. current \<ge> pl_vaddr m \<and> current < pl_vaddr m + pl_size m"
    show ?thesis
    proof (cases "find ?P ms")
      case None
      then have "\<forall>m\<in>set ms. current \<notin> iv pl_vaddr pl_size m" by (simp add: find_None_iff)
      then have "current \<notin> va_bytes ms" by (simp add: mem_table_bytes del: mem_iv)
      moreover have "pool_query ms e current = None" using lt None by (subst pool_query.simps) simp
      ultimately show ?thesis using lt by auto
    next
      case (Some it)
      have it: "it \<in> set ms" "pl_vaddr it \<le> current" "current < pl_vaddr it + pl_size it" using find_mem [OF Some] by blast+
      define part where "part = min e (pl_vaddr it + pl_size it) - current"
      let ?m = "\<lparr>pl_vaddr = current, pl_size = part, pl_phys_addr = pl_phys_addr it + (current - pl_vaddr it), pl_gpu_mode = pl_gpu_mode it\<rparr>"
      have p: "0 < part" "current + part \<le> e" "current + part \<le> pl_vaddr it + pl_size it" using it lt by (auto simp: part_def)
      have q: "pool_query ms e current = map_option ((#) ?m) (pool_query ms e (current + part))"
        using lt Some by (subst pool_query.simps) (simp add: part_def Let_def)
      have t: "table_ok pl_vaddr pl_size ms" "table_ok pl_phys_addr pl_size ms" "\<forall>m\<in>set ms. pmap_ok m"
        using "1.prems"(1) by (simp_all add: maps_ok_def)
      have ivs: "{current..<current + part} \<subseteq> va_bytes ms" using it p by (auto simp: mem_table_bytes intro!: bexI [of _ it])
      have split: "{current..<e} = {current..<current + part} \<union> {current + part..<e}" using p by auto
      have ih: "case pool_query ms e (current + part) of
          None \<Rightarrow> \<not> {current + part..<e} \<subseteq> va_bytes ms
        | Some ps \<Rightarrow> {current + part..<e} \<subseteq> va_bytes ms \<and> maps_ok ps \<and> va_bytes ps = {current + part..<e} \<and>
            (\<forall>x\<in>{current + part..<e}. pool_at ps x = pool_at ms x) \<and>
            (\<forall>y u. pool_user ps y = Some u \<longleftrightarrow> pool_user ms y = Some u \<and> current + part \<le> u \<and> u < e)"
        using "1.IH" [OF lt Some part_def] "1.prems" p(2) by blast
      show ?thesis
      proof (cases "pool_query ms e (current + part)")
        case n: None
        have "\<not> {current + part..<e} \<subseteq> va_bytes ms" using ih n by simp
        then have "\<not> {current..<e} \<subseteq> va_bytes ms" unfolding split by blast
        then show ?thesis using q n by simp
      next
        case s: (Some ps)
        have ps: "{current + part..<e} \<subseteq> va_bytes ms" "maps_ok ps" "va_bytes ps = {current + part..<e}"
          "\<forall>x\<in>{current + part..<e}. pool_at ps x = pool_at ms x"
          "\<And>y u. pool_user ps y = Some u \<longleftrightarrow> pool_user ms y = Some u \<and> current + part \<le> u \<and> u < e"
          using ih unfolding s option.case by blast+
        have inside: "y \<in> iv pl_phys_addr pl_size ?m \<Longrightarrow> pool_user ms y = Some (current + (y - pl_phys_addr ?m)) \<and>
            current + (y - pl_phys_addr ?m) < current + part" for y
          unfolding pool_user_Some_iff [OF "1.prems"(1)] using it p by (auto intro!: bexI [of _ it])
        have outside: "y \<in> iv pl_phys_addr pl_size ?m \<and> u = current + (y - pl_phys_addr ?m)"
          if y: "pool_user ms y = Some u" "current \<le> u" "u < current + part" for y u
        proof -
          obtain m where m: "m \<in> set ms" "y \<in> iv pl_phys_addr pl_size m" "u = pl_vaddr m + (y - pl_phys_addr m)"
            using y(1) unfolding pool_user_Some_iff [OF "1.prems"(1)] by blast
          have "u \<in> iv pl_vaddr pl_size m" "u \<in> iv pl_vaddr pl_size it" using m y it p by auto
          then have "m = it" using table_ok_unique [OF t(1) m(1) it(1)] by blast
          then show ?thesis using m y it p by auto
        qed
        have us: "pool_user (?m # ps) y = Some u \<longleftrightarrow> pool_user ms y = Some u \<and> current \<le> u \<and> u < e" for y u
        proof (cases "y \<in> iv pl_phys_addr pl_size ?m")
          case True
          then have "pool_user (?m # ps) y = Some (current + (y - pl_phys_addr ?m))" by simp
          then show ?thesis using inside [OF True] p(2) by auto
        next
          case False
          then have "pool_user (?m # ps) y = pool_user ps y" by (simp only: pool_user_simps mem_iv if_False)
          moreover have "\<not> (pool_user ms y = Some u \<and> current \<le> u \<and> u < current + part)" using outside False by blast
          ultimately show ?thesis using ps(5) by auto
        qed
        have pm: "pmap_ok ?m" using it p t(3) by (auto simp: pmap_ok_def)
        have "iv pl_vaddr pl_size ?m \<inter> va_bytes ps = {}" unfolding ps(3) by (auto simp: iv_def)
        moreover have "iv pl_phys_addr pl_size ?m \<inter> pa_bytes ps = {}"
        proof -
          have "pool_user ps y = None" if "y \<in> iv pl_phys_addr pl_size ?m" for y
          proof (cases "pool_user ps y")
            case (Some u)
            then have u: "pool_user ms y = Some u" "current + part \<le> u" using ps(5) [THEN iffD1] by blast+
            show ?thesis using inside [OF that] u by (simp only: option.inject) linarith
          qed
          then show ?thesis using pool_user_None by blast
        qed
        ultimately have mok: "maps_ok (?m # ps)" using pm ps(2) by simp
        have va: "va_bytes (?m # ps) = {current..<e}" unfolding split table_bytes_simps ps(3) by (simp add: iv_def)
        have at: "pool_at (?m # ps) x = pool_at ms x" if x: "x \<in> {current..<e}" for x
        proof (cases "x < current + part")
          case True
          have "pool_at ms x = Some (pl_phys_addr it + (x - pl_vaddr it), pl_gpu_mode it)"
            unfolding pool_at_def using x True it p by (subst view_mem [OF t(1) it(1)]) auto
          then show ?thesis using True x it by simp
        next
          case False
          then show ?thesis using x ps(4) by simp
        qed
        show ?thesis unfolding q s option.map option.case
          using mok va at us ivs ps(1) unfolding split by blast
      qed
    qed
  qed
qed

lemma release_one:
  assumes m: "pmap_ok m"
  shows "p \<in> set (release_pieces vaddr bytes m) \<Longrightarrow> pmap_ok p"
    and "table_ok pl_vaddr pl_size (release_pieces vaddr bytes m)"
    and "table_ok pl_phys_addr pl_size (release_pieces vaddr bytes m)"
    and "view pl_vaddr pl_size (\<lambda>m x. (pl_phys_addr m + (x - pl_vaddr m), pl_gpu_mode m)) (release_pieces vaddr bytes m) x =
      (if x \<in> iv pl_vaddr pl_size m then if vaddr \<le> x \<and> x < vaddr + bytes then None else Some (pl_phys_addr m + (x - pl_vaddr m), pl_gpu_mode m) else None)"
    and "view pl_phys_addr pl_size (\<lambda>m y. pl_vaddr m + (y - pl_phys_addr m)) (release_pieces vaddr bytes m) y =
      (if y \<in> iv pl_phys_addr pl_size m
       then if vaddr \<le> pl_vaddr m + (y - pl_phys_addr m) \<and> pl_vaddr m + (y - pl_phys_addr m) < vaddr + bytes then None
         else Some (pl_vaddr m + (y - pl_phys_addr m)) else None)"
proof -
  define lo where "lo = max vaddr (pl_vaddr m)"
  define hi where "hi = min (vaddr + bytes) (pl_vaddr m + pl_size m)"
  have eq: "release_pieces vaddr bytes m = (if lo \<ge> hi then [m]
      else (if pl_vaddr m < lo then [m\<lparr>pl_size := lo - pl_vaddr m\<rparr>] else []) @
        (if hi < pl_vaddr m + pl_size m
         then [m\<lparr>pl_vaddr := hi, pl_size := pl_vaddr m + pl_size m - hi, pl_phys_addr := pl_phys_addr m + (hi - pl_vaddr m)\<rparr>] else []))"
    unfolding release_pieces_def Let_def lo_def hi_def by (rule refl)
  have b: "pl_vaddr m \<le> lo" "hi \<le> pl_vaddr m + pl_size m" by (simp_all add: lo_def hi_def)
  have sp: "pl_vaddr m \<le> x \<Longrightarrow> x < pl_vaddr m + pl_size m \<Longrightarrow> vaddr \<le> x \<and> x < vaddr + bytes \<longleftrightarrow> lo \<le> x \<and> x < hi" for x
    by (auto simp: lo_def hi_def)
  show "p \<in> set (release_pieces vaddr bytes m) \<Longrightarrow> pmap_ok p"
    unfolding eq using m b by (auto simp: pmap_ok_def split: if_splits)
  show "table_ok pl_vaddr pl_size (release_pieces vaddr bytes m)" unfolding eq using b by (auto simp: iv_def)
  show "table_ok pl_phys_addr pl_size (release_pieces vaddr bytes m)" unfolding eq using b by (auto simp: iv_def)
  show "view pl_vaddr pl_size (\<lambda>m x. (pl_phys_addr m + (x - pl_vaddr m), pl_gpu_mode m)) (release_pieces vaddr bytes m) x =
      (if x \<in> iv pl_vaddr pl_size m then if vaddr \<le> x \<and> x < vaddr + bytes then None else Some (pl_phys_addr m + (x - pl_vaddr m), pl_gpu_mode m) else None)"
  proof (cases "x \<in> iv pl_vaddr pl_size m")
    case True
    then have s: "vaddr \<le> x \<and> x < vaddr + bytes \<longleftrightarrow> lo \<le> x \<and> x < hi" using sp by simp
    show ?thesis unfolding eq s using b True by auto
  next
    case False
    then show ?thesis unfolding eq using b by auto
  qed
  let ?u = "pl_vaddr m + (y - pl_phys_addr m)"
  show "view pl_phys_addr pl_size (\<lambda>m y. pl_vaddr m + (y - pl_phys_addr m)) (release_pieces vaddr bytes m) y =
      (if y \<in> iv pl_phys_addr pl_size m then if vaddr \<le> ?u \<and> ?u < vaddr + bytes then None else Some ?u else None)"
  proof (cases "y \<in> iv pl_phys_addr pl_size m")
    case True
    then have s: "vaddr \<le> ?u \<and> ?u < vaddr + bytes \<longleftrightarrow> lo \<le> ?u \<and> ?u < hi" using sp [of ?u] by auto
    show ?thesis unfolding eq s using b True by auto
  next
    case False
    then show ?thesis unfolding eq using b by auto
  qed
qed

interpretation pool_release_v: piece_edit pl_vaddr pl_size "\<lambda>m x. (pl_phys_addr m + (x - pl_vaddr m), pl_gpu_mode m)" pmap_ok
  "release_pieces vaddr bytes" "\<lambda>x i. if vaddr \<le> x \<and> x < vaddr + bytes then None else Some i" for vaddr bytes
  by unfold_locales (use release_one(2) in blast, use release_one(1) in blast, simp only: release_one(4))

interpretation pool_release_p: piece_edit pl_phys_addr pl_size "\<lambda>m y. pl_vaddr m + (y - pl_phys_addr m)" pmap_ok
  "release_pieces vaddr bytes" "\<lambda>y u. if vaddr \<le> u \<and> u < vaddr + bytes then None else Some u" for vaddr bytes
  by unfold_locales (use release_one(3) in blast, use release_one(1) in blast, simp only: release_one(5))

lemma fold_AddFree:
  "fl_ok m \<Longrightarrow> \<forall>p\<in>set ps. 0 < pl_size p \<Longrightarrow>
   fl_ok (fold (\<lambda>p. AddFreeUnlocked (pl_phys_addr p) (pl_size p)) ps m) \<and>
   fl_bytes (fold (\<lambda>p. AddFreeUnlocked (pl_phys_addr p) (pl_size p)) ps m) = fl_bytes m \<union> pa_bytes ps"
proof (induction ps arbitrary: m)
  case (Cons p ps)
  note a = AddFreeUnlocked_spec [OF Cons.prems(1), of "pl_size p" "pl_phys_addr p"]
  show ?case using Cons.IH [of "AddFreeUnlocked (pl_phys_addr p) (pl_size p) m"] a Cons.prems(2) by (simp add: iv_def [symmetric] Un_assoc)
qed simp

lemma PooledMemory_Query_spec:
  assumes ok: "pool_ok s"
  shows "case PooledMemory_Query vaddr bytes s of
      None \<Rightarrow> \<not> (vaddr \<noteq> 0 \<and> 0 < bytes \<and> vaddr + bytes \<le> UINT64_MAX \<and> {vaddr..<vaddr + bytes} \<subseteq> va_bytes (pl_mappings s))
    | Some ps \<Rightarrow> vaddr \<noteq> 0 \<and> 0 < bytes \<and> vaddr + bytes \<le> UINT64_MAX \<and> {vaddr..<vaddr + bytes} \<subseteq> va_bytes (pl_mappings s) \<and>
        maps_ok ps \<and> va_bytes ps = {vaddr..<vaddr + bytes} \<and>
        (\<forall>x\<in>{vaddr..<vaddr + bytes}. pool_at ps x = pool_at (pl_mappings s) x) \<and>
        (\<forall>y u. pool_user ps y = Some u \<longleftrightarrow> pool_user (pl_mappings s) y = Some u \<and> vaddr \<le> u \<and> u < vaddr + bytes)"
proof (cases "vaddr = 0 \<or> bytes = 0 \<or> UINT64_MAX - vaddr < bytes")
  case True
  then have "PooledMemory_Query vaddr bytes s = None" unfolding PooledMemory_Query_def by (simp only: if_True)
  moreover have "\<not> (vaddr \<noteq> 0 \<and> 0 < bytes \<and> vaddr + bytes \<le> UINT64_MAX)" using True by linarith
  ultimately show ?thesis by auto
next
  case False
  have m: "maps_ok (pl_mappings s)" using ok by (simp add: pool_ok_def)
  have fits: "vaddr \<le> vaddr + bytes" "vaddr + bytes \<le> UINT64_MAX" "vaddr \<noteq> 0" "0 < bytes" using False by linarith+
  have q: "PooledMemory_Query vaddr bytes s = pool_query (pl_mappings s) (vaddr + bytes) vaddr"
    unfolding PooledMemory_Query_def using False by (simp only: if_False)
  show ?thesis
  proof (cases "pool_query (pl_mappings s) (vaddr + bytes) vaddr")
    case None
    show ?thesis using pool_query_spec [OF m fits(1,2)] fits unfolding q None option.case by blast
  next
    case (Some ps)
    show ?thesis using pool_query_spec [OF m fits(1,2)] fits unfolding q Some option.case by blast
  qed
qed

lemma PooledMemory_Release_spec:
  assumes ok: "pool_ok s" and r: "PooledMemory_Release vaddr bytes s = (r, s')"
  shows "pool_ok s' \<and>
    (r \<noteq> None \<longleftrightarrow> vaddr \<noteq> 0 \<and> 0 < bytes \<and> vaddr + bytes \<le> UINT64_MAX \<and> {vaddr..<vaddr + bytes} \<subseteq> va_bytes (pl_mappings s)) \<and>
    (case r of None \<Rightarrow> s' = s
     | Some g \<Rightarrow> map_option snd (pool_at (pl_mappings s) vaddr) = Some g \<and>
         (\<forall>x. pool_at (pl_mappings s') x = (if vaddr \<le> x \<and> x < vaddr + bytes then None else pool_at (pl_mappings s) x)) \<and>
         fl_bytes (pl_free s') = fl_bytes (pl_free s) \<union>
           {y. \<exists>u. pool_user (pl_mappings s) y = Some u \<and> vaddr \<le> u \<and> u < vaddr + bytes} \<and>
         pl_expansions s' = pl_expansions s)"
proof (cases "PooledMemory_Query vaddr bytes s")
  case None
  then have "r = None" "s' = s" using r by (simp_all add: PooledMemory_Release_def)
  then show ?thesis using ok PooledMemory_Query_spec [OF ok, of vaddr bytes] None by simp
next
  case (Some ps)
  let ?ms = "pl_mappings s" and ?cs = "concat (map (release_pieces vaddr bytes) (pl_mappings s))"
  have okp: "fl_ok (pl_free s)" "maps_ok ?ms" "table_ok fst snd (pl_expansions s)"
    "\<forall>e\<in>set (pl_expansions s). 0 < snd e \<and> fst e + snd e \<le> UINT64_MAX" "fl_bytes (pl_free s) \<inter> pa_bytes ?ms = {}"
    "fl_bytes (pl_free s) \<union> pa_bytes ?ms = table_bytes fst snd (pl_expansions s)" using ok by (simp_all add: pool_ok_def)
  have t: "table_ok pl_vaddr pl_size ?ms" "table_ok pl_phys_addr pl_size ?ms" "\<forall>m\<in>set ?ms. pmap_ok m" using okp(2) by (simp_all add: maps_ok_def)
  have q: "vaddr \<noteq> 0" "0 < bytes" "vaddr + bytes \<le> UINT64_MAX" "{vaddr..<vaddr + bytes} \<subseteq> va_bytes ?ms" "maps_ok ps"
    "va_bytes ps = {vaddr..<vaddr + bytes}" "\<forall>x\<in>{vaddr..<vaddr + bytes}. pool_at ps x = pool_at ?ms x"
    "\<And>y u. pool_user ps y = Some u \<longleftrightarrow> pool_user ?ms y = Some u \<and> vaddr \<le> u \<and> u < vaddr + bytes"
    using PooledMemory_Query_spec [OF ok, of vaddr bytes] unfolding Some option.case by blast+
  have eq: "r = Some (pl_gpu_mode (hd ps))" "s' = s\<lparr>pl_mappings := ?cs,
      pl_free := fold (\<lambda>m. AddFreeUnlocked (pl_phys_addr m) (pl_size m)) ps (pl_free s)\<rparr>"
    using r Some by (auto simp: PooledMemory_Release_def)
  have at: "pool_at ?cs x = (if vaddr \<le> x \<and> x < vaddr + bytes then None else pool_at ?ms x)" for x
    unfolding pool_at_def pool_release_v.edit_all(3) [OF t(1,3)] by (cases "pool_at ?ms x") (simp_all add: pool_at_def)
  have us: "pool_user ?cs y = Some u \<longleftrightarrow> pool_user ?ms y = Some u \<and> \<not> (vaddr \<le> u \<and> u < vaddr + bytes)" for y u
    unfolding pool_user_def pool_release_p.edit_all(3) [OF t(2,3)]
    by (cases "view pl_phys_addr pl_size (\<lambda>m y. pl_vaddr m + (y - pl_phys_addr m)) ?ms y") auto
  have pa: "y \<in> pa_bytes zs \<longleftrightarrow> (\<exists>u. pool_user zs y = Some u)" for y zs using pool_user_None [of zs y] by auto
  have rel: "pa_bytes ps = {y. \<exists>u. pool_user ?ms y = Some u \<and> vaddr \<le> u \<and> u < vaddr + bytes}" by (auto simp: pa q(8))
  have un: "pa_bytes ?ms = pa_bytes ps \<union> pa_bytes ?cs" by (rule set_eqI) (simp only: pa q(8) us Un_iff, blast)
  have di: "pa_bytes ps \<inter> pa_bytes ?cs = {}"
  proof -
    have "\<not> (y \<in> pa_bytes ps \<and> y \<in> pa_bytes ?cs)" for y
      unfolding pa q(8) us by (metis option.inject)
    then show ?thesis by blast
  qed
  have mok: "maps_ok ?cs" using pool_release_v.edit_all(1,2) [OF t(1,3)] pool_release_p.edit_all(1) [OF t(2,3)] by (simp add: maps_ok_def)
  have pos: "\<forall>p\<in>set ps. 0 < pl_size p" using q(5) by (simp add: maps_ok_def pmap_ok_def)
  note fold = fold_AddFree [OF okp(1) pos]
  have "pool_ok s'"
    unfolding pool_ok_def eq(2) using fold mok okp un di by (simp del: maps_ok_simps) blast
  moreover have "map_option snd (pool_at ?ms vaddr) = Some (pl_gpu_mode (hd ps))"
  proof -
    have v: "vaddr \<in> {vaddr..<vaddr + bytes}" using q(2) by simp
    have h: "pool_query ?ms (vaddr + bytes) vaddr = Some ps"
      using Some q(1-3) unfolding PooledMemory_Query_def by (simp split: if_splits)
    from h have "ps \<noteq> [] \<and> pl_vaddr (hd ps) = vaddr \<and> 0 < pl_size (hd ps)" using q(2) pos
      by (subst (asm) pool_query.simps) (auto simp: Let_def split: option.splits)
    then have "pool_at ps vaddr = Some (pl_phys_addr (hd ps), pl_gpu_mode (hd ps))" by (cases ps) auto
    moreover have "pool_at ps vaddr = pool_at ?ms vaddr" using q(7) v by (rule bspec)
    ultimately have "pool_at ?ms vaddr = Some (pl_phys_addr (hd ps), pl_gpu_mode (hd ps))" by simp
    then show ?thesis by simp
  qed
  ultimately show ?thesis using q(1-4) at fold rel eq by simp
qed

lemma PooledMemory_Expand_spec:
  assumes ok: "pool_ok s" and n: "0 < bytes" "phys_addr + bytes \<le> UINT64_MAX"
    and fresh: "{phys_addr..<phys_addr + bytes} \<inter> table_bytes fst snd (pl_expansions s) = {}"
  shows "pool_ok (PooledMemory_Expand phys_addr bytes s)"
    and "fl_bytes (pl_free (PooledMemory_Expand phys_addr bytes s)) = fl_bytes (pl_free s) \<union> {phys_addr..<phys_addr + bytes}"
proof -
  have okp: "fl_ok (pl_free s)" "maps_ok (pl_mappings s)" "table_ok fst snd (pl_expansions s)"
    "\<forall>e\<in>set (pl_expansions s). 0 < snd e \<and> fst e + snd e \<le> UINT64_MAX" "fl_bytes (pl_free s) \<inter> pa_bytes (pl_mappings s) = {}"
    "fl_bytes (pl_free s) \<union> pa_bytes (pl_mappings s) = table_bytes fst snd (pl_expansions s)" using ok by (simp_all add: pool_ok_def)
  note a = AddFreeUnlocked_spec [OF okp(1) n(1), of phys_addr]
  have i: "iv fst snd (phys_addr, bytes) = {phys_addr..<phys_addr + bytes}" by (simp add: iv_def)
  have t: "table_ok fst snd (pl_expansions s @ [(phys_addr, bytes)])" using okp(3) fresh by (simp add: i) blast
  have b: "table_bytes fst snd (pl_expansions s @ [(phys_addr, bytes)]) = table_bytes fst snd (pl_expansions s) \<union> {phys_addr..<phys_addr + bytes}"
    by (simp add: i)
  have e: "\<forall>e\<in>set (pl_expansions s @ [(phys_addr, bytes)]). 0 < snd e \<and> fst e + snd e \<le> UINT64_MAX" using okp(4) n by auto
  have d: "(fl_bytes (pl_free s) \<union> {phys_addr..<phys_addr + bytes}) \<inter> pa_bytes (pl_mappings s) = {}"
    "fl_bytes (pl_free s) \<union> {phys_addr..<phys_addr + bytes} \<union> pa_bytes (pl_mappings s) =
      table_bytes fst snd (pl_expansions s) \<union> {phys_addr..<phys_addr + bytes}" using okp(5,6) fresh by blast+
  have sel: "pl_free (PooledMemory_Expand phys_addr bytes s) = AddFreeUnlocked phys_addr bytes (pl_free s)"
    "pl_mappings (PooledMemory_Expand phys_addr bytes s) = pl_mappings s"
    "pl_expansions (PooledMemory_Expand phys_addr bytes s) = pl_expansions s @ [(phys_addr, bytes)]"
    by (simp_all add: PooledMemory_Expand_def)
  show "pool_ok (PooledMemory_Expand phys_addr bytes s)"
    unfolding pool_ok_def sel a(2) b by (intro conjI a(1) okp(2) t e d)
  show "fl_bytes (pl_free (PooledMemory_Expand phys_addr bytes s)) = fl_bytes (pl_free s) \<union> {phys_addr..<phys_addr + bytes}"
    by (simp add: PooledMemory_Expand_def a(2))
qed

lemma table_remove1:
  "table_ok st sz l \<Longrightarrow> e \<in> set l \<Longrightarrow>
   table_ok st sz (remove1 e l) \<and> table_bytes st sz (remove1 e l) = table_bytes st sz l - iv st sz e"
proof (induction l)
  case (Cons a l)
  show ?case
  proof (cases "e = a")
    case True
    have "iv st sz a \<inter> table_bytes st sz l = {}" "table_ok st sz l" using Cons.prems(1) by simp_all
    then show ?thesis using True by auto
  next
    case False
    then have e: "e \<in> set l" using Cons.prems(2) by simp
    have t: "iv st sz a \<inter> table_bytes st sz l = {}" "table_ok st sz l" using Cons.prems(1) by simp_all
    have ih: "table_ok st sz (remove1 e l)" "table_bytes st sz (remove1 e l) = table_bytes st sz l - iv st sz e" using Cons.IH [OF t(2) e] by blast+
    have "iv st sz e \<subseteq> table_bytes st sz l" using e by (auto simp: table_bytes_def)
    then have "iv st sz a \<inter> iv st sz e = {}" using t(1) by blast
    then have "iv st sz a \<union> (table_bytes st sz l - iv st sz e) = iv st sz a \<union> table_bytes st sz l - iv st sz e" by blast
    moreover have "iv st sz a \<inter> (table_bytes st sz l - iv st sz e) = {}" using t(1) by blast
    ultimately show ?thesis using False ih by (simp del: mem_iv)
  qed
qed simp

lemma PooledMemory_ReleaseExpansion_spec:
  assumes ok: "pool_ok s" and r: "PooledMemory_ReleaseExpansion phys_addr bytes s = (r, s')"
  shows "pool_ok s' \<and>
    (r \<longleftrightarrow> (phys_addr, bytes) \<in> set (pl_expansions s) \<and> {phys_addr..<phys_addr + bytes} \<inter> pa_bytes (pl_mappings s) = {}) \<and>
    (\<not> r \<longrightarrow> s' = s) \<and>
    (r \<longrightarrow> fl_bytes (pl_free s') = fl_bytes (pl_free s) - {phys_addr..<phys_addr + bytes} \<and> pl_mappings s' = pl_mappings s \<and>
      table_bytes fst snd (pl_expansions s') = table_bytes fst snd (pl_expansions s) - {phys_addr..<phys_addr + bytes})"
proof -
  let ?iv = "{phys_addr..<phys_addr + bytes}"
  have okp: "fl_ok (pl_free s)" "maps_ok (pl_mappings s)" "table_ok fst snd (pl_expansions s)"
    "\<forall>e\<in>set (pl_expansions s). 0 < snd e \<and> fst e + snd e \<le> UINT64_MAX" "fl_bytes (pl_free s) \<inter> pa_bytes (pl_mappings s) = {}"
    "fl_bytes (pl_free s) \<union> pa_bytes (pl_mappings s) = table_bytes fst snd (pl_expansions s)" using ok by (simp_all add: pool_ok_def)
  have mem: "list_ex (\<lambda>r. fst r = phys_addr \<and> snd r = bytes) (pl_expansions s) \<longleftrightarrow> (phys_addr, bytes) \<in> set (pl_expansions s)"
    by (force simp: list_ex_iff)
  show ?thesis
  proof (cases "(phys_addr, bytes) \<in> set (pl_expansions s)")
    case False
    then have "r = False" "s' = s" using r mem by (simp_all add: PooledMemory_ReleaseExpansion_def)
    then show ?thesis using ok False by simp
  next
    case e: True
    have n: "0 < bytes" "phys_addr + bytes \<le> UINT64_MAX" using okp(4) e by auto
    have ov: "list_ex (\<lambda>m. VirtualRangesOverlap phys_addr bytes (pl_phys_addr m) (pl_size m)) (pl_mappings s) \<longleftrightarrow>
        ?iv \<inter> pa_bytes (pl_mappings s) \<noteq> {}"
    proof -
      have "VirtualRangesOverlap phys_addr bytes (pl_phys_addr m) (pl_size m) \<longleftrightarrow> ?iv \<inter> iv pl_phys_addr pl_size m \<noteq> {}"
        if "m \<in> set (pl_mappings s)" for m
      proof -
        have m: "0 < pl_size m" "pl_phys_addr m + pl_size m \<le> UINT64_MAX" using okp(2) that by (auto simp: maps_ok_def pmap_ok_def)
        show ?thesis unfolding overlap_fits [OF n(1) m] iv_def using n(1) m(1)
          by (auto simp: Int_atLeastLessThan max_def min_def split: if_splits)
      qed
      then show ?thesis by (auto simp: list_ex_iff table_bytes_def simp del: mem_iv)
    qed
    show ?thesis
    proof (cases "?iv \<inter> pa_bytes (pl_mappings s) = {}")
      case False
      then have "r = False" "s' = s" using r mem e ov by (simp_all add: PooledMemory_ReleaseExpansion_def)
      then show ?thesis using ok False by simp
    next
      case free: True
      have inE: "?iv \<subseteq> table_bytes fst snd (pl_expansions s)" using e by (auto simp: mem_table_bytes intro!: bexI [of _ "(phys_addr, bytes)"])
      have sub: "?iv \<subseteq> fl_bytes (pl_free s)" using inE okp(6) free by blast
      obtain f where f: "f \<in> set (pl_free s)" "fst f \<le> phys_addr" "phys_addr + bytes \<le> fst f + snd f"
        using fl_span_in_one [OF okp(1) n(1) sub] by blast
      let ?P = "\<lambda>r. phys_addr \<ge> fst r \<and> phys_addr + bytes \<le> fst r + snd r"
      obtain old where old: "find ?P (pl_free s) = Some old" using f by (cases "find ?P (pl_free s)") (auto simp: find_None_iff)
      have o: "old \<in> set (pl_free s)" "fst old \<le> phys_addr" "phys_addr + bytes \<le> fst old + snd old" using find_mem [OF old] by blast+
      note c = cut_free_range [OF okp(1) o n(1)]
      let ?E = "remove1 (phys_addr, bytes) (pl_expansions s)"
      have eq: "r = True" "s' = s\<lparr>pl_free := sort_key fst (remove1 old (pl_free s) @ (if phys_addr - fst old \<noteq> 0 then [(fst old, phys_addr - fst old)] else []) @
          (if fst old + snd old - (phys_addr + bytes) \<noteq> 0 then [(phys_addr + bytes, fst old + snd old - (phys_addr + bytes))] else [])),
          pl_expansions := ?E\<rparr>" (is "_ = ?t")
      proof -
        have "\<not> list_ex (\<lambda>m. VirtualRangesOverlap phys_addr bytes (pl_phys_addr m) (pl_size m)) (pl_mappings s)" using ov free by blast
        moreover have "list_ex (\<lambda>r. fst r = phys_addr \<and> snd r = bytes) (pl_expansions s)" using mem e by blast
        ultimately have "PooledMemory_ReleaseExpansion phys_addr bytes s = (True, ?t)"
          unfolding PooledMemory_ReleaseExpansion_def old option.case Let_def by (simp only: if_False if_True simp_thms)
        then show "r = True" "s' = ?t" using r by simp_all
      qed
      have i: "iv fst snd (phys_addr, bytes) = ?iv" by (simp add: iv_def)
      have tE: "table_ok fst snd ?E" "table_bytes fst snd ?E = table_bytes fst snd (pl_expansions s) - ?iv"
        using table_remove1 [OF okp(3) e] unfolding i by blast+
      have bE: "\<forall>e\<in>set ?E. 0 < snd e \<and> fst e + snd e \<le> UINT64_MAX" using okp(4) by (meson notin_set_remove1)
      have sel: "pl_mappings s' = pl_mappings s" "pl_expansions s' = ?E" unfolding eq(2) by simp_all
      have fr: "fl_ok (pl_free s')" "fl_bytes (pl_free s') = fl_bytes (pl_free s) - ?iv" unfolding eq(2) using c by simp_all
      have d: "(fl_bytes (pl_free s) - ?iv) \<inter> pa_bytes (pl_mappings s) = {}"
        "(fl_bytes (pl_free s) - ?iv) \<union> pa_bytes (pl_mappings s) = table_bytes fst snd (pl_expansions s) - ?iv"
        unfolding okp(6) [symmetric] using okp(5) free by blast+
      have "pool_ok s'" unfolding pool_ok_def sel fr(2) tE(2) by (intro conjI fr(1) okp(2) tE(1) bE d)
      then show ?thesis using eq(1) e free fr(2) sel tE(2) by simp
    qed
  qed
qed

section \<open>Histories\<close>

text \<open>
  The states of a pool under any sequence of its operations. An expansion is a range \<open>PhysicalMemory\<close>
  just allocated, so disjoint from the earlier ones; a span is committed at addresses the pool has
  not mapped (the caller checks them against the reserved range).
\<close>

inductive pool_reachable :: "pooled_memory \<Rightarrow> bool" where
  pool_new: "pool_reachable new_pooled_memory"
| pool_expand: "pool_reachable s \<Longrightarrow> 0 < bytes \<Longrightarrow> phys_addr + bytes \<le> UINT64_MAX \<Longrightarrow>
    {phys_addr..<phys_addr + bytes} \<inter> table_bytes fst snd (pl_expansions s) = {} \<Longrightarrow> pool_reachable (PooledMemory_Expand phys_addr bytes s)"
| pool_shrink: "pool_reachable s \<Longrightarrow> pool_reachable (snd (PooledMemory_ReleaseExpansion phys_addr bytes s))"
| pool_commit: "pool_reachable s \<Longrightarrow> {vaddr..<vaddr + bytes} \<inter> va_bytes (pl_mappings s) = {} \<Longrightarrow>
    pool_reachable (snd (PooledMemory_Allocate vaddr bytes gpu_mode s))"
| pool_decommit: "pool_reachable s \<Longrightarrow> pool_reachable (snd (PooledMemory_Release vaddr bytes s))"

lemma pool_reachable_ok: "pool_reachable s \<Longrightarrow> pool_ok s"
proof (induction rule: pool_reachable.induct)
  case pool_new
  show ?case by (simp add: pool_ok_def new_pooled_memory_def)
next
  case (pool_expand s bytes phys_addr)
  then show ?case using PooledMemory_Expand_spec(1) by blast
next
  case (pool_shrink s phys_addr bytes)
  then show ?case using PooledMemory_ReleaseExpansion_spec [OF pool_shrink.IH] by (metis prod.collapse)
next
  case (pool_commit s vaddr bytes gpu_mode)
  then show ?case using PooledMemory_Allocate_spec [OF pool_commit.IH pool_commit.hyps(2)] by (metis prod.collapse)
next
  case (pool_decommit s vaddr bytes)
  then show ?case using PooledMemory_Release_spec [OF pool_decommit.IH] by (metis prod.collapse)
qed

section \<open>Properties\<close>

definition pool_demo :: pooled_memory where
  "pool_demo = \<lparr>pl_free = [(16, 2), (40, 8)], pl_expansions = [(40, 8), (16, 2)], pl_mappings = []\<rparr>"

definition pool_demo_committed :: pooled_memory where
  "pool_demo_committed = \<lparr>pl_free = [(43, 5)], pl_expansions = [(40, 8), (16, 2)],
     pl_mappings = [\<lparr>pl_vaddr = 100, pl_size = 2, pl_phys_addr = 16, pl_gpu_mode = GpuReadWrite\<rparr>,
       \<lparr>pl_vaddr = 102, pl_size = 3, pl_phys_addr = 40, pl_gpu_mode = GpuReadWrite\<rparr>]\<rparr>"

lemma pool_demo_steps:
  "PooledMemory_Expand 16 2 (PooledMemory_Expand 40 8 new_pooled_memory) = pool_demo"
  "PooledMemory_Allocate 100 5 GpuReadWrite pool_demo = (Some (pl_mappings pool_demo_committed), pool_demo_committed)"
  by (simp_all add: PooledMemory_Expand_def new_pooled_memory_def AddFreeUnlocked_def merge_ranges_def pool_demo_def
    PooledMemory_Allocate_def pool_demo_committed_def)

lemma pool_demo_reachable: "pool_reachable pool_demo" "pool_reachable pool_demo_committed"
proof -
  have "pool_reachable (PooledMemory_Expand 40 8 new_pooled_memory)"
    by (rule pool_expand [OF pool_new]) (simp_all add: new_pooled_memory_def)
  then have "pool_reachable (PooledMemory_Expand 16 2 (PooledMemory_Expand 40 8 new_pooled_memory))"
    by (rule pool_expand) (auto simp: new_pooled_memory_def PooledMemory_Expand_def)
  then show d: "pool_reachable pool_demo" unfolding pool_demo_steps .
  have "pool_reachable (snd (PooledMemory_Allocate 100 5 GpuReadWrite pool_demo))"
    by (rule pool_commit [OF d]) (simp add: pool_demo_def)
  then show "pool_reachable pool_demo_committed" by (simp add: pool_demo_steps)
qed

text \<open>
  C7: Whatever the order of operations, the free ranges and the committed ranges of the pool split its
  expansions without overlap, the free list is sorted and merged, no address is committed twice and
  \<open>Available\<close> is the number of bytes that can still be committed.
\<close>

theorem pooled_memory_safe:
  assumes "pool_reachable s"
  shows "fl_ok (pl_free s) \<and> table_ok pl_vaddr pl_size (pl_mappings s) \<and> table_ok pl_phys_addr pl_size (pl_mappings s) \<and>
    fl_bytes (pl_free s) \<inter> pa_bytes (pl_mappings s) = {} \<and>
    fl_bytes (pl_free s) \<union> pa_bytes (pl_mappings s) = table_bytes fst snd (pl_expansions s) \<and>
    PooledMemory_Available s = card (fl_bytes (pl_free s))"
  using pool_reachable_ok [OF assms] pool_available_card [of "pl_free s"]
  by (simp add: pool_ok_def maps_ok_def PooledMemory_Available_def)

lemma pooled_memory_safe_witness:
  "pool_reachable pool_demo_committed \<and> PooledMemory_Available pool_demo_committed = card (fl_bytes (pl_free pool_demo_committed))"
  using pool_demo_reachable(2) pooled_memory_safe [OF pool_demo_reachable(2)] by blast

text \<open>
  C37: \<open>Allocate\<close> succeeds exactly when the span is valid and enough bytes are free, however fragmented:
  then every byte of the span is mapped to a free physical byte. \<open>Release\<close> succeeds exactly when every
  byte of the span is committed: then exactly those bytes are unmapped and exactly the physical bytes
  behind them become free. Where one fails the pool is unchanged.
\<close>

theorem pool_commit_decommit_exact:
  assumes "pool_ok s" and "{vaddr..<vaddr + bytes} \<inter> va_bytes (pl_mappings s) = {}"
    and "PooledMemory_Allocate vaddr bytes gpu_mode s = (r, s')" and "PooledMemory_Release v n s = (g, s'')"
  shows "(pool_ok s' \<and>
      (r \<noteq> None \<longleftrightarrow> vaddr \<noteq> 0 \<and> 0 < bytes \<and> vaddr + bytes \<le> UINT64_MAX \<and> bytes \<le> PooledMemory_Available s) \<and>
      (case r of None \<Rightarrow> s' = s
       | Some ms \<Rightarrow> pl_mappings s' = pl_mappings s @ ms \<and> va_bytes ms = {vaddr..<vaddr + bytes} \<and>
           fl_bytes (pl_free s') = fl_bytes (pl_free s) - pa_bytes ms \<and>
           (\<forall>x\<in>{vaddr..<vaddr + bytes}. \<exists>y\<in>fl_bytes (pl_free s). pool_at (pl_mappings s') x = Some (y, gpu_mode)))) \<and>
    (pool_ok s'' \<and>
      (g \<noteq> None \<longleftrightarrow> v \<noteq> 0 \<and> 0 < n \<and> v + n \<le> UINT64_MAX \<and> {v..<v + n} \<subseteq> va_bytes (pl_mappings s)) \<and>
      (case g of None \<Rightarrow> s'' = s
       | Some a \<Rightarrow> map_option snd (pool_at (pl_mappings s) v) = Some a \<and>
           (\<forall>x. pool_at (pl_mappings s'') x = (if v \<le> x \<and> x < v + n then None else pool_at (pl_mappings s) x)) \<and>
           fl_bytes (pl_free s'') = fl_bytes (pl_free s) \<union> {y. \<exists>u. pool_user (pl_mappings s) y = Some u \<and> v \<le> u \<and> u < v + n} \<and>
           pl_expansions s'' = pl_expansions s))"
  by (rule conjI [OF PooledMemory_Allocate_spec [OF assms(1-3)] PooledMemory_Release_spec [OF assms(1,4)]])

lemma pool_commit_decommit_exact_witness:
  "PooledMemory_Available pool_demo_committed = 5 \<and>
   fst (PooledMemory_Allocate 200 6 GpuRead pool_demo_committed) = None \<and>
   fst (PooledMemory_Release 101 2 pool_demo_committed) = Some GpuReadWrite \<and>
   pool_at (pl_mappings (snd (PooledMemory_Release 101 2 pool_demo_committed))) 102 = None"
proof -
  have av: "PooledMemory_Available pool_demo_committed = 5" by (simp add: PooledMemory_Available_def pool_demo_committed_def)
  have d: "{200..<200 + 6} \<inter> va_bytes (pl_mappings pool_demo_committed) = {}" by (auto simp: pool_demo_committed_def)
  have sub: "{101..<101 + 2} \<subseteq> va_bytes (pl_mappings pool_demo_committed)" by (auto simp: pool_demo_committed_def iv_def)
  have at: "map_option snd (pool_at (pl_mappings pool_demo_committed) 101) = Some GpuReadWrite" by (simp add: pool_demo_committed_def)
  obtain r s' where r: "PooledMemory_Allocate 200 6 GpuRead pool_demo_committed = (r, s')" by fastforce
  obtain g s'' where g: "PooledMemory_Release 101 2 pool_demo_committed = (g, s'')" by fastforce
  note t = pool_commit_decommit_exact [OF pool_reachable_ok [OF pool_demo_reachable(2)] d r g]
  have "r = None" using t [THEN conjunct1, THEN conjunct2, THEN conjunct1] av by auto
  moreover obtain a where a: "g = Some a" using t [THEN conjunct2, THEN conjunct2, THEN conjunct1] sub by auto
  moreover have "a = GpuReadWrite" "pool_at (pl_mappings s'') 102 = None"
    using t [THEN conjunct2, THEN conjunct2, THEN conjunct2] at unfolding a option.case by simp_all
  ultimately show ?thesis using av r g by simp
qed

text \<open>
  The pool's free list, kept by sorting and merging a vector, is the same list as the ordered map of
  \<open>PhysicalMemory\<close> and \<open>FlexibleMemory\<close>, whose \<open>AddFreeRange\<close> joins the neighbours in place.
\<close>

theorem pool_free_list_equiv:
  assumes "fl_ok m" and "0 < bytes"
  shows "AddFreeUnlocked start bytes m = AddFreeRange start bytes m"
  by (rule fl_canonical [OF AddFreeUnlocked_spec(1) [OF assms] AddFreeRange_spec(1) [OF assms]])
    (simp only: AddFreeUnlocked_spec(2) [OF assms] AddFreeRange_spec(2) [OF assms])

end
