(* ===== verification/KernelErrors.thy ===== *)
theory KernelErrors
  imports Prelude
begin

text \<open>
  The error numbers of the kernel library (src/src/libs/errno.h) that the modelled synchronisation
  primitives return. A kernel error is the errno minus 2147352576, a negative \<open>int\<close>.
\<close>

definition OK :: int where "OK = 0"

definition KERNEL_ERROR_EPERM :: int where "KERNEL_ERROR_EPERM = -2147352575"
definition KERNEL_ERROR_ENOENT :: int where "KERNEL_ERROR_ENOENT = -2147352574"
definition KERNEL_ERROR_ESRCH :: int where "KERNEL_ERROR_ESRCH = -2147352573"
definition KERNEL_ERROR_EBADF :: int where "KERNEL_ERROR_EBADF = -2147352567"
definition KERNEL_ERROR_EDEADLK :: int where "KERNEL_ERROR_EDEADLK = -2147352565"
definition KERNEL_ERROR_ENOMEM :: int where "KERNEL_ERROR_ENOMEM = -2147352564"
definition KERNEL_ERROR_EACCES :: int where "KERNEL_ERROR_EACCES = -2147352563"
definition KERNEL_ERROR_EFAULT :: int where "KERNEL_ERROR_EFAULT = -2147352562"
definition KERNEL_ERROR_EBUSY :: int where "KERNEL_ERROR_EBUSY = -2147352560"
definition KERNEL_ERROR_EINVAL :: int where "KERNEL_ERROR_EINVAL = -2147352554"
definition KERNEL_ERROR_EAGAIN :: int where "KERNEL_ERROR_EAGAIN = -2147352541"
definition KERNEL_ERROR_ETIMEDOUT :: int where "KERNEL_ERROR_ETIMEDOUT = -2147352516"
definition KERNEL_ERROR_ECANCELED :: int where "KERNEL_ERROR_ECANCELED = -2147352491"

definition POSIX_EINVAL :: int where "POSIX_EINVAL = 22"
definition POSIX_EAGAIN :: int where "POSIX_EAGAIN = 35"
definition POSIX_ETIMEDOUT :: int where "POSIX_ETIMEDOUT = 60"
definition POSIX_EOVERFLOW :: int where "POSIX_EOVERFLOW = 84"

lemmas error_defs = OK_def KERNEL_ERROR_EPERM_def KERNEL_ERROR_ENOENT_def KERNEL_ERROR_ESRCH_def KERNEL_ERROR_EBADF_def
  KERNEL_ERROR_EDEADLK_def KERNEL_ERROR_ENOMEM_def KERNEL_ERROR_EAGAIN_def
  KERNEL_ERROR_EACCES_def KERNEL_ERROR_EFAULT_def KERNEL_ERROR_EBUSY_def KERNEL_ERROR_EINVAL_def
  KERNEL_ERROR_ETIMEDOUT_def KERNEL_ERROR_ECANCELED_def POSIX_EINVAL_def POSIX_EAGAIN_def POSIX_ETIMEDOUT_def POSIX_EOVERFLOW_def

text \<open>\<open>int\<close> is 32 bits; a signed overflow is undefined behaviour.\<close>

abbreviation INT_MAX :: int where "INT_MAX \<equiv> 2147483647"
abbreviation INT_MIN :: int where "INT_MIN \<equiv> -2147483648"
abbreviation UINT32_MAX :: nat where "UINT32_MAX \<equiv> 4294967295"

definition add_int :: "int \<Rightarrow> int \<Rightarrow> int option" where
  "add_int a b = (if INT_MIN \<le> a + b \<and> a + b \<le> INT_MAX then Some (a + b) else None)"

end
