(* ===== verification/Semaphore.thy ===== *)
theory Semaphore
  imports KernelErrors
begin

text \<open>
  Kernel semaphores (\<open>KernelSemaPrivate\<close> and the \<open>Kernel*Sema\<close> calls of src/src/kernel/semaphore.cpp).

  Every operation holds the semaphore's mutex except while a waiting thread sleeps on the condition
  variable, so \<open>Wait\<close> is two atomic steps here: \<open>Wait_begin\<close>, up to the first sleep, and \<open>Wait_check\<close>,
  one turn of the waiting loop after a wake-up (by a signal, by the poll period or spuriously), which
  is given the time elapsed since the call. A \<open>WaitingThread\<close> lives on the stack of its thread and is
  shared by pointer; \<open>wt_addr\<close> is that pointer. The thread's
  identity and priority are parameters.

  The result None is undefined behaviour (overflow of \<open>int\<close>) or \<open>EXIT\<close>.
\<close>

datatype SemaResult = SemaOk | SemaTimedOut | SemaCanceled | SemaDeleted | SemaInvalCount

datatype SemaStatus = StatusSet | StatusDeleted

record WaitingThread =
  wt_addr :: nat
  wt_id :: int
  wt_priority :: int
  wt_need_count :: int
  wt_result :: SemaResult
  wt_ready :: bool

record KernelSema =
  sm_name :: string
  sm_status :: SemaStatus
  sm_waiting_threads :: "WaitingThread list"
  sm_fifo_order :: bool
  sm_count :: int
  sm_init_count :: int
  sm_max_count :: int

definition new_sema :: "string \<Rightarrow> bool \<Rightarrow> int \<Rightarrow> int \<Rightarrow> KernelSema" where
  "new_sema name fifo init_count max_count = \<lparr>sm_name = name, sm_status = StatusSet, sm_waiting_threads = [],
     sm_fifo_order = fifo, sm_count = init_count, sm_init_count = init_count, sm_max_count = max_count\<rparr>"

section \<open>Operations\<close>

definition AddWaiter :: "WaitingThread \<Rightarrow> KernelSema \<Rightarrow> KernelSema" where
  "AddWaiter waiter s =
     (if sm_fifo_order s then s\<lparr>sm_waiting_threads := sm_waiting_threads s @ [waiter]\<rparr>
      else s\<lparr>sm_waiting_threads := takeWhile (\<lambda>w. wt_priority w \<le> wt_priority waiter) (sm_waiting_threads s) @
        waiter # dropWhile (\<lambda>w. wt_priority w \<le> wt_priority waiter) (sm_waiting_threads s)\<rparr>)"

fun remove_waiter :: "nat \<Rightarrow> WaitingThread list \<Rightarrow> WaitingThread list" where
  "remove_waiter a [] = []"
| "remove_waiter a (w # ws) = (if wt_addr w = a then ws else w # remove_waiter a ws)"

definition RemoveWaiter :: "nat \<Rightarrow> KernelSema \<Rightarrow> KernelSema" where
  "RemoveWaiter a s = s\<lparr>sm_waiting_threads := remove_waiter a (sm_waiting_threads s)\<rparr>"

text \<open>The loop of \<open>WakeWaiters\<close>: the waiters after it and the count left.\<close>

fun wake_waiters :: "int \<Rightarrow> WaitingThread list \<Rightarrow> WaitingThread list \<times> int" where
  "wake_waiters count [] = ([], count)"
| "wake_waiters count (w # ws) =
     (if \<not> wt_ready w \<and> wt_need_count w \<le> count
      then (let (ws', count') = wake_waiters (count - wt_need_count w) ws in (w\<lparr>wt_result := SemaOk, wt_ready := True\<rparr> # ws', count'))
      else (let (ws', count') = wake_waiters count ws in (w # ws', count')))"

definition WakeWaiters :: "KernelSema \<Rightarrow> KernelSema" where
  "WakeWaiters s = (let (ws, count) = wake_waiters (sm_count s) (sm_waiting_threads s) in s\<lparr>sm_waiting_threads := ws, sm_count := count\<rparr>)"

definition finish_waiters :: "SemaResult \<Rightarrow> WaitingThread list \<Rightarrow> WaitingThread list" where
  "finish_waiters r = map (\<lambda>w. if \<not> wt_ready w then w\<lparr>wt_result := r, wt_ready := True\<rparr> else w)"

text \<open>The second component is what is stored through \<open>num_waiting_threads\<close> when it is not null.\<close>

definition Sema_Cancel :: "int \<Rightarrow> KernelSema \<Rightarrow> SemaResult \<times> int option \<times> KernelSema" where
  "Sema_Cancel set_count s =
     (if set_count > sm_max_count s then (SemaInvalCount, None, s)
      else if sm_status s = StatusDeleted then (SemaDeleted, None, s)
      else (SemaOk, Some (int (length (filter (\<lambda>w. \<not> wt_ready w) (sm_waiting_threads s)))),
        s\<lparr>sm_count := (if set_count < 0 then sm_init_count s else set_count),
          sm_waiting_threads := finish_waiters SemaCanceled (sm_waiting_threads s)\<rparr>))"

definition Sema_Signal :: "int \<Rightarrow> KernelSema \<Rightarrow> (SemaResult \<times> KernelSema) option" where
  "Sema_Signal signal_count s =
     (if sm_status s = StatusDeleted then Some (SemaDeleted, s)
      else do {
        total \<leftarrow> add_int (sm_count s) signal_count;
        if total > sm_max_count s then Some (SemaInvalCount, s)
        else Some (SemaOk, WakeWaiters (s\<lparr>sm_count := total\<rparr>)) })"

text \<open>
  \<open>ptr_micros\<close> is None for a null pointer. The result of a wait that ends is the code and what is
  left in \<open>*ptr_micros\<close>; the wait of a thread that goes to sleep goes on.
\<close>

datatype wait_outcome = Returned SemaResult "nat option" | Sleeping

definition Sema_Wait_begin ::
  "nat \<Rightarrow> int \<Rightarrow> int \<Rightarrow> int \<Rightarrow> nat option \<Rightarrow> KernelSema \<Rightarrow> wait_outcome \<times> KernelSema" where
  "Sema_Wait_begin a thread_id thread_priority need_count ptr_micros s =
     (if need_count < 1 \<or> need_count > sm_max_count s then (Returned SemaInvalCount ptr_micros, s)
      else if sm_status s = StatusDeleted then (Returned SemaDeleted ptr_micros, s)
      else if sm_count s \<ge> need_count then (Returned SemaOk ptr_micros, s\<lparr>sm_count := sm_count s - need_count\<rparr>)
      else if ptr_micros = Some 0 then (Returned SemaTimedOut ptr_micros, s)
      else (Sleeping, AddWaiter \<lparr>wt_addr = a, wt_id = thread_id, wt_priority = (if sm_fifo_order s then 0 else thread_priority),
        wt_need_count = need_count, wt_result = SemaTimedOut, wt_ready = False\<rparr> s))"

definition Sema_Wait_check :: "nat \<Rightarrow> nat option \<Rightarrow> nat \<Rightarrow> KernelSema \<Rightarrow> (wait_outcome \<times> KernelSema) option" where
  "Sema_Wait_check a ptr_micros elapsed s =
     (case find (\<lambda>w. wt_addr w = a) (sm_waiting_threads s) of
        None \<Rightarrow> None
      | Some waiter \<Rightarrow>
          if wt_ready waiter
          then Some (Returned (wt_result waiter) (map_option (\<lambda>micros. if elapsed \<ge> micros then 0 else micros - elapsed) ptr_micros), RemoveWaiter a s)
          else if (case ptr_micros of None \<Rightarrow> False | Some micros \<Rightarrow> elapsed \<ge> micros)
          then Some (Returned SemaTimedOut (Some 0), RemoveWaiter a s)
          else Some (Sleeping, s))"

definition Sema_Poll :: "nat \<Rightarrow> int \<Rightarrow> int \<Rightarrow> int \<Rightarrow> KernelSema \<Rightarrow> wait_outcome \<times> KernelSema" where
  "Sema_Poll a thread_id thread_priority need_count s = Sema_Wait_begin a thread_id thread_priority need_count (Some 0) s"

text \<open>
  The destructor up to its last loop, in which it sleeps until the list of waiters is empty. Its
  first loop never ends on a semaphore that is already being deleted.
\<close>

definition Sema_Destroy_begin :: "KernelSema \<Rightarrow> KernelSema option" where
  "Sema_Destroy_begin s =
     (if sm_status s \<noteq> StatusSet then None
      else Some (s\<lparr>sm_status := StatusDeleted, sm_waiting_threads := finish_waiters SemaDeleted (sm_waiting_threads s)\<rparr>))"

definition Sema_Destroy_done :: "KernelSema \<Rightarrow> bool" where
  "Sema_Destroy_done s \<longleftrightarrow> sm_waiting_threads s = []"

section \<open>The calls of the kernel library\<close>

text \<open>A handle is None when it is null.\<close>

definition KernelCreateSema :: "string option \<Rightarrow> nat \<Rightarrow> int \<Rightarrow> int \<Rightarrow> int \<times> KernelSema option" where
  "KernelCreateSema name attr init_count max_count =
     (if name = None \<or> attr > 2 \<or> init_count < 0 \<or> max_count \<le> 0 \<or> init_count > max_count then (KERNEL_ERROR_EINVAL, None)
      else (OK, Some (new_sema (the name) (attr = 1) init_count max_count)))"

text \<open>\<open>KernelDeleteSema\<close> up to the destructor's last loop; it returns \<open>OK\<close> once no waiter is left.\<close>

definition KernelDeleteSema :: "KernelSema option \<Rightarrow> (int \<times> KernelSema option) option" where
  "KernelDeleteSema sem =
     (case sem of None \<Rightarrow> Some (KERNEL_ERROR_ESRCH, None) | Some s \<Rightarrow> map_option (\<lambda>s'. (OK, Some s')) (Sema_Destroy_begin s))"

definition wait_code :: "SemaResult \<Rightarrow> int" where
  "wait_code r = (case r of SemaOk \<Rightarrow> OK | SemaInvalCount \<Rightarrow> KERNEL_ERROR_EINVAL | SemaTimedOut \<Rightarrow> KERNEL_ERROR_ETIMEDOUT
     | SemaCanceled \<Rightarrow> KERNEL_ERROR_ECANCELED | SemaDeleted \<Rightarrow> KERNEL_ERROR_EACCES)"

definition poll_code :: "SemaResult \<Rightarrow> int" where
  "poll_code r = (case r of SemaOk \<Rightarrow> OK | SemaInvalCount \<Rightarrow> KERNEL_ERROR_EINVAL | _ \<Rightarrow> KERNEL_ERROR_EBUSY)"

definition signal_code :: "SemaResult \<Rightarrow> int" where
  "signal_code r = (case r of SemaOk \<Rightarrow> OK | _ \<Rightarrow> KERNEL_ERROR_EINVAL)"

text \<open>\<open>KernelWaitSema\<close>, one step of its wait: a code once the call returns.\<close>

definition KernelWaitSema ::
  "nat \<Rightarrow> int \<Rightarrow> int \<Rightarrow> KernelSema option \<Rightarrow> int \<Rightarrow> nat option \<Rightarrow> int option \<times> nat option \<times> KernelSema option" where
  "KernelWaitSema a thread_id thread_priority sem need time =
     (case sem of None \<Rightarrow> (Some KERNEL_ERROR_ESRCH, time, None)
      | Some s \<Rightarrow>
          (case Sema_Wait_begin a thread_id thread_priority need time s of
             (Returned r left, s') \<Rightarrow> (Some (wait_code r), left, Some s')
           | (Sleeping, s') \<Rightarrow> (None, time, Some s')))"

text \<open>A poll never sleeps (\<open>Sema_Poll_returns\<close>), so the arguments that describe the thread are not used.\<close>

definition KernelPollSema :: "KernelSema option \<Rightarrow> int \<Rightarrow> int \<times> KernelSema option" where
  "KernelPollSema sem need =
     (case sem of None \<Rightarrow> (KERNEL_ERROR_ESRCH, None)
      | Some s \<Rightarrow>
          (case Sema_Poll 0 0 0 need s of
             (Returned r left, s') \<Rightarrow> (poll_code r, Some s')
           | (Sleeping, s') \<Rightarrow> (poll_code SemaTimedOut, Some s')))"

definition KernelSignalSema :: "KernelSema option \<Rightarrow> int \<Rightarrow> (int \<times> KernelSema option) option" where
  "KernelSignalSema sem count =
     (case sem of None \<Rightarrow> Some (KERNEL_ERROR_ESRCH, None)
      | Some s \<Rightarrow> map_option (\<lambda>(r, s'). (signal_code r, Some s')) (Sema_Signal count s))"

definition KernelCancelSema :: "KernelSema option \<Rightarrow> int \<Rightarrow> int \<times> int option \<times> KernelSema option" where
  "KernelCancelSema sem count =
     (case sem of None \<Rightarrow> (KERNEL_ERROR_ESRCH, None, None)
      | Some s \<Rightarrow> (case Sema_Cancel count s of (r, threads, s') \<Rightarrow> (signal_code r, threads, Some s')))"

section \<open>The queue of waiters\<close>

definition waiters_sorted :: "WaitingThread list \<Rightarrow> bool" where
  "waiters_sorted ws \<longleftrightarrow> sorted_wrt (\<lambda>v w. wt_priority v \<le> wt_priority w) ws"

definition ok_need :: "WaitingThread list \<Rightarrow> int" where
  "ok_need ws = sum_list (map wt_need_count (filter (\<lambda>w. wt_ready w \<and> wt_result w = SemaOk) ws))"

lemma ok_need_simps [simp]:
  "ok_need [] = 0"
  "ok_need (w # ws) = (if wt_ready w \<and> wt_result w = SemaOk then wt_need_count w else 0) + ok_need ws"
  "ok_need (vs @ ws) = ok_need vs + ok_need ws"
  by (simp_all add: ok_need_def)

definition insert_waiter :: "WaitingThread \<Rightarrow> WaitingThread list \<Rightarrow> WaitingThread list" where
  "insert_waiter x ws = takeWhile (\<lambda>w. wt_priority w \<le> wt_priority x) ws @ x # dropWhile (\<lambda>w. wt_priority w \<le> wt_priority x) ws"

lemma insert_waiter_simps [simp]:
  "insert_waiter x [] = [x]"
  "insert_waiter x (w # ws) = (if wt_priority w \<le> wt_priority x then w # insert_waiter x ws else x # w # ws)"
  by (simp_all add: insert_waiter_def)

lemma set_insert_waiter: "set (insert_waiter x ws) = insert x (set ws)"
  by (induction ws) auto

lemma insert_waiter_sorted: "waiters_sorted ws \<Longrightarrow> waiters_sorted (insert_waiter x ws)"
  unfolding waiters_sorted_def by (induction ws) (auto simp: set_insert_waiter)

lemma insert_waiter_last: "\<forall>w\<in>set ws. wt_priority w \<le> wt_priority x \<Longrightarrow> insert_waiter x ws = ws @ [x]"
  by (induction ws) auto

text \<open>Among equal priorities the order is the order of arrival.\<close>

lemma insert_waiter_stable:
  "waiters_sorted ws \<Longrightarrow> filter (\<lambda>w. wt_priority w = p) (insert_waiter x ws) =
     filter (\<lambda>w. wt_priority w = p) ws @ (if wt_priority x = p then [x] else [])"
  unfolding waiters_sorted_def
proof (induction ws)
  case (Cons w ws)
  show ?case
  proof (cases "wt_priority w \<le> wt_priority x")
    case False
    then have "\<forall>v\<in>set (w # ws). wt_priority v \<noteq> wt_priority x" using Cons.prems by fastforce
    then have "filter (\<lambda>v. wt_priority v = wt_priority x) (w # ws) = []" unfolding filter_empty_conv .
    then show ?thesis using False by auto
  qed (use Cons in simp)
qed simp

lemma wake_waiters_spec:
  assumes "wake_waiters c ws = (ws', c')" and "\<forall>w\<in>set ws. 1 \<le> wt_need_count w"
  shows "map wt_addr ws' = map wt_addr ws \<and> map wt_priority ws' = map wt_priority ws \<and> map wt_need_count ws' = map wt_need_count ws \<and>
    map wt_id ws' = map wt_id ws \<and> c' + ok_need ws' = c + ok_need ws \<and> c' \<le> c \<and>
    (\<forall>w\<in>set ws'. \<not> wt_ready w \<longrightarrow> c' < wt_need_count w) \<and> (0 \<le> c \<longrightarrow> 0 \<le> c') \<and> (c < 1 \<longrightarrow> c' = c)"
  using assms
proof (induction ws arbitrary: c ws' c')
  case (Cons w ws)
  show ?case
  proof (cases "\<not> wt_ready w \<and> wt_need_count w \<le> c")
    case True
    obtain vs d where t: "wake_waiters (c - wt_need_count w) ws = (vs, d)" by fastforce
    have "1 \<le> wt_need_count w" "ws' = w\<lparr>wt_result := SemaOk, wt_ready := True\<rparr> # vs" "c' = d" using Cons.prems True t by auto
    then show ?thesis using Cons.IH [OF t] Cons.prems(2) True by auto
  next
    case False
    obtain vs d where t: "wake_waiters c ws = (vs, d)" by fastforce
    have "ws' = w # vs" "c' = d" using Cons.prems(1) False t by (auto simp del: wake_waiters.simps) (simp_all add: False t)
    then show ?thesis using Cons.IH [OF t] Cons.prems(2) False by auto
  qed
qed simp

text \<open>Waiters are granted in queue order, each when what is left covers its need.\<close>

lemma wake_waiters_nth:
  assumes "wake_waiters c ws = (ws', c')" and "i < length ws"
  shows "ws' ! i = (if \<not> wt_ready (ws ! i) \<and>
      wt_need_count (ws ! i) \<le> c - (\<Sum>j<i. if \<not> wt_ready (ws ! j) \<and> wt_ready (ws' ! j) then wt_need_count (ws ! j) else 0)
    then (ws ! i)\<lparr>wt_result := SemaOk, wt_ready := True\<rparr> else ws ! i)"
  using assms
proof (induction ws arbitrary: c ws' c' i)
  case (Cons w ws)
  define g where "g \<longleftrightarrow> \<not> wt_ready w \<and> wt_need_count w \<le> c"
  define d where "d = (if g then c - wt_need_count w else c)"
  obtain vs e where t: "wake_waiters d ws = (vs, e)" by fastforce
  have eq: "ws' = (if g then w\<lparr>wt_result := SemaOk, wt_ready := True\<rparr> else w) # vs"
    using Cons.prems(1) t by (cases g) (auto simp: g_def d_def)
  show ?case
  proof (cases i)
    case 0
    then show ?thesis by (simp add: eq g_def)
  next
    case (Suc k)
    let ?f = "\<lambda>j. if \<not> wt_ready ((w # ws) ! j) \<and> wt_ready (ws' ! j) then wt_need_count ((w # ws) ! j) else 0"
    have "(\<Sum>j<i. ?f j) = ?f 0 + (\<Sum>j<k. ?f (Suc j))" unfolding Suc by (rule sum.lessThan_Suc_shift)
    moreover have "?f 0 = c - d" by (auto simp: eq d_def g_def)
    moreover have "(\<Sum>j<k. ?f (Suc j)) = (\<Sum>j<k. if \<not> wt_ready (ws ! j) \<and> wt_ready (vs ! j) then wt_need_count (ws ! j) else 0)"
      by (intro sum.cong refl) (simp add: eq)
    ultimately have "c - (\<Sum>j<i. ?f j) = d - (\<Sum>j<k. if \<not> wt_ready (ws ! j) \<and> wt_ready (vs ! j) then wt_need_count (ws ! j) else 0)" by simp
    then show ?thesis using Cons.IH [OF t, of k] Cons.prems(2) by (simp add: Suc eq)
  qed
qed simp

lemma finish_waiters_facts:
  "map wt_addr (finish_waiters r ws) = map wt_addr ws" "map wt_priority (finish_waiters r ws) = map wt_priority ws"
  "map wt_need_count (finish_waiters r ws) = map wt_need_count ws"
  "\<forall>w\<in>set (finish_waiters r ws). wt_ready w"
  "r \<noteq> SemaOk \<Longrightarrow> ok_need (finish_waiters r ws) = ok_need ws"
proof -
  show "r \<noteq> SemaOk \<Longrightarrow> ok_need (finish_waiters r ws) = ok_need ws"
    by (induction ws) (simp_all add: finish_waiters_def)
qed (auto simp: finish_waiters_def)

lemma remove_waiter_facts:
  assumes "distinct (map wt_addr ws)"
  shows "remove_waiter a ws = filter (\<lambda>w. wt_addr w \<noteq> a) ws"
  using assms
proof (induction ws)
  case (Cons w ws)
  have "filter (\<lambda>v. wt_addr v \<noteq> a) ws = ws" if "wt_addr w = a"
    by (rule filter_True) (use Cons.prems that in \<open>auto simp: image_iff\<close>)
  then show ?case using Cons by auto
qed simp

lemma find_waiter:
  "distinct (map wt_addr ws) \<Longrightarrow> find (\<lambda>w. wt_addr w = a) ws = Some w \<longleftrightarrow> w \<in> set ws \<and> wt_addr w = a"
  by (induction ws) auto

section \<open>The invariant\<close>

text \<open>
  The last two clauses: a thread that still sleeps without a result needs more than the count (no
  wake-up is lost), and nobody sleeps without a result on a semaphore that is being deleted.
\<close>

definition sema_ok :: "KernelSema \<Rightarrow> bool" where
  "sema_ok s \<longleftrightarrow> distinct (map wt_addr (sm_waiting_threads s)) \<and> waiters_sorted (sm_waiting_threads s) \<and>
     (sm_fifo_order s \<longrightarrow> (\<forall>w\<in>set (sm_waiting_threads s). wt_priority w = 0)) \<and>
     (\<forall>w\<in>set (sm_waiting_threads s). 1 \<le> wt_need_count w \<and> wt_need_count w \<le> sm_max_count s) \<and>
     0 \<le> sm_init_count s \<and> sm_init_count s \<le> sm_max_count s \<and> sm_count s \<le> sm_max_count s \<and> sm_max_count s \<le> INT_MAX \<and>
     (\<forall>w\<in>set (sm_waiting_threads s). \<not> wt_ready w \<longrightarrow> sm_count s < wt_need_count w) \<and>
     (sm_status s = StatusDeleted \<longrightarrow> (\<forall>w\<in>set (sm_waiting_threads s). wt_ready w))"

lemma new_sema_ok: "0 \<le> init_count \<Longrightarrow> init_count \<le> max_count \<Longrightarrow> max_count \<le> INT_MAX \<Longrightarrow> sema_ok (new_sema name fifo init_count max_count)"
  by (simp add: sema_ok_def new_sema_def waiters_sorted_def)

lemma waiters_sorted_map: "map wt_priority ws' = map wt_priority ws \<Longrightarrow> waiters_sorted ws' = waiters_sorted ws"
  unfolding waiters_sorted_def sorted_wrt_map [of "(\<le>)" wt_priority, symmetric] by simp

lemma waiters_all_map: "map f ws' = map f ws \<Longrightarrow> (\<forall>w\<in>set ws'. P (f w)) = (\<forall>w\<in>set ws. P (f w))"
proof -
  assume m: "map f ws' = map f ws"
  have "(\<forall>w\<in>set vs. P (f w)) = (\<forall>x\<in>set (map f vs). P x)" for vs by simp
  then show ?thesis using m by (simp only:)
qed

lemma sema_ok_rewait:
  assumes ok: "sema_ok s" and m: "map wt_addr ws = map wt_addr (sm_waiting_threads s)"
    "map wt_priority ws = map wt_priority (sm_waiting_threads s)" "map wt_need_count ws = map wt_need_count (sm_waiting_threads s)"
    and c: "c \<le> sm_max_count s" and w: "\<forall>w\<in>set ws. \<not> wt_ready w \<longrightarrow> c < wt_need_count w" and st: "st = StatusDeleted \<Longrightarrow> \<forall>w\<in>set ws. wt_ready w"
  shows "sema_ok (s\<lparr>sm_waiting_threads := ws, sm_count := c, sm_status := st\<rparr>)"
  using ok c w st waiters_sorted_map [OF m(2)] waiters_all_map [OF m(2), of "\<lambda>x. x = 0"]
    waiters_all_map [OF m(3), of "\<lambda>x. 1 \<le> x \<and> x \<le> sm_max_count s"]
  unfolding sema_ok_def by (simp add: m(1))

lemma Sema_Signal_spec:
  assumes ok: "sema_ok s" and r: "Sema_Signal n s = Some (r, s')"
  shows "sema_ok s' \<and> map wt_addr (sm_waiting_threads s') = map wt_addr (sm_waiting_threads s) \<and>
    map wt_need_count (sm_waiting_threads s') = map wt_need_count (sm_waiting_threads s) \<and>
    (if r = SemaOk then sm_count s + n \<le> sm_max_count s \<and> sm_status s = StatusSet \<and>
        sm_count s' + ok_need (sm_waiting_threads s') = sm_count s + n + ok_need (sm_waiting_threads s) \<and>
        wake_waiters (sm_count s + n) (sm_waiting_threads s) = (sm_waiting_threads s', sm_count s')
      else s' = s \<and> (r = SemaDeleted \<and> sm_status s = StatusDeleted \<or> r = SemaInvalCount \<and> sm_max_count s < sm_count s + n)) \<and>
    sm_max_count s' = sm_max_count s \<and> sm_init_count s' = sm_init_count s \<and> sm_status s' = sm_status s \<and> sm_fifo_order s' = sm_fifo_order s"
proof (cases "sm_status s = StatusDeleted \<or> sm_max_count s < sm_count s + n")
  case True
  then have "s' = s \<and> (r = SemaDeleted \<and> sm_status s = StatusDeleted \<or> r = SemaInvalCount \<and> sm_max_count s < sm_count s + n)"
    using r by (auto simp: Sema_Signal_def add_int_def split: if_splits)
  then show ?thesis using ok by auto
next
  case False
  obtain ws c where w: "wake_waiters (sm_count s + n) (sm_waiting_threads s) = (ws, c)" by fastforce
  have st: "sm_status s = StatusSet" using False by (cases "sm_status s") auto
  have eq: "r = SemaOk" "s' = s\<lparr>sm_waiting_threads := ws, sm_count := c, sm_status := StatusSet\<rparr>"
    using r False w st by (auto simp: Sema_Signal_def add_int_def WakeWaiters_def split: if_splits)
  have need: "\<forall>w\<in>set (sm_waiting_threads s). 1 \<le> wt_need_count w" using ok by (simp add: sema_ok_def)
  note sp = wake_waiters_spec [OF w need]
  have "sema_ok s'" unfolding eq(2) by (rule sema_ok_rewait [OF ok]) (use sp False in auto)
  then show ?thesis using eq sp w st False by simp
qed

lemma Sema_Cancel_spec:
  assumes ok: "sema_ok s" and r: "Sema_Cancel n s = (r, k, s')"
  shows "sema_ok s' \<and> map wt_addr (sm_waiting_threads s') = map wt_addr (sm_waiting_threads s) \<and>
    map wt_need_count (sm_waiting_threads s') = map wt_need_count (sm_waiting_threads s) \<and>
    ok_need (sm_waiting_threads s') = ok_need (sm_waiting_threads s) \<and>
    (if r = SemaOk then n \<le> sm_max_count s \<and> sm_status s = StatusSet \<and> sm_count s' = (if n < 0 then sm_init_count s else n) \<and>
        (\<forall>w\<in>set (sm_waiting_threads s'). wt_ready w) \<and> k = Some (int (length (filter (\<lambda>w. \<not> wt_ready w) (sm_waiting_threads s))))
      else s' = s \<and> k = None) \<and>
    sm_max_count s' = sm_max_count s \<and> sm_init_count s' = sm_init_count s \<and> sm_status s' = sm_status s \<and> sm_fifo_order s' = sm_fifo_order s"
proof (cases "n > sm_max_count s \<or> sm_status s = StatusDeleted")
  case True
  then have "r \<noteq> SemaOk" "s' = s" "k = None" using r by (auto simp: Sema_Cancel_def split: if_splits)
  then show ?thesis using ok by simp
next
  case False
  let ?ws = "finish_waiters SemaCanceled (sm_waiting_threads s)" and ?c = "if n < 0 then sm_init_count s else n"
  have st: "sm_status s = StatusSet" using False by (cases "sm_status s") auto
  have eq: "r = SemaOk" "s' = s\<lparr>sm_waiting_threads := ?ws, sm_count := ?c, sm_status := StatusSet\<rparr>"
    "k = Some (int (length (filter (\<lambda>w. \<not> wt_ready w) (sm_waiting_threads s))))"
    using r False st by (auto simp: Sema_Cancel_def)
  have "sema_ok s'" unfolding eq(2)
    by (rule sema_ok_rewait [OF ok]) (use finish_waiters_facts False ok in \<open>auto simp: sema_ok_def\<close>)
  then show ?thesis using eq finish_waiters_facts False st by simp
qed

lemma Sema_Destroy_begin_spec:
  assumes ok: "sema_ok s" and r: "Sema_Destroy_begin s = Some s'"
  shows "sema_ok s' \<and> map wt_addr (sm_waiting_threads s') = map wt_addr (sm_waiting_threads s) \<and>
    map wt_need_count (sm_waiting_threads s') = map wt_need_count (sm_waiting_threads s) \<and>
    ok_need (sm_waiting_threads s') = ok_need (sm_waiting_threads s) \<and> sm_count s' = sm_count s \<and>
    sm_status s = StatusSet \<and> sm_status s' = StatusDeleted \<and> (\<forall>w\<in>set (sm_waiting_threads s'). wt_ready w) \<and>
    sm_max_count s' = sm_max_count s \<and> sm_init_count s' = sm_init_count s"
proof -
  let ?ws = "finish_waiters SemaDeleted (sm_waiting_threads s)"
  have eq: "sm_status s = StatusSet" "s' = s\<lparr>sm_waiting_threads := ?ws, sm_count := sm_count s, sm_status := StatusDeleted\<rparr>"
    using r by (auto simp: Sema_Destroy_begin_def split: if_splits)
  have "sema_ok s'" unfolding eq(2)
    by (rule sema_ok_rewait [OF ok]) (use finish_waiters_facts ok in \<open>auto simp: sema_ok_def\<close>)
  then show ?thesis using eq finish_waiters_facts by simp
qed

lemma AddWaiter_insert:
  assumes "sema_ok s" and "sm_fifo_order s \<Longrightarrow> wt_priority x = 0"
  shows "AddWaiter x s = s\<lparr>sm_waiting_threads := insert_waiter x (sm_waiting_threads s)\<rparr>"
proof (cases "sm_fifo_order s")
  case True
  then have "\<forall>w\<in>set (sm_waiting_threads s). wt_priority w \<le> wt_priority x" using assms by (auto simp: sema_ok_def)
  then show ?thesis using True by (simp add: AddWaiter_def insert_waiter_last)
qed (simp add: AddWaiter_def insert_waiter_def)

lemma Sema_Wait_begin_spec:
  assumes ok: "sema_ok s" and fresh: "a \<notin> set (map wt_addr (sm_waiting_threads s))"
    and r: "Sema_Wait_begin a tid prio need t s = (out, s')"
  shows "sema_ok s' \<and> sm_max_count s' = sm_max_count s \<and> sm_init_count s' = sm_init_count s \<and> sm_status s' = sm_status s \<and> sm_fifo_order s' = sm_fifo_order s \<and>
    (case out of
       Returned rs left \<Rightarrow> sm_waiting_threads s' = sm_waiting_threads s \<and> left = t \<and>
         (if rs = SemaOk then 1 \<le> need \<and> need \<le> sm_count s \<and> sm_count s' = sm_count s - need
          else sm_count s' = sm_count s \<and>
            (rs = SemaInvalCount \<and> (need < 1 \<or> sm_max_count s < need) \<or> rs = SemaDeleted \<and> sm_status s = StatusDeleted \<or>
             rs = SemaTimedOut \<and> t = Some 0 \<and> sm_count s < need))
     | Sleeping \<Rightarrow> t \<noteq> Some 0 \<and> 1 \<le> need \<and> need \<le> sm_max_count s \<and> sm_count s < need \<and> sm_status s = StatusSet \<and> sm_count s' = sm_count s \<and>
         (\<exists>x. wt_addr x = a \<and> wt_need_count x = need \<and> \<not> wt_ready x \<and> wt_priority x = (if sm_fifo_order s then 0 else prio) \<and>
           sm_waiting_threads s' = insert_waiter x (sm_waiting_threads s)))"
proof -
  let ?x = "\<lparr>wt_addr = a, wt_id = tid, wt_priority = (if sm_fifo_order s then 0 else prio),
        wt_need_count = need, wt_result = SemaTimedOut, wt_ready = False\<rparr>"
  consider (ret) "need < 1 \<or> need > sm_max_count s \<or> sm_status s = StatusDeleted \<or> t = Some 0 \<and> sm_count s < need"
    | (take) "1 \<le> need" "need \<le> sm_max_count s" "sm_status s \<noteq> StatusDeleted" "need \<le> sm_count s"
    | (sleep) "1 \<le> need" "need \<le> sm_max_count s" "sm_status s \<noteq> StatusDeleted" "sm_count s < need" "t \<noteq> Some 0"
    by linarith
  then show ?thesis
  proof cases
    case ret
    then show ?thesis using r ok by (auto simp: Sema_Wait_begin_def split: if_splits)
  next
    case take
    then have eq: "out = Returned SemaOk t" "s' = s\<lparr>sm_count := sm_count s - need\<rparr>" using r by (simp_all add: Sema_Wait_begin_def)
    have "sema_ok s'" using ok take(1) unfolding eq(2) sema_ok_def by force
    then show ?thesis using eq take by simp
  next
    case sleep
    then have eq: "out = Sleeping" "s' = AddWaiter ?x s" using r by (simp_all add: Sema_Wait_begin_def)
    have s': "s' = s\<lparr>sm_waiting_threads := insert_waiter ?x (sm_waiting_threads s)\<rparr>"
      unfolding eq(2) by (rule AddWaiter_insert [OF ok]) simp
    have st: "sm_status s = StatusSet" using sleep(3) by (cases "sm_status s") auto
    have "distinct (map wt_addr (insert_waiter ?x ws))" if "distinct (map wt_addr ws)" "a \<notin> wt_addr ` set ws" for ws
      using that by (induction ws) (auto simp: set_insert_waiter)
    then have "sema_ok s'"
      using ok fresh sleep insert_waiter_sorted st unfolding s' sema_ok_def by (simp add: set_insert_waiter)
    moreover have "\<exists>x. wt_addr x = a \<and> wt_need_count x = need \<and> \<not> wt_ready x \<and> wt_priority x = (if sm_fifo_order s then 0 else prio) \<and>
           sm_waiting_threads s' = insert_waiter x (sm_waiting_threads s)"
      by (rule exI [of _ ?x]) (simp add: s')
    moreover have "sm_max_count s' = sm_max_count s \<and> sm_init_count s' = sm_init_count s \<and> sm_status s' = sm_status s \<and>
        sm_fifo_order s' = sm_fifo_order s \<and> sm_count s' = sm_count s" by (simp add: s')
    ultimately show ?thesis using eq(1) sleep st by simp
  qed
qed

lemma Sema_Wait_check_spec:
  assumes ok: "sema_ok s" and w: "w \<in> set (sm_waiting_threads s)" "wt_addr w = a"
  shows "\<exists>out s'. Sema_Wait_check a t elapsed s = Some (out, s') \<and> sema_ok s' \<and> sm_count s' = sm_count s \<and>
    sm_max_count s' = sm_max_count s \<and> sm_init_count s' = sm_init_count s \<and> sm_status s' = sm_status s \<and> sm_fifo_order s' = sm_fifo_order s \<and>
    (case out of
       Returned rs left \<Rightarrow> rs = (if wt_ready w then wt_result w else SemaTimedOut) \<and>
         sm_waiting_threads s' = filter (\<lambda>v. wt_addr v \<noteq> a) (sm_waiting_threads s) \<and>
         (\<not> wt_ready w \<longrightarrow> (\<exists>micros. t = Some micros \<and> micros \<le> elapsed))
     | Sleeping \<Rightarrow> s' = s \<and> \<not> wt_ready w \<and> (\<forall>micros. t = Some micros \<longrightarrow> elapsed < micros))"
proof -
  let ?ws = "sm_waiting_threads s"
  have d: "distinct (map wt_addr ?ws)" using ok by (simp add: sema_ok_def)
  have f: "find (\<lambda>w. wt_addr w = a) ?ws = Some w" using find_waiter [OF d] w by blast
  have rem: "RemoveWaiter a s = s\<lparr>sm_waiting_threads := filter (\<lambda>v. wt_addr v \<noteq> a) ?ws\<rparr>"
    by (simp add: RemoveWaiter_def remove_waiter_facts [OF d])
  have "sorted_wrt P ?ws \<Longrightarrow> sorted_wrt P (filter Q ?ws)" for P Q by (rule sorted_wrt_filter)
  then have okr: "sema_ok (RemoveWaiter a s)"
    using ok distinct_map_filter [of wt_addr ?ws] unfolding rem sema_ok_def waiters_sorted_def by auto
  show ?thesis
    using okr ok unfolding Sema_Wait_check_def f option.case rem by (cases t) auto
qed

lemma Sema_Poll_returns: "\<exists>r s'. Sema_Poll a tid prio need s = (Returned r (Some 0), s')"
  by (simp add: Sema_Poll_def Sema_Wait_begin_def)

section \<open>Interleavings\<close>

text \<open>
  A semaphore under any number of threads: \<open>sy_waits\<close> holds the waits that sleep (what they need and
  their time-out), \<open>sy_taken\<close>, \<open>sy_signalled\<close> and \<open>sy_adjusted\<close> count the permits that waits returned
  with, the permits that were signalled and the changes of the count by cancelling.
\<close>

record sema_sys =
  sy_sema :: KernelSema
  sy_waits :: "nat \<Rightarrow> (int \<times> nat option) option"
  sy_taken :: int
  sy_signalled :: int
  sy_adjusted :: int

definition new_sema_sys :: "string \<Rightarrow> bool \<Rightarrow> int \<Rightarrow> int \<Rightarrow> sema_sys" where
  "new_sema_sys name fifo init_count max_count =
     \<lparr>sy_sema = new_sema name fifo init_count max_count, sy_waits = (\<lambda>a. None), sy_taken = 0, sy_signalled = 0, sy_adjusted = 0\<rparr>"

definition taken_by :: "SemaResult \<Rightarrow> int \<Rightarrow> int" where
  "taken_by r need = (if r = SemaOk then need else 0)"

inductive sema_step :: "sema_sys \<Rightarrow> sema_sys \<Rightarrow> bool" where
  step_wait_returns: "sy_waits y a = None \<Longrightarrow> Sema_Wait_begin a tid prio need t (sy_sema y) = (Returned r left, s') \<Longrightarrow>
    sema_step y (y\<lparr>sy_sema := s', sy_taken := sy_taken y + taken_by r need\<rparr>)"
| step_wait_sleeps: "sy_waits y a = None \<Longrightarrow> Sema_Wait_begin a tid prio need t (sy_sema y) = (Sleeping, s') \<Longrightarrow>
    sema_step y (y\<lparr>sy_sema := s', sy_waits := (sy_waits y)(a := Some (need, t))\<rparr>)"
| step_check_returns: "sy_waits y a = Some (need, t) \<Longrightarrow> Sema_Wait_check a t elapsed (sy_sema y) = Some (Returned r left, s') \<Longrightarrow>
    sema_step y (y\<lparr>sy_sema := s', sy_waits := (sy_waits y)(a := None), sy_taken := sy_taken y + taken_by r need\<rparr>)"
| step_check_sleeps: "sy_waits y a = Some (need, t) \<Longrightarrow> Sema_Wait_check a t elapsed (sy_sema y) = Some (Sleeping, s') \<Longrightarrow>
    sema_step y (y\<lparr>sy_sema := s'\<rparr>)"
| step_signal: "Sema_Signal n (sy_sema y) = Some (r, s') \<Longrightarrow>
    sema_step y (y\<lparr>sy_sema := s', sy_signalled := sy_signalled y + taken_by r n\<rparr>)"
| step_cancel: "Sema_Cancel n (sy_sema y) = (r, k, s') \<Longrightarrow>
    sema_step y (y\<lparr>sy_sema := s', sy_adjusted := sy_adjusted y + (sm_count s' - sm_count (sy_sema y))\<rparr>)"
| step_destroy: "Sema_Destroy_begin (sy_sema y) = Some s' \<Longrightarrow> sema_step y (y\<lparr>sy_sema := s'\<rparr>)"

inductive_cases sema_stepE: "sema_step y y'"

inductive sema_steps :: "sema_sys \<Rightarrow> sema_sys \<Rightarrow> bool" where
  sema_refl: "sema_steps y y"
| sema_more: "sema_steps x y \<Longrightarrow> sema_step y z \<Longrightarrow> sema_steps x z"

text \<open>The sleeping waits are exactly the waiters of the queue, with the same need.\<close>

definition sys_ok :: "int \<Rightarrow> sema_sys \<Rightarrow> bool" where
  "sys_ok permits y \<longleftrightarrow> sema_ok (sy_sema y) \<and>
     (\<forall>a. (\<exists>w\<in>set (sm_waiting_threads (sy_sema y)). wt_addr w = a) \<longleftrightarrow> sy_waits y a \<noteq> None) \<and>
     (\<forall>w\<in>set (sm_waiting_threads (sy_sema y)). \<exists>t. sy_waits y (wt_addr w) = Some (wt_need_count w, t)) \<and>
     sm_count (sy_sema y) + sy_taken y + ok_need (sm_waiting_threads (sy_sema y)) = permits + sy_signalled y + sy_adjusted y"

lemma pairs_eq:
  fixes ws ws' :: "WaitingThread list"
  shows "map wt_addr ws' = map wt_addr ws \<Longrightarrow> map wt_need_count ws' = map wt_need_count ws \<Longrightarrow>
   (\<lambda>w. (wt_addr w, wt_need_count w)) ` set ws' = (\<lambda>w. (wt_addr w, wt_need_count w)) ` set ws"
proof -
  assume m: "map wt_addr ws' = map wt_addr ws" "map wt_need_count ws' = map wt_need_count ws"
  have "(\<lambda>w. (wt_addr w, wt_need_count w)) ` set vs = set (zip (map wt_addr vs) (map wt_need_count vs))" for vs :: "WaitingThread list"
    by (simp add: zip_map_map zip_same_conv_map)
  then show ?thesis using m by (simp only:)
qed

lemma sys_ok_same_queue:
  assumes ok: "sys_ok permits y" and s': "sema_ok s'" "map wt_addr (sm_waiting_threads s') = map wt_addr (sm_waiting_threads (sy_sema y))"
    "map wt_need_count (sm_waiting_threads s') = map wt_need_count (sm_waiting_threads (sy_sema y))"
    and c: "sm_count s' + sy_taken y' + ok_need (sm_waiting_threads s') = permits + sy_signalled y' + sy_adjusted y'"
    and y': "sy_sema y' = s'" "sy_waits y' = sy_waits y"
  shows "sys_ok permits y'"
proof -
  let ?p = "\<lambda>w. (wt_addr w, wt_need_count w)" and ?ws = "sm_waiting_threads (sy_sema y)"
  have p: "?p ` set (sm_waiting_threads s') = ?p ` set ?ws" by (rule pairs_eq [OF s'(2,3)])
  have "set (map wt_addr (sm_waiting_threads s')) = set (map wt_addr ?ws)" by (simp only: s'(2))
  then have adr: "(\<exists>w\<in>set (sm_waiting_threads s'). wt_addr w = a) = (\<exists>w\<in>set ?ws. wt_addr w = a)" for a
    unfolding set_map image_iff [symmetric] by (metis (mono_tags, lifting) image_iff)
  have "\<exists>t. sy_waits y (wt_addr w) = Some (wt_need_count w, t)" if w: "w \<in> set (sm_waiting_threads s')" for w
  proof -
    have "?p w \<in> ?p ` set ?ws" using w p by blast
    then obtain v where "v \<in> set ?ws" "wt_addr w = wt_addr v" "wt_need_count w = wt_need_count v" by auto
    then show ?thesis using ok unfolding sys_ok_def by simp
  qed
  then show ?thesis using ok s'(1) c adr unfolding sys_ok_def y' by blast
qed

lemma ok_need_filter:
  "distinct (map wt_addr ws) \<Longrightarrow> w \<in> set ws \<Longrightarrow>
   ok_need ws = ok_need (filter (\<lambda>v. wt_addr v \<noteq> wt_addr w) ws) + (if wt_ready w \<and> wt_result w = SemaOk then wt_need_count w else 0)"
proof (induction ws)
  case (Cons v ws)
  show ?case
  proof (cases "v = w")
    case True
    have "filter (\<lambda>v. wt_addr v \<noteq> wt_addr w) ws = ws" by (rule filter_True) (use Cons.prems True in \<open>auto simp: image_iff\<close>)
    then show ?thesis using True by simp
  next
    case False
    then have "wt_addr v \<noteq> wt_addr w" "w \<in> set ws" using Cons.prems by (auto simp: image_iff)
    then show ?thesis using Cons by simp
  qed
qed simp

lemma ok_need_insert: "\<not> wt_ready x \<Longrightarrow> ok_need (insert_waiter x ws) = ok_need ws"
  by (induction ws) auto

lemma sema_step_ok: "sema_step y y' \<Longrightarrow> sys_ok permits y \<Longrightarrow> sys_ok permits y'"
proof (induction rule: sema_step.induct)
  case (step_wait_returns y a tid prio need t r left s')
  have "a \<notin> set (map wt_addr (sm_waiting_threads (sy_sema y)))" using step_wait_returns.hyps(1) step_wait_returns.prems
    unfolding sys_ok_def by auto
  note sp = Sema_Wait_begin_spec [OF _ this step_wait_returns.hyps(2)]
  have ok: "sema_ok (sy_sema y)" using step_wait_returns.prems by (simp add: sys_ok_def)
  show ?case
    by (rule sys_ok_same_queue [OF step_wait_returns.prems])
      (use sp [OF ok] step_wait_returns.prems in \<open>auto simp: sys_ok_def taken_by_def split: if_splits\<close>)
next
  case (step_wait_sleeps y a tid prio need t s')
  have "a \<notin> set (map wt_addr (sm_waiting_threads (sy_sema y)))" using step_wait_sleeps.hyps(1) step_wait_sleeps.prems
    unfolding sys_ok_def by auto
  note sp = Sema_Wait_begin_spec [OF _ this step_wait_sleeps.hyps(2)]
  have ok: "sema_ok (sy_sema y)" using step_wait_sleeps.prems by (simp add: sys_ok_def)
  obtain x where x: "wt_addr x = a" "wt_need_count x = need" "\<not> wt_ready x" "sm_waiting_threads s' = insert_waiter x (sm_waiting_threads (sy_sema y))"
    "sm_count s' = sm_count (sy_sema y)" "sema_ok s'" using sp [OF ok] unfolding wait_outcome.case by blast
  show ?case using step_wait_sleeps.prems step_wait_sleeps.hyps(1) x(6)
    unfolding sys_ok_def by (auto simp: x set_insert_waiter ok_need_insert)
next
  case (step_check_returns y a need t elapsed r left s')
  have ok: "sema_ok (sy_sema y)" using step_check_returns.prems by (simp add: sys_ok_def)
  obtain w where w: "w \<in> set (sm_waiting_threads (sy_sema y))" "wt_addr w = a"
    using step_check_returns.prems step_check_returns.hyps(1) unfolding sys_ok_def by blast
  obtain t' where "sy_waits y (wt_addr w) = Some (wt_need_count w, t')"
    using step_check_returns.prems w(1) unfolding sys_ok_def by blast
  then have need: "wt_need_count w = need" using step_check_returns.hyps(1) w(2) by simp
  have d: "distinct (map wt_addr (sm_waiting_threads (sy_sema y)))" using ok by (simp add: sema_ok_def)
  have sp: "sema_ok s'" "sm_count s' = sm_count (sy_sema y)" "r = (if wt_ready w then wt_result w else SemaTimedOut)"
    "sm_waiting_threads s' = filter (\<lambda>v. wt_addr v \<noteq> a) (sm_waiting_threads (sy_sema y))"
    using Sema_Wait_check_spec [OF ok w, of t elapsed] step_check_returns.hyps(2) by auto
  have "taken_by r need + ok_need (sm_waiting_threads s') = ok_need (sm_waiting_threads (sy_sema y))"
    using ok_need_filter [OF d w(1)] by (simp add: taken_by_def sp(3,4) need w(2))
  moreover have "(\<exists>v\<in>set (sm_waiting_threads s'). wt_addr v = b) \<longleftrightarrow> b \<noteq> a \<and> sy_waits y b \<noteq> None" for b
  proof -
    have "(\<exists>v\<in>set (sm_waiting_threads s'). wt_addr v = b) \<longleftrightarrow> b \<noteq> a \<and> (\<exists>v\<in>set (sm_waiting_threads (sy_sema y)). wt_addr v = b)"
      unfolding sp(4) by auto
    then show ?thesis using step_check_returns.prems unfolding sys_ok_def by blast
  qed
  moreover have "\<exists>t. sy_waits y (wt_addr v) = Some (wt_need_count v, t)" "wt_addr v \<noteq> a" if "v \<in> set (sm_waiting_threads s')" for v
    using that step_check_returns.prems unfolding sp(4) sys_ok_def by auto
  ultimately show ?case using step_check_returns.prems sp(1,2) unfolding sys_ok_def by simp
next
  case (step_check_sleeps y a need t elapsed s')
  have ok: "sema_ok (sy_sema y)" using step_check_sleeps.prems by (simp add: sys_ok_def)
  obtain w where w: "w \<in> set (sm_waiting_threads (sy_sema y))" "wt_addr w = a"
    using step_check_sleeps.prems step_check_sleeps.hyps(1) unfolding sys_ok_def by blast
  have "s' = sy_sema y" using Sema_Wait_check_spec [OF ok w, of t elapsed] step_check_sleeps.hyps(2) by auto
  then show ?case using step_check_sleeps.prems by simp
next
  case (step_signal n y r s')
  have ok: "sema_ok (sy_sema y)" using step_signal.prems by (simp add: sys_ok_def)
  note sp = Sema_Signal_spec [OF ok step_signal.hyps]
  show ?case
    by (rule sys_ok_same_queue [OF step_signal.prems])
      (use sp step_signal.prems in \<open>auto simp: sys_ok_def taken_by_def split: if_splits\<close>)
next
  case (step_cancel n y r k s')
  have ok: "sema_ok (sy_sema y)" using step_cancel.prems by (simp add: sys_ok_def)
  note sp = Sema_Cancel_spec [OF ok step_cancel.hyps]
  show ?case by (rule sys_ok_same_queue [OF step_cancel.prems]) (use sp step_cancel.prems in \<open>auto simp: sys_ok_def\<close>)
next
  case (step_destroy y s')
  have ok: "sema_ok (sy_sema y)" using step_destroy.prems by (simp add: sys_ok_def)
  note sp = Sema_Destroy_begin_spec [OF ok step_destroy.hyps]
  show ?case by (rule sys_ok_same_queue [OF step_destroy.prems]) (use sp step_destroy.prems in \<open>auto simp: sys_ok_def\<close>)
qed

lemma sema_steps_ok: "sema_steps y y' \<Longrightarrow> sys_ok permits y \<Longrightarrow> sys_ok permits y'"
  by (induction rule: sema_steps.induct) (auto intro: sema_step_ok)

lemma new_sys_ok: "0 \<le> init_count \<Longrightarrow> init_count \<le> max_count \<Longrightarrow> max_count \<le> INT_MAX \<Longrightarrow> sys_ok init_count (new_sema_sys name fifo init_count max_count)"
  using new_sema_ok [of init_count max_count name fifo] by (simp add: sys_ok_def new_sema_sys_def new_sema_def)

section \<open>Wake-ups are kept\<close>

text \<open>Steps of the system during which the thread at \<open>a\<close> stays in its wait.\<close>

inductive waiting_steps :: "nat \<Rightarrow> sema_sys \<Rightarrow> sema_sys \<Rightarrow> bool" for a where
  waiting_refl: "waiting_steps a y y"
| waiting_more: "waiting_steps a x y \<Longrightarrow> sema_step y z \<Longrightarrow> sy_waits z a \<noteq> None \<Longrightarrow> waiting_steps a x z"

lemma wake_keeps_ready: "w \<in> set ws \<Longrightarrow> wt_ready w \<Longrightarrow> w \<in> set (fst (wake_waiters c ws))"
proof (induction ws arbitrary: c)
  case (Cons v ws)
  obtain vs d where t: "wake_waiters (c - wt_need_count v) ws = (vs, d)" by fastforce
  obtain vs' d' where t': "wake_waiters c ws = (vs', d')" by fastforce
  show ?case using Cons.prems Cons.IH [of "c - wt_need_count v"] Cons.IH [of c] by (auto simp: t t')
qed simp

lemma finish_keeps_ready: "w \<in> set ws \<Longrightarrow> wt_ready w \<Longrightarrow> w \<in> set (finish_waiters r ws)"
  by (force simp: finish_waiters_def)

lemma ready_kept:
  assumes "sema_step y z" and "sys_ok permits y" and "w \<in> set (sm_waiting_threads (sy_sema y))" and "wt_ready w" and "sy_waits z (wt_addr w) \<noteq> None"
  shows "w \<in> set (sm_waiting_threads (sy_sema z))"
  using assms
proof (induction rule: sema_step.induct)
  case (step_wait_returns y a tid prio need t r left s')
  then show ?case by (auto simp: Sema_Wait_begin_def split: if_splits)
next
  case (step_wait_sleeps y a tid prio need t s')
  have f: "a \<notin> set (map wt_addr (sm_waiting_threads (sy_sema y)))" "sema_ok (sy_sema y)"
    using step_wait_sleeps.hyps(1) step_wait_sleeps.prems(1) unfolding sys_ok_def by auto
  obtain x where "sm_waiting_threads s' = insert_waiter x (sm_waiting_threads (sy_sema y))"
    using Sema_Wait_begin_spec [OF f(2,1) step_wait_sleeps.hyps(2)] unfolding wait_outcome.case by blast
  then show ?case using step_wait_sleeps.prems(2) by (simp add: set_insert_waiter)
next
  case (step_check_returns y a need t elapsed r left s')
  have ok: "sema_ok (sy_sema y)" using step_check_returns.prems(1) by (simp add: sys_ok_def)
  obtain v where v: "v \<in> set (sm_waiting_threads (sy_sema y))" "wt_addr v = a"
    using step_check_returns.prems(1) step_check_returns.hyps(1) unfolding sys_ok_def by blast
  have "sm_waiting_threads s' = filter (\<lambda>v. wt_addr v \<noteq> a) (sm_waiting_threads (sy_sema y))"
    using Sema_Wait_check_spec [OF ok v, of t elapsed] step_check_returns.hyps(2) by auto
  then show ?case using step_check_returns.prems(2,4) by (auto split: if_splits)
next
  case (step_check_sleeps y a need t elapsed s')
  then show ?case by (auto simp: Sema_Wait_check_def split: option.splits if_splits)
next
  case (step_signal n y r s')
  have ok: "sema_ok (sy_sema y)" using step_signal.prems(1) by (simp add: sys_ok_def)
  note sp = Sema_Signal_spec [OF ok step_signal.hyps]
  show ?case
  proof (cases "r = SemaOk")
    case True
    then have "wake_waiters (sm_count (sy_sema y) + n) (sm_waiting_threads (sy_sema y)) = (sm_waiting_threads s', sm_count s')" using sp by simp
    then show ?thesis using wake_keeps_ready [OF step_signal.prems(2,3), of "sm_count (sy_sema y) + n"] by simp
  qed (use sp step_signal.prems(2) in simp)
next
  case (step_cancel n y r k s')
  then show ?case by (auto simp: Sema_Cancel_def finish_keeps_ready split: if_splits)
next
  case (step_destroy y s')
  then show ?case by (auto simp: Sema_Destroy_begin_def finish_keeps_ready split: if_splits)
qed

lemma ready_kept_steps:
  assumes "waiting_steps (wt_addr w) y z" and "sys_ok permits y" and "w \<in> set (sm_waiting_threads (sy_sema y))" and "wt_ready w"
  shows "w \<in> set (sm_waiting_threads (sy_sema z)) \<and> sys_ok permits z"
  using assms by (induction rule: waiting_steps.induct) (auto intro: ready_kept sema_step_ok)

section \<open>Deleting a semaphore\<close>

text \<open>The sleeping threads take a turn of their loops one after the other.\<close>

fun drain_waits :: "(nat \<times> nat option \<times> nat) list \<Rightarrow> KernelSema \<Rightarrow> (SemaResult list \<times> KernelSema) option" where
  "drain_waits [] s = Some ([], s)"
| "drain_waits ((a, t, elapsed) # xs) s =
     (case Sema_Wait_check a t elapsed s of
        Some (Returned r left, s') \<Rightarrow> map_option (\<lambda>(rs, s''). (r # rs, s'')) (drain_waits xs s')
      | _ \<Rightarrow> None)"

lemma drain_waits_ends:
  assumes "sema_ok s" and "\<forall>w\<in>set (sm_waiting_threads s). wt_ready w \<and> wt_result w \<in> R"
    and "distinct (map fst xs)" and "set (map fst xs) = set (map wt_addr (sm_waiting_threads s))"
  shows "\<exists>rs s'. drain_waits xs s = Some (rs, s') \<and> sm_waiting_threads s' = [] \<and> length rs = length xs \<and> set rs \<subseteq> R"
  using assms
proof (induction xs arbitrary: s)
  case Nil
  then show ?case by simp
next
  case (Cons x xs)
  obtain a t e where x: "x = (a, t, e)" by (cases x) auto
  have "a \<in> set (map wt_addr (sm_waiting_threads s))" using Cons.prems(4) by (auto simp: x)
  then obtain w where w: "w \<in> set (sm_waiting_threads s)" "wt_addr w = a" by auto
  have rdy: "wt_ready w" "wt_result w \<in> R" using Cons.prems(2) w(1) by blast+
  obtain out s' where c: "Sema_Wait_check a t e s = Some (out, s')" "sema_ok s'"
    "case out of Returned rs left \<Rightarrow> rs = (if wt_ready w then wt_result w else SemaTimedOut) \<and>
         sm_waiting_threads s' = filter (\<lambda>v. wt_addr v \<noteq> a) (sm_waiting_threads s) \<and>
         (\<not> wt_ready w \<longrightarrow> (\<exists>micros. t = Some micros \<and> micros \<le> e))
     | Sleeping \<Rightarrow> s' = s \<and> \<not> wt_ready w \<and> (\<forall>micros. t = Some micros \<longrightarrow> e < micros)"
    using Sema_Wait_check_spec [OF Cons.prems(1) w, of t e] by blast
  obtain r left where o: "out = Returned r left" "r = wt_result w" "sm_waiting_threads s' = filter (\<lambda>v. wt_addr v \<noteq> a) (sm_waiting_threads s)"
    using c(3) rdy(1) by (cases out) auto
  have "set (map fst xs) = set (map fst (x # xs)) - {a}" using Cons.prems(3) by (auto simp: x)
  also have "\<dots> = set (map wt_addr (sm_waiting_threads s'))" unfolding Cons.prems(4) o(3) by auto
  finally have st: "set (map fst xs) = set (map wt_addr (sm_waiting_threads s'))" .
  have "\<forall>w\<in>set (sm_waiting_threads s'). wt_ready w \<and> wt_result w \<in> R" using Cons.prems(2) by (simp add: o(3))
  then obtain rs s'' where "drain_waits xs s' = Some (rs, s'')" "sm_waiting_threads s'' = []" "length rs = length xs" "set rs \<subseteq> R"
    using Cons.IH [OF c(2) _ _ st] Cons.prems(3) by auto
  then show ?case using c(1) o rdy(2) by (simp add: x)
qed

section \<open>Properties\<close>

text \<open>A semaphore of one permit: a thread takes it, two more go to sleep, the permit is signalled.\<close>

definition demo_waiter :: "nat \<Rightarrow> int \<Rightarrow> SemaResult \<Rightarrow> bool \<Rightarrow> WaitingThread" where
  "demo_waiter a prio r ready = \<lparr>wt_addr = a, wt_id = 0, wt_priority = prio, wt_need_count = 1, wt_result = r, wt_ready = ready\<rparr>"

definition sema_demo_blocked :: sema_sys where
  "sema_demo_blocked = \<lparr>sy_sema = (new_sema ''s'' False 1 1)\<lparr>sm_count := 0,
       sm_waiting_threads := [demo_waiter 20 500 SemaTimedOut False, demo_waiter 10 700 SemaTimedOut False]\<rparr>,
     sy_waits = [10 \<mapsto> (1, None), 20 \<mapsto> (1, Some 50)], sy_taken = 1, sy_signalled = 0, sy_adjusted = 0\<rparr>"

definition sema_demo_granted :: sema_sys where
  "sema_demo_granted = \<lparr>sy_sema = (new_sema ''s'' False 1 1)\<lparr>sm_count := 0,
       sm_waiting_threads := [demo_waiter 20 500 SemaOk True, demo_waiter 10 700 SemaTimedOut False]\<rparr>,
     sy_waits = [10 \<mapsto> (1, None), 20 \<mapsto> (1, Some 50)], sy_taken = 1, sy_signalled = 1, sy_adjusted = 0\<rparr>"

lemma sema_demo_signal: "Sema_Signal 1 (sy_sema sema_demo_blocked) = Some (SemaOk, sy_sema sema_demo_granted)"
  by (simp add: Sema_Signal_def sema_demo_blocked_def sema_demo_granted_def new_sema_def add_int_def WakeWaiters_def demo_waiter_def)

lemma sema_demo_steps: "sema_steps (new_sema_sys ''s'' False 1 1) sema_demo_blocked" "sema_step sema_demo_blocked sema_demo_granted"
proof -
  let ?y0 = "new_sema_sys ''s'' False 1 1"
  let ?y1 = "?y0\<lparr>sy_sema := (sy_sema ?y0)\<lparr>sm_count := 0\<rparr>, sy_taken := 1\<rparr>"
  let ?y2 = "?y1\<lparr>sy_sema := (sy_sema ?y1)\<lparr>sm_waiting_threads := [demo_waiter 10 700 SemaTimedOut False]\<rparr>, sy_waits := [10 \<mapsto> (1, None)]\<rparr>"
  have 1: "sema_step ?y0 ?y1"
    using step_wait_returns [of ?y0 5 0 700 1 None SemaOk None "(sy_sema ?y0)\<lparr>sm_count := 0\<rparr>"]
    by (simp add: new_sema_sys_def new_sema_def Sema_Wait_begin_def taken_by_def)
  have 2: "sema_step ?y1 ?y2"
    using step_wait_sleeps [of ?y1 10 0 700 1 None "sy_sema ?y2"]
    by (simp add: new_sema_sys_def new_sema_def Sema_Wait_begin_def AddWaiter_def demo_waiter_def)
  have 3: "sema_step ?y2 sema_demo_blocked"
    using step_wait_sleeps [of ?y2 20 0 500 1 "Some 50" "sy_sema sema_demo_blocked"]
    by (simp add: sema_demo_blocked_def new_sema_sys_def new_sema_def Sema_Wait_begin_def AddWaiter_def demo_waiter_def)
  show "sema_steps ?y0 sema_demo_blocked" by (rule sema_more [OF sema_more [OF sema_more [OF sema_refl 1] 2] 3])
  show "sema_step sema_demo_blocked sema_demo_granted"
    using step_signal [OF sema_demo_signal] by (simp add: sema_demo_blocked_def sema_demo_granted_def taken_by_def)
qed

text \<open>
  C2: Under any interleaving of waits, time-outs, polls, signals, cancellations and deletion, no wake-up
  is lost: a thread that sleeps without a result needs more permits than there are. The waiters are
  exactly the sleeping threads, each once, in order of priority, and the count never exceeds its maximum.
\<close>

theorem sema_no_lost_wakeup:
  assumes "sema_steps (new_sema_sys name fifo init_count max_count) y" and "0 \<le> init_count" and "init_count \<le> max_count" and "max_count \<le> INT_MAX"
  shows "(\<forall>w\<in>set (sm_waiting_threads (sy_sema y)). \<not> wt_ready w \<longrightarrow> sm_count (sy_sema y) < wt_need_count w) \<and>
    wt_addr ` set (sm_waiting_threads (sy_sema y)) = {a. sy_waits y a \<noteq> None} \<and> distinct (map wt_addr (sm_waiting_threads (sy_sema y))) \<and>
    sorted (map wt_priority (sm_waiting_threads (sy_sema y))) \<and> sm_count (sy_sema y) \<le> sm_max_count (sy_sema y)"
proof -
  have ok: "sys_ok init_count y" by (rule sema_steps_ok [OF assms(1) new_sys_ok [OF assms(2-4)]])
  then have "wt_addr ` set (sm_waiting_threads (sy_sema y)) = {a. sy_waits y a \<noteq> None}"
    unfolding sys_ok_def image_def by (metis (no_types, lifting))
  then show ?thesis using ok unfolding sys_ok_def sema_ok_def waiters_sorted_def by (simp add: sorted_map)
qed

lemma sema_no_lost_wakeup_witness: "sm_count (sy_sema sema_demo_blocked) < 1 \<and> sorted (map wt_priority (sm_waiting_threads (sy_sema sema_demo_blocked)))"
  using sema_no_lost_wakeup [OF sema_demo_steps(1)] by (simp add: sema_demo_blocked_def demo_waiter_def)

text \<open>
  C19: Permits are neither lost nor made up: the count, the permits that waits returned with and those
  granted to threads that have not yet run add up to the initial count, what was signalled and what
  cancelling changed, under any interleaving, time-outs included.
\<close>

theorem sema_permits_conserved:
  assumes "sema_steps (new_sema_sys name fifo init_count max_count) y" and "0 \<le> init_count" and "init_count \<le> max_count" and "max_count \<le> INT_MAX"
  shows "sm_count (sy_sema y) + sy_taken y +
      (\<Sum>w\<leftarrow>filter (\<lambda>w. wt_ready w \<and> wt_result w = SemaOk) (sm_waiting_threads (sy_sema y)). wt_need_count w) =
    init_count + sy_signalled y + sy_adjusted y"
  using sema_steps_ok [OF assms(1) new_sys_ok [OF assms(2-4)]] by (simp add: sys_ok_def ok_need_def)

lemma sema_permits_conserved_witness:
  "sm_count (sy_sema sema_demo_granted) + sy_taken sema_demo_granted + 1 = 1 + sy_signalled sema_demo_granted + sy_adjusted sema_demo_granted"
  using sema_permits_conserved [OF sema_more [OF sema_demo_steps]] by (simp add: sema_demo_granted_def demo_waiter_def)

text \<open>
  C17: A wake-up is kept until its thread runs: once a waiter is ready, whatever the other threads do
  (signals, cancellation, deletion, new waiters of a higher priority), the thread's next turn of its
  loop ends the wait with that result, even when its time-out has passed.
\<close>

theorem sema_granted_returns:
  assumes "sema_steps (new_sema_sys name fifo init_count max_count) y" and "0 \<le> init_count" and "init_count \<le> max_count" and "max_count \<le> INT_MAX"
    and "w \<in> set (sm_waiting_threads (sy_sema y))" and "wt_ready w" and "waiting_steps (wt_addr w) y z"
  shows "\<exists>left s'. Sema_Wait_check (wt_addr w) t elapsed (sy_sema z) = Some (Returned (wt_result w) left, s') \<and>
    (\<forall>v\<in>set (sm_waiting_threads s'). wt_addr v \<noteq> wt_addr w)"
proof -
  have "sys_ok init_count y" by (rule sema_steps_ok [OF assms(1) new_sys_ok [OF assms(2-4)]])
  then have z: "w \<in> set (sm_waiting_threads (sy_sema z))" "sys_ok init_count z" using ready_kept_steps [OF assms(7) _ assms(5,6)] by blast+
  have ok: "sema_ok (sy_sema z)" using z(2) by (simp add: sys_ok_def)
  obtain out s' where c: "Sema_Wait_check (wt_addr w) t elapsed (sy_sema z) = Some (out, s')"
    "case out of Returned rs left \<Rightarrow> rs = (if wt_ready w then wt_result w else SemaTimedOut) \<and>
         sm_waiting_threads s' = filter (\<lambda>v. wt_addr v \<noteq> wt_addr w) (sm_waiting_threads (sy_sema z)) \<and>
         (\<not> wt_ready w \<longrightarrow> (\<exists>micros. t = Some micros \<and> micros \<le> elapsed))
     | Sleeping \<Rightarrow> s' = sy_sema z \<and> \<not> wt_ready w \<and> (\<forall>micros. t = Some micros \<longrightarrow> elapsed < micros)"
    using Sema_Wait_check_spec [OF ok z(1) refl, of t elapsed] by blast
  show ?thesis using c assms(6) by (cases out) auto
qed

lemma sema_granted_returns_witness:
  "\<exists>left s'. Sema_Wait_check 20 (Some 50) 90 (sy_sema sema_demo_granted) = Some (Returned SemaOk left, s')"
  using sema_granted_returns [OF sema_more [OF sema_demo_steps] _ _ _ _ _ waiting_refl, of "demo_waiter 20 500 SemaOk True" "Some 50" 90]
  by (auto simp: sema_demo_granted_def demo_waiter_def)

text \<open>
  C18: Deleting a semaphore ends: whatever the order in which the sleeping threads get to run, and their
  time-outs, each one's next turn returns, after which no waiter is left and the destructor's last loop
  ends. Threads that had no result yet return Deleted.
\<close>

theorem sema_destroy_drains:
  assumes "sema_ok s" and "Sema_Destroy_begin s = Some s1"
    and "distinct (map fst xs)" and "set (map fst xs) = set (map wt_addr (sm_waiting_threads s))"
  shows "\<exists>rs s2. drain_waits xs s1 = Some (rs, s2) \<and> Sema_Destroy_done s2 \<and> length rs = length (sm_waiting_threads s) \<and>
    set rs \<subseteq> insert SemaDeleted (wt_result ` {w \<in> set (sm_waiting_threads s). wt_ready w})"
proof -
  note d = Sema_Destroy_begin_spec [OF assms(1,2)]
  have s1: "sm_waiting_threads s1 = finish_waiters SemaDeleted (sm_waiting_threads s)"
    using assms(2) by (auto simp: Sema_Destroy_begin_def split: if_splits)
  let ?R = "insert SemaDeleted (wt_result ` {w \<in> set (sm_waiting_threads s). wt_ready w})"
  have R: "\<forall>w\<in>set (sm_waiting_threads s1). wt_ready w \<and> wt_result w \<in> ?R" unfolding s1 by (auto simp: finish_waiters_def)
  have st: "set (map fst xs) = set (map wt_addr (sm_waiting_threads s1))" using assms(4) d by simp
  obtain rs s2 where r: "drain_waits xs s1 = Some (rs, s2)" "sm_waiting_threads s2 = []" "length rs = length xs" "set rs \<subseteq> ?R"
    using drain_waits_ends [OF d [THEN conjunct1] R assms(3) st] by blast
  have "length (map fst xs) = length (map wt_addr (sm_waiting_threads s))"
    using assms(1,3,4) by (metis distinct_card sema_ok_def)
  then show ?thesis using r by (simp add: Sema_Destroy_done_def)
qed

lemma sema_destroy_drains_witness:
  "\<exists>s1 s2. Sema_Destroy_begin (sy_sema sema_demo_blocked) = Some s1 \<and>
     drain_waits [(10, None, 0), (20, Some 50, 60)] s1 = Some ([SemaDeleted, SemaDeleted], s2) \<and> Sema_Destroy_done s2"
proof -
  let ?s = "sy_sema sema_demo_blocked"
  obtain s1 where s1: "Sema_Destroy_begin ?s = Some s1" by (simp add: Sema_Destroy_begin_def sema_demo_blocked_def new_sema_def)
  have ok: "sema_ok ?s" using sema_steps_ok [OF sema_demo_steps(1) new_sys_ok [of 1 1]] by (simp add: sys_ok_def)
  have "\<exists>rs s2. drain_waits [(10, None, 0), (20, Some 50, 60)] s1 = Some (rs, s2) \<and> Sema_Destroy_done s2 \<and> length rs = length (sm_waiting_threads ?s) \<and>
      set rs \<subseteq> insert SemaDeleted (wt_result ` {w \<in> set (sm_waiting_threads ?s). wt_ready w})"
    by (rule sema_destroy_drains [OF ok s1]) (auto simp: sema_demo_blocked_def demo_waiter_def)
  moreover have "length (sm_waiting_threads ?s) = 2" "{w \<in> set (sm_waiting_threads ?s). wt_ready w} = {}"
    by (auto simp: sema_demo_blocked_def demo_waiter_def)
  ultimately obtain rs s2 where r: "drain_waits [(10, None, 0), (20, Some 50, 60)] s1 = Some (rs, s2)" "Sema_Destroy_done s2"
      "length rs = 2" "set rs \<subseteq> {SemaDeleted}" by auto
  then have "rs = [SemaDeleted, SemaDeleted]" by (cases rs; cases "tl rs") auto
  then show ?thesis using s1 r by blast
qed

text \<open>
  A successful \<open>Signal\<close> grants in queue order, first fit: the i-th waiter is granted exactly if it had
  no result and the permits left after the grants before it cover its need; its need is then taken from
  the count. Everyone else is left as it was, and a new waiter is queued behind all of its priority.
\<close>

lemma sema_signal_order:
  assumes "sema_ok s" and "Sema_Signal n s = Some (SemaOk, s')" and "i < length (sm_waiting_threads s)"
  shows "sm_waiting_threads s' ! i = (let w = sm_waiting_threads s ! i in
      if \<not> wt_ready w \<and> wt_need_count w \<le> sm_count s + n -
          (\<Sum>j<i. if \<not> wt_ready (sm_waiting_threads s ! j) \<and> wt_ready (sm_waiting_threads s' ! j) then wt_need_count (sm_waiting_threads s ! j) else 0)
      then w\<lparr>wt_result := SemaOk, wt_ready := True\<rparr> else w) \<and>
    (sm_fifo_order s = False \<longrightarrow> filter (\<lambda>w. wt_priority w = wt_priority x) (sm_waiting_threads (AddWaiter x s)) =
      filter (\<lambda>w. wt_priority w = wt_priority x) (sm_waiting_threads s) @ [x]) \<and>
    (sm_fifo_order s = True \<longrightarrow> sm_waiting_threads (AddWaiter x s) = sm_waiting_threads s @ [x])"
proof -
  have w: "wake_waiters (sm_count s + n) (sm_waiting_threads s) = (sm_waiting_threads s', sm_count s')"
    using Sema_Signal_spec [OF assms(1,2)] by simp
  have "waiters_sorted (sm_waiting_threads s)" using assms(1) by (simp add: sema_ok_def)
  then have "sm_fifo_order s = False \<longrightarrow> filter (\<lambda>w. wt_priority w = wt_priority x) (sm_waiting_threads (AddWaiter x s)) =
      filter (\<lambda>w. wt_priority w = wt_priority x) (sm_waiting_threads s) @ [x]"
    using insert_waiter_stable [of "sm_waiting_threads s" "wt_priority x" x] by (simp add: AddWaiter_def insert_waiter_def)
  then show ?thesis using wake_waiters_nth [OF w assms(3)] by (simp add: Let_def AddWaiter_def)
qed

lemma sema_signal_order_witness:
  "wt_ready (sm_waiting_threads (sy_sema sema_demo_granted) ! 0) \<and> \<not> wt_ready (sm_waiting_threads (sy_sema sema_demo_granted) ! 1)"
proof -
  have ok: "sema_ok (sy_sema sema_demo_blocked)"
    using sema_steps_ok [OF sema_demo_steps(1) new_sys_ok [of 1 1]] by (simp add: sys_ok_def)
  have n: "0 < length (sm_waiting_threads (sy_sema sema_demo_blocked))" by (simp add: sema_demo_blocked_def)
  show ?thesis using sema_signal_order [OF ok sema_demo_signal n] by (simp add: sema_demo_blocked_def sema_demo_granted_def demo_waiter_def Let_def new_sema_def)
qed

text \<open>A negative signal and a large one.\<close>

lemma sema_negative_signal:
  "\<exists>s'. KernelSignalSema (Some (new_sema ''s'' False 0 1)) (-1) = Some (OK, Some s') \<and> sm_count s' = -1"
  by (simp add: KernelSignalSema_def Sema_Signal_def new_sema_def add_int_def WakeWaiters_def signal_code_def)

lemma sema_signal_overflow: "KernelSignalSema (Some (new_sema ''s'' False 1 1)) 2147483647 = None"
  by (simp add: KernelSignalSema_def Sema_Signal_def new_sema_def add_int_def)

end
