(* ===== verification/PosixSem.thy ===== *)
theory PosixSem
  imports KernelErrors "HOL-Library.Signed_Division"
begin

text \<open>
  POSIX semaphores (\<open>PosixSemPrivate\<close>, the \<open>sem_*\<close> and the \<open>PthreadSem*\<close> calls of
  src/src/kernel/semaphore.cpp). A semaphore is an object of the emulator, found by the address of the
  guest's 16-byte structure, into which every change is copied (\<open>SyncGuest\<close>). As for the kernel
  semaphores, \<open>Wait\<close> is an atomic step up to the first sleep and one for every turn after a wake-up.

  An address of 0 is the null pointer. A call of \<open>sem_*\<close> gives its value and, where it fails, errno.
\<close>

definition POSIX_SEM_MAGIC :: nat where "POSIX_SEM_MAGIC = 2554"
definition POSIX_SEM_VALUE_MAX :: int where "POSIX_SEM_VALUE_MAX = 2147483647"

record PosixSemGuest =
  pg_magic :: nat
  pg_nameid :: nat
  pg_has_waiters :: nat
  pg_count :: int
  pg_flags :: nat

record PosixSem =
  ps_count :: int
  ps_waiters :: nat

definition SyncGuest :: "nat option \<Rightarrow> PosixSem \<Rightarrow> PosixSemGuest \<Rightarrow> PosixSemGuest" where
  "SyncGuest flags s g = \<lparr>pg_magic = POSIX_SEM_MAGIC, pg_nameid = 0, pg_has_waiters = (if ps_waiters s > 0 then 1 else 0),
     pg_count = ps_count s, pg_flags = (case flags of None \<Rightarrow> pg_flags g | Some f \<Rightarrow> f)\<rparr>"

definition new_posix_sem :: "nat \<Rightarrow> nat \<Rightarrow> PosixSemGuest \<Rightarrow> PosixSem \<times> PosixSemGuest" where
  "new_posix_sem val flags g =
     (let s = \<lparr>ps_count = int val, ps_waiters = 0\<rparr> in (s, SyncGuest (if flags = UINT32_MAX then None else Some flags) s g))"

text \<open>The head of the loop of \<open>Wait\<close>; the result is None when the thread goes to sleep.\<close>

definition PosixSem_Wait_head ::
  "nat option \<Rightarrow> nat \<Rightarrow> PosixSem \<Rightarrow> PosixSemGuest \<Rightarrow> int option \<times> PosixSem \<times> PosixSemGuest" where
  "PosixSem_Wait_head micros elapsed s g =
     (if ps_count s \<le> 0
      then
        (if (case micros of None \<Rightarrow> False | Some m \<Rightarrow> elapsed \<ge> m) then (Some POSIX_ETIMEDOUT, s, SyncGuest None s g)
         else (let s' = s\<lparr>ps_waiters := ps_waiters s + 1\<rparr> in (None, s', SyncGuest None s' g)))
      else (let s' = s\<lparr>ps_count := ps_count s - 1\<rparr> in (Some OK, s', SyncGuest None s' g)))"

definition PosixSem_Wait_begin :: "nat option \<Rightarrow> PosixSem \<Rightarrow> PosixSemGuest \<Rightarrow> int option \<times> PosixSem \<times> PosixSemGuest" where
  "PosixSem_Wait_begin micros s g = PosixSem_Wait_head micros 0 s g"

definition PosixSem_Wait_turn :: "nat option \<Rightarrow> nat \<Rightarrow> PosixSem \<Rightarrow> PosixSemGuest \<Rightarrow> int option \<times> PosixSem \<times> PosixSemGuest" where
  "PosixSem_Wait_turn micros elapsed s g = PosixSem_Wait_head micros elapsed (s\<lparr>ps_waiters := ps_waiters s - 1\<rparr>) g"

definition PosixSem_TryWait :: "PosixSem \<Rightarrow> PosixSemGuest \<Rightarrow> int \<times> PosixSem \<times> PosixSemGuest" where
  "PosixSem_TryWait s g =
     (if ps_count s \<le> 0 then (POSIX_EAGAIN, s, SyncGuest None s g)
      else (let s' = s\<lparr>ps_count := ps_count s - 1\<rparr> in (OK, s', SyncGuest None s' g)))"

definition PosixSem_Post :: "PosixSem \<Rightarrow> PosixSemGuest \<Rightarrow> int \<times> PosixSem \<times> PosixSemGuest" where
  "PosixSem_Post s g =
     (if ps_count s = POSIX_SEM_VALUE_MAX then (POSIX_EOVERFLOW, s, g)
      else (let s' = s\<lparr>ps_count := ps_count s + 1\<rparr> in (OK, s', SyncGuest None s' g)))"

section \<open>The registry and the calls\<close>

record posix_sems =
  g_posix_sems :: "nat \<Rightarrow> PosixSem option"
  guest_sems :: "nat \<Rightarrow> PosixSemGuest"

definition PosixToKernel :: "int \<Rightarrow> int" where
  "PosixToKernel posix_errno = (if posix_errno \<ge> 0 \<and> posix_errno \<le> 102 then posix_errno - 2147352576 else KERNEL_ERROR_EINVAL)"

definition GetSem :: "nat \<Rightarrow> posix_sems \<Rightarrow> PosixSem option" where
  "GetSem sem w = (if sem = 0 then None else g_posix_sems w sem)"

definition put_sem :: "nat \<Rightarrow> PosixSem \<Rightarrow> PosixSemGuest \<Rightarrow> posix_sems \<Rightarrow> posix_sems" where
  "put_sem sem s g w = w\<lparr>g_posix_sems := (g_posix_sems w)(sem := Some s), guest_sems := (guest_sems w)(sem := g)\<rparr>"

definition SemInitImpl :: "nat \<Rightarrow> nat \<Rightarrow> nat \<Rightarrow> posix_sems \<Rightarrow> int \<times> posix_sems" where
  "SemInitImpl sem pshared val w =
     (if sem = 0 \<or> int val > POSIX_SEM_VALUE_MAX then (POSIX_EINVAL, w)
      else (let (s, g) = new_posix_sem val pshared (guest_sems w sem) in (OK, put_sem sem s g w)))"

definition SemDestroyImpl :: "nat \<Rightarrow> posix_sems \<Rightarrow> int \<times> posix_sems" where
  "SemDestroyImpl sem w =
     (if sem = 0 then (POSIX_EINVAL, w)
      else if g_posix_sems w sem = None then (POSIX_EINVAL, w)
      else (OK, w\<lparr>g_posix_sems := (g_posix_sems w)(sem := None),
        guest_sems := (guest_sems w)(sem := (guest_sems w sem)\<lparr>pg_magic := 0, pg_has_waiters := 0, pg_count := 0, pg_flags := 0\<rparr>)\<rparr>))"

definition SemTimedwaitImpl :: "nat \<Rightarrow> nat option \<Rightarrow> posix_sems \<Rightarrow> int option \<times> posix_sems" where
  "SemTimedwaitImpl sem micros w =
     (case GetSem sem w of None \<Rightarrow> (Some POSIX_EINVAL, w)
      | Some s \<Rightarrow> (let (r, s', g) = PosixSem_Wait_begin micros s (guest_sems w sem) in (r, put_sem sem s' g w)))"

text \<open>
  \<open>AbsTimespecToMicros\<close>; the clock is a parameter, C++ division truncates. The inner None is false, the
  outer one the overflow of \<open>int64_t\<close>, which C++ leaves undefined.
\<close>

definition fits_int64 :: "int \<Rightarrow> bool" where
  "fits_int64 x \<longleftrightarrow> -9223372036854775808 \<le> x \<and> x \<le> 9223372036854775807"

definition AbsTimespecToMicros :: "(int \<times> int) option \<Rightarrow> (int \<times> int) option \<Rightarrow> nat option option" where
  "AbsTimespecToMicros abstime clock =
     (case abstime of None \<Rightarrow> Some None
      | Some (tv_sec, tv_nsec) \<Rightarrow>
          if tv_sec < 0 \<or> tv_nsec < 0 \<or> tv_nsec \<ge> 1000000000 then Some None
          else
            (case clock of None \<Rightarrow> Some None
             | Some (now_sec, now_nsec) \<Rightarrow>
                 (let sec_delta = tv_sec - now_sec; nsec_delta = tv_nsec - now_nsec;
                      usec_delta = sec_delta * 1000000 + nsec_delta sdiv 1000 in
                  if \<not> (fits_int64 sec_delta \<and> fits_int64 nsec_delta \<and> fits_int64 (sec_delta * 1000000) \<and> fits_int64 usec_delta) then None
                  else Some (Some (if usec_delta \<le> 0 then 0 else if usec_delta > int UINT32_MAX then UINT32_MAX else nat usec_delta)))))"

definition SetErrnoReturn :: "int \<Rightarrow> int \<times> int option" where
  "SetErrnoReturn r = (if r = OK then (0, None) else (-1, Some r))"

definition sem_init :: "nat \<Rightarrow> nat \<Rightarrow> nat \<Rightarrow> posix_sems \<Rightarrow> (int \<times> int option) \<times> posix_sems" where
  "sem_init sem pshared val w = map_prod SetErrnoReturn id (SemInitImpl sem pshared val w)"

definition sem_destroy :: "nat \<Rightarrow> posix_sems \<Rightarrow> (int \<times> int option) \<times> posix_sems" where
  "sem_destroy sem w = map_prod SetErrnoReturn id (SemDestroyImpl sem w)"

definition sem_wait :: "nat \<Rightarrow> posix_sems \<Rightarrow> (int \<times> int option) option \<times> posix_sems" where
  "sem_wait sem w = map_prod (map_option SetErrnoReturn) id (SemTimedwaitImpl sem None w)"

definition sem_trywait :: "nat \<Rightarrow> posix_sems \<Rightarrow> (int \<times> int option) \<times> posix_sems" where
  "sem_trywait sem w =
     (case GetSem sem w of None \<Rightarrow> (SetErrnoReturn POSIX_EINVAL, w)
      | Some s \<Rightarrow> (let (r, s', g) = PosixSem_TryWait s (guest_sems w sem) in (SetErrnoReturn r, put_sem sem s' g w)))"

definition sem_reltimedwait_np :: "nat \<Rightarrow> nat \<Rightarrow> posix_sems \<Rightarrow> (int \<times> int option) option \<times> posix_sems" where
  "sem_reltimedwait_np sem usec w = map_prod (map_option SetErrnoReturn) id (SemTimedwaitImpl sem (Some usec) w)"

definition sem_timedwait ::
  "nat \<Rightarrow> (int \<times> int) option \<Rightarrow> (int \<times> int) option \<Rightarrow> posix_sems \<Rightarrow> ((int \<times> int option) option \<times> posix_sems) option" where
  "sem_timedwait sem abstime clock w =
     (case AbsTimespecToMicros abstime clock of None \<Rightarrow> None
      | Some None \<Rightarrow> Some (Some (SetErrnoReturn POSIX_EINVAL), w)
      | Some (Some micros) \<Rightarrow> Some (map_prod (map_option SetErrnoReturn) id (SemTimedwaitImpl sem (Some micros) w)))"

definition sem_post :: "nat \<Rightarrow> posix_sems \<Rightarrow> (int \<times> int option) \<times> posix_sems" where
  "sem_post sem w =
     (case GetSem sem w of None \<Rightarrow> (SetErrnoReturn POSIX_EINVAL, w)
      | Some s \<Rightarrow> (let (r, s', g) = PosixSem_Post s (guest_sems w sem) in (SetErrnoReturn r, put_sem sem s' g w)))"

text \<open>The second component is what is stored through \<open>value\<close>.\<close>

definition sem_getvalue :: "nat \<Rightarrow> bool \<Rightarrow> posix_sems \<Rightarrow> (int \<times> int option) \<times> int option" where
  "sem_getvalue sem value_null w =
     (case GetSem sem w of None \<Rightarrow> (SetErrnoReturn POSIX_EINVAL, None)
      | Some s \<Rightarrow> if value_null then (SetErrnoReturn POSIX_EINVAL, None) else (SetErrnoReturn OK, Some (ps_count s)))"

definition kernel_result :: "int \<Rightarrow> int" where
  "kernel_result r = (if r = OK then OK else PosixToKernel r)"

definition PthreadSemInit :: "nat \<Rightarrow> int \<Rightarrow> nat \<Rightarrow> posix_sems \<Rightarrow> int \<times> posix_sems" where
  "PthreadSemInit sem flag val w =
     (if flag \<noteq> 0 then (KERNEL_ERROR_EINVAL, w) else map_prod kernel_result id (SemInitImpl sem 0 val w))"

definition PthreadSemDestroy :: "nat \<Rightarrow> posix_sems \<Rightarrow> int \<times> posix_sems" where
  "PthreadSemDestroy sem w = map_prod kernel_result id (SemDestroyImpl sem w)"

definition PthreadSemWait :: "nat \<Rightarrow> posix_sems \<Rightarrow> int option \<times> posix_sems" where
  "PthreadSemWait sem w = map_prod (map_option kernel_result) id (SemTimedwaitImpl sem None w)"

definition PthreadSemTrywait :: "nat \<Rightarrow> posix_sems \<Rightarrow> int \<times> posix_sems" where
  "PthreadSemTrywait sem w =
     (case GetSem sem w of None \<Rightarrow> (KERNEL_ERROR_EINVAL, w)
      | Some s \<Rightarrow> (let (r, s', g) = PosixSem_TryWait s (guest_sems w sem) in (kernel_result r, put_sem sem s' g w)))"

definition PthreadSemTimedwait :: "nat \<Rightarrow> nat \<Rightarrow> posix_sems \<Rightarrow> int option \<times> posix_sems" where
  "PthreadSemTimedwait sem usec w = map_prod (map_option kernel_result) id (SemTimedwaitImpl sem (Some usec) w)"

definition PthreadSemPost :: "nat \<Rightarrow> posix_sems \<Rightarrow> int \<times> posix_sems" where
  "PthreadSemPost sem w =
     (case GetSem sem w of None \<Rightarrow> (KERNEL_ERROR_EINVAL, w)
      | Some s \<Rightarrow> (let (r, s', g) = PosixSem_Post s (guest_sems w sem) in (kernel_result r, put_sem sem s' g w)))"

definition PthreadSemGetvalue :: "nat \<Rightarrow> bool \<Rightarrow> posix_sems \<Rightarrow> int \<times> int option" where
  "PthreadSemGetvalue sem value_null w =
     (case GetSem sem w of None \<Rightarrow> (KERNEL_ERROR_EINVAL, None)
      | Some s \<Rightarrow> if value_null then (KERNEL_ERROR_EINVAL, None) else (OK, Some (ps_count s)))"

section \<open>Interleavings\<close>

text \<open>
  One semaphore under any number of threads: those that sleep, and how many permits were taken and
  posted. Any thread may wake at any time, spuriously too.
\<close>

record posix_sys =
  py_sem :: PosixSem
  py_guest :: PosixSemGuest
  py_sleeping :: "(nat \<times> nat option) set"
  py_taken :: nat
  py_posted :: nat

inductive posix_step :: "posix_sys \<Rightarrow> posix_sys \<Rightarrow> bool" where
  posix_wait: "PosixSem_Wait_begin t (py_sem y) (py_guest y) = (r, s', g') \<Longrightarrow> a \<notin> fst ` py_sleeping y \<Longrightarrow>
    posix_step y (y\<lparr>py_sem := s', py_guest := g', py_sleeping := (if r = None then insert (a, t) (py_sleeping y) else py_sleeping y),
      py_taken := py_taken y + (if r = Some OK then 1 else 0)\<rparr>)"
| posix_turn: "(a, t) \<in> py_sleeping y \<Longrightarrow> PosixSem_Wait_turn t elapsed (py_sem y) (py_guest y) = (r, s', g') \<Longrightarrow>
    posix_step y (y\<lparr>py_sem := s', py_guest := g', py_sleeping := (if r = None then py_sleeping y else py_sleeping y - {(a, t)}),
      py_taken := py_taken y + (if r = Some OK then 1 else 0)\<rparr>)"
| posix_try: "PosixSem_TryWait (py_sem y) (py_guest y) = (r, s', g') \<Longrightarrow>
    posix_step y (y\<lparr>py_sem := s', py_guest := g', py_taken := py_taken y + (if r = OK then 1 else 0)\<rparr>)"
| posix_post: "PosixSem_Post (py_sem y) (py_guest y) = (r, s', g') \<Longrightarrow>
    posix_step y (y\<lparr>py_sem := s', py_guest := g', py_posted := py_posted y + (if r = OK then 1 else 0)\<rparr>)"

definition new_posix_sys :: "nat \<Rightarrow> nat \<Rightarrow> PosixSemGuest \<Rightarrow> posix_sys" where
  "new_posix_sys val flags g = \<lparr>py_sem = fst (new_posix_sem val flags g), py_guest = snd (new_posix_sem val flags g),
     py_sleeping = {}, py_taken = 0, py_posted = 0\<rparr>"

inductive posix_reachable :: "nat \<Rightarrow> nat \<Rightarrow> PosixSemGuest \<Rightarrow> posix_sys \<Rightarrow> bool" for val flags g where
  posix_new: "posix_reachable val flags g (new_posix_sys val flags g)"
| posix_next: "posix_reachable val flags g y \<Longrightarrow> posix_step y y' \<Longrightarrow> posix_reachable val flags g y'"

text \<open>The guest's copy agrees with the object.\<close>

definition mirrors :: "PosixSem \<Rightarrow> PosixSemGuest \<Rightarrow> bool" where
  "mirrors s g \<longleftrightarrow> pg_magic g = POSIX_SEM_MAGIC \<and> pg_count g = ps_count s \<and> pg_has_waiters g = (if ps_waiters s > 0 then 1 else 0)"

lemma mirrors_SyncGuest [simp]: "mirrors s (SyncGuest f s g)"
  by (simp add: mirrors_def SyncGuest_def)

definition posix_ok :: "nat \<Rightarrow> posix_sys \<Rightarrow> bool" where
  "posix_ok val y \<longleftrightarrow> mirrors (py_sem y) (py_guest y) \<and> 0 \<le> ps_count (py_sem y) \<and> ps_count (py_sem y) \<le> POSIX_SEM_VALUE_MAX \<and>
     finite (py_sleeping y) \<and> ps_waiters (py_sem y) = card (py_sleeping y) \<and>
     ps_count (py_sem y) + int (py_taken y) = int val + int (py_posted y)"

lemma Wait_head_cases:
  assumes "PosixSem_Wait_head t e s g = (r, s', g')"
  shows "mirrors s' g' \<and> (r = Some OK \<and> 0 < ps_count s \<and> s' = s\<lparr>ps_count := ps_count s - 1\<rparr> \<or>
    r = Some POSIX_ETIMEDOUT \<and> ps_count s \<le> 0 \<and> s' = s \<or> r = None \<and> ps_count s \<le> 0 \<and> s' = s\<lparr>ps_waiters := ps_waiters s + 1\<rparr>)"
  using assms by (auto simp: PosixSem_Wait_head_def Let_def split: if_splits)

lemma posix_step_ok: "posix_step y y' \<Longrightarrow> posix_ok val y \<Longrightarrow> posix_ok val y'"
proof (induction rule: posix_step.induct)
  case (posix_wait t y r s' g' a)
  have "(a, t) \<notin> py_sleeping y" using posix_wait.hyps(2) by force
  then show ?case using Wait_head_cases [OF posix_wait.hyps(1) [unfolded PosixSem_Wait_begin_def]] posix_wait.prems
    unfolding posix_ok_def by (auto simp: error_defs)
next
  case (posix_turn a t y elapsed r s' g')
  have c: "card (py_sleeping y - {(a, t)}) = card (py_sleeping y) - 1" "0 < card (py_sleeping y)"
    using posix_turn.hyps(1) posix_turn.prems unfolding posix_ok_def by (auto simp: card_gt_0_iff)
  show ?case using Wait_head_cases [OF posix_turn.hyps(2) [unfolded PosixSem_Wait_turn_def]] posix_turn.prems c
    unfolding posix_ok_def by (auto simp: error_defs)
next
  case (posix_try y r s' g')
  then show ?case by (auto simp: posix_ok_def PosixSem_TryWait_def Let_def error_defs mirrors_def SyncGuest_def split: if_splits)
next
  case (posix_post y r s' g')
  then show ?case
    by (auto simp: posix_ok_def PosixSem_Post_def Let_def error_defs POSIX_SEM_VALUE_MAX_def mirrors_def SyncGuest_def split: if_splits)
qed

lemma posix_reachable_ok: "posix_reachable val flags g y \<Longrightarrow> int val \<le> POSIX_SEM_VALUE_MAX \<Longrightarrow> posix_ok val y"
proof (induction rule: posix_reachable.induct)
  case posix_new
  then show ?case by (simp add: posix_ok_def new_posix_sys_def new_posix_sem_def Let_def)
qed (auto intro: posix_step_ok)

section \<open>The calls\<close>

text \<open>The two families of calls do the same to the semaphore; only the way they report errors differs.\<close>

lemma posix_call_families:
  "snd (PthreadSemTrywait sem w) = snd (sem_trywait sem w)" "snd (PthreadSemPost sem w) = snd (sem_post sem w)"
  "snd (PthreadSemDestroy sem w) = snd (sem_destroy sem w)" "snd (PthreadSemWait sem w) = snd (sem_wait sem w)"
  "fst (PthreadSemTrywait sem w) = OK \<longleftrightarrow> fst (fst (sem_trywait sem w)) = 0"
  "fst (PthreadSemPost sem w) = OK \<longleftrightarrow> fst (fst (sem_post sem w)) = 0"
  by (auto simp: PthreadSemTrywait_def sem_trywait_def PthreadSemPost_def sem_post_def PthreadSemDestroy_def sem_destroy_def
    PthreadSemWait_def sem_wait_def kernel_result_def SetErrnoReturn_def PosixToKernel_def error_defs
    PosixSem_TryWait_def PosixSem_Post_def Let_def split: option.splits prod.splits if_splits)

section \<open>Properties\<close>

text \<open>
  C25: Under any interleaving of waits, time-outs, spurious wake-ups, tries and posts, a POSIX semaphore
  keeps its count between 0 and SEM_VALUE_MAX, its number of waiters is the number of sleeping threads,
  the guest's structure shows exactly this count and whether there are waiters whenever the mutex is
  free, and permits are conserved: what is left and what was taken is the initial value and what was posted.
\<close>

theorem posix_sem_safe:
  assumes "posix_reachable val flags g y" and "int val \<le> POSIX_SEM_VALUE_MAX"
  shows "0 \<le> ps_count (py_sem y) \<and> ps_count (py_sem y) \<le> POSIX_SEM_VALUE_MAX \<and> ps_waiters (py_sem y) = card (py_sleeping y) \<and>
    pg_magic (py_guest y) = POSIX_SEM_MAGIC \<and> pg_count (py_guest y) = ps_count (py_sem y) \<and>
    (pg_has_waiters (py_guest y) = 1 \<longleftrightarrow> py_sleeping y \<noteq> {}) \<and>
    ps_count (py_sem y) + int (py_taken y) = int val + int (py_posted y)"
proof -
  have ok: "posix_ok val y" by (rule posix_reachable_ok [OF assms])
  then have "card (py_sleeping y) > 0 \<longleftrightarrow> py_sleeping y \<noteq> {}" by (auto simp: posix_ok_def card_gt_0_iff)
  then show ?thesis using ok by (simp add: posix_ok_def mirrors_def)
qed

lemma posix_sem_safe_witness:
  "\<exists>y. posix_reachable 0 0 \<lparr>pg_magic = 7, pg_nameid = 7, pg_has_waiters = 7, pg_count = 7, pg_flags = 7\<rparr> y \<and>
     ps_waiters (py_sem y) = 1 \<and> pg_has_waiters (py_guest y) = 1 \<and> pg_count (py_guest y) = 1 \<and> py_posted y = 1"
proof -
  let ?g = "\<lparr>pg_magic = 7, pg_nameid = 7, pg_has_waiters = 7, pg_count = 7, pg_flags = 7\<rparr>"
  let ?y0 = "new_posix_sys 0 0 ?g"
  have 0: "posix_reachable 0 0 ?g ?y0" by (rule posix_new)
  obtain r s1 g1 where w: "PosixSem_Wait_begin None (py_sem ?y0) (py_guest ?y0) = (r, s1, g1)" by (metis prod_cases3)
  have r: "r = None" "s1 = \<lparr>ps_count = 0, ps_waiters = 1\<rparr>"
    using w by (auto simp: PosixSem_Wait_begin_def PosixSem_Wait_head_def new_posix_sys_def new_posix_sem_def Let_def)
  let ?y1 = "?y0\<lparr>py_sem := s1, py_guest := g1, py_sleeping := {(5, None)}\<rparr>"
  have "posix_step ?y0 ?y1" using posix_wait [OF w, of 5] r(1) by (simp add: new_posix_sys_def)
  then have 1: "posix_reachable 0 0 ?g ?y1" by (rule posix_next [OF 0])
  obtain r' s2 g2 where p: "PosixSem_Post (py_sem ?y1) (py_guest ?y1) = (r', s2, g2)" by (metis prod_cases3)
  have r': "r' = OK" using p r by (auto simp: PosixSem_Post_def POSIX_SEM_VALUE_MAX_def Let_def split: if_splits)
  let ?y2 = "?y1\<lparr>py_sem := s2, py_guest := g2, py_posted := 1\<rparr>"
  have "posix_step ?y1 ?y2" using posix_post [OF p] r' by (simp add: new_posix_sys_def)
  then have 2: "posix_reachable 0 0 ?g ?y2" by (rule posix_next [OF 1])
  show ?thesis using 2 posix_sem_safe [OF 2] by (intro exI [of _ ?y2]) (auto simp: POSIX_SEM_VALUE_MAX_def new_posix_sys_def)
qed

lemma sdiv_1000: "\<bar>1000 * (n sdiv 1000) - n\<bar> < (1000::int)"
proof -
  have "n sdiv 1000 = sgn n * (\<bar>n\<bar> div 1000)" by (simp add: signed_divide_int_def)
  then show ?thesis by (cases "n < 0") (auto simp: sgn_if)
qed

text \<open>
  \<open>AbsTimespecToMicros\<close> turns a deadline into a time-out that is exact to less than a microsecond:
  zero only for a deadline less than a microsecond ahead, the largest \<open>uint32_t\<close> only when the deadline
  is that far away. It fails exactly on a missing or invalid time, and is defined as long as the
  difference in microseconds fits.
\<close>

lemma posix_deadline_exact:
  assumes "0 \<le> cn" and "cn < 1000000000"
    and "\<bar>(s - cs) * 1000000\<bar> \<le> 9223372036853775807" and "0 \<le> s" and "0 \<le> n" and "n < 1000000000"
  defines "delta \<equiv> (s - cs) * 1000000000 + (n - cn)"
  shows "\<exists>micros. AbsTimespecToMicros (Some (s, n)) (Some (cs, cn)) = Some (Some micros) \<and> micros \<le> UINT32_MAX \<and>
    (micros = 0 \<longrightarrow> delta < 1000) \<and> (0 < micros \<and> micros < UINT32_MAX \<longrightarrow> \<bar>1000 * int micros - delta\<bar> < 1000) \<and>
    (micros = UINT32_MAX \<longrightarrow> 1000 * (int UINT32_MAX - 1) < delta)"
proof -
  have w: "fits_int64 ((s - cs) * 1000000)" "fits_int64 (s - cs)" using assms(3) unfolding fits_int64_def
    by (auto simp: abs_le_iff algebra_simps)
  let ?u = "(s - cs) * 1000000 + (n - cn) sdiv 1000"
  have q: "\<bar>1000 * ((n - cn) sdiv 1000) - (n - cn)\<bar> < 1000" by (rule sdiv_1000)
  then have "\<bar>(n - cn) sdiv 1000\<bar> \<le> 1000000" using assms(1,2,5,6) by linarith
  then have f: "fits_int64 ?u" "fits_int64 (n - cn)" using assms(1-3,5,6) unfolding fits_int64_def by linarith+
  have d: "\<bar>1000 * ?u - delta\<bar> < 1000" using q unfolding delta_def by (simp add: algebra_simps)
  have eq: "AbsTimespecToMicros (Some (s, n)) (Some (cs, cn)) =
      Some (Some (if ?u \<le> 0 then 0 else if ?u > int UINT32_MAX then UINT32_MAX else nat ?u))"
    unfolding AbsTimespecToMicros_def option.case prod.case Let_def using w assms(4-6) f by simp
  show ?thesis unfolding eq
  proof (intro exI conjI)
    show "Some (Some (if ?u \<le> 0 then 0 else if ?u > int UINT32_MAX then UINT32_MAX else nat ?u)) =
      Some (Some (if ?u \<le> 0 then 0 else if ?u > int UINT32_MAX then UINT32_MAX else nat ?u))" ..
  qed (use d in \<open>auto split: if_splits\<close>)
qed

lemma posix_deadline_exact_witness:
  "\<exists>micros. AbsTimespecToMicros (Some (10, 0)) (Some (9, 999999500)) = Some (Some micros) \<and> micros \<le> UINT32_MAX"
  using posix_deadline_exact [where s = 10 and n = 0 and cs = 9 and cn = 999999500] by (auto simp: fits_int64_def)

text \<open>A deadline in the far future overflows \<open>int64_t\<close>.\<close>

lemma posix_deadline_overflow: "AbsTimespecToMicros (Some (9223372036854775807, 0)) (Some (0, 0)) = None"
  by (simp add: AbsTimespecToMicros_def fits_int64_def)

end
