(* ===== verification/EventFlag.thy ===== *)
theory EventFlag
  imports KernelErrors
begin

unbundle bit_operations_syntax

text \<open>
  Kernel event flags (src/src/kernel/eventFlag.cpp): 64 bits that threads set, clear and wait for, and
  the registry of live flags and of the published names.

  The operations of a flag hold its mutex except while they sleep: \<open>Wait\<close> is a step up to its first
  sleep and one for every turn after a wake-up (by \<open>SignalAll\<close>, by the poll period of the condition
  variable or spuriously); \<open>Cancel\<close> is a step up to the loop that waits for the sleeping threads and one
  that ends that loop. \<open>Set\<close>, \<open>Clear\<close> and \<open>Cancel\<close> first spin while a cancellation is going on: they
  take their step only in the status \<open>Set\<close>. The result None is \<open>EXIT\<close>.
\<close>

datatype FlagResult = FlagOk | FlagAlreadyWaiting | FlagTimedOut | FlagCanceled | FlagDeleted

datatype ClearMode = ClearNone | ClearAll | ClearBits

datatype WaitMode = WaitAnd | WaitOr

datatype FlagStatus = FlagStatusSet | FlagStatusCanceled | FlagStatusDeleted

record EventFlag =
  ef_status :: FlagStatus
  ef_waiting_threads :: int
  ef_name :: string
  ef_single_thread :: bool
  ef_bits :: "64 word"
  ef_open_references :: int

definition new_event_flag :: "string \<Rightarrow> bool \<Rightarrow> bool \<Rightarrow> 64 word \<Rightarrow> EventFlag" where
  "new_event_flag name single fifo bits = \<lparr>ef_status = FlagStatusSet, ef_waiting_threads = 0, ef_name = name,
     ef_single_thread = single, ef_bits = bits, ef_open_references = 1\<rparr>"

text \<open>The low nibbles of the mode; anything else exits.\<close>

definition DecodeEventFlagWaitMode :: "32 word \<Rightarrow> (WaitMode \<times> ClearMode) option" where
  "DecodeEventFlagWaitMode wait_mode = do {
     w \<leftarrow> (if wait_mode AND 0xf = 1 then Some WaitAnd else if wait_mode AND 0xf = 2 then Some WaitOr else None);
     c \<leftarrow> (if wait_mode AND 0xf0 = 0 then Some ClearNone else if wait_mode AND 0xf0 = 0x10 then Some ClearAll
        else if wait_mode AND 0xf0 = 0x20 then Some ClearBits else None);
     Some (w, c) }"

definition flag_matches :: "64 word \<Rightarrow> WaitMode \<Rightarrow> 64 word \<Rightarrow> bool" where
  "flag_matches bits wait_mode m_bits \<longleftrightarrow>
     (wait_mode = WaitAnd \<and> m_bits AND bits = bits) \<or> (wait_mode = WaitOr \<and> m_bits AND bits \<noteq> 0)"

definition clear_bits :: "ClearMode \<Rightarrow> 64 word \<Rightarrow> 64 word \<Rightarrow> 64 word" where
  "clear_bits clear_mode bits m_bits = (case clear_mode of ClearAll \<Rightarrow> 0 | ClearBits \<Rightarrow> m_bits AND NOT bits | ClearNone \<Rightarrow> m_bits)"

text \<open>
  A wait that ends gives its code, what it stores through \<open>result\<close> (if it stores anything) and what is
  left in \<open>*ptr_micros\<close>.
\<close>

datatype flag_outcome = FlagReturned FlagResult "64 word option" "nat option" | FlagSleeping

definition time_left :: "nat option \<Rightarrow> nat \<Rightarrow> nat option" where
  "time_left ptr_micros elapsed = map_option (\<lambda>micros. if elapsed \<ge> micros then 0 else micros - elapsed) ptr_micros"

text \<open>The head of the waiting loop and what follows it.\<close>

definition Flag_Wait_head ::
  "64 word \<Rightarrow> WaitMode \<Rightarrow> ClearMode \<Rightarrow> nat option \<Rightarrow> nat \<Rightarrow> EventFlag \<Rightarrow> flag_outcome \<times> EventFlag" where
  "Flag_Wait_head bits wait_mode clear_mode ptr_micros elapsed f =
     (if \<not> flag_matches bits wait_mode (ef_bits f)
      then
        (if (case ptr_micros of None \<Rightarrow> False | Some micros \<Rightarrow> elapsed \<ge> micros)
         then (FlagReturned FlagTimedOut (Some (ef_bits f)) (time_left ptr_micros elapsed), f)
         else (FlagSleeping, f\<lparr>ef_waiting_threads := ef_waiting_threads f + 1\<rparr>))
      else (FlagReturned FlagOk (Some (ef_bits f)) (time_left ptr_micros elapsed), f\<lparr>ef_bits := clear_bits clear_mode bits (ef_bits f)\<rparr>))"

definition Flag_Wait_begin ::
  "64 word \<Rightarrow> WaitMode \<Rightarrow> ClearMode \<Rightarrow> nat option \<Rightarrow> EventFlag \<Rightarrow> flag_outcome \<times> EventFlag" where
  "Flag_Wait_begin bits wait_mode clear_mode ptr_micros f =
     (if ef_single_thread f \<and> ef_waiting_threads f > 0 then (FlagReturned FlagAlreadyWaiting None ptr_micros, f)
      else Flag_Wait_head bits wait_mode clear_mode ptr_micros 0 f)"

definition Flag_Wait_turn ::
  "64 word \<Rightarrow> WaitMode \<Rightarrow> ClearMode \<Rightarrow> nat option \<Rightarrow> nat \<Rightarrow> EventFlag \<Rightarrow> flag_outcome \<times> EventFlag" where
  "Flag_Wait_turn bits wait_mode clear_mode ptr_micros elapsed f =
     (let f' = f\<lparr>ef_waiting_threads := ef_waiting_threads f - 1\<rparr> in
      case ef_status f' of
        FlagStatusCanceled \<Rightarrow> (FlagReturned FlagCanceled (Some (ef_bits f')) (time_left ptr_micros elapsed), f')
      | FlagStatusDeleted \<Rightarrow> (FlagReturned FlagDeleted (Some (ef_bits f')) (time_left ptr_micros elapsed), f')
      | FlagStatusSet \<Rightarrow> Flag_Wait_head bits wait_mode clear_mode ptr_micros elapsed f')"

definition Flag_Poll :: "64 word \<Rightarrow> WaitMode \<Rightarrow> ClearMode \<Rightarrow> EventFlag \<Rightarrow> flag_outcome \<times> EventFlag" where
  "Flag_Poll bits wait_mode clear_mode f = Flag_Wait_begin bits wait_mode clear_mode (Some 0) f"

text \<open>The step of \<open>Set\<close>, \<open>Clear\<close> and \<open>Cancel\<close>: \<open>spin\<close> while another cancellation is going on.\<close>

datatype 'a spin = Spin | Step 'a

definition Flag_Set :: "64 word \<Rightarrow> EventFlag \<Rightarrow> EventFlag spin option" where
  "Flag_Set bits f =
     (if ef_status f = FlagStatusDeleted then None
      else if ef_status f \<noteq> FlagStatusSet then Some Spin
      else Some (Step (f\<lparr>ef_bits := ef_bits f OR bits\<rparr>)))"

definition Flag_Clear :: "64 word \<Rightarrow> EventFlag \<Rightarrow> EventFlag spin option" where
  "Flag_Clear bits f =
     (if ef_status f = FlagStatusDeleted then None
      else if ef_status f \<noteq> FlagStatusSet then Some Spin
      else Some (Step (f\<lparr>ef_bits := ef_bits f AND bits\<rparr>)))"

text \<open>The second component is what is stored through \<open>num_waiting_threads\<close> when it is not null.\<close>

definition Flag_Cancel_begin :: "64 word \<Rightarrow> EventFlag \<Rightarrow> (EventFlag \<times> int) spin option" where
  "Flag_Cancel_begin bits f =
     (if ef_status f = FlagStatusDeleted then None
      else if ef_status f \<noteq> FlagStatusSet then Some Spin
      else Some (Step (f\<lparr>ef_status := FlagStatusCanceled, ef_bits := bits\<rparr>, ef_waiting_threads f)))"

definition Flag_Cancel_end :: "EventFlag \<Rightarrow> EventFlag spin" where
  "Flag_Cancel_end f = (if ef_waiting_threads f > 0 then Spin else Step (f\<lparr>ef_status := FlagStatusSet\<rparr>))"

definition Flag_Destroy_begin :: "EventFlag \<Rightarrow> EventFlag spin" where
  "Flag_Destroy_begin f = (if ef_status f \<noteq> FlagStatusSet then Spin else Step (f\<lparr>ef_status := FlagStatusDeleted\<rparr>))"

definition Flag_Destroy_done :: "EventFlag \<Rightarrow> bool" where
  "Flag_Destroy_done f \<longleftrightarrow> ef_waiting_threads f \<le> 0"

section \<open>The registry\<close>

text \<open>
  The flags by their address, the set of live ones and the published names; \<open>new\<close> returns an address
  that is not in use, a parameter of the call. Address 0 is null.
\<close>

record flag_registry =
  flag_heap :: "nat \<Rightarrow> EventFlag option"
  g_named_event_flags :: "string \<Rightarrow> nat option"
  g_event_flags :: "nat set"

definition new_flag_registry :: flag_registry where
  "new_flag_registry = \<lparr>flag_heap = (\<lambda>a. None), g_named_event_flags = (\<lambda>n. None), g_event_flags = {}\<rparr>"

definition RemovePublishedName :: "nat \<Rightarrow> flag_registry \<Rightarrow> flag_registry" where
  "RemovePublishedName ef r =
     (case flag_heap r ef of None \<Rightarrow> r
      | Some f \<Rightarrow>
          if g_named_event_flags r (ef_name f) = Some ef
          then r\<lparr>g_named_event_flags := (g_named_event_flags r)(ef_name f := None)\<rparr> else r)"

definition flag_attr :: "32 word \<Rightarrow> (bool \<times> bool) option" where
  "flag_attr attr =
     (case (if attr AND 0xf = 0 \<or> attr AND 0xf = 1 then Some True else if attr AND 0xf = 2 then Some False else None) of
        None \<Rightarrow> None
      | Some fifo \<Rightarrow>
          (case (if attr AND 0xf0 = 0 \<or> attr AND 0xf0 = 0x10 then Some True else if attr AND 0xf0 = 0x20 then Some False else None) of
             None \<Rightarrow> None
           | Some single \<Rightarrow> Some (single, fifo)))"

text \<open>The second component is what is stored through \<open>ef\<close>.\<close>

definition KernelCreateEventFlag ::
  "nat \<Rightarrow> bool \<Rightarrow> string option \<Rightarrow> 32 word \<Rightarrow> 64 word \<Rightarrow> bool \<Rightarrow> flag_registry \<Rightarrow> int \<times> nat option \<times> flag_registry" where
  "KernelCreateEventFlag fresh ef_null name attr init_pattern param_null r =
     (case name of None \<Rightarrow> (KERNEL_ERROR_EINVAL, None, r)
      | Some nm \<Rightarrow>
          if ef_null then (KERNEL_ERROR_EINVAL, None, r)
          else if \<not> param_null \<or> attr AND NOT 0x133 \<noteq> 0 then (KERNEL_ERROR_EINVAL, None, r)
          else
            (case flag_attr attr of None \<Rightarrow> (KERNEL_ERROR_EINVAL, None, r)
             | Some (single, fifo) \<Rightarrow>
                 (OK, Some fresh,
                  r\<lparr>flag_heap := (flag_heap r)(fresh := Some (new_event_flag nm single fifo init_pattern)),
                    g_event_flags := insert fresh (g_event_flags r),
                    g_named_event_flags := (if g_named_event_flags r nm = None then (g_named_event_flags r)(nm := Some fresh)
                      else g_named_event_flags r)\<rparr>)))"

definition KernelOpenEventFlag :: "bool \<Rightarrow> string option \<Rightarrow> flag_registry \<Rightarrow> int \<times> nat option \<times> flag_registry" where
  "KernelOpenEventFlag ef_null name r =
     (case name of None \<Rightarrow> (KERNEL_ERROR_EINVAL, None, r)
      | Some nm \<Rightarrow>
          if ef_null then (KERNEL_ERROR_EINVAL, None, r)
          else
            (case g_named_event_flags r nm of None \<Rightarrow> (KERNEL_ERROR_ESRCH, None, r)
             | Some found \<Rightarrow>
                 if found \<notin> g_event_flags r then (KERNEL_ERROR_ESRCH, None, r)
                 else (OK, Some found, r\<lparr>flag_heap := (flag_heap r)(found :=
                   map_option (\<lambda>f. f\<lparr>ef_open_references := ef_open_references f + 1\<rparr>) (flag_heap r found))\<rparr>)))"

text \<open>
  Closing and deleting. The third component is the flag that \<open>delete\<close> is called on, once it is out of the
  registry: its destructor wakes the threads that wait and runs until they have left.
\<close>

definition KernelCloseEventFlag :: "nat \<Rightarrow> flag_registry \<Rightarrow> int \<times> flag_registry \<times> EventFlag option" where
  "KernelCloseEventFlag ef r =
     (if ef = 0 then (KERNEL_ERROR_ESRCH, r, None)
      else if ef \<notin> g_event_flags r then (KERNEL_ERROR_ESRCH, r, None)
      else
        (case flag_heap r ef of None \<Rightarrow> (OK, r, None)
         | Some f \<Rightarrow>
             (let f' = f\<lparr>ef_open_references := ef_open_references f - 1\<rparr>; r1 = r\<lparr>flag_heap := (flag_heap r)(ef := Some f')\<rparr> in
              if ef_open_references f' = 0
              then (let r2 = RemovePublishedName ef r1 in
                (OK, r2\<lparr>g_event_flags := g_event_flags r2 - {ef}, flag_heap := (flag_heap r2)(ef := None)\<rparr>, Some f'))
              else (OK, r1, None))))"

definition KernelDeleteEventFlag :: "nat \<Rightarrow> flag_registry \<Rightarrow> int \<times> flag_registry \<times> EventFlag option" where
  "KernelDeleteEventFlag ef r =
     (if ef = 0 then (KERNEL_ERROR_ESRCH, r, None)
      else if ef \<notin> g_event_flags r then (KERNEL_ERROR_ESRCH, r, None)
      else
        (let r2 = RemovePublishedName ef r in
         (OK, r2\<lparr>g_event_flags := g_event_flags r2 - {ef}, flag_heap := (flag_heap r2)(ef := None)\<rparr>, flag_heap r ef)))"

section \<open>The calls on a flag\<close>

definition flag_wait_code :: "FlagResult \<Rightarrow> int" where
  "flag_wait_code r = (case r of FlagOk \<Rightarrow> OK | FlagAlreadyWaiting \<Rightarrow> KERNEL_ERROR_EPERM | FlagTimedOut \<Rightarrow> KERNEL_ERROR_ETIMEDOUT
     | FlagCanceled \<Rightarrow> KERNEL_ERROR_ECANCELED | FlagDeleted \<Rightarrow> KERNEL_ERROR_EACCES)"

definition flag_poll_code :: "FlagResult \<Rightarrow> int" where
  "flag_poll_code r = (case r of FlagOk \<Rightarrow> OK | FlagAlreadyWaiting \<Rightarrow> KERNEL_ERROR_EPERM | _ \<Rightarrow> KERNEL_ERROR_EBUSY)"

text \<open>The first component is the code, None while the call sleeps.\<close>

definition KernelWaitEventFlag ::
  "EventFlag option \<Rightarrow> 64 word \<Rightarrow> 32 word \<Rightarrow> nat option \<Rightarrow> (int option \<times> 64 word option \<times> nat option \<times> EventFlag option) option" where
  "KernelWaitEventFlag ef bit_pattern wait_mode timeout =
     (case ef of None \<Rightarrow> Some (Some KERNEL_ERROR_ESRCH, None, timeout, None)
      | Some f \<Rightarrow>
          if bit_pattern = 0 then Some (Some KERNEL_ERROR_EINVAL, None, timeout, Some f)
          else do {
            (w, c) \<leftarrow> DecodeEventFlagWaitMode wait_mode;
            Some (case Flag_Wait_begin bit_pattern w c timeout f of
              (FlagReturned r res left, f') \<Rightarrow> (Some (flag_wait_code r), res, left, Some f')
            | (FlagSleeping, f') \<Rightarrow> (None, None, timeout, Some f')) })"

definition KernelPollEventFlag ::
  "EventFlag option \<Rightarrow> 64 word \<Rightarrow> 32 word \<Rightarrow> (int option \<times> 64 word option \<times> EventFlag option) option" where
  "KernelPollEventFlag ef bit_pattern wait_mode =
     (case ef of None \<Rightarrow> Some (Some KERNEL_ERROR_ESRCH, None, None)
      | Some f \<Rightarrow>
          if bit_pattern = 0 then Some (Some KERNEL_ERROR_EINVAL, None, Some f)
          else do {
            (w, c) \<leftarrow> DecodeEventFlagWaitMode wait_mode;
            Some (case Flag_Poll bit_pattern w c f of
              (FlagReturned r res left, f') \<Rightarrow> (Some (flag_poll_code r), res, Some f')
            | (FlagSleeping, f') \<Rightarrow> (None, None, Some f')) })"

definition KernelSetEventFlag :: "EventFlag option \<Rightarrow> 64 word \<Rightarrow> (int \<times> EventFlag option) spin option" where
  "KernelSetEventFlag ef bit_pattern =
     (case ef of None \<Rightarrow> Some (Step (KERNEL_ERROR_ESRCH, None))
      | Some f \<Rightarrow> map_option (map_spin (\<lambda>f'. (OK, Some f'))) (Flag_Set bit_pattern f))"

definition KernelClearEventFlag :: "EventFlag option \<Rightarrow> 64 word \<Rightarrow> (int \<times> EventFlag option) spin option" where
  "KernelClearEventFlag ef bit_pattern =
     (case ef of None \<Rightarrow> Some (Step (KERNEL_ERROR_ESRCH, None))
      | Some f \<Rightarrow> map_option (map_spin (\<lambda>f'. (OK, Some f'))) (Flag_Clear bit_pattern f))"

text \<open>The step of \<open>Cancel\<close> that starts the cancellation.\<close>

definition KernelCancelEventFlag :: "EventFlag option \<Rightarrow> 64 word \<Rightarrow> (int \<times> int option \<times> EventFlag option) spin option" where
  "KernelCancelEventFlag ef set_pattern =
     (case ef of None \<Rightarrow> Some (Step (KERNEL_ERROR_ESRCH, None, None))
      | Some f \<Rightarrow> map_option (map_spin (\<lambda>(f', n). (OK, Some n, Some f'))) (Flag_Cancel_begin set_pattern f))"

section \<open>Waiting\<close>

lemma flag_matches_iff:
  "flag_matches bits wait_mode m \<longleftrightarrow>
     (case wait_mode of WaitAnd \<Rightarrow> \<forall>i<64. bit bits i \<longrightarrow> bit m i | WaitOr \<Rightarrow> \<exists>i<64. bit bits i \<and> bit m i)"
proof (cases wait_mode)
  case WaitAnd
  have "m AND bits = bits \<longleftrightarrow> (\<forall>i<64. bit bits i \<longrightarrow> bit m i)"
    by (auto simp: bit_eq_iff bit_and_iff dest: bit_imp_le_length)
  then show ?thesis using WaitAnd by (simp add: flag_matches_def)
next
  case WaitOr
  have "m AND bits \<noteq> 0 \<longleftrightarrow> (\<exists>i<64. bit bits i \<and> bit m i)"
    by (auto simp: bit_eq_iff bit_and_iff dest: bit_imp_le_length)
  then show ?thesis using WaitOr by (simp add: flag_matches_def)
qed

lemma clear_bits_iff:
  "bit (clear_bits c bits m) i \<longleftrightarrow> (case c of ClearNone \<Rightarrow> bit m i | ClearAll \<Rightarrow> False | ClearBits \<Rightarrow> bit m i \<and> \<not> bit bits i)"
  by (cases c) (auto simp: clear_bits_def bit_and_iff bit_not_iff dest: bit_imp_le_length)

section \<open>Interleavings\<close>

record flag_wait =
  fw_bits :: "64 word"
  fw_wait_mode :: WaitMode
  fw_clear_mode :: ClearMode
  fw_micros :: "nat option"

text \<open>A flag and the waits that sleep, by thread.\<close>

record flag_sys =
  fy_flag :: EventFlag
  fy_waits :: "nat \<Rightarrow> flag_wait option"

definition wait_turn :: "flag_wait \<Rightarrow> nat \<Rightarrow> EventFlag \<Rightarrow> flag_outcome \<times> EventFlag" where
  "wait_turn w elapsed f = Flag_Wait_turn (fw_bits w) (fw_wait_mode w) (fw_clear_mode w) (fw_micros w) elapsed f"

inductive flag_step :: "flag_sys \<Rightarrow> flag_sys \<Rightarrow> bool" where
  flag_wait: "fy_waits y a = None \<Longrightarrow> Flag_Wait_begin (fw_bits w) (fw_wait_mode w) (fw_clear_mode w) (fw_micros w) (fy_flag y) = (out, f') \<Longrightarrow>
    flag_step y (y\<lparr>fy_flag := f', fy_waits := (if out = FlagSleeping then (fy_waits y)(a := Some w) else fy_waits y)\<rparr>)"
| flag_turn: "fy_waits y a = Some w \<Longrightarrow> wait_turn w elapsed (fy_flag y) = (out, f') \<Longrightarrow>
    flag_step y (y\<lparr>fy_flag := f', fy_waits := (if out = FlagSleeping then fy_waits y else (fy_waits y)(a := None))\<rparr>)"
| flag_set: "Flag_Set bits (fy_flag y) = Some (Step f') \<Longrightarrow> flag_step y (y\<lparr>fy_flag := f'\<rparr>)"
| flag_clear: "Flag_Clear bits (fy_flag y) = Some (Step f') \<Longrightarrow> flag_step y (y\<lparr>fy_flag := f'\<rparr>)"
| flag_cancel: "Flag_Cancel_begin bits (fy_flag y) = Some (Step (f', n)) \<Longrightarrow> flag_step y (y\<lparr>fy_flag := f'\<rparr>)"
| flag_cancel_end: "ef_status (fy_flag y) = FlagStatusCanceled \<Longrightarrow> Flag_Cancel_end (fy_flag y) = Step f' \<Longrightarrow> flag_step y (y\<lparr>fy_flag := f'\<rparr>)"
| flag_destroy: "Flag_Destroy_begin (fy_flag y) = Step f' \<Longrightarrow> flag_step y (y\<lparr>fy_flag := f'\<rparr>)"

inductive flag_steps :: "flag_sys \<Rightarrow> flag_sys \<Rightarrow> bool" where
  flag_refl: "flag_steps y y"
| flag_more: "flag_steps x y \<Longrightarrow> flag_step y z \<Longrightarrow> flag_steps x z"

definition new_flag_sys :: "string \<Rightarrow> bool \<Rightarrow> bool \<Rightarrow> 64 word \<Rightarrow> flag_sys" where
  "new_flag_sys name single fifo bits = \<lparr>fy_flag = new_event_flag name single fifo bits, fy_waits = (\<lambda>a. None)\<rparr>"

definition flag_ok :: "flag_sys \<Rightarrow> bool" where
  "flag_ok y \<longleftrightarrow> finite (dom (fy_waits y)) \<and> ef_waiting_threads (fy_flag y) = int (card (dom (fy_waits y))) \<and>
     (ef_single_thread (fy_flag y) \<longrightarrow> card (dom (fy_waits y)) \<le> 1)"

lemma Flag_Wait_head_cases:
  assumes "Flag_Wait_head bits w c t e f = (out, f')"
  shows "out = FlagSleeping \<and> \<not> flag_matches bits w (ef_bits f) \<and> f' = f\<lparr>ef_waiting_threads := ef_waiting_threads f + 1\<rparr> \<and> (\<forall>micros. t = Some micros \<longrightarrow> e < micros) \<or>
    out = FlagReturned FlagTimedOut (Some (ef_bits f)) (time_left t e) \<and> \<not> flag_matches bits w (ef_bits f) \<and> f' = f \<and> (\<exists>micros. t = Some micros \<and> micros \<le> e) \<or>
    out = FlagReturned FlagOk (Some (ef_bits f)) (time_left t e) \<and> flag_matches bits w (ef_bits f) \<and> f' = f\<lparr>ef_bits := clear_bits c bits (ef_bits f)\<rparr>"
  using assms by (cases t) (auto simp: Flag_Wait_head_def split: if_splits)

lemma flag_step_ok: "flag_step y y' \<Longrightarrow> flag_ok y \<Longrightarrow> flag_ok y'"
proof (induction rule: flag_step.induct)
  case (flag_wait y a w out f')
  have a: "a \<notin> dom (fy_waits y)" using flag_wait.hyps(1) by auto
  show ?case
  proof (cases "ef_single_thread (fy_flag y) \<and> ef_waiting_threads (fy_flag y) > 0")
    case True
    then show ?thesis using flag_wait.prems flag_wait.hyps(2) by (auto simp: Flag_Wait_begin_def)
  next
    case False
    then have h: "Flag_Wait_head (fw_bits w) (fw_wait_mode w) (fw_clear_mode w) (fw_micros w) 0 (fy_flag y) = (out, f')"
      using flag_wait.hyps(2) by (auto simp: Flag_Wait_begin_def split: if_splits)
    have "ef_single_thread (fy_flag y) \<Longrightarrow> card (dom (fy_waits y)) = 0" using False flag_wait.prems by (simp add: flag_ok_def)
    then show ?thesis using Flag_Wait_head_cases [OF h] flag_wait.prems a unfolding flag_ok_def by auto
  qed
next
  case (flag_turn y a w elapsed out f')
  have a: "a \<in> dom (fy_waits y)" using flag_turn.hyps(1) by auto
  then have pos: "0 < card (dom (fy_waits y))" using flag_turn.prems by (auto simp: flag_ok_def card_gt_0_iff)
  have rm: "card (dom (fy_waits y) - {a}) = card (dom (fy_waits y)) - 1" using a flag_turn.prems by (simp add: flag_ok_def)
  let ?f = "(fy_flag y)\<lparr>ef_waiting_threads := ef_waiting_threads (fy_flag y) - 1\<rparr>"
  show ?case
  proof (cases "ef_status (fy_flag y)")
    case FlagStatusSet
    then have h: "Flag_Wait_head (fw_bits w) (fw_wait_mode w) (fw_clear_mode w) (fw_micros w) elapsed ?f = (out, f')"
      using flag_turn.hyps(2) by (simp add: wait_turn_def Flag_Wait_turn_def Let_def)
    show ?thesis using Flag_Wait_head_cases [OF h] flag_turn.prems rm pos unfolding flag_ok_def by (auto simp: of_nat_diff)
  next
    case FlagStatusCanceled
    then have "out \<noteq> FlagSleeping" "f' = ?f" using flag_turn.hyps(2) by (auto simp: wait_turn_def Flag_Wait_turn_def Let_def)
    then show ?thesis using flag_turn.prems rm pos unfolding flag_ok_def by (auto simp: of_nat_diff)
  next
    case FlagStatusDeleted
    then have "out \<noteq> FlagSleeping" "f' = ?f" using flag_turn.hyps(2) by (auto simp: wait_turn_def Flag_Wait_turn_def Let_def)
    then show ?thesis using flag_turn.prems rm pos unfolding flag_ok_def by (auto simp: of_nat_diff)
  qed
next
  case (flag_set bits y f')
  then show ?case by (auto simp: Flag_Set_def flag_ok_def split: if_splits)
next
  case (flag_clear bits y f')
  then show ?case by (auto simp: Flag_Clear_def flag_ok_def split: if_splits)
next
  case (flag_cancel bits y f' n)
  then show ?case by (auto simp: Flag_Cancel_begin_def flag_ok_def split: if_splits)
next
  case (flag_cancel_end y f')
  then show ?case by (auto simp: Flag_Cancel_end_def flag_ok_def split: if_splits)
next
  case (flag_destroy y f')
  then show ?case by (auto simp: Flag_Destroy_begin_def flag_ok_def split: if_splits)
qed

lemma flag_steps_ok: "flag_steps y y' \<Longrightarrow> flag_ok y \<Longrightarrow> flag_ok y'"
  by (induction rule: flag_steps.induct) (auto intro: flag_step_ok)

lemma new_flag_ok: "flag_ok (new_flag_sys name single fifo bits)"
  by (simp add: flag_ok_def new_flag_sys_def new_event_flag_def)

text \<open>The sleeping threads take a turn one after the other, in any order.\<close>

fun drain_flag :: "(flag_wait \<times> nat) list \<Rightarrow> EventFlag \<Rightarrow> flag_outcome list \<times> EventFlag" where
  "drain_flag [] f = ([], f)"
| "drain_flag ((w, elapsed) # xs) f =
     (let (out, f1) = wait_turn w elapsed f; (outs, f2) = drain_flag xs f1 in (out # outs, f2))"

lemma drain_flag_ends:
  assumes "ef_status f \<noteq> FlagStatusSet"
  shows "drain_flag xs f = (map (\<lambda>(w, e). FlagReturned (if ef_status f = FlagStatusCanceled then FlagCanceled else FlagDeleted)
      (Some (ef_bits f)) (time_left (fw_micros w) e)) xs, f\<lparr>ef_waiting_threads := ef_waiting_threads f - int (length xs)\<rparr>)"
  using assms
proof (induction xs arbitrary: f)
  case (Cons x xs)
  obtain w e where x: "x = (w, e)" by fastforce
  have t: "wait_turn w e f = (FlagReturned (if ef_status f = FlagStatusCanceled then FlagCanceled else FlagDeleted)
      (Some (ef_bits f)) (time_left (fw_micros w) e), f\<lparr>ef_waiting_threads := ef_waiting_threads f - 1\<rparr>)"
    using Cons.prems by (cases "ef_status f") (auto simp: wait_turn_def Flag_Wait_turn_def Let_def)
  show ?case using Cons.IH [of "f\<lparr>ef_waiting_threads := ef_waiting_threads f - 1\<rparr>"] Cons.prems by (simp add: x t algebra_simps)
qed simp

section \<open>The registry's invariant\<close>

text \<open>Operations on a flag change neither its name nor its references (\<open>registry_use\<close>).\<close>

inductive registry_reachable :: "flag_registry \<Rightarrow> bool" where
  registry_new: "registry_reachable new_flag_registry"
| registry_create: "registry_reachable r \<Longrightarrow> fresh \<noteq> 0 \<Longrightarrow> flag_heap r fresh = None \<Longrightarrow>
    registry_reachable (snd (snd (KernelCreateEventFlag fresh ef_null name attr bits param_null r)))"
| registry_open: "registry_reachable r \<Longrightarrow> registry_reachable (snd (snd (KernelOpenEventFlag ef_null name r)))"
| registry_close: "registry_reachable r \<Longrightarrow> registry_reachable (fst (snd (KernelCloseEventFlag ef r)))"
| registry_delete: "registry_reachable r \<Longrightarrow> registry_reachable (fst (snd (KernelDeleteEventFlag ef r)))"
| registry_use: "registry_reachable r \<Longrightarrow> flag_heap r ef = Some f \<Longrightarrow> ef_name f' = ef_name f \<Longrightarrow>
    ef_open_references f' = ef_open_references f \<Longrightarrow> registry_reachable (r\<lparr>flag_heap := (flag_heap r)(ef := Some f')\<rparr>)"

definition registry_ok :: "flag_registry \<Rightarrow> bool" where
  "registry_ok r \<longleftrightarrow> g_event_flags r = dom (flag_heap r) \<and> flag_heap r 0 = None \<and>
     (\<forall>a f. flag_heap r a = Some f \<longrightarrow> 1 \<le> ef_open_references f) \<and>
     (\<forall>n a. g_named_event_flags r n = Some a \<longrightarrow> (\<exists>f. flag_heap r a = Some f \<and> ef_name f = n))"

lemma RemovePublishedName_spec:
  assumes f: "flag_heap r ef = Some f" and n: "\<forall>n. g_named_event_flags r n = Some ef \<longrightarrow> n = ef_name f"
  shows "flag_heap (RemovePublishedName ef r) = flag_heap r" and "g_event_flags (RemovePublishedName ef r) = g_event_flags r"
    and "g_named_event_flags (RemovePublishedName ef r) m = (if g_named_event_flags r m = Some ef then None else g_named_event_flags r m)"
proof -
  show "flag_heap (RemovePublishedName ef r) = flag_heap r" "g_event_flags (RemovePublishedName ef r) = g_event_flags r"
    by (simp_all add: RemovePublishedName_def f)
  show "g_named_event_flags (RemovePublishedName ef r) m = (if g_named_event_flags r m = Some ef then None else g_named_event_flags r m)"
  proof (cases "m = ef_name f")
    case True
    then show ?thesis by (simp add: RemovePublishedName_def f)
  next
    case False
    then have "g_named_event_flags r m \<noteq> Some ef" using n by blast
    then show ?thesis using False by (simp add: RemovePublishedName_def f)
  qed
qed

lemma registry_name:
  "registry_ok r \<Longrightarrow> flag_heap r ef = Some f \<Longrightarrow> \<forall>n. g_named_event_flags r n = Some ef \<longrightarrow> n = ef_name f"
  unfolding registry_ok_def by (metis option.inject)

lemma replace_flag_ok:
  assumes ok: "registry_ok r" and f: "flag_heap r ef = Some f" and f': "ef_name f' = ef_name f" "1 \<le> ef_open_references f'"
  shows "registry_ok (r\<lparr>flag_heap := (flag_heap r)(ef := Some f')\<rparr>)"
proof -
  have "ef \<noteq> 0" using ok f by (metis option.distinct(1) registry_ok_def)
  moreover have "ef_name f = n" if "g_named_event_flags r n = Some ef" for n using registry_name [OF ok f] that by metis
  ultimately show ?thesis using ok f f' unfolding registry_ok_def by (auto split: if_splits)
qed

lemma drop_flag_ok:
  assumes ok: "registry_ok r" and h: "flag_heap r' = (flag_heap r)(ef := None)" and g: "g_event_flags r' = g_event_flags r - {ef}"
    and n: "\<forall>n. g_named_event_flags r' n = (if g_named_event_flags r n = Some ef then None else g_named_event_flags r n)"
  shows "registry_ok r'"
  using ok unfolding registry_ok_def h g n [rule_format] by (auto split: if_splits)

lemma registry_create_ok:
  assumes ok: "registry_ok r" and "fresh \<noteq> 0" and "flag_heap r fresh = None"
  shows "registry_ok (snd (snd (KernelCreateEventFlag fresh ef_null name attr bits param_null r)))"
proof -
  have "\<And>n. g_named_event_flags r n \<noteq> Some fresh" using ok assms(3) by (fastforce simp: registry_ok_def)
  then show ?thesis using assms unfolding KernelCreateEventFlag_def registry_ok_def
    by (auto simp: new_event_flag_def split: option.splits if_splits)
qed

lemma registry_reachable_ok: "registry_reachable r \<Longrightarrow> registry_ok r"
proof (induction rule: registry_reachable.induct)
  case registry_new
  then show ?case by (simp add: registry_ok_def new_flag_registry_def)
next
  case (registry_create r fresh ef_null name attr bits param_null)
  then show ?case using registry_create_ok by blast
next
  case (registry_open r ef_null name)
  then show ?case by (fastforce simp: KernelOpenEventFlag_def registry_ok_def split: option.splits if_splits)
next
  case (registry_close r ef)
  show ?case
  proof (cases "ef = 0 \<or> ef \<notin> g_event_flags r")
    case True
    then show ?thesis using registry_close by (auto simp: KernelCloseEventFlag_def)
  next
    case False
    then obtain f where f: "flag_heap r ef = Some f" using registry_close.IH by (auto simp: registry_ok_def)
    define f' where "f' = f\<lparr>ef_open_references := ef_open_references f - 1\<rparr>"
    define r1 where "r1 = r\<lparr>flag_heap := (flag_heap r)(ef := Some f')\<rparr>"
    have r1: "flag_heap r1 ef = Some f'" "flag_heap r1 = (flag_heap r)(ef := Some f')" "g_event_flags r1 = g_event_flags r"
      "g_named_event_flags r1 = g_named_event_flags r" by (simp_all add: r1_def)
    have nm: "\<forall>n. g_named_event_flags r1 n = Some ef \<longrightarrow> n = ef_name f'" using registry_name [OF registry_close.IH f] by (simp add: r1(4) f'_def)
    show ?thesis
    proof (cases "ef_open_references f' = 0")
      case True
      have eq: "fst (snd (KernelCloseEventFlag ef r)) = (RemovePublishedName ef r1)\<lparr>g_event_flags := g_event_flags (RemovePublishedName ef r1) - {ef},
          flag_heap := (flag_heap (RemovePublishedName ef r1))(ef := None)\<rparr>"
        unfolding KernelCloseEventFlag_def f option.case Let_def f'_def [symmetric] r1_def [symmetric] if_P [OF True]
        using False by (simp only: if_False de_Morgan_disj fst_conv snd_conv)
      note sp = RemovePublishedName_spec [OF r1(1) nm]
      show ?thesis by (rule drop_flag_ok [OF registry_close.IH, of _ ef]) (simp_all add: eq sp r1)
    next
      case ref: False
      have eq: "fst (snd (KernelCloseEventFlag ef r)) = r1"
        unfolding KernelCloseEventFlag_def f option.case Let_def f'_def [symmetric] r1_def [symmetric] if_not_P [OF ref]
        using False by (simp only: if_False de_Morgan_disj fst_conv snd_conv)
      have "1 \<le> ef_open_references f'" using registry_close.IH f ref unfolding registry_ok_def f'_def by force
      then show ?thesis using replace_flag_ok [OF registry_close.IH f] unfolding eq r1_def by (simp add: f'_def)
    qed
  qed
next
  case (registry_delete r ef)
  show ?case
  proof (cases "ef = 0 \<or> ef \<notin> g_event_flags r")
    case True
    then show ?thesis using registry_delete by (auto simp: KernelDeleteEventFlag_def)
  next
    case False
    then obtain f where f: "flag_heap r ef = Some f" using registry_delete.IH by (auto simp: registry_ok_def)
    note sp = RemovePublishedName_spec [OF f registry_name [OF registry_delete.IH f]]
    show ?thesis by (rule drop_flag_ok [OF registry_delete.IH, of _ ef]) (use False in \<open>simp_all add: KernelDeleteEventFlag_def Let_def sp\<close>)
  qed
next
  case (registry_use r ef f f')
  moreover have "1 \<le> ef_open_references f" using registry_use.IH registry_use.hyps(2) by (simp add: registry_ok_def)
  ultimately show ?case using replace_flag_ok [OF registry_use.IH registry_use.hyps(2), of f'] by simp
qed

section \<open>Properties\<close>

text \<open>
  C20: What a wait does. On a flag for one thread it fails when another thread waits. Otherwise, at the
  call and at every wake-up while no cancellation or deletion is on, it succeeds exactly if all (AND) or
  one (OR) of its bits are set, reports the bits it saw and clears all bits, its own or none; it times
  out exactly when its time is up, also reporting the bits; and else it sleeps, having changed nothing
  but the number of waiters.
\<close>

theorem flag_wait_exact:
  fixes bits :: "64 word"
  assumes "ef_status f = FlagStatusSet" and "turn = Flag_Wait_turn bits w c t e (f\<lparr>ef_waiting_threads := ef_waiting_threads f + 1\<rparr>)"
    and "begin = Flag_Wait_begin bits w c t f"
  defines "holds \<equiv> (case w of WaitAnd \<Rightarrow> \<forall>i<64. bit bits i \<longrightarrow> bit (ef_bits f) i | WaitOr \<Rightarrow> \<exists>i<64. bit bits i \<and> bit (ef_bits f) i)"
  shows "(if holds then fst turn = FlagReturned FlagOk (Some (ef_bits f)) (time_left t e) \<and>
      (\<forall>i. bit (ef_bits (snd turn)) i \<longleftrightarrow>
        (case c of ClearNone \<Rightarrow> bit (ef_bits f) i | ClearAll \<Rightarrow> False | ClearBits \<Rightarrow> bit (ef_bits f) i \<and> \<not> bit bits i)) \<and>
      snd turn = f\<lparr>ef_bits := ef_bits (snd turn)\<rparr>
    else if (\<exists>micros. t = Some micros \<and> micros \<le> e) then turn = (FlagReturned FlagTimedOut (Some (ef_bits f)) (Some 0), f)
    else turn = (FlagSleeping, f\<lparr>ef_waiting_threads := ef_waiting_threads f + 1\<rparr>)) \<and>
    (if ef_single_thread f \<and> 0 < ef_waiting_threads f then begin = (FlagReturned FlagAlreadyWaiting None t, f)
     else begin = Flag_Wait_turn bits w c t 0 (f\<lparr>ef_waiting_threads := ef_waiting_threads f + 1\<rparr>))"
proof -
  have turn: "turn = Flag_Wait_head bits w c t e f" "Flag_Wait_turn bits w c t 0 (f\<lparr>ef_waiting_threads := ef_waiting_threads f + 1\<rparr>) = Flag_Wait_head bits w c t 0 f"
    using assms(1,2) by (simp_all add: Flag_Wait_turn_def Let_def)
  have h: "holds \<longleftrightarrow> flag_matches bits w (ef_bits f)" unfolding holds_def flag_matches_iff by (cases w) simp_all
  have b: "if ef_single_thread f \<and> 0 < ef_waiting_threads f then begin = (FlagReturned FlagAlreadyWaiting None t, f)
     else begin = Flag_Wait_head bits w c t 0 f" unfolding assms(3) Flag_Wait_begin_def by simp
  show ?thesis
  proof (cases "flag_matches bits w (ef_bits f)")
    case True
    then have "turn = (FlagReturned FlagOk (Some (ef_bits f)) (time_left t e), f\<lparr>ef_bits := clear_bits c bits (ef_bits f)\<rparr>)"
      by (simp add: turn(1) Flag_Wait_head_def)
    then show ?thesis using True b unfolding h turn(2) by (simp add: clear_bits_iff)
  next
    case False
    define late where "late \<longleftrightarrow> (\<exists>micros. t = Some micros \<and> micros \<le> e)"
    have "turn = (if late then (FlagReturned FlagTimedOut (Some (ef_bits f)) (Some 0), f)
        else (FlagSleeping, f\<lparr>ef_waiting_threads := ef_waiting_threads f + 1\<rparr>))"
      using False unfolding turn(1) late_def by (cases t) (auto simp: Flag_Wait_head_def time_left_def)
    then show ?thesis using False b unfolding h turn(2) late_def [symmetric] by (cases late) simp_all
  qed
qed

lemma flag_wait_exact_witness:
  "fst (Flag_Wait_turn 6 WaitOr ClearBits (Some 10) 4 (new_event_flag ''f'' True True 5\<lparr>ef_waiting_threads := 1\<rparr>)) =
     FlagReturned FlagOk (Some 5) (Some 6) \<and>
   bit (ef_bits (snd (Flag_Wait_turn 6 WaitOr ClearBits (Some 10) 4 (new_event_flag ''f'' True True 5\<lparr>ef_waiting_threads := 1\<rparr>)))) 0"
proof -
  let ?f = "new_event_flag ''f'' True True 5"
  have f: "ef_status ?f = FlagStatusSet" "ef_bits ?f = 5" "?f\<lparr>ef_waiting_threads := ef_waiting_threads ?f + 1\<rparr> = ?f\<lparr>ef_waiting_threads := 1\<rparr>"
    by (simp_all add: new_event_flag_def)
  have h: "\<exists>i<64. bit (6 :: 64 word) i \<and> bit (5 :: 64 word) i" by (rule exI [of _ 2]) (simp add: bit_numeral_rec)
  have b: "bit (5 :: 64 word) 0" "\<not> bit (6 :: 64 word) 0" by (simp_all add: bit_numeral_rec)
  show ?thesis
    using flag_wait_exact [OF f(1) refl refl, of 6 WaitOr ClearBits "Some 10" 4] h b unfolding f(2,3) by (simp add: time_left_def)
qed

text \<open>
  C21: A cancellation ends. In every reachable state the number of waiters is the number of sleeping
  threads (at most one on a flag for one thread); once a flag is being cancelled or deleted, whatever the
  order in which the sleeping threads wake and their time-outs, each returns Canceled (Deleted) with the
  current bits, after which \<open>Cancel\<close> leaves its loop with the flag usable again (the destructor leaves its).
\<close>

theorem flag_cancel_drains:
  assumes "flag_steps (new_flag_sys name single fifo init_bits) y" and "ef_status (fy_flag y) \<noteq> FlagStatusSet"
    and "distinct threads" and "set threads = dom (fy_waits y)" and "xs = map (\<lambda>a. (the (fy_waits y a), elapsed a)) threads"
  shows "(\<forall>out\<in>set (fst (drain_flag xs (fy_flag y))). \<exists>left. out =
      FlagReturned (if ef_status (fy_flag y) = FlagStatusCanceled then FlagCanceled else FlagDeleted) (Some (ef_bits (fy_flag y))) left) \<and>
    ef_waiting_threads (snd (drain_flag xs (fy_flag y))) = 0 \<and>
    Flag_Cancel_end (snd (drain_flag xs (fy_flag y))) =
      Step ((fy_flag y)\<lparr>ef_waiting_threads := 0, ef_status := FlagStatusSet\<rparr>) \<and>
    Flag_Destroy_done (snd (drain_flag xs (fy_flag y))) \<and>
    (ef_single_thread (fy_flag y) \<longrightarrow> length threads \<le> 1)"
proof -
  have ok: "flag_ok y" by (rule flag_steps_ok [OF assms(1) new_flag_ok])
  have "length threads = card (dom (fy_waits y))" using assms(3,4) by (metis distinct_card)
  then have n: "ef_waiting_threads (fy_flag y) = int (length xs)" "length xs = length threads" "ef_single_thread (fy_flag y) \<longrightarrow> length threads \<le> 1"
    using ok by (simp_all add: flag_ok_def assms(5))
  show ?thesis unfolding drain_flag_ends [OF assms(2), of xs] using n by (auto simp: Flag_Cancel_end_def Flag_Destroy_done_def)
qed

lemma flag_cancel_drains_witness:
  "\<exists>y. flag_steps (new_flag_sys ''f'' True True 0) y \<and> ef_status (fy_flag y) = FlagStatusCanceled \<and> ef_waiting_threads (fy_flag y) = 1 \<and>
     (\<exists>left. fst (drain_flag [(the (fy_waits y 7), 3)] (fy_flag y)) = [FlagReturned FlagCanceled (Some 9) left])"
proof -
  let ?w = "\<lparr>fw_bits = 1, fw_wait_mode = WaitAnd, fw_clear_mode = ClearNone, fw_micros = None\<rparr>"
  let ?y0 = "new_flag_sys ''f'' True True 0"
  let ?f1 = "(fy_flag ?y0)\<lparr>ef_waiting_threads := 1\<rparr>"
  let ?y1 = "?y0\<lparr>fy_flag := ?f1, fy_waits := [7 \<mapsto> ?w]\<rparr>"
  let ?f2 = "?f1\<lparr>ef_status := FlagStatusCanceled, ef_bits := 9\<rparr>"
  let ?y2 = "?y1\<lparr>fy_flag := ?f2\<rparr>"
  have 1: "flag_step ?y0 ?y1"
    using flag_wait [of ?y0 7 ?w FlagSleeping ?f1]
    by (simp add: new_flag_sys_def new_event_flag_def Flag_Wait_begin_def Flag_Wait_head_def flag_matches_def)
  have 2: "flag_step ?y1 ?y2"
    using EventFlag.flag_cancel [of 9 ?y1 ?f2 1] by (simp add: new_flag_sys_def new_event_flag_def Flag_Cancel_begin_def)
  have s: "flag_steps ?y0 ?y2" by (rule flag_more [OF flag_more [OF flag_refl 1] 2])
  have st: "ef_status (fy_flag ?y2) = FlagStatusCanceled" "ef_status (fy_flag ?y2) \<noteq> FlagStatusSet" "ef_bits (fy_flag ?y2) = 9"
    "ef_waiting_threads (fy_flag ?y2) = 1" "set [7] = dom (fy_waits ?y2)" by simp_all
  have "\<forall>out\<in>set (fst (drain_flag [(the (fy_waits ?y2 7), 3)] (fy_flag ?y2))). \<exists>left. out = FlagReturned FlagCanceled (Some 9) left"
    using flag_cancel_drains [OF s st(2) _ st(5) refl, of "\<lambda>a. 3"] st by simp
  then show ?thesis using s st by (intro exI [of _ ?y2]) (auto simp: Let_def split: prod.splits)
qed

lemma KernelCloseEventFlag_live:
  assumes ok: "registry_ok r" and f: "flag_heap r a = Some f"
  shows "fst (KernelCloseEventFlag a r) = OK" and
    "snd (snd (KernelCloseEventFlag a r)) = (if ef_open_references f = 1 then Some (f\<lparr>ef_open_references := 0\<rparr>) else None)" and
    "flag_heap (fst (snd (KernelCloseEventFlag a r))) = (flag_heap r)(a :=
      (if ef_open_references f = 1 then None else Some (f\<lparr>ef_open_references := ef_open_references f - 1\<rparr>)))" and
    "g_event_flags (fst (snd (KernelCloseEventFlag a r))) = (if ef_open_references f = 1 then g_event_flags r - {a} else g_event_flags r)" and
    "g_named_event_flags (fst (snd (KernelCloseEventFlag a r))) n =
      (if ef_open_references f = 1 \<and> g_named_event_flags r n = Some a then None else g_named_event_flags r n)"
proof -
  let ?r1 = "r\<lparr>flag_heap := (flag_heap r)(a \<mapsto> f\<lparr>ef_open_references := 0\<rparr>)\<rparr>"
  have h: "a \<noteq> 0" "a \<in> g_event_flags r" using ok f unfolding registry_ok_def by (metis option.distinct(1), metis domI)
  have nm: "\<forall>n. g_named_event_flags ?r1 n = Some a \<longrightarrow> n = ef_name (f\<lparr>ef_open_references := 0\<rparr>)"
    using registry_name [OF ok f] by simp
  have f1: "flag_heap ?r1 a = Some (f\<lparr>ef_open_references := 0\<rparr>)" by simp
  note sp = RemovePublishedName_spec [OF f1 nm]
  have "fst (KernelCloseEventFlag a r) = OK \<and>
    snd (snd (KernelCloseEventFlag a r)) = (if ef_open_references f = 1 then Some (f\<lparr>ef_open_references := 0\<rparr>) else None) \<and>
    flag_heap (fst (snd (KernelCloseEventFlag a r))) = (flag_heap r)(a :=
      (if ef_open_references f = 1 then None else Some (f\<lparr>ef_open_references := ef_open_references f - 1\<rparr>))) \<and>
    g_event_flags (fst (snd (KernelCloseEventFlag a r))) = (if ef_open_references f = 1 then g_event_flags r - {a} else g_event_flags r) \<and>
    g_named_event_flags (fst (snd (KernelCloseEventFlag a r))) n =
      (if ef_open_references f = 1 \<and> g_named_event_flags r n = Some a then None else g_named_event_flags r n)"
    using h f by (cases "ef_open_references f = 1") (simp_all add: KernelCloseEventFlag_def Let_def sp)
  then show "fst (KernelCloseEventFlag a r) = OK" and
    "snd (snd (KernelCloseEventFlag a r)) = (if ef_open_references f = 1 then Some (f\<lparr>ef_open_references := 0\<rparr>) else None)" and
    "flag_heap (fst (snd (KernelCloseEventFlag a r))) = (flag_heap r)(a :=
      (if ef_open_references f = 1 then None else Some (f\<lparr>ef_open_references := ef_open_references f - 1\<rparr>)))" and
    "g_event_flags (fst (snd (KernelCloseEventFlag a r))) = (if ef_open_references f = 1 then g_event_flags r - {a} else g_event_flags r)" and
    "g_named_event_flags (fst (snd (KernelCloseEventFlag a r))) n =
      (if ef_open_references f = 1 \<and> g_named_event_flags r n = Some a then None else g_named_event_flags r n)" by blast+
qed

text \<open>Closing a flag several times.\<close>

definition close_flag :: "nat \<Rightarrow> flag_registry \<Rightarrow> flag_registry" where
  "close_flag a r = fst (snd (KernelCloseEventFlag a r))"

lemma close_flag_live:
  assumes "registry_ok r" and "flag_heap r a = Some f"
  shows "flag_heap (close_flag a r) = (flag_heap r)(a :=
      (if ef_open_references f = 1 then None else Some (f\<lparr>ef_open_references := ef_open_references f - 1\<rparr>)))"
    and "g_named_event_flags (close_flag a r) n =
      (if ef_open_references f = 1 \<and> g_named_event_flags r n = Some a then None else g_named_event_flags r n)"
  using KernelCloseEventFlag_live(3,5) [OF assms] by (simp_all add: close_flag_def)

lemma close_flag_gone: "registry_ok r \<Longrightarrow> flag_heap r a = None \<Longrightarrow> close_flag a r = r"
  by (auto simp: close_flag_def KernelCloseEventFlag_def registry_ok_def)

lemma close_flag_reachable: "registry_reachable r \<Longrightarrow> registry_reachable ((close_flag a ^^ k) r)"
  by (induction k) (simp_all add: registry_close close_flag_def)

lemma close_flag_times:
  assumes r: "registry_reachable r" and f: "flag_heap r a = Some f"
  shows "flag_heap ((close_flag a ^^ k) r) = (flag_heap r)(a :=
      (if int k < ef_open_references f then Some (f\<lparr>ef_open_references := ef_open_references f - int k\<rparr>) else None)) \<and>
    (\<forall>n. g_named_event_flags ((close_flag a ^^ k) r) n =
      (if int k < ef_open_references f \<or> g_named_event_flags r n \<noteq> Some a then g_named_event_flags r n else None))"
proof (induction k)
  case 0
  have "1 \<le> ef_open_references f" using registry_reachable_ok [OF r] f by (simp add: registry_ok_def)
  then show ?case using f by auto
next
  case (Suc k)
  let ?r = "(close_flag a ^^ k) r"
  have ok: "registry_ok ?r" by (rule registry_reachable_ok [OF close_flag_reachable [OF r]])
  show ?case
  proof (cases "int k < ef_open_references f")
    case True
    have h: "flag_heap ?r a = Some (f\<lparr>ef_open_references := ef_open_references f - int k\<rparr>)" using Suc.IH True by simp
    have one: "ef_open_references f - int k = 1 \<longleftrightarrow> \<not> int (Suc k) < ef_open_references f" using True by linarith
    show ?thesis using Suc.IH True by (auto simp: close_flag_live [OF ok h] one algebra_simps)
  next
    case False
    then have "flag_heap ?r a = None" using Suc.IH by simp
    then show ?thesis using Suc.IH False close_flag_gone [OF ok] by auto
  qed
qed

text \<open>
  C22: The registry: in every reachable state a published name refers to a live flag with this name, and
  live flags are referenced at least once. Opening a name succeeds exactly if it is published, and then
  adds one reference to that flag and changes nothing else. Closing takes one reference: it deletes the flag
  (which leaves the registry, with its name) exactly at the last one, so a flag survives one close less than
  it has references and no name ever reaches it after that, while every other flag and name is kept.
  Deleting removes the flag whatever its references. Both fail exactly on a handle that is not live, and
  then change nothing.
\<close>

theorem flag_registry_safe:
  assumes "registry_reachable r"
  shows "(\<forall>n a. g_named_event_flags r n = Some a \<longrightarrow>
      a \<in> g_event_flags r \<and> (\<exists>f. flag_heap r a = Some f \<and> ef_name f = n \<and> 1 \<le> ef_open_references f)) \<and>
    (\<forall>a. a \<in> g_event_flags r \<longleftrightarrow> flag_heap r a \<noteq> None) \<and>
    (\<forall>n. fst (KernelOpenEventFlag False (Some n) r) = (if g_named_event_flags r n = None then KERNEL_ERROR_ESRCH else OK) \<and>
      fst (snd (KernelOpenEventFlag False (Some n) r)) = g_named_event_flags r n) \<and>
    (\<forall>n a f. g_named_event_flags r n = Some a \<and> flag_heap r a = Some f \<longrightarrow>
      snd (snd (KernelOpenEventFlag False (Some n) r)) =
        r\<lparr>flag_heap := (flag_heap r)(a := Some (f\<lparr>ef_open_references := ef_open_references f + 1\<rparr>))\<rparr>) \<and>
    (\<forall>n. g_named_event_flags r n = None \<longrightarrow> snd (snd (KernelOpenEventFlag False (Some n) r)) = r) \<and>
    (\<forall>a f. flag_heap r a = Some f \<longrightarrow>
      fst (KernelCloseEventFlag a r) = OK \<and>
      snd (snd (KernelCloseEventFlag a r)) = (if ef_open_references f = 1 then Some (f\<lparr>ef_open_references := 0\<rparr>) else None) \<and>
      g_event_flags (fst (snd (KernelCloseEventFlag a r))) = (if ef_open_references f = 1 then g_event_flags r - {a} else g_event_flags r) \<and>
      (\<forall>k. flag_heap ((close_flag a ^^ k) r) = (flag_heap r)(a :=
          (if int k < ef_open_references f then Some (f\<lparr>ef_open_references := ef_open_references f - int k\<rparr>) else None)) \<and>
        (\<forall>n. g_named_event_flags ((close_flag a ^^ k) r) n =
          (if int k < ef_open_references f \<or> g_named_event_flags r n \<noteq> Some a then g_named_event_flags r n else None)))) \<and>
    (\<forall>a. a \<notin> g_event_flags r \<longrightarrow> KernelCloseEventFlag a r = (KERNEL_ERROR_ESRCH, r, None) \<and>
      KernelDeleteEventFlag a r = (KERNEL_ERROR_ESRCH, r, None)) \<and>
    (\<forall>a. fst (KernelDeleteEventFlag a r) = (if a \<in> g_event_flags r then OK else KERNEL_ERROR_ESRCH) \<and>
      flag_heap (fst (snd (KernelDeleteEventFlag a r))) = (flag_heap r)(a := None) \<and>
      g_event_flags (fst (snd (KernelDeleteEventFlag a r))) = g_event_flags r - {a} \<and>
      (\<forall>n. g_named_event_flags (fst (snd (KernelDeleteEventFlag a r))) n =
        (if g_named_event_flags r n = Some a then None else g_named_event_flags r n)))"
proof -
  have ok: "registry_ok r" by (rule registry_reachable_ok [OF assms])
  have nm: "\<forall>n a. g_named_event_flags r n = Some a \<longrightarrow>
      a \<in> g_event_flags r \<and> (\<exists>f. flag_heap r a = Some f \<and> ef_name f = n \<and> 1 \<le> ef_open_references f)"
    using ok unfolding registry_ok_def by (metis domI)
  have live: "\<forall>a. a \<in> g_event_flags r \<longleftrightarrow> flag_heap r a \<noteq> None" using ok by (auto simp: registry_ok_def)
  have op: "\<forall>n. fst (KernelOpenEventFlag False (Some n) r) = (if g_named_event_flags r n = None then KERNEL_ERROR_ESRCH else OK) \<and>
      fst (snd (KernelOpenEventFlag False (Some n) r)) = g_named_event_flags r n"
  proof
    fix n show "fst (KernelOpenEventFlag False (Some n) r) = (if g_named_event_flags r n = None then KERNEL_ERROR_ESRCH else OK) \<and>
      fst (snd (KernelOpenEventFlag False (Some n) r)) = g_named_event_flags r n"
      using nm by (cases "g_named_event_flags r n") (simp_all add: KernelOpenEventFlag_def)
  qed
  have ref: "\<forall>n a f. g_named_event_flags r n = Some a \<and> flag_heap r a = Some f \<longrightarrow>
      snd (snd (KernelOpenEventFlag False (Some n) r)) =
        r\<lparr>flag_heap := (flag_heap r)(a := Some (f\<lparr>ef_open_references := ef_open_references f + 1\<rparr>))\<rparr>"
    using live by (auto simp: KernelOpenEventFlag_def)
  have none: "\<forall>n. g_named_event_flags r n = None \<longrightarrow> snd (snd (KernelOpenEventFlag False (Some n) r)) = r"
    by (simp add: KernelOpenEventFlag_def)
  have cl: "\<forall>a f. flag_heap r a = Some f \<longrightarrow>
      fst (KernelCloseEventFlag a r) = OK \<and>
      snd (snd (KernelCloseEventFlag a r)) = (if ef_open_references f = 1 then Some (f\<lparr>ef_open_references := 0\<rparr>) else None) \<and>
      g_event_flags (fst (snd (KernelCloseEventFlag a r))) = (if ef_open_references f = 1 then g_event_flags r - {a} else g_event_flags r) \<and>
      (\<forall>k. flag_heap ((close_flag a ^^ k) r) = (flag_heap r)(a :=
          (if int k < ef_open_references f then Some (f\<lparr>ef_open_references := ef_open_references f - int k\<rparr>) else None)) \<and>
        (\<forall>n. g_named_event_flags ((close_flag a ^^ k) r) n =
          (if int k < ef_open_references f \<or> g_named_event_flags r n \<noteq> Some a then g_named_event_flags r n else None)))"
    using KernelCloseEventFlag_live(1,2,4) [OF ok] close_flag_times [OF assms] by blast
  have gone: "\<forall>a. a \<notin> g_event_flags r \<longrightarrow> KernelCloseEventFlag a r = (KERNEL_ERROR_ESRCH, r, None) \<and>
      KernelDeleteEventFlag a r = (KERNEL_ERROR_ESRCH, r, None)"
    by (simp add: KernelCloseEventFlag_def KernelDeleteEventFlag_def)
  have de: "\<forall>a. fst (KernelDeleteEventFlag a r) = (if a \<in> g_event_flags r then OK else KERNEL_ERROR_ESRCH) \<and>
      flag_heap (fst (snd (KernelDeleteEventFlag a r))) = (flag_heap r)(a := None) \<and>
      g_event_flags (fst (snd (KernelDeleteEventFlag a r))) = g_event_flags r - {a} \<and>
      (\<forall>n. g_named_event_flags (fst (snd (KernelDeleteEventFlag a r))) n =
        (if g_named_event_flags r n = Some a then None else g_named_event_flags r n))"
  proof
    fix a
    show "fst (KernelDeleteEventFlag a r) = (if a \<in> g_event_flags r then OK else KERNEL_ERROR_ESRCH) \<and>
      flag_heap (fst (snd (KernelDeleteEventFlag a r))) = (flag_heap r)(a := None) \<and>
      g_event_flags (fst (snd (KernelDeleteEventFlag a r))) = g_event_flags r - {a} \<and>
      (\<forall>n. g_named_event_flags (fst (snd (KernelDeleteEventFlag a r))) n =
        (if g_named_event_flags r n = Some a then None else g_named_event_flags r n))"
    proof (cases "a \<in> g_event_flags r")
      case True
      then obtain f where f: "flag_heap r a = Some f" using ok by (auto simp: registry_ok_def)
      have "a \<noteq> 0" using f ok by (metis option.distinct(1) registry_ok_def)
      then show ?thesis using True RemovePublishedName_spec [OF f registry_name [OF ok f]] by (simp add: KernelDeleteEventFlag_def Let_def)
    next
      case False
      moreover have "g_named_event_flags r n \<noteq> Some a" for n using nm False by blast
      moreover have "flag_heap r a = None" using live False by blast
      ultimately show ?thesis using gone by (simp add: fun_upd_idem)
    qed
  qed
  show ?thesis by (intro conjI nm live op ref none cl gone de)
qed

lemma flag_registry_safe_witness:
  "\<exists>r. registry_reachable r \<and> fst (KernelOpenEventFlag False (Some ''f'') r) = OK \<and>
     map_option ef_open_references (flag_heap (snd (snd (KernelOpenEventFlag False (Some ''f'') r))) 16) = Some 2 \<and>
     flag_heap ((close_flag 16 ^^ 1) r) 16 = None \<and>
     g_named_event_flags (fst (snd (KernelDeleteEventFlag 16 r))) ''f'' = None"
proof -
  let ?r = "snd (snd (KernelCreateEventFlag 16 False (Some ''f'') 0x11 0 True new_flag_registry))"
  let ?f = "new_event_flag ''f'' True True 0"
  have r: "registry_reachable ?r" by (rule registry_create [OF registry_new]) (simp_all add: new_flag_registry_def)
  have n: "g_named_event_flags ?r ''f'' = Some 16" "flag_heap ?r 16 = Some ?f"
    by (simp_all add: KernelCreateEventFlag_def flag_attr_def new_flag_registry_def)
  have one: "ef_open_references ?f = 1" by (simp add: new_event_flag_def)
  note safe = flag_registry_safe [OF r]
  note code = safe [THEN conjunct2, THEN conjunct2, THEN conjunct1, rule_format, of "''f''", THEN conjunct1]
  note opened = safe [THEN conjunct2, THEN conjunct2, THEN conjunct2, THEN conjunct1, rule_format, OF conjI [OF n]]
  note close = safe [THEN conjunct2, THEN conjunct2, THEN conjunct2, THEN conjunct2, THEN conjunct2, THEN conjunct1, rule_format, OF n(2),
    THEN conjunct2, THEN conjunct2, THEN conjunct2, rule_format, of 1, THEN conjunct1]
  note deleted = safe [THEN conjunct2, THEN conjunct2, THEN conjunct2, THEN conjunct2, THEN conjunct2, THEN conjunct2, THEN conjunct2,
    rule_format, of 16, THEN conjunct2, THEN conjunct2, THEN conjunct2, rule_format, of "''f''"]
  have 1: "fst (KernelOpenEventFlag False (Some ''f'') ?r) = OK" unfolding code n(1) by simp
  have 2: "map_option ef_open_references (flag_heap (snd (snd (KernelOpenEventFlag False (Some ''f'') ?r))) 16) = Some 2"
    unfolding opened by (simp add: one)
  have 3: "flag_heap ((close_flag 16 ^^ 1) ?r) 16 = None" unfolding close by (simp add: one)
  have 4: "g_named_event_flags (fst (snd (KernelDeleteEventFlag 16 ?r))) ''f'' = None" unfolding deleted n(1) by simp
  show ?thesis by (intro exI [of _ ?r] conjI r 1 2 3 4)
qed

end
