(* ===== verification/EventQueue.thy ===== *)
theory EventQueue
  imports KernelErrors "HOL-Library.Sublist"
begin

unbundle bit_operations_syntax

text \<open>
  Kernel event queues (src/src/kernel/eventQueue.cpp): each queue is a list of registered events, keyed by
  ident and filter, that sources trigger and threads collect; and the table of queues by handle.

  The functions behind a registered event (\<open>filter.trigger_func\<close>, \<open>filter.reset_func\<close>) are HOL functions
  on the event's data, as in the code: those of user and AMPR events (eventQueue.cpp), of end-of-pipe
  events (graphics/host_gpu/renderer/sync.cpp) and of video-out events (graphics/presentation/videoOut.cpp).
  A trigger function gets the time-stamp counter as an argument, which the video-out one reads.
  \<open>delete_event_func\<close> acts on the renderer and on the video output: the model lists its calls.

  Every operation of a queue holds its mutex; \<open>WaitForEvents\<close> is a step up to the first sleep and one for
  every turn after a wake-up. The clock is an argument. The result None is \<open>EXIT\<close>.
\<close>

definition EV_ADD :: "16 word" where "EV_ADD = 0x01"
definition EV_ONESHOT :: "16 word" where "EV_ONESHOT = 0x10"
definition EV_CLEAR :: "16 word" where "EV_CLEAR = 0x20"
definition EV_ERROR :: "16 word" where "EV_ERROR = 0x4000"

definition KERNEL_EVFILT_USER :: int where "KERNEL_EVFILT_USER = -11"
definition KERNEL_EVFILT_GRAPHICS :: int where "KERNEL_EVFILT_GRAPHICS = -14"
definition KERNEL_EVFILT_VIDEO_OUT :: int where "KERNEL_EVFILT_VIDEO_OUT = -13"
definition KERNEL_EVFILT_HRTIMER :: int where "KERNEL_EVFILT_HRTIMER = -15"

lemmas ev_defs = EV_ADD_def EV_ONESHOT_def EV_CLEAR_def EV_ERROR_def
lemmas evfilt_defs = KERNEL_EVFILT_USER_def KERNEL_EVFILT_GRAPHICS_def KERNEL_EVFILT_VIDEO_OUT_def KERNEL_EVFILT_HRTIMER_def

record KernelEvent =
  ev_ident :: "64 word"
  ev_filter :: int
  ev_flags :: "16 word"
  ev_fflags :: "32 word"
  ev_data :: "64 word"
  ev_udata :: "64 word"

text \<open>The part of a \<open>KernelEqueueEvent\<close> that its functions work on, and the whole.\<close>

record EqueueEventData =
  ee_triggered :: bool
  ee_deadline_ns :: nat
  ee_event :: KernelEvent
  ee_pending_events :: "KernelEvent list"

datatype delete_func = EopEventDeleteFunc | RemoveVideoOutEventQueue

record KernelFilter =
  trigger_func :: "(64 word \<Rightarrow> EqueueEventData \<Rightarrow> 64 word \<Rightarrow> EqueueEventData) option"
  reset_func :: "(EqueueEventData \<Rightarrow> EqueueEventData) option"
  delete_event_func :: "delete_func option"

record KernelEqueueEvent =
  ke_data :: EqueueEventData
  ke_filter :: KernelFilter

record KernelEqueuePrivate =
  q_events :: "KernelEqueueEvent list"
  q_name :: string
  q_handle :: int
  q_closed :: bool

section \<open>The sources' functions\<close>

definition UserEventTriggerFunc :: "EqueueEventData \<Rightarrow> 64 word \<Rightarrow> EqueueEventData" where
  "UserEventTriggerFunc e trigger_data =
     e\<lparr>ee_triggered := True, ee_event := (ee_event e)\<lparr>ev_data := trigger_data, ev_udata := trigger_data\<rparr>\<rparr>"

definition queue_or_set :: "KernelEvent \<Rightarrow> EqueueEventData \<Rightarrow> EqueueEventData" where
  "queue_or_set triggered_event e =
     (if ee_triggered e then e\<lparr>ee_pending_events := ee_pending_events e @ [triggered_event]\<rparr>
      else e\<lparr>ee_event := triggered_event, ee_triggered := True\<rparr>)"

definition AmprEventTriggerFunc :: "EqueueEventData \<Rightarrow> 64 word \<Rightarrow> EqueueEventData" where
  "AmprEventTriggerFunc e trigger_data = queue_or_set ((ee_event e)\<lparr>ev_data := trigger_data\<rparr>) e"

definition UserEventResetFunc :: "EqueueEventData \<Rightarrow> EqueueEventData" where
  "UserEventResetFunc e =
     (if ev_flags (ee_event e) AND EV_CLEAR \<noteq> 0
      then e\<lparr>ee_triggered := False, ee_event := (ee_event e)\<lparr>ev_fflags := 0, ev_data := 0\<rparr>\<rparr> else e)"

definition EopEventResetFunc :: "EqueueEventData \<Rightarrow> EqueueEventData" where
  "EopEventResetFunc e = e\<lparr>ee_triggered := False, ee_event := (ee_event e)\<lparr>ev_fflags := 0, ev_data := 0\<rparr>\<rparr>"

definition EopEventTriggerFunc :: "EqueueEventData \<Rightarrow> 64 word \<Rightarrow> EqueueEventData" where
  "EopEventTriggerFunc e trigger_data =
     queue_or_set ((ee_event e)\<lparr>ev_fflags := ev_fflags (ee_event e) + 1, ev_data := trigger_data\<rparr>) e"

definition MakeVideoOutEventData :: "64 word \<Rightarrow> 64 word \<Rightarrow> 64 word \<Rightarrow> 64 word" where
  "MakeVideoOutEventData tsc current_data trigger_data =
     (let counter = drop_bit 12 current_data AND 0xf;
          counter = (if counter \<noteq> 0xf then counter + 1 else counter);
          time = tsc AND 0xfff
      in time OR push_bit 12 counter OR push_bit 16 (trigger_data AND 0x0000ffffffffffff))"

definition ResetVideoOutEvent :: "EqueueEventData \<Rightarrow> EqueueEventData" where
  "ResetVideoOutEvent e = e\<lparr>ee_triggered := False, ee_event := (ee_event e)\<lparr>ev_fflags := 0, ev_data := 0\<rparr>\<rparr>"

definition TriggerVideoOutEvent :: "64 word \<Rightarrow> EqueueEventData \<Rightarrow> 64 word \<Rightarrow> EqueueEventData" where
  "TriggerVideoOutEvent tsc e trigger_data =
     queue_or_set ((ee_event e)\<lparr>
       ev_fflags := (if ev_fflags (ee_event e) < 0xf then ev_fflags (ee_event e) + 1 else ev_fflags (ee_event e)),
       ev_data := MakeVideoOutEventData tsc (ev_data (ee_event e)) trigger_data\<rparr>) e"

section \<open>The events the sources register\<close>

text \<open>\<open>static_cast<uintptr_t>\<close> of an \<open>int\<close> extends its sign.\<close>

definition ident_of :: "int \<Rightarrow> 64 word" where "ident_of n = word_of_int n"

definition registered :: "64 word \<Rightarrow> int \<Rightarrow> 16 word \<Rightarrow> 64 word \<Rightarrow> KernelFilter \<Rightarrow> KernelEqueueEvent" where
  "registered ident flt flags udata functions =
     \<lparr>ke_data = \<lparr>ee_triggered = False, ee_deadline_ns = 0,
        ee_event = \<lparr>ev_ident = ident, ev_filter = flt, ev_flags = flags, ev_fflags = 0, ev_data = 0, ev_udata = udata\<rparr>,
        ee_pending_events = []\<rparr>, ke_filter = functions\<rparr>"

definition no_filter :: KernelFilter where
  "no_filter = \<lparr>trigger_func = None, reset_func = None, delete_event_func = None\<rparr>"

definition user_filter :: KernelFilter where
  "user_filter = \<lparr>trigger_func = Some (\<lambda>tsc. UserEventTriggerFunc), reset_func = Some UserEventResetFunc, delete_event_func = None\<rparr>"

definition ampr_filter :: KernelFilter where
  "ampr_filter = \<lparr>trigger_func = Some (\<lambda>tsc. AmprEventTriggerFunc), reset_func = Some UserEventResetFunc, delete_event_func = None\<rparr>"

definition eop_filter :: KernelFilter where
  "eop_filter = \<lparr>trigger_func = Some (\<lambda>tsc. EopEventTriggerFunc), reset_func = Some EopEventResetFunc,
     delete_event_func = Some EopEventDeleteFunc\<rparr>"

definition video_filter :: KernelFilter where
  "video_filter = \<lparr>trigger_func = Some TriggerVideoOutEvent, reset_func = Some ResetVideoOutEvent,
     delete_event_func = Some RemoveVideoOutEventQueue\<rparr>"

definition user_event :: "int \<Rightarrow> KernelEqueueEvent" where
  "user_event n = registered (ident_of n) KERNEL_EVFILT_USER EV_ADD 0 user_filter"

definition user_event_edge :: "int \<Rightarrow> KernelEqueueEvent" where
  "user_event_edge n = registered (ident_of n) KERNEL_EVFILT_USER (EV_ADD OR EV_CLEAR) 0 user_filter"

definition ampr_event :: "int \<Rightarrow> 64 word \<Rightarrow> KernelEqueueEvent" where
  "ampr_event n udata = registered (ident_of n) KERNEL_EVFILT_USER (EV_ADD OR EV_CLEAR) udata ampr_filter"

definition eop_event :: "int \<Rightarrow> 64 word \<Rightarrow> KernelEqueueEvent" where
  "eop_event n udata =
     (let e = registered (ident_of n) KERNEL_EVFILT_GRAPHICS 0 udata eop_filter in
      e\<lparr>ke_data := (ke_data e)\<lparr>ee_event := (ee_event (ke_data e))\<lparr>ev_data := ident_of n\<rparr>\<rparr>\<rparr>)"

definition video_event :: "64 word \<Rightarrow> 64 word \<Rightarrow> 64 word option \<Rightarrow> 64 word \<Rightarrow> KernelEqueueEvent" where
  "video_event tsc kind output_mode udata =
     (let e = registered kind KERNEL_EVFILT_VIDEO_OUT 0 udata video_filter in
      (case output_mode of None \<Rightarrow> e
       | Some mode \<Rightarrow> e\<lparr>ke_data := (ke_data e)\<lparr>ee_triggered := True, ee_event := (ee_event (ke_data e))\<lparr>
           ev_fflags := 1, ev_data := MakeVideoOutEventData tsc 0 mode\<rparr>\<rparr>\<rparr>))"

definition hrtimer_event :: "int \<Rightarrow> nat \<Rightarrow> 64 word \<Rightarrow> KernelEqueueEvent" where
  "hrtimer_event n deadline udata =
     (let e = registered (ident_of n) KERNEL_EVFILT_HRTIMER (EV_ADD OR EV_ONESHOT) udata no_filter in
      e\<lparr>ke_data := (ke_data e)\<lparr>ee_deadline_ns := deadline\<rparr>\<rparr>)"

section \<open>The operations of a queue\<close>

text \<open>
  Collecting: the body of the loop for one event. \<open>settle\<close> is the reset after a report and the move of
  the next pending event; \<open>left\<close> is \<open>num - ret\<close>, at least one. The second component is None when the
  event is erased.
\<close>

definition settle :: "KernelFilter \<Rightarrow> EqueueEventData \<Rightarrow> EqueueEventData" where
  "settle f e =
     (let e1 = (case reset_func f of Some reset \<Rightarrow> reset e
        | None \<Rightarrow> if ev_flags (ee_event e) AND EV_CLEAR \<noteq> 0
            then e\<lparr>ee_triggered := False, ee_event := (ee_event e)\<lparr>ev_fflags := 0, ev_data := 0\<rparr>\<rparr> else e)
      in case ee_pending_events e1 of [] \<Rightarrow> e1
         | p # ps \<Rightarrow> e1\<lparr>ee_event := p, ee_pending_events := ps, ee_triggered := True\<rparr>)"

fun report_event :: "nat \<Rightarrow> KernelFilter \<Rightarrow> EqueueEventData \<Rightarrow> KernelEvent list \<times> EqueueEventData option" where
  "report_event left f e =
     (if \<not> ee_triggered e then ([], Some e)
      else if ev_flags (ee_event e) AND EV_ONESHOT \<noteq> 0 then ([ee_event e], None)
      else if left \<le> 1 then ([ee_event e], Some (settle f e))
      else (case report_event (left - 1) f (settle f e) of (out, r) \<Rightarrow> (ee_event e # out, r)))"

declare report_event.simps [simp del]

fun report_events :: "nat \<Rightarrow> KernelEqueueEvent list \<Rightarrow> KernelEvent list \<times> KernelEqueueEvent list" where
  "report_events left [] = ([], [])"
| "report_events left (e # es) =
     (case report_event left (ke_filter e) (ke_data e) of (out, r) \<Rightarrow>
        let kept = (case r of None \<Rightarrow> [] | Some d \<Rightarrow> [e\<lparr>ke_data := d\<rparr>]) in
        if left \<le> length out then (out, kept @ es)
        else (case report_events (left - length out) es of (out', es') \<Rightarrow> (out @ out', kept @ es')))"

definition TriggerExpiredTimers :: "nat \<Rightarrow> KernelEqueueEvent list \<Rightarrow> KernelEqueueEvent list" where
  "TriggerExpiredTimers now_ns events = map (\<lambda>e.
     if \<not> ee_triggered (ke_data e) \<and> ee_deadline_ns (ke_data e) \<noteq> 0 \<and> ee_deadline_ns (ke_data e) \<le> now_ns
     then e\<lparr>ke_data := (ke_data e)\<lparr>ee_triggered := True\<rparr>\<rparr> else e) events"

text \<open>The code and the events written to \<open>ev\<close>.\<close>

definition GetTriggeredEvents :: "nat \<Rightarrow> int \<Rightarrow> KernelEqueuePrivate \<Rightarrow> (int \<times> KernelEvent list \<times> KernelEqueuePrivate) option" where
  "GetTriggeredEvents now_ns num q =
     (if num < 1 then None
      else if q_closed q then Some (KERNEL_ERROR_EBADF, [], q)
      else Some (case report_events (nat num) (TriggerExpiredTimers now_ns (q_events q)) of (out, es) \<Rightarrow>
        (int (length out), out, q\<lparr>q_events := es\<rparr>)))"

text \<open>The additions are on \<open>uint64_t\<close>: \<open>remaining_ns + 999\<close> can wrap.\<close>

definition GetNextTimerWaitMicros :: "nat \<Rightarrow> KernelEqueuePrivate \<Rightarrow> nat option" where
  "GetNextTimerWaitMicros now_ns q =
     (let nearest_deadline = foldl min UINT64_MAX
        (map (\<lambda>e. ee_deadline_ns (ke_data e))
          (filter (\<lambda>e. \<not> ee_triggered (ke_data e) \<and> ee_deadline_ns (ke_data e) \<noteq> 0) (q_events q)))
      in if nearest_deadline = UINT64_MAX then None
         else (let remaining_ns = (if nearest_deadline > now_ns then nearest_deadline - now_ns else 0);
                   rounded_us = max 1 (add64 remaining_ns 999 div 1000)
               in Some (min rounded_us UINT32_MAX)))"

text \<open>
  Waiting. \<open>EqSleeping None\<close> sleeps until it is signalled, \<open>EqSleeping (Some w)\<close> at most \<open>w\<close> microseconds.
  The clock is read twice; \<open>elapsed\<close> is the time since the call.
\<close>

datatype equeue_outcome = EqReturned int "KernelEvent list" | EqSleeping "nat option"

definition WaitForEvents_head ::
  "nat \<Rightarrow> nat \<Rightarrow> int \<Rightarrow> nat \<Rightarrow> nat \<Rightarrow> KernelEqueuePrivate \<Rightarrow> (equeue_outcome \<times> KernelEqueuePrivate) option" where
  "WaitForEvents_head now1 now2 num micros elapsed q = do {
     (ret, out, q') \<leftarrow> GetTriggeredEvents now1 num q;
     Some (if ret \<noteq> 0 \<or> (elapsed \<ge> micros \<and> micros \<noteq> 0) then (EqReturned ret out, q')
       else (case GetNextTimerWaitMicros now2 q' of
           None \<Rightarrow> if micros = 0 then (EqSleeping None, q') else (EqSleeping (Some (micros - elapsed)), q')
         | Some timer_wait \<Rightarrow>
             (EqSleeping (Some (min (if micros \<noteq> 0 then micros - elapsed else UINT32_MAX) timer_wait)), q'))) }"

definition WaitForEvents_begin ::
  "nat \<Rightarrow> nat \<Rightarrow> int \<Rightarrow> nat \<Rightarrow> KernelEqueuePrivate \<Rightarrow> (equeue_outcome \<times> KernelEqueuePrivate) option" where
  "WaitForEvents_begin now1 now2 num micros q =
     (if num < 1 then None
      else if q_closed q then Some (EqReturned KERNEL_ERROR_EBADF [], q)
      else WaitForEvents_head now1 now2 num micros 0 q)"

definition WaitForEvents_turn ::
  "nat \<Rightarrow> nat \<Rightarrow> int \<Rightarrow> nat \<Rightarrow> nat \<Rightarrow> KernelEqueuePrivate \<Rightarrow> (equeue_outcome \<times> KernelEqueuePrivate) option" where
  "WaitForEvents_turn now1 now2 num micros elapsed q = WaitForEvents_head now1 now2 num micros elapsed q"

definition event_is :: "64 word \<Rightarrow> int \<Rightarrow> KernelEqueueEvent \<Rightarrow> bool" where
  "event_is ident flt e \<longleftrightarrow> ev_ident (ee_event (ke_data e)) = ident \<and> ev_filter (ee_event (ke_data e)) = flt"

text \<open>\<open>std::find_if\<close>: the first event of the key is updated, or erased.\<close>

fun update_first :: "('a \<Rightarrow> bool) \<Rightarrow> ('a \<Rightarrow> 'a) \<Rightarrow> 'a list \<Rightarrow> 'a list" where
  "update_first P f [] = []"
| "update_first P f (x # xs) = (if P x then f x # xs else x # update_first P f xs)"

fun erase_first :: "('a \<Rightarrow> bool) \<Rightarrow> 'a list \<Rightarrow> 'a list" where
  "erase_first P [] = []"
| "erase_first P (x # xs) = (if P x then xs else x # erase_first P xs)"

definition readd :: "KernelEqueueEvent \<Rightarrow> KernelEqueueEvent \<Rightarrow> KernelEqueueEvent" where
  "readd event it =
     (let udata = ev_udata (ee_event (ke_data event)); d = ke_data it in
      it\<lparr>ke_data := d\<lparr>ee_deadline_ns := ee_deadline_ns (ke_data event), ee_event := (ee_event d)\<lparr>ev_udata := udata\<rparr>,
        ee_pending_events := map (\<lambda>p. p\<lparr>ev_udata := udata\<rparr>) (ee_pending_events d)\<rparr>\<rparr>)"

definition AddEvent :: "KernelEqueueEvent \<Rightarrow> KernelEqueuePrivate \<Rightarrow> int \<times> KernelEqueuePrivate" where
  "AddEvent event q =
     (if q_closed q then (KERNEL_ERROR_EBADF, q)
      else let same = event_is (ev_ident (ee_event (ke_data event))) (ev_filter (ee_event (ke_data event))) in
        (OK, q\<lparr>q_events := (if \<exists>e\<in>set (q_events q). same e then update_first same (readd event) (q_events q)
          else q_events q @ [event])\<rparr>))"

definition fire :: "64 word \<Rightarrow> 64 word \<Rightarrow> KernelEqueueEvent \<Rightarrow> KernelEqueueEvent" where
  "fire tsc trigger_data e =
     e\<lparr>ke_data := (case trigger_func (ke_filter e) of Some trigger \<Rightarrow> trigger tsc (ke_data e) trigger_data
       | None \<Rightarrow> (ke_data e)\<lparr>ee_triggered := True\<rparr>)\<rparr>"

definition TriggerEvent ::
  "64 word \<Rightarrow> 64 word \<Rightarrow> int \<Rightarrow> 64 word \<Rightarrow> KernelEqueuePrivate \<Rightarrow> int \<times> KernelEqueuePrivate" where
  "TriggerEvent tsc ident flt trigger_data q =
     (if q_closed q then (KERNEL_ERROR_EBADF, q)
      else if \<exists>e\<in>set (q_events q). event_is ident flt e
      then (OK, q\<lparr>q_events := update_first (event_is ident flt) (fire tsc trigger_data) (q_events q)\<rparr>)
      else (KERNEL_ERROR_ENOENT, q))"

text \<open>The calls of \<open>delete_event_func\<close>, with the queue's handle and the event.\<close>

definition delete_calls :: "int \<Rightarrow> KernelEqueueEvent list \<Rightarrow> (delete_func \<times> int \<times> EqueueEventData) list" where
  "delete_calls handle es = List.map_filter (\<lambda>e. map_option (\<lambda>f. (f, handle, ke_data e)) (delete_event_func (ke_filter e))) es"

definition DeleteEvent ::
  "64 word \<Rightarrow> int \<Rightarrow> KernelEqueuePrivate \<Rightarrow> int \<times> (delete_func \<times> int \<times> EqueueEventData) list \<times> KernelEqueuePrivate" where
  "DeleteEvent ident flt q =
     (if q_closed q then (KERNEL_ERROR_EBADF, [], q)
      else (case find (event_is ident flt) (q_events q) of
          None \<Rightarrow> (KERNEL_ERROR_ENOENT, [], q)
        | Some e \<Rightarrow> (OK, delete_calls (q_handle q) [e], q\<lparr>q_events := erase_first (event_is ident flt) (q_events q)\<rparr>)))"

definition Close :: "KernelEqueuePrivate \<Rightarrow> (delete_func \<times> int \<times> EqueueEventData) list \<times> KernelEqueuePrivate" where
  "Close q = (if q_closed q then ([], q)
     else (delete_calls (q_handle q) (q_events q), q\<lparr>q_closed := True, q_events := []\<rparr>))"

definition new_equeue :: "int \<Rightarrow> string \<Rightarrow> KernelEqueuePrivate" where
  "new_equeue handle name = \<lparr>q_events = [], q_name = name, q_handle = handle, q_closed = False\<rparr>"

section \<open>The table of queues\<close>

text \<open>
  Handles are never given twice, so the model keeps every queue under its handle: a thread that pinned a
  queue holds its reference (a \<open>shared_ptr\<close>) also after the queue has left the table. Handle 0 is invalid.
\<close>

record equeue_table =
  equeue_heap :: "int \<Rightarrow> KernelEqueuePrivate option"
  g_equeues :: "int set"
  g_next_equeue :: nat

definition new_equeue_table :: equeue_table where
  "new_equeue_table = \<lparr>equeue_heap = (\<lambda>h. None), g_equeues = {}, g_next_equeue = 1\<rparr>"

definition KernelPinEqueue :: "int \<Rightarrow> equeue_table \<Rightarrow> KernelEqueuePrivate option" where
  "KernelPinEqueue eq t = (if eq = 0 then None else if eq \<in> g_equeues t then equeue_heap t eq else None)"

definition put_equeue :: "int \<Rightarrow> KernelEqueuePrivate \<Rightarrow> equeue_table \<Rightarrow> equeue_table" where
  "put_equeue eq q t = t\<lparr>equeue_heap := (equeue_heap t)(eq := Some q)\<rparr>"

text \<open>The second component is what is stored through \<open>eq\<close>.\<close>

definition KernelCreateEqueue :: "bool \<Rightarrow> string option \<Rightarrow> equeue_table \<Rightarrow> (int \<times> int option \<times> equeue_table) option" where
  "KernelCreateEqueue eq_null name t =
     (case name of None \<Rightarrow> Some (KERNEL_ERROR_EINVAL, None, t)
      | Some nm \<Rightarrow>
          if eq_null then Some (KERNEL_ERROR_EINVAL, None, t)
          else if g_next_equeue t > 9223372036854775807 then None
          else (let eq = int (g_next_equeue t) in
            Some (OK, Some eq, (put_equeue eq (new_equeue eq nm) t)\<lparr>g_equeues := insert eq (g_equeues t),
              g_next_equeue := g_next_equeue t + 1\<rparr>)))"

definition KernelAddEvent :: "int \<Rightarrow> KernelEqueueEvent \<Rightarrow> equeue_table \<Rightarrow> int \<times> equeue_table" where
  "KernelAddEvent eq event t =
     (case KernelPinEqueue eq t of None \<Rightarrow> (KERNEL_ERROR_EBADF, t)
      | Some q \<Rightarrow> (case AddEvent event q of (ret, q') \<Rightarrow> (ret, put_equeue eq q' t)))"

definition KernelTriggerEvent :: "64 word \<Rightarrow> int \<Rightarrow> 64 word \<Rightarrow> int \<Rightarrow> 64 word \<Rightarrow> equeue_table \<Rightarrow> int \<times> equeue_table" where
  "KernelTriggerEvent tsc eq ident flt trigger_data t =
     (case KernelPinEqueue eq t of None \<Rightarrow> (KERNEL_ERROR_EBADF, t)
      | Some q \<Rightarrow> (case TriggerEvent tsc ident flt trigger_data q of (ret, q') \<Rightarrow> (ret, put_equeue eq q' t)))"

definition KernelDeleteEvent ::
  "int \<Rightarrow> 64 word \<Rightarrow> int \<Rightarrow> equeue_table \<Rightarrow> int \<times> (delete_func \<times> int \<times> EqueueEventData) list \<times> equeue_table" where
  "KernelDeleteEvent eq ident flt t =
     (case KernelPinEqueue eq t of None \<Rightarrow> (KERNEL_ERROR_EBADF, [], t)
      | Some q \<Rightarrow> (case DeleteEvent ident flt q of (ret, calls, q') \<Rightarrow> (ret, calls, put_equeue eq q' t)))"

definition KernelDeleteEqueue ::
  "int \<Rightarrow> equeue_table \<Rightarrow> int \<times> (delete_func \<times> int \<times> EqueueEventData) list \<times> equeue_table" where
  "KernelDeleteEqueue eq t =
     (if eq \<notin> g_equeues t then (KERNEL_ERROR_EBADF, [], t)
      else (case equeue_heap t eq of None \<Rightarrow> (OK, [], t\<lparr>g_equeues := g_equeues t - {eq}\<rparr>)
        | Some q \<Rightarrow> (case Close q of (calls, q') \<Rightarrow> (OK, calls, (put_equeue eq q' t)\<lparr>g_equeues := g_equeues t - {eq}\<rparr>))))"

text \<open>
  The code of a wait, None while the thread sleeps, what is stored through \<open>out\<close> and the events.
\<close>

definition wait_equeue_code :: "int \<Rightarrow> int" where
  "wait_equeue_code ret = (if ret = KERNEL_ERROR_EBADF then KERNEL_ERROR_EBADF
     else if ret = 0 then KERNEL_ERROR_ETIMEDOUT else OK)"

datatype wait_equeue_outcome = WaitEqueueFailed int | WaitEqueueReturned int int "KernelEvent list" | WaitEqueueSleeping "nat option"

definition KernelWaitEqueue ::
  "nat \<Rightarrow> nat \<Rightarrow> int \<Rightarrow> bool \<Rightarrow> int \<Rightarrow> bool \<Rightarrow> nat option \<Rightarrow> equeue_table \<Rightarrow> (wait_equeue_outcome \<times> equeue_table) option" where
  "KernelWaitEqueue now1 now2 eq ev_null num out_null timo t =
     (case KernelPinEqueue eq t of None \<Rightarrow> Some (WaitEqueueFailed KERNEL_ERROR_EBADF, t)
      | Some q \<Rightarrow>
          if ev_null then Some (WaitEqueueFailed KERNEL_ERROR_EFAULT, t)
          else if num < 1 then Some (WaitEqueueFailed KERNEL_ERROR_EINVAL, t)
          else if out_null then None
          else if timo = Some 0
          then map_option (\<lambda>(ret, out, q'). (WaitEqueueReturned (wait_equeue_code ret) ret out, put_equeue eq q' t))
            (GetTriggeredEvents now1 num q)
          else map_option (\<lambda>(outcome, q').
              (case outcome of EqReturned ret out \<Rightarrow> WaitEqueueReturned (wait_equeue_code ret) ret out
                 | EqSleeping w \<Rightarrow> WaitEqueueSleeping w, put_equeue eq q' t))
            (WaitForEvents_begin now1 now2 num (case timo of None \<Rightarrow> 0 | Some micros \<Rightarrow> micros) q))"

section \<open>The calls of the sources\<close>

definition KernelAddUserEvent :: "int \<Rightarrow> int \<Rightarrow> equeue_table \<Rightarrow> int \<times> equeue_table" where
  "KernelAddUserEvent eq n t = KernelAddEvent eq (user_event n) t"

definition KernelAddUserEventEdge :: "int \<Rightarrow> int \<Rightarrow> equeue_table \<Rightarrow> int \<times> equeue_table" where
  "KernelAddUserEventEdge eq n t = KernelAddEvent eq (user_event_edge n) t"

definition KernelTriggerUserEvent :: "64 word \<Rightarrow> int \<Rightarrow> int \<Rightarrow> 64 word \<Rightarrow> equeue_table \<Rightarrow> int \<times> equeue_table" where
  "KernelTriggerUserEvent tsc eq n udata t = KernelTriggerEvent tsc eq (ident_of n) KERNEL_EVFILT_USER udata t"

text \<open>
  \<open>queues\<close> are the queues of the table in the order the hash table lists them, taken under the table's
  mutex; each is then triggered under its own.
\<close>

definition trigger_user_event :: "64 word \<Rightarrow> int \<Rightarrow> 64 word \<Rightarrow> int \<Rightarrow> nat \<times> equeue_table \<Rightarrow> nat \<times> equeue_table" where
  "trigger_user_event tsc n udata eq nt =
     (case nt of (triggered, t) \<Rightarrow>
        (case equeue_heap t eq of None \<Rightarrow> (triggered, t)
         | Some q \<Rightarrow> (case TriggerEvent tsc (ident_of n) KERNEL_EVFILT_USER udata q of (ret, q') \<Rightarrow>
             (if ret = OK then triggered + 1 else triggered, put_equeue eq q' t))))"

definition KernelTriggerUserEventForAll :: "int list \<Rightarrow> 64 word \<Rightarrow> int \<Rightarrow> 64 word \<Rightarrow> equeue_table \<Rightarrow> int \<times> equeue_table" where
  "KernelTriggerUserEventForAll queues tsc n udata t =
     (case fold (trigger_user_event tsc n udata) queues (0, t) of (triggered, t') \<Rightarrow>
        (if triggered > 0 then OK else KERNEL_ERROR_ENOENT, t'))"

definition KernelDeleteUserEvent ::
  "int \<Rightarrow> int \<Rightarrow> equeue_table \<Rightarrow> int \<times> (delete_func \<times> int \<times> EqueueEventData) list \<times> equeue_table" where
  "KernelDeleteUserEvent eq n t = KernelDeleteEvent eq (ident_of n) KERNEL_EVFILT_USER t"

text \<open>A time is the seconds and nanoseconds of the \<open>KernelTimespec\<close>, None when it is null.\<close>

definition KernelAddHRTimerEvent :: "nat \<Rightarrow> int \<Rightarrow> int \<Rightarrow> (int \<times> int) option \<Rightarrow> 64 word \<Rightarrow> equeue_table \<Rightarrow> int \<times> equeue_table" where
  "KernelAddHRTimerEvent now_ns eq n ts udata t =
     (case ts of None \<Rightarrow> (KERNEL_ERROR_EFAULT, t)
      | Some (sec, nsec) \<Rightarrow>
          if sec < 0 \<or> nsec < 0 \<or> nsec \<ge> 1000000000 \<or> nat sec > (UINT64_MAX - nat nsec) div 1000000000
          then (KERNEL_ERROR_EINVAL, t)
          else (let delay_ns = nat sec * 1000000000 + nat nsec;
                    deadline = (if delay_ns \<le> UINT64_MAX - now_ns then now_ns + delay_ns else UINT64_MAX)
                in KernelAddEvent eq (hrtimer_event n deadline udata) t))"

definition KernelDeleteHRTimerEvent ::
  "int \<Rightarrow> int \<Rightarrow> equeue_table \<Rightarrow> int \<times> (delete_func \<times> int \<times> EqueueEventData) list \<times> equeue_table" where
  "KernelDeleteHRTimerEvent eq n t = KernelDeleteEvent eq (ident_of n) KERNEL_EVFILT_HRTIMER t"

definition KernelAddAmprEvent :: "int \<Rightarrow> int \<Rightarrow> 64 word \<Rightarrow> equeue_table \<Rightarrow> int \<times> equeue_table" where
  "KernelAddAmprEvent eq n udata t =
     (OK, if eq \<noteq> 0 then snd (KernelAddEvent eq (ampr_event n udata) t) else t)"

definition KernelAddAmprSystemEvent :: "int \<Rightarrow> int \<Rightarrow> 64 word \<Rightarrow> equeue_table \<Rightarrow> int \<times> equeue_table" where
  "KernelAddAmprSystemEvent eq n udata t = KernelAddAmprEvent eq n udata t"

definition KernelDeleteAmprEvent ::
  "int \<Rightarrow> int \<Rightarrow> equeue_table \<Rightarrow> int \<times> (delete_func \<times> int \<times> EqueueEventData) list \<times> equeue_table" where
  "KernelDeleteAmprEvent eq n t =
     (if eq \<noteq> 0 then (OK, snd (KernelDeleteEvent eq (ident_of n) KERNEL_EVFILT_USER t)) else (OK, [], t))"

definition KernelDeleteAmprSystemEvent ::
  "int \<Rightarrow> int \<Rightarrow> equeue_table \<Rightarrow> int \<times> (delete_func \<times> int \<times> EqueueEventData) list \<times> equeue_table" where
  "KernelDeleteAmprSystemEvent eq n t = KernelDeleteAmprEvent eq n t"

text \<open>Reading a collected event; None is the null pointer.\<close>

definition KernelGetEventData :: "KernelEvent option \<Rightarrow> 64 word" where
  "KernelGetEventData ev = (case ev of None \<Rightarrow> 0 | Some e \<Rightarrow> ev_data e)"

definition KernelGetEventFflags :: "KernelEvent option \<Rightarrow> 64 word" where
  "KernelGetEventFflags ev = (case ev of None \<Rightarrow> 0 | Some e \<Rightarrow> ucast (ev_fflags e))"

definition KernelGetEventFilter :: "KernelEvent option \<Rightarrow> int" where
  "KernelGetEventFilter ev = (case ev of None \<Rightarrow> 0 | Some e \<Rightarrow> ev_filter e)"

definition KernelGetEventId :: "KernelEvent option \<Rightarrow> 64 word" where
  "KernelGetEventId ev = (case ev of None \<Rightarrow> 0 | Some e \<Rightarrow> ev_ident e)"

definition KernelGetEventUserData :: "KernelEvent option \<Rightarrow> 64 word" where
  "KernelGetEventUserData ev = (case ev of None \<Rightarrow> 0 | Some e \<Rightarrow> ev_udata e)"

definition KernelGetEventError :: "KernelEvent option \<Rightarrow> int" where
  "KernelGetEventError ev =
     (case ev of None \<Rightarrow> 0 | Some e \<Rightarrow> if ev_flags e AND EV_ERROR \<noteq> 0 then sint (ucast (ev_data e) :: 32 word) else 0)"

section \<open>What a source promises\<close>

text \<open>
  The queue relies on its sources: a trigger function leaves the event triggered, a reset function clears
  it (for a user event only with \<open>EV_CLEAR\<close>), and neither touches what identifies the event. Under these
  laws a collection delivers the notifications of an event in order, each once. A source that queues does
  not merge the triggers either.
\<close>

definition ev_key :: "KernelEvent \<Rightarrow> 64 word \<times> int \<times> 16 word" where
  "ev_key e = (ev_ident e, ev_filter e, ev_flags e)"

definition undelivered :: "EqueueEventData \<Rightarrow> KernelEvent list" where
  "undelivered e = (if ee_triggered e then ee_event e # ee_pending_events e else [])"

definition data_ok :: "EqueueEventData \<Rightarrow> bool" where
  "data_ok e \<longleftrightarrow> (ee_pending_events e \<noteq> [] \<longrightarrow> ee_triggered e) \<and> ev_key ` set (ee_pending_events e) \<subseteq> {ev_key (ee_event e)}"

locale event_source =
  fixes trig :: "64 word \<Rightarrow> EqueueEventData \<Rightarrow> 64 word \<Rightarrow> EqueueEventData"
    and reset :: "EqueueEventData \<Rightarrow> EqueueEventData"
    and clears :: "16 word \<Rightarrow> bool"
  assumes reset_clears: "clears (ev_flags (ee_event e)) \<Longrightarrow> \<not> ee_triggered (reset e)"
    and reset_pending: "ee_pending_events (reset e) = ee_pending_events e"
    and reset_key: "ev_key (ee_event (reset e)) = ev_key (ee_event e)"
    and trig_key: "ev_key (ee_event (trig tsc e d)) = ev_key (ee_event e)"
    and trig_triggers: "ee_triggered (trig tsc e d)"
    and trig_pending: "set (map ev_key (ee_pending_events (trig tsc e d))) \<subseteq>
      insert (ev_key (ee_event e)) (set (map ev_key (ee_pending_events e)))"
begin

lemma trig_ok:
  assumes "data_ok e"
  shows "data_ok (trig tsc e d)"
proof -
  have "ev_key ` set (ee_pending_events (trig tsc e d)) \<subseteq> {ev_key (ee_event e)}"
    using trig_pending [of tsc e d] assms unfolding set_map data_ok_def by blast
  then show ?thesis unfolding data_ok_def trig_key using trig_triggers by blast
qed

lemma settle_key: "reset_func f = Some reset \<Longrightarrow> data_ok e \<Longrightarrow> ev_key (ee_event (settle f e)) = ev_key (ee_event e)"
  using reset_key [of e] by (cases "ee_pending_events e") (simp_all add: settle_def Let_def reset_pending data_ok_def)

lemma settle_ok:
  assumes "reset_func f = Some reset" and "data_ok e"
  shows "data_ok (settle f e)"
  using assms reset_key [of e] by (cases "ee_pending_events e") (simp_all add: settle_def Let_def reset_pending data_ok_def)

lemma settle_delivers:
  assumes "reset_func f = Some reset" and "clears (ev_flags (ee_event e))" and "ee_triggered e"
  shows "undelivered (settle f e) = tl (undelivered e)"
  using assms reset_clears [of e] by (auto simp: settle_def Let_def reset_pending undelivered_def split: list.splits)

lemma report_delivers:
  assumes "reset_func f = Some reset" and "1 \<le> left" and "data_ok e" and "clears (ev_flags (ee_event e))"
    and "ev_flags (ee_event e) AND EV_ONESHOT = 0"
  shows "\<exists>e'. report_event left f e = (take left (undelivered e), Some e') \<and> undelivered e' = drop left (undelivered e) \<and>
    data_ok e' \<and> ev_key (ee_event e') = ev_key (ee_event e)"
  using assms(2-5)
proof (induction left arbitrary: e rule: less_induct)
  case (less left)
  let ?s = "settle f e"
  show ?case
  proof (cases "ee_triggered e")
    case False
    then show ?thesis using less.prems(2) by (simp add: report_event.simps [of left f] undelivered_def)
  next
    case True
    note s = settle_key [OF assms(1) less.prems(2)] settle_ok [OF assms(1) less.prems(2)] settle_delivers [OF assms(1) less.prems(3) True]
    have u: "undelivered e = ee_event e # tl (undelivered e)" using True by (simp add: undelivered_def)
    show ?thesis
    proof (cases "left \<le> 1")
      case l: True
      then have "left = 1" using less.prems(1) by simp
      then show ?thesis using True s less.prems(4) u
        by (subst report_event.simps) (simp add: drop_Suc take_Suc, simp add: undelivered_def)
    next
      case l: False
      have l1: "left - 1 < left" "1 \<le> left - 1" using l by simp_all
      have fl: "ev_flags (ee_event ?s) = ev_flags (ee_event e)" using s(1) by (simp add: ev_key_def)
      obtain e' where e': "report_event (left - 1) f ?s = (take (left - 1) (undelivered ?s), Some e')"
        "undelivered e' = drop (left - 1) (undelivered ?s)" "data_ok e'" "ev_key (ee_event e') = ev_key (ee_event ?s)"
        using less.IH [OF l1 s(2)] less.prems(3,4) unfolding fl by blast
      have "report_event left f e = (ee_event e # take (left - 1) (tl (undelivered e)), Some e')"
        using True l less.prems(4) e'(1) unfolding s(3) by (simp add: report_event.simps [of left f])
      moreover have "ee_event e # take (left - 1) (tl (undelivered e)) = take left (undelivered e)"
        "drop (left - 1) (tl (undelivered e)) = drop left (undelivered e)"
        using u l by (metis Suc_pred' not_less_eq take_Suc_Cons One_nat_def less_Suc0 linorder_not_le not_gr_zero zero_le,
          metis Suc_pred' drop_Suc less_Suc0 linorder_not_le not_gr_zero One_nat_def zero_le)
      ultimately show ?thesis using e' s by simp
    qed
  qed
qed

end

text \<open>A source that queues: every trigger is one more notification, in order.\<close>

locale queued_source = event_source +
  fixes notice :: "64 word \<Rightarrow> KernelEvent \<Rightarrow> 64 word \<Rightarrow> KernelEvent"
  assumes trig_queues: "data_ok e \<Longrightarrow> undelivered (trig tsc e d) = undelivered e @ [notice tsc (ee_event e) d]"
begin

lemma trigs_queue:
  "data_ok e \<Longrightarrow> \<exists>out. undelivered (fold (\<lambda>(tsc, d) e. trig tsc e d) calls e) = undelivered e @ out \<and> length out = length calls"
proof (induction calls arbitrary: e)
  case (Cons c calls)
  obtain tsc d where c: "c = (tsc, d)" by (cases c)
  obtain out where "undelivered (fold (\<lambda>(tsc, d) e. trig tsc e d) calls (trig tsc e d)) = undelivered (trig tsc e d) @ out"
    "length out = length calls" using Cons.IH [OF trig_ok [OF Cons.prems]] by blast
  then show ?case using trig_queues [OF Cons.prems] by (simp add: c)
qed simp

text \<open>As many triggers as wanted, then a collection of as many: all are delivered.\<close>

lemma all_delivered:
  assumes "reset_func f = Some reset" and "data_ok e" and "calls \<noteq> []" and "undelivered e = []"
    and "clears (ev_flags (ee_event e))" and "ev_flags (ee_event e) AND EV_ONESHOT = 0"
  shows "length (fst (report_event (length calls) f (fold (\<lambda>(tsc, d) e. trig tsc e d) calls e))) = length calls"
proof -
  let ?e = "fold (\<lambda>(tsc, d) e. trig tsc e d) calls e"
  have ok: "data_ok ?e \<and> ev_key (ee_event ?e) = ev_key (ee_event e)"
    using assms(2)
  proof (induction calls arbitrary: e)
    case (Cons c calls)
    then show ?case using trig_ok trig_key by (cases c) simp
  qed simp
  then have fl: "ev_flags (ee_event ?e) = ev_flags (ee_event e)" by (simp add: ev_key_def)
  have l: "1 \<le> length calls" using assms(3) by (cases calls) simp_all
  obtain out where "undelivered ?e = out" "length out = length calls"
    using trigs_queue [OF assms(2), of calls] assms(4) by auto
  then show ?thesis using report_delivers [OF assms(1) l, of ?e] ok assms(5,6) unfolding fl by auto
qed

end

lemma queue_or_set_spec:
  assumes "ev_key n = ev_key (ee_event e)"
  shows "ev_key (ee_event (queue_or_set n e)) = ev_key (ee_event e)" and "ee_triggered (queue_or_set n e)"
    and "set (map ev_key (ee_pending_events (queue_or_set n e))) \<subseteq> insert (ev_key (ee_event e)) (set (map ev_key (ee_pending_events e)))"
    and "data_ok e \<Longrightarrow> undelivered (queue_or_set n e) = undelivered e @ [n]"
  using assms by (auto simp: queue_or_set_def undelivered_def data_ok_def)

definition eop_note :: "KernelEvent \<Rightarrow> 64 word \<Rightarrow> KernelEvent" where
  "eop_note ev d = ev\<lparr>ev_fflags := ev_fflags ev + 1, ev_data := d\<rparr>"

definition video_note :: "64 word \<Rightarrow> KernelEvent \<Rightarrow> 64 word \<Rightarrow> KernelEvent" where
  "video_note tsc ev d = ev\<lparr>ev_fflags := (if ev_fflags ev < 0xf then ev_fflags ev + 1 else ev_fflags ev),
     ev_data := MakeVideoOutEventData tsc (ev_data ev) d\<rparr>"

lemma note_key [simp]:
  "ev_key (ev\<lparr>ev_data := d\<rparr>) = ev_key ev" "ev_key (eop_note ev d) = ev_key ev" "ev_key (video_note tsc ev d) = ev_key ev"
  by (simp_all add: ev_key_def eop_note_def video_note_def)

lemma trigger_queue_or_set:
  "AmprEventTriggerFunc e d = queue_or_set ((ee_event e)\<lparr>ev_data := d\<rparr>) e"
  "EopEventTriggerFunc e d = queue_or_set (eop_note (ee_event e) d) e"
  "TriggerVideoOutEvent tsc e d = queue_or_set (video_note tsc (ee_event e) d) e"
  by (simp_all add: AmprEventTriggerFunc_def EopEventTriggerFunc_def TriggerVideoOutEvent_def eop_note_def video_note_def)

interpretation user: event_source "\<lambda>tsc. UserEventTriggerFunc" UserEventResetFunc "\<lambda>flags. flags AND EV_CLEAR \<noteq> 0"
  by unfold_locales (auto simp: UserEventTriggerFunc_def UserEventResetFunc_def ev_key_def)

interpretation ampr: queued_source "\<lambda>tsc. AmprEventTriggerFunc" UserEventResetFunc "\<lambda>flags. flags AND EV_CLEAR \<noteq> 0"
    "\<lambda>tsc ev d. ev\<lparr>ev_data := d\<rparr>"
  unfolding trigger_queue_or_set
  by unfold_locales (simp_all only: UserEventResetFunc_def queue_or_set_spec note_key, simp_all add: ev_key_def)

interpretation eop: queued_source "\<lambda>tsc. EopEventTriggerFunc" EopEventResetFunc "\<lambda>flags. True" "\<lambda>tsc. eop_note"
  unfolding trigger_queue_or_set
  by unfold_locales (simp_all only: EopEventResetFunc_def queue_or_set_spec note_key, simp_all add: ev_key_def)

interpretation video: queued_source TriggerVideoOutEvent ResetVideoOutEvent "\<lambda>flags. True" video_note
  unfolding trigger_queue_or_set
  by unfold_locales (simp_all only: ResetVideoOutEvent_def queue_or_set_spec note_key, simp_all add: ev_key_def)

text \<open>The payload of a video-out notification is the low 48 bits of what it was triggered with.\<close>

lemma MakeVideoOutEventData_payload: "drop_bit 16 (MakeVideoOutEventData tsc old d) = d AND 0xffffffffffff"
proof -
  define c :: "64 word" where "c = drop_bit 12 old AND 0xf"
  define c' where "c' = (if c \<noteq> 0xf then c + 1 else c)"
  have "c \<le> 0xf" unfolding c_def by (simp add: word_and_le1 word_and_le2)
  then have "c' < 16" unfolding c'_def by (simp; unat_arith)
  then have c': "drop_bit 4 c' = 0" by (simp add: drop_bit_eq_div word_unat_eq_iff unat_div word_less_nat_alt)
  have "drop_bit 16 (tsc AND 0xfff) = 0" by (rule bit_word_eqI) (auto simp: bit_simps)
  moreover have "drop_bit 16 (push_bit 12 c') = 0"
  proof (rule bit_word_eqI)
    fix n
    have "\<not> bit (drop_bit 4 c') n" unfolding c' by simp
    then show "bit (drop_bit 16 (push_bit 12 c')) n = bit (0 :: 64 word) n" by (auto simp: bit_simps add.commute)
  qed
  moreover have "drop_bit 16 (push_bit 16 (d AND 0xffffffffffff)) = d AND 0xffffffffffff"
  proof -
    have m: "(0xffffffffffff :: 64 word) = mask 48" by (simp add: mask_eq_exp_minus_1)
    show ?thesis unfolding m by (rule bit_word_eqI) (auto simp: bit_simps)
  qed
  ultimately show ?thesis by (simp add: MakeVideoOutEventData_def Let_def c_def [symmetric] c'_def [symmetric])
qed

section \<open>The invariant of a queue\<close>

text \<open>
  What the sources register: the filter functions come with flags that suit them. Only a user event
  without \<open>EV_CLEAR\<close> stays triggered after it has been reported (a level event).
\<close>

definition ke_flags :: "KernelEqueueEvent \<Rightarrow> 16 word" where "ke_flags e = ev_flags (ee_event (ke_data e))"

definition ke_id :: "KernelEqueueEvent \<Rightarrow> 64 word \<times> int" where
  "ke_id e = (ev_ident (ee_event (ke_data e)), ev_filter (ee_event (ke_data e)))"

definition source_ok :: "KernelEqueueEvent \<Rightarrow> bool" where
  "source_ok e \<longleftrightarrow>
     (ke_filter e = no_filter \<and> ke_flags e AND EV_ONESHOT \<noteq> 0 \<and> ee_pending_events (ke_data e) = []) \<or>
     (ke_filter e = user_filter \<and> ke_flags e AND EV_ONESHOT = 0 \<and> ee_pending_events (ke_data e) = []) \<or>
     (ke_filter e = ampr_filter \<and> ke_flags e AND EV_ONESHOT = 0 \<and> ke_flags e AND EV_CLEAR \<noteq> 0) \<or>
     (ke_filter e = eop_filter \<and> ke_flags e AND EV_ONESHOT = 0) \<or>
     (ke_filter e = video_filter \<and> ke_flags e AND EV_ONESHOT = 0)"

definition ke_ok :: "KernelEqueueEvent \<Rightarrow> bool" where
  "ke_ok e \<longleftrightarrow> data_ok (ke_data e) \<and> source_ok e"

definition level :: "KernelEqueueEvent \<Rightarrow> bool" where
  "level e \<longleftrightarrow> ke_filter e = user_filter \<and> ke_flags e AND EV_CLEAR = 0"

definition stuck :: "KernelEqueueEvent \<Rightarrow> bool" where
  "stuck e \<longleftrightarrow> level e \<and> ee_triggered (ke_data e)"

abbreviation ke_undelivered :: "KernelEqueueEvent \<Rightarrow> KernelEvent list" where
  "ke_undelivered e \<equiv> undelivered (ke_data e)"

definition events_ok :: "KernelEqueueEvent list \<Rightarrow> bool" where
  "events_ok es \<longleftrightarrow> (\<forall>e\<in>set es. ke_ok e) \<and> distinct (map ke_id es)"

definition equeue_ok :: "KernelEqueuePrivate \<Rightarrow> bool" where
  "equeue_ok q \<longleftrightarrow> events_ok (q_events q) \<and> (q_closed q \<longrightarrow> q_events q = [])"

lemma filters_distinct [simp]:
  "no_filter \<noteq> user_filter" "no_filter \<noteq> ampr_filter" "no_filter \<noteq> eop_filter" "no_filter \<noteq> video_filter"
  "user_filter \<noteq> eop_filter" "user_filter \<noteq> video_filter" "ampr_filter \<noteq> eop_filter" "ampr_filter \<noteq> video_filter"
  "eop_filter \<noteq> video_filter"
  by (simp_all add: no_filter_def user_filter_def ampr_filter_def eop_filter_def video_filter_def)

lemmas filters_distinct' [simp] = filters_distinct [symmetric]

lemma user_ampr_distinct [simp]: "user_filter \<noteq> ampr_filter" "ampr_filter \<noteq> user_filter"
proof -
  let ?e = "\<lparr>ee_triggered = True, ee_deadline_ns = 0, ee_event = undefined, ee_pending_events = []\<rparr>"
  have "ee_pending_events (UserEventTriggerFunc ?e 0) = []" "ee_pending_events (AmprEventTriggerFunc ?e 0) \<noteq> []"
    by (simp_all add: UserEventTriggerFunc_def AmprEventTriggerFunc_def queue_or_set_def)
  then have "UserEventTriggerFunc \<noteq> AmprEventTriggerFunc" by metis
  then show "user_filter \<noteq> ampr_filter" by (auto simp: user_filter_def ampr_filter_def dest: fun_cong)
  then show "ampr_filter \<noteq> user_filter" by simp
qed

text \<open>Updating the data of an event in ways that keep its key.\<close>

lemma ke_flags_update: "ev_key (ee_event d) = ev_key (ee_event (ke_data e)) \<Longrightarrow> ke_flags (e\<lparr>ke_data := d\<rparr>) = ke_flags e"
  by (simp add: ke_flags_def ev_key_def)

lemma ke_ok_update:
  assumes "ke_ok e" and "data_ok d" and "ev_key (ee_event d) = ev_key (ee_event (ke_data e))"
    and "ke_filter e \<in> {no_filter, user_filter} \<Longrightarrow> ee_pending_events d = []"
  shows "ke_ok (e\<lparr>ke_data := d\<rparr>)" and "ke_id (e\<lparr>ke_data := d\<rparr>) = ke_id e"
  using assms by (auto simp: ke_ok_def source_ok_def ke_flags_update) (auto simp: ke_id_def ev_key_def)

section \<open>Collecting\<close>

text \<open>A level event is reported again and again until the buffer is full; it stays as it is.\<close>

lemma report_level:
  assumes "ke_ok e" and "stuck e" and "1 \<le> left"
  shows "report_event left (ke_filter e) (ke_data e) = (replicate left (ee_event (ke_data e)), Some (ke_data e))"
proof -
  have f: "reset_func (ke_filter e) = Some UserEventResetFunc" using assms(2) by (simp add: stuck_def level_def user_filter_def)
  have p: "ee_pending_events (ke_data e) = []" using assms(1,2) by (auto simp: ke_ok_def source_ok_def stuck_def level_def)
  have fl: "ev_flags (ee_event (ke_data e)) AND EV_ONESHOT = 0" "ev_flags (ee_event (ke_data e)) AND EV_CLEAR = 0"
    using assms(1,2) by (auto simp: ke_ok_def source_ok_def stuck_def level_def ke_flags_def)
  have s: "settle (ke_filter e) (ke_data e) = ke_data e"
    using f p fl by (simp add: settle_def UserEventResetFunc_def)
  have t: "ee_triggered (ke_data e)" using assms(2) by (simp add: stuck_def)
  show ?thesis
    using assms(3)
  proof (induction left)
    case (Suc k)
    then show ?case using t fl(1) s by (cases k) (simp_all add: report_event.simps [of "Suc k" for k])
  qed simp
qed

text \<open>Every other event gives its notifications in order and keeps the rest.\<close>

lemma report_clearing:
  assumes "ke_ok e" and "\<not> level e" and "1 \<le> left" and "ke_flags e AND EV_ONESHOT = 0"
  obtains d where "report_event left (ke_filter e) (ke_data e) = (take left (ke_undelivered e), Some d)"
    and "undelivered d = drop left (ke_undelivered e)" and "data_ok d" and "ev_key (ee_event d) = ev_key (ee_event (ke_data e))"
proof -
  have d: "data_ok (ke_data e)" and fl: "ev_flags (ee_event (ke_data e)) AND EV_ONESHOT = 0"
    using assms by (simp_all add: ke_ok_def ke_flags_def)
  consider (user) "ke_filter e = user_filter \<or> ke_filter e = ampr_filter" "ev_flags (ee_event (ke_data e)) AND EV_CLEAR \<noteq> 0"
    | (eop) "ke_filter e = eop_filter" | (video) "ke_filter e = video_filter"
    using assms(1,2,4) by (auto simp: ke_ok_def source_ok_def level_def ke_flags_def)
  then show ?thesis
  proof cases
    case user
    have "reset_func (ke_filter e) = Some UserEventResetFunc" using user(1) by (auto simp: user_filter_def ampr_filter_def)
    then show ?thesis using EventQueue.user.report_delivers [OF _ assms(3) d user(2) fl] that by blast
  next
    case eop
    have "reset_func (ke_filter e) = Some EopEventResetFunc" using eop by (simp add: eop_filter_def)
    then show ?thesis using EventQueue.eop.report_delivers [OF _ assms(3) d TrueI fl] that by blast
  next
    case video
    have "reset_func (ke_filter e) = Some ResetVideoOutEvent" using video by (simp add: video_filter_def)
    then show ?thesis using EventQueue.video.report_delivers [OF _ assms(3) d TrueI fl] that by blast
  qed
qed

lemma report_ok:
  assumes "ke_ok e" and "\<not> stuck e" and "1 \<le> left" and "report_event left (ke_filter e) (ke_data e) = (out, r)"
  shows "out = take left (ke_undelivered e) \<and>
    (case r of None \<Rightarrow> drop left (ke_undelivered e) = []
     | Some d \<Rightarrow> undelivered d = drop left (ke_undelivered e) \<and> ke_ok (e\<lparr>ke_data := d\<rparr>) \<and> ke_id (e\<lparr>ke_data := d\<rparr>) = ke_id e \<and>
         \<not> stuck (e\<lparr>ke_data := d\<rparr>))"
proof (cases "ee_triggered (ke_data e)")
  case False
  then show ?thesis using assms by (auto simp: report_event.simps [of left] undelivered_def)
next
  case True
  show ?thesis
  proof (cases "ke_flags e AND EV_ONESHOT = 0")
    case False
    then have "ee_pending_events (ke_data e) = []" using assms(1) by (auto simp: ke_ok_def source_ok_def)
    then show ?thesis using True False assms(3,4) by (auto simp: report_event.simps [of left] undelivered_def ke_flags_def take_Cons')
  next
    case one: True
    have nl: "\<not> level e" using assms(2) True by (simp add: stuck_def)
    obtain e' where e': "report_event left (ke_filter e) (ke_data e) = (take left (ke_undelivered e), Some e')"
      "undelivered e' = drop left (ke_undelivered e)" "data_ok e'" "ev_key (ee_event e') = ev_key (ee_event (ke_data e))"
      by (rule report_clearing [OF assms(1) nl assms(3) one])
    have p: "ee_pending_events e' = []" if "ke_filter e \<in> {no_filter, user_filter}"
    proof -
      have "ee_pending_events (ke_data e) = []" using that assms(1) one by (auto simp: ke_ok_def source_ok_def)
      then have "length (ke_undelivered e) \<le> 1" by (simp add: undelivered_def)
      then have "undelivered e' = []" using e'(2) assms(3) by simp
      then show ?thesis using e'(3) by (auto simp: undelivered_def data_ok_def split: if_splits)
    qed
    have "\<not> stuck (e\<lparr>ke_data := e'\<rparr>)" using nl ke_flags_update [OF e'(4)] by (auto simp: stuck_def level_def)
    then show ?thesis using ke_ok_update [OF assms(1) e'(3,4) p] e'(1,2) assms(4) by auto
  qed
qed

text \<open>What a collection keeps, whatever is in the queue.\<close>

lemma report_event_keeps:
  assumes "ke_ok e" and "1 \<le> left" and "report_event left (ke_filter e) (ke_data e) = (out, r)"
  shows "length out \<le> left" and "r = Some d \<Longrightarrow> ke_ok (e\<lparr>ke_data := d\<rparr>) \<and> ke_id (e\<lparr>ke_data := d\<rparr>) = ke_id e"
proof -
  have "length out \<le> left \<and> (r = Some d \<longrightarrow> ke_ok (e\<lparr>ke_data := d\<rparr>) \<and> ke_id (e\<lparr>ke_data := d\<rparr>) = ke_id e)"
  proof (cases "stuck e")
    case True
    then have "r = Some (ke_data e)" "length out = left" using report_level [OF assms(1) True assms(2)] assms(3) by auto
    then show ?thesis using assms(1) by auto
  next
    case False
    then show ?thesis using report_ok [OF assms(1) False assms(2,3)] by auto
  qed
  then show "length out \<le> left" and "r = Some d \<Longrightarrow> ke_ok (e\<lparr>ke_data := d\<rparr>) \<and> ke_id (e\<lparr>ke_data := d\<rparr>) = ke_id e" by simp_all
qed

lemma distinct_subseq: "subseq xs ys \<Longrightarrow> distinct ys \<Longrightarrow> distinct xs"
proof -
  assume "subseq xs ys" and "distinct ys"
  then have "distinct xs \<and> set xs \<subseteq> set ys" by (induction rule: list_emb.induct) auto
  then show ?thesis by simp
qed

lemma report_events_keeps:
  assumes "\<forall>e\<in>set es. ke_ok e" and "1 \<le> left" and "report_events left es = (out, es')"
  shows "(\<forall>e\<in>set es'. ke_ok e) \<and> subseq (map ke_id es') (map ke_id es) \<and> length out \<le> left"
  using assms
proof (induction es arbitrary: left out es')
  case (Cons e es)
  obtain o1 r where r: "report_event left (ke_filter e) (ke_data e) = (o1, r)" by (cases "report_event left (ke_filter e) (ke_data e)")
  define kept where "kept = (case r of None \<Rightarrow> [] | Some d \<Rightarrow> [e\<lparr>ke_data := d\<rparr>])"
  have e: "ke_ok e" "\<forall>e\<in>set es. ke_ok e" using Cons.prems(1) by simp_all
  note ro = report_event_keeps [OF e(1) Cons.prems(2) r]
  have k: "\<forall>e\<in>set kept. ke_ok e" using ro(2) by (cases r) (simp_all add: kept_def)
  have sub: "subseq (map ke_id kept @ xs) (ke_id e # ys)" if "subseq xs ys" for xs ys
    using ro(2) that by (cases r) (auto simp: kept_def intro: list_emb_Cons)
  show ?case
  proof (cases "left \<le> length o1")
    case True
    then have "(out, es') = (o1, kept @ es)" using Cons.prems(3) r by (simp add: kept_def [symmetric])
    then show ?thesis using ro(1) k e(2) sub [of "map ke_id es" "map ke_id es"] by auto
  next
    case False
    obtain o2 es2 where 2: "report_events (left - length o1) es = (o2, es2)" by (cases "report_events (left - length o1) es")
    have eq: "out = o1 @ o2" "es' = kept @ es2" using Cons.prems(3) False r 2 by (simp_all add: kept_def [symmetric])
    have "1 \<le> left - length o1" using False by simp
    note IH = Cons.IH [OF e(2) this 2]
    show ?thesis using IH k sub [of "map ke_id es2" "map ke_id es"] ro(1) unfolding eq by auto
  qed
qed simp

text \<open>The loop over a queue in which no level event is triggered: the notifications in order, each once.\<close>

lemma report_events_ok:
  assumes "\<forall>e\<in>set es. ke_ok e \<and> \<not> stuck e" and "1 \<le> left" and "report_events left es = (out, es')"
  shows "out = take left (concat (map ke_undelivered es)) \<and> concat (map ke_undelivered es') = drop left (concat (map ke_undelivered es))"
  using assms
proof (induction es arbitrary: left out es')
  case (Cons e es)
  obtain o1 r where r: "report_event left (ke_filter e) (ke_data e) = (o1, r)" by (cases "report_event left (ke_filter e) (ke_data e)")
  define kept where "kept = (case r of None \<Rightarrow> [] | Some d \<Rightarrow> [e\<lparr>ke_data := d\<rparr>])"
  let ?u = "ke_undelivered e" and ?us = "concat (map ke_undelivered es)"
  have e: "ke_ok e" "\<not> stuck e" "\<forall>e\<in>set es. ke_ok e \<and> \<not> stuck e" using Cons.prems(1) by simp_all
  note ro = report_ok [OF e(1,2) Cons.prems(2) r]
  have k: "concat (map ke_undelivered kept) = drop left ?u" using ro by (cases r) (simp_all add: kept_def)
  show ?case
  proof (cases "left \<le> length o1")
    case True
    then have "left \<le> length ?u" using ro by simp
    moreover have "(out, es') = (o1, kept @ es)" using Cons.prems(3) True r by (simp add: kept_def [symmetric])
    ultimately show ?thesis using ro k by simp
  next
    case False
    then have l: "length ?u < left" "o1 = ?u" using ro by auto
    obtain o2 es2 where 2: "report_events (left - length o1) es = (o2, es2)" by (cases "report_events (left - length o1) es")
    have eq: "out = o1 @ o2" "es' = kept @ es2" using Cons.prems(3) False r 2 by (simp_all add: kept_def [symmetric])
    have "1 \<le> left - length o1" using False by simp
    note IH = Cons.IH [OF e(3) this 2]
    show ?thesis using IH k l unfolding eq by simp
  qed
qed simp

lemma report_events_stuck:
  assumes "\<forall>e\<in>set es1. \<not> ee_triggered (ke_data e)" and "ke_ok e" and "stuck e" and "1 \<le> left"
  shows "report_events left (es1 @ e # es2) = (replicate left (ee_event (ke_data e)), es1 @ e # es2)"
  using assms(1)
proof (induction es1)
  case Nil
  then show ?case using report_level [OF assms(2-4)] by simp
next
  case (Cons x es1)
  then show ?case using assms(4) by (simp add: report_event.simps [of left])
qed

text \<open>The general case: what comes before the first such event is reported and settled as if it were alone.\<close>

lemma report_events_append:
  assumes "report_events left es1 = (o1, es1')" and "1 \<le> left"
  shows "report_events left (es1 @ es2) =
    (if left \<le> length o1 then (o1, es1' @ es2)
     else (case report_events (left - length o1) es2 of (o2, es2') \<Rightarrow> (o1 @ o2, es1' @ es2')))"
  using assms
proof (induction es1 arbitrary: left o1 es1')
  case (Cons e es1)
  obtain oe r where r: "report_event left (ke_filter e) (ke_data e) = (oe, r)" by (cases "report_event left (ke_filter e) (ke_data e)")
  define kept where "kept = (case r of None \<Rightarrow> [] | Some d \<Rightarrow> [e\<lparr>ke_data := d\<rparr>])"
  have unf: "report_events left (e # es) = (if left \<le> length oe then (oe, kept @ es)
      else (case report_events (left - length oe) es of (o', es') \<Rightarrow> (oe @ o', kept @ es')))" for es
    using r by (simp add: kept_def [symmetric] Let_def)
  show ?case
  proof (cases "left \<le> length oe")
    case True
    then have "(o1, es1') = (oe, kept @ es1)" using Cons.prems(1) unf by simp
    then show ?thesis using True unf [of "es1 @ es2"] by simp
  next
    case False
    obtain o2 es2' where 2: "report_events (left - length oe) es1 = (o2, es2')" by fastforce
    have eq: "o1 = oe @ o2" "es1' = kept @ es2'" using Cons.prems(1) unf False 2 by simp_all
    have "1 \<le> left - length oe" using False by simp
    note IH = Cons.IH [OF 2 this]
    have u: "report_events left ((e # es1) @ es2) = (case report_events (left - length oe) (es1 @ es2) of (o', es') \<Rightarrow> (oe @ o', kept @ es'))"
      using unf [of "es1 @ es2"] False by simp
    show ?thesis
    proof (cases "left - length oe \<le> length o2")
      case True
      then show ?thesis unfolding u IH if_P [OF True] eq by auto
    next
      case False
      then have "\<not> left \<le> length o1" "left - length oe - length o2 = left - length o1" unfolding eq by auto
      then show ?thesis unfolding u IH if_not_P [OF False] by (simp add: eq split: prod.split)
    qed
  qed
qed auto

text \<open>What waits to be collected, as far as \<open>num\<close> notifications go: an event that stays triggered gives as many as wanted.\<close>

fun notifications :: "nat \<Rightarrow> KernelEqueueEvent list \<Rightarrow> KernelEvent list" where
  "notifications num [] = []"
| "notifications num (e # es) =
     (if stuck e then replicate num (ee_event (ke_data e)) else ke_undelivered e @ notifications num es)"

lemma notifications_append:
  "\<forall>x\<in>set es1. \<not> stuck x \<Longrightarrow> notifications num (es1 @ es2) = concat (map ke_undelivered es1) @ notifications num es2"
  by (induction es1) simp_all

lemma notifications_no_level: "\<forall>x\<in>set es. \<not> stuck x \<Longrightarrow> notifications num es = concat (map ke_undelivered es)"
  using notifications_append [of es num "[]"] by simp

lemma report_events_level:
  assumes ok: "\<forall>x\<in>set (es1 @ e # es2). ke_ok x" and es1: "\<forall>x\<in>set es1. \<not> stuck x" and e: "stuck e" and left: "1 \<le> left"
    and r: "report_events left (es1 @ e # es2) = (out, es')"
  shows "out = take left (concat (map ke_undelivered es1) @ replicate left (ee_event (ke_data e)))"
    and "\<exists>es1'. es' = es1' @ e # es2 \<and> concat (map ke_undelivered es1') = drop left (concat (map ke_undelivered es1))"
proof -
  let ?u = "concat (map ke_undelivered es1)" and ?v = "ee_event (ke_data e)"
  obtain o1 es1' where 1: "report_events left es1 = (o1, es1')" by fastforce
  have o1: "o1 = take left ?u" "concat (map ke_undelivered es1') = drop left ?u"
    using report_events_ok [OF _ left 1] ok es1 by auto
  note app = report_events_append [OF 1 left, of "e # es2"]
  have "out = take left (?u @ replicate left ?v) \<and> es' = es1' @ e # es2"
  proof (cases "left \<le> length o1")
    case True
    then have "left \<le> length ?u" using o1(1) by simp
    then show ?thesis using app True r o1(1) by simp
  next
    case False
    then have u: "length ?u < left" "o1 = ?u" using o1(1) by auto
    have "report_events (left - length o1) ([] @ e # es2) = (replicate (left - length o1) ?v, [] @ e # es2)"
      by (rule report_events_stuck) (use ok e False in auto)
    then have "(out, es') = (?u @ replicate (left - length ?u) ?v, es1' @ e # es2)" using app False r u by simp
    then show ?thesis using u(1) by (simp add: min_def)
  qed
  then show "out = take left (?u @ replicate left ?v)"
    and "\<exists>es1'. es' = es1' @ e # es2 \<and> concat (map ke_undelivered es1') = drop left ?u" using o1(2) by blast+
qed

lemma report_events_exact:
  assumes "\<forall>x\<in>set es. ke_ok x" and "1 \<le> left" and "report_events left es = (out, es')"
  shows "out = take left (notifications left es)"
proof (cases "\<exists>x\<in>set es. stuck x")
  case True
  then obtain es1 e es2 where e: "es = es1 @ e # es2" "stuck e" "\<forall>x\<in>set es1. \<not> stuck x"
    using split_list_first_prop [of es stuck] by blast
  have "out = take left (concat (map ke_undelivered es1) @ replicate left (ee_event (ke_data e)))"
    by (rule report_events_level(1) [OF assms(1) [unfolded e(1)] e(3,2) assms(2) assms(3) [unfolded e(1)]])
  then show ?thesis unfolding e(1) notifications_append [OF e(3)] by (simp add: e(2))
next
  case False
  then show ?thesis using report_events_ok [OF _ assms(2,3)] assms(1) notifications_no_level [of es] by auto
qed

text \<open>Expired timers.\<close>

definition expire :: "nat \<Rightarrow> KernelEqueueEvent \<Rightarrow> KernelEqueueEvent" where
  "expire now e = (if \<not> ee_triggered (ke_data e) \<and> ee_deadline_ns (ke_data e) \<noteq> 0 \<and> ee_deadline_ns (ke_data e) \<le> now
     then e\<lparr>ke_data := (ke_data e)\<lparr>ee_triggered := True\<rparr>\<rparr> else e)"

lemma TriggerExpiredTimers_map: "TriggerExpiredTimers now es = map (expire now) es"
  by (simp add: TriggerExpiredTimers_def expire_def)

lemma expire_ok: "ke_ok e \<Longrightarrow> ke_ok (expire now e)" "ke_id (expire now e) = ke_id e"
proof -
  show "ke_id (expire now e) = ke_id e" by (simp add: expire_def ke_id_def)
  assume e: "ke_ok e"
  let ?d = "(ke_data e)\<lparr>ee_triggered := True\<rparr>"
  show "ke_ok (expire now e)"
  proof (cases "\<not> ee_triggered (ke_data e)")
    case True
    then have "data_ok ?d" "ee_pending_events (ke_data e) = []" using e by (auto simp: ke_ok_def data_ok_def)
    then show ?thesis using ke_ok_update(1) [OF e, of ?d] e by (auto simp: expire_def)
  qed (use e in \<open>simp add: expire_def\<close>)
qed

lemma expired_events_ok: "events_ok es \<Longrightarrow> events_ok (TriggerExpiredTimers now es)"
  by (auto simp: events_ok_def TriggerExpiredTimers_map expire_ok o_def)

lemma GetTriggeredEvents_ok:
  assumes "equeue_ok q" and "GetTriggeredEvents now num q = Some (ret, out, q')"
  shows "equeue_ok q'" and "q_handle q' = q_handle q" and "q_closed q' = q_closed q"
proof -
  obtain out' es' where r: "report_events (nat num) (TriggerExpiredTimers now (q_events q)) = (out', es')" by fastforce
  have n: "1 \<le> num" using assms(2) by (simp add: GetTriggeredEvents_def split: if_splits)
  have "equeue_ok q' \<and> q_handle q' = q_handle q \<and> q_closed q' = q_closed q"
  proof (cases "q_closed q")
    case True
    then show ?thesis using assms n by (auto simp: GetTriggeredEvents_def)
  next
    case False
    have q': "q' = q\<lparr>q_events := es'\<rparr>" using assms(2) n False r by (simp add: GetTriggeredEvents_def)
    have ok: "events_ok (TriggerExpiredTimers now (q_events q))" using assms(1) expired_events_ok by (simp add: equeue_ok_def)
    have "1 \<le> nat num" using n by simp
    note k = report_events_keeps [OF _ this r]
    have "events_ok es'" using k ok unfolding events_ok_def by (metis distinct_subseq)
    then show ?thesis using False by (simp add: q' equeue_ok_def)
  qed
  then show "equeue_ok q'" and "q_handle q' = q_handle q" and "q_closed q' = q_closed q" by simp_all
qed

section \<open>The other operations keep the invariant\<close>

lemma update_first_map: "(\<And>x. x \<in> set xs \<Longrightarrow> g (f x) = g x) \<Longrightarrow> map g (update_first P f xs) = map g xs"
  by (induction xs) simp_all

lemma update_first_all: "\<forall>x\<in>set xs. Q x \<Longrightarrow> (\<And>x. Q x \<Longrightarrow> P x \<Longrightarrow> Q (f x)) \<Longrightarrow> \<forall>x\<in>set (update_first P f xs). Q x"
  by (induction xs) auto

lemma update_first_split:
  "\<exists>x\<in>set xs. P x \<Longrightarrow> \<exists>ys x zs. xs = ys @ x # zs \<and> P x \<and> (\<forall>y\<in>set ys. \<not> P y) \<and> update_first P f xs = ys @ f x # zs \<and> erase_first P xs = ys @ zs"
proof (induction xs)
  case (Cons a xs)
  show ?case
  proof (cases "P a")
    case True
    then show ?thesis by (intro exI [of _ "[]"] exI [of _ a] exI [of _ xs]) simp
  next
    case False
    then obtain ys x zs where "xs = ys @ x # zs" "P x" "\<forall>y\<in>set ys. \<not> P y" "update_first P f xs = ys @ f x # zs" "erase_first P xs = ys @ zs"
      using Cons by auto
    then show ?thesis using False by (intro exI [of _ "a # ys"] exI [of _ x] exI [of _ zs]) auto
  qed
qed simp

lemma erase_first_subseq: "subseq (erase_first P xs) xs"
  by (induction xs) (auto intro: list_emb_Cons)

lemma erase_first_set: "set (erase_first P xs) \<subseteq> set xs"
  by (induction xs) auto

lemma event_is_ke_id: "event_is ident flt e \<longleftrightarrow> ke_id e = (ident, flt)"
  by (auto simp: event_is_def ke_id_def)

text \<open>The events that the sources register.\<close>

definition source_events :: "KernelEqueueEvent set" where
  "source_events = range user_event \<union> range user_event_edge \<union> {e. \<exists>n udata. e = ampr_event n udata} \<union>
     {e. \<exists>n udata. e = eop_event n udata} \<union> {e. \<exists>tsc kind mode udata. e = video_event tsc kind mode udata} \<union>
     {e. \<exists>n deadline udata. e = hrtimer_event n deadline udata}"

lemma source_events_ok: "e \<in> source_events \<Longrightarrow> ke_ok e"
  unfolding source_events_def ke_ok_def source_ok_def ke_flags_def data_ok_def
  by (auto simp: user_event_def user_event_edge_def ampr_event_def eop_event_def video_event_def hrtimer_event_def registered_def
      Let_def ev_defs split: option.splits)

lemma fire_ok:
  assumes "ke_ok e"
  shows "ke_ok (fire tsc d e)" and "ke_id (fire tsc d e) = ke_id e" and "ee_triggered (ke_data (fire tsc d e))"
proof -
  have e: "data_ok (ke_data e)" using assms by (simp add: ke_ok_def)
  define d' where "d' = ke_data (fire tsc d e)"
  have f: "fire tsc d e = e\<lparr>ke_data := d'\<rparr>" by (simp add: fire_def d'_def)
  have all: "data_ok d' \<and> ev_key (ee_event d') = ev_key (ee_event (ke_data e)) \<and> ee_triggered d' \<and>
    (ke_filter e \<in> {no_filter, user_filter} \<longrightarrow> ee_pending_events d' = [])"
  proof -
    consider (none) "ke_filter e = no_filter" "ee_pending_events (ke_data e) = []" | (user) "ke_filter e = user_filter" "ee_pending_events (ke_data e) = []"
      | (ampr) "ke_filter e = ampr_filter" | (eop) "ke_filter e = eop_filter" | (video) "ke_filter e = video_filter"
      using assms by (auto simp: ke_ok_def source_ok_def)
    then show ?thesis
    proof cases
      case none
      then have "d' = (ke_data e)\<lparr>ee_triggered := True\<rparr>" by (simp add: d'_def fire_def no_filter_def)
      then show ?thesis using none by (simp add: data_ok_def)
    next
      case user
      then have "d' = UserEventTriggerFunc (ke_data e) d" by (simp add: d'_def fire_def user_filter_def)
      then show ?thesis using user EventQueue.user.trig_ok [OF e] EventQueue.user.trig_key EventQueue.user.trig_triggers
        by (simp add: UserEventTriggerFunc_def)
    next
      case ampr
      then have "d' = AmprEventTriggerFunc (ke_data e) d" by (simp add: d'_def fire_def ampr_filter_def)
      then show ?thesis using ampr EventQueue.ampr.trig_ok [OF e] EventQueue.ampr.trig_key EventQueue.ampr.trig_triggers by simp
    next
      case eop
      then have "d' = EopEventTriggerFunc (ke_data e) d" by (simp add: d'_def fire_def eop_filter_def)
      then show ?thesis using eop EventQueue.eop.trig_ok [OF e] EventQueue.eop.trig_key EventQueue.eop.trig_triggers by simp
    next
      case video
      then have "d' = TriggerVideoOutEvent tsc (ke_data e) d" by (simp add: d'_def fire_def video_filter_def)
      then show ?thesis using video EventQueue.video.trig_ok [OF e] EventQueue.video.trig_key EventQueue.video.trig_triggers by simp
    qed
  qed
  show "ke_ok (fire tsc d e)" and "ke_id (fire tsc d e) = ke_id e" using ke_ok_update [OF assms, of d'] all unfolding f by blast+
  show "ee_triggered (ke_data (fire tsc d e))" using all by (simp add: d'_def)
qed

lemma readd_ok:
  assumes "ke_ok e"
  shows "ke_ok (readd ev e)" and "ke_id (readd ev e) = ke_id e"
proof -
  define d' where "d' = ke_data (readd ev e)"
  have r: "readd ev e = e\<lparr>ke_data := d'\<rparr>" by (simp add: readd_def Let_def d'_def)
  have k: "ev_key (p\<lparr>ev_udata := u\<rparr>) = ev_key p" for p u by (simp add: ev_key_def)
  have "ev_key ` set (ee_pending_events d') = ev_key ` set (ee_pending_events (ke_data e))"
    by (simp add: d'_def readd_def Let_def image_image k)
  then have "data_ok d' \<and> ev_key (ee_event d') = ev_key (ee_event (ke_data e))"
    using assms by (simp add: ke_ok_def data_ok_def d'_def readd_def Let_def k)
  moreover have "ke_filter e \<in> {no_filter, user_filter} \<Longrightarrow> ee_pending_events d' = []"
    using assms by (auto simp: ke_ok_def source_ok_def d'_def readd_def Let_def)
  ultimately show "ke_ok (readd ev e)" and "ke_id (readd ev e) = ke_id e" using ke_ok_update [OF assms, of d'] unfolding r by blast+
qed

lemma AddEvent_ok:
  assumes "equeue_ok q" and "ev \<in> source_events" and "AddEvent ev q = (ret, q')"
  shows "equeue_ok q' \<and> q_handle q' = q_handle q \<and> q_closed q' = q_closed q"
proof (cases "q_closed q")
  case False
  let ?same = "event_is (ev_ident (ee_event (ke_data ev))) (ev_filter (ee_event (ke_data ev)))"
  have es: "events_ok (q_events q)" using assms(1) by (simp add: equeue_ok_def)
  show ?thesis
  proof (cases "\<exists>e\<in>set (q_events q). ?same e")
    case True
    let ?es = "update_first ?same (readd ev) (q_events q)"
    have id: "map ke_id ?es = map ke_id (q_events q)"
    proof (rule update_first_map)
      show "ke_id (readd ev x) = ke_id x" for x by (simp add: readd_def Let_def ke_id_def)
    qed
    moreover have "\<forall>e\<in>set ?es. ke_ok e" using es readd_ok(1) by (intro update_first_all) (simp_all add: events_ok_def)
    ultimately have "events_ok ?es" using es by (simp add: events_ok_def)
    then show ?thesis using assms(3) False True by (auto simp: AddEvent_def equeue_ok_def Let_def)
  next
    case new: False
    have "ke_id ev \<notin> ke_id ` set (q_events q)" using new unfolding event_is_ke_id by (auto simp: ke_id_def)
    then have "events_ok (q_events q @ [ev])" using es source_events_ok [OF assms(2)] by (auto simp: events_ok_def)
    then show ?thesis using assms(3) False new by (auto simp: AddEvent_def equeue_ok_def Let_def)
  qed
qed (use assms in \<open>simp add: AddEvent_def\<close>)

lemma TriggerEvent_ok:
  assumes "equeue_ok q" and "TriggerEvent tsc ident flt d q = (ret, q')"
  shows "equeue_ok q' \<and> q_handle q' = q_handle q \<and> q_closed q' = q_closed q"
proof -
  have es: "\<forall>e\<in>set (q_events q). ke_ok e" "distinct (map ke_id (q_events q))" using assms(1) by (simp_all add: equeue_ok_def events_ok_def)
  let ?es = "update_first (event_is ident flt) (fire tsc d) (q_events q)"
  have "\<forall>e\<in>set ?es. ke_ok e" using es(1) fire_ok(1) by (intro update_first_all) simp_all
  moreover have "map ke_id ?es = map ke_id (q_events q)"
    using es(1) by (intro update_first_map) (simp add: fire_ok(2))
  ultimately have "events_ok ?es" using es(2) by (simp add: events_ok_def)
  then show ?thesis using assms by (auto simp: TriggerEvent_def equeue_ok_def split: if_splits)
qed

lemma DeleteEvent_ok:
  assumes "equeue_ok q" and "DeleteEvent ident flt q = (ret, calls, q')"
  shows "equeue_ok q' \<and> q_handle q' = q_handle q \<and> q_closed q' = q_closed q"
proof -
  let ?es = "erase_first (event_is ident flt) (q_events q)"
  have "set ?es \<subseteq> set (q_events q)" by (rule erase_first_set)
  moreover have "subseq (map ke_id ?es) (map ke_id (q_events q))" by (rule subseq_map [OF erase_first_subseq])
  ultimately have "events_ok ?es" using assms(1) distinct_subseq unfolding equeue_ok_def events_ok_def by blast
  then show ?thesis using assms by (auto simp: DeleteEvent_def equeue_ok_def split: if_splits option.splits)
qed

lemma Close_ok: "Close q = (calls, q') \<Longrightarrow> equeue_ok q \<Longrightarrow> equeue_ok q' \<and> q_handle q' = q_handle q \<and> q_closed q'"
  by (auto simp: Close_def equeue_ok_def events_ok_def split: if_splits)

section \<open>Reachable tables\<close>

text \<open>
  Every interleaving: a thread that has pinned a queue may act on it also after another thread has taken
  it out of the table, and between that and its \<open>Close\<close>.
\<close>

inductive equeue_reachable :: "equeue_table \<Rightarrow> bool" where
  equeue_new: "equeue_reachable new_equeue_table"
| equeue_create: "equeue_reachable t \<Longrightarrow> KernelCreateEqueue eq_null name t = Some (ret, eq, t') \<Longrightarrow> equeue_reachable t'"
| equeue_forget: "equeue_reachable t \<Longrightarrow> equeue_reachable (t\<lparr>g_equeues := g_equeues t - {eq}\<rparr>)"
| equeue_close: "equeue_reachable t \<Longrightarrow> eq \<notin> g_equeues t \<Longrightarrow> equeue_heap t eq = Some q \<Longrightarrow>
    equeue_reachable (put_equeue eq (snd (Close q)) t)"
| equeue_add: "equeue_reachable t \<Longrightarrow> equeue_heap t eq = Some q \<Longrightarrow> ev \<in> source_events \<Longrightarrow>
    equeue_reachable (put_equeue eq (snd (AddEvent ev q)) t)"
| equeue_trigger: "equeue_reachable t \<Longrightarrow> equeue_heap t eq = Some q \<Longrightarrow>
    equeue_reachable (put_equeue eq (snd (TriggerEvent tsc ident flt d q)) t)"
| equeue_delete: "equeue_reachable t \<Longrightarrow> equeue_heap t eq = Some q \<Longrightarrow>
    equeue_reachable (put_equeue eq (snd (snd (DeleteEvent ident flt q))) t)"
| equeue_collect: "equeue_reachable t \<Longrightarrow> equeue_heap t eq = Some q \<Longrightarrow> GetTriggeredEvents now num q = Some (ret, out, q') \<Longrightarrow>
    equeue_reachable (put_equeue eq q' t)"

definition equeue_table_ok :: "equeue_table \<Rightarrow> bool" where
  "equeue_table_ok t \<longleftrightarrow>
     (\<forall>eq q. equeue_heap t eq = Some q \<longrightarrow> equeue_ok q \<and> q_handle q = eq \<and> 0 < eq \<and> eq < int (g_next_equeue t) \<and>
       (eq \<in> g_equeues t \<longrightarrow> \<not> q_closed q)) \<and>
     (\<forall>eq\<in>g_equeues t. equeue_heap t eq \<noteq> None) \<and> 1 \<le> g_next_equeue t"

lemma put_equeue_ok:
  assumes "equeue_table_ok t" and "equeue_heap t eq = Some q" and "equeue_ok q' \<and> q_handle q' = q_handle q \<and> q_closed q' = q_closed q"
  shows "equeue_table_ok (put_equeue eq q' t)"
  using assms unfolding equeue_table_ok_def put_equeue_def by auto

lemma equeue_reachable_ok: "equeue_reachable t \<Longrightarrow> equeue_table_ok t"
proof (induction rule: equeue_reachable.induct)
  case equeue_new
  then show ?case by (simp add: equeue_table_ok_def new_equeue_table_def)
next
  case (equeue_create t eq_null name ret eq t')
  note ok = equeue_create.IH [unfolded equeue_table_ok_def]
  let ?n = "int (g_next_equeue t)"
  consider "t' = t" | nm where "t' = (put_equeue ?n (new_equeue ?n nm) t)\<lparr>g_equeues := insert ?n (g_equeues t), g_next_equeue := g_next_equeue t + 1\<rparr>"
    using equeue_create.hyps(2) by (auto simp: KernelCreateEqueue_def Let_def split: option.splits if_splits)
  then show ?case
  proof cases
    case 1
    then show ?thesis using equeue_create.IH by simp
  next
    case 2
    have "a < 1 + ?n" if "equeue_heap t a = Some q" for a q using ok that by force
    then show ?thesis using ok unfolding 2 equeue_table_ok_def
      by (auto simp: put_equeue_def new_equeue_def equeue_ok_def events_ok_def)
  qed
next
  case (equeue_forget t eq)
  then show ?case by (auto simp: equeue_table_ok_def)
next
  case (equeue_close t eq q)
  then have "equeue_ok (snd (Close q)) \<and> q_handle (snd (Close q)) = q_handle q \<and> q_closed (snd (Close q))"
    using Close_ok by (metis equeue_table_ok_def prod.collapse)
  then show ?case using equeue_close unfolding equeue_table_ok_def put_equeue_def by auto
next
  case (equeue_add t eq q ev)
  then have "equeue_ok q" by (simp add: equeue_table_ok_def)
  then show ?case using put_equeue_ok [OF equeue_add.IH equeue_add.hyps(2)] AddEvent_ok [OF _ equeue_add.hyps(3)] by (metis prod.collapse)
next
  case (equeue_trigger t eq q tsc ident flt d)
  then have "equeue_ok q" by (simp add: equeue_table_ok_def)
  then show ?case using put_equeue_ok [OF equeue_trigger.IH equeue_trigger.hyps(2)] TriggerEvent_ok by (metis prod.collapse)
next
  case (equeue_delete t eq q ident flt)
  then have "equeue_ok q" by (simp add: equeue_table_ok_def)
  then show ?case using put_equeue_ok [OF equeue_delete.IH equeue_delete.hyps(2)] DeleteEvent_ok by (metis prod.collapse)
next
  case (equeue_collect t eq q now num ret out q')
  then have "equeue_ok q" by (simp add: equeue_table_ok_def)
  then show ?case using put_equeue_ok [OF equeue_collect.IH equeue_collect.hyps(2)] GetTriggeredEvents_ok [OF _ equeue_collect.hyps(3)] by blast
qed

text \<open>The calls of the library stay within these steps.\<close>

lemma KernelPinEqueue_heap: "KernelPinEqueue eq t = Some q \<Longrightarrow> equeue_heap t eq = Some q \<and> eq \<in> g_equeues t"
  by (simp add: KernelPinEqueue_def split: if_splits)

lemma KernelAddEvent_reachable:
  assumes "equeue_reachable t" and "ev \<in> source_events"
  shows "equeue_reachable (snd (KernelAddEvent eq ev t))"
proof (cases "KernelPinEqueue eq t")
  case (Some q)
  then show ?thesis using equeue_add [OF assms(1) _ assms(2), of eq q] KernelPinEqueue_heap [OF Some]
    by (cases "AddEvent ev q") (simp add: KernelAddEvent_def)
qed (use assms in \<open>simp add: KernelAddEvent_def\<close>)

lemma KernelTriggerEvent_reachable:
  assumes "equeue_reachable t"
  shows "equeue_reachable (snd (KernelTriggerEvent tsc eq ident flt d t))"
proof (cases "KernelPinEqueue eq t")
  case (Some q)
  then show ?thesis using equeue_trigger [OF assms, of eq q tsc ident flt d] KernelPinEqueue_heap [OF Some]
    by (cases "TriggerEvent tsc ident flt d q") (simp add: KernelTriggerEvent_def)
qed (use assms in \<open>simp add: KernelTriggerEvent_def\<close>)

lemma KernelDeleteEvent_reachable:
  assumes "equeue_reachable t"
  shows "equeue_reachable (snd (snd (KernelDeleteEvent eq ident flt t)))"
proof (cases "KernelPinEqueue eq t")
  case (Some q)
  then show ?thesis using equeue_delete [OF assms, of eq q ident flt] KernelPinEqueue_heap [OF Some]
    by (cases "DeleteEvent ident flt q") (simp add: KernelDeleteEvent_def)
qed (use assms in \<open>simp add: KernelDeleteEvent_def\<close>)

lemma put_equeue_commute: "(put_equeue eq q t)\<lparr>g_equeues := hs\<rparr> = put_equeue eq q (t\<lparr>g_equeues := hs\<rparr>)"
  by (cases t) (simp add: put_equeue_def)

lemma KernelDeleteEqueue_reachable:
  assumes "equeue_reachable t"
  shows "equeue_reachable (snd (snd (KernelDeleteEqueue eq t)))"
proof (cases "eq \<in> g_equeues t")
  case True
  then obtain q where q: "equeue_heap t eq = Some q" using equeue_reachable_ok [OF assms] by (auto simp: equeue_table_ok_def)
  show ?thesis using equeue_close [OF equeue_forget [OF assms, of eq], of eq q] q True
    by (cases "Close q") (simp add: KernelDeleteEqueue_def put_equeue_commute)
qed (use assms in \<open>simp add: KernelDeleteEqueue_def\<close>)

lemma WaitForEvents_head_collects:
  "WaitForEvents_head now1 now2 num micros elapsed q = Some (out, q') \<Longrightarrow> \<exists>ret evs. GetTriggeredEvents now1 num q = Some (ret, evs, q')"
  by (auto simp: WaitForEvents_head_def split: bind_splits if_splits option.splits)

lemma KernelWaitEqueue_reachable:
  assumes "equeue_reachable t" and "KernelWaitEqueue now1 now2 eq ev_null num out_null timo t = Some (outcome, t')"
  shows "equeue_reachable t'"
proof (cases "KernelPinEqueue eq t")
  case (Some q)
  have q: "equeue_heap t eq = Some q" using KernelPinEqueue_heap [OF Some] by simp
  have same: "put_equeue eq q t = t" using q by (simp add: put_equeue_def fun_upd_idem)
  have "\<exists>out q'. t' = t \<or> (t' = put_equeue eq q' t \<and> (q' = q \<or> (\<exists>ret evs. GetTriggeredEvents now1 num q = Some (ret, evs, q'))))"
    using assms(2) Some WaitForEvents_head_collects [of now1 now2 num _ 0 q]
    by (auto simp: KernelWaitEqueue_def WaitForEvents_begin_def split: if_splits)
  then show ?thesis using equeue_collect [OF assms(1) q] assms(1) same by metis
qed (use assms in \<open>simp add: KernelWaitEqueue_def\<close>)

section \<open>Timers\<close>

definition timer_deadlines :: "KernelEqueuePrivate \<Rightarrow> nat list" where
  "timer_deadlines q = map (\<lambda>e. ee_deadline_ns (ke_data e))
     (filter (\<lambda>e. \<not> ee_triggered (ke_data e) \<and> ee_deadline_ns (ke_data e) \<noteq> 0) (q_events q))"

lemma foldl_min_le: "foldl min (a :: nat) xs \<le> a" "x \<in> set xs \<Longrightarrow> foldl min a xs \<le> x"
proof -
  have le: "foldl min a xs \<le> a" for a :: nat and xs by (induction xs arbitrary: a) (simp, metis foldl_Cons min.boundedE)
  then show "foldl min a xs \<le> a" .
  show "x \<in> set xs \<Longrightarrow> foldl min a xs \<le> x"
  proof (induction xs arbitrary: a)
    case (Cons y ys)
    then show ?case using le [of "min a y" ys] by auto
  qed simp
qed

lemma foldl_min_in: "foldl min (a :: nat) xs = a \<or> foldl min a xs \<in> set xs"
  by (induction xs arbitrary: a) (simp, metis foldl_Cons list.set_intros min_def)

text \<open>The time to the next timer is rounded up to whole microseconds, at least one, unless the sum wraps.\<close>

lemma GetNextTimerWaitMicros_spec:
  assumes "dl \<in> set (timer_deadlines q)" and "dl \<noteq> UINT64_MAX" and "dl < 2 ^ 64" and "UINT64_MAX - 999 > dl - now"
  shows "\<exists>w. GetNextTimerWaitMicros now q = Some w \<and> 1 \<le> w \<and> w \<le> UINT32_MAX \<and> w \<le> (dl - now + 999) div 1000 + 1"
proof -
  define m where "m = foldl min UINT64_MAX (timer_deadlines q)"
  have m: "m \<le> dl" unfolding m_def using foldl_min_le(2) assms(1) by blast
  then have ne: "m \<noteq> UINT64_MAX" using assms(2,3) by simp
  define remaining where "remaining = (if m > now then m - now else 0)"
  have r: "remaining \<le> dl - now" using m by (simp add: remaining_def diff_le_mono)
  have "add64 remaining 999 = remaining + 999" using r assms(4) by (simp add: add64_def)
  then have "GetNextTimerWaitMicros now q = Some (min (max 1 ((remaining + 999) div 1000)) UINT32_MAX)"
    unfolding GetNextTimerWaitMicros_def timer_deadlines_def [symmetric] m_def [symmetric] Let_def remaining_def [symmetric]
    using ne by simp
  moreover have "(remaining + 999) div 1000 \<le> (dl - now + 999) div 1000" using r by (intro div_le_mono) simp
  ultimately show ?thesis by (intro exI conjI) (assumption, auto)
qed

text \<open>Triggering an event of a queueing source.\<close>

lemma fire_notifies:
  assumes "data_ok (ke_data e)"
  shows "ke_filter e \<in> {ampr_filter, eop_filter, video_filter} \<longrightarrow>
    (\<exists>n. ke_undelivered (fire tsc d e) = ke_undelivered e @ [n] \<and> ev_key n = ev_key (ee_event (ke_data e)) \<and>
      ev_udata n = ev_udata (ee_event (ke_data e)) \<and>
      (if ke_filter e = video_filter then drop_bit 16 (ev_data n) = d AND 0xffffffffffff else ev_data n = d))"
proof (intro impI)
  let ?ev = "ee_event (ke_data e)"
  assume "ke_filter e \<in> {ampr_filter, eop_filter, video_filter}"
  then consider (ampr) "ke_filter e = ampr_filter" "ke_data (fire tsc d e) = AmprEventTriggerFunc (ke_data e) d"
    | (eop) "ke_filter e = eop_filter" "ke_data (fire tsc d e) = EopEventTriggerFunc (ke_data e) d"
    | (video) "ke_filter e = video_filter" "ke_data (fire tsc d e) = TriggerVideoOutEvent tsc (ke_data e) d"
    unfolding fire_def by (auto simp: ampr_filter_def eop_filter_def video_filter_def)
  then show "\<exists>n. ke_undelivered (fire tsc d e) = ke_undelivered e @ [n] \<and> ev_key n = ev_key ?ev \<and> ev_udata n = ev_udata ?ev \<and>
      (if ke_filter e = video_filter then drop_bit 16 (ev_data n) = d AND 0xffffffffffff else ev_data n = d)"
  proof cases
    case ampr
    then show ?thesis using EventQueue.ampr.trig_queues [OF assms, of d] by (intro exI [of _ "?ev\<lparr>ev_data := d\<rparr>"]) simp
  next
    case eop
    then show ?thesis using EventQueue.eop.trig_queues [OF assms, of d]
      by (intro exI [of _ "eop_note ?ev d"]) (simp, simp add: eop_note_def)
  next
    case video
    then show ?thesis using EventQueue.video.trig_queues [OF assms, of tsc d]
      by (intro exI [of _ "video_note tsc ?ev d"]) (simp, simp add: video_note_def MakeVideoOutEventData_payload)
  qed
qed

lemma fire_coalesces:
  assumes "ke_ok e"
  shows "ke_filter e = user_filter \<longrightarrow> ke_undelivered (fire tsc d e) = [(ee_event (ke_data e))\<lparr>ev_data := d, ev_udata := d\<rparr>]"
    and "ke_filter e = no_filter \<longrightarrow> ke_undelivered (fire tsc d e) = [ee_event (ke_data e)]"
proof -
  have "ee_pending_events (ke_data e) = []" if "ke_filter e \<in> {no_filter, user_filter}"
    using assms that by (auto simp: ke_ok_def source_ok_def)
  then show "ke_filter e = user_filter \<longrightarrow> ke_undelivered (fire tsc d e) = [(ee_event (ke_data e))\<lparr>ev_data := d, ev_udata := d\<rparr>]"
    and "ke_filter e = no_filter \<longrightarrow> ke_undelivered (fire tsc d e) = [ee_event (ke_data e)]"
    by (auto simp: fire_def user_filter_def no_filter_def UserEventTriggerFunc_def undelivered_def)
qed

lemma update_first_unique:
  assumes "P x" and "\<forall>y\<in>set ys. \<not> P y"
  shows "update_first P f (ys @ x # zs) = ys @ f x # zs"
  using assms(2) by (induction ys) (simp_all add: assms(1))

text \<open>A collection that reports nothing found nothing triggered.\<close>

lemma report_event_nil: "report_event left f e = ([], r) \<Longrightarrow> \<not> ee_triggered e \<and> r = Some e"
  by (cases "ee_triggered e") (auto simp: report_event.simps [of left] split: if_splits prod.splits)

lemma report_events_nil:
  "report_events left es = ([], es') \<Longrightarrow> 1 \<le> left \<Longrightarrow> es' = es \<and> (\<forall>e\<in>set es. \<not> ee_triggered (ke_data e))"
proof (induction es arbitrary: es')
  case (Cons e es)
  obtain o1 r where r: "report_event left (ke_filter e) (ke_data e) = (o1, r)" by (cases "report_event left (ke_filter e) (ke_data e)")
  have "o1 = []" using Cons.prems(1) r by (auto simp: Let_def split: if_splits prod.splits)
  then have e: "\<not> ee_triggered (ke_data e)" "r = Some (ke_data e)" "o1 = []" using report_event_nil r by blast+
  obtain o2 es2 where 2: "report_events left es = (o2, es2)" by (cases "report_events left es")
  have "o2 = []" "es' = e # es2" using Cons.prems r 2 e by simp_all
  then show ?case using Cons.IH [of es2] 2 Cons.prems(2) e by simp
qed simp

text \<open>Adding a timer.\<close>

lemma AddEvent_registers:
  assumes "\<not> q_closed q"
  shows "\<exists>q' e'. AddEvent ev q = (OK, q') \<and> e' \<in> set (q_events q') \<and> ke_id e' = ke_id ev \<and>
    ee_deadline_ns (ke_data e') = ee_deadline_ns (ke_data ev)"
proof (cases "\<exists>e\<in>set (q_events q). event_is (fst (ke_id ev)) (snd (ke_id ev)) e")
  case True
  obtain ys x zs where s: "q_events q = ys @ x # zs" "event_is (fst (ke_id ev)) (snd (ke_id ev)) x"
    "update_first (event_is (fst (ke_id ev)) (snd (ke_id ev))) (readd ev) (q_events q) = ys @ readd ev x # zs"
    using update_first_split [OF True, of "readd ev"] by blast
  have "ke_id (readd ev x) = ke_id ev" "ee_deadline_ns (ke_data (readd ev x)) = ee_deadline_ns (ke_data ev)"
    using s(2) by (simp_all add: event_is_ke_id readd_def Let_def ke_id_def)
  moreover have "AddEvent ev q = (OK, q\<lparr>q_events := ys @ readd ev x # zs\<rparr>)"
    using True assms s(3) by (simp add: AddEvent_def Let_def ke_id_def)
  ultimately show ?thesis by (intro exI [of _ "q\<lparr>q_events := ys @ readd ev x # zs\<rparr>"] exI [of _ "readd ev x"]) simp
next
  case False
  then have "AddEvent ev q = (OK, q\<lparr>q_events := q_events q @ [ev]\<rparr>)"
    using assms unfolding AddEvent_def Let_def by (simp add: ke_id_def)
  then show ?thesis by (intro exI [of _ "q\<lparr>q_events := q_events q @ [ev]\<rparr>"] exI [of _ ev]) simp
qed

lemma KernelAddHRTimerEvent_exact:
  assumes "KernelPinEqueue eq t = Some q" and "\<not> q_closed q" and "now \<le> UINT64_MAX"
  shows "case KernelAddHRTimerEvent now eq n (Some (sec, nsec)) udata t of (ret, t') \<Rightarrow>
    if 0 \<le> sec \<and> 0 \<le> nsec \<and> nsec < 1000000000 \<and> sec * 1000000000 + nsec \<le> int UINT64_MAX
    then ret = OK \<and> (\<exists>q' e'. KernelPinEqueue eq t' = Some q' \<and> e' \<in> set (q_events q') \<and>
      ke_id e' = (ident_of n, KERNEL_EVFILT_HRTIMER) \<and>
      ee_deadline_ns (ke_data e') = min UINT64_MAX (now + nat (sec * 1000000000 + nsec)))
    else ret = KERNEL_ERROR_EINVAL \<and> t' = t"
proof -
  define fits where "fits \<longleftrightarrow> 0 \<le> sec \<and> 0 \<le> nsec \<and> nsec < 1000000000 \<and> sec * 1000000000 + nsec \<le> int UINT64_MAX"
  have div: "nat sec > (UINT64_MAX - nat nsec) div 1000000000 \<longleftrightarrow> sec * 1000000000 + nsec > int UINT64_MAX" if "0 \<le> sec" "0 \<le> nsec" "nsec < 1000000000"
  proof -
    have "nat sec > (UINT64_MAX - nat nsec) div 1000000000 \<longleftrightarrow> \<not> nat sec * 1000000000 \<le> UINT64_MAX - nat nsec"
      by (simp add: less_eq_div_iff_mult_less_eq not_le [symmetric] del: not_le)
    then show ?thesis using that by linarith
  qed
  have guard: "(sec < 0 \<or> nsec < 0 \<or> nsec \<ge> 1000000000 \<or> nat sec > (UINT64_MAX - nat nsec) div 1000000000) \<longleftrightarrow> \<not> fits"
    using div unfolding fits_def by linarith
  show ?thesis
  proof (cases fits)
    case False
    then show ?thesis using guard unfolding KernelAddHRTimerEvent_def fits_def [symmetric] by simp
  next
    case True
    let ?delay = "nat sec * 1000000000 + nat nsec"
    define deadline where "deadline = (if ?delay \<le> UINT64_MAX - now then now + ?delay else UINT64_MAX)"
    have d: "?delay = nat (sec * 1000000000 + nsec)" using True by (simp add: fits_def nat_add_distrib nat_mult_distrib)
    have dl: "deadline = min UINT64_MAX (now + nat (sec * 1000000000 + nsec))" using assms(3) unfolding deadline_def d [symmetric] by (auto simp: min_def)
    have k: "KernelAddHRTimerEvent now eq n (Some (sec, nsec)) udata t = KernelAddEvent eq (hrtimer_event n deadline udata) t"
      using True guard by (simp add: KernelAddHRTimerEvent_def Let_def deadline_def)
    obtain q' e' where a: "AddEvent (hrtimer_event n deadline udata) q = (OK, q')" "e' \<in> set (q_events q')"
      "ke_id e' = ke_id (hrtimer_event n deadline udata)" "ee_deadline_ns (ke_data e') = ee_deadline_ns (ke_data (hrtimer_event n deadline udata))"
      using AddEvent_registers [OF assms(2)] by blast
    have h: "ke_id (hrtimer_event n deadline udata) = (ident_of n, KERNEL_EVFILT_HRTIMER)"
      "ee_deadline_ns (ke_data (hrtimer_event n deadline udata)) = deadline"
      by (simp_all add: hrtimer_event_def registered_def ke_id_def Let_def)
    have "KernelAddEvent eq (hrtimer_event n deadline udata) t = (OK, put_equeue eq q' t)" using a(1) assms(1) by (simp add: KernelAddEvent_def)
    moreover have "KernelPinEqueue eq (put_equeue eq q' t) = Some q'" using assms(1) by (simp add: KernelPinEqueue_def put_equeue_def split: if_splits)
    ultimately show ?thesis using a h True unfolding k dl [symmetric] fits_def [symmetric] by auto
  qed
qed

section \<open>Properties\<close>

text \<open>
  C23: The table of queues, under any interleaving of the calls, also of threads that still hold a queue
  that another one deletes. A handle leads to an open queue of this handle with at most one event for each
  ident and filter; a new queue gets a handle that none ever had; deleting a queue calls the delete
  function of each of its events once, closes it and removes exactly it; and a thread that sleeps on a
  closed queue returns with EBADF at its next turn.
\<close>

theorem equeue_table_safe:
  assumes "equeue_reachable t"
  shows "(\<forall>eq q. KernelPinEqueue eq t = Some q \<longrightarrow> q_handle q = eq \<and> \<not> q_closed q \<and> distinct (map ke_id (q_events q))) \<and>
    (\<forall>name ret eq t'. KernelCreateEqueue False (Some name) t = Some (ret, eq, t') \<longrightarrow>
      ret = OK \<and> (\<exists>h. eq = Some h \<and> equeue_heap t h = None \<and> KernelPinEqueue h t' = Some (new_equeue h name))) \<and>
    (\<forall>eq. case KernelDeleteEqueue eq t of (ret, calls, t') \<Rightarrow>
      (case KernelPinEqueue eq t of
         None \<Rightarrow> ret = KERNEL_ERROR_EBADF \<and> calls = [] \<and> t' = t
       | Some q \<Rightarrow> ret = OK \<and> KernelPinEqueue eq t' = None \<and> (\<forall>h. h \<noteq> eq \<longrightarrow> KernelPinEqueue h t' = KernelPinEqueue h t) \<and>
           calls = delete_calls eq (q_events q) \<and> equeue_heap t' eq = Some (q\<lparr>q_closed := True, q_events := []\<rparr>))) \<and>
    (\<forall>eq q now1 now2 num micros elapsed. equeue_heap t eq = Some q \<and> q_closed q \<and> 1 \<le> num \<longrightarrow>
      WaitForEvents_turn now1 now2 num micros elapsed q = Some (EqReturned KERNEL_ERROR_EBADF [], q))"
proof -
  have ok: "equeue_table_ok t" by (rule equeue_reachable_ok [OF assms])
  note sel = ok [unfolded equeue_table_ok_def]
  have 1: "\<forall>eq q. KernelPinEqueue eq t = Some q \<longrightarrow> q_handle q = eq \<and> \<not> q_closed q \<and> distinct (map ke_id (q_events q))"
  proof (intro allI impI)
    fix eq q assume "KernelPinEqueue eq t = Some q"
    then have "equeue_heap t eq = Some q" "eq \<in> g_equeues t" using KernelPinEqueue_heap by blast+
    then show "q_handle q = eq \<and> \<not> q_closed q \<and> distinct (map ke_id (q_events q))" using sel unfolding equeue_ok_def events_ok_def by blast
  qed
  have 2: "\<forall>name ret eq t'. KernelCreateEqueue False (Some name) t = Some (ret, eq, t') \<longrightarrow>
      ret = OK \<and> (\<exists>h. eq = Some h \<and> equeue_heap t h = None \<and> KernelPinEqueue h t' = Some (new_equeue h name))"
  proof (intro allI impI)
    fix name ret eq t' assume c: "KernelCreateEqueue False (Some name) t = Some (ret, eq, t')"
    have "equeue_heap t (int (g_next_equeue t)) = None" using sel by (metis less_irrefl not_Some_eq)
    moreover have "int (g_next_equeue t) \<noteq> 0" using sel by linarith
    ultimately show "ret = OK \<and> (\<exists>h. eq = Some h \<and> equeue_heap t h = None \<and> KernelPinEqueue h t' = Some (new_equeue h name))"
      using c by (auto simp: KernelCreateEqueue_def KernelPinEqueue_def put_equeue_def Let_def split: if_splits)
  qed
  have 3: "case KernelDeleteEqueue eq t of (ret, calls, t') \<Rightarrow>
      (case KernelPinEqueue eq t of
         None \<Rightarrow> ret = KERNEL_ERROR_EBADF \<and> calls = [] \<and> t' = t
       | Some q \<Rightarrow> ret = OK \<and> KernelPinEqueue eq t' = None \<and> (\<forall>h. h \<noteq> eq \<longrightarrow> KernelPinEqueue h t' = KernelPinEqueue h t) \<and>
           calls = delete_calls eq (q_events q) \<and> equeue_heap t' eq = Some (q\<lparr>q_closed := True, q_events := []\<rparr>))" for eq
  proof (cases "eq \<in> g_equeues t")
    case True
    then obtain q where q: "equeue_heap t eq = Some q" "q_handle q = eq" "\<not> q_closed q" "eq \<noteq> 0" using sel by (metis less_irrefl not_Some_eq)
    then show ?thesis using True by (simp add: KernelDeleteEqueue_def KernelPinEqueue_def Close_def put_equeue_def)
  qed (simp add: KernelDeleteEqueue_def KernelPinEqueue_def)
  have 4: "WaitForEvents_turn now1 now2 num micros elapsed q = Some (EqReturned KERNEL_ERROR_EBADF [], q)"
    if "q_closed q" "1 \<le> num" for q now1 now2 num micros elapsed
    using that by (simp add: WaitForEvents_turn_def WaitForEvents_head_def GetTriggeredEvents_def KERNEL_ERROR_EBADF_def)
  show ?thesis using 1 2 3 4 by blast
qed

lemma equeue_table_safe_witness:
  "\<exists>t. equeue_reachable t \<and> KernelPinEqueue 1 t = Some (new_equeue 1 ''q'') \<and> fst (KernelDeleteEqueue 1 t) = OK"
proof -
  let ?t = "(put_equeue 1 (new_equeue 1 ''q'') new_equeue_table)\<lparr>g_equeues := {1}, g_next_equeue := 2\<rparr>"
  have "KernelCreateEqueue False (Some ''q'') new_equeue_table = Some (OK, Some 1, ?t)"
    by (simp add: KernelCreateEqueue_def new_equeue_table_def put_equeue_def)
  then have r: "equeue_reachable ?t" by (rule equeue_create [OF equeue_new])
  have p: "KernelPinEqueue 1 ?t = Some (new_equeue 1 ''q'')" by (simp add: KernelPinEqueue_def put_equeue_def)
  have "fst (KernelDeleteEqueue 1 ?t) = OK"
    using equeue_table_safe [OF r, THEN conjunct2, THEN conjunct2, THEN conjunct1, THEN spec [of _ 1]] unfolding p option.case
    by (cases "KernelDeleteEqueue 1 ?t") simp
  then show ?thesis using r p by blast
qed

text \<open>
  C4: Exact delivery. Whatever was done to an open queue before, a collection of at most \<open>num\<close> events hands
  over, in the order of the events, the first \<open>num\<close> of the notifications that wait once the expired timers
  are triggered, where a triggered user event without \<open>EV_CLEAR\<close> counts as an endless supply of copies of its
  one notification: it fills the rest of the buffer, and nothing behind it is reached. If there is no such
  event, each notification is handed over once and exactly the others are kept. If there is one, it and all
  that is behind it stay as they are, and of what is before it exactly the notifications that did not fit
  are kept. Triggering an event acts on that event alone. An AMPR, end-of-pipe or video-out event gets exactly
  one more notification, last, with the trigger's data (video-out: its low 48 bits); the triggers of a user
  event are merged: only one notification waits, with the data of the last; and so are those of a timer,
  whose notification carries no data of the trigger.
\<close>

theorem equeue_delivery_exact:
  fixes now :: nat
  assumes "equeue_reachable t" and "equeue_heap t eq = Some q" and "\<not> q_closed q" and "1 \<le> num"
  defines "es \<equiv> TriggerExpiredTimers now (q_events q)"
  shows "(\<exists>out q'. GetTriggeredEvents now num q = Some (int (length out), out, q') \<and>
      out = take (nat num) (notifications (nat num) es) \<and>
      ((\<forall>e\<in>set es. \<not> stuck e) \<longrightarrow> out = take (nat num) (concat (map ke_undelivered es)) \<and>
        concat (map ke_undelivered (q_events q')) = drop (nat num) (concat (map ke_undelivered es))) \<and>
      (\<forall>es1 e es2. es = es1 @ e # es2 \<and> stuck e \<and> (\<forall>x\<in>set es1. \<not> stuck x) \<longrightarrow>
        out = take (nat num) (concat (map ke_undelivered es1) @ replicate (nat num) (ee_event (ke_data e))) \<and>
        (\<exists>es1'. q_events q' = es1' @ e # es2 \<and>
          concat (map ke_undelivered es1') = drop (nat num) (concat (map ke_undelivered es1))))) \<and>
    (\<forall>tsc d es1 e es2. q_events q = es1 @ e # es2 \<longrightarrow>
      TriggerEvent tsc (fst (ke_id e)) (snd (ke_id e)) d q = (OK, q\<lparr>q_events := es1 @ fire tsc d e # es2\<rparr>) \<and>
      ke_filter e \<in> {no_filter, user_filter, ampr_filter, eop_filter, video_filter} \<and>
      (ke_filter e \<in> {ampr_filter, eop_filter, video_filter} \<longrightarrow>
        (\<exists>n. ke_undelivered (fire tsc d e) = ke_undelivered e @ [n] \<and> ev_key n = ev_key (ee_event (ke_data e)) \<and>
          ev_udata n = ev_udata (ee_event (ke_data e)) \<and>
          (if ke_filter e = video_filter then drop_bit 16 (ev_data n) = d AND 0xffffffffffff else ev_data n = d))) \<and>
      (ke_filter e = user_filter \<longrightarrow> ke_undelivered (fire tsc d e) = [(ee_event (ke_data e))\<lparr>ev_data := d, ev_udata := d\<rparr>]) \<and>
      (ke_filter e = no_filter \<longrightarrow> ke_undelivered (fire tsc d e) = [ee_event (ke_data e)]))"
proof -
  have "equeue_ok q" using equeue_reachable_ok [OF assms(1)] assms(2) by (simp add: equeue_table_ok_def)
  then have qs: "\<forall>e\<in>set (q_events q). ke_ok e" "distinct (map ke_id (q_events q))" and "events_ok es"
    using expired_events_ok unfolding equeue_ok_def events_ok_def es_def by blast+
  then have es: "\<forall>e\<in>set es. ke_ok e" by (simp add: events_ok_def)
  have n: "1 \<le> nat num" using assms(4) by simp
  obtain out es' where r: "report_events (nat num) es = (out, es')" by fastforce
  define q' where "q' = q\<lparr>q_events := es'\<rparr>"
  have g: "GetTriggeredEvents now num q = Some (int (length out), out, q')"
    using assms(3,4) r by (simp add: GetTriggeredEvents_def es_def [symmetric] q'_def)
  have ev: "q_events q' = es'" by (simp add: q'_def)
  have "out = take (nat num) (notifications (nat num) es)" by (rule report_events_exact [OF es n r])
  moreover have "(\<forall>e\<in>set es. \<not> stuck e) \<longrightarrow> out = take (nat num) (concat (map ke_undelivered es)) \<and>
        concat (map ke_undelivered es') = drop (nat num) (concat (map ke_undelivered es))"
    using report_events_ok [OF _ n r] es by blast
  moreover have "\<forall>es1 e es2. es = es1 @ e # es2 \<and> stuck e \<and> (\<forall>x\<in>set es1. \<not> stuck x) \<longrightarrow>
        out = take (nat num) (concat (map ke_undelivered es1) @ replicate (nat num) (ee_event (ke_data e))) \<and>
        (\<exists>es1'. es' = es1' @ e # es2 \<and> concat (map ke_undelivered es1') = drop (nat num) (concat (map ke_undelivered es1)))"
  proof (intro allI impI)
    fix es1 e es2 assume a: "es = es1 @ e # es2 \<and> stuck e \<and> (\<forall>x\<in>set es1. \<not> stuck x)"
    show "out = take (nat num) (concat (map ke_undelivered es1) @ replicate (nat num) (ee_event (ke_data e))) \<and>
        (\<exists>es1'. es' = es1' @ e # es2 \<and> concat (map ke_undelivered es1') = drop (nat num) (concat (map ke_undelivered es1)))"
      using report_events_level [of es1 e es2 "nat num" out es'] a es n r by blast
  qed
  ultimately have collect: "\<exists>out q'. GetTriggeredEvents now num q = Some (int (length out), out, q') \<and>
      out = take (nat num) (notifications (nat num) es) \<and>
      ((\<forall>e\<in>set es. \<not> stuck e) \<longrightarrow> out = take (nat num) (concat (map ke_undelivered es)) \<and>
        concat (map ke_undelivered (q_events q')) = drop (nat num) (concat (map ke_undelivered es))) \<and>
      (\<forall>es1 e es2. es = es1 @ e # es2 \<and> stuck e \<and> (\<forall>x\<in>set es1. \<not> stuck x) \<longrightarrow>
        out = take (nat num) (concat (map ke_undelivered es1) @ replicate (nat num) (ee_event (ke_data e))) \<and>
        (\<exists>es1'. q_events q' = es1' @ e # es2 \<and>
          concat (map ke_undelivered es1') = drop (nat num) (concat (map ke_undelivered es1))))"
    using g unfolding ev [symmetric] by blast
  have trigger: "TriggerEvent tsc (fst (ke_id e)) (snd (ke_id e)) d q = (OK, q\<lparr>q_events := es1 @ fire tsc d e # es2\<rparr>)" and e: "ke_ok e"
    if "q_events q = es1 @ e # es2" for tsc d es1 e es2
  proof -
    show "ke_ok e" using qs(1) that by simp
    have "\<forall>y\<in>set es1. ke_id y \<noteq> ke_id e" using qs(2) unfolding that by (auto simp: image_iff)
    then have "update_first (event_is (fst (ke_id e)) (snd (ke_id e))) (fire tsc d) (q_events q) = es1 @ fire tsc d e # es2"
      unfolding that by (intro update_first_unique) (simp_all add: event_is_ke_id)
    moreover have "\<exists>x\<in>set (q_events q). event_is (fst (ke_id e)) (snd (ke_id e)) x" unfolding that by (auto simp: event_is_ke_id)
    ultimately show "TriggerEvent tsc (fst (ke_id e)) (snd (ke_id e)) d q = (OK, q\<lparr>q_events := es1 @ fire tsc d e # es2\<rparr>)"
      using assms(3) that by (simp add: TriggerEvent_def event_is_ke_id)
  qed
  have kinds: "ke_filter e \<in> {no_filter, user_filter, ampr_filter, eop_filter, video_filter}" if "ke_ok e" for e
    using that unfolding ke_ok_def source_ok_def by blast
  have notifies: "data_ok (ke_data e)" if "ke_ok e" for e using that by (simp add: ke_ok_def)
  show ?thesis
    by (intro conjI allI impI collect)
      (use trigger e kinds notifies fire_notifies fire_coalesces in blast)+
qed

lemma equeue_delivery_exact_witness:
  "\<exists>t q q'. equeue_reachable t \<and> equeue_heap t 1 = Some q \<and>
     GetTriggeredEvents 0 5 q = Some (2, [(ee_event (ke_data (ampr_event 3 9)))\<lparr>ev_data := 7\<rparr>, (ee_event (ke_data (ampr_event 3 9)))\<lparr>ev_data := 8\<rparr>], q')"
proof -
  let ?t0 = "snd (snd (the (KernelCreateEqueue False (Some ''q'') new_equeue_table)))"
  have "KernelCreateEqueue False (Some ''q'') new_equeue_table = Some (OK, Some 1, ?t0)"
    by (simp add: KernelCreateEqueue_def new_equeue_table_def put_equeue_def)
  then have r0: "equeue_reachable ?t0" by (rule equeue_create [OF equeue_new])
  have h0: "equeue_heap ?t0 1 = Some (new_equeue 1 ''q'')" by (simp add: KernelCreateEqueue_def new_equeue_table_def put_equeue_def)
  let ?e = "ampr_event 3 9"
  let ?q1 = "(new_equeue 1 ''q'')\<lparr>q_events := [?e]\<rparr>"
  let ?q = "?q1\<lparr>q_events := [fire 0 8 (fire 0 7 ?e)]\<rparr>"
  have "AddEvent ?e (new_equeue 1 ''q'') = (OK, ?q1)" by (simp add: AddEvent_def new_equeue_def)
  moreover have src: "?e \<in> source_events" unfolding source_events_def by blast
  ultimately have r1: "equeue_reachable (put_equeue 1 ?q1 ?t0)"
    using equeue_add [OF r0 h0 src] by simp
  have tr: "TriggerEvent 0 (ident_of 3) KERNEL_EVFILT_USER 7 ?q1 = (OK, ?q1\<lparr>q_events := [fire 0 7 ?e]\<rparr>)"
    "TriggerEvent 0 (ident_of 3) KERNEL_EVFILT_USER 8 (?q1\<lparr>q_events := [fire 0 7 ?e]\<rparr>) = (OK, ?q)"
    by (simp_all add: TriggerEvent_def new_equeue_def event_is_def fire_def ampr_event_def registered_def ampr_filter_def
        AmprEventTriggerFunc_def queue_or_set_def)
  have "equeue_reachable (put_equeue 1 (?q1\<lparr>q_events := [fire 0 7 ?e]\<rparr>) (put_equeue 1 ?q1 ?t0))"
    using equeue_trigger [OF r1, of 1 ?q1 0 "ident_of 3" KERNEL_EVFILT_USER 7] unfolding tr by (simp add: put_equeue_def)
  from equeue_trigger [OF this, of 1 "?q1\<lparr>q_events := [fire 0 7 ?e]\<rparr>" 0 "ident_of 3" KERNEL_EVFILT_USER 8]
  obtain t where t: "equeue_reachable t" "equeue_heap t 1 = Some ?q" unfolding tr by (simp add: put_equeue_def)
  have x: "TriggerExpiredTimers 0 (q_events ?q) = [fire 0 8 (fire 0 7 ?e)]"
    by (simp add: TriggerExpiredTimers_def fire_def ampr_event_def registered_def ampr_filter_def AmprEventTriggerFunc_def queue_or_set_def)
  have u: "ke_undelivered (fire 0 8 (fire 0 7 ?e)) = [(ee_event (ke_data ?e))\<lparr>ev_data := 7\<rparr>, (ee_event (ke_data ?e))\<lparr>ev_data := 8\<rparr>]"
    by (simp add: fire_def ampr_event_def registered_def ampr_filter_def AmprEventTriggerFunc_def queue_or_set_def undelivered_def)
  have s: "\<not> stuck (fire 0 8 (fire 0 7 ?e))"
    by (simp add: stuck_def level_def fire_def ampr_event_def registered_def)
  have "\<not> q_closed ?q" "(1 :: int) \<le> 5" by (simp_all add: new_equeue_def)
  from equeue_delivery_exact [OF t this, of 0, THEN conjunct1] obtain out q' where o: "GetTriggeredEvents 0 5 ?q = Some (int (length out), out, q')"
    "out = take (nat 5) (ke_undelivered (fire 0 8 (fire 0 7 ?e)))" unfolding x using s by auto
  show ?thesis using t o(1) unfolding o(2) u by (intro exI [of _ t] exI [of _ ?q] exI [of _ q']) simp
qed

text \<open>
  C24: Timers. Adding a timer accepts exactly the times that fit 64 bits of nanoseconds and sets the
  deadline to now plus the time, saturated. For a timer that has not fired and whose deadline is not the
  saturated one, a waiting thread, at the call and at every turn, returns with an event once the deadline
  is reached; it sleeps only before it, and then no longer than the time to the deadline, rounded up, plus
  a microsecond; and it returns without an event only when its own time is up and the deadline is not.
\<close>

theorem equeue_timer_exact:
  assumes "equeue_reachable t" and "KernelPinEqueue eq t = Some q" and "e \<in> set (q_events q)" and "\<not> ee_triggered (ke_data e)"
    and "ee_deadline_ns (ke_data e) = dl" and "0 < dl" and "dl < UINT64_MAX" and "dl - now2 < UINT64_MAX - 999"
    and "WaitForEvents_head now1 now2 num micros elapsed q = Some (outcome, q')"
  shows "(case outcome of
      EqReturned ret out \<Rightarrow> ret = int (length out) \<and> (dl \<le> now1 \<longrightarrow> out \<noteq> []) \<and> (out = [] \<longrightarrow> micros \<noteq> 0 \<and> micros \<le> elapsed)
    | EqSleeping w \<Rightarrow> now1 < dl \<and> (\<exists>w'. w = Some w' \<and> w' \<le> (dl - now2 + 999) div 1000 + 1)) \<and>
    (\<forall>now n sec nsec udata. now \<le> UINT64_MAX \<longrightarrow>
      (case KernelAddHRTimerEvent now eq n (Some (sec, nsec)) udata t of (ret, t') \<Rightarrow>
        if 0 \<le> sec \<and> 0 \<le> nsec \<and> nsec < 1000000000 \<and> sec * 1000000000 + nsec \<le> int UINT64_MAX
        then ret = OK \<and> (\<exists>q' e'. KernelPinEqueue eq t' = Some q' \<and> e' \<in> set (q_events q') \<and>
          ke_id e' = (ident_of n, KERNEL_EVFILT_HRTIMER) \<and>
          ee_deadline_ns (ke_data e') = min UINT64_MAX (now + nat (sec * 1000000000 + nsec)))
        else ret = KERNEL_ERROR_EINVAL \<and> t' = t))"
proof -
  have open_q: "\<not> q_closed q" using equeue_reachable_ok [OF assms(1)] KernelPinEqueue_heap [OF assms(2)] by (auto simp: equeue_table_ok_def)
  have n: "1 \<le> num" using assms(9) by (auto simp: WaitForEvents_head_def GetTriggeredEvents_def split: if_splits)
  let ?es = "TriggerExpiredTimers now1 (q_events q)"
  obtain out es' where r: "report_events (nat num) ?es = (out, es')" by fastforce
  have g: "GetTriggeredEvents now1 num q = Some (int (length out), out, q\<lparr>q_events := es'\<rparr>)"
    using open_q n r by (simp add: GetTriggeredEvents_def)
  have wait: "case outcome of
      EqReturned ret out \<Rightarrow> ret = int (length out) \<and> (dl \<le> now1 \<longrightarrow> out \<noteq> []) \<and> (out = [] \<longrightarrow> micros \<noteq> 0 \<and> micros \<le> elapsed)
    | EqSleeping w \<Rightarrow> now1 < dl \<and> (\<exists>w'. w = Some w' \<and> w' \<le> (dl - now2 + 999) div 1000 + 1)"
  proof (cases "out = []")
    case False
    then have "outcome = EqReturned (int (length out)) out" using assms(9) g by (auto simp: WaitForEvents_head_def)
    then show ?thesis using False by simp
  next
    case True
    have es': "es' = ?es" "\<forall>x\<in>set ?es. \<not> ee_triggered (ke_data x)" using report_events_nil [of "nat num" ?es es'] r True n by simp_all
    have "expire now1 e \<in> set ?es" using assms(3) by (simp add: TriggerExpiredTimers_map)
    then have x: "now1 < dl" "expire now1 e = e"
      using es'(2) assms(4-6) by (auto simp: expire_def split: if_splits)
    have "e \<in> set ?es" using \<open>expire now1 e \<in> set ?es\<close> x by simp
    then have "dl \<in> set (timer_deadlines (q\<lparr>q_events := es'\<rparr>))" using assms(4-6) unfolding timer_deadlines_def by (auto simp: es' image_iff)
    then obtain w where w: "GetNextTimerWaitMicros now2 (q\<lparr>q_events := es'\<rparr>) = Some w" "w \<le> (dl - now2 + 999) div 1000 + 1"
      using GetNextTimerWaitMicros_spec [of dl _ now2] assms(7,8) by fastforce
    show ?thesis
    proof (cases "elapsed \<ge> micros \<and> micros \<noteq> 0")
      case True
      then have "outcome = EqReturned 0 []" using assms(9) g \<open>out = []\<close> by (simp add: WaitForEvents_head_def)
      then show ?thesis using x True by simp
    next
      case False
      then have "\<exists>w'. outcome = EqSleeping (Some w') \<and> w' \<le> w" using assms(9) g w(1) \<open>out = []\<close> by (auto simp: WaitForEvents_head_def)
      then show ?thesis using x w(2) by auto
    qed
  qed
  show ?thesis by (intro conjI allI impI) (rule wait, rule KernelAddHRTimerEvent_exact [OF assms(2) open_q], assumption)
qed

lemma equeue_timer_exact_witness:
  "\<exists>t q q'. equeue_reachable t \<and> KernelPinEqueue 1 t = Some q \<and>
     WaitForEvents_head 0 0 4 0 0 q = Some (EqSleeping (Some 3), q') \<and> 3 \<le> (2500 - 0 + 999) div (1000 :: nat) + 1 \<and> (0 :: nat) < 2500"
proof -
  let ?t0 = "snd (snd (the (KernelCreateEqueue False (Some ''q'') new_equeue_table)))"
  have "KernelCreateEqueue False (Some ''q'') new_equeue_table = Some (OK, Some 1, ?t0)"
    by (simp add: KernelCreateEqueue_def new_equeue_table_def put_equeue_def)
  then have r0: "equeue_reachable ?t0" by (rule equeue_create [OF equeue_new])
  have h0: "KernelPinEqueue 1 ?t0 = Some (new_equeue 1 ''q'')"
    by (simp add: KernelCreateEqueue_def new_equeue_table_def put_equeue_def KernelPinEqueue_def)
  let ?e = "hrtimer_event 5 2500 0"
  let ?q = "(new_equeue 1 ''q'')\<lparr>q_events := [?e]\<rparr>"
  have src: "?e \<in> source_events" unfolding source_events_def by blast
  let ?t = "snd (KernelAddEvent 1 ?e ?t0)"
  have r: "equeue_reachable ?t" by (rule KernelAddEvent_reachable [OF r0 src])
  have "AddEvent ?e (new_equeue 1 ''q'') = (OK, ?q)" by (simp add: AddEvent_def new_equeue_def)
  then have p: "KernelPinEqueue 1 ?t = Some ?q"
    unfolding KernelAddEvent_def h0 by (simp add: KernelPinEqueue_def put_equeue_def KernelCreateEqueue_def new_equeue_table_def)
  have e: "?e \<in> set (q_events ?q)" "\<not> ee_triggered (ke_data ?e)" "ee_deadline_ns (ke_data ?e) = 2500"
    by (simp_all add: hrtimer_event_def registered_def Let_def)
  have w: "WaitForEvents_head 0 0 4 0 0 ?q = Some (EqSleeping (Some 3), ?q)"
    by (simp add: WaitForEvents_head_def GetTriggeredEvents_def new_equeue_def TriggerExpiredTimers_def hrtimer_event_def registered_def
        Let_def report_event.simps GetNextTimerWaitMicros_def add64_def)
  have "case EqSleeping (Some 3) of
      EqReturned ret out \<Rightarrow> ret = int (length out) \<and> (2500 \<le> (0 :: nat) \<longrightarrow> out \<noteq> []) \<and> (out = [] \<longrightarrow> (0 :: nat) \<noteq> 0 \<and> (0 :: nat) \<le> 0)
    | EqSleeping w \<Rightarrow> (0 :: nat) < 2500 \<and> (\<exists>w'. w = Some w' \<and> w' \<le> (2500 - 0 + 999) div 1000 + 1)"
    by (rule equeue_timer_exact [OF r p e _ _ _ w, THEN conjunct1]) simp_all
  then have "3 \<le> (2500 - 0 + 999) div (1000 :: nat) + 1 \<and> (0 :: nat) < 2500" by simp
  then show ?thesis using r p w by blast
qed

end
