(* ===== verification/PthreadMutex.thy ===== *)
theory PthreadMutex
  imports KernelErrors
begin

text \<open>
  The mutexes of the guest's threads (src/src/kernel/pthread.cpp): reentrant or not, with time-outs, built
  on a host mutex \<open>m\<close> that every operation holds except while it sleeps on the host condition variable.

  A thread is the address of its \<open>PthreadPrivate\<close>, 0 for none (\<open>nullptr\<close>). Locking is a step up to the first
  sleep and one for every turn after a wake-up (by \<open>notify_one\<close>, by the poll period or spuriously); time is
  an argument, in the unit of the time-out. The result None is \<open>EXIT\<close>. The signals that a thread handles
  between two turns, while it holds nothing, are not modelled.

  Errors of the inner functions are host errno values, which are only compared.
\<close>

datatype host_errno = E_OK | E_AGAIN | E_BUSY | E_DEADLK | E_TIMEDOUT | E_PERM | E_INVAL | E_NOMEM

datatype host_protocol = PTHREAD_PRIO_NONE | PTHREAD_PRIO_INHERIT | PTHREAD_PRIO_PROTECT

definition KERNEL_PTHREAD_MUTEX_ERRORCHECK :: int where "KERNEL_PTHREAD_MUTEX_ERRORCHECK = 1"
definition KERNEL_PTHREAD_MUTEX_RECURSIVE :: int where "KERNEL_PTHREAD_MUTEX_RECURSIVE = 2"
definition KERNEL_PTHREAD_MUTEX_NORMAL :: int where "KERNEL_PTHREAD_MUTEX_NORMAL = 3"
definition KERNEL_PTHREAD_MUTEX_ADAPTIVE :: int where "KERNEL_PTHREAD_MUTEX_ADAPTIVE = 4"

lemmas mutex_type_defs = KERNEL_PTHREAD_MUTEX_ERRORCHECK_def KERNEL_PTHREAD_MUTEX_RECURSIVE_def
  KERNEL_PTHREAD_MUTEX_NORMAL_def KERNEL_PTHREAD_MUTEX_ADAPTIVE_def

record PthreadMutexPrivate =
  mx_name :: string
  mx_owner :: nat
  mx_count :: nat
  mx_type :: int
  mx_pprotocol :: host_protocol

record PthreadMutexattrPrivate =
  ma_pprotocol :: host_protocol
  ma_type :: int

section \<open>The operations on the mutex\<close>

datatype lock_outcome = LockReturned host_errno | LockWaiting

text \<open>The loop of \<open>NativeMutexLock\<close> at its head, and what follows it.\<close>

definition NativeMutexLock_turn :: "nat \<Rightarrow> nat option \<Rightarrow> nat \<Rightarrow> PthreadMutexPrivate \<Rightarrow> lock_outcome \<times> PthreadMutexPrivate" where
  "NativeMutexLock_turn self timeout_us elapsed m =
     (if mx_owner m \<noteq> 0
      then (if (case timeout_us of None \<Rightarrow> False | Some us \<Rightarrow> elapsed \<ge> us) then (LockReturned E_TIMEDOUT, m) else (LockWaiting, m))
      else (LockReturned E_OK, m\<lparr>mx_owner := self, mx_count := 1\<rparr>))"

text \<open>
  The call. A thread that already owns a mutex that is not recursive and gives a time-out sleeps for that
  time first; whatever happens meanwhile, it then returns ETIMEDOUT.
\<close>

definition NativeMutexLock_begin :: "nat \<Rightarrow> nat option \<Rightarrow> nat \<Rightarrow> PthreadMutexPrivate \<Rightarrow> (lock_outcome \<times> PthreadMutexPrivate) option" where
  "NativeMutexLock_begin self timeout_us elapsed m =
     (if self = 0 then None
      else if mx_owner m = self then
        (if mx_type m = 2 then
           (if mx_count m = UINT32_MAX then Some (LockReturned E_AGAIN, m)
            else Some (LockReturned E_OK, m\<lparr>mx_count := mx_count m + 1\<rparr>))
         else if timeout_us \<noteq> None then Some (LockReturned E_TIMEDOUT, m)
         else Some (LockReturned E_DEADLK, m))
      else Some (NativeMutexLock_turn self timeout_us elapsed m))"

definition NativeMutexTrylock :: "nat \<Rightarrow> PthreadMutexPrivate \<Rightarrow> (host_errno \<times> PthreadMutexPrivate) option" where
  "NativeMutexTrylock self m =
     (if self = 0 then None
      else if mx_owner m = self then
        (if mx_type m = 2 then
           (if mx_count m = UINT32_MAX then Some (E_AGAIN, m) else Some (E_OK, m\<lparr>mx_count := mx_count m + 1\<rparr>))
         else Some (E_BUSY, m))
      else if mx_owner m \<noteq> 0 then Some (E_BUSY, m)
      else Some (E_OK, m\<lparr>mx_owner := self, mx_count := 1\<rparr>))"

text \<open>
  With \<open>recurse\<close> (not null) the whole depth is released; the second component is what is stored through it,
  0 for nothing.
\<close>

definition NativeMutexUnlock :: "nat \<Rightarrow> bool \<Rightarrow> PthreadMutexPrivate \<Rightarrow> (host_errno \<times> nat \<times> PthreadMutexPrivate) option" where
  "NativeMutexUnlock self recurse m =
     (if self = 0 then None
      else if mx_owner m \<noteq> self then Some (E_PERM, 0, m)
      else
        (let stored = (if recurse then mx_count m else 0);
             m = (if recurse then m\<lparr>mx_count := 1\<rparr> else m) in
         if mx_type m = 2 \<and> mx_count m > 1 then Some (E_OK, stored, m\<lparr>mx_count := mx_count m - 1\<rparr>)
         else Some (E_OK, stored, m\<lparr>mx_owner := 0, mx_count := 0\<rparr>)))"

text \<open>
  Taking the mutex back with its depth. The count is set in a critical section of its own, in which the
  thread is already the owner: nobody else writes in between.
\<close>

definition set_recurse :: "nat \<Rightarrow> lock_outcome \<times> PthreadMutexPrivate \<Rightarrow> lock_outcome \<times> PthreadMutexPrivate" where
  "set_recurse recurse r = (case r of (outcome, m) \<Rightarrow>
     (outcome, if outcome = LockReturned E_OK then m\<lparr>mx_count := max recurse 1\<rparr> else m))"

definition NativeMutexLockRecurse_begin :: "nat \<Rightarrow> nat \<Rightarrow> PthreadMutexPrivate \<Rightarrow> (lock_outcome \<times> PthreadMutexPrivate) option" where
  "NativeMutexLockRecurse_begin self recurse m = map_option (set_recurse recurse) (NativeMutexLock_begin self None 0 m)"

definition NativeMutexLockRecurse_turn :: "nat \<Rightarrow> nat \<Rightarrow> PthreadMutexPrivate \<Rightarrow> lock_outcome \<times> PthreadMutexPrivate" where
  "NativeMutexLockRecurse_turn self recurse m = set_recurse recurse (NativeMutexLock_turn self None 0 m)"

section \<open>Attributes\<close>

text \<open>
  An attribute object, None when the pointer or the pointer it points to is null (\<open>EXIT\<close>). What the host's
  functions on its own attribute object return is an argument.
\<close>

definition PthreadMutexattrSettype ::
  "(int \<Rightarrow> host_errno) \<Rightarrow> PthreadMutexattrPrivate option \<Rightarrow> int \<Rightarrow> (int \<times> PthreadMutexattrPrivate option) option" where
  "PthreadMutexattrSettype host_settype attr type =
     (case attr of None \<Rightarrow> None
      | Some a \<Rightarrow>
          if type \<notin> {KERNEL_PTHREAD_MUTEX_ERRORCHECK, KERNEL_PTHREAD_MUTEX_RECURSIVE, KERNEL_PTHREAD_MUTEX_NORMAL, KERNEL_PTHREAD_MUTEX_ADAPTIVE}
          then Some (KERNEL_ERROR_EINVAL, attr)
          else if host_settype type = E_OK then Some (OK, Some (a\<lparr>ma_type := type\<rparr>))
          else Some (KERNEL_ERROR_EINVAL, attr))"

definition PthreadMutexattrSetprotocol :: "PthreadMutexattrPrivate option \<Rightarrow> int \<Rightarrow> (int \<times> PthreadMutexattrPrivate option) option" where
  "PthreadMutexattrSetprotocol attr protocol =
     (case attr of None \<Rightarrow> None
      | Some a \<Rightarrow>
          if protocol = 0 then Some (OK, Some (a\<lparr>ma_pprotocol := PTHREAD_PRIO_NONE\<rparr>))
          else if protocol = 1 then Some (OK, Some (a\<lparr>ma_pprotocol := PTHREAD_PRIO_INHERIT\<rparr>))
          else if protocol = 2 then Some (OK, Some (a\<lparr>ma_pprotocol := PTHREAD_PRIO_PROTECT\<rparr>))
          else None)"

definition new_mutexattr :: PthreadMutexattrPrivate where
  "new_mutexattr = \<lparr>ma_pprotocol = PTHREAD_PRIO_NONE, ma_type = 0\<rparr>"

definition PthreadMutexattrInit ::
  "host_errno \<Rightarrow> (int \<Rightarrow> host_errno) \<Rightarrow> bool \<Rightarrow> (int \<times> PthreadMutexattrPrivate option) option" where
  "PthreadMutexattrInit host_init host_settype attr_null =
     (if attr_null then None
      else if host_init = E_NOMEM then Some (KERNEL_ERROR_ENOMEM, Some new_mutexattr)
      else if host_init \<noteq> E_OK then Some (KERNEL_ERROR_EINVAL, Some new_mutexattr)
      else do {
        (result, attr) \<leftarrow> PthreadMutexattrSettype host_settype (Some new_mutexattr) 1;
        if result = OK then PthreadMutexattrSetprotocol attr 0
        else Some (KERNEL_ERROR_EINVAL, attr) })"

definition PthreadMutexattrDestroy :: "host_errno \<Rightarrow> PthreadMutexattrPrivate option \<Rightarrow> (int \<times> PthreadMutexattrPrivate option) option" where
  "PthreadMutexattrDestroy host_destroy attr =
     (case attr of None \<Rightarrow> None
      | Some a \<Rightarrow> Some (if host_destroy = E_OK then OK else if host_destroy = E_NOMEM then KERNEL_ERROR_ENOMEM else KERNEL_ERROR_EINVAL, None))"

section \<open>The calls\<close>

text \<open>
  A guest variable of type \<open>PthreadMutex\<close> (or \<open>PthreadCond\<close>, \<open>PthreadRwlock\<close>): null and, for a mutex, 1 are
  static initialisers, anything else points to the object. \<open>CreateObject\<close> makes the object of a static one
  at its first use; \<open>build\<close> is given the static type. The list of objects to delete with their module is
  not modelled.
\<close>

datatype 'a slot = SlotNull | SlotOne | SlotAt 'a

definition CreateObject :: "bool \<Rightarrow> (int \<Rightarrow> 'a) \<Rightarrow> 'a slot \<Rightarrow> 'a slot" where
  "CreateObject is_mutex build s =
     (case s of SlotNull \<Rightarrow> SlotAt (build 0) | SlotOne \<Rightarrow> if is_mutex then SlotAt (build 4) else SlotOne | SlotAt x \<Rightarrow> SlotAt x)"

definition new_mutex :: "string \<Rightarrow> PthreadMutexattrPrivate \<Rightarrow> PthreadMutexPrivate" where
  "new_mutex name attr = \<lparr>mx_name = name, mx_owner = 0, mx_count = 0, mx_type = ma_type attr, mx_pprotocol = ma_pprotocol attr\<rparr>"

text \<open>The attributes of a mutex that is made: of the static type, the given ones, or the default ones.\<close>

definition init_attr ::
  "(int \<Rightarrow> host_errno) \<Rightarrow> PthreadMutexattrPrivate \<Rightarrow> PthreadMutexattrPrivate option \<Rightarrow> int \<Rightarrow> PthreadMutexattrPrivate" where
  "init_attr host_settype default_attr attr static_type =
     (if static_type \<noteq> 0
      then (case PthreadMutexattrSettype host_settype (Some new_mutexattr) static_type of
          Some (_, Some a) \<Rightarrow> a\<lparr>ma_pprotocol := PTHREAD_PRIO_NONE\<rparr> | _ \<Rightarrow> new_mutexattr)
      else (case attr of None \<Rightarrow> default_attr | Some a \<Rightarrow> a))"

definition PthreadMutexInitNamed ::
  "(int \<Rightarrow> host_errno) \<Rightarrow> PthreadMutexattrPrivate \<Rightarrow> bool \<Rightarrow> PthreadMutexattrPrivate option \<Rightarrow> string option \<Rightarrow> int \<Rightarrow>
   PthreadMutexPrivate slot \<Rightarrow> int \<times> PthreadMutexPrivate slot" where
  "PthreadMutexInitNamed host_settype default_attr mutex_null attr name static_type s =
     (if mutex_null then (KERNEL_ERROR_EINVAL, s)
      else (OK, SlotAt (new_mutex (case name of None \<Rightarrow> [] | Some nm \<Rightarrow> nm) (init_attr host_settype default_attr attr static_type))))"

definition PthreadMutexInit ::
  "(int \<Rightarrow> host_errno) \<Rightarrow> PthreadMutexattrPrivate \<Rightarrow> bool \<Rightarrow> PthreadMutexattrPrivate option \<Rightarrow>
   PthreadMutexPrivate slot \<Rightarrow> int \<times> PthreadMutexPrivate slot" where
  "PthreadMutexInit host_settype default_attr mutex_null attr s = PthreadMutexInitNamed host_settype default_attr mutex_null attr (Some []) 0 s"

text \<open>The object of a variable, made at its first use; None when there is none.\<close>

definition static_mutex :: "(int \<Rightarrow> host_errno) \<Rightarrow> PthreadMutexattrPrivate \<Rightarrow> string \<Rightarrow> PthreadMutexPrivate slot \<Rightarrow> PthreadMutexPrivate option" where
  "static_mutex host_settype default_attr name s =
     (case CreateObject True (\<lambda>static_type. new_mutex name (init_attr host_settype default_attr None static_type)) s of
        SlotAt m \<Rightarrow> Some m | _ \<Rightarrow> None)"

text \<open>A static initialiser of 1 that was never locked is not an address: using it as one is undefined.\<close>

definition PthreadMutexDestroy :: "bool \<Rightarrow> PthreadMutexPrivate slot \<Rightarrow> (int \<times> PthreadMutexPrivate slot) option" where
  "PthreadMutexDestroy mutex_null s =
     (if mutex_null then Some (KERNEL_ERROR_EINVAL, s)
      else (case s of SlotNull \<Rightarrow> Some (KERNEL_ERROR_EINVAL, s)
        | SlotOne \<Rightarrow> None
        | SlotAt m \<Rightarrow> if mx_owner m \<noteq> 0 then Some (KERNEL_ERROR_EBUSY, s) else Some (OK, SlotNull)))"

definition mutex_lock_code :: "host_errno \<Rightarrow> int" where
  "mutex_lock_code r = (case r of E_OK \<Rightarrow> OK | E_AGAIN \<Rightarrow> KERNEL_ERROR_EAGAIN | E_DEADLK \<Rightarrow> KERNEL_ERROR_EDEADLK | _ \<Rightarrow> KERNEL_ERROR_EINVAL)"

definition mutex_trylock_code :: "host_errno \<Rightarrow> int" where
  "mutex_trylock_code r = (case r of E_OK \<Rightarrow> OK | E_AGAIN \<Rightarrow> KERNEL_ERROR_EAGAIN | E_BUSY \<Rightarrow> KERNEL_ERROR_EBUSY | _ \<Rightarrow> KERNEL_ERROR_EINVAL)"

definition mutex_timedlock_code :: "host_errno \<Rightarrow> int" where
  "mutex_timedlock_code r = (case r of E_OK \<Rightarrow> OK | E_TIMEDOUT \<Rightarrow> KERNEL_ERROR_ETIMEDOUT | E_AGAIN \<Rightarrow> KERNEL_ERROR_EAGAIN
     | E_DEADLK \<Rightarrow> KERNEL_ERROR_EDEADLK | _ \<Rightarrow> KERNEL_ERROR_EINVAL)"

definition mutex_unlock_code :: "host_errno \<Rightarrow> int" where
  "mutex_unlock_code r = (case r of E_OK \<Rightarrow> OK | E_PERM \<Rightarrow> KERNEL_ERROR_EPERM | _ \<Rightarrow> KERNEL_ERROR_EINVAL)"

text \<open>The calls of a thread on a variable; the code is None while the thread sleeps.\<close>

definition lock_result :: "(host_errno \<Rightarrow> int) \<Rightarrow> lock_outcome \<times> PthreadMutexPrivate \<Rightarrow> int option \<times> PthreadMutexPrivate slot" where
  "lock_result code r = (case r of (LockReturned e, m) \<Rightarrow> (Some (code e), SlotAt m) | (LockWaiting, m) \<Rightarrow> (None, SlotAt m))"

definition PthreadMutexLock ::
  "nat \<Rightarrow> (PthreadMutexPrivate slot \<Rightarrow> PthreadMutexPrivate option) \<Rightarrow> bool \<Rightarrow> PthreadMutexPrivate slot \<Rightarrow> (int option \<times> PthreadMutexPrivate slot) option" where
  "PthreadMutexLock self static mutex_null s =
     (if mutex_null then Some (Some KERNEL_ERROR_EINVAL, s)
      else do { m \<leftarrow> static s; map_option (lock_result mutex_lock_code) (NativeMutexLock_begin self None 0 m) })"

definition PthreadMutexTimedlock ::
  "nat \<Rightarrow> (PthreadMutexPrivate slot \<Rightarrow> PthreadMutexPrivate option) \<Rightarrow> bool \<Rightarrow> nat \<Rightarrow> PthreadMutexPrivate slot \<Rightarrow> (int option \<times> PthreadMutexPrivate slot) option" where
  "PthreadMutexTimedlock self static mutex_null usec s =
     (if mutex_null then Some (Some KERNEL_ERROR_EINVAL, s)
      else do { m \<leftarrow> static s; map_option (lock_result mutex_timedlock_code) (NativeMutexLock_begin self (Some usec) 0 m) })"

definition PthreadMutexTrylock ::
  "nat \<Rightarrow> (PthreadMutexPrivate slot \<Rightarrow> PthreadMutexPrivate option) \<Rightarrow> bool \<Rightarrow> PthreadMutexPrivate slot \<Rightarrow> (int \<times> PthreadMutexPrivate slot) option" where
  "PthreadMutexTrylock self static mutex_null s =
     (if mutex_null then Some (KERNEL_ERROR_EINVAL, s)
      else do { m \<leftarrow> static s; (r, m) \<leftarrow> NativeMutexTrylock self m; Some (mutex_trylock_code r, SlotAt m) })"

definition PthreadMutexUnlock ::
  "nat \<Rightarrow> (PthreadMutexPrivate slot \<Rightarrow> PthreadMutexPrivate option) \<Rightarrow> bool \<Rightarrow> PthreadMutexPrivate slot \<Rightarrow> (int \<times> PthreadMutexPrivate slot) option" where
  "PthreadMutexUnlock self static mutex_null s =
     (if mutex_null then Some (KERNEL_ERROR_EINVAL, s)
      else do { m \<leftarrow> static s; (r, _, m) \<leftarrow> NativeMutexUnlock self False m; Some (mutex_unlock_code r, SlotAt m) })"

text \<open>The time-out of \<open>pthread_mutex_timedlock\<close> from a deadline and the clock, in microseconds.\<close>

definition timedlock_micros :: "(int \<times> int) \<Rightarrow> (int \<times> int) \<Rightarrow> nat" where
  "timedlock_micros abstime now =
     (let sec_delta = fst abstime - fst now; nsec_delta = snd abstime - snd now;
          (sec_delta, nsec_delta) = (if nsec_delta < 0 then (sec_delta - 1, nsec_delta + 1000000000) else (sec_delta, nsec_delta)) in
      if sec_delta > 0 \<or> (sec_delta = 0 \<and> nsec_delta > 0)
      then (let usec = (if nat sec_delta > UINT32_MAX div 1000000 then UINT32_MAX else nat sec_delta * 1000000) in
        min UINT32_MAX (usec + nat (nsec_delta div 1000)))
      else 0)"

section \<open>Reentrant locks\<close>

text \<open>
  The specification: at most one thread has the mutex, some number of times. \<open>mutex_ok\<close> is the invariant
  of the representation.
\<close>

definition mutex_ok :: "PthreadMutexPrivate \<Rightarrow> bool" where
  "mutex_ok m \<longleftrightarrow> (mx_owner m = 0 \<longleftrightarrow> mx_count m = 0) \<and> mx_count m \<le> UINT32_MAX \<and> (mx_type m \<noteq> 2 \<longrightarrow> mx_count m \<le> 1)"

definition has_locks :: "PthreadMutexPrivate \<Rightarrow> nat \<Rightarrow> nat" where
  "has_locks m t = (if t \<noteq> 0 \<and> mx_owner m = t then mx_count m else 0)"

lemma has_locks_unique: "mutex_ok m \<Longrightarrow> 0 < has_locks m t \<Longrightarrow> 0 < has_locks m u \<Longrightarrow> t = u"
  by (auto simp: has_locks_def split: if_splits)

lemma has_locks_free: "mutex_ok m \<Longrightarrow> mx_owner m = 0 \<longleftrightarrow> (\<forall>t. has_locks m t = 0)"
  by (auto simp: has_locks_def mutex_ok_def)

lemma NativeMutexLock_turn_spec:
  assumes "mutex_ok m" and "t \<noteq> 0" and "NativeMutexLock_turn t us e m = (out, m')"
  shows "mutex_ok m' \<and> mx_type m' = mx_type m \<and>
    (out = LockReturned E_OK \<and> has_locks m = (\<lambda>u. 0) \<and> has_locks m' = (has_locks m)(t := 1) \<or>
     out \<noteq> LockReturned E_OK \<and> mx_owner m \<noteq> 0 \<and> m' = m)"
  using assms by (auto simp: NativeMutexLock_turn_def mutex_ok_def has_locks_def fun_eq_iff split: if_splits)

lemma NativeMutexLock_begin_spec:
  assumes "mutex_ok m" and "t \<noteq> 0" and "NativeMutexLock_begin t us e m = Some (out, m')"
  shows "mutex_ok m' \<and> mx_type m' = mx_type m \<and>
    (out = LockReturned E_OK \<and> (\<forall>u. u \<noteq> t \<longrightarrow> has_locks m u = 0) \<and> has_locks m' = (has_locks m)(t := has_locks m t + 1) \<and>
       (0 < has_locks m t \<longrightarrow> mx_type m = 2) \<or>
     out \<noteq> LockReturned E_OK \<and> mx_owner m \<noteq> 0 \<and> m' = m \<and> (out = LockWaiting \<longrightarrow> has_locks m t = 0))"
proof (cases "mx_owner m = t")
  case True
  then show ?thesis using assms by (auto simp: NativeMutexLock_begin_def mutex_ok_def has_locks_def fun_eq_iff split: if_splits)
next
  case False
  then have "NativeMutexLock_turn t us e m = (out, m')" using assms(2,3) by (simp add: NativeMutexLock_begin_def)
  then show ?thesis using NativeMutexLock_turn_spec [OF assms(1,2)] False by (fastforce simp: has_locks_def)
qed

lemma NativeMutexTrylock_spec:
  assumes "mutex_ok m" and "t \<noteq> 0" and "NativeMutexTrylock t m = Some (r, m')"
  shows "mutex_ok m' \<and> mx_type m' = mx_type m \<and>
    (r = E_OK \<and> (\<forall>u. u \<noteq> t \<longrightarrow> has_locks m u = 0) \<and> has_locks m' = (has_locks m)(t := has_locks m t + 1) \<and>
       (0 < has_locks m t \<longrightarrow> mx_type m = 2) \<or>
     r \<noteq> E_OK \<and> mx_owner m \<noteq> 0 \<and> m' = m)"
  using assms by (auto simp: NativeMutexTrylock_def mutex_ok_def has_locks_def fun_eq_iff split: if_splits)

lemma NativeMutexUnlock_spec:
  assumes "mutex_ok m" and "t \<noteq> 0" and "NativeMutexUnlock t rec m = Some (r, stored, m')"
  shows "mutex_ok m' \<and> mx_type m' = mx_type m \<and>
    (if has_locks m t = 0 then r = E_PERM \<and> m' = m
     else r = E_OK \<and> (rec \<longrightarrow> stored = has_locks m t) \<and> has_locks m' = (has_locks m)(t := (if rec then 0 else has_locks m t - 1)))"
  using assms by (auto simp: NativeMutexUnlock_def mutex_ok_def has_locks_def fun_eq_iff Let_def split: if_splits)

lemma NativeMutexLockRecurse_turn_spec:
  assumes "mutex_ok m" and "t \<noteq> 0" and "1 \<le> n" and "n \<le> UINT32_MAX" and "mx_type m \<noteq> 2 \<Longrightarrow> n = 1"
    and "NativeMutexLockRecurse_turn t n m = (out, m')"
  shows "mutex_ok m' \<and> mx_type m' = mx_type m \<and>
    (out = LockReturned E_OK \<and> has_locks m = (\<lambda>u. 0) \<and> has_locks m' = (has_locks m)(t := n) \<or>
     out = LockWaiting \<and> mx_owner m \<noteq> 0 \<and> m' = m)"
  using assms
  by (auto simp: NativeMutexLockRecurse_turn_def set_recurse_def NativeMutexLock_turn_def mutex_ok_def has_locks_def fun_eq_iff split: if_splits)

lemma new_mutex_ok: "mutex_ok (new_mutex name attr)" "has_locks (new_mutex name attr) t = 0"
  by (simp_all add: mutex_ok_def new_mutex_def has_locks_def)

end
