(* ===== verification/PthreadCond.thy ===== *)
theory PthreadCond
  imports PthreadMutex
begin

text \<open>
  The condition variables of the guest's threads (src/src/kernel/pthread.cpp). A waiting thread is in the
  queue of its condition variable; a signal takes the first one (or a given one) out and counts up that
  thread's \<open>cond_sequence\<close>, a broadcast empties the queue and counts up the variable's \<open>sequence\<close>; a thread
  is ready when one of them differs from what it read on entry.

  Waiting registers the thread and releases the mutex in one critical section of the condition variable
  (step \<open>begin\<close>), sleeps (a \<open>turn\<close> for every wake-up), leaves the queue and then takes the mutex back
  (\<open>NativeMutexLockRecurse\<close>). The state of the threads is a map; None is \<open>EXIT\<close> or undefined behaviour.
\<close>

record PthreadPrivate =
  pt_cond_sequence :: nat
  pt_waiting_cond :: nat

record PthreadCondPrivate =
  cv_name :: string
  cv_sequence :: nat
  cv_clock_id :: int
  cv_waiters :: "nat list"

type_synonym threads = "nat \<Rightarrow> PthreadPrivate"

section \<open>The queue\<close>

text \<open>\<open>c\<close> is the address of the condition variable.\<close>

definition CondAddWaiter :: "nat \<Rightarrow> nat \<Rightarrow> PthreadCondPrivate \<Rightarrow> threads \<Rightarrow> PthreadCondPrivate \<times> threads" where
  "CondAddWaiter c thread cond ts =
     (cond\<lparr>cv_waiters := cv_waiters cond @ [thread]\<rparr>, ts(thread := (ts thread)\<lparr>pt_waiting_cond := c\<rparr>))"

definition stop_waiting :: "nat \<Rightarrow> nat \<Rightarrow> threads \<Rightarrow> threads" where
  "stop_waiting c thread ts = (if pt_waiting_cond (ts thread) = c then ts(thread := (ts thread)\<lparr>pt_waiting_cond := 0\<rparr>) else ts)"

definition CondRemoveWaiter :: "nat \<Rightarrow> nat \<Rightarrow> PthreadCondPrivate \<Rightarrow> threads \<Rightarrow> bool \<times> PthreadCondPrivate \<times> threads" where
  "CondRemoveWaiter c thread cond ts =
     (if thread \<notin> set (cv_waiters cond) then (False, cond, ts)
      else (True, cond\<lparr>cv_waiters := remove1 thread (cv_waiters cond)\<rparr>, stop_waiting c thread ts))"

definition CondWakeWaiter :: "nat \<Rightarrow> nat \<Rightarrow> PthreadCondPrivate \<Rightarrow> threads \<Rightarrow> bool \<times> PthreadCondPrivate \<times> threads" where
  "CondWakeWaiter c thread cond ts =
     (if thread = 0 \<and> cv_waiters cond = [] then (False, cond, ts)
      else (let thread = (if thread = 0 then hd (cv_waiters cond) else thread) in
        if thread \<notin> set (cv_waiters cond) then (False, cond, ts)
        else (let ts = stop_waiting c thread ts in
          (True, cond\<lparr>cv_waiters := remove1 thread (cv_waiters cond)\<rparr>,
           ts(thread := (ts thread)\<lparr>pt_cond_sequence := add64 (pt_cond_sequence (ts thread)) 1\<rparr>)))))"

definition CondClearWaiters :: "nat \<Rightarrow> PthreadCondPrivate \<Rightarrow> threads \<Rightarrow> PthreadCondPrivate \<times> threads" where
  "CondClearWaiters c cond ts =
     (cond\<lparr>cv_waiters := []\<rparr>, fold (\<lambda>thread ts. if thread \<noteq> 0 then stop_waiting c thread ts else ts) (cv_waiters cond) ts)"

section \<open>Signals\<close>

definition cond_signal :: "nat \<Rightarrow> PthreadCondPrivate \<Rightarrow> threads \<Rightarrow> bool \<times> PthreadCondPrivate \<times> threads" where
  "cond_signal c cond ts = CondWakeWaiter c 0 cond ts"

definition cond_broadcast :: "nat \<Rightarrow> PthreadCondPrivate \<Rightarrow> threads \<Rightarrow> bool \<times> PthreadCondPrivate \<times> threads" where
  "cond_broadcast c cond ts =
     (if cv_waiters cond \<noteq> []
      then (let (cond, ts) = CondClearWaiters c (cond\<lparr>cv_sequence := add64 (cv_sequence cond) 1\<rparr>) ts in (True, cond, ts))
      else (False, cond, ts))"

definition PthreadCondInitNamed :: "bool \<Rightarrow> int \<Rightarrow> int option \<Rightarrow> string option \<Rightarrow> PthreadCondPrivate slot \<Rightarrow> int \<times> PthreadCondPrivate slot" where
  "PthreadCondInitNamed cond_null default_clock attr_clock name s =
     (if cond_null then (KERNEL_ERROR_EINVAL, s)
      else (OK, SlotAt \<lparr>cv_name = (case name of None \<Rightarrow> [] | Some nm \<Rightarrow> nm), cv_sequence = 0,
        cv_clock_id = (case attr_clock of None \<Rightarrow> default_clock | Some k \<Rightarrow> k), cv_waiters = []\<rparr>))"

definition PthreadCondInit :: "bool \<Rightarrow> int \<Rightarrow> int option \<Rightarrow> PthreadCondPrivate slot \<Rightarrow> int \<times> PthreadCondPrivate slot" where
  "PthreadCondInit cond_null default_clock attr_clock s = PthreadCondInitNamed cond_null default_clock attr_clock (Some []) s"

text \<open>Destroying does not look at the waiters.\<close>

definition PthreadCondDestroy :: "bool \<Rightarrow> PthreadCondPrivate slot \<Rightarrow> (int \<times> PthreadCondPrivate slot) option" where
  "PthreadCondDestroy cond_null s =
     (if cond_null then Some (KERNEL_ERROR_EINVAL, s) else (case s of SlotAt c \<Rightarrow> Some (OK, SlotNull) | _ \<Rightarrow> None))"

definition static_cond :: "int \<Rightarrow> string \<Rightarrow> PthreadCondPrivate slot \<Rightarrow> PthreadCondPrivate option" where
  "static_cond default_clock name s =
     (case CreateObject False (\<lambda>static_type. \<lparr>cv_name = name, cv_sequence = 0, cv_clock_id = default_clock, cv_waiters = []\<rparr>) s of
        SlotAt c \<Rightarrow> Some c | _ \<Rightarrow> None)"

definition on_cond ::
  "(PthreadCondPrivate slot \<Rightarrow> PthreadCondPrivate option) \<Rightarrow> (PthreadCondPrivate \<Rightarrow> threads \<Rightarrow> bool \<times> PthreadCondPrivate \<times> threads) \<Rightarrow>
   PthreadCondPrivate slot \<Rightarrow> threads \<Rightarrow> (int \<times> PthreadCondPrivate slot \<times> threads) option" where
  "on_cond static f s ts = do { cond \<leftarrow> static s; Some (case f cond ts of (notify, cond', ts') \<Rightarrow> (OK, SlotAt cond', ts')) }"

definition PthreadCondSignal ::
  "(PthreadCondPrivate slot \<Rightarrow> PthreadCondPrivate option) \<Rightarrow> nat \<Rightarrow> bool \<Rightarrow> PthreadCondPrivate slot \<Rightarrow> threads \<Rightarrow>
   (int \<times> PthreadCondPrivate slot \<times> threads) option" where
  "PthreadCondSignal static c cond_null s ts =
     (if cond_null then Some (KERNEL_ERROR_EINVAL, s, ts) else on_cond static (cond_signal c) s ts)"

definition PthreadCondBroadcast ::
  "(PthreadCondPrivate slot \<Rightarrow> PthreadCondPrivate option) \<Rightarrow> nat \<Rightarrow> bool \<Rightarrow> PthreadCondPrivate slot \<Rightarrow> threads \<Rightarrow>
   (int \<times> PthreadCondPrivate slot \<times> threads) option" where
  "PthreadCondBroadcast static c cond_null s ts =
     (if cond_null then Some (KERNEL_ERROR_EINVAL, s, ts) else on_cond static (cond_broadcast c) s ts)"

definition PthreadCondSignalto ::
  "(PthreadCondPrivate slot \<Rightarrow> PthreadCondPrivate option) \<Rightarrow> nat \<Rightarrow> bool \<Rightarrow> nat \<Rightarrow> PthreadCondPrivate slot \<Rightarrow> threads \<Rightarrow>
   (int \<times> PthreadCondPrivate slot \<times> threads) option" where
  "PthreadCondSignalto static c cond_null thread s ts =
     (if cond_null then Some (KERNEL_ERROR_EINVAL, s, ts)
      else if thread = 0 then map_option (\<lambda>cond. (KERNEL_ERROR_EINVAL, SlotAt cond, ts)) (static s)
      else on_cond static (CondWakeWaiter c thread) s ts)"

section \<open>Waiting\<close>

text \<open>
  What a waiting thread remembers. Its time-out is None for \<open>PthreadCondWait\<close>, microseconds for
  \<open>PthreadCondTimedwait\<close>, nanoseconds to the deadline for \<open>PthreadCondTimedwaitAbs\<close>; the time elapsed is
  in the same unit.
\<close>

record cond_wait =
  cw_sequence :: nat
  cw_thread_sequence :: nat
  cw_recurse :: nat
  cw_timeout :: "nat option"

datatype cond_outcome = CondReturned int | CondSleeping cond_wait | CondRelock host_errno nat

definition cond_ready :: "nat \<Rightarrow> cond_wait \<Rightarrow> PthreadCondPrivate \<Rightarrow> threads \<Rightarrow> bool" where
  "cond_ready self w cond ts \<longleftrightarrow> cv_sequence cond \<noteq> cw_sequence w \<or> pt_cond_sequence (ts self) \<noteq> cw_thread_sequence w"

text \<open>One evaluation of the loop's condition and of the time-out; when the loop ends, the thread leaves the queue.\<close>

definition cond_wait_turn :: "nat \<Rightarrow> nat \<Rightarrow> nat \<Rightarrow> cond_wait \<Rightarrow> PthreadCondPrivate \<Rightarrow> threads \<Rightarrow> cond_outcome \<times> PthreadCondPrivate \<times> threads" where
  "cond_wait_turn c self elapsed w cond ts =
     (if cond_ready self w cond ts then (CondRelock E_OK (cw_recurse w), snd (CondRemoveWaiter c self cond ts))
      else if (case cw_timeout w of None \<Rightarrow> False | Some t \<Rightarrow> elapsed \<ge> t)
      then (CondRelock E_TIMEDOUT (cw_recurse w), snd (CondRemoveWaiter c self cond ts))
      else (CondSleeping w, cond, ts))"

text \<open>
  The call up to the first sleep. A time-out of 0 ends it at once: nothing can be ready, since the critical
  section has not been left.
\<close>

definition cond_wait_begin ::
  "nat \<Rightarrow> nat \<Rightarrow> nat option \<Rightarrow> PthreadCondPrivate \<Rightarrow> threads \<Rightarrow> PthreadMutexPrivate \<Rightarrow>
   (cond_outcome \<times> PthreadCondPrivate \<times> threads \<times> PthreadMutexPrivate) option" where
  "cond_wait_begin c self timeout cond ts m =
     (if mx_owner m \<noteq> self then Some (CondReturned KERNEL_ERROR_EPERM, cond, ts, m)
      else if self = 0 then None
      else
        (let sequence = cv_sequence cond; thread_sequence = pt_cond_sequence (ts self); (cond, ts) = CondAddWaiter c self cond ts in do {
          (result, recurse, m) \<leftarrow> NativeMutexUnlock self True m;
          if result \<noteq> E_OK
          then Some (CondReturned (if result = E_PERM then KERNEL_ERROR_EPERM else KERNEL_ERROR_EINVAL),
            fst (snd (CondRemoveWaiter c self cond ts)), snd (snd (CondRemoveWaiter c self cond ts)), m)
          else
            (let w = \<lparr>cw_sequence = sequence, cw_thread_sequence = thread_sequence, cw_recurse = recurse, cw_timeout = timeout\<rparr>;
                 (out, cond, ts) = cond_wait_turn c self 0 w cond ts in Some (out, cond, ts, m)) }))"

text \<open>The code of a wait, once the mutex has been taken back.\<close>

definition cond_wait_code :: "host_errno \<Rightarrow> host_errno \<Rightarrow> int" where
  "cond_wait_code result relock =
     (let result = (if result = E_OK then relock else result) in
      (case result of E_OK \<Rightarrow> OK | E_TIMEDOUT \<Rightarrow> KERNEL_ERROR_ETIMEDOUT | E_PERM \<Rightarrow> KERNEL_ERROR_EPERM | _ \<Rightarrow> KERNEL_ERROR_EINVAL))"

text \<open>
  A deadline as nanoseconds from now. The subtraction is of \<open>chrono\<close> durations, \<open>int64_t\<close> nanoseconds: None
  in the result is their overflow, undefined behaviour; the inner None is the failure of the function.
  \<open>steady\<close> is the steady clock, to which the difference is added.
\<close>

definition NativeCondDeadlineFromAbs :: "(int \<times> int) option \<Rightarrow> int \<Rightarrow> (int \<times> int) option \<Rightarrow> nat option option" where
  "NativeCondDeadlineFromAbs now steady abstime =
     (case abstime of None \<Rightarrow> Some None
      | Some (sec, nsec) \<Rightarrow>
          if sec < 0 \<or> nsec < 0 \<or> nsec \<ge> 1000000000 then Some None
          else (case now of None \<Rightarrow> Some None
            | Some (now_sec, now_nsec) \<Rightarrow>
                (let delta_sec = (sec - now_sec) * 1000000000; delta = delta_sec + (nsec - now_nsec) in
                 if delta_sec < - (2 ^ 63) \<or> delta_sec \<ge> 2 ^ 63 \<or> delta < - (2 ^ 63) \<or> delta \<ge> 2 ^ 63 \<or>
                   steady + delta < - (2 ^ 63) \<or> steady + delta \<ge> 2 ^ 63 then None
                 else Some (Some (nat delta)))))"

text \<open>
  The three calls on variables. The first component is the code of a call that returned at once; the
  sleeping thread's record otherwise.
\<close>

definition cond_wait_call ::
  "(PthreadCondPrivate slot \<Rightarrow> PthreadCondPrivate option) \<Rightarrow> (PthreadMutexPrivate slot \<Rightarrow> PthreadMutexPrivate option) \<Rightarrow>
   nat \<Rightarrow> nat \<Rightarrow> bool \<Rightarrow> bool \<Rightarrow> (PthreadCondPrivate \<Rightarrow> nat option option option) \<Rightarrow> PthreadCondPrivate slot \<Rightarrow> threads \<Rightarrow> PthreadMutexPrivate slot \<Rightarrow>
   (cond_outcome \<times> PthreadCondPrivate slot \<times> threads \<times> PthreadMutexPrivate slot) option" where
  "cond_wait_call static_c static_m c self cond_null mutex_null timeout sc ts sm =
     (if cond_null then
        (if mutex_null then Some (CondReturned KERNEL_ERROR_EINVAL, sc, ts, sm)
         else map_option (\<lambda>m. (CondReturned KERNEL_ERROR_EINVAL, sc, ts, SlotAt m)) (static_m sm))
      else do {
        cond \<leftarrow> static_c sc;
        if mutex_null then Some (CondReturned KERNEL_ERROR_EINVAL, SlotAt cond, ts, sm)
        else do {
          m \<leftarrow> static_m sm;
          limit \<leftarrow> timeout cond;
          case limit of None \<Rightarrow> Some (CondReturned KERNEL_ERROR_EINVAL, SlotAt cond, ts, SlotAt m)
          | Some t \<Rightarrow> do {
              (out, cond, ts, m) \<leftarrow> cond_wait_begin c self t cond ts m;
              Some (out, SlotAt cond, ts, SlotAt m) } } })"

definition PthreadCondWait where
  "PthreadCondWait static_c static_m c self cond_null mutex_null = cond_wait_call static_c static_m c self cond_null mutex_null (\<lambda>cond. Some (Some None))"

definition PthreadCondTimedwait where
  "PthreadCondTimedwait static_c static_m c self cond_null mutex_null usec =
     cond_wait_call static_c static_m c self cond_null mutex_null (\<lambda>cond. Some (Some (Some usec)))"

text \<open>The clock is the one of the condition variable.\<close>

definition PthreadCondTimedwaitAbs where
  "PthreadCondTimedwaitAbs static_c static_m c self cond_null mutex_null clock steady abstime =
     cond_wait_call static_c static_m c self cond_null mutex_null
       (\<lambda>cond. map_option (map_option Some) (NativeCondDeadlineFromAbs (clock (cv_clock_id cond)) steady abstime))"

section \<open>Threads that share a mutex and a condition variable\<close>

text \<open>
  What each thread is doing, and two ghost maps: how often it holds the mutex, as its calls told it
  (\<open>sy_depth\<close>), and how often it held it when it began to wait (\<open>sy_saved\<close>).
\<close>

datatype thread_phase = Outside | Locking "nat option" | Waiting cond_wait | Relocking host_errno nat

record sync_sys =
  sy_mutex :: PthreadMutexPrivate
  sy_cond :: PthreadCondPrivate
  sy_threads :: threads
  sy_phase :: "nat \<Rightarrow> thread_phase"
  sy_depth :: "nat \<Rightarrow> nat"
  sy_saved :: "nat \<Rightarrow> nat"

definition cond_phase :: "cond_outcome \<Rightarrow> thread_phase" where
  "cond_phase out = (case out of CondReturned code \<Rightarrow> Outside | CondSleeping w \<Rightarrow> Waiting w | CondRelock r n \<Rightarrow> Relocking r n)"

inductive sync_step :: "nat \<Rightarrow> sync_sys \<Rightarrow> sync_sys \<Rightarrow> bool" for c where
  sync_lock: "t \<noteq> 0 \<Longrightarrow> sy_phase y t = Outside \<Longrightarrow> NativeMutexLock_begin t us e (sy_mutex y) = Some (out, m') \<Longrightarrow>
    sync_step c y (y\<lparr>sy_mutex := m', sy_phase := (sy_phase y)(t := if out = LockWaiting then Locking us else Outside),
      sy_depth := (sy_depth y)(t := sy_depth y t + (if out = LockReturned E_OK then 1 else 0))\<rparr>)"
| sync_lock_turn: "sy_phase y t = Locking us \<Longrightarrow> NativeMutexLock_turn t us e (sy_mutex y) = (out, m') \<Longrightarrow>
    sync_step c y (y\<lparr>sy_mutex := m', sy_phase := (sy_phase y)(t := if out = LockWaiting then Locking us else Outside),
      sy_depth := (sy_depth y)(t := sy_depth y t + (if out = LockReturned E_OK then 1 else 0))\<rparr>)"
| sync_trylock: "t \<noteq> 0 \<Longrightarrow> sy_phase y t = Outside \<Longrightarrow> NativeMutexTrylock t (sy_mutex y) = Some (r, m') \<Longrightarrow>
    sync_step c y (y\<lparr>sy_mutex := m', sy_depth := (sy_depth y)(t := sy_depth y t + (if r = E_OK then 1 else 0))\<rparr>)"
| sync_unlock: "t \<noteq> 0 \<Longrightarrow> sy_phase y t = Outside \<Longrightarrow> NativeMutexUnlock t False (sy_mutex y) = Some (r, st, m') \<Longrightarrow>
    sync_step c y (y\<lparr>sy_mutex := m', sy_depth := (sy_depth y)(t := sy_depth y t - (if r = E_OK then 1 else 0))\<rparr>)"
| sync_wait: "t \<noteq> 0 \<Longrightarrow> sy_phase y t = Outside \<Longrightarrow>
    cond_wait_begin c t timeout (sy_cond y) (sy_threads y) (sy_mutex y) = Some (out, cond', ts', m') \<Longrightarrow>
    sync_step c y (y\<lparr>sy_mutex := m', sy_cond := cond', sy_threads := ts', sy_phase := (sy_phase y)(t := cond_phase out),
      sy_depth := (if cond_phase out = Outside then sy_depth y else (sy_depth y)(t := 0)),
      sy_saved := (sy_saved y)(t := sy_depth y t)\<rparr>)"
| sync_wait_turn: "sy_phase y t = Waiting w \<Longrightarrow> cond_wait_turn c t e w (sy_cond y) (sy_threads y) = (out, cond', ts') \<Longrightarrow>
    sync_step c y (y\<lparr>sy_cond := cond', sy_threads := ts', sy_phase := (sy_phase y)(t := cond_phase out)\<rparr>)"
| sync_relock: "sy_phase y t = Relocking r n \<Longrightarrow> NativeMutexLockRecurse_turn t n (sy_mutex y) = (out, m') \<Longrightarrow>
    sync_step c y (y\<lparr>sy_mutex := m', sy_phase := (sy_phase y)(t := if out = LockWaiting then Relocking r n else Outside),
      sy_depth := (sy_depth y)(t := if out = LockReturned E_OK then n else sy_depth y t)\<rparr>)"
| sync_signal: "CondWakeWaiter c thread (sy_cond y) (sy_threads y) = (notify, cond', ts') \<Longrightarrow>
    sync_step c y (y\<lparr>sy_cond := cond', sy_threads := ts'\<rparr>)"
| sync_broadcast: "cv_sequence (sy_cond y) < UINT64_MAX \<Longrightarrow> cond_broadcast c (sy_cond y) (sy_threads y) = (notify, cond', ts') \<Longrightarrow>
    sync_step c y (y\<lparr>sy_cond := cond', sy_threads := ts'\<rparr>)"

definition new_sync_sys :: "PthreadMutexattrPrivate \<Rightarrow> int \<Rightarrow> sync_sys" where
  "new_sync_sys attr clock = \<lparr>sy_mutex = new_mutex [] attr,
     sy_cond = \<lparr>cv_name = [], cv_sequence = 0, cv_clock_id = clock, cv_waiters = []\<rparr>,
     sy_threads = (\<lambda>t. \<lparr>pt_cond_sequence = 0, pt_waiting_cond = 0\<rparr>), sy_phase = (\<lambda>t. Outside), sy_depth = (\<lambda>t. 0), sy_saved = (\<lambda>t. 0)\<rparr>"

inductive sync_reachable :: "nat \<Rightarrow> sync_sys \<Rightarrow> bool" for c where
  sync_new: "sync_reachable c (new_sync_sys attr clock)"
| sync_next: "sync_reachable c y \<Longrightarrow> sync_step c y y' \<Longrightarrow> sync_reachable c y'"

text \<open>
  The invariant, in two halves: the mutex and the depths; the queue. A thread is in the queue exactly while
  it waits and is not ready.
\<close>

definition depths_ok :: "PthreadMutexPrivate \<Rightarrow> (nat \<Rightarrow> thread_phase) \<Rightarrow> (nat \<Rightarrow> nat) \<Rightarrow> (nat \<Rightarrow> nat) \<Rightarrow> bool" where
  "depths_ok m phase depth saved \<longleftrightarrow> mutex_ok m \<and> has_locks m = depth \<and> phase 0 = Outside \<and>
     (\<forall>t. phase t \<noteq> Outside \<longrightarrow> depth t = 0) \<and>
     (\<forall>t w. phase t = Waiting w \<longrightarrow> cw_recurse w = saved t) \<and> (\<forall>t r n. phase t = Relocking r n \<longrightarrow> n = saved t) \<and>
     (\<forall>t. (\<exists>w. phase t = Waiting w) \<or> (\<exists>r n. phase t = Relocking r n) \<longrightarrow>
       1 \<le> saved t \<and> saved t \<le> UINT32_MAX \<and> (mx_type m \<noteq> 2 \<longrightarrow> saved t = 1))"

definition queue_ok :: "nat \<Rightarrow> PthreadCondPrivate \<Rightarrow> threads \<Rightarrow> (nat \<Rightarrow> thread_phase) \<Rightarrow> bool" where
  "queue_ok c cond ts phase \<longleftrightarrow> distinct (cv_waiters cond) \<and> 0 \<notin> set (cv_waiters cond) \<and>
     (\<forall>t. t \<in> set (cv_waiters cond) \<longleftrightarrow> (\<exists>w. phase t = Waiting w \<and> \<not> cond_ready t w cond ts)) \<and>
     (\<forall>t w. phase t = Waiting w \<longrightarrow> cw_sequence w \<le> cv_sequence cond) \<and>
     (\<forall>t. pt_cond_sequence (ts t) < 2 ^ 64) \<and>
     (\<forall>t. pt_waiting_cond (ts t) = (if t \<in> set (cv_waiters cond) then c else 0))"

definition sync_ok :: "nat \<Rightarrow> sync_sys \<Rightarrow> bool" where
  "sync_ok c y \<longleftrightarrow> depths_ok (sy_mutex y) (sy_phase y) (sy_depth y) (sy_saved y) \<and> queue_ok c (sy_cond y) (sy_threads y) (sy_phase y)"

subsection \<open>The mutex half\<close>

lemma depths_busy: "depths_ok m phase depth saved \<Longrightarrow> phase t \<noteq> Outside \<Longrightarrow> t \<noteq> 0 \<and> depth t = 0"
  unfolding depths_ok_def by metis

lemma depths_lock:
  assumes "depths_ok m phase depth saved" and "t \<noteq> 0" and "phase t = Outside" and "NativeMutexLock_begin t us e m = Some (out, m')"
  shows "depths_ok m' (phase(t := if out = LockWaiting then Locking us else Outside))
    (depth(t := depth t + (if out = LockReturned E_OK then 1 else 0))) saved"
proof -
  have m: "mutex_ok m" "has_locks m = depth" using assms(1) by (simp_all add: depths_ok_def)
  note s = NativeMutexLock_begin_spec [OF m(1) assms(2,4)]
  show ?thesis
  proof (cases "out = LockReturned E_OK")
    case True
    then show ?thesis using s assms(1,2) unfolding depths_ok_def m(2) by (auto simp: fun_eq_iff)
  next
    case False
    then have "m' = m" "out = LockWaiting \<Longrightarrow> depth t = 0" using s m(2) by auto
    then show ?thesis using False assms(1,2) unfolding depths_ok_def by auto
  qed
qed

lemma depths_lock_turn:
  assumes "depths_ok m phase depth saved" and "phase t = Locking us" and "NativeMutexLock_turn t us e m = (out, m')"
  shows "depths_ok m' (phase(t := if out = LockWaiting then Locking us else Outside))
    (depth(t := depth t + (if out = LockReturned E_OK then 1 else 0))) saved"
proof -
  have m: "mutex_ok m" "has_locks m = depth" "depth t = 0" "t \<noteq> 0" using depths_busy [OF assms(1), of t] assms(1,2) by (simp_all add: depths_ok_def)
  note s = NativeMutexLock_turn_spec [OF m(1,4) assms(3)]
  show ?thesis
  proof (cases "out = LockReturned E_OK")
    case True
    then show ?thesis using s assms(1) m(3,4) unfolding depths_ok_def m(2) by (auto simp: fun_eq_iff)
  next
    case False
    then have "m' = m" using s by auto
    then show ?thesis using False assms(1,2) m(3,4) unfolding depths_ok_def by auto
  qed
qed

lemma depths_trylock:
  assumes "depths_ok m phase depth saved" and "t \<noteq> 0" and "phase t = Outside" and "NativeMutexTrylock t m = Some (r, m')"
  shows "depths_ok m' phase (depth(t := depth t + (if r = E_OK then 1 else 0))) saved"
proof -
  have m: "mutex_ok m" "has_locks m = depth" using assms(1) by (simp_all add: depths_ok_def)
  note s = NativeMutexTrylock_spec [OF m(1) assms(2,4)]
  show ?thesis
  proof (cases "r = E_OK")
    case True
    then show ?thesis using s assms(1,2,3) unfolding depths_ok_def m(2) by (auto simp: fun_eq_iff)
  next
    case False
    then show ?thesis using s assms(1) by auto
  qed
qed

lemma depths_unlock:
  assumes "depths_ok m phase depth saved" and "t \<noteq> 0" and "phase t = Outside" and "NativeMutexUnlock t False m = Some (r, st, m')"
  shows "depths_ok m' phase (depth(t := depth t - (if r = E_OK then 1 else 0))) saved"
proof -
  have m: "mutex_ok m" "has_locks m = depth" using assms(1) by (simp_all add: depths_ok_def)
  note s = NativeMutexUnlock_spec [OF m(1) assms(2,4)]
  show ?thesis
  proof (cases "depth t = 0")
    case True
    then show ?thesis using s assms(1) unfolding m(2) by (simp add: fun_upd_idem)
  next
    case False
    then show ?thesis using s assms(1,3) unfolding depths_ok_def m(2) by auto
  qed
qed

lemma depths_relock:
  assumes "depths_ok m phase depth saved" and "phase t = Relocking r n" and "NativeMutexLockRecurse_turn t n m = (out, m')"
  shows "depths_ok m' (phase(t := if out = LockWaiting then Relocking r n else Outside))
    (depth(t := if out = LockReturned E_OK then n else depth t)) saved"
proof -
  have m: "mutex_ok m" "has_locks m = depth" "depth t = 0" "t \<noteq> 0" "n = saved t" using depths_busy [OF assms(1), of t] assms(1,2) by (simp_all add: depths_ok_def)
  have n: "1 \<le> n" "n \<le> UINT32_MAX" "mx_type m \<noteq> 2 \<Longrightarrow> n = 1" using assms(1,2) unfolding depths_ok_def m(5) by blast+
  note s = NativeMutexLockRecurse_turn_spec [OF m(1,4) n assms(3)]
  show ?thesis
  proof (cases "out = LockReturned E_OK")
    case True
    then show ?thesis using s assms(1) m(3,4) unfolding depths_ok_def m(2) by (auto simp: fun_eq_iff)
  next
    case False
    then have "m' = m" "out = LockWaiting" using s by auto
    then show ?thesis using assms(1,2) by (simp add: fun_upd_idem)
  qed
qed

text \<open>Beginning and ending a wait, seen from the mutex.\<close>

lemma depths_wait:
  assumes "depths_ok m phase depth saved" and "t \<noteq> 0" and "phase t = Outside" and "mutex_ok m'" and "mx_type m' = mx_type m"
    and "has_locks m' = (has_locks m)(t := 0)" and "0 < has_locks m t" and "cond_phase out \<noteq> Outside"
    and "out = CondSleeping w \<and> cw_recurse w = has_locks m t \<or> out = CondRelock r (has_locks m t)"
  shows "depths_ok m' (phase(t := cond_phase out)) (depth(t := 0)) (saved(t := depth t))"
proof -
  have m: "mutex_ok m" "has_locks m = depth" using assms(1) by (simp_all add: depths_ok_def)
  have "depth t \<le> UINT32_MAX \<and> (mx_type m \<noteq> 2 \<longrightarrow> depth t = 1)" using assms(7) m(1) unfolding m(2) [symmetric]
    by (auto simp: has_locks_def mutex_ok_def split: if_splits)
  then show ?thesis using assms unfolding depths_ok_def m(2) by (auto simp: cond_phase_def)
qed

lemma depths_wait_turn:
  assumes "depths_ok m phase depth saved" and "phase t = Waiting w" and "p = Waiting w \<or> p = Relocking r (cw_recurse w)"
  shows "depths_ok m (phase(t := p)) depth saved"
  using assms unfolding depths_ok_def by auto

subsection \<open>The queue half\<close>

lemma queue_phase:
  assumes "queue_ok c cond ts phase" and "\<forall>w. phase t \<noteq> Waiting w" and "\<forall>w. p \<noteq> Waiting w"
  shows "queue_ok c cond ts (phase(t := p))"
  using assms unfolding queue_ok_def by auto

lemma queue_not_waiting: "queue_ok c cond ts phase \<Longrightarrow> \<forall>w. phase t \<noteq> Waiting w \<Longrightarrow> t \<notin> set (cv_waiters cond)"
  unfolding queue_ok_def by blast

text \<open>A thread leaves the queue, if it is in it, when its wait ends.\<close>

lemma stop_waiting_simps [simp]:
  "pt_cond_sequence (stop_waiting c t ts u) = pt_cond_sequence (ts u)"
  "pt_waiting_cond (stop_waiting c t ts u) = (if u = t \<and> pt_waiting_cond (ts t) = c then 0 else pt_waiting_cond (ts u))"
  by (auto simp: stop_waiting_def)

lemma CondRemoveWaiter_spec:
  assumes "CondRemoveWaiter c t cond ts = (b, cond', ts')"
  shows "cv_waiters cond' = remove1 t (cv_waiters cond)" and "cv_sequence cond' = cv_sequence cond" and "b = (t \<in> set (cv_waiters cond))"
    and "pt_cond_sequence (ts' u) = pt_cond_sequence (ts u)"
    and "pt_waiting_cond (ts' u) = (if u = t \<and> t \<in> set (cv_waiters cond) \<and> pt_waiting_cond (ts t) = c then 0 else pt_waiting_cond (ts u))"
  using assms by (auto simp: CondRemoveWaiter_def remove1_idem split: if_splits)

lemma queue_remove:
  assumes "queue_ok c cond ts phase" and "CondRemoveWaiter c t cond ts = (b, cond', ts')" and "\<forall>w. p \<noteq> Waiting w"
  shows "queue_ok c cond' ts' (phase(t := p))"
proof -
  note r = CondRemoveWaiter_spec [OF assms(2)]
  have q: "distinct (cv_waiters cond)" "0 \<notin> set (cv_waiters cond)"
    "\<And>u. u \<in> set (cv_waiters cond) \<longleftrightarrow> (\<exists>w. phase u = Waiting w \<and> \<not> cond_ready u w cond ts)"
    "\<And>u w. phase u = Waiting w \<Longrightarrow> cw_sequence w \<le> cv_sequence cond" "\<And>u. pt_cond_sequence (ts u) < 2 ^ 64"
    "\<And>u. pt_waiting_cond (ts u) = (if u \<in> set (cv_waiters cond) then c else 0)"
    using assms(1) unfolding queue_ok_def by blast+
  have s: "set (cv_waiters cond') = set (cv_waiters cond) - {t}" unfolding r(1) using q(1) by (rule set_remove1_eq)
  have ready: "cond_ready u w cond' ts' = cond_ready u w cond ts" for u w by (simp add: cond_ready_def r)
  show ?thesis
    unfolding queue_ok_def
  proof (intro conjI allI impI)
    show "distinct (cv_waiters cond')" unfolding r(1) using q(1) by (rule distinct_remove1)
    show "0 \<notin> set (cv_waiters cond')" using s q(2) by simp
    show "u \<in> set (cv_waiters cond') \<longleftrightarrow> (\<exists>w. (phase(t := p)) u = Waiting w \<and> \<not> cond_ready u w cond' ts')" for u
      using q(3) [of u] assms(3) unfolding s ready by (cases "u = t") auto
    show "cw_sequence w \<le> cv_sequence cond'" if "(phase(t := p)) u = Waiting w" for u w
      using that q(4) [of u w] assms(3) unfolding r(2) by (cases "u = t") auto
    show "pt_cond_sequence (ts' u) < 2 ^ 64" for u using q(5) by (simp add: r)
    show "pt_waiting_cond (ts' u) = (if u \<in> set (cv_waiters cond') then c else 0)" for u
      using q(6) by (auto simp: r(5) s)
  qed
qed

lemma cond_wait_turn_cases:
  assumes "cond_wait_turn c t e w cond ts = (out, cond', ts')"
  obtains (sleep_more) "out = CondSleeping w" "cond' = cond" "ts' = ts" "\<not> cond_ready t w cond ts"
  | (leave) r b where "out = CondRelock r (cw_recurse w)" "CondRemoveWaiter c t cond ts = (b, cond', ts')"
      "r = (if cond_ready t w cond ts then E_OK else E_TIMEDOUT)" "cond_ready t w cond ts \<or> (\<exists>us. cw_timeout w = Some us \<and> us \<le> e)"
proof -
  obtain b c1 ts1 where r: "CondRemoveWaiter c t cond ts = (b, c1, ts1)" by (cases "CondRemoveWaiter c t cond ts")
  show ?thesis
    using assms r that by (auto simp: cond_wait_turn_def split: if_splits option.splits)
qed

lemma queue_wait_turn:
  assumes "queue_ok c cond ts phase" and "phase t = Waiting w" and "cond_wait_turn c t e w cond ts = (out, cond', ts')"
  shows "queue_ok c cond' ts' (phase(t := cond_phase out))"
  using assms(3)
proof (cases rule: cond_wait_turn_cases)
  case sleep_more
  then show ?thesis using assms(1,2) by (simp add: cond_phase_def fun_upd_idem)
next
  case (leave r b)
  then show ?thesis using queue_remove [OF assms(1) leave(2)] by (simp add: cond_phase_def)
qed

text \<open>Entering the queue.\<close>

lemma queue_enter:
  assumes "queue_ok c cond ts phase" and "t \<noteq> 0" and "\<forall>w. phase t \<noteq> Waiting w" and "CondAddWaiter c t cond ts = (cond', ts')"
    and "cw_sequence w = cv_sequence cond" and "cw_thread_sequence w = pt_cond_sequence (ts t)"
  shows "queue_ok c cond' ts' (phase(t := Waiting w)) \<and> \<not> cond_ready t w cond' ts'"
proof -
  have ts': "ts' = ts(t := (ts t)\<lparr>pt_waiting_cond := c\<rparr>)" and ws: "cv_waiters cond' = cv_waiters cond @ [t]"
    and sq: "cv_sequence cond' = cv_sequence cond" using assms(4) by (auto simp: CondAddWaiter_def)
  have t: "t \<notin> set (cv_waiters cond)" by (rule queue_not_waiting [OF assms(1,3)])
  have ready: "cond_ready u w' cond' ts' = cond_ready u w' cond ts" for u w' by (simp add: cond_ready_def ts' sq)
  have new: "\<not> cond_ready t w cond ts" using assms(5,6) by (simp add: cond_ready_def)
  have "queue_ok c cond' ts' (phase(t := Waiting w))"
    using assms(1,2,5) t new unfolding queue_ok_def ready ws sq by (auto simp: ts')
  then show ?thesis using new ready by simp
qed

text \<open>What a call of wait does.\<close>

lemma cond_wait_begin_spec:
  assumes "mutex_ok m" and "queue_ok c cond ts phase" and "t \<noteq> 0" and "\<forall>w. phase t \<noteq> Waiting w"
    and "cond_wait_begin c t timeout cond ts m = Some (out, cond', ts', m')"
  shows "has_locks m t = 0 \<and> out = CondReturned KERNEL_ERROR_EPERM \<and> cond' = cond \<and> ts' = ts \<and> m' = m \<or>
    (\<exists>w. 0 < has_locks m t \<and> mutex_ok m' \<and> mx_type m' = mx_type m \<and> has_locks m' = (has_locks m)(t := 0) \<and>
      w = \<lparr>cw_sequence = cv_sequence cond, cw_thread_sequence = pt_cond_sequence (ts t), cw_recurse = has_locks m t, cw_timeout = timeout\<rparr> \<and>
      queue_ok c cond' ts' (phase(t := cond_phase out)) \<and>
      (out = CondSleeping w \<and> cv_waiters cond' = cv_waiters cond @ [t] \<or> timeout = Some 0 \<and> out = CondRelock E_TIMEDOUT (has_locks m t)))"
proof (cases "mx_owner m = t")
  case False
  then show ?thesis using assms(3,5) by (simp add: cond_wait_begin_def has_locks_def)
next
  case True
  then have pos: "0 < has_locks m t" using assms(1,3) by (simp add: mutex_ok_def has_locks_def)
  obtain c1 ts1 where add: "CondAddWaiter c t cond ts = (c1, ts1)" by (cases "CondAddWaiter c t cond ts")
  define n m1 where "n = mx_count m" and "m1 = m\<lparr>mx_owner := 0, mx_count := 0\<rparr>"
  have u: "NativeMutexUnlock t True m = Some (E_OK, n, m1)" using assms(3) True by (simp add: NativeMutexUnlock_def Let_def n_def m1_def)
  note us = NativeMutexUnlock_spec [OF assms(1,3) u]
  then have n: "n = has_locks m t" "mutex_ok m1" "mx_type m1 = mx_type m" "has_locks m1 = (has_locks m)(t := 0)" using pos by auto
  define w where "w = \<lparr>cw_sequence = cv_sequence cond, cw_thread_sequence = pt_cond_sequence (ts t), cw_recurse = n, cw_timeout = timeout\<rparr>"
  obtain o2 c2 ts2 where turn: "cond_wait_turn c t 0 w c1 ts1 = (o2, c2, ts2)" by (cases "cond_wait_turn c t 0 w c1 ts1")
  have eq: "out = o2" "cond' = c2" "ts' = ts2" "m' = m1"
    using assms(3,5) True add u turn by (simp_all add: cond_wait_begin_def w_def)
  have q: "queue_ok c c1 ts1 (phase(t := Waiting w))" "\<not> cond_ready t w c1 ts1"
    using queue_enter [OF assms(2,3,4) add, of w] by (simp_all add: w_def)
  have q2: "queue_ok c c2 ts2 (phase(t := cond_phase o2))" using queue_wait_turn [OF q(1) _ turn] by simp
  have ws: "cv_waiters c1 = cv_waiters cond @ [t]" using add by (auto simp: CondAddWaiter_def)
  have "o2 = CondSleeping w \<and> c2 = c1 \<or> timeout = Some 0 \<and> o2 = CondRelock E_TIMEDOUT n"
    using turn q(2) by (auto simp: cond_wait_turn_def w_def split: if_splits option.splits)
  then show ?thesis using pos n q2 ws unfolding eq by (intro disjI2 exI [of _ w]) (auto simp: w_def)
qed

text \<open>A signal.\<close>

lemma add64_1_neq: "x < 2 ^ 64 \<Longrightarrow> add64 x 1 \<noteq> x"
proof
  assume x: "x < 2 ^ 64" and e: "add64 x 1 = x"
  show False
  proof (cases "x + 1 < 2 ^ 64")
    case True
    then show False using e by (simp add: add64_def)
  next
    case False
    then have "x + 1 = 2 ^ 64" using x by linarith
    then show False using e by (simp add: add64_def)
  qed
qed

lemma CondWakeWaiter_spec:
  assumes "CondWakeWaiter c t cond ts = (b, cond', ts')" and "queue_ok c cond ts phase"
  defines "v \<equiv> (if t = 0 then hd (cv_waiters cond) else t)"
  shows "if cv_waiters cond = [] \<or> v \<notin> set (cv_waiters cond) then \<not> b \<and> cond' = cond \<and> ts' = ts
    else b \<and> cv_waiters cond' = remove1 v (cv_waiters cond) \<and> cv_sequence cond' = cv_sequence cond \<and> ts' = ts(v := ts' v) \<and>
      pt_cond_sequence (ts' v) = add64 (pt_cond_sequence (ts v)) 1 \<and> pt_waiting_cond (ts' v) = 0"
proof (cases "cv_waiters cond = [] \<or> v \<notin> set (cv_waiters cond)")
  case True
  then show ?thesis using assms(1) by (auto simp: CondWakeWaiter_def v_def Let_def split: if_splits)
next
  case False
  then have "pt_waiting_cond (ts v) = c" using assms(2) by (simp add: queue_ok_def)
  then show ?thesis using assms(1) False unfolding CondWakeWaiter_def v_def [symmetric] Let_def stop_waiting_def by auto
qed

lemma queue_wake:
  assumes "queue_ok c cond ts phase" and "CondWakeWaiter c t cond ts = (b, cond', ts')"
  shows "queue_ok c cond' ts' phase"
proof -
  define v where "v = (if t = 0 then hd (cv_waiters cond) else t)"
  note s = CondWakeWaiter_spec [OF assms(2,1), folded v_def]
  show ?thesis
  proof (cases "cv_waiters cond = [] \<or> v \<notin> set (cv_waiters cond)")
    case True
    then show ?thesis using s assms(1) by auto
  next
    case False
    have q: "distinct (cv_waiters cond)" "0 \<notin> set (cv_waiters cond)"
      "\<And>u. u \<in> set (cv_waiters cond) \<longleftrightarrow> (\<exists>w. phase u = Waiting w \<and> \<not> cond_ready u w cond ts)"
      "\<And>u w. phase u = Waiting w \<Longrightarrow> cw_sequence w \<le> cv_sequence cond" "\<And>u. pt_cond_sequence (ts u) < 2 ^ 64"
      "\<And>u. pt_waiting_cond (ts u) = (if u \<in> set (cv_waiters cond) then c else 0)"
      using assms(1) unfolding queue_ok_def by blast+
    have ws: "cv_waiters cond' = remove1 v (cv_waiters cond)" "cv_sequence cond' = cv_sequence cond"
      and v': "pt_cond_sequence (ts' v) = add64 (pt_cond_sequence (ts v)) 1" "pt_waiting_cond (ts' v) = 0"
      and oth: "\<And>u. u \<noteq> v \<Longrightarrow> ts' u = ts u" using s False by (simp_all, metis fun_upd_other)
    have st: "set (cv_waiters cond') = set (cv_waiters cond) - {v}" unfolding ws(1) using q(1) by (rule set_remove1_eq)
    have rv: "cond_ready v w cond' ts'" if "phase v = Waiting w" for w
    proof -
      have "\<not> cond_ready v w cond ts" using q(3) [of v] False that by auto
      then show ?thesis using add64_1_neq [OF q(5) [of v]] v'(1) by (simp add: cond_ready_def)
    qed
    have ro: "cond_ready u w cond' ts' = cond_ready u w cond ts" if "u \<noteq> v" for u w using oth [OF that] ws(2) by (simp add: cond_ready_def)
    show ?thesis
      unfolding queue_ok_def
    proof (intro conjI allI impI)
      show "distinct (cv_waiters cond')" unfolding ws(1) using q(1) by (rule distinct_remove1)
      show "0 \<notin> set (cv_waiters cond')" using st q(2) by simp
      show "u \<in> set (cv_waiters cond') \<longleftrightarrow> (\<exists>w. phase u = Waiting w \<and> \<not> cond_ready u w cond' ts')" for u
        using q(3) [of u] rv ro [of u] unfolding st by (cases "u = v") auto
      show "cw_sequence w \<le> cv_sequence cond'" if "phase u = Waiting w" for u w using q(4) that ws(2) by simp
      show "pt_cond_sequence (ts' u) < 2 ^ 64" for u using q(5) oth [of u] v'(1) by (cases "u = v") (simp_all add: add64_def)
      show "pt_waiting_cond (ts' u) = (if u \<in> set (cv_waiters cond') then c else 0)" for u
        using q(6) [of u] oth [of u] v'(2) unfolding st by (cases "u = v") auto
    qed
  qed
qed

text \<open>A broadcast.\<close>

lemma fold_stop_waiting:
  fixes ts :: threads
  assumes "0 \<notin> set xs"
  shows "pt_cond_sequence (fold (\<lambda>thread ts. if 0 < thread then stop_waiting c thread ts else ts) xs ts u) = pt_cond_sequence (ts u)"
    and "pt_waiting_cond (fold (\<lambda>thread ts. if 0 < thread then stop_waiting c thread ts else ts) xs ts u) =
      (if u \<in> set xs \<and> pt_waiting_cond (ts u) = c then 0 else pt_waiting_cond (ts u))"
  using assms by (induction xs arbitrary: ts) auto

lemma cond_broadcast_spec:
  assumes "cond_broadcast c cond ts = (b, cond', ts')" and "queue_ok c cond ts phase" and "cv_sequence cond < UINT64_MAX"
  shows "if cv_waiters cond = [] then \<not> b \<and> cond' = cond \<and> ts' = ts
    else b \<and> cv_waiters cond' = [] \<and> cv_sequence cond' = cv_sequence cond + 1 \<and>
      (\<forall>u. pt_cond_sequence (ts' u) = pt_cond_sequence (ts u) \<and> pt_waiting_cond (ts' u) = 0)"
proof -
  have q: "0 \<notin> set (cv_waiters cond)" "\<And>u. pt_waiting_cond (ts u) = (if u \<in> set (cv_waiters cond) then c else 0)"
    using assms(2) unfolding queue_ok_def by blast+
  then show ?thesis using assms(1,3)
    by (auto simp: cond_broadcast_def CondClearWaiters_def fold_stop_waiting split: if_splits)
qed

lemma queue_broadcast:
  assumes "queue_ok c cond ts phase" and "cond_broadcast c cond ts = (b, cond', ts')" and "cv_sequence cond < UINT64_MAX"
  shows "queue_ok c cond' ts' phase"
proof (cases "cv_waiters cond = []")
  case True
  then show ?thesis using cond_broadcast_spec [OF assms(2,1,3)] assms(1) by simp
next
  case False
  have b: "cv_waiters cond' = []" "cv_sequence cond' = cv_sequence cond + 1"
    "\<And>u. pt_cond_sequence (ts' u) = pt_cond_sequence (ts u)" "\<And>u. pt_waiting_cond (ts' u) = 0"
    using cond_broadcast_spec [OF assms(2,1,3)] False by auto
  have q: "\<And>u w. phase u = Waiting w \<Longrightarrow> cw_sequence w \<le> cv_sequence cond" "\<And>u. pt_cond_sequence (ts u) < 2 ^ 64"
    using assms(1) unfolding queue_ok_def by blast+
  have ready: "cond_ready u w cond' ts'" if "phase u = Waiting w" for u w using q(1) [OF that] b(2) by (simp add: cond_ready_def)
  have le: "cw_sequence w \<le> cv_sequence cond'" if "phase u = Waiting w" for u w using q(1) [OF that] b(2) by simp
  show ?thesis unfolding queue_ok_def b(1,3,4) using ready le q(2) by simp
qed

lemma cond_phase_simps [simp]:
  "cond_phase (CondReturned r) = Outside" "cond_phase (CondSleeping w) = Waiting w" "cond_phase (CondRelock r' n) = Relocking r' n"
  by (simp_all add: cond_phase_def)

lemma sync_step_ok:
  assumes "sync_step c y y'" and "sync_ok c y"
  shows "sync_ok c y'"
proof -
  have d: "depths_ok (sy_mutex y) (sy_phase y) (sy_depth y) (sy_saved y)" and q: "queue_ok c (sy_cond y) (sy_threads y) (sy_phase y)"
    using assms(2) by (simp_all add: sync_ok_def)
  show ?thesis using assms(1)
  proof cases
  case (sync_lock t us e out m')
  then show ?thesis using depths_lock [OF d sync_lock(2-4)] queue_phase [OF q, of t]
    by (simp add: sync_ok_def)
next
  case (sync_lock_turn t us e out m')
  then show ?thesis using depths_lock_turn [OF d sync_lock_turn(2,3)] queue_phase [OF q, of t]
    by (simp add: sync_ok_def)
next
  case (sync_trylock t r m')
  then show ?thesis using depths_trylock [OF d sync_trylock(2-4)] q by (simp add: sync_ok_def)
next
  case (sync_unlock t r st m')
  then show ?thesis using depths_unlock [OF d sync_unlock(2-4)] q by (simp add: sync_ok_def)
next
  case (sync_wait t timeout out cond' ts' m')
  have m: "mutex_ok (sy_mutex y)" and h: "has_locks (sy_mutex y) = sy_depth y" using d by (simp_all add: depths_ok_def)
  have nw: "\<forall>w. sy_phase y t \<noteq> Waiting w" using sync_wait(3) by simp
  from cond_wait_begin_spec [OF m q sync_wait(2) nw sync_wait(4)] show ?thesis
  proof (elim disjE exE conjE)
    assume a: "has_locks (sy_mutex y) t = 0" "out = CondReturned KERNEL_ERROR_EPERM" "cond' = sy_cond y" "ts' = sy_threads y" "m' = sy_mutex y"
    have "depths_ok (sy_mutex y) (sy_phase y) (sy_depth y) ((sy_saved y)(t := sy_depth y t))"
      using d sync_wait(3) unfolding depths_ok_def by auto
    then show ?thesis using a q sync_wait(1,3) by (simp add: sync_ok_def fun_upd_idem)
  next
    fix w
    assume a: "0 < has_locks (sy_mutex y) t" "mutex_ok m'" "mx_type m' = mx_type (sy_mutex y)" "has_locks m' = (has_locks (sy_mutex y))(t := 0)"
      "w = \<lparr>cw_sequence = cv_sequence (sy_cond y), cw_thread_sequence = pt_cond_sequence (sy_threads y t), cw_recurse = has_locks (sy_mutex y) t, cw_timeout = timeout\<rparr>"
      "queue_ok c cond' ts' ((sy_phase y)(t := cond_phase out))" "out = CondSleeping w" "cv_waiters cond' = cv_waiters (sy_cond y) @ [t]"
    have "cw_recurse w = has_locks (sy_mutex y) t" by (simp add: a(5))
    then have "depths_ok m' ((sy_phase y)(t := cond_phase out)) ((sy_depth y)(t := 0)) ((sy_saved y)(t := sy_depth y t))"
      by (intro depths_wait [OF d sync_wait(2,3) a(2,3,4,1), where w = w]) (simp_all add: a(7))
    then show ?thesis using a(6,7) sync_wait(1) by (simp add: sync_ok_def)
  next
    fix w
    assume a: "0 < has_locks (sy_mutex y) t" "mutex_ok m'" "mx_type m' = mx_type (sy_mutex y)" "has_locks m' = (has_locks (sy_mutex y))(t := 0)"
      "queue_ok c cond' ts' ((sy_phase y)(t := cond_phase out))" "out = CondRelock E_TIMEDOUT (has_locks (sy_mutex y) t)"
    have "depths_ok m' ((sy_phase y)(t := cond_phase out)) ((sy_depth y)(t := 0)) ((sy_saved y)(t := sy_depth y t))"
      by (intro depths_wait [OF d sync_wait(2,3) a(2,3,4,1), where r = E_TIMEDOUT]) (simp_all add: a(6))
    then show ?thesis using a(5,6) sync_wait(1) by (simp add: sync_ok_def)
  qed
next
  case (sync_wait_turn t w e out cond' ts')
  have "\<exists>r. cond_phase out = Waiting w \<or> cond_phase out = Relocking r (cw_recurse w)"
    using sync_wait_turn(3) by (cases rule: cond_wait_turn_cases) auto
  then have "depths_ok (sy_mutex y) ((sy_phase y)(t := cond_phase out)) (sy_depth y) (sy_saved y)"
    using depths_wait_turn [OF d sync_wait_turn(2)] by blast
  then show ?thesis using queue_wait_turn [OF q sync_wait_turn(2,3)] sync_wait_turn(1) by (simp add: sync_ok_def)
next
  case (sync_relock t r n out m')
  then show ?thesis using depths_relock [OF d sync_relock(2,3)] queue_phase [OF q, of t]
    by (simp add: sync_ok_def)
next
  case (sync_signal thread notify cond' ts')
  then show ?thesis using d queue_wake [OF q] by (simp add: sync_ok_def)
next
  case (sync_broadcast notify cond' ts')
  then show ?thesis using d queue_broadcast [OF q] by (simp add: sync_ok_def)
  qed
qed

lemma sync_reachable_ok: "sync_reachable c y \<Longrightarrow> sync_ok c y"
proof (induction rule: sync_reachable.induct)
  case (sync_new attr clock)
  have "has_locks (new_mutex [] attr) = (\<lambda>t. 0)" using new_mutex_ok(2) by blast
  then show ?case using new_mutex_ok(1) by (simp add: sync_ok_def new_sync_sys_def depths_ok_def queue_ok_def)
next
  case (sync_next y y')
  then show ?case using sync_step_ok by blast
qed

section \<open>Mutual exclusion\<close>

lemma NativeMutexTrylock_result:
  assumes "mutex_ok m" and "t \<noteq> 0"
  shows "\<exists>m'. NativeMutexTrylock t m = Some (
    if \<exists>u. u \<noteq> t \<and> 0 < has_locks m u then E_BUSY
    else if has_locks m t = 0 then E_OK
    else if mx_type m \<noteq> 2 then E_BUSY
    else if has_locks m t = UINT32_MAX then E_AGAIN else E_OK, m')"
  using assms by (cases "mx_owner m = 0") (auto simp: NativeMutexTrylock_def has_locks_def mutex_ok_def)

lemma NativeMutexLock_begin_deadlock:
  "t \<noteq> 0 \<Longrightarrow> 0 < has_locks m t \<Longrightarrow> mx_type m \<noteq> 2 \<Longrightarrow> NativeMutexLock_begin t None e m = Some (LockReturned E_DEADLK, m)"
  by (simp add: NativeMutexLock_begin_def has_locks_def split: if_splits)

lemma NativeMutexLock_turn_free:
  assumes "mutex_ok m"
  shows "fst (NativeMutexLock_turn t us e m) = LockReturned E_OK \<longleftrightarrow> (\<forall>u. has_locks m u = 0)"
  using has_locks_free [OF assms] by (auto simp: NativeMutexLock_turn_def)

lemma NativeMutexUnlock_result:
  assumes "mutex_ok m" and "t \<noteq> 0"
  shows "\<exists>m'. NativeMutexUnlock t False m = Some (if 0 < has_locks m t then E_OK else E_PERM, 0, m') \<and>
    has_locks m' = (has_locks m)(t := has_locks m t - 1)"
  using assms by (auto simp: NativeMutexUnlock_def Let_def has_locks_def mutex_ok_def fun_eq_iff)

text \<open>
  C8: mutual exclusion, at every moment of any number of threads that lock, try, unlock, wait, signal and
  time out: at most one thread holds the mutex, a mutex that is not recursive only once, and the owner and
  count that the code stores are exactly the depth that the threads' calls added up to. So unlocking
  succeeds exactly for a holder, and releases one level, and is EPERM for anyone else; trying succeeds
  exactly when nobody else holds the mutex and the caller may enter (again); the turn of a thread blocked in
  a lock gets the mutex exactly when it is free; and a holder of a mutex that is not recursive that locks it
  again is told EDEADLK instead of waiting for itself.
\<close>

theorem pthread_mutex_exclusive:
  assumes "sync_reachable c y"
  shows "(\<forall>t u. 0 < sy_depth y t \<longrightarrow> 0 < sy_depth y u \<longrightarrow> t = u) \<and>
    (mx_type (sy_mutex y) \<noteq> 2 \<longrightarrow> (\<forall>t. sy_depth y t \<le> 1)) \<and>
    has_locks (sy_mutex y) = sy_depth y \<and>
    (\<forall>t. t \<noteq> 0 \<longrightarrow> (\<exists>m'. NativeMutexUnlock t False (sy_mutex y) = Some (if 0 < sy_depth y t then E_OK else E_PERM, 0, m') \<and>
      has_locks m' = (sy_depth y)(t := sy_depth y t - 1))) \<and>
    (\<forall>t. t \<noteq> 0 \<longrightarrow> (\<exists>m'. NativeMutexTrylock t (sy_mutex y) = Some (
      if \<exists>u. u \<noteq> t \<and> 0 < sy_depth y u then E_BUSY
      else if sy_depth y t = 0 then E_OK
      else if mx_type (sy_mutex y) \<noteq> 2 then E_BUSY
      else if sy_depth y t = UINT32_MAX then E_AGAIN else E_OK, m'))) \<and>
    (\<forall>t us e. sy_phase y t = Locking us \<longrightarrow>
      (fst (NativeMutexLock_turn t us e (sy_mutex y)) = LockReturned E_OK \<longleftrightarrow> (\<forall>u. sy_depth y u = 0))) \<and>
    (\<forall>t e. 0 < sy_depth y t \<longrightarrow> mx_type (sy_mutex y) \<noteq> 2 \<longrightarrow>
      NativeMutexLock_begin t None e (sy_mutex y) = Some (LockReturned E_DEADLK, sy_mutex y))"
proof -
  have m: "mutex_ok (sy_mutex y)" and h: "has_locks (sy_mutex y) = sy_depth y"
    using sync_reachable_ok [OF assms] by (simp_all add: sync_ok_def depths_ok_def)
  have one: "mx_type (sy_mutex y) \<noteq> 2 \<Longrightarrow> sy_depth y t \<le> 1" for t
    using m unfolding h [symmetric] by (simp add: has_locks_def mutex_ok_def)
  have nz: "0 < sy_depth y t \<Longrightarrow> t \<noteq> 0" for t unfolding h [symmetric] by (simp add: has_locks_def split: if_splits)
  show ?thesis
  proof (intro conjI allI impI)
    show "t = u" if "0 < sy_depth y t" "0 < sy_depth y u" for t u using has_locks_unique [OF m] that unfolding h by blast
    show "\<exists>m'. NativeMutexUnlock t False (sy_mutex y) = Some (if 0 < sy_depth y t then E_OK else E_PERM, 0, m') \<and>
      has_locks m' = (sy_depth y)(t := sy_depth y t - 1)" if "t \<noteq> 0" for t using NativeMutexUnlock_result [OF m that] unfolding h .
    show "\<exists>m'. NativeMutexTrylock t (sy_mutex y) = Some (if \<exists>u. u \<noteq> t \<and> 0 < sy_depth y u then E_BUSY
      else if sy_depth y t = 0 then E_OK else if mx_type (sy_mutex y) \<noteq> 2 then E_BUSY
      else if sy_depth y t = UINT32_MAX then E_AGAIN else E_OK, m')" if "t \<noteq> 0" for t using NativeMutexTrylock_result [OF m that] unfolding h .
  qed (use one h nz NativeMutexLock_turn_free [OF m] NativeMutexLock_begin_deadlock [of _ "sy_mutex y"] in simp_all)
qed

section \<open>No wake-up is lost\<close>

lemma cond_wait_turn_fst:
  "fst (cond_wait_turn c t e w cond ts) =
    (if cond_ready t w cond ts then CondRelock E_OK (cw_recurse w)
     else if \<exists>us. cw_timeout w = Some us \<and> us \<le> e then CondRelock E_TIMEDOUT (cw_recurse w) else CondSleeping w)"
  by (auto simp: cond_wait_turn_def split: option.splits)

lemma cond_signal_ready:
  assumes "queue_ok c cond ts phase" and "cond_signal c cond ts = (b, cond', ts')"
  shows "b = (cv_waiters cond \<noteq> []) \<and> cv_waiters cond' = tl (cv_waiters cond) \<and>
    (\<forall>u w. phase u = Waiting w \<longrightarrow> (cond_ready u w cond' ts' \<longleftrightarrow> cond_ready u w cond ts \<or> cv_waiters cond \<noteq> [] \<and> u = hd (cv_waiters cond)))"
proof (cases "cv_waiters cond")
  case Nil
  then show ?thesis using CondWakeWaiter_spec [OF assms(2) [unfolded cond_signal_def] assms(1)] by simp
next
  case (Cons v rest)
  have s: "b" "cv_waiters cond' = rest" "cv_sequence cond' = cv_sequence cond" "ts' = ts(v := ts' v)"
    "pt_cond_sequence (ts' v) = add64 (pt_cond_sequence (ts v)) 1"
    using CondWakeWaiter_spec [OF assms(2) [unfolded cond_signal_def] assms(1)] Cons by simp_all
  have other: "pt_cond_sequence (ts' u) = pt_cond_sequence (ts u)" if "u \<noteq> v" for u using s(4) that by (metis fun_upd_other)
  have v: "\<exists>w. phase v = Waiting w \<and> \<not> cond_ready v w cond ts" and lt: "pt_cond_sequence (ts v) < 2 ^ 64"
    using assms(1) Cons unfolding queue_ok_def by auto
  have rv: "cond_ready v w cond' ts'" if "phase v = Waiting w" for w
    using v that add64_1_neq [OF lt] by (auto simp: cond_ready_def s(3,5))
  have ru: "cond_ready u w cond' ts' = cond_ready u w cond ts" if "u \<noteq> v" for u w using other [OF that] s(3) by (simp add: cond_ready_def)
  show ?thesis using s(1,2) Cons rv ru by (metis list.sel(1,3) list.distinct(1))
qed

lemma cond_broadcast_ready:
  assumes "queue_ok c cond ts phase" and "cond_broadcast c cond ts = (b, cond', ts')" and "cv_sequence cond < UINT64_MAX"
  shows "b = (cv_waiters cond \<noteq> []) \<and> cv_waiters cond' = [] \<and> (\<forall>u w. phase u = Waiting w \<longrightarrow> cond_ready u w cond' ts')"
proof -
  note q' = queue_broadcast [OF assms]
  have "cv_waiters cond' = []" "b = (cv_waiters cond \<noteq> [])"
    using cond_broadcast_spec [OF assms(2,1,3)] by (auto split: if_splits)
  then show ?thesis using q' unfolding queue_ok_def by auto
qed

text \<open>
  C9: no wake-up is lost and none is invented, whatever the interleaving. The queue of the condition
  variable holds exactly the threads that wait and have not been woken. A signal wakes its first thread and
  no other, and a broadcast everyone who waits, also threads whose turn has not come yet. The turn of a
  waiting thread ends its wait with success exactly when it has been woken, with ETIMEDOUT exactly when it
  has not and its time is up, and it sleeps on otherwise. And whoever has left the wait gets the mutex back
  as soon as it is free, to the depth at which it held it before.
\<close>

theorem cond_no_lost_wakeup:
  assumes "sync_reachable c y"
  shows "(\<forall>t. t \<in> set (cv_waiters (sy_cond y)) \<longleftrightarrow> (\<exists>w. sy_phase y t = Waiting w \<and> \<not> cond_ready t w (sy_cond y) (sy_threads y))) \<and>
    (\<forall>b cond' ts'. cond_signal c (sy_cond y) (sy_threads y) = (b, cond', ts') \<longrightarrow>
      cv_waiters cond' = tl (cv_waiters (sy_cond y)) \<and>
      (\<forall>u w. sy_phase y u = Waiting w \<longrightarrow> (cond_ready u w cond' ts' \<longleftrightarrow>
        cond_ready u w (sy_cond y) (sy_threads y) \<or> cv_waiters (sy_cond y) \<noteq> [] \<and> u = hd (cv_waiters (sy_cond y))))) \<and>
    (\<forall>b cond' ts'. cv_sequence (sy_cond y) < UINT64_MAX \<longrightarrow> cond_broadcast c (sy_cond y) (sy_threads y) = (b, cond', ts') \<longrightarrow>
      cv_waiters cond' = [] \<and> (\<forall>u w. sy_phase y u = Waiting w \<longrightarrow> cond_ready u w cond' ts')) \<and>
    (\<forall>t w e. sy_phase y t = Waiting w \<longrightarrow>
      fst (cond_wait_turn c t e w (sy_cond y) (sy_threads y)) =
        (if cond_ready t w (sy_cond y) (sy_threads y) then CondRelock E_OK (sy_saved y t)
         else if \<exists>us. cw_timeout w = Some us \<and> us \<le> e then CondRelock E_TIMEDOUT (sy_saved y t) else CondSleeping w)) \<and>
    (\<forall>t r n. sy_phase y t = Relocking r n \<longrightarrow>
      (\<exists>out m'. NativeMutexLockRecurse_turn t n (sy_mutex y) = (out, m') \<and>
        (if \<forall>u. sy_depth y u = 0 then out = LockReturned E_OK \<and> has_locks m' = (sy_depth y)(t := sy_saved y t)
         else out = LockWaiting \<and> m' = sy_mutex y)))"
proof -
  have d: "depths_ok (sy_mutex y) (sy_phase y) (sy_depth y) (sy_saved y)" and q: "queue_ok c (sy_cond y) (sy_threads y) (sy_phase y)"
    using sync_reachable_ok [OF assms] by (simp_all add: sync_ok_def)
  have m: "mutex_ok (sy_mutex y)" "has_locks (sy_mutex y) = sy_depth y" using d by (simp_all add: depths_ok_def)
  have saved: "cw_recurse w = sy_saved y t" if "sy_phase y t = Waiting w" for t w using d that by (simp add: depths_ok_def)
  have relock: "\<exists>out m'. NativeMutexLockRecurse_turn t n (sy_mutex y) = (out, m') \<and>
      (if \<forall>u. sy_depth y u = 0 then out = LockReturned E_OK \<and> has_locks m' = (sy_depth y)(t := sy_saved y t)
       else out = LockWaiting \<and> m' = sy_mutex y)" if p: "sy_phase y t = Relocking r n" for t r n
  proof -
    have n1: "n = sy_saved y t" "t \<noteq> 0" using d p depths_busy [OF d, of t] by (simp_all add: depths_ok_def)
    have n: "1 \<le> n" "n \<le> UINT32_MAX" "mx_type (sy_mutex y) \<noteq> 2 \<Longrightarrow> n = 1" using d p unfolding depths_ok_def n1(1) by blast+
    obtain out m' where e: "NativeMutexLockRecurse_turn t n (sy_mutex y) = (out, m')" by (cases "NativeMutexLockRecurse_turn t n (sy_mutex y)")
    show ?thesis using NativeMutexLockRecurse_turn_spec [OF m(1) n1(2) n e] has_locks_free [OF m(1)] e n1(1) unfolding m(2) by auto
  qed
  show ?thesis
  proof (intro conjI)
    show "\<forall>t. t \<in> set (cv_waiters (sy_cond y)) \<longleftrightarrow> (\<exists>w. sy_phase y t = Waiting w \<and> \<not> cond_ready t w (sy_cond y) (sy_threads y))"
      using q unfolding queue_ok_def by blast
  qed (use cond_signal_ready [OF q] cond_broadcast_ready [OF q] saved relock in \<open>auto simp: cond_wait_turn_fst\<close>)
qed

text \<open>A reachable state for the examples: thread 5 has locked the mutex; then it waits.\<close>

definition example_locked :: sync_sys where
  "example_locked = (new_sync_sys new_mutexattr 0)\<lparr>sy_mutex := \<lparr>mx_name = [], mx_owner = 5, mx_count = 1, mx_type = 0, mx_pprotocol = PTHREAD_PRIO_NONE\<rparr>,
     sy_phase := (\<lambda>t. Outside)(5 := Outside), sy_depth := (\<lambda>t. 0)(5 := 1)\<rparr>"

lemma example_locked_reachable: "sync_reachable 1 example_locked"
proof -
  have "sync_step 1 (new_sync_sys new_mutexattr 0) example_locked"
    using sync_lock [of 5 "new_sync_sys new_mutexattr 0" None 0 "LockReturned E_OK" "sy_mutex example_locked" 1]
    by (simp add: example_locked_def new_sync_sys_def new_mutex_def new_mutexattr_def NativeMutexLock_begin_def NativeMutexLock_turn_def)
  then show ?thesis using sync_next [OF sync_new] by blast
qed

definition example_wait :: cond_wait where
  "example_wait = \<lparr>cw_sequence = 0, cw_thread_sequence = 0, cw_recurse = 1, cw_timeout = None\<rparr>"

definition example_waiting :: sync_sys where
  "example_waiting = example_locked\<lparr>sy_mutex := (sy_mutex example_locked)\<lparr>mx_owner := 0, mx_count := 0\<rparr>,
     sy_cond := (sy_cond example_locked)\<lparr>cv_waiters := [5]\<rparr>,
     sy_threads := (sy_threads example_locked)(5 := \<lparr>pt_cond_sequence = 0, pt_waiting_cond = 1\<rparr>),
     sy_phase := (sy_phase example_locked)(5 := Waiting example_wait), sy_depth := (sy_depth example_locked)(5 := 0),
     sy_saved := (sy_saved example_locked)(5 := 1)\<rparr>"

lemma example_waiting_reachable: "sync_reachable 1 example_waiting"
proof -
  have "sync_step 1 example_locked example_waiting"
    using sync_wait [of 5 example_locked 1 None "CondSleeping example_wait" "sy_cond example_waiting" "sy_threads example_waiting" "sy_mutex example_waiting"]
    by (simp add: example_waiting_def example_locked_def new_sync_sys_def example_wait_def cond_wait_begin_def CondAddWaiter_def
        NativeMutexUnlock_def cond_wait_turn_def cond_ready_def)
  then show ?thesis using sync_next [OF example_locked_reachable] by blast
qed

lemma pthread_mutex_exclusive_witness:
  "sy_depth example_locked 5 = 1 \<and> (\<exists>m'. NativeMutexTrylock 6 (sy_mutex example_locked) = Some (E_BUSY, m')) \<and>
    NativeMutexLock_begin 5 None 0 (sy_mutex example_locked) = Some (LockReturned E_DEADLK, sy_mutex example_locked)"
proof -
  have d: "sy_depth example_locked 5 = 1" "mx_type (sy_mutex example_locked) \<noteq> 2" by (simp_all add: example_locked_def)
  then have u: "\<exists>u::nat. u \<noteq> 6 \<and> 0 < sy_depth example_locked u" by (intro exI [of _ 5]) simp
  note all = pthread_mutex_exclusive [OF example_locked_reachable]
  have "\<exists>m'. NativeMutexTrylock 6 (sy_mutex example_locked) = Some (E_BUSY, m')"
    using all [THEN conjunct2, THEN conjunct2, THEN conjunct2, THEN conjunct2, THEN conjunct1, rule_format, of 6] u by simp
  moreover have "NativeMutexLock_begin 5 None 0 (sy_mutex example_locked) = Some (LockReturned E_DEADLK, sy_mutex example_locked)"
    using all [THEN conjunct2, THEN conjunct2, THEN conjunct2, THEN conjunct2, THEN conjunct2, THEN conjunct2, rule_format, of 5] d by simp
  ultimately show ?thesis using d(1) by simp
qed

lemma cond_no_lost_wakeup_witness:
  "sy_phase example_waiting 5 = Waiting example_wait \<and>
   (case cond_signal 1 (sy_cond example_waiting) (sy_threads example_waiting) of (b, cond', ts') \<Rightarrow>
     cv_waiters cond' = [] \<and> cond_ready 5 example_wait cond' ts')"
proof -
  have p: "sy_phase example_waiting 5 = Waiting example_wait" "cv_waiters (sy_cond example_waiting) = [5]"
    by (simp_all add: example_waiting_def)
  obtain b cond' ts' where e: "cond_signal 1 (sy_cond example_waiting) (sy_threads example_waiting) = (b, cond', ts')"
    by (cases "cond_signal 1 (sy_cond example_waiting) (sy_threads example_waiting)")
  show ?thesis unfolding e prod.case
    using cond_no_lost_wakeup [OF example_waiting_reachable, THEN conjunct2, THEN conjunct1, rule_format, OF e] p by simp
qed

end
