(* ===== verification/PthreadRwlock.thy ===== *)
theory PthreadRwlock
  imports PthreadMutex
begin

text \<open>
  The read-write locks of the guest's threads (src/src/kernel/pthread.cpp). A lock has a writer, or none, and
  a list of the threads that read, each with the number of times; the writer may also read. A thread that
  waits to write is counted in \<open>waiting_writers\<close>, and threads that do not read yet wait behind it.

  Every passage through the loop of \<open>RwlockLockCooperative\<close> is one critical section of the lock's mutex and
  one step of the model. Threads are addresses, 0 for none; counters are 32 bits wide.
\<close>

definition add32 :: "nat \<Rightarrow> nat \<Rightarrow> nat" where "add32 a b = (a + b) mod 2 ^ 32"
definition sub32 :: "nat \<Rightarrow> nat \<Rightarrow> nat" where "sub32 a b = (a + (2 ^ 32 - b mod 2 ^ 32)) mod 2 ^ 32"

lemma add32_1 [simp]: "a < UINT32_MAX \<Longrightarrow> add32 a (Suc 0) = Suc a"
  by (simp add: add32_def)

lemma sub32_1 [simp]: "0 < a \<Longrightarrow> a \<le> UINT32_MAX \<Longrightarrow> sub32 a (Suc 0) = a - 1"
proof -
  assume a: "0 < a" "a \<le> UINT32_MAX"
  have "a + (2 ^ 32 - Suc 0 mod 2 ^ 32) = (a - 1) + 2 ^ 32" using a(1) by simp
  then have "sub32 a (Suc 0) = (a - 1) mod 2 ^ 32" unfolding sub32_def by (simp only: mod_add_self2)
  then show ?thesis using a by simp
qed

record PthreadRwlockPrivate =
  rw_name :: string
  rw_writer :: nat
  rw_writer_count :: nat
  rw_reader_count :: nat
  rw_waiting_writers :: nat
  rw_readers :: "(nat \<times> nat) list"

section \<open>The operations on the lock\<close>

text \<open>The position of a thread's entry.\<close>

primrec reader_at :: "nat \<Rightarrow> (nat \<times> nat) list \<Rightarrow> nat option" where
  "reader_at thread [] = None"
| "reader_at thread (r # rs) = (if fst r = thread then Some 0 else map_option Suc (reader_at thread rs))"

definition RwlockFindReader :: "PthreadRwlockPrivate \<Rightarrow> nat \<Rightarrow> nat option" where
  "RwlockFindReader rw thread = reader_at thread (rw_readers rw)"

definition RwlockAddReader :: "nat \<Rightarrow> PthreadRwlockPrivate \<Rightarrow> PthreadRwlockPrivate" where
  "RwlockAddReader thread rw =
     rw\<lparr>rw_readers := (case RwlockFindReader rw thread of
          Some i \<Rightarrow> (rw_readers rw)[i := (fst (rw_readers rw ! i), add32 (snd (rw_readers rw ! i)) 1)]
        | None \<Rightarrow> rw_readers rw @ [(thread, 1)]),
        rw_reader_count := add32 (rw_reader_count rw) 1\<rparr>"

primrec remove_reader :: "nat \<Rightarrow> (nat \<times> nat) list \<Rightarrow> (nat \<times> nat) list option" where
  "remove_reader thread [] = None"
| "remove_reader thread (r # rs) =
     (if fst r = thread
      then Some (if sub32 (snd r) 1 = 0 then rs else (fst r, sub32 (snd r) 1) # rs)
      else map_option ((#) r) (remove_reader thread rs))"

definition RwlockRemoveReader :: "nat \<Rightarrow> PthreadRwlockPrivate \<Rightarrow> bool \<times> PthreadRwlockPrivate" where
  "RwlockRemoveReader thread rw =
     (case remove_reader thread (rw_readers rw) of
        None \<Rightarrow> (False, rw)
      | Some rs \<Rightarrow> (True, rw\<lparr>rw_readers := rs, rw_reader_count := sub32 (rw_reader_count rw) 1\<rparr>))"

definition may_read :: "nat \<Rightarrow> PthreadRwlockPrivate \<Rightarrow> bool" where
  "may_read self rw \<longleftrightarrow>
     rw_writer rw = 0 \<and> (rw_waiting_writers rw = 0 \<or> RwlockFindReader rw self \<noteq> None) \<or> rw_writer rw = self"

definition take_write :: "nat \<Rightarrow> PthreadRwlockPrivate \<Rightarrow> PthreadRwlockPrivate" where
  "take_write self rw = rw\<lparr>rw_writer := self, rw_writer_count := 1\<rparr>"

definition unregister_writer_wait :: "bool \<Rightarrow> PthreadRwlockPrivate \<Rightarrow> PthreadRwlockPrivate" where
  "unregister_writer_wait registered rw =
     (if registered then rw\<lparr>rw_waiting_writers := sub32 (rw_waiting_writers rw) 1\<rparr> else rw)"

text \<open>
  One passage through the loop; the sleeping thread keeps whether it is registered as a waiting writer. A
  time-out of 0 counts as over.
\<close>

datatype rw_outcome = RwReturned int | RwSleeping bool

definition rw_timeout :: "nat option \<Rightarrow> nat \<Rightarrow> bool \<Rightarrow> PthreadRwlockPrivate \<Rightarrow> rw_outcome \<times> PthreadRwlockPrivate" where
  "rw_timeout timeout_us elapsed registered rw =
     (if (case timeout_us of None \<Rightarrow> False | Some us \<Rightarrow> us = 0 \<or> elapsed \<ge> us)
      then (RwReturned KERNEL_ERROR_ETIMEDOUT, unregister_writer_wait registered rw)
      else (RwSleeping registered, rw))"

definition RwlockLockCooperative_turn ::
  "nat \<Rightarrow> bool \<Rightarrow> nat option \<Rightarrow> nat \<Rightarrow> bool \<Rightarrow> PthreadRwlockPrivate \<Rightarrow> rw_outcome \<times> PthreadRwlockPrivate" where
  "RwlockLockCooperative_turn self write timeout_us elapsed registered rw =
     (if write then
        (if rw_writer rw = self \<or> RwlockFindReader rw self \<noteq> None
         then (RwReturned KERNEL_ERROR_EDEADLK, unregister_writer_wait registered rw)
         else if rw_writer rw = 0 \<and> rw_reader_count rw = 0
         then (RwReturned OK, take_write self (unregister_writer_wait registered rw))
         else rw_timeout timeout_us elapsed True
           (if registered then rw else rw\<lparr>rw_waiting_writers := add32 (rw_waiting_writers rw) 1\<rparr>))
      else
        (if may_read self rw then (RwReturned OK, RwlockAddReader self rw)
         else rw_timeout timeout_us elapsed registered rw))"

definition RwlockLockCooperative_begin ::
  "nat \<Rightarrow> bool \<Rightarrow> nat option \<Rightarrow> nat \<Rightarrow> PthreadRwlockPrivate \<Rightarrow> rw_outcome \<times> PthreadRwlockPrivate" where
  "RwlockLockCooperative_begin self write timeout_us elapsed rw =
     (if self = 0 then (RwReturned KERNEL_ERROR_EINVAL, rw)
      else RwlockLockCooperative_turn self write timeout_us elapsed False rw)"

definition rw_tryrdlock :: "nat \<Rightarrow> PthreadRwlockPrivate \<Rightarrow> int \<times> PthreadRwlockPrivate" where
  "rw_tryrdlock self rw =
     (if self = 0 then (KERNEL_ERROR_EINVAL, rw)
      else if may_read self rw then (OK, RwlockAddReader self rw)
      else (KERNEL_ERROR_EBUSY, rw))"

definition rw_trywrlock :: "nat \<Rightarrow> PthreadRwlockPrivate \<Rightarrow> int \<times> PthreadRwlockPrivate" where
  "rw_trywrlock self rw =
     (if self = 0 then (KERNEL_ERROR_EINVAL, rw)
      else if rw_writer rw = self \<or> RwlockFindReader rw self \<noteq> None then (KERNEL_ERROR_EDEADLK, rw)
      else if rw_writer rw = 0 \<and> rw_reader_count rw = 0 then (OK, take_write self rw)
      else (KERNEL_ERROR_EBUSY, rw))"

definition rw_unlock :: "nat \<Rightarrow> PthreadRwlockPrivate \<Rightarrow> (int \<times> PthreadRwlockPrivate) option" where
  "rw_unlock self rw =
     (if self = 0 then Some (KERNEL_ERROR_EINVAL, rw)
      else case RwlockRemoveReader self rw of
        (True, rw') \<Rightarrow> Some (OK, rw')
      | (False, _) \<Rightarrow>
          if rw_writer rw = self then
            (if rw_writer_count rw = 0 then None
             else let n = sub32 (rw_writer_count rw) 1 in
               Some (OK, rw\<lparr>rw_writer_count := n, rw_writer := (if n = 0 then 0 else rw_writer rw)\<rparr>))
          else Some (KERNEL_ERROR_EPERM, rw))"

section \<open>The calls\<close>

definition new_rwlock :: "string \<Rightarrow> PthreadRwlockPrivate" where
  "new_rwlock name = \<lparr>rw_name = name, rw_writer = 0, rw_writer_count = 0, rw_reader_count = 0, rw_waiting_writers = 0, rw_readers = []\<rparr>"

definition PthreadRwlockInitNamed :: "bool \<Rightarrow> string option \<Rightarrow> PthreadRwlockPrivate slot \<Rightarrow> int \<times> PthreadRwlockPrivate slot" where
  "PthreadRwlockInitNamed rwlock_null name s =
     (if rwlock_null then (KERNEL_ERROR_EINVAL, s)
      else (OK, SlotAt (new_rwlock (case name of None \<Rightarrow> [] | Some nm \<Rightarrow> nm))))"

definition PthreadRwlockInit :: "bool \<Rightarrow> PthreadRwlockPrivate slot \<Rightarrow> int \<times> PthreadRwlockPrivate slot" where
  "PthreadRwlockInit rwlock_null s = PthreadRwlockInitNamed rwlock_null (Some []) s"

text \<open>Waiting threads do not keep a lock from being destroyed. None: a lock that was never made (\<open>EXIT\<close>).\<close>

definition PthreadRwlockDestroy :: "bool \<Rightarrow> PthreadRwlockPrivate slot \<Rightarrow> (int \<times> PthreadRwlockPrivate slot) option" where
  "PthreadRwlockDestroy rwlock_null s =
     (if rwlock_null then Some (KERNEL_ERROR_EINVAL, s)
      else case s of
        SlotAt rw \<Rightarrow> Some (if rw_writer rw \<noteq> 0 \<or> rw_reader_count rw \<noteq> 0 then (KERNEL_ERROR_EBUSY, s) else (OK, SlotNull))
      | _ \<Rightarrow> None)"

text \<open>
  \<open>Rdlock\<close>, \<open>Wrlock\<close> and \<open>Unlock\<close> make the lock of a static initialiser; the other calls exit on one.
\<close>

definition static_rwlock :: "string \<Rightarrow> PthreadRwlockPrivate slot \<Rightarrow> PthreadRwlockPrivate option" where
  "static_rwlock name s = (case CreateObject False (\<lambda>static_type. new_rwlock name) s of SlotAt rw \<Rightarrow> Some rw | _ \<Rightarrow> None)"

definition made_rwlock :: "PthreadRwlockPrivate slot \<Rightarrow> PthreadRwlockPrivate option" where
  "made_rwlock s = (case s of SlotAt rw \<Rightarrow> Some rw | _ \<Rightarrow> None)"

definition on_rwlock ::
  "(PthreadRwlockPrivate slot \<Rightarrow> PthreadRwlockPrivate option) \<Rightarrow> bool \<Rightarrow> (PthreadRwlockPrivate \<Rightarrow> ('a \<times> PthreadRwlockPrivate) option) \<Rightarrow>
   'a \<Rightarrow> PthreadRwlockPrivate slot \<Rightarrow> ('a \<times> PthreadRwlockPrivate slot) option" where
  "on_rwlock get rwlock_null f inval s =
     (if rwlock_null then Some (inval, s)
      else do { rw \<leftarrow> get s; (r, rw') \<leftarrow> f rw; Some (r, SlotAt rw') })"

definition PthreadRwlockRdlock where
  "PthreadRwlockRdlock self name rwlock_null =
     on_rwlock (static_rwlock name) rwlock_null (\<lambda>rw. Some (RwlockLockCooperative_begin self False None 0 rw)) (RwReturned KERNEL_ERROR_EINVAL)"

definition PthreadRwlockWrlock where
  "PthreadRwlockWrlock self name rwlock_null =
     on_rwlock (static_rwlock name) rwlock_null (\<lambda>rw. Some (RwlockLockCooperative_begin self True None 0 rw)) (RwReturned KERNEL_ERROR_EINVAL)"

definition PthreadRwlockTimedrdlock where
  "PthreadRwlockTimedrdlock self rwlock_null usec =
     on_rwlock made_rwlock rwlock_null (\<lambda>rw. Some (RwlockLockCooperative_begin self False (Some usec) 0 rw)) (RwReturned KERNEL_ERROR_EINVAL)"

definition PthreadRwlockTimedwrlock where
  "PthreadRwlockTimedwrlock self rwlock_null usec =
     on_rwlock made_rwlock rwlock_null (\<lambda>rw. Some (RwlockLockCooperative_begin self True (Some usec) 0 rw)) (RwReturned KERNEL_ERROR_EINVAL)"

definition PthreadRwlockTryrdlock where
  "PthreadRwlockTryrdlock self rwlock_null = on_rwlock made_rwlock rwlock_null (\<lambda>rw. Some (rw_tryrdlock self rw)) KERNEL_ERROR_EINVAL"

definition PthreadRwlockTrywrlock where
  "PthreadRwlockTrywrlock self rwlock_null = on_rwlock made_rwlock rwlock_null (\<lambda>rw. Some (rw_trywrlock self rw)) KERNEL_ERROR_EINVAL"

definition PthreadRwlockUnlock where
  "PthreadRwlockUnlock self name rwlock_null = on_rwlock (static_rwlock name) rwlock_null (rw_unlock self) KERNEL_ERROR_EINVAL"

section \<open>What a lock is\<close>

text \<open>
  The specification of a read-write lock: how often each thread reads, whether it writes, and how many
  threads wait to write. \<open>rwlock_ok\<close> is the invariant of the representation.
\<close>

definition reads :: "PthreadRwlockPrivate \<Rightarrow> nat \<Rightarrow> nat" where
  "reads rw t = (case map_of (rw_readers rw) t of None \<Rightarrow> 0 | Some n \<Rightarrow> n)"

definition writes :: "PthreadRwlockPrivate \<Rightarrow> nat \<Rightarrow> bool" where
  "writes rw t \<longleftrightarrow> t \<noteq> 0 \<and> rw_writer rw = t"

definition readers_ok :: "(nat \<times> nat) list \<Rightarrow> bool" where
  "readers_ok rs \<longleftrightarrow> distinct (map fst rs) \<and> (\<forall>(t, n) \<in> set rs. t \<noteq> 0 \<and> 0 < n)"

definition rwlock_ok :: "PthreadRwlockPrivate \<Rightarrow> bool" where
  "rwlock_ok rw \<longleftrightarrow> readers_ok (rw_readers rw) \<and> rw_reader_count rw = sum_list (map snd (rw_readers rw)) \<and>
     rw_reader_count rw \<le> UINT32_MAX \<and> rw_writer_count rw = (if rw_writer rw = 0 then 0 else 1) \<and>
     (rw_writer rw \<noteq> 0 \<longrightarrow> fst ` set (rw_readers rw) \<subseteq> {rw_writer rw})"

definition count_in :: "(nat \<times> nat) list \<Rightarrow> nat \<Rightarrow> nat" where
  "count_in rs t = (case map_of rs t of None \<Rightarrow> 0 | Some n \<Rightarrow> n)"

lemma reads_count_in: "reads rw = count_in (rw_readers rw)"
  by (simp add: reads_def count_in_def fun_eq_iff)

lemma count_in_simps [simp]:
  "count_in [] t = 0" "count_in (r # rs) t = (if fst r = t then snd r else count_in rs t)"
  by (cases r, auto simp: count_in_def)

lemma readers_ok_simps [simp]:
  "readers_ok []" "readers_ok (r # rs) \<longleftrightarrow> fst r \<notin> fst ` set rs \<and> fst r \<noteq> 0 \<and> 0 < snd r \<and> readers_ok rs"
  by (cases r, auto simp: readers_ok_def)

lemma reader_at_None: "reader_at t rs = None \<longleftrightarrow> t \<notin> fst ` set rs"
  by (induction rs) auto

lemma count_in_pos: "readers_ok rs \<Longrightarrow> 0 < count_in rs t \<longleftrightarrow> t \<in> fst ` set rs"
  by (induction rs) auto

lemma count_in_notin: "t \<notin> fst ` set rs \<Longrightarrow> count_in rs t = 0"
  by (induction rs) auto

lemma count_in_le: "readers_ok rs \<Longrightarrow> count_in rs t \<le> sum_list (map snd rs)"
  by (induction rs) auto

lemma find_reader_iff: "rwlock_ok rw \<Longrightarrow> RwlockFindReader rw t \<noteq> None \<longleftrightarrow> 0 < reads rw t"
  by (simp add: RwlockFindReader_def reader_at_None reads_count_in count_in_pos rwlock_ok_def)

lemma no_readers_iff: "rwlock_ok rw \<Longrightarrow> rw_reader_count rw = 0 \<longleftrightarrow> (\<forall>t. reads rw t = 0)"
proof -
  have "readers_ok rs \<Longrightarrow> sum_list (map snd rs) = 0 \<longleftrightarrow> (\<forall>t. count_in rs t = 0)" for rs
    by (cases rs) auto
  then show "rwlock_ok rw \<Longrightarrow> ?thesis" by (simp add: rwlock_ok_def reads_count_in)
qed

text \<open>Adding and removing a reader.\<close>

lemma reader_at_update:
  assumes "reader_at t rs = Some i" and "readers_ok rs" and "sum_list (map snd rs) < UINT32_MAX"
  shows "readers_ok (rs[i := (fst (rs ! i), add32 (snd (rs ! i)) 1)]) \<and>
    fst ` set (rs[i := (fst (rs ! i), add32 (snd (rs ! i)) 1)]) = fst ` set rs \<and>
    sum_list (map snd (rs[i := (fst (rs ! i), add32 (snd (rs ! i)) 1)])) = sum_list (map snd rs) + 1 \<and>
    count_in (rs[i := (fst (rs ! i), add32 (snd (rs ! i)) 1)]) = (count_in rs)(t := count_in rs t + 1)"
  using assms
proof (induction rs arbitrary: i)
  case (Cons r rs)
  show ?case
  proof (cases "fst r = t")
    case True
    then show ?thesis using Cons.prems by (auto simp: fun_eq_iff)
  next
    case False
    then obtain j where j: "i = Suc j" "reader_at t rs = Some j" using Cons.prems(1) by auto
    have "readers_ok rs" "sum_list (map snd rs) < UINT32_MAX" using Cons.prems(2,3) by auto
    note ih = Cons.IH [OF j(2) this]
    show ?thesis using ih Cons.prems(2) False unfolding j(1) by (auto simp: fun_eq_iff)
  qed
qed simp

lemma append_reader:
  assumes "t \<notin> fst ` set rs" and "readers_ok rs" and "t \<noteq> 0"
  shows "readers_ok (rs @ [(t, 1)]) \<and> count_in (rs @ [(t, 1)]) = (count_in rs)(t := count_in rs t + 1)"
  using assms by (induction rs) (auto simp: fun_eq_iff)

lemma RwlockAddReader_spec:
  assumes "rwlock_ok rw" and "t \<noteq> 0" and "rw_writer rw = 0 \<or> rw_writer rw = t" and "rw_reader_count rw < UINT32_MAX"
  shows "rwlock_ok (RwlockAddReader t rw) \<and> reads (RwlockAddReader t rw) = (reads rw)(t := reads rw t + 1) \<and>
    writes (RwlockAddReader t rw) = writes rw \<and> rw_waiting_writers (RwlockAddReader t rw) = rw_waiting_writers rw"
proof (cases "RwlockFindReader rw t")
  case None
  then have "t \<notin> fst ` set (rw_readers rw)" by (simp add: RwlockFindReader_def reader_at_None)
  note a = append_reader [OF this _ assms(2)]
  show ?thesis using a assms None
    by (auto simp: RwlockAddReader_def rwlock_ok_def reads_count_in writes_def fun_eq_iff)
next
  case (Some i)
  then have "reader_at t (rw_readers rw) = Some i" by (simp add: RwlockFindReader_def)
  note a = reader_at_update [OF this]
  show ?thesis using a assms Some
    by (auto simp: RwlockAddReader_def rwlock_ok_def reads_count_in writes_def fun_eq_iff)
qed

lemma remove_reader_spec:
  assumes "readers_ok rs" and "sum_list (map snd rs) \<le> UINT32_MAX"
  shows "case remove_reader t rs of None \<Rightarrow> t \<notin> fst ` set rs
    | Some rs' \<Rightarrow> t \<in> fst ` set rs \<and> readers_ok rs' \<and> fst ` set rs' \<subseteq> fst ` set rs \<and>
        sum_list (map snd rs') = sum_list (map snd rs) - 1 \<and> 0 < sum_list (map snd rs) \<and> count_in rs' = (count_in rs)(t := count_in rs t - 1)"
  using assms
proof (induction rs)
  case (Cons r rs)
  have ih: "case remove_reader t rs of None \<Rightarrow> t \<notin> fst ` set rs
    | Some rs' \<Rightarrow> t \<in> fst ` set rs \<and> readers_ok rs' \<and> fst ` set rs' \<subseteq> fst ` set rs \<and>
        sum_list (map snd rs') = sum_list (map snd rs) - 1 \<and> 0 < sum_list (map snd rs) \<and> count_in rs' = (count_in rs)(t := count_in rs t - 1)"
    using Cons by simp
  show ?case
  proof (cases "fst r = t")
    case True
    then have "count_in rs t = 0" using Cons.prems(1) by (intro count_in_notin) auto
    then show ?thesis using True Cons.prems by (auto simp: fun_eq_iff)
  next
    case False
    then show ?thesis using ih Cons.prems(1) by (cases "remove_reader t rs") (auto simp: fun_eq_iff)
  qed
qed simp

lemma RwlockRemoveReader_spec:
  assumes "rwlock_ok rw"
  shows "case RwlockRemoveReader t rw of (b, rw') \<Rightarrow> (b \<longleftrightarrow> 0 < reads rw t) \<and> rwlock_ok rw' \<and>
    reads rw' = (reads rw)(t := reads rw t - 1) \<and> writes rw' = writes rw \<and> rw_waiting_writers rw' = rw_waiting_writers rw"
proof -
  have ok: "readers_ok (rw_readers rw)" "sum_list (map snd (rw_readers rw)) \<le> UINT32_MAX" using assms by (simp_all add: rwlock_ok_def)
  note r = remove_reader_spec [OF ok, of t]
  show ?thesis
  proof (cases "remove_reader t (rw_readers rw)")
    case None
    then show ?thesis using r assms count_in_notin
      by (auto simp: RwlockRemoveReader_def reads_count_in)
  next
    case (Some rs')
    then show ?thesis using r assms count_in_pos [OF ok(1), of t]
      by (auto simp: RwlockRemoveReader_def reads_count_in rwlock_ok_def writes_def)
  qed
qed

section \<open>What the operations do to it\<close>

lemma rw_free_iff:
  assumes "rwlock_ok rw"
  shows "rw_writer rw = 0 \<and> rw_reader_count rw = 0 \<longleftrightarrow> (\<forall>u. \<not> writes rw u \<and> reads rw u = 0)"
  unfolding no_readers_iff [OF assms] writes_def by auto

lemma may_read_iff:
  assumes "rwlock_ok rw" and "t \<noteq> 0"
  shows "may_read t rw \<longleftrightarrow> (\<forall>u. u \<noteq> t \<longrightarrow> \<not> writes rw u) \<and> (writes rw t \<or> rw_waiting_writers rw = 0 \<or> 0 < reads rw t)"
  unfolding may_read_def find_reader_iff [OF assms(1)] writes_def using assms(2) by auto

lemma holds_iff:
  assumes "rwlock_ok rw" and "t \<noteq> 0"
  shows "rw_writer rw = t \<or> RwlockFindReader rw t \<noteq> None \<longleftrightarrow> writes rw t \<or> 0 < reads rw t"
  unfolding find_reader_iff [OF assms(1)] writes_def using assms(2) by auto

lemma take_write_spec:
  assumes "rwlock_ok rw" and "t \<noteq> 0" and "\<forall>u. \<not> writes rw u \<and> reads rw u = 0"
  shows "rwlock_ok (take_write t rw) \<and> reads (take_write t rw) = reads rw \<and> writes (take_write t rw) = (writes rw)(t := True)"
proof -
  have free: "rw_writer rw = 0" "rw_reader_count rw = 0" using assms(1,3) rw_free_iff by blast+
  have "u \<notin> fst ` set (rw_readers rw)" for u
    using assms(1,3) count_in_pos [of "rw_readers rw" u] by (simp add: reads_count_in rwlock_ok_def)
  then have "rw_readers rw = []" by (cases "rw_readers rw") auto
  then show ?thesis using assms(1,2) free by (auto simp: rwlock_ok_def take_write_def reads_count_in writes_def fun_eq_iff)
qed

lemma waiting_writers_update [simp]:
  "rwlock_ok (rw\<lparr>rw_waiting_writers := n\<rparr>) = rwlock_ok rw" "reads (rw\<lparr>rw_waiting_writers := n\<rparr>) = reads rw"
  "writes (rw\<lparr>rw_waiting_writers := n\<rparr>) = writes rw"
  by (simp_all add: rwlock_ok_def reads_count_in writes_def fun_eq_iff)

lemma unregister_spec:
  assumes "registered \<longrightarrow> 0 < rw_waiting_writers rw \<and> rw_waiting_writers rw \<le> UINT32_MAX"
  shows "rwlock_ok (unregister_writer_wait registered rw) = rwlock_ok rw" "reads (unregister_writer_wait registered rw) = reads rw"
    "writes (unregister_writer_wait registered rw) = writes rw"
    "rw_waiting_writers (unregister_writer_wait registered rw) = rw_waiting_writers rw - (if registered then 1 else 0)"
  using assms by (simp_all add: unregister_writer_wait_def)

definition rw_expired :: "nat option \<Rightarrow> nat \<Rightarrow> bool" where
  "rw_expired timeout_us elapsed \<longleftrightarrow> (\<exists>us. timeout_us = Some us \<and> (us = 0 \<or> us \<le> elapsed))"

lemma rw_timeout_eq:
  "rw_timeout us e registered rw =
    (if rw_expired us e then (RwReturned KERNEL_ERROR_ETIMEDOUT, unregister_writer_wait registered rw) else (RwSleeping registered, rw))"
  by (auto simp: rw_timeout_def rw_expired_def split: option.splits)

text \<open>The turn of a reader.\<close>

lemma read_turn_spec:
  assumes "rwlock_ok rw" and "t \<noteq> 0" and "rw_reader_count rw < UINT32_MAX"
    and "RwlockLockCooperative_turn t False us e False rw = (out, rw')"
  shows "rwlock_ok rw' \<and> writes rw' = writes rw \<and> rw_waiting_writers rw' = rw_waiting_writers rw \<and>
    (if may_read t rw then out = RwReturned OK \<and> reads rw' = (reads rw)(t := reads rw t + 1)
     else rw' = rw \<and> out = (if rw_expired us e then RwReturned KERNEL_ERROR_ETIMEDOUT else RwSleeping False))"
proof (cases "may_read t rw")
  case True
  then have "rw_writer rw = 0 \<or> rw_writer rw = t" by (auto simp: may_read_def)
  then show ?thesis using RwlockAddReader_spec [OF assms(1,2) _ assms(3)] assms(4) True
    by (auto simp: RwlockLockCooperative_turn_def)
next
  case False
  then show ?thesis using assms(1,4)
    by (auto simp: RwlockLockCooperative_turn_def rw_timeout_eq unregister_writer_wait_def split: if_splits)
qed

text \<open>The turn of a writer, registered or not.\<close>

lemma write_turn_spec:
  assumes "rwlock_ok rw" and "t \<noteq> 0" and "RwlockLockCooperative_turn t True us e registered rw = (out, rw')"
    and "if registered then 0 < rw_waiting_writers rw \<and> rw_waiting_writers rw \<le> UINT32_MAX else rw_waiting_writers rw < UINT32_MAX"
  shows "rwlock_ok rw' \<and> reads rw' = reads rw \<and>
    (if writes rw t \<or> 0 < reads rw t then out = RwReturned KERNEL_ERROR_EDEADLK \<and> writes rw' = writes rw
     else if \<forall>u. \<not> writes rw u \<and> reads rw u = 0 then out = RwReturned OK \<and> writes rw' = (writes rw)(t := True)
     else writes rw' = writes rw \<and> out = (if rw_expired us e then RwReturned KERNEL_ERROR_ETIMEDOUT else RwSleeping True)) \<and>
    rw_waiting_writers rw' + (if registered then 1 else 0) = rw_waiting_writers rw + (if out = RwSleeping True then 1 else 0)"
proof -
  note h = holds_iff [OF assms(1,2)] and f = rw_free_iff [OF assms(1)]
  have un: "registered \<longrightarrow> 0 < rw_waiting_writers rw \<and> rw_waiting_writers rw \<le> UINT32_MAX" using assms(4) by auto
  note u = unregister_spec [OF un]
  show ?thesis
  proof (cases "writes rw t \<or> 0 < reads rw t")
    case True
    then have "out = RwReturned KERNEL_ERROR_EDEADLK" "rw' = unregister_writer_wait registered rw"
      using assms(3) h by (auto simp: RwlockLockCooperative_turn_def)
    then show ?thesis using True u assms(1) un by simp
  next
    case notheld: False
    show ?thesis
    proof (cases "\<forall>u. \<not> writes rw u \<and> reads rw u = 0")
      case True
      then have e: "out = RwReturned OK" "rw' = take_write t (unregister_writer_wait registered rw)"
        using assms(3) h f notheld by (auto simp: RwlockLockCooperative_turn_def)
      have "rwlock_ok rw' \<and> reads rw' = reads rw \<and> writes rw' = (writes rw)(t := True)"
        using take_write_spec [of "unregister_writer_wait registered rw" t] u True assms(1,2) unfolding e(2) by simp
      moreover have "rw_waiting_writers rw' = rw_waiting_writers rw - (if registered then 1 else 0)" using u(4) by (simp add: e(2) take_write_def)
      ultimately show ?thesis using True un e(1) notheld by simp
    next
      case False
      define r1 where "r1 = (if registered then rw else rw\<lparr>rw_waiting_writers := add32 (rw_waiting_writers rw) 1\<rparr>)"
      have e: "(out, rw') = rw_timeout us e True r1" using assms(3) h f notheld False by (auto simp: RwlockLockCooperative_turn_def r1_def)
      have r1: "rwlock_ok r1" "reads r1 = reads rw" "writes r1 = writes rw" "rw_waiting_writers r1 = rw_waiting_writers rw + (if registered then 0 else 1)"
        using assms(1,4) by (simp_all add: r1_def)
      have "True \<longrightarrow> 0 < rw_waiting_writers r1 \<and> rw_waiting_writers r1 \<le> UINT32_MAX" using assms(4) r1(4) by (auto split: if_splits)
      note u1 = unregister_spec [OF this]
      show ?thesis
      proof (cases "rw_expired us e")
        case True
        then have "out = RwReturned KERNEL_ERROR_ETIMEDOUT" "rw' = unregister_writer_wait True r1" using e by (simp_all add: rw_timeout_eq)
        then show ?thesis unfolding if_not_P [OF False] if_not_P [OF notheld] using u1 r1 True assms(4) by (simp split: if_splits)
      next
        case no: False
        then have "out = RwSleeping True" "rw' = r1" using e by (simp_all add: rw_timeout_eq)
        then show ?thesis unfolding if_not_P [OF False] if_not_P [OF notheld] using r1 no by simp
      qed
    qed
  qed
qed

lemma rw_unlock_spec:
  assumes "rwlock_ok rw" and "t \<noteq> 0"
  shows "\<exists>rw'. rw_unlock t rw = Some (if writes rw t \<or> 0 < reads rw t then OK else KERNEL_ERROR_EPERM, rw') \<and> rwlock_ok rw' \<and>
    reads rw' = (reads rw)(t := reads rw t - 1) \<and> writes rw' = (if reads rw t = 0 then (writes rw)(t := False) else writes rw) \<and>
    rw_waiting_writers rw' = rw_waiting_writers rw"
proof -
  obtain b rw1 where r: "RwlockRemoveReader t rw = (b, rw1)" by (cases "RwlockRemoveReader t rw")
  have s: "b \<longleftrightarrow> 0 < reads rw t" "rwlock_ok rw1" "reads rw1 = (reads rw)(t := reads rw t - 1)" "writes rw1 = writes rw"
    "rw_waiting_writers rw1 = rw_waiting_writers rw" using RwlockRemoveReader_spec [OF assms(1), of t] by (simp_all add: r)
  show ?thesis
  proof (cases "0 < reads rw t")
    case True
    then show ?thesis using s r assms(2) by (simp add: rw_unlock_def)
  next
    case none: False
    show ?thesis
    proof (cases "rw_writer rw = t")
      case True
      then have "rw_writer_count rw = 1" using assms by (simp add: rwlock_ok_def)
      then have "rw_unlock t rw = Some (OK, rw\<lparr>rw_writer_count := 0, rw_writer := 0\<rparr>)"
        using True none s(1) r assms(2) by (simp add: rw_unlock_def)
      then show ?thesis using True none assms by (auto simp: rwlock_ok_def reads_count_in writes_def fun_eq_iff)
    next
      case False
      then have "rw_unlock t rw = Some (KERNEL_ERROR_EPERM, rw)" using none s(1) r assms(2) by (simp add: rw_unlock_def)
      then show ?thesis using False none assms by (auto simp: writes_def fun_eq_iff)
    qed
  qed
qed

section \<open>Threads that share a lock\<close>

text \<open>
  What each thread is doing, and two ghost maps that add up what its calls returned: how often it reads and
  whether it writes. An unlock gives back a read first. The 32-bit counters are kept below their limit by the
  guards of the steps: the code does not check them.
\<close>

datatype rw_phase = RwOutside | RwBlocked bool "nat option" bool

record rw_sys =
  rs_lock :: PthreadRwlockPrivate
  rs_phase :: "nat \<Rightarrow> rw_phase"
  rs_reads :: "nat \<Rightarrow> nat"
  rs_writes :: "nat \<Rightarrow> bool"

definition rw_phase_of :: "bool \<Rightarrow> nat option \<Rightarrow> rw_outcome \<Rightarrow> rw_phase" where
  "rw_phase_of write us out = (case out of RwReturned code \<Rightarrow> RwOutside | RwSleeping registered \<Rightarrow> RwBlocked write us registered)"

definition rw_acquired :: "nat \<Rightarrow> bool \<Rightarrow> nat option \<Rightarrow> rw_outcome \<Rightarrow> PthreadRwlockPrivate \<Rightarrow> rw_sys \<Rightarrow> rw_sys" where
  "rw_acquired t write us out rw' y =
     y\<lparr>rs_lock := rw', rs_phase := (rs_phase y)(t := rw_phase_of write us out),
       rs_reads := (if out = RwReturned OK \<and> \<not> write then (rs_reads y)(t := rs_reads y t + 1) else rs_reads y),
       rs_writes := (if out = RwReturned OK \<and> write then (rs_writes y)(t := True) else rs_writes y)\<rparr>"

inductive rw_step :: "rw_sys \<Rightarrow> rw_sys \<Rightarrow> bool" where
  rw_lock: "t \<noteq> 0 \<Longrightarrow> rs_phase y t = RwOutside \<Longrightarrow> rw_reader_count (rs_lock y) < UINT32_MAX \<Longrightarrow> rw_waiting_writers (rs_lock y) < UINT32_MAX \<Longrightarrow>
    RwlockLockCooperative_begin t write us e (rs_lock y) = (out, rw') \<Longrightarrow> rw_step y (rw_acquired t write us out rw' y)"
| rw_turn: "rs_phase y t = RwBlocked write us registered \<Longrightarrow> rw_reader_count (rs_lock y) < UINT32_MAX \<Longrightarrow>
    RwlockLockCooperative_turn t write us e registered (rs_lock y) = (out, rw') \<Longrightarrow> rw_step y (rw_acquired t write us out rw' y)"
| rw_tryrd: "t \<noteq> 0 \<Longrightarrow> rs_phase y t = RwOutside \<Longrightarrow> rw_reader_count (rs_lock y) < UINT32_MAX \<Longrightarrow> rw_tryrdlock t (rs_lock y) = (r, rw') \<Longrightarrow>
    rw_step y (y\<lparr>rs_lock := rw', rs_reads := (rs_reads y)(t := rs_reads y t + (if r = OK then 1 else 0))\<rparr>)"
| rw_trywr: "t \<noteq> 0 \<Longrightarrow> rs_phase y t = RwOutside \<Longrightarrow> rw_trywrlock t (rs_lock y) = (r, rw') \<Longrightarrow>
    rw_step y (y\<lparr>rs_lock := rw', rs_writes := (rs_writes y)(t := rs_writes y t \<or> r = OK)\<rparr>)"
| rw_unl: "t \<noteq> 0 \<Longrightarrow> rs_phase y t = RwOutside \<Longrightarrow> rw_unlock t (rs_lock y) = Some (r, rw') \<Longrightarrow>
    rw_step y (y\<lparr>rs_lock := rw', rs_reads := (rs_reads y)(t := rs_reads y t - 1),
      rs_writes := (if rs_reads y t = 0 then (rs_writes y)(t := False) else rs_writes y)\<rparr>)"

definition new_rw_sys :: rw_sys where
  "new_rw_sys = \<lparr>rs_lock = new_rwlock [], rs_phase = (\<lambda>t. RwOutside), rs_reads = (\<lambda>t. 0), rs_writes = (\<lambda>t. False)\<rparr>"

inductive rw_reachable :: "rw_sys \<Rightarrow> bool" where
  rw_new: "rw_reachable new_rw_sys"
| rw_next: "rw_reachable y \<Longrightarrow> rw_step y y' \<Longrightarrow> rw_reachable y'"

definition waiting_to_write :: "(nat \<Rightarrow> rw_phase) \<Rightarrow> nat set" where
  "waiting_to_write phase = {t. \<exists>us registered. phase t = RwBlocked True us registered}"

definition rw_sys_ok :: "rw_sys \<Rightarrow> bool" where
  "rw_sys_ok y \<longleftrightarrow> rwlock_ok (rs_lock y) \<and> reads (rs_lock y) = rs_reads y \<and> writes (rs_lock y) = rs_writes y \<and>
     finite (waiting_to_write (rs_phase y)) \<and> rw_waiting_writers (rs_lock y) = card (waiting_to_write (rs_phase y)) \<and>
     rw_waiting_writers (rs_lock y) \<le> UINT32_MAX \<and>
     (\<forall>t write us registered. rs_phase y t = RwBlocked write us registered \<longrightarrow> t \<noteq> 0 \<and> registered = write \<and> rs_reads y t = 0 \<and> \<not> rs_writes y t)"

lemma waiting_to_write_update:
  "waiting_to_write (phase(t := p)) = (if \<exists>us registered. p = RwBlocked True us registered then insert t (waiting_to_write phase) else waiting_to_write phase - {t})"
  by (auto simp: waiting_to_write_def)

lemma rw_phase_of_simps [simp]:
  "rw_phase_of write us (RwReturned code) = RwOutside" "rw_phase_of write us (RwSleeping registered) = RwBlocked write us registered"
  by (simp_all add: rw_phase_of_def)

lemma rw_acquired_sel [simp]:
  "rs_lock (rw_acquired t write us out rw' y) = rw'" "rs_phase (rw_acquired t write us out rw' y) = (rs_phase y)(t := rw_phase_of write us out)"
  "rs_reads (rw_acquired t write us out rw' y) = (if out = RwReturned OK \<and> \<not> write then (rs_reads y)(t := rs_reads y t + 1) else rs_reads y)"
  "rs_writes (rw_acquired t write us out rw' y) = (if out = RwReturned OK \<and> write then (rs_writes y)(t := True) else rs_writes y)"
  by (simp_all add: rw_acquired_def)

text \<open>Locking: the first passage of a thread (not registered) and those of a blocked one.\<close>

lemma rw_read_ok:
  assumes "rw_sys_ok y" and "t \<noteq> 0" and "t \<notin> waiting_to_write (rs_phase y)" and "rw_reader_count (rs_lock y) < UINT32_MAX"
    and "RwlockLockCooperative_turn t False us e False (rs_lock y) = (out, rw')"
  shows "rw_sys_ok (rw_acquired t False us out rw' y)"
proof -
  have ok: "rwlock_ok (rs_lock y)" "reads (rs_lock y) = rs_reads y" "writes (rs_lock y) = rs_writes y"
    using assms(1) by (simp_all add: rw_sys_ok_def)
  note s = read_turn_spec [OF ok(1) assms(2,4,5), unfolded ok(2,3)]
  have ww: "waiting_to_write ((rs_phase y)(t := rw_phase_of False us out)) = waiting_to_write (rs_phase y)"
    using assms(3) by (cases out) (simp_all add: waiting_to_write_update)
  show ?thesis
  proof (cases "may_read t (rs_lock y)")
    case True
    then show ?thesis using s assms(1) unfolding rw_sys_ok_def rw_acquired_sel ww by auto
  next
    case False
    then have nw: "\<not> rs_writes y t" "rs_reads y t = 0 \<or> (\<exists>u. u \<noteq> t \<and> rs_writes y u)"
      using may_read_iff [OF ok(1) assms(2)] unfolding may_read_def ok(3) [symmetric] ok(2) [symmetric] by (auto simp: writes_def)
    have "rs_reads y t = 0"
    proof (rule ccontr)
      assume r: "rs_reads y t \<noteq> 0"
      then obtain u where u: "u \<noteq> t" "writes (rs_lock y) u" using nw(2) ok(3) by auto
      have "t \<in> fst ` set (rw_readers (rs_lock y))"
        using r ok(1,2) count_in_pos [of "rw_readers (rs_lock y)" t] by (simp add: rwlock_ok_def reads_count_in)
      then show False using ok(1) u by (auto simp: rwlock_ok_def writes_def)
    qed
    then show ?thesis using s assms(1,2) False nw(1) unfolding rw_sys_ok_def rw_acquired_sel ww by (auto split: if_splits simp: error_defs)
  qed
qed

lemma rw_write_ok:
  assumes "rw_sys_ok y" and "t \<noteq> 0" and "registered \<longleftrightarrow> t \<in> waiting_to_write (rs_phase y)"
    and "\<not> registered \<longrightarrow> rw_waiting_writers (rs_lock y) < UINT32_MAX"
    and "RwlockLockCooperative_turn t True us e registered (rs_lock y) = (out, rw')"
  shows "rw_sys_ok (rw_acquired t True us out rw' y)"
proof -
  have ok: "rwlock_ok (rs_lock y)" "reads (rs_lock y) = rs_reads y" "writes (rs_lock y) = rs_writes y"
    and fin: "finite (waiting_to_write (rs_phase y))" and card: "rw_waiting_writers (rs_lock y) = card (waiting_to_write (rs_phase y))"
      "rw_waiting_writers (rs_lock y) \<le> UINT32_MAX"
    using assms(1) by (simp_all add: rw_sys_ok_def)
  have "if registered then 0 < rw_waiting_writers (rs_lock y) \<and> rw_waiting_writers (rs_lock y) \<le> UINT32_MAX else rw_waiting_writers (rs_lock y) < UINT32_MAX"
    using assms(3,4) card fin by (auto simp: card_gt_0_iff)
  note s = write_turn_spec [OF ok(1) assms(2,5) this, unfolded ok(2,3)]
  have out: "out = RwSleeping True \<or> (\<exists>code. out = RwReturned code)" using s by (auto split: if_splits)
  have ww: "finite (waiting_to_write ((rs_phase y)(t := rw_phase_of True us out)))"
    "rw_waiting_writers rw' = card (waiting_to_write ((rs_phase y)(t := rw_phase_of True us out)))"
    using s out assms(3) card fin by (auto simp: waiting_to_write_update card_insert_if card_Diff_singleton_if)
  have le: "rw_waiting_writers rw' \<le> UINT32_MAX" using s assms(4) card(2) by (auto split: if_splits)
  have blocked: "rs_reads y t = 0 \<and> \<not> rs_writes y t" if "out = RwSleeping True" using s that by (auto split: if_splits)
  have eff: "rwlock_ok rw'" "reads rw' = rs_reads y" "writes rw' = (if out = RwReturned OK then (rs_writes y)(t := True) else rs_writes y)"
    using s by (auto split: if_splits simp: error_defs)
  have oth: "rs_phase y u = RwBlocked wr us' reg \<Longrightarrow> u \<noteq> 0 \<and> reg = wr \<and> rs_reads y u = 0 \<and> \<not> rs_writes y u" for u wr us' reg
    using assms(1) unfolding rw_sys_ok_def by blast
  have all: "u \<noteq> 0 \<and> reg = wr \<and> rs_reads y u = 0 \<and> \<not> (if out = RwReturned OK then (rs_writes y)(t := True) else rs_writes y) u"
    if "((rs_phase y)(t := rw_phase_of True us out)) u = RwBlocked wr us' reg" for u wr us' reg
  proof -
    have "u = t \<and> out = RwSleeping True \<and> reg \<and> wr \<or> u \<noteq> t \<and> rs_phase y u = RwBlocked wr us' reg"
      using that out by (auto split: if_splits)
    then show ?thesis using blocked oth [of u] assms(2) by auto
  qed
  show ?thesis unfolding rw_sys_ok_def rw_acquired_sel using ww le eff all by simp
qed

lemma rw_phase_write: "rw_sys_ok y \<Longrightarrow> rs_phase y t = RwBlocked w us registered \<Longrightarrow> t \<noteq> 0 \<and> registered = w"
  unfolding rw_sys_ok_def by blast

lemma rw_outside_waiting: "rs_phase y t = RwOutside \<Longrightarrow> t \<notin> waiting_to_write (rs_phase y)"
  by (simp add: waiting_to_write_def)

lemma rw_begin_turn: "t \<noteq> 0 \<Longrightarrow> RwlockLockCooperative_begin t w us e rw = RwlockLockCooperative_turn t w us e False rw"
  by (simp add: RwlockLockCooperative_begin_def)

lemma rw_outside_ok:
  assumes "rw_sys_ok y" and "rs_phase y t = RwOutside" and "rwlock_ok rw'" and "rw_waiting_writers rw' = rw_waiting_writers (rs_lock y)"
    and "reads rw' = r" and "writes rw' = w" and "\<And>u. u \<noteq> t \<Longrightarrow> r u = rs_reads y u" and "\<And>u. u \<noteq> t \<Longrightarrow> w u = rs_writes y u"
  shows "rw_sys_ok (y\<lparr>rs_lock := rw', rs_reads := r, rs_writes := w\<rparr>)"
proof -
  have "rs_phase y u = RwBlocked a b c \<Longrightarrow> u \<noteq> t" for u a b c using assms(2) by auto
  then show ?thesis using assms(1,3-8) unfolding rw_sys_ok_def by auto
qed

lemma rw_tryrdlock_result:
  assumes "rwlock_ok rw" and "t \<noteq> 0"
  shows "rw_tryrdlock t rw = (if may_read t rw then (OK, RwlockAddReader t rw) else (KERNEL_ERROR_EBUSY, rw))"
  using assms(2) by (simp add: rw_tryrdlock_def)

lemma rw_trywrlock_result:
  assumes "rwlock_ok rw" and "t \<noteq> 0"
  shows "rw_trywrlock t rw = (if writes rw t \<or> 0 < reads rw t then (KERNEL_ERROR_EDEADLK, rw)
    else if \<forall>u. \<not> writes rw u \<and> reads rw u = 0 then (OK, take_write t rw) else (KERNEL_ERROR_EBUSY, rw))"
  using assms(2) unfolding holds_iff [OF assms, symmetric] rw_free_iff [OF assms(1), symmetric] by (simp add: rw_trywrlock_def)

lemma take_write_waiting [simp]: "rw_waiting_writers (take_write t rw) = rw_waiting_writers rw"
  by (simp add: take_write_def)

lemma rw_step_ok:
  assumes "rw_step y y'" and "rw_sys_ok y"
  shows "rw_sys_ok y'"
proof -
  have ok: "rwlock_ok (rs_lock y)" "reads (rs_lock y) = rs_reads y" "writes (rs_lock y) = rs_writes y"
    using assms(2) by (simp_all add: rw_sys_ok_def)
  show ?thesis using assms(1)
  proof cases
    case (rw_lock t w us e out rw')
    note turn = rw_lock(6) [unfolded rw_begin_turn [OF rw_lock(2)]]
    show ?thesis
    proof (cases w)
      case True
      then show ?thesis using rw_write_ok [OF assms(2) rw_lock(2), of False us e out rw'] turn rw_lock(1,5) rw_outside_waiting [OF rw_lock(3)] by simp
    next
      case False
      then show ?thesis using rw_read_ok [OF assms(2) rw_lock(2) rw_outside_waiting [OF rw_lock(3)] rw_lock(4)] turn rw_lock(1) by simp
    qed
  next
    case (rw_turn t w us registered e out rw')
    have t: "t \<noteq> 0" "registered = w" using rw_phase_write [OF assms(2) rw_turn(2)] by auto
    show ?thesis
    proof (cases w)
      case True
      then show ?thesis using rw_write_ok [OF assms(2) t(1), of True us e out rw'] rw_turn t(2) by (auto simp: waiting_to_write_def)
    next
      case False
      then show ?thesis using rw_read_ok [OF assms(2) t(1) _ rw_turn(3), of us e out rw'] rw_turn t(2) by (auto simp: waiting_to_write_def)
    qed
  next
    case (rw_tryrd t r rw')
    show ?thesis
    proof (cases "may_read t (rs_lock y)")
      case True
      then have w: "rw_writer (rs_lock y) = 0 \<or> rw_writer (rs_lock y) = t" by (auto simp: may_read_def)
      note a = RwlockAddReader_spec [OF ok(1) rw_tryrd(2) w rw_tryrd(4)]
      have "r = OK" "rw' = RwlockAddReader t (rs_lock y)" using rw_tryrd(5) True rw_tryrdlock_result [OF ok(1) rw_tryrd(2)] by simp_all
      then show ?thesis using rw_outside_ok [OF assms(2) rw_tryrd(3), of rw' "(rs_reads y)(t := rs_reads y t + 1)" "rs_writes y"] a ok rw_tryrd(1) by simp
    next
      case False
      then have "r \<noteq> OK" "rw' = rs_lock y" using rw_tryrd(5) rw_tryrdlock_result [OF ok(1) rw_tryrd(2)] by (simp_all add: error_defs)
      then show ?thesis using assms(2) rw_tryrd(1) by (simp add: fun_upd_idem)
    qed
  next
    case (rw_trywr t r rw')
    note res = rw_trywrlock_result [OF ok(1) rw_trywr(2)]
    show ?thesis
    proof (cases "r = OK")
      case True
      then have free: "\<forall>u. \<not> writes (rs_lock y) u \<and> reads (rs_lock y) u = 0" and rw': "rw' = take_write t (rs_lock y)"
        using rw_trywr(4) res by (auto simp: error_defs split: if_splits)
      show ?thesis using rw_outside_ok [OF assms(2) rw_trywr(3), of rw' "rs_reads y" "(rs_writes y)(t := True)"]
          take_write_spec [OF ok(1) rw_trywr(2) free] ok True rw_trywr(1) by (simp add: rw')
    next
      case False
      then have "rw' = rs_lock y" using rw_trywr(4) res by (auto split: if_splits)
      then show ?thesis using assms(2) rw_trywr(1) False by (simp add: fun_upd_idem)
    qed
  next
    case (rw_unl t r rw')
    have u: "rwlock_ok rw'" "reads rw' = (rs_reads y)(t := rs_reads y t - 1)" "writes rw' = (if rs_reads y t = 0 then (rs_writes y)(t := False) else rs_writes y)"
      "rw_waiting_writers rw' = rw_waiting_writers (rs_lock y)"
      using rw_unlock_spec [OF ok(1) rw_unl(2)] rw_unl(4) ok by auto
    show ?thesis using rw_outside_ok [OF assms(2) rw_unl(3) u(1,4,2,3)] rw_unl(1) by simp
  qed
qed

lemma rw_reachable_ok: "rw_reachable y \<Longrightarrow> rw_sys_ok y"
proof (induction rule: rw_reachable.induct)
  case rw_new
  have "reads (new_rwlock []) = (\<lambda>t. 0)" "writes (new_rwlock []) = (\<lambda>t. False)"
    by (auto simp: fun_eq_iff reads_def writes_def new_rwlock_def)
  moreover have "waiting_to_write (\<lambda>t. RwOutside) = {}" by (simp add: waiting_to_write_def)
  ultimately show ?case by (simp add: rw_sys_ok_def new_rw_sys_def) (simp add: rwlock_ok_def new_rwlock_def)
next
  case (rw_next y y')
  then show ?case using rw_step_ok by blast
qed

section \<open>Exclusion and waiting\<close>

lemma rw_writer_alone:
  assumes "rwlock_ok rw" and "writes rw t" and "writes rw u \<or> 0 < reads rw u"
  shows "t = u"
  using assms count_in_pos [of "rw_readers rw" u] by (auto simp: rwlock_ok_def writes_def reads_count_in)

text \<open>
  C10: a writer excludes everybody else, at every moment of any number of threads that lock, try, time out
  and unlock: when a thread writes, no other thread writes or reads, and the writer, reader list and counters
  that the code stores are exactly what the threads' calls added up to. So trying to read succeeds exactly
  when no other thread writes and the caller already holds the lock or nobody waits to write; trying to write
  succeeds exactly when nobody holds the lock, and is EDEADLK for a thread that holds it itself; unlocking
  succeeds exactly for a holder and gives back one read, or else the write; and destroying is refused
  exactly while somebody holds the lock.
\<close>

theorem rwlock_exclusion:
  assumes "rw_reachable y"
  shows "(\<forall>t u. rs_writes y t \<longrightarrow> rs_writes y u \<or> 0 < rs_reads y u \<longrightarrow> t = u) \<and>
    reads (rs_lock y) = rs_reads y \<and> writes (rs_lock y) = rs_writes y \<and>
    (\<forall>t. t \<noteq> 0 \<longrightarrow> fst (rw_tryrdlock t (rs_lock y)) =
      (if (\<forall>u. u \<noteq> t \<longrightarrow> \<not> rs_writes y u) \<and> (rs_writes y t \<or> 0 < rs_reads y t \<or> waiting_to_write (rs_phase y) = {}) then OK else KERNEL_ERROR_EBUSY)) \<and>
    (\<forall>t. t \<noteq> 0 \<longrightarrow> fst (rw_trywrlock t (rs_lock y)) =
      (if rs_writes y t \<or> 0 < rs_reads y t then KERNEL_ERROR_EDEADLK
       else if \<forall>u. \<not> rs_writes y u \<and> rs_reads y u = 0 then OK else KERNEL_ERROR_EBUSY)) \<and>
    (\<forall>t. t \<noteq> 0 \<longrightarrow> (\<exists>rw'. rw_unlock t (rs_lock y) = Some (if rs_writes y t \<or> 0 < rs_reads y t then OK else KERNEL_ERROR_EPERM, rw') \<and>
      reads rw' = (rs_reads y)(t := rs_reads y t - 1) \<and> writes rw' = (if rs_reads y t = 0 then (rs_writes y)(t := False) else rs_writes y))) \<and>
    PthreadRwlockDestroy False (SlotAt (rs_lock y)) =
      Some (if \<exists>t. rs_writes y t \<or> 0 < rs_reads y t then (KERNEL_ERROR_EBUSY, SlotAt (rs_lock y)) else (OK, SlotNull))"
proof -
  note inv = rw_reachable_ok [OF assms]
  have ok: "rwlock_ok (rs_lock y)" and r: "reads (rs_lock y) = rs_reads y" and w: "writes (rs_lock y) = rs_writes y"
    using inv by (simp_all add: rw_sys_ok_def)
  have none: "rw_waiting_writers (rs_lock y) = 0 \<longleftrightarrow> waiting_to_write (rs_phase y) = {}"
    using inv by (auto simp: rw_sys_ok_def)
  show ?thesis
  proof (intro conjI allI impI)
    show "t = u" if "rs_writes y t" "rs_writes y u \<or> 0 < rs_reads y u" for t u
      using rw_writer_alone [OF ok, unfolded r w, OF that] .
    show "fst (rw_tryrdlock t (rs_lock y)) =
      (if (\<forall>u. u \<noteq> t \<longrightarrow> \<not> rs_writes y u) \<and> (rs_writes y t \<or> 0 < rs_reads y t \<or> waiting_to_write (rs_phase y) = {}) then OK else KERNEL_ERROR_EBUSY)"
      if "t \<noteq> 0" for t
      unfolding rw_tryrdlock_result [OF ok that] may_read_iff [OF ok that] none r w by auto
    show "fst (rw_trywrlock t (rs_lock y)) =
      (if rs_writes y t \<or> 0 < rs_reads y t then KERNEL_ERROR_EDEADLK
       else if \<forall>u. \<not> rs_writes y u \<and> rs_reads y u = 0 then OK else KERNEL_ERROR_EBUSY)" if "t \<noteq> 0" for t
      unfolding rw_trywrlock_result [OF ok that] r w by simp
    show "\<exists>rw'. rw_unlock t (rs_lock y) = Some (if rs_writes y t \<or> 0 < rs_reads y t then OK else KERNEL_ERROR_EPERM, rw') \<and>
      reads rw' = (rs_reads y)(t := rs_reads y t - 1) \<and> writes rw' = (if rs_reads y t = 0 then (rs_writes y)(t := False) else rs_writes y)"
      if "t \<noteq> 0" for t
      using rw_unlock_spec [OF ok that] unfolding r w by blast
    have "rw_writer (rs_lock y) \<noteq> 0 \<or> rw_reader_count (rs_lock y) \<noteq> 0 \<longleftrightarrow> (\<exists>t. rs_writes y t \<or> 0 < rs_reads y t)"
      using rw_free_iff [OF ok] unfolding r w by auto
    then show "PthreadRwlockDestroy False (SlotAt (rs_lock y)) =
      Some (if \<exists>t. rs_writes y t \<or> 0 < rs_reads y t then (KERNEL_ERROR_EBUSY, SlotAt (rs_lock y)) else (OK, SlotNull))"
      by (simp add: PthreadRwlockDestroy_def)
  qed (use r w in simp_all)
qed

text \<open>
  C11: who waits, and for what. The counter of waiting writers is the number of threads blocked in a write
  lock, so it returns to 0 after every time-out as after every success. The turn of a blocked writer takes
  the lock exactly when nobody holds it; that of a blocked reader exactly when nobody writes and nobody
  waits to write; otherwise it ends with ETIMEDOUT exactly when its time is up. A newcomer that asks to read
  gets the lock exactly when no other thread writes and it holds the lock already or nobody waits to write:
  waiting writers hold back new readers. They do not hold back new writers: a newcomer that asks to write, or
  tries to, gets the lock exactly when nobody holds it, whoever is already waiting; and a holder that asks to
  write is told EDEADLK instead of waiting for itself.
\<close>

theorem rwlock_waiting_exact:
  assumes "rw_reachable y"
  shows "rw_waiting_writers (rs_lock y) = card (waiting_to_write (rs_phase y)) \<and>
    (\<forall>t us registered e. rs_phase y t = RwBlocked True us registered \<longrightarrow>
      fst (RwlockLockCooperative_turn t True us e registered (rs_lock y)) =
        (if \<forall>u. \<not> rs_writes y u \<and> rs_reads y u = 0 then RwReturned OK
         else if rw_expired us e then RwReturned KERNEL_ERROR_ETIMEDOUT else RwSleeping True)) \<and>
    (\<forall>t us registered e. rs_phase y t = RwBlocked False us registered \<longrightarrow>
      fst (RwlockLockCooperative_turn t False us e registered (rs_lock y)) =
        (if (\<forall>u. \<not> rs_writes y u) \<and> waiting_to_write (rs_phase y) = {} then RwReturned OK
         else if rw_expired us e then RwReturned KERNEL_ERROR_ETIMEDOUT else RwSleeping False)) \<and>
    (\<forall>t us e. t \<noteq> 0 \<longrightarrow>
      fst (RwlockLockCooperative_begin t False us e (rs_lock y)) =
        (if (\<forall>u. u \<noteq> t \<longrightarrow> \<not> rs_writes y u) \<and> (rs_writes y t \<or> 0 < rs_reads y t \<or> waiting_to_write (rs_phase y) = {})
         then RwReturned OK else if rw_expired us e then RwReturned KERNEL_ERROR_ETIMEDOUT else RwSleeping False)) \<and>
    (\<forall>t us e. t \<noteq> 0 \<longrightarrow>
      fst (RwlockLockCooperative_begin t True us e (rs_lock y)) =
        (if rs_writes y t \<or> 0 < rs_reads y t then RwReturned KERNEL_ERROR_EDEADLK
         else if \<forall>u. \<not> rs_writes y u \<and> rs_reads y u = 0 then RwReturned OK
         else if rw_expired us e then RwReturned KERNEL_ERROR_ETIMEDOUT else RwSleeping True)) \<and>
    (\<forall>t. t \<noteq> 0 \<longrightarrow>
      fst (rw_trywrlock t (rs_lock y)) =
        (if rs_writes y t \<or> 0 < rs_reads y t then KERNEL_ERROR_EDEADLK
         else if \<forall>u. \<not> rs_writes y u \<and> rs_reads y u = 0 then OK else KERNEL_ERROR_EBUSY))"
proof -
  note inv = rw_reachable_ok [OF assms]
  have ok: "rwlock_ok (rs_lock y)" and r: "reads (rs_lock y) = rs_reads y" and w: "writes (rs_lock y) = rs_writes y"
    using inv by (simp_all add: rw_sys_ok_def)
  have card: "rw_waiting_writers (rs_lock y) = card (waiting_to_write (rs_phase y))"
    and none: "rw_waiting_writers (rs_lock y) = 0 \<longleftrightarrow> waiting_to_write (rs_phase y) = {}"
    using inv by (auto simp: rw_sys_ok_def)
  have blocked: "t \<noteq> 0 \<and> registered = wr \<and> rs_reads y t = 0 \<and> \<not> rs_writes y t" if "rs_phase y t = RwBlocked wr us registered" for t wr us registered
    using inv that unfolding rw_sys_ok_def by blast
  have rd: "fst (RwlockLockCooperative_turn t False us e reg (rs_lock y)) =
      (if (\<forall>u. u \<noteq> t \<longrightarrow> \<not> rs_writes y u) \<and> (rs_writes y t \<or> waiting_to_write (rs_phase y) = {} \<or> 0 < rs_reads y t)
       then RwReturned OK else if rw_expired us e then RwReturned KERNEL_ERROR_ETIMEDOUT else RwSleeping reg)" if "t \<noteq> 0" for t us e reg
    using may_read_iff [OF ok that] unfolding r w none by (auto simp: RwlockLockCooperative_turn_def rw_timeout_eq)
  have wr: "fst (RwlockLockCooperative_turn t True us e reg (rs_lock y)) =
      (if rs_writes y t \<or> 0 < rs_reads y t then RwReturned KERNEL_ERROR_EDEADLK
       else if \<forall>u. \<not> rs_writes y u \<and> rs_reads y u = 0 then RwReturned OK
       else if rw_expired us e then RwReturned KERNEL_ERROR_ETIMEDOUT else RwSleeping True)" if "t \<noteq> 0" for t us e reg
    using holds_iff [OF ok that] rw_free_iff [OF ok] unfolding r w by (simp add: RwlockLockCooperative_turn_def rw_timeout_eq)
  show ?thesis
  proof (intro conjI allI impI)
    fix t us registered e assume p: "rs_phase y t = RwBlocked True us registered"
    show "fst (RwlockLockCooperative_turn t True us e registered (rs_lock y)) =
        (if \<forall>u. \<not> rs_writes y u \<and> rs_reads y u = 0 then RwReturned OK
         else if rw_expired us e then RwReturned KERNEL_ERROR_ETIMEDOUT else RwSleeping True)"
      using wr [of t] blocked [OF p] by simp
  next
    fix t us registered e assume p: "rs_phase y t = RwBlocked False us registered"
    then have "(\<forall>u. u \<noteq> t \<longrightarrow> \<not> rs_writes y u) \<longleftrightarrow> (\<forall>u. \<not> rs_writes y u)" using blocked [OF p] by auto
    then show "fst (RwlockLockCooperative_turn t False us e registered (rs_lock y)) =
        (if (\<forall>u. \<not> rs_writes y u) \<and> waiting_to_write (rs_phase y) = {} then RwReturned OK
         else if rw_expired us e then RwReturned KERNEL_ERROR_ETIMEDOUT else RwSleeping False)"
      using rd [of t] blocked [OF p] by simp
  next
    fix t us e assume t: "t \<noteq> (0::nat)"
    show "fst (RwlockLockCooperative_begin t False us e (rs_lock y)) =
        (if (\<forall>u. u \<noteq> t \<longrightarrow> \<not> rs_writes y u) \<and> (rs_writes y t \<or> 0 < rs_reads y t \<or> waiting_to_write (rs_phase y) = {})
         then RwReturned OK else if rw_expired us e then RwReturned KERNEL_ERROR_ETIMEDOUT else RwSleeping False)"
      unfolding rw_begin_turn [OF t] rd [OF t] by (rule if_cong) auto
  next
    fix t assume t: "t \<noteq> (0::nat)"
    show "fst (rw_trywrlock t (rs_lock y)) =
        (if rs_writes y t \<or> 0 < rs_reads y t then KERNEL_ERROR_EDEADLK
         else if \<forall>u. \<not> rs_writes y u \<and> rs_reads y u = 0 then OK else KERNEL_ERROR_EBUSY)"
      using t holds_iff [OF ok t] rw_free_iff [OF ok] unfolding r w by (simp add: rw_trywrlock_def)
  qed (use card wr in \<open>simp_all add: rw_begin_turn\<close>)
qed

text \<open>An example: thread 5 reads, thread 6 waits to write.\<close>

definition rw_example_read :: rw_sys where
  "rw_example_read = new_rw_sys\<lparr>rs_lock := (new_rwlock [])\<lparr>rw_readers := [(5, 1)], rw_reader_count := 1\<rparr>, rs_reads := (\<lambda>t. 0)(5 := 1)\<rparr>"

definition rw_example_wait :: rw_sys where
  "rw_example_wait = rw_acquired 6 True None (RwSleeping True) ((rs_lock rw_example_read)\<lparr>rw_waiting_writers := 1\<rparr>) rw_example_read"

lemma rw_example_reachable: "rw_reachable rw_example_wait"
proof -
  have "rw_step new_rw_sys rw_example_read"
    using rw_tryrd [of 5 new_rw_sys OK "rs_lock rw_example_read"]
    by (simp add: rw_example_read_def new_rw_sys_def new_rwlock_def rw_tryrdlock_def may_read_def RwlockAddReader_def RwlockFindReader_def)
  then have read: "rw_reachable rw_example_read" using rw_next [OF rw_new] by blast
  have "rw_step rw_example_read rw_example_wait" unfolding rw_example_wait_def
    by (rule rw_lock [where e = 0]) (simp_all add: rw_example_read_def new_rw_sys_def new_rwlock_def RwlockLockCooperative_begin_def
        RwlockLockCooperative_turn_def RwlockFindReader_def rw_timeout_def)
  then show ?thesis using rw_next [OF read] by blast
qed

lemma rw_example_sel:
  "rs_reads rw_example_wait 5 = 1" "rs_reads rw_example_wait 7 = 0" "rs_writes rw_example_wait = (\<lambda>t. False)"
  "6 \<in> waiting_to_write (rs_phase rw_example_wait)" "rs_phase rw_example_wait 6 = RwBlocked True None True"
  by (auto simp: rw_example_wait_def rw_example_read_def new_rw_sys_def waiting_to_write_def)

lemma rwlock_exclusion_witness:
  "fst (rw_tryrdlock 5 (rs_lock rw_example_wait)) = OK \<and> fst (rw_tryrdlock 7 (rs_lock rw_example_wait)) = KERNEL_ERROR_EBUSY"
proof -
  have "waiting_to_write (rs_phase rw_example_wait) \<noteq> {}" using rw_example_sel(4) by blast
  then show ?thesis
    using rwlock_exclusion [OF rw_example_reachable, THEN conjunct2, THEN conjunct2, THEN conjunct2, THEN conjunct1] rw_example_sel by simp
qed

text \<open>Thread 5 stops reading while 6 waits: thread 7 can take the lock for writing before 6 has its turn.\<close>

definition rw_example_free :: rw_sys where
  "rw_example_free = rw_example_wait\<lparr>rs_lock := (rs_lock rw_example_wait)\<lparr>rw_readers := [], rw_reader_count := 0\<rparr>,
     rs_reads := (rs_reads rw_example_wait)(5 := rs_reads rw_example_wait 5 - 1),
     rs_writes := (if rs_reads rw_example_wait 5 = 0 then (rs_writes rw_example_wait)(5 := False) else rs_writes rw_example_wait)\<rparr>"

lemma rw_example_free_reachable: "rw_reachable rw_example_free"
proof -
  have "rs_lock rw_example_wait = \<lparr>rw_name = [], rw_writer = 0, rw_writer_count = 0, rw_reader_count = 1, rw_waiting_writers = 1, rw_readers = [(5, 1)]\<rparr>"
    by (simp add: rw_example_wait_def rw_example_read_def new_rw_sys_def new_rwlock_def)
  then have "rw_unlock 5 (rs_lock rw_example_wait) = Some (OK, (rs_lock rw_example_wait)\<lparr>rw_readers := [], rw_reader_count := 0\<rparr>)"
    by (simp add: rw_unlock_def RwlockRemoveReader_def)
  moreover have "rs_phase rw_example_wait 5 = RwOutside" by (simp add: rw_example_wait_def rw_example_read_def new_rw_sys_def)
  ultimately have "rw_step rw_example_wait rw_example_free" unfolding rw_example_free_def by (intro rw_unl) simp_all
  then show ?thesis using rw_next [OF rw_example_reachable] by blast
qed

lemma rwlock_waiting_exact_witness:
  "fst (RwlockLockCooperative_turn 6 True None 10 True (rs_lock rw_example_wait)) = RwSleeping True \<and>
   6 \<in> waiting_to_write (rs_phase rw_example_free) \<and> fst (rw_trywrlock 7 (rs_lock rw_example_free)) = OK \<and>
   fst (RwlockLockCooperative_begin 7 True None 0 (rs_lock rw_example_free)) = RwReturned OK \<and>
   fst (RwlockLockCooperative_begin 7 False None 0 (rs_lock rw_example_free)) = RwSleeping False"
proof (intro conjI)
  have "\<exists>u. 0 < rs_reads rw_example_wait u" using rw_example_sel(1) by (intro exI [of _ 5]) simp
  then show "fst (RwlockLockCooperative_turn 6 True None 10 True (rs_lock rw_example_wait)) = RwSleeping True"
    using rwlock_waiting_exact [OF rw_example_reachable, THEN conjunct2, THEN conjunct1] rw_example_sel(5) by (auto simp: rw_expired_def)
  show six: "6 \<in> waiting_to_write (rs_phase rw_example_free)" using rw_example_sel(4) by (simp add: rw_example_free_def)
  have none: "rs_writes rw_example_free t = False" "rs_reads rw_example_free t = 0" for t
    using rw_example_sel by (simp_all add: rw_example_free_def rw_example_wait_def rw_example_read_def new_rw_sys_def)
  note all = rwlock_waiting_exact [OF rw_example_free_reachable, THEN conjunct2, THEN conjunct2, THEN conjunct2]
  show "fst (rw_trywrlock 7 (rs_lock rw_example_free)) = OK" using all [THEN conjunct2, THEN conjunct2] by (simp add: none)
  show "fst (RwlockLockCooperative_begin 7 True None 0 (rs_lock rw_example_free)) = RwReturned OK"
    using all [THEN conjunct2, THEN conjunct1] by (simp add: none)
  have ne: "waiting_to_write (rs_phase rw_example_free) \<noteq> {}" using six by blast
  show "fst (RwlockLockCooperative_begin 7 False None 0 (rs_lock rw_example_free)) = RwSleeping False"
    using all [THEN conjunct1] ne by (simp add: none rw_expired_def)
qed

end
