(* ===== verification/PthreadKeys.thy ===== *)
theory PthreadKeys
  imports KernelErrors
begin

text \<open>
  Thread-specific values and one-time initialisation (src/src/kernel/pthread.cpp): the table of \<open>PthreadKeys\<close>,
  whose operations each hold its mutex, the destructors run for a thread that ends, and \<open>pthread_once\<close>.

  A value and a destructor are addresses, 0 for null. Destructors are guest code: what a call of one with a
  value does to the table is the argument \<open>run\<close>.
\<close>

section \<open>Keys\<close>

abbreviation KEYS_MAX :: nat where "KEYS_MAX \<equiv> 256"
abbreviation DESTRUCTOR_ITERATIONS :: nat where "DESTRUCTOR_ITERATIONS \<equiv> 4"

record Key =
  ky_used :: bool
  ky_destructor :: nat
  ky_values :: "(int \<times> nat) list"

definition new_keys :: "Key list" where
  "new_keys = replicate KEYS_MAX \<lparr>ky_used = False, ky_destructor = 0, ky_values = []\<rparr>"

primrec first_unused :: "Key list \<Rightarrow> nat option" where
  "first_unused [] = None"
| "first_unused (k # ks) = (if \<not> ky_used k then Some 0 else map_option Suc (first_unused ks))"

definition PthreadKeys_Create :: "nat \<Rightarrow> Key list \<Rightarrow> nat option \<times> Key list" where
  "PthreadKeys_Create destructor ks =
     (case first_unused ks of
        None \<Rightarrow> (None, ks)
      | Some i \<Rightarrow> (Some i, ks[i := \<lparr>ky_used = True, ky_destructor = destructor, ky_values = []\<rparr>]))"

definition valid_key :: "Key list \<Rightarrow> int \<Rightarrow> bool" where
  "valid_key ks key \<longleftrightarrow> 0 \<le> key \<and> key < int KEYS_MAX \<and> ky_used (ks ! nat key)"

definition PthreadKeys_Delete :: "int \<Rightarrow> Key list \<Rightarrow> bool \<times> Key list" where
  "PthreadKeys_Delete key ks =
     (if \<not> valid_key ks key then (False, ks)
      else (True, ks[nat key := \<lparr>ky_used = False, ky_destructor = 0, ky_values = []\<rparr>]))"

primrec set_value :: "int \<Rightarrow> nat \<Rightarrow> (int \<times> nat) list \<Rightarrow> (int \<times> nat) list" where
  "set_value thread_id data [] = [(thread_id, data)]"
| "set_value thread_id data (v # vs) =
     (if fst v = thread_id then (fst v, data) # vs else v # set_value thread_id data vs)"

definition PthreadKeys_Set :: "int \<Rightarrow> int \<Rightarrow> nat \<Rightarrow> Key list \<Rightarrow> bool \<times> Key list" where
  "PthreadKeys_Set key thread_id data ks =
     (if \<not> valid_key ks key then (False, ks)
      else (True, ks[nat key := (ks ! nat key)\<lparr>ky_values := set_value thread_id data (ky_values (ks ! nat key))\<rparr>]))"

primrec value_of :: "int \<Rightarrow> (int \<times> nat) list \<Rightarrow> nat" where
  "value_of thread_id [] = 0"
| "value_of thread_id (v # vs) = (if fst v = thread_id then snd v else value_of thread_id vs)"

text \<open>None: the key is not in use.\<close>

definition PthreadKeys_Get :: "int \<Rightarrow> int \<Rightarrow> Key list \<Rightarrow> nat option" where
  "PthreadKeys_Get key thread_id ks =
     (if \<not> valid_key ks key then None else Some (value_of thread_id (ky_values (ks ! nat key))))"

definition PthreadKeyCreate :: "bool \<Rightarrow> nat \<Rightarrow> Key list \<Rightarrow> int \<times> nat option \<times> Key list" where
  "PthreadKeyCreate key_null destructor ks =
     (if key_null then (KERNEL_ERROR_EINVAL, None, ks)
      else case PthreadKeys_Create destructor ks of
        (None, ks') \<Rightarrow> (KERNEL_ERROR_EAGAIN, None, ks') | (Some i, ks') \<Rightarrow> (OK, Some i, ks'))"

definition PthreadKeyDelete :: "int \<Rightarrow> Key list \<Rightarrow> int \<times> Key list" where
  "PthreadKeyDelete key ks = (case PthreadKeys_Delete key ks of (b, ks') \<Rightarrow> (if b then OK else KERNEL_ERROR_EINVAL, ks'))"

definition PthreadSetspecific :: "int \<Rightarrow> int \<Rightarrow> nat \<Rightarrow> Key list \<Rightarrow> int \<times> Key list" where
  "PthreadSetspecific thread_id key data ks =
     (case PthreadKeys_Set key thread_id data ks of (b, ks') \<Rightarrow> (if b then OK else KERNEL_ERROR_EINVAL, ks'))"

definition PthreadGetspecific :: "int \<Rightarrow> int \<Rightarrow> Key list \<Rightarrow> nat" where
  "PthreadGetspecific thread_id key ks = (case PthreadKeys_Get key thread_id ks of None \<Rightarrow> 0 | Some v \<Rightarrow> v)"

text \<open>
  The end of a thread. One pass collects its values that are not null, of the keys with a destructor, and
  makes them null; then the destructors are called. The passes go on until one collects nothing, at most
  four times; only after four the thread's entries are erased. The calls are listed by pass.
\<close>

primrec take_values :: "nat \<Rightarrow> int \<Rightarrow> (int \<times> nat) list \<Rightarrow> (nat \<times> nat) list \<times> (int \<times> nat) list" where
  "take_values destructor thread_id [] = ([], [])"
| "take_values destructor thread_id (v # vs) =
     (case take_values destructor thread_id vs of (calls, vs') \<Rightarrow>
        if fst v = thread_id \<and> snd v \<noteq> 0 then ((destructor, snd v) # calls, (fst v, 0) # vs') else (calls, v # vs'))"

primrec destruct_pass :: "int \<Rightarrow> Key list \<Rightarrow> (nat \<times> nat) list \<times> Key list" where
  "destruct_pass thread_id [] = ([], [])"
| "destruct_pass thread_id (k # ks) =
     (case destruct_pass thread_id ks of (calls, ks') \<Rightarrow>
        if ky_used k \<and> ky_destructor k \<noteq> 0
        then (case take_values (ky_destructor k) thread_id (ky_values k) of (c, vs) \<Rightarrow> (c @ calls, k\<lparr>ky_values := vs\<rparr> # ks'))
        else (calls, k # ks'))"

definition erase_thread :: "int \<Rightarrow> Key list \<Rightarrow> Key list" where
  "erase_thread thread_id ks = map (\<lambda>k. k\<lparr>ky_values := filter (\<lambda>v. fst v \<noteq> thread_id) (ky_values k)\<rparr>) ks"

definition run_destructors :: "(nat \<Rightarrow> nat \<Rightarrow> Key list \<Rightarrow> Key list) \<Rightarrow> (nat \<times> nat) list \<Rightarrow> Key list \<Rightarrow> Key list" where
  "run_destructors run calls ks = fold (\<lambda>(destructor, data). run destructor data) calls ks"

primrec destruct_passes ::
  "nat \<Rightarrow> (nat \<Rightarrow> nat \<Rightarrow> Key list \<Rightarrow> Key list) \<Rightarrow> int \<Rightarrow> Key list \<Rightarrow> (nat \<times> nat) list list \<times> Key list" where
  "destruct_passes 0 run thread_id ks = ([], erase_thread thread_id ks)"
| "destruct_passes (Suc n) run thread_id ks =
     (case destruct_pass thread_id ks of (calls, ks') \<Rightarrow>
        if calls = [] then ([], ks')
        else (case destruct_passes n run thread_id (run_destructors run calls ks') of (passes, ks'') \<Rightarrow> (calls # passes, ks'')))"

definition PthreadKeys_Destruct ::
  "(nat \<Rightarrow> nat \<Rightarrow> Key list \<Rightarrow> Key list) \<Rightarrow> int \<Rightarrow> Key list \<Rightarrow> (nat \<times> nat) list list \<times> Key list" where
  "PthreadKeys_Destruct run thread_id ks = destruct_passes DESTRUCTOR_ITERATIONS run thread_id ks"

section \<open>The table as a map\<close>

definition keys_ok :: "Key list \<Rightarrow> bool" where
  "keys_ok ks \<longleftrightarrow> length ks = KEYS_MAX \<and> (\<forall>k \<in> set ks. distinct (map fst (ky_values k)))"

text \<open>The value of a thread under a key; None when the key is not in use.\<close>

definition key_value :: "Key list \<Rightarrow> nat \<Rightarrow> int \<Rightarrow> nat option" where
  "key_value ks k t = (if k < length ks \<and> ky_used (ks ! k) then Some (value_of t (ky_values (ks ! k))) else None)"

lemma value_of_set_value: "value_of u (set_value t d vs) = (if u = t then d else value_of u vs)"
  by (induction vs) auto

lemma distinct_set_value: "distinct (map fst vs) \<Longrightarrow> distinct (map fst (set_value t d vs))"
proof -
  have "fst ` set (set_value t d vs) = insert t (fst ` set vs)" for vs by (induction vs) auto
  then show "distinct (map fst vs) \<Longrightarrow> ?thesis" by (induction vs) auto
qed

lemma valid_key_iff: "keys_ok ks \<Longrightarrow> valid_key ks key \<longleftrightarrow> 0 \<le> key \<and> key_value ks (nat key) t \<noteq> None"
  by (auto simp: valid_key_def keys_ok_def key_value_def)

lemma first_unused_spec:
  "case first_unused ks of None \<Rightarrow> \<forall>k \<in> set ks. ky_used k
   | Some i \<Rightarrow> i < length ks \<and> \<not> ky_used (ks ! i) \<and> (\<forall>j < i. ky_used (ks ! j))"
proof (induction ks)
  case (Cons k ks)
  then show ?case by (cases "first_unused ks") (auto simp: less_Suc_eq_0_disj)
qed simp

lemma keys_ok_update: "keys_ok ks \<Longrightarrow> distinct (map fst (ky_values k)) \<Longrightarrow> keys_ok (ks[i := k])"
  using set_update_subset_insert [of ks i k] by (auto simp: keys_ok_def)

lemma key_value_update:
  "i < length ks \<Longrightarrow> key_value (ks[i := k]) j t = (if j = i then if ky_used k then Some (value_of t (ky_values k)) else None else key_value ks j t)"
  by (auto simp: key_value_def)

text \<open>
  C30: the keys are a map from keys in use and threads to values. Reading gives what the thread stored last
  under the key, or null; storing changes that thread's value of that key and nothing else, and is refused
  exactly for a key that is not in use; creating takes the least unused key, under which every thread reads
  null, and fails exactly when all 256 are in use; deleting forgets one key. No operation touches another
  key or another thread.
\<close>

theorem keys_map_exact:
  assumes "keys_ok ks"
  shows "PthreadKeys_Get (int k) t ks = key_value ks k t \<and>
    (case PthreadKeys_Set (int k) t d ks of (b, ks') \<Rightarrow> keys_ok ks' \<and> b = (key_value ks k t \<noteq> None) \<and>
       (\<forall>j u. key_value ks' j u = (if b \<and> j = k \<and> u = t then Some d else key_value ks j u))) \<and>
    (case PthreadKeys_Create d ks of
       (None, ks') \<Rightarrow> ks' = ks \<and> (\<forall>j < KEYS_MAX. key_value ks j t \<noteq> None)
     | (Some i, ks') \<Rightarrow> keys_ok ks' \<and> i < KEYS_MAX \<and> key_value ks i t = None \<and> (\<forall>j < i. key_value ks j t \<noteq> None) \<and>
         (\<forall>j u. key_value ks' j u = (if j = i then Some 0 else key_value ks j u))) \<and>
    (case PthreadKeys_Delete (int k) ks of (b, ks') \<Rightarrow> keys_ok ks' \<and> b = (key_value ks k t \<noteq> None) \<and>
       (\<forall>j u. key_value ks' j u = (if j = k then None else key_value ks j u)))"
proof (intro conjI)
  have len: "length ks = KEYS_MAX" using assms by (simp add: keys_ok_def)
  have used: "valid_key ks (int k) \<longleftrightarrow> key_value ks k u \<noteq> None" for u using valid_key_iff [OF assms, of "int k"] by simp
  have lt: "k < length ks" if "valid_key ks (int k)" using that len by (simp add: valid_key_def)
  have dist: "distinct (map fst (ky_values (ks ! k)))" if "k < length ks" for k using assms that by (simp add: keys_ok_def)
  show "PthreadKeys_Get (int k) t ks = key_value ks k t"
    using len by (auto simp: PthreadKeys_Get_def valid_key_def key_value_def)
  show "case PthreadKeys_Set (int k) t d ks of (b, ks') \<Rightarrow> keys_ok ks' \<and> b = (key_value ks k t \<noteq> None) \<and>
       (\<forall>j u. key_value ks' j u = (if b \<and> j = k \<and> u = t then Some d else key_value ks j u))"
  proof (cases "valid_key ks (int k)")
    case True
    let ?k = "(ks ! k)\<lparr>ky_values := set_value t d (ky_values (ks ! k))\<rparr>"
    have "keys_ok (ks[k := ?k])" using keys_ok_update [OF assms] distinct_set_value [OF dist [OF lt [OF True]]] by simp
    moreover have "ky_used (ks ! k)" using True by (simp add: valid_key_def)
    ultimately show ?thesis using True used [of t] lt
      by (simp add: PthreadKeys_Set_def key_value_update value_of_set_value) (simp add: key_value_def)
  next
    case False
    then show ?thesis using assms used [of t] by (simp add: PthreadKeys_Set_def)
  qed
  show "case PthreadKeys_Create d ks of
       (None, ks') \<Rightarrow> ks' = ks \<and> (\<forall>j < KEYS_MAX. key_value ks j t \<noteq> None)
     | (Some i, ks') \<Rightarrow> keys_ok ks' \<and> i < KEYS_MAX \<and> key_value ks i t = None \<and> (\<forall>j < i. key_value ks j t \<noteq> None) \<and>
         (\<forall>j u. key_value ks' j u = (if j = i then Some 0 else key_value ks j u))"
  proof (cases "first_unused ks")
    case None
    then show ?thesis using first_unused_spec [of ks] len by (simp add: PthreadKeys_Create_def key_value_def)
  next
    case (Some i)
    then have i: "i < length ks" "\<not> ky_used (ks ! i)" "\<forall>j < i. ky_used (ks ! j)" using first_unused_spec [of ks] by simp_all
    then show ?thesis using Some len keys_ok_update [OF assms]
      by (simp add: PthreadKeys_Create_def key_value_update) (simp add: key_value_def)
  qed
  show "case PthreadKeys_Delete (int k) ks of (b, ks') \<Rightarrow> keys_ok ks' \<and> b = (key_value ks k t \<noteq> None) \<and>
       (\<forall>j u. key_value ks' j u = (if j = k then None else key_value ks j u))"
  proof (cases "valid_key ks (int k)")
    case True
    then show ?thesis using keys_ok_update [OF assms] lt used [of t] by (simp add: PthreadKeys_Delete_def key_value_update)
  next
    case False
    then have "key_value ks k u = None" for u using used [of u] by simp
    then show ?thesis using False assms by (auto simp: PthreadKeys_Delete_def)
  qed
qed

lemma new_keys_ok: "keys_ok new_keys"
  by (simp add: keys_ok_def new_keys_def)

lemma keys_map_exact_witness:
  "\<exists>ks. fst (PthreadKeys_Create 9 new_keys) = Some 0 \<and> snd (PthreadKeys_Create 9 new_keys) = ks \<and> key_value ks 0 7 = Some 0"
proof -
  have e: "PthreadKeys_Create 9 new_keys = (Some 0, snd (PthreadKeys_Create 9 new_keys))"
    by (simp add: PthreadKeys_Create_def new_keys_def numeral_eq_Suc)
  then show ?thesis using keys_map_exact [OF new_keys_ok, of 0 7 9, THEN conjunct2, THEN conjunct2, THEN conjunct1] by (simp split: prod.splits)
qed

section \<open>The destructors\<close>

text \<open>The values that are due for a destructor, in the order of the keys.\<close>

definition due_values :: "int \<Rightarrow> Key list \<Rightarrow> (nat \<times> nat) list" where
  "due_values t ks = [(ky_destructor k, value_of t (ky_values k)). k \<leftarrow> ks, ky_used k \<and> ky_destructor k \<noteq> 0 \<and> value_of t (ky_values k) \<noteq> 0]"

definition clear_value :: "int \<Rightarrow> Key \<Rightarrow> Key" where
  "clear_value t k = (if ky_used k \<and> ky_destructor k \<noteq> 0 then k\<lparr>ky_values := snd (take_values (ky_destructor k) t (ky_values k))\<rparr> else k)"

lemma value_of_notin: "t \<notin> fst ` set vs \<Longrightarrow> value_of t vs = 0"
  by (induction vs) auto

lemma take_values_notin: "t \<notin> fst ` set vs \<Longrightarrow> take_values d t vs = ([], vs)"
  by (induction vs) auto

lemma take_values_spec:
  "distinct (map fst vs) \<Longrightarrow>
    fst (take_values d t vs) = (if value_of t vs = 0 then [] else [(d, value_of t vs)]) \<and>
    map fst (snd (take_values d t vs)) = map fst vs \<and>
    (\<forall>u. value_of u (snd (take_values d t vs)) = (if u = t then 0 else value_of u vs))"
proof (induction vs)
  case (Cons v vs)
  have ih: "fst (take_values d t vs) = (if value_of t vs = 0 then [] else [(d, value_of t vs)])"
    "map fst (snd (take_values d t vs)) = map fst vs" "\<And>u. value_of u (snd (take_values d t vs)) = (if u = t then 0 else value_of u vs)"
    using Cons by simp_all
  show ?case
  proof (cases "fst v = t")
    case True
    then have "t \<notin> fst ` set vs" using Cons.prems by auto
    then show ?thesis using True value_of_notin [of t vs] by (auto simp: take_values_notin)
  next
    case False
    then show ?thesis using ih by (simp add: case_prod_beta)
  qed
qed simp

lemma destruct_pass_spec:
  "\<forall>k \<in> set ks. distinct (map fst (ky_values k)) \<Longrightarrow> destruct_pass t ks = (due_values t ks, map (clear_value t) ks)"
proof (induction ks)
  case (Cons k ks)
  then have "distinct (map fst (ky_values k))" by simp
  note tv = take_values_spec [OF this, of "ky_destructor k" t]
  show ?case using Cons tv by (cases "take_values (ky_destructor k) t (ky_values k)") (simp add: due_values_def clear_value_def)
qed (simp add: due_values_def)

lemma clear_value_sel [simp]: "ky_used (clear_value t k) = ky_used k" "ky_destructor (clear_value t k) = ky_destructor k"
  by (simp_all add: clear_value_def)

lemma clear_value_of:
  "distinct (map fst (ky_values k)) \<Longrightarrow> value_of u (ky_values (clear_value t k)) =
    (if u = t \<and> ky_used k \<and> ky_destructor k \<noteq> 0 then 0 else value_of u (ky_values k))"
  using take_values_spec [of "ky_values k" "ky_destructor k" t] by (simp add: clear_value_def)

lemma clear_keys_ok: "keys_ok ks \<Longrightarrow> keys_ok (map (clear_value t) ks)"
  using take_values_spec by (auto simp: keys_ok_def clear_value_def)

lemma due_values_clear: "keys_ok ks \<Longrightarrow> due_values t (map (clear_value t) ks) = []"
  by (auto simp: due_values_def keys_ok_def clear_value_of)

lemma run_destructors_ok:
  assumes "\<And>d v ks. keys_ok ks \<Longrightarrow> keys_ok (run d v ks)"
  shows "keys_ok ks \<Longrightarrow> keys_ok (run_destructors run calls ks)"
  unfolding run_destructors_def using assms by (induction calls arbitrary: ks) auto

lemma destruct_passes_Suc:
  assumes "keys_ok ks"
  shows "destruct_passes (Suc n) run t ks =
    (if due_values t ks = [] then ([], map (clear_value t) ks)
     else (case destruct_passes n run t (run_destructors run (due_values t ks) (map (clear_value t) ks)) of (passes, ks') \<Rightarrow> (due_values t ks # passes, ks')))"
  using destruct_pass_spec [of ks t] assms by (simp add: keys_ok_def)

lemma value_of_erased: "value_of t (filter (\<lambda>v. fst v \<noteq> t) vs) = 0"
  by (induction vs) auto

lemma due_values_erase: "due_values t (erase_thread t ks) = []"
  by (auto simp: due_values_def erase_thread_def value_of_erased)

lemma destruct_passes_spec:
  assumes "\<And>d v ks. keys_ok ks \<Longrightarrow> keys_ok (run d v ks)" and "keys_ok ks" and "destruct_passes n run t ks = (passes, ks')"
  shows "length passes \<le> n \<and> due_values t ks' = [] \<and> (passes = [] \<longleftrightarrow> n = 0 \<or> due_values t ks = []) \<and> (\<forall>c \<in> set passes. c \<noteq> []) \<and>
    (length passes = n \<longrightarrow> n = 0 \<or> passes \<noteq> [])"
  using assms(2,3)
proof (induction n arbitrary: ks passes ks')
  case 0
  then show ?case using due_values_erase by auto
next
  case (Suc n)
  show ?case
  proof (cases "due_values t ks = []")
    case True
    then show ?thesis using Suc.prems(2) due_values_clear [OF Suc.prems(1)] unfolding destruct_passes_Suc [OF Suc.prems(1)] by auto
  next
    case False
    define k1 where "k1 = run_destructors run (due_values t ks) (map (clear_value t) ks)"
    obtain ps k2 where r: "destruct_passes n run t k1 = (ps, k2)" by (cases "destruct_passes n run t k1")
    have "keys_ok k1" unfolding k1_def by (intro run_destructors_ok assms(1) clear_keys_ok Suc.prems)
    note ih = Suc.IH [OF this r]
    have "passes = due_values t ks # ps" "ks' = k2" using Suc.prems(2) r False unfolding destruct_passes_Suc [OF Suc.prems(1)] k1_def by auto
    then show ?thesis using ih False by auto
  qed
qed

lemma run_destructors_id [simp]: "run_destructors (\<lambda>d v ks. ks) calls ks = ks"
  unfolding run_destructors_def by (induction calls) auto

lemma key_value_clear:
  assumes "keys_ok ks"
  shows "key_value (map (clear_value t) ks) j u = (if u = t \<and> j < length ks \<and> ky_used (ks ! j) \<and> ky_destructor (ks ! j) \<noteq> 0 then Some 0 else key_value ks j u)"
  using assms by (auto simp: key_value_def clear_value_of keys_ok_def)

text \<open>
  C31: what the end of a thread does to its values. Whatever the destructors store, there are at most four
  passes of calls and in the end no value of the thread is due for a destructor. The first pass calls the
  destructor of every key under which the thread has a value that is not null, with that value, once, in
  the order of the keys, and by then the thread reads null there. When the destructors store nothing that is
  the only pass; all other values, of other threads and of keys without destructor, are as they were.
\<close>

theorem keys_destruct_exact:
  assumes "keys_ok ks" and "\<And>d v ks. keys_ok ks \<Longrightarrow> keys_ok (run d v ks)"
    and "PthreadKeys_Destruct run t ks = (passes, ks')"
  shows "length passes \<le> DESTRUCTOR_ITERATIONS \<and> due_values t ks' = [] \<and>
    (passes = [] \<longleftrightarrow> due_values t ks = []) \<and>
    (passes \<noteq> [] \<longrightarrow> hd passes = due_values t ks) \<and>
    (\<forall>j u. key_value (snd (destruct_pass t ks)) j u =
      (if u = t \<and> j < length ks \<and> ky_used (ks ! j) \<and> ky_destructor (ks ! j) \<noteq> 0 then Some 0 else key_value ks j u)) \<and>
    (run = (\<lambda>d v ks. ks) \<longrightarrow> passes = (if due_values t ks = [] then [] else [due_values t ks]) \<and>
      (\<forall>j u. key_value ks' j u = key_value (snd (destruct_pass t ks)) j u))"
proof -
  have p: "destruct_passes 4 run t ks = (passes, ks')" using assms(3) by (simp only: PthreadKeys_Destruct_def)
  note s = destruct_passes_spec [OF assms(2,1) p]
  have pass: "destruct_pass t ks = (due_values t ks, map (clear_value t) ks)" using destruct_pass_spec assms(1) by (simp add: keys_ok_def)
  have four: "(4::nat) = Suc (Suc 2)" by simp
  have hd: "hd passes = due_values t ks" if "passes \<noteq> []"
    using p that unfolding four destruct_passes_Suc [OF assms(1)] by (auto split: if_splits prod.splits)
  have idle: "passes = (if due_values t ks = [] then [] else [due_values t ks]) \<and> key_value ks' j u = key_value (map (clear_value t) ks) j u"
    if "run = (\<lambda>d v ks. ks)" for j u
  proof -
    let ?cl = "map (clear_value t)"
    note ok1 = clear_keys_ok [OF assms(1), of t]
    have one: "destruct_passes (Suc 2) run t (?cl ks) = ([], ?cl (?cl ks))"
      unfolding destruct_passes_Suc [OF ok1] using due_values_clear [OF assms(1)] by simp
    have "(passes, ks') = (if due_values t ks = [] then ([], ?cl ks) else ([due_values t ks], ?cl (?cl ks)))"
      using p unfolding four destruct_passes_Suc [OF assms(1)] that run_destructors_id one [unfolded that] by (auto split: if_splits)
    moreover have "key_value (?cl (?cl ks)) j u = key_value (?cl ks) j u"
      unfolding key_value_clear [OF ok1] unfolding key_value_clear [OF assms(1)] by (cases "j < length ks") auto
    ultimately show ?thesis by (simp split: if_splits)
  qed
  show ?thesis
    unfolding pass snd_conv
  proof (intro conjI)
    show "\<forall>j u. key_value (map (clear_value t) ks) j u =
      (if u = t \<and> j < length ks \<and> ky_used (ks ! j) \<and> ky_destructor (ks ! j) \<noteq> 0 then Some 0 else key_value ks j u)"
      using key_value_clear [OF assms(1)] by blast
    show "run = (\<lambda>d v ks. ks) \<longrightarrow> passes = (if due_values t ks = [] then [] else [due_values t ks]) \<and>
      (\<forall>j u. key_value ks' j u = key_value (map (clear_value t) ks) j u)" using idle by blast
  qed (use s hd in auto)
qed

lemma keys_destruct_exact_witness:
  "PthreadKeys_Destruct (\<lambda>d v ks. ks) 7 (new_keys[0 := \<lparr>ky_used = True, ky_destructor = 9, ky_values = [(7, 5)]\<rparr>]) =
    ([[(9, 5)]], snd (PthreadKeys_Destruct (\<lambda>d v ks. ks) 7 (new_keys[0 := \<lparr>ky_used = True, ky_destructor = 9, ky_values = [(7, 5)]\<rparr>])))"
proof -
  let ?ks = "new_keys[0 := \<lparr>ky_used = True, ky_destructor = 9, ky_values = [(7, 5)]\<rparr>]"
  have ok: "keys_ok ?ks" by (rule keys_ok_update [OF new_keys_ok]) simp
  have "?ks = \<lparr>ky_used = True, ky_destructor = 9, ky_values = [(7, 5)]\<rparr> # replicate 255 \<lparr>ky_used = False, ky_destructor = 0, ky_values = []\<rparr>"
    by (simp add: new_keys_def numeral_eq_Suc)
  then have due: "due_values 7 ?ks = [(9, 5)]" by (simp add: due_values_def)
  obtain ps ks' where d: "PthreadKeys_Destruct (\<lambda>d v ks. ks) 7 ?ks = (ps, ks')" by (cases "PthreadKeys_Destruct (\<lambda>d v ks. ks) 7 ?ks")
  have "ps = [[(9, 5)]]" using keys_destruct_exact [OF ok _ d] due by simp
  then show ?thesis using d by simp
qed

section \<open>One-time initialisation\<close>

text \<open>
  \<open>pthread_once\<close>: the switch at the head of its loop under the mutex; a thread that is to initialise leaves
  the loop, calls the routine without the mutex and then stores the end (\<open>once_finish\<close>); one that waits
  looks at the state at every wake-up.
\<close>

definition PTHREAD_ONCE_NEEDS_INIT :: int where "PTHREAD_ONCE_NEEDS_INIT = 0"
definition PTHREAD_ONCE_DONE_INIT :: int where "PTHREAD_ONCE_DONE_INIT = 1"
definition PTHREAD_ONCE_IN_PROGRESS :: int where "PTHREAD_ONCE_IN_PROGRESS = 2"
definition PTHREAD_ONCE_WAIT :: int where "PTHREAD_ONCE_WAIT = 3"

lemmas once_defs = PTHREAD_ONCE_NEEDS_INIT_def PTHREAD_ONCE_DONE_INIT_def PTHREAD_ONCE_IN_PROGRESS_def PTHREAD_ONCE_WAIT_def

datatype once_outcome = OnceReturned int | OnceRun | OnceSleeping

definition once_head :: "int \<Rightarrow> once_outcome \<times> int" where
  "once_head state =
     (if state = PTHREAD_ONCE_DONE_INIT then (OnceReturned OK, state)
      else if state = PTHREAD_ONCE_NEEDS_INIT then (OnceRun, PTHREAD_ONCE_IN_PROGRESS)
      else if state = PTHREAD_ONCE_IN_PROGRESS \<or> state = PTHREAD_ONCE_WAIT then (OnceSleeping, PTHREAD_ONCE_WAIT)
      else (OnceReturned POSIX_EINVAL, state))"

definition pthread_once_begin :: "bool \<Rightarrow> bool \<Rightarrow> int \<Rightarrow> once_outcome \<times> int" where
  "pthread_once_begin once_null routine_null state =
     (if once_null \<or> routine_null then (OnceReturned POSIX_EINVAL, state) else once_head state)"

definition once_turn :: "int \<Rightarrow> once_outcome \<times> int" where
  "once_turn state = (if state = PTHREAD_ONCE_WAIT then (OnceSleeping, state) else once_head state)"

definition once_finish :: "int \<Rightarrow> once_outcome \<times> int" where
  "once_finish state = (OnceReturned OK, PTHREAD_ONCE_DONE_INIT)"

text \<open>
  Any number of threads call it with the same control block: what each is doing (\<open>OnceReturned\<close> for one that
  has returned), and two ghost counters, of routines begun and ended.
\<close>

record once_sys =
  on_state :: int
  on_phase :: "nat \<Rightarrow> once_outcome option"
  on_begun :: nat
  on_ended :: nat

definition once_go :: "nat \<Rightarrow> once_outcome \<times> int \<Rightarrow> once_sys \<Rightarrow> once_sys" where
  "once_go t r y = y\<lparr>on_state := snd r, on_phase := (on_phase y)(t \<mapsto> fst r), on_begun := on_begun y + (if fst r = OnceRun then 1 else 0)\<rparr>"

inductive once_step :: "once_sys \<Rightarrow> once_sys \<Rightarrow> bool" where
  once_call: "on_phase y t = None \<or> (\<exists>code. on_phase y t = Some (OnceReturned code)) \<Longrightarrow>
    once_step y (once_go t (pthread_once_begin False False (on_state y)) y)"
| once_wake: "on_phase y t = Some OnceSleeping \<Longrightarrow> once_step y (once_go t (once_turn (on_state y)) y)"
| once_end: "on_phase y t = Some OnceRun \<Longrightarrow>
    once_step y ((once_go t (once_finish (on_state y)) y)\<lparr>on_ended := on_ended y + 1\<rparr>)"

inductive once_reachable :: "once_sys \<Rightarrow> bool" where
  once_new: "once_reachable \<lparr>on_state = PTHREAD_ONCE_NEEDS_INIT, on_phase = (\<lambda>t. None), on_begun = 0, on_ended = 0\<rparr>"
| once_next: "once_reachable y \<Longrightarrow> once_step y y' \<Longrightarrow> once_reachable y'"

definition once_ok :: "once_sys \<Rightarrow> bool" where
  "once_ok y \<longleftrightarrow>
     (on_state y = PTHREAD_ONCE_NEEDS_INIT \<and> on_begun y = 0 \<and> on_ended y = 0 \<and> (\<forall>t. on_phase y t = None) \<or>
      on_state y \<in> {PTHREAD_ONCE_IN_PROGRESS, PTHREAD_ONCE_WAIT} \<and> on_begun y = 1 \<and> on_ended y = 0 \<and>
        (\<exists>t. on_phase y t = Some OnceRun \<and> (\<forall>u. u \<noteq> t \<longrightarrow> on_phase y u \<in> {None, Some OnceSleeping})) \<and>
        (on_state y = PTHREAD_ONCE_IN_PROGRESS \<longrightarrow> (\<forall>u. on_phase y u \<noteq> Some OnceSleeping)) \<or>
      on_state y = PTHREAD_ONCE_DONE_INIT \<and> on_begun y = 1 \<and> on_ended y = 1 \<and>
        (\<forall>t. on_phase y t \<in> {None, Some OnceSleeping, Some (OnceReturned OK)}))"

lemma once_ok_cases:
  assumes "once_ok y"
  obtains (fresh) "on_state y = 0" "on_begun y = 0" "on_ended y = 0" "\<forall>t. on_phase y t = None"
  | (busy) r where "on_state y = 2 \<or> on_state y = 3" "on_begun y = 1" "on_ended y = 0" "on_phase y r = Some OnceRun"
      "\<forall>u. u \<noteq> r \<longrightarrow> on_phase y u \<in> {None, Some OnceSleeping}" "on_state y = 2 \<longrightarrow> (\<forall>u. on_phase y u \<noteq> Some OnceSleeping)"
  | (done_init) "on_state y = 1" "on_begun y = 1" "on_ended y = 1" "\<forall>t. on_phase y t \<in> {None, Some OnceSleeping, Some (OnceReturned OK)}"
proof -
  from assms show thesis
    unfolding once_ok_def once_defs
  proof (elim disjE conjE exE)
    fix r
    assume "on_state y \<in> {2, 3}" "on_begun y = 1" "on_ended y = 0" "on_state y = 2 \<longrightarrow> (\<forall>u. on_phase y u \<noteq> Some OnceSleeping)"
      "on_phase y r = Some OnceRun" "\<forall>u. u \<noteq> r \<longrightarrow> on_phase y u \<in> {None, Some OnceSleeping}"
    then show thesis by (intro busy) auto
  qed (rule fresh done_init, assumption+)+
qed

lemma once_step_ok: "once_step y y' \<Longrightarrow> once_ok y \<Longrightarrow> once_ok y'"
proof (induction rule: once_step.induct)
  case (once_call y t)
  show ?case
    using once_call(2)
  proof (cases rule: once_ok_cases)
    case fresh
    then show ?thesis by (simp add: once_ok_def once_go_def pthread_once_begin_def once_head_def once_defs)
  next
    case (busy r)
    then have "t \<noteq> r" using once_call(1) by auto
    then show ?thesis using busy once_call(1) unfolding once_ok_def once_defs
      by (intro disjI2 disjI1) (auto simp: once_go_def pthread_once_begin_def once_head_def once_defs intro!: exI [of _ r])
  next
    case done_init
    then show ?thesis by (simp add: once_ok_def once_go_def pthread_once_begin_def once_head_def once_defs)
  qed
next
  case (once_wake y t)
  show ?case
    using once_wake(2)
  proof (cases rule: once_ok_cases)
    case fresh
    then show ?thesis using once_wake(1) by simp
  next
    case (busy r)
    then have "once_go t (once_turn (on_state y)) y = y" using once_wake(1)
      by (auto simp: once_go_def once_turn_def once_defs fun_upd_idem)
    then show ?thesis using once_wake(2) by simp
  next
    case done_init
    have "((on_phase y)(t \<mapsto> OnceReturned OK)) u \<in> {None, Some OnceSleeping, Some (OnceReturned OK)}" for u
      using done_init(4) [rule_format, of u] by (cases "u = t") simp_all
    then show ?thesis using done_init(1-3) unfolding once_ok_def once_defs
      by (intro disjI2) (simp add: once_go_def once_turn_def once_head_def once_defs)
  qed
next
  case (once_end y t)
  show ?case
    using once_end(2)
  proof (cases rule: once_ok_cases)
    case fresh
    then show ?thesis using once_end(1) by simp
  next
    case (busy r)
    then have "t = r" using once_end(1) by auto
    then have "((on_phase y)(t \<mapsto> OnceReturned OK)) u \<in> {None, Some OnceSleeping, Some (OnceReturned OK)}" for u
      using busy(5) by (cases "u = t") auto
    then show ?thesis using busy(2,3) unfolding once_ok_def once_defs
      by (intro disjI2) (simp add: once_go_def once_finish_def once_defs)
  next
    case done_init
    then show ?thesis using once_end(1) done_init(4) [rule_format, of t] by simp
  qed
qed

lemma once_reachable_ok: "once_reachable y \<Longrightarrow> once_ok y"
proof (induction rule: once_reachable.induct)
  case once_new
  show ?case by (simp add: once_ok_def)
next
  case (once_next y y')
  then show ?case using once_step_ok by blast
qed

text \<open>
  C29: one-time initialisation, for any interleaving of any number of callers: the routine is begun at most
  once, whoever has returned from the call has returned success and the routine had ended before, a first
  call runs the routine, a call or wake-up while it runs sleeps, and one after its end returns at once.
\<close>

theorem pthread_once_exact:
  assumes "once_reachable y"
  shows "on_begun y \<le> 1 \<and> on_ended y \<le> on_begun y \<and>
    (\<forall>t code. on_phase y t = Some (OnceReturned code) \<longrightarrow> code = OK \<and> on_ended y = 1) \<and>
    (\<forall>t u. on_phase y t = Some OnceRun \<longrightarrow> on_phase y u = Some OnceRun \<longrightarrow> t = u) \<and>
    fst (pthread_once_begin False False (on_state y)) =
      (if on_begun y = 0 then OnceRun else if on_ended y = 0 then OnceSleeping else OnceReturned OK) \<and>
    (\<forall>t. on_phase y t = Some OnceSleeping \<longrightarrow> fst (once_turn (on_state y)) = (if on_ended y = 0 then OnceSleeping else OnceReturned OK))"
proof -
  show ?thesis
    using once_reachable_ok [OF assms]
  proof (cases rule: once_ok_cases)
    case fresh
    then show ?thesis by (simp add: pthread_once_begin_def once_head_def once_defs)
  next
    case (busy r)
    have "t = r" if "on_phase y t = Some OnceRun" for t using busy(5) that by auto
    then have "t = u" if "on_phase y t = Some OnceRun" "on_phase y u = Some OnceRun" for t u using that by metis
    moreover have "on_phase y t \<noteq> Some (OnceReturned code)" for t code using busy(4,5) by (cases "t = r") auto
    ultimately show ?thesis using busy(1-3,6) by (auto simp: pthread_once_begin_def once_head_def once_turn_def once_defs)
  next
    case done_init
    have "on_phase y t = Some (OnceReturned code) \<Longrightarrow> code = OK" "on_phase y t \<noteq> Some OnceRun" for t code
      using done_init(4) [rule_format, of t] by auto
    then show ?thesis using done_init(1-3) by (auto simp: pthread_once_begin_def once_head_def once_turn_def once_defs)
  qed
qed

definition once_example :: once_sys where
  "once_example = \<lparr>on_state = 2, on_phase = (\<lambda>t. None)(1 \<mapsto> OnceRun), on_begun = 1, on_ended = 0\<rparr>"

lemma once_example_reachable: "once_reachable once_example"
proof -
  let ?y = "\<lparr>on_state = PTHREAD_ONCE_NEEDS_INIT, on_phase = (\<lambda>t. None), on_begun = 0, on_ended = 0\<rparr>"
  have "once_step ?y (once_go 1 (pthread_once_begin False False (on_state ?y)) ?y)" by (rule once_call) simp
  moreover have "once_go 1 (pthread_once_begin False False (on_state ?y)) ?y = once_example"
    by (simp add: once_go_def pthread_once_begin_def once_head_def once_example_def once_defs)
  ultimately show ?thesis using once_next [OF once_new] by simp
qed

lemma pthread_once_exact_witness: "fst (pthread_once_begin False False (on_state once_example)) = OnceSleeping"
  using pthread_once_exact [OF once_example_reachable] by (simp add: once_example_def)

end
