(* ===== verification/LruCache.thy ===== *)
theory LruCache
  imports Prelude
begin

text \<open>
  The cache order of the texture cache (src/src/common/lruCache.h): a doubly linked list of items threaded
  through a deque, oldest use first, with a queue of free positions.

  A pointer to an item is its position in the deque (whose elements never move), None for null; a tick is
  a \<open>uint64_t\<close>. The client's callback does not change the cache: it is a function of the object and of the
  client's state that says whether to stop.
\<close>

record 'a lru_item =
  it_object :: 'a
  it_tick :: nat
  it_next :: "nat option"
  it_prev :: "nat option"

record 'a lru =
  lc_items :: "'a lru_item list"
  lc_free :: "nat list"
  lc_first :: "nat option"
  lc_last :: "nat option"

definition new_lru :: "'a lru" where
  "new_lru = \<lparr>lc_items = [], lc_free = [], lc_first = None, lc_last = None\<rparr>"

definition change_item :: "nat \<Rightarrow> ('a lru_item \<Rightarrow> 'a lru_item) \<Rightarrow> 'a lru \<Rightarrow> 'a lru" where
  "change_item i f c = c\<lparr>lc_items := (lc_items c)[i := f (lc_items c ! i)]\<rparr>"

abbreviation item :: "'a lru \<Rightarrow> nat \<Rightarrow> 'a lru_item" where
  "item c i \<equiv> lc_items c ! i"

text \<open>\<open>blank\<close> stands for \<open>Object {}\<close>, the value of an object that is not set yet.\<close>

definition lru_Build :: "'a \<Rightarrow> 'a lru \<Rightarrow> nat \<times> 'a lru" where
  "lru_Build blank c =
     (case lc_free c of
        [] \<Rightarrow> (length (lc_items c), c\<lparr>lc_items := lc_items c @ [\<lparr>it_object = blank, it_tick = 0, it_next = None, it_prev = None\<rparr>]\<rparr>)
      | i # rest \<Rightarrow> (i, c\<lparr>lc_free := rest\<rparr>))"

definition lru_Attach :: "nat \<Rightarrow> 'a lru \<Rightarrow> 'a lru" where
  "lru_Attach i c =
     (let c = (if lc_first c = None then c\<lparr>lc_first := Some i\<rparr> else c) in
      case lc_last c of
        None \<Rightarrow> c\<lparr>lc_last := Some i\<rparr>
      | Some l \<Rightarrow>
          (let c = change_item i (\<lambda>it. it\<lparr>it_prev := Some l\<rparr>) c;
               c = change_item l (\<lambda>it. it\<lparr>it_next := Some i\<rparr>) c;
               c = change_item i (\<lambda>it. it\<lparr>it_next := None\<rparr>) c in c\<lparr>lc_last := Some i\<rparr>))"

definition lru_Detach :: "nat \<Rightarrow> 'a lru \<Rightarrow> 'a lru" where
  "lru_Detach i c =
     (let c = (case it_prev (item c i) of None \<Rightarrow> c | Some p \<Rightarrow> change_item p (\<lambda>it. it\<lparr>it_next := it_next (item c i)\<rparr>) c);
          c = (case it_next (item c i) of None \<Rightarrow> c | Some n \<Rightarrow> change_item n (\<lambda>it. it\<lparr>it_prev := it_prev (item c i)\<rparr>) c);
          c = (if lc_first c = Some i then c\<lparr>lc_first := it_next (item c i)\<rparr> else c) in
      if lc_last c = Some i then c\<lparr>lc_last := it_prev (item c i)\<rparr> else c)"

definition lru_Insert :: "'a \<Rightarrow> 'a \<Rightarrow> nat \<Rightarrow> 'a lru \<Rightarrow> nat \<times> 'a lru" where
  "lru_Insert blank obj tick c =
     (let (i, c) = lru_Build blank c;
          c = change_item i (\<lambda>it. it\<lparr>it_object := obj, it_tick := tick\<rparr>) c in (i, lru_Attach i c))"

definition lru_Touch :: "nat \<Rightarrow> nat \<Rightarrow> 'a lru \<Rightarrow> 'a lru" where
  "lru_Touch i tick c =
     (if it_tick (item c i) \<ge> tick then c
      else (let c = change_item i (\<lambda>it. it\<lparr>it_tick := tick\<rparr>) c in
        if lc_last c \<noteq> Some i then lru_Attach i (lru_Detach i c) else c))"

definition lru_Free :: "nat \<Rightarrow> 'a lru \<Rightarrow> 'a lru" where
  "lru_Free i c =
     (let c = lru_Detach i c; c = change_item i (\<lambda>it. it\<lparr>it_next := None, it_prev := None\<rparr>) c in
      c\<lparr>lc_free := lc_free c @ [i]\<rparr>)"

text \<open>The walk along the pointers, None if it did not end.\<close>

partial_function (option) lru_walk :: "nat \<Rightarrow> ('a \<Rightarrow> 's \<Rightarrow> bool \<times> 's) \<Rightarrow> 'a lru \<Rightarrow> nat option \<Rightarrow> 's \<Rightarrow> 's option" where
  "lru_walk tick f c p s =
     (case p of None \<Rightarrow> Some s
      | Some i \<Rightarrow>
          if it_tick (item c i) > tick then Some s
          else if fst (f (it_object (item c i)) s) then Some (snd (f (it_object (item c i)) s))
          else lru_walk tick f c (it_next (item c i)) (snd (f (it_object (item c i)) s)))"

definition lru_ForEachItemBelow :: "nat \<Rightarrow> ('a \<Rightarrow> 's \<Rightarrow> bool \<times> 's) \<Rightarrow> 'a lru \<Rightarrow> 's \<Rightarrow> 's option" where
  "lru_ForEachItemBelow tick f c s = lru_walk tick f c (lc_first c) s"

section \<open>Linked segments\<close>

definition head_or :: "nat list \<Rightarrow> nat option \<Rightarrow> nat option" where
  "head_or xs q = (case xs of [] \<Rightarrow> q | x # _ \<Rightarrow> Some x)"

definition last_or :: "nat list \<Rightarrow> nat option \<Rightarrow> nat option" where
  "last_or xs p = (if xs = [] then p else Some (last xs))"

lemma head_or_simps [simp]: "head_or [] q = q" "head_or (x # xs) q = Some x"
  by (simp_all add: head_or_def)

lemma last_or_simps [simp]: "last_or [] p = p" "last_or (x # xs) p = last_or xs (Some x)" "last_or (xs @ y # ys) p = last_or ys (Some y)"
  by (simp_all add: last_or_def)

text \<open>\<open>xs\<close> is linked from after \<open>p\<close> to before \<open>q\<close>.\<close>

primrec seg :: "(nat \<Rightarrow> nat option) \<Rightarrow> (nat \<Rightarrow> nat option) \<Rightarrow> nat option \<Rightarrow> nat list \<Rightarrow> nat option \<Rightarrow> bool" where
  "seg nx pv p [] q = True"
| "seg nx pv p (x # xs) q \<longleftrightarrow> pv x = p \<and> nx x = head_or xs q \<and> seg nx pv (Some x) xs q"

lemma head_or_append: "head_or (xs @ ys) q = head_or xs (head_or ys q)"
  by (cases xs) simp_all

lemma seg_append: "seg nx pv p (xs @ ys) q \<longleftrightarrow> seg nx pv p xs (head_or ys q) \<and> seg nx pv (last_or xs p) ys q"
  by (induction xs arbitrary: p) (auto simp: head_or_append)

lemma seg_cong: "(\<And>x. x \<in> set xs \<Longrightarrow> nx x = nx' x \<and> pv x = pv' x) \<Longrightarrow> seg nx pv p xs q = seg nx' pv' p xs q"
  by (induction xs arbitrary: p) auto

text \<open>Linking the ends of a segment to something else.\<close>

lemma seg_last:
  assumes "seg nx pv p xs q" and "distinct xs" and "\<And>x. x \<in> set xs \<Longrightarrow> pv' x = pv x"
    and "\<And>x. x \<in> set xs \<Longrightarrow> Some x \<noteq> last_or xs None \<Longrightarrow> nx' x = nx x" and "\<And>x. last_or xs None = Some x \<Longrightarrow> nx' x = q'"
  shows "seg nx' pv' p xs q'"
  using assms
proof (induction xs arbitrary: p)
  case (Cons x xs)
  show ?case
  proof (cases xs)
    case Nil
    then show ?thesis using Cons.prems by simp
  next
    case (Cons y ys)
    have l: "last_or (x # xs) None = last_or xs None" using Cons by simp
    have "x \<noteq> last xs" using Cons.prems(2) Cons by auto
    then have "nx' x = nx x" using Cons.prems(4) [of x] Cons by (auto simp: last_or_def)
    moreover have "seg nx' pv' (Some x) xs q'" using Cons.prems by (intro Cons.IH) (auto simp: l [symmetric])
    ultimately show ?thesis using Cons.prems Cons by simp
  qed
qed simp

lemma seg_head:
  assumes "seg nx pv p xs q" and "distinct xs" and "\<And>x. x \<in> set xs \<Longrightarrow> nx' x = nx x"
    and "\<And>x. x \<in> set xs \<Longrightarrow> Some x \<noteq> head_or xs None \<Longrightarrow> pv' x = pv x" and "\<And>x. head_or xs None = Some x \<Longrightarrow> pv' x = p'"
  shows "seg nx' pv' p' xs q"
proof (cases xs)
  case (Cons x ys)
  have "seg nx' pv' (Some x) ys q = seg nx pv (Some x) ys q" using assms(2-4) Cons by (intro seg_cong) auto
  then show ?thesis using assms Cons by simp
qed simp

section \<open>The list\<close>

definition dll :: "'a lru \<Rightarrow> nat list \<Rightarrow> bool" where
  "dll c xs \<longleftrightarrow> distinct xs \<and> (\<forall>x \<in> set xs. x < length (lc_items c)) \<and> lc_first c = head_or xs None \<and> lc_last c = last_or xs None \<and>
     seg (\<lambda>i. it_next (item c i)) (\<lambda>i. it_prev (item c i)) None xs None"

lemma change_item_sel [simp]:
  "length (lc_items (change_item i f c)) = length (lc_items c)" "lc_free (change_item i f c) = lc_free c"
  "lc_first (change_item i f c) = lc_first c" "lc_last (change_item i f c) = lc_last c"
  by (simp_all add: change_item_def)

lemma item_change_item [simp]:
  "i < length (lc_items c) \<Longrightarrow> item (change_item i f c) j = (if j = i then f (item c i) else item c j)"
  by (simp add: change_item_def)

text \<open>What an operation leaves alone: the number of items, the free positions, objects and ticks, and all of the items outside \<open>A\<close>.\<close>

definition lru_frame :: "nat set \<Rightarrow> 'a lru \<Rightarrow> 'a lru \<Rightarrow> bool" where
  "lru_frame A c c' \<longleftrightarrow> length (lc_items c') = length (lc_items c) \<and> lc_free c' = lc_free c \<and>
     (\<forall>j. it_object (item c' j) = it_object (item c j) \<and> it_tick (item c' j) = it_tick (item c j)) \<and>
     (\<forall>j. j \<notin> A \<longrightarrow> item c' j = item c j)"

lemma lru_Attach_spec:
  assumes "dll c xs" and "i \<notin> set xs" and "i < length (lc_items c)"
    and "xs = [] \<Longrightarrow> it_next (item c i) = None \<and> it_prev (item c i) = None"
  shows "dll (lru_Attach i c) (xs @ [i]) \<and> lru_frame (insert i (set xs)) c (lru_Attach i c)"
proof (cases xs rule: rev_cases)
  case Nil
  then have "lru_Attach i c = c\<lparr>lc_first := Some i, lc_last := Some i\<rparr>" using assms(1) by (simp add: dll_def lru_Attach_def)
  then show ?thesis using Nil assms by (simp add: dll_def lru_frame_def)
next
  case (snoc ys l)
  have d: "distinct xs" "\<And>x. x \<in> set xs \<Longrightarrow> x < length (lc_items c)" "lc_first c = head_or xs None" "lc_last c = Some l"
    "seg (\<lambda>i. it_next (item c i)) (\<lambda>i. it_prev (item c i)) None xs None"
    using assms(1) snoc by (auto simp: dll_def)
  have l: "l < length (lc_items c)" "l \<in> set xs" "l \<noteq> i" using d(2) snoc assms(2) by auto
  obtain h where f: "lc_first c = Some h" using d(3) snoc by (cases ys) auto
  define c1 where "c1 = change_item i (\<lambda>it. it\<lparr>it_next := None\<rparr>) (change_item l (\<lambda>it. it\<lparr>it_next := Some i\<rparr>) (change_item i (\<lambda>it. it\<lparr>it_prev := Some l\<rparr>) c))"
  have at: "lru_Attach i c = c1\<lparr>lc_last := Some i\<rparr>" using f d(4) by (simp add: lru_Attach_def c1_def Let_def)
  have it: "item c1 j = (if j = i then (item c i)\<lparr>it_prev := Some l, it_next := None\<rparr> else if j = l then (item c l)\<lparr>it_next := Some i\<rparr> else item c j)" for j
    using assms(3) l by (simp add: c1_def)
  have "seg (\<lambda>i. it_next (item c1 i)) (\<lambda>i. it_prev (item c1 i)) None xs (Some i)"
    by (rule seg_last [OF d(5,1)]) (use assms(2) snoc l in \<open>auto simp: it\<close>)
  then have "seg (\<lambda>i. it_next (item c1 i)) (\<lambda>i. it_prev (item c1 i)) None (xs @ [i]) None"
    using snoc by (simp add: seg_append) (simp add: it)
  then have "dll (lru_Attach i c) (xs @ [i])"
    using d(1-3) assms(2,3) snoc unfolding dll_def at by (auto simp: c1_def head_or_append)
  moreover have "lru_frame (insert i (set xs)) c (lru_Attach i c)"
    using l assms(3) by (auto simp: at lru_frame_def it) (auto simp: c1_def)
  ultimately show ?thesis by blast
qed

lemma lru_Detach_eq:
  "lru_Detach i c =
    (let nx = it_next (item c i); pv = it_prev (item c i);
         c1 = (case pv of None \<Rightarrow> c | Some p \<Rightarrow> change_item p (\<lambda>it. it\<lparr>it_next := nx\<rparr>) c);
         c2 = (case it_next (item c1 i) of None \<Rightarrow> c1 | Some n \<Rightarrow> change_item n (\<lambda>it. it\<lparr>it_prev := it_prev (item c1 i)\<rparr>) c1);
         c3 = (if lc_first c2 = Some i then c2\<lparr>lc_first := it_next (item c2 i)\<rparr> else c2) in
     if lc_last c3 = Some i then c3\<lparr>lc_last := it_prev (item c3 i)\<rparr> else c3)"
  by (simp add: lru_Detach_def Let_def)

lemma lru_Detach_spec:
  assumes "dll c (as @ i # bs)"
  shows "dll (lru_Detach i c) (as @ bs) \<and> lru_frame (set (as @ bs)) c (lru_Detach i c)"
proof -
  let ?nx = "head_or bs None" and ?pv = "last_or as None"
  have d: "distinct (as @ i # bs)" "\<And>x. x \<in> set (as @ i # bs) \<Longrightarrow> x < length (lc_items c)" "lc_first c = head_or (as @ i # bs) None"
    "lc_last c = last_or (as @ i # bs) None"
    "seg (\<lambda>i. it_next (item c i)) (\<lambda>i. it_prev (item c i)) None as (Some i)"
    "seg (\<lambda>i. it_next (item c i)) (\<lambda>i. it_prev (item c i)) (Some i) bs None" "it_next (item c i) = ?nx" "it_prev (item c i) = ?pv"
    using assms by (auto simp: dll_def seg_append)
  have pv: "p \<in> set as" if "?pv = Some p" for p using that by (auto simp: last_or_def split: if_splits)
  have nx: "n \<in> set bs" if "?nx = Some n" for n using that by (cases bs) auto
  define c1 where "c1 = (case ?pv of None \<Rightarrow> c | Some p \<Rightarrow> change_item p (\<lambda>it. it\<lparr>it_next := ?nx\<rparr>) c)"
  have i1: "item c1 j = (if ?pv = Some j then (item c j)\<lparr>it_next := ?nx\<rparr> else item c j)" for j
    using pv d(2) by (auto simp: c1_def split: option.splits)
  have s1: "length (lc_items c1) = length (lc_items c)" "lc_free c1 = lc_free c" "lc_first c1 = lc_first c" "lc_last c1 = lc_last c"
    by (simp_all add: c1_def split: option.splits)
  define c2 where "c2 = (case ?nx of None \<Rightarrow> c1 | Some n \<Rightarrow> change_item n (\<lambda>it. it\<lparr>it_prev := ?pv\<rparr>) c1)"
  have i2: "item c2 j = (if ?nx = Some j then (item c1 j)\<lparr>it_prev := ?pv\<rparr> else item c1 j)" for j
    using nx d(2) s1(1) by (auto simp: c2_def split: option.splits)
  have s2: "length (lc_items c2) = length (lc_items c)" "lc_free c2 = lc_free c" "lc_first c2 = lc_first c" "lc_last c2 = lc_last c"
    by (simp_all add: c2_def s1 split: option.splits)
  have ni: "?pv \<noteq> Some i" "?nx \<noteq> Some i" using pv nx d(1) by auto
  have it: "item c2 i = item c i" "it_next (item c1 i) = ?nx" "it_prev (item c1 i) = ?pv" using ni d(7,8) by (simp_all add: i1 i2)
  have eq: "lru_Detach i c = c2\<lparr>lc_first := (if lc_first c = Some i then ?nx else lc_first c), lc_last := (if lc_last c = Some i then ?pv else lc_last c)\<rparr>"
    unfolding lru_Detach_eq Let_def d(7,8) c1_def [symmetric] it(2,3) c2_def [symmetric] using it(1) d(7,8) s2 by simp
  have dis: "set as \<inter> set bs = {}" "i \<notin> set as" "i \<notin> set bs" "distinct as" "distinct bs" using d(1) by auto
  have "seg (\<lambda>i. it_next (item c2 i)) (\<lambda>i. it_prev (item c2 i)) None as ?nx"
  proof (rule seg_last [OF d(5) dis(4)])
    fix x assume x: "x \<in> set as"
    then have "?nx \<noteq> Some x" using nx dis(1) by auto
    then show "it_prev (item c2 x) = it_prev (item c x)" "Some x \<noteq> ?pv \<Longrightarrow> it_next (item c2 x) = it_next (item c x)"
      by (simp_all add: i1 i2)
  next
    fix x assume x: "?pv = Some x"
    then have "?nx \<noteq> Some x" using nx pv dis(1) by auto
    then show "it_next (item c2 x) = ?nx" using x by (simp add: i1 i2)
  qed
  moreover have "seg (\<lambda>i. it_next (item c2 i)) (\<lambda>i. it_prev (item c2 i)) ?pv bs None"
  proof (rule seg_head [OF d(6) dis(5)])
    fix x assume x: "x \<in> set bs"
    then have "?pv \<noteq> Some x" using pv dis(1) by auto
    then show "it_next (item c2 x) = it_next (item c x)" "Some x \<noteq> ?nx \<Longrightarrow> it_prev (item c2 x) = it_prev (item c x)"
      by (simp_all add: i1 i2)
  next
    fix x assume x: "?nx = Some x"
    show "it_prev (item c2 x) = ?pv" using x by (simp add: i2)
  qed
  ultimately have seg: "seg (\<lambda>i. it_next (item c2 i)) (\<lambda>i. it_prev (item c2 i)) None (as @ bs) None" by (simp add: seg_append)
  have first: "(if lc_first c = Some i then ?nx else lc_first c) = head_or (as @ bs) None" using dis(2) d(3) by (cases as) auto
  have last: "(if lc_last c = Some i then ?pv else lc_last c) = last_or (as @ bs) None" using dis(3) d(4) by (cases bs rule: rev_cases) (auto simp: last_or_def)
  have "dll (lru_Detach i c) (as @ bs)" using d(1,2) seg first last unfolding dll_def eq by (auto simp: s2)
  moreover have "lru_frame (set (as @ bs)) c (lru_Detach i c)" using pv nx s2 by (auto simp: eq lru_frame_def i1 i2)
  ultimately show ?thesis by blast
qed

section \<open>The cache order\<close>

definition lru_ok :: "'a lru \<Rightarrow> nat list \<Rightarrow> bool" where
  "lru_ok c xs \<longleftrightarrow> dll c xs \<and> distinct (lc_free c) \<and> set xs \<inter> set (lc_free c) = {} \<and>
     set xs \<union> set (lc_free c) = {..<length (lc_items c)} \<and>
     (\<forall>i \<in> set (lc_free c). it_next (item c i) = None \<and> it_prev (item c i) = None)"

type_synonym 'a lru_entry = "nat \<times> 'a \<times> nat"

definition entry :: "'a lru \<Rightarrow> nat \<Rightarrow> 'a lru_entry" where
  "entry c i = (i, it_object (item c i), it_tick (item c i))"

text \<open>The same operations on the list of live entries, oldest use first.\<close>

definition spec_touch :: "nat \<Rightarrow> nat \<Rightarrow> 'a lru_entry list \<Rightarrow> 'a lru_entry list" where
  "spec_touch i tick es =
     (case map_of es i of None \<Rightarrow> es
      | Some (obj, t) \<Rightarrow> if t \<ge> tick then es else filter (\<lambda>e. fst e \<noteq> i) es @ [(i, obj, tick)])"

definition spec_free :: "nat \<Rightarrow> 'a lru_entry list \<Rightarrow> 'a lru_entry list" where
  "spec_free i es = filter (\<lambda>e. fst e \<noteq> i) es"

primrec visit :: "('a \<Rightarrow> 's \<Rightarrow> bool \<times> 's) \<Rightarrow> 'a list \<Rightarrow> 's \<Rightarrow> 's" where
  "visit f [] s = s"
| "visit f (x # xs) s = (if fst (f x s) then snd (f x s) else visit f xs (snd (f x s)))"

lemma map_of_entries: "map_of (map (entry c) xs) i = (if i \<in> set xs then Some (it_object (item c i), it_tick (item c i)) else None)"
  by (induction xs) (auto simp: entry_def)

lemma entries_frame: "lru_frame A c c' \<Longrightarrow> map (entry c') xs = map (entry c) xs"
  by (simp add: lru_frame_def entry_def)

lemma entries_filter: "filter (\<lambda>e. fst e \<noteq> i) (map (entry c) xs) = map (entry c) (filter (\<lambda>j. j \<noteq> i) xs)"
  by (induction xs) (auto simp: entry_def)

lemma filter_split: "distinct (as @ i # bs) \<Longrightarrow> filter (\<lambda>j. j \<noteq> i) (as @ i # bs) = as @ bs"
proof -
  assume d: "distinct (as @ i # bs)"
  have "filter (\<lambda>j. j \<noteq> i) as = as" "filter (\<lambda>j. j \<noteq> i) bs = bs" using d by (auto intro!: filter_True)
  then show ?thesis by simp
qed

lemma lru_Build_spec:
  assumes "lru_ok c xs" and "lru_Build blank c = (i, c1)"
  shows "i \<notin> set xs" "i < length (lc_items c1)" "it_next (item c1 i) = None" "it_prev (item c1 i) = None" "i \<notin> set (lc_free c1)"
    "distinct (lc_free c1)" "set (lc_free c1) \<subseteq> set (lc_free c)" "insert i (set xs \<union> set (lc_free c1)) = {..<length (lc_items c1)}"
    "\<And>x. x \<in> set xs \<union> set (lc_free c) \<Longrightarrow> item c1 x = item c x" "lc_first c1 = lc_first c" "lc_last c1 = lc_last c"
proof -
  have d: "distinct (lc_free c)" "set xs \<inter> set (lc_free c) = {}" "set xs \<union> set (lc_free c) = {..<length (lc_items c)}"
    "\<And>i. i \<in> set (lc_free c) \<Longrightarrow> it_next (item c i) = None \<and> it_prev (item c i) = None"
    using assms(1) by (auto simp: lru_ok_def)
  have "i \<notin> set xs \<and> i < length (lc_items c1) \<and> it_next (item c1 i) = None \<and> it_prev (item c1 i) = None \<and> i \<notin> set (lc_free c1) \<and>
    distinct (lc_free c1) \<and> set (lc_free c1) \<subseteq> set (lc_free c) \<and> insert i (set xs \<union> set (lc_free c1)) = {..<length (lc_items c1)} \<and>
    (\<forall>x < length (lc_items c). item c1 x = item c x) \<and> lc_first c1 = lc_first c \<and> lc_last c1 = lc_last c"
  proof (cases "lc_free c")
    case Nil
    then have "i = length (lc_items c)" "c1 = c\<lparr>lc_items := lc_items c @ [\<lparr>it_object = blank, it_tick = 0, it_next = None, it_prev = None\<rparr>]\<rparr>"
      using assms(2) by (simp_all add: lru_Build_def)
    then show ?thesis using d Nil by (auto simp: nth_append lessThan_Suc)
  next
    case (Cons k rest)
    then have "i = k" "c1 = c\<lparr>lc_free := rest\<rparr>" using assms(2) by (simp_all add: lru_Build_def)
    moreover have "k \<in> {..<length (lc_items c)}" using d(3) Cons by auto
    ultimately show ?thesis using d(1,2,3) d(4) [of k] Cons by auto
  qed
  moreover have "x < length (lc_items c)" if "x \<in> set xs \<union> set (lc_free c)" for x using that d(3) by auto
  ultimately show "i \<notin> set xs" "i < length (lc_items c1)" "it_next (item c1 i) = None" "it_prev (item c1 i) = None" "i \<notin> set (lc_free c1)"
    "distinct (lc_free c1)" "set (lc_free c1) \<subseteq> set (lc_free c)" "insert i (set xs \<union> set (lc_free c1)) = {..<length (lc_items c1)}"
    "\<And>x. x \<in> set xs \<union> set (lc_free c) \<Longrightarrow> item c1 x = item c x" "lc_first c1 = lc_first c" "lc_last c1 = lc_last c"
    by simp_all
qed

lemma lru_Insert_spec:
  assumes "lru_ok c xs" and "lru_Insert blank obj tick c = (i, c')"
  shows "lru_ok c' (xs @ [i]) \<and> i \<notin> set xs \<and> map (entry c') (xs @ [i]) = map (entry c) xs @ [(i, obj, tick)]"
proof -
  obtain j c1 where b: "lru_Build blank c = (j, c1)" by (cases "lru_Build blank c")
  define c2 where "c2 = change_item j (\<lambda>it. it\<lparr>it_object := obj, it_tick := tick\<rparr>) c1"
  have e: "i = j" "c' = lru_Attach i c2" using assms(2) b by (auto simp: lru_Insert_def c2_def Let_def)
  have d: "dll c xs" "distinct (lc_free c)" "set xs \<inter> set (lc_free c) = {}" "set xs \<union> set (lc_free c) = {..<length (lc_items c)}"
    "\<And>i. i \<in> set (lc_free c) \<Longrightarrow> it_next (item c i) = None \<and> it_prev (item c i) = None"
    using assms(1) by (auto simp: lru_ok_def)
  note j = lru_Build_spec [OF assms(1) b [folded e(1)]]
  have it: "item c2 x = (if x = i then (item c1 i)\<lparr>it_object := obj, it_tick := tick\<rparr> else item c1 x)" for x
    using j(2) by (simp add: c2_def e(1))
  have old: "item c2 x = item c x" if "x \<in> set xs \<union> set (lc_free c1)" for x using that j(1,5,7,9) by (auto simp: it)
  have "dll c2 xs"
  proof -
    have "seg (\<lambda>i. it_next (item c2 i)) (\<lambda>i. it_prev (item c2 i)) None xs None = seg (\<lambda>i. it_next (item c i)) (\<lambda>i. it_prev (item c i)) None xs None"
      using old by (intro seg_cong) auto
    moreover have "length (lc_items c2) = length (lc_items c1)" "\<forall>x \<in> set xs. x < length (lc_items c1)" using j(8) by (auto simp: c2_def)
    ultimately show ?thesis using d(1) j(10,11) by (simp add: dll_def c2_def)
  qed
  moreover have "i < length (lc_items c2)" using j(2) by (simp add: c2_def)
  ultimately have a: "dll c' (xs @ [i])" "lru_frame (insert i (set xs)) c2 c'"
    using lru_Attach_spec [of c2 xs i] j(1,3,4) unfolding e(2) by (auto simp: it)
  have f: "lc_free c' = lc_free c1" "length (lc_items c') = length (lc_items c1)" "\<And>x. x \<in> set (lc_free c1) \<Longrightarrow> item c' x = item c x"
    "\<And>x. it_object (item c' x) = it_object (item c2 x) \<and> it_tick (item c' x) = it_tick (item c2 x)"
  proof -
    show "lc_free c' = lc_free c1" "length (lc_items c') = length (lc_items c1)"
      "\<And>x. it_object (item c' x) = it_object (item c2 x) \<and> it_tick (item c' x) = it_tick (item c2 x)"
      using a(2) by (auto simp: lru_frame_def c2_def)
    fix x assume x: "x \<in> set (lc_free c1)"
    then have "x \<notin> insert i (set xs)" using j(5,7) d(3) by auto
    then show "item c' x = item c x" using a(2) old [of x] x by (auto simp: lru_frame_def)
  qed
  have "lru_ok c' (xs @ [i])" using a(1) f(1-3) j d(3,5) unfolding lru_ok_def by auto
  moreover have "map (entry c') xs = map (entry c) xs" using f(4) old by (simp add: entry_def)
  moreover have "entry c' i = (i, obj, tick)" using f(4) [of i] by (simp add: entry_def it)
  ultimately show ?thesis using j(1) by simp
qed

lemma lru_Free_spec:
  assumes "lru_ok c xs" and "i \<in> set xs"
  shows "lru_ok (lru_Free i c) (filter (\<lambda>j. j \<noteq> i) xs) \<and> map (entry (lru_Free i c)) (filter (\<lambda>j. j \<noteq> i) xs) = spec_free i (map (entry c) xs)"
proof -
  obtain as bs where xs: "xs = as @ i # bs" using assms(2) by (auto dest: split_list)
  have d: "dll c (as @ i # bs)" "distinct xs" "distinct (lc_free c)" "set xs \<inter> set (lc_free c) = {}" "set xs \<union> set (lc_free c) = {..<length (lc_items c)}"
    "\<And>i. i \<in> set (lc_free c) \<Longrightarrow> it_next (item c i) = None \<and> it_prev (item c i) = None" "i < length (lc_items c)"
    using assms by (auto simp: lru_ok_def dll_def xs)
  have fl: "filter (\<lambda>j. j \<noteq> i) xs = as @ bs" using d(2) unfolding xs by (rule filter_split)
  note s = lru_Detach_spec [OF d(1)]
  have len: "length (lc_items (lru_Detach i c)) = length (lc_items c)" "lc_free (lru_Detach i c) = lc_free c"
    "\<And>j. j \<notin> set (as @ bs) \<Longrightarrow> item (lru_Detach i c) j = item c j"
    "\<And>j. it_object (item (lru_Detach i c) j) = it_object (item c j) \<and> it_tick (item (lru_Detach i c) j) = it_tick (item c j)"
    using s by (auto simp: lru_frame_def)
  let ?c = "lru_Free i c"
  have it: "item ?c j = (if j = i then (item (lru_Detach i c) i)\<lparr>it_next := None, it_prev := None\<rparr> else item (lru_Detach i c) j)" for j
    using d(7) len(1) by (simp add: lru_Free_def Let_def)
  have sel: "lc_free ?c = lc_free c @ [i]" "lc_first ?c = lc_first (lru_Detach i c)" "lc_last ?c = lc_last (lru_Detach i c)"
    "length (lc_items ?c) = length (lc_items c)" using len(1,2) by (simp_all add: lru_Free_def Let_def)
  have ni: "i \<notin> set (as @ bs)" using d(2) xs by auto
  have "seg (\<lambda>i. it_next (item ?c i)) (\<lambda>i. it_prev (item ?c i)) None (as @ bs) None =
      seg (\<lambda>j. it_next (item (lru_Detach i c) j)) (\<lambda>j. it_prev (item (lru_Detach i c) j)) None (as @ bs) None"
    using ni by (intro seg_cong) (auto simp: it)
  then have "dll ?c (as @ bs)" using s sel len(1) by (simp add: dll_def)
  moreover have "set (as @ bs) \<union> set (lc_free ?c) = {..<length (lc_items ?c)}" using d(5) sel xs by auto
  moreover have "it_next (item ?c j) = None \<and> it_prev (item ?c j) = None" if "j \<in> set (lc_free ?c)" for j
  proof (cases "j = i")
    case False
    then have "j \<in> set (lc_free c)" "j \<notin> set (as @ bs)" using that d(4) xs by (auto simp: sel)
    then show ?thesis using d(6) [of j] len(3) [of j] False by (simp add: it)
  qed (simp add: it)
  moreover have "set (as @ bs) \<inter> set (lc_free ?c) = {}" "distinct (lc_free ?c)" using d(2-4) xs by (auto simp: sel)
  moreover have "map (entry ?c) (as @ bs) = map (entry c) (as @ bs)" using len(4) ni by (auto simp: entry_def it)
  ultimately show ?thesis unfolding fl spec_free_def entries_filter lru_ok_def by blast
qed

lemma entry_sel [simp]: "fst (entry c i) = i" "fst (snd (entry c i)) = it_object (item c i)" "snd (snd (entry c i)) = it_tick (item c i)"
  by (simp_all add: entry_def)

lemma lru_ok_frame:
  assumes "lru_ok c xs" and "dll c' ys" and "set ys = set xs" and "lru_frame (set xs) c c'"
  shows "lru_ok c' ys"
proof -
  have "item c' i = item c i" if "i \<in> set (lc_free c)" for i
    using assms(1,4) that by (auto simp: lru_ok_def lru_frame_def)
  then show ?thesis using assms by (auto simp: lru_ok_def lru_frame_def)
qed

lemma lru_frame_trans: "lru_frame A c c' \<Longrightarrow> lru_frame B c' c'' \<Longrightarrow> A \<subseteq> D \<Longrightarrow> B \<subseteq> D \<Longrightarrow> lru_frame D c c''"
  by (simp add: lru_frame_def) (metis subsetD)

lemma lru_Touch_spec:
  assumes "lru_ok c xs" and "i \<in> set xs"
  shows "\<exists>ys. lru_ok (lru_Touch i tick c) ys \<and> set ys = set xs \<and> map (entry (lru_Touch i tick c)) ys = spec_touch i tick (map (entry c) xs)"
proof (cases "it_tick (item c i) \<ge> tick")
  case True
  then show ?thesis using assms by (intro exI [of _ xs]) (simp add: lru_Touch_def spec_touch_def map_of_entries)
next
  case False
  obtain as bs where xs: "xs = as @ i # bs" using assms(2) by (auto dest: split_list)
  have d: "dll c (as @ i # bs)" "distinct xs" "i < length (lc_items c)" using assms by (auto simp: lru_ok_def dll_def xs)
  have fl: "filter (\<lambda>j. j \<noteq> i) xs = as @ bs" using d(2) unfolding xs by (rule filter_split)
  define c1 where "c1 = change_item i (\<lambda>it. it\<lparr>it_tick := tick\<rparr>) c"
  have it: "item c1 j = (if j = i then (item c i)\<lparr>it_tick := tick\<rparr> else item c j)" for j using d(3) by (simp add: c1_def)
  have "seg (\<lambda>i. it_next (item c1 i)) (\<lambda>i. it_prev (item c1 i)) None xs None = seg (\<lambda>i. it_next (item c i)) (\<lambda>i. it_prev (item c i)) None xs None"
    by (intro seg_cong) (auto simp: it)
  then have dll1: "dll c1 (as @ i # bs)" using d(1) by (simp add: dll_def c1_def xs)
  have "lc_free c1 = lc_free c" "length (lc_items c1) = length (lc_items c)" by (simp_all add: c1_def)
  moreover have "i \<notin> set (lc_free c)" using assms by (auto simp: lru_ok_def)
  ultimately have ok1: "lru_ok c1 xs" using assms(1) dll1 xs by (auto simp: lru_ok_def it)
  have spec: "spec_touch i tick (map (entry c) xs) = map (entry c1) (as @ bs @ [i])"
  proof -
    have "map (entry c) (as @ bs) = map (entry c1) (as @ bs)" using d(2) xs by (auto simp: entry_def it)
    moreover have "spec_touch i tick (map (entry c) xs) = filter (\<lambda>e. fst e \<noteq> i) (map (entry c) xs) @ [(i, it_object (item c i), tick)]"
      using False assms(2) by (simp add: spec_touch_def map_of_entries)
    ultimately show ?thesis unfolding entries_filter fl by (simp add: entry_def it)
  qed
  show ?thesis
  proof (cases "bs = []")
    case True
    then have "lc_last c1 = Some i" using dll1 by (simp add: dll_def)
    then have t: "lru_Touch i tick c = c1" using False by (simp add: lru_Touch_def c1_def Let_def)
    show ?thesis unfolding t spec using ok1 True xs by (intro exI [of _ xs]) simp
  next
    case bs: False
    then have "lc_last c1 \<noteq> Some i" using dll1 d(2) xs by (auto simp: dll_def last_or_def)
    then have t: "lru_Touch i tick c = lru_Attach i (lru_Detach i c1)" using False by (simp add: lru_Touch_def c1_def Let_def)
    define c2 where "c2 = lru_Detach i c1"
    have c2: "dll c2 (as @ bs)" "lru_frame (set (as @ bs)) c1 c2" using lru_Detach_spec [OF dll1] by (simp_all add: c2_def)
    have "i \<notin> set (as @ bs)" "i < length (lc_items c2)" "as @ bs \<noteq> []" using d(2,3) xs bs c2(2) by (auto simp: lru_frame_def c1_def)
    then have c3: "dll (lru_Attach i c2) (as @ bs @ [i])" "lru_frame (insert i (set (as @ bs))) c2 (lru_Attach i c2)"
      using lru_Attach_spec [OF c2(1)] by auto
    have fr: "lru_frame (set xs) c1 (lru_Attach i c2)" by (rule lru_frame_trans [OF c2(2) c3(2)]) (auto simp: xs)
    have "lru_ok (lru_Attach i c2) (as @ bs @ [i])" by (rule lru_ok_frame [OF ok1 c3(1) _ fr]) (auto simp: xs)
    then show ?thesis unfolding t spec c2_def [symmetric] using entries_frame [OF fr, of "as @ bs @ [i]"] xs
      by (intro exI [of _ "as @ bs @ [i]"]) auto
  qed
qed

text \<open>The walk visits the entries up to the first that was used later.\<close>

lemma lru_walk_seg:
  "seg (\<lambda>i. it_next (item c i)) pv p xs None \<Longrightarrow>
    lru_walk tick f c (head_or xs None) s = Some (visit f (map (\<lambda>e. fst (snd e)) (takeWhile (\<lambda>e. snd (snd e) \<le> tick) (map (entry c) xs))) s)"
proof (induction xs arbitrary: p s)
  case Nil
  show ?case by (simp add: lru_walk.simps)
next
  case (Cons x xs)
  then show ?case using Cons.IH [of "Some x"] by (subst lru_walk.simps) simp
qed

lemma lru_ForEach_spec:
  "lru_ok c xs \<Longrightarrow> lru_ForEachItemBelow tick f c s =
    Some (visit f (map (\<lambda>e. fst (snd e)) (takeWhile (\<lambda>e. snd (snd e) \<le> tick) (map (entry c) xs))) s)"
  using lru_walk_seg by (auto simp: lru_ForEachItemBelow_def lru_ok_def dll_def)

section \<open>The cache under a clock\<close>

text \<open>
  Any history of insertions, uses and removals of live entries by a client whose clock does not run
  backwards, as the texture cache's \<open>m_gc_tick\<close>; the last argument is the specification's list of entries.
\<close>

inductive lru_reachable :: "'a \<Rightarrow> 'a lru \<Rightarrow> nat \<Rightarrow> 'a lru_entry list \<Rightarrow> bool" for blank where
  lru_new: "lru_reachable blank new_lru 0 []"
| lru_insert: "lru_reachable blank c now es \<Longrightarrow> lru_Insert blank obj now c = (i, c') \<Longrightarrow> lru_reachable blank c' now (es @ [(i, obj, now)])"
| lru_touch: "lru_reachable blank c now es \<Longrightarrow> i \<in> fst ` set es \<Longrightarrow> lru_reachable blank (lru_Touch i now c) now (spec_touch i now es)"
| lru_free: "lru_reachable blank c now es \<Longrightarrow> i \<in> fst ` set es \<Longrightarrow> lru_reachable blank (lru_Free i c) now (spec_free i es)"
| lru_clock: "lru_reachable blank c now es \<Longrightarrow> now \<le> now' \<Longrightarrow> lru_reachable blank c now' es"

lemma sorted_ticks_touch:
  assumes "sorted (map (\<lambda>e. snd (snd e)) es)" and "\<forall>e \<in> set es. snd (snd e) \<le> now"
  shows "sorted (map (\<lambda>e. snd (snd e)) (spec_touch i now es)) \<and> (\<forall>e \<in> set (spec_touch i now es). snd (snd e) \<le> now)"
proof -
  have "sorted (map (\<lambda>e. snd (snd e)) (filter P es))" for P using assms(1) by (rule sorted_filter)
  then show ?thesis using assms by (auto simp: spec_touch_def sorted_append split: option.splits)
qed

lemma lru_reachable_ok:
  "lru_reachable blank c now es \<Longrightarrow> (\<exists>xs. lru_ok c xs \<and> map (entry c) xs = es) \<and>
    sorted (map (\<lambda>e. snd (snd e)) es) \<and> (\<forall>e \<in> set es. snd (snd e) \<le> now)"
proof (induction rule: lru_reachable.induct)
  case lru_new
  show ?case by (simp add: lru_ok_def dll_def new_lru_def)
next
  case (lru_insert c now es obj i c')
  then obtain xs where xs: "lru_ok c xs" "map (entry c) xs = es" by blast
  have "\<exists>ys. lru_ok c' ys \<and> map (entry c') ys = es @ [(i, obj, now)]" using lru_Insert_spec [OF xs(1) lru_insert(2)] xs(2) by blast
  then show ?case using lru_insert.IH by (auto simp: sorted_append)
next
  case (lru_touch c now es i)
  then obtain xs where xs: "lru_ok c xs" "map (entry c) xs = es" by blast
  have "i \<in> set xs" using lru_touch(2) xs(2) by (auto simp: entry_def)
  then have "\<exists>ys. lru_ok (lru_Touch i now c) ys \<and> map (entry (lru_Touch i now c)) ys = spec_touch i now es"
    using lru_Touch_spec [OF xs(1)] xs(2) by blast
  then show ?case using sorted_ticks_touch [of es now i] lru_touch.IH by simp
next
  case (lru_free c now es i)
  then obtain xs where xs: "lru_ok c xs" "map (entry c) xs = es" by blast
  have "i \<in> set xs" using lru_free(2) xs(2) by (auto simp: entry_def)
  then have "\<exists>ys. lru_ok (lru_Free i c) ys \<and> map (entry (lru_Free i c)) ys = spec_free i es"
    using lru_Free_spec [OF xs(1)] xs(2) by blast
  then show ?case using lru_free.IH by (simp add: spec_free_def sorted_filter)
next
  case (lru_clock c now es now')
  then show ?case by fastforce
qed

lemma takeWhile_sorted: "sorted (map g es) \<Longrightarrow> takeWhile (\<lambda>e. g e \<le> t) es = filter (\<lambda>e. g e \<le> t) es"
proof (induction es)
  case (Cons a es)
  show ?case
  proof (cases "g a \<le> t")
    case False
    then have "filter (\<lambda>e. g e \<le> t) (a # es) = []" using Cons.prems by (auto simp: filter_empty_conv)
    then show ?thesis using False by simp
  qed (use Cons in simp)
qed simp

text \<open>
  C27: the linked list is a least-recently-used order. After any history of insertions, uses and removals
  under a clock that does not run backwards, the pointers represent exactly the live entries, each once,
  sorted by the time of their last use; a walk always ends and calls the callback for exactly the objects
  last used at or before the given tick, oldest first, until it says stop; and a new entry never gets the
  position of a live one.
\<close>

theorem lru_order_exact:
  assumes "lru_reachable blank c now es"
  shows "distinct (map fst es) \<and> sorted (map (\<lambda>e. snd (snd e)) es) \<and>
    (\<forall>i obj t. (i, obj, t) \<in> set es \<longrightarrow> it_object (item c i) = obj \<and> it_tick (item c i) = t) \<and>
    (\<forall>tick f s. lru_ForEachItemBelow tick f c s = Some (visit f (map (\<lambda>e. fst (snd e)) (filter (\<lambda>e. snd (snd e) \<le> tick) es)) (s :: 's))) \<and>
    (\<forall>obj. fst (lru_Insert blank obj now c) \<notin> fst ` set es)"
proof -
  obtain xs where xs: "lru_ok c xs" "map (entry c) xs = es" and s: "sorted (map (\<lambda>e. snd (snd e)) es)"
    using lru_reachable_ok [OF assms] by blast
  have ids: "map fst es = xs" by (simp add: xs(2) [symmetric] entry_def comp_def)
  have "distinct xs" using xs(1) by (simp add: lru_ok_def dll_def)
  moreover have "it_object (item c i) = obj \<and> it_tick (item c i) = t" if "(i, obj, t) \<in> set es" for i obj t
    using that unfolding xs(2) [symmetric] by (auto simp: entry_def)
  moreover have "fst (lru_Insert blank obj now c) \<notin> fst ` set es" for obj
    using lru_Insert_spec [OF xs(1), of blank obj now] ids by (cases "lru_Insert blank obj now c") (metis fst_conv image_set)
  moreover have "lru_ForEachItemBelow tick f c (u :: 's) = Some (visit f (map (\<lambda>e. fst (snd e)) (filter (\<lambda>e. snd (snd e) \<le> tick) es)) u)"
    for tick f u using lru_ForEach_spec [OF xs(1), of tick f u] takeWhile_sorted [OF s, of tick] unfolding xs(2) by simp
  ultimately show ?thesis using s ids by simp
qed

lemma lru_order_exact_witness:
  "\<exists>c. lru_reachable (0 :: nat) c 5 [(1, 8, 3), (0, 7, 5)] \<and> lru_ForEachItemBelow 4 (\<lambda>x s. (False, x # s)) c [] = Some [8]"
proof -
  define c1 where "c1 = snd (lru_Insert 0 (7 :: nat) 2 new_lru)"
  define c2 where "c2 = snd (lru_Insert 0 (8 :: nat) 3 c1)"
  have i1: "lru_Insert 0 (7 :: nat) 2 new_lru = (0, c1)" by (simp add: c1_def lru_Insert_def lru_Build_def new_lru_def)
  have i2: "lru_Insert 0 (8 :: nat) 3 c1 = (1, c2)"
    by (simp add: c2_def c1_def lru_Insert_def lru_Build_def new_lru_def lru_Attach_def change_item_def)
  have "lru_reachable 0 c1 2 [(0, 7, 2)]" using lru_insert [OF lru_clock [OF lru_new, of 2] i1] by simp
  then have "lru_reachable 0 c1 3 [(0, 7, 2)]" by (rule lru_clock) simp
  from lru_insert [OF this i2] have "lru_reachable 0 c2 3 [(0, 7, 2), (1, 8, 3)]" by simp
  then have "lru_reachable 0 c2 5 [(0, 7, 2), (1, 8, 3)]" by (rule lru_clock) simp
  from lru_touch [OF this, of 0] have r: "lru_reachable 0 (lru_Touch 0 5 c2) 5 [(1, 8, 3), (0, 7, 5)]" by (simp add: spec_touch_def)
  have "lru_ForEachItemBelow 4 (\<lambda>x s. (False, x # s)) (lru_Touch 0 5 c2) [] = Some [8]"
    using lru_order_exact [OF r, THEN conjunct2, THEN conjunct2, THEN conjunct2, THEN conjunct1, rule_format, of 4 "\<lambda>x s. (False, x # s)" "[]"]
    by simp
  then show ?thesis using r by blast
qed

end
