(* ===== verification/StreamBuffer.thy ===== *)
theory StreamBuffer
  imports Prelude
begin

text \<open>
  The ring buffers through which the renderer passes data to and from the GPU (\<open>StreamBuffer\<close> in
  src/src/graphics/host_gpu/renderer/cache/streamBuffer.cpp) and the timeline on which they wait
  (\<open>MasterSemaphore\<close> in masterSemaphore.cpp and .h, the waits of commandScheduler.cpp).

  Mapping takes the next bytes of the ring, from the start again when the rest is too small, and first waits
  until the GPU is done with what was there; committing notes under which tick the GPU will use them. A note
  is a watch: all bytes below its upper bound are used at its tick or before. The watches of the current lap
  are collected while those of the lap before are waited for.

  What the host's timeline counter reads is an argument: \<open>peek\<close> when it is read without waiting, \<open>after t\<close>
  after waiting for tick \<open>t\<close>. Ticks are natural numbers: they start at 1 and count submissions, so they stay
  far below \<open>2 ^ 64\<close>. Deferred callbacks that run while waiting, and flushing memory that is not coherent, are
  not modelled: they do not touch the ring. None is \<open>EXIT\<close> or undefined behaviour.
\<close>

section \<open>The timeline\<close>

record MasterSemaphore =
  ms_gpu_tick :: nat
  ms_current_tick :: nat

definition MasterSemaphore_IsFree :: "nat \<Rightarrow> MasterSemaphore \<Rightarrow> bool" where
  "MasterSemaphore_IsFree tick ms \<longleftrightarrow> ms_gpu_tick ms \<ge> tick"

definition MasterSemaphore_NextTick :: "MasterSemaphore \<Rightarrow> nat \<times> MasterSemaphore" where
  "MasterSemaphore_NextTick ms = (ms_current_tick ms, ms\<lparr>ms_current_tick := ms_current_tick ms + 1\<rparr>)"

definition MasterSemaphore_Refresh :: "nat \<Rightarrow> MasterSemaphore \<Rightarrow> MasterSemaphore" where
  "MasterSemaphore_Refresh counter ms = (if ms_gpu_tick ms < counter then ms\<lparr>ms_gpu_tick := counter\<rparr> else ms)"

definition MasterSemaphore_Wait :: "nat \<Rightarrow> (nat \<Rightarrow> nat) \<Rightarrow> nat \<Rightarrow> MasterSemaphore \<Rightarrow> MasterSemaphore" where
  "MasterSemaphore_Wait peek after tick ms =
     (if MasterSemaphore_IsFree tick ms then ms
      else (let ms = MasterSemaphore_Refresh peek ms in
        if MasterSemaphore_IsFree tick ms then ms else MasterSemaphore_Refresh (after tick) ms))"

definition CommandScheduler_IsFree :: "nat \<Rightarrow> nat \<Rightarrow> MasterSemaphore \<Rightarrow> bool \<times> MasterSemaphore" where
  "CommandScheduler_IsFree peek tick ms =
     (if MasterSemaphore_IsFree tick ms then (True, ms)
      else (let ms = MasterSemaphore_Refresh peek ms in (MasterSemaphore_IsFree tick ms, ms)))"

text \<open>Waiting for the current tick submits the commands recorded so far and waits for them.\<close>

definition CommandScheduler_FinishCurrent :: "(nat \<Rightarrow> nat) \<Rightarrow> MasterSemaphore \<Rightarrow> MasterSemaphore" where
  "CommandScheduler_FinishCurrent after ms =
     (let (signal_tick, ms) = MasterSemaphore_NextTick ms in MasterSemaphore_Refresh (after signal_tick) ms)"

definition CommandScheduler_Wait :: "nat \<Rightarrow> (nat \<Rightarrow> nat) \<Rightarrow> nat \<Rightarrow> MasterSemaphore \<Rightarrow> MasterSemaphore option" where
  "CommandScheduler_Wait peek after tick ms =
     (if tick > ms_current_tick ms then None
      else if tick \<ge> ms_current_tick ms then Some (CommandScheduler_FinishCurrent after ms)
      else Some (MasterSemaphore_Wait peek after tick ms))"

section \<open>The ring\<close>

record Watch =
  wa_tick :: nat
  wa_upper_bound :: nat

record StreamBuffer =
  sb_size :: nat
  sb_is_coherent :: bool
  sb_atom :: nat
  sb_offset :: nat
  sb_mapped_size :: nat
  sb_current_watches :: "Watch list"
  sb_current_watch_cursor :: nat
  sb_invalidation_mark :: "nat option"
  sb_previous_watches :: "Watch list"
  sb_wait_cursor :: nat
  sb_wait_bound :: nat

abbreviation WATCHES_INITIAL_RESERVE :: nat where "WATCHES_INITIAL_RESERVE \<equiv> 16384"
abbreviation WATCHES_RESERVE_CHUNK :: nat where "WATCHES_RESERVE_CHUNK \<equiv> 4096"

definition ReserveWatches :: "Watch list \<Rightarrow> nat \<Rightarrow> Watch list" where
  "ReserveWatches watches grow_size = watches @ replicate grow_size \<lparr>wa_tick = 0, wa_upper_bound = 0\<rparr>"

lemma length_ReserveWatches [simp]: "length (ReserveWatches watches n) = length watches + n"
  by (simp add: ReserveWatches_def)

lemma nth_ReserveWatches [simp]: "i < length watches \<Longrightarrow> ReserveWatches watches n ! i = watches ! i"
  by (simp add: ReserveWatches_def nth_append)

lemma ReserveWatches_eq_Nil [simp]: "ReserveWatches watches n = [] \<longleftrightarrow> watches = [] \<and> n = 0"
  by (simp add: ReserveWatches_def)

text \<open>\<open>sb_atom\<close> is the device's \<open>nonCoherentAtomSize\<close>.\<close>

definition new_stream_buffer :: "nat \<Rightarrow> bool \<Rightarrow> nat \<Rightarrow> StreamBuffer" where
  "new_stream_buffer n is_coherent atom = \<lparr>sb_size = n, sb_is_coherent = is_coherent, sb_atom = atom, sb_offset = 0, sb_mapped_size = 0,
     sb_current_watches = ReserveWatches [] WATCHES_INITIAL_RESERVE, sb_current_watch_cursor = 0, sb_invalidation_mark = None,
     sb_previous_watches = ReserveWatches [] WATCHES_INITIAL_RESERVE, sb_wait_cursor = 0, sb_wait_bound = 0\<rparr>"

definition AlignUp :: "nat \<Rightarrow> nat \<Rightarrow> nat option" where
  "AlignUp v alignment =
     (if alignment = 0 \<or> v mod alignment = 0 then Some v
      else (let increment = alignment - v mod alignment in
        if v > UINT64_MAX - increment then None else Some (v + increment)))"

text \<open>The size and alignment of a reservation; the inner None is the failure of the function.\<close>

definition NormalizeReservation :: "bool \<Rightarrow> nat \<Rightarrow> nat \<Rightarrow> nat \<Rightarrow> (nat \<times> nat) option" where
  "NormalizeReservation coherent atom n alignment =
     (if coherent then Some (n, alignment)
      else case AlignUp n atom of None \<Rightarrow> None
      | Some n' \<Rightarrow>
          (let divisor = gcd alignment atom in
           if alignment \<noteq> 0 \<and> alignment div divisor > UINT64_MAX div atom then None
           else Some (n', if alignment = 0 then atom else alignment div divisor * atom)))"

text \<open>
  The loop of \<open>WaitPendingOperations\<close>. It gives back whether the bytes below the bound are free, the cursor
  and the bound reached, and the timeline; a watch beyond the end of the list would be an access out of range.
\<close>

function wait_pending ::
  "nat \<Rightarrow> (nat \<Rightarrow> nat) \<Rightarrow> Watch list \<Rightarrow> nat \<Rightarrow> nat \<Rightarrow> bool \<Rightarrow> nat \<Rightarrow> nat \<Rightarrow> MasterSemaphore \<Rightarrow> (bool \<times> nat \<times> nat \<times> MasterSemaphore) option" where
  "wait_pending peek after watches mark upper allow_wait cursor bound ms =
     (if upper > bound \<and> cursor < mark then
        (if cursor \<ge> length watches then None
         else (let watch = watches ! cursor; (free, ms1) = CommandScheduler_IsFree peek (wa_tick watch) ms in
           if \<not> free \<and> \<not> allow_wait then Some (False, cursor, bound, ms1)
           else (case CommandScheduler_Wait peek after (wa_tick watch) ms1 of None \<Rightarrow> None
             | Some ms2 \<Rightarrow> wait_pending peek after watches mark upper allow_wait (cursor + 1) (wa_upper_bound watch) ms2)))
      else Some (True, cursor, bound, ms))"
  by pat_completeness auto

termination wait_pending
  by (relation "measure (\<lambda>(peek, after, watches, mark, upper, allow_wait, cursor, bound, ms). mark - cursor)") auto

declare wait_pending.simps [simp del]

definition WaitPendingOperations ::
  "nat \<Rightarrow> (nat \<Rightarrow> nat) \<Rightarrow> Watch list \<Rightarrow> nat option \<Rightarrow> nat \<Rightarrow> bool \<Rightarrow> nat \<Rightarrow> nat \<Rightarrow> MasterSemaphore \<Rightarrow> (bool \<times> nat \<times> nat \<times> MasterSemaphore) option" where
  "WaitPendingOperations peek after watches invalidation_mark upper allow_wait cursor bound ms =
     (case invalidation_mark of None \<Rightarrow> Some (True, cursor, bound, ms)
      | Some mark \<Rightarrow> wait_pending peek after watches mark upper allow_wait cursor bound ms)"

text \<open>Mapping gives the offset, None for the null pointer. \<open>mapped\<close> tells whether the host mapped the buffer at all.\<close>

definition StreamBuffer_Map ::
  "nat \<Rightarrow> (nat \<Rightarrow> nat) \<Rightarrow> bool \<Rightarrow> nat \<Rightarrow> nat \<Rightarrow> bool \<Rightarrow> StreamBuffer \<Rightarrow> MasterSemaphore \<Rightarrow> (nat option \<times> StreamBuffer \<times> MasterSemaphore) option" where
  "StreamBuffer_Map peek after mapped n alignment allow_wait sb ms =
     (if \<not> mapped then Some (None, sb, ms)
      else case NormalizeReservation (sb_is_coherent sb) (sb_atom sb) n alignment of None \<Rightarrow> Some (None, sb, ms)
      | Some (mapped_size, alignment) \<Rightarrow>
          if mapped_size > sb_size sb then Some (None, sb, ms)
          else case AlignUp (sb_offset sb) alignment of None \<Rightarrow> Some (None, sb, ms)
          | Some aligned_offset \<Rightarrow>
              (let wrap = aligned_offset > sb_size sb - mapped_size;
                   aligned_offset = (if wrap then 0 else aligned_offset);
                   wait_cursor = (if wrap then 0 else sb_wait_cursor sb);
                   wait_bound = (if wrap then 0 else sb_wait_bound sb);
                   invalidation_mark = (if wrap then Some (sb_current_watch_cursor sb) else sb_invalidation_mark sb);
                   pending_watches = (if wrap then sb_current_watches sb else sb_previous_watches sb) in
               case WaitPendingOperations peek after pending_watches invalidation_mark (aligned_offset + mapped_size) allow_wait wait_cursor wait_bound ms of
                 None \<Rightarrow> None
               | Some (False, _, _, ms') \<Rightarrow> Some (None, sb, ms')
               | Some (True, wait_cursor, wait_bound, ms') \<Rightarrow>
                   (let sb1 = (if wrap then sb\<lparr>sb_invalidation_mark := invalidation_mark, sb_current_watch_cursor := 0,
                          sb_previous_watches := sb_current_watches sb, sb_current_watches := sb_previous_watches sb\<rparr> else sb) in
                    Some (Some aligned_offset, sb1\<lparr>sb_wait_cursor := wait_cursor, sb_wait_bound := wait_bound,
                      sb_offset := aligned_offset, sb_mapped_size := mapped_size\<rparr>, ms'))))"

text \<open>\<open>m_offset += m_mapped_size\<close> wraps; an index past the end of the list of watches is undefined behaviour.\<close>

definition StreamBuffer_Commit :: "nat \<Rightarrow> StreamBuffer \<Rightarrow> StreamBuffer option" where
  "StreamBuffer_Commit tick sb =
     (let offset = add64 (sb_offset sb) (sb_mapped_size sb); cursor = sb_current_watch_cursor sb; watches = sb_current_watches sb in
      if cursor \<noteq> 0 \<and> cursor - 1 \<ge> length watches then None
      else if cursor \<noteq> 0 \<and> wa_tick (watches ! (cursor - 1)) = tick
      then Some (sb\<lparr>sb_offset := offset, sb_current_watches := watches[cursor - 1 := (watches ! (cursor - 1))\<lparr>wa_upper_bound := offset\<rparr>]\<rparr>)
      else
        (let watches = (if cursor + 1 \<ge> length watches then ReserveWatches watches WATCHES_RESERVE_CHUNK else watches) in
         if cursor \<ge> length watches then None
         else Some (sb\<lparr>sb_offset := offset, sb_current_watches := watches[cursor := \<lparr>wa_tick = tick, wa_upper_bound = offset\<rparr>],
           sb_current_watch_cursor := cursor + 1\<rparr>)))"

section \<open>A buffer in use\<close>

text \<open>
  The ring, the timeline, whether a mapping is waiting to be committed, and for each byte the last tick under
  which the GPU uses it: committing at a tick gives the mapped bytes to the GPU for that tick.
\<close>

record System =
  sy_ring :: StreamBuffer
  sy_time :: MasterSemaphore
  sy_open :: bool
  sy_use :: "nat \<Rightarrow> nat"

text \<open>
  The counter tells the truth: it has not reached a tick that is not submitted yet, and after waiting for a tick
  it has reached that tick.
\<close>

definition true_counter :: "nat \<Rightarrow> (nat \<Rightarrow> nat) \<Rightarrow> MasterSemaphore \<Rightarrow> bool" where
  "true_counter peek after ms \<longleftrightarrow> peek < ms_current_tick ms \<and>
     (\<forall>t \<le> ms_current_tick ms. t \<le> after t) \<and> (\<forall>t < ms_current_tick ms. after t < ms_current_tick ms) \<and> after (ms_current_tick ms) = ms_current_tick ms"

inductive sb_step :: "System \<Rightarrow> System \<Rightarrow> bool" where
  step_map: "true_counter peek after (sy_time s) \<Longrightarrow>
     StreamBuffer_Map peek after mapped n alignment allow_wait (sy_ring s) (sy_time s) = Some (r, ring, time) \<Longrightarrow>
     sb_step s (s\<lparr>sy_ring := ring, sy_time := time, sy_open := (sy_open s \<or> r \<noteq> None)\<rparr>)"
| step_commit: "sy_open s \<Longrightarrow> StreamBuffer_Commit (ms_current_tick (sy_time s)) (sy_ring s) = Some ring \<Longrightarrow>
     sb_step s (s\<lparr>sy_ring := ring, sy_open := False,
       sy_use := (\<lambda>x. if sb_offset (sy_ring s) \<le> x \<and> x < sb_offset (sy_ring s) + sb_mapped_size (sy_ring s) then ms_current_tick (sy_time s) else sy_use s x)\<rparr>)"
| step_submit: "sb_step s (s\<lparr>sy_time := snd (MasterSemaphore_NextTick (sy_time s))\<rparr>)"
| step_refresh: "counter < ms_current_tick (sy_time s) \<Longrightarrow> sb_step s (s\<lparr>sy_time := MasterSemaphore_Refresh counter (sy_time s)\<rparr>)"

inductive sb_reach :: "nat \<Rightarrow> bool \<Rightarrow> nat \<Rightarrow> System \<Rightarrow> bool" for n coherent atom where
  reach_new: "0 < atom \<Longrightarrow> n \<le> UINT64_MAX \<Longrightarrow>
     sb_reach n coherent atom \<lparr>sy_ring = new_stream_buffer n coherent atom, sy_time = \<lparr>ms_gpu_tick = 0, ms_current_tick = 1\<rparr>, sy_open = False, sy_use = (\<lambda>x. 0)\<rparr>"
| reach_step: "sb_reach n coherent atom s \<Longrightarrow> sb_step s s' \<Longrightarrow> sb_reach n coherent atom s'"

section \<open>Waiting on the timeline\<close>

lemma Refresh_sel [simp]: "ms_current_tick (MasterSemaphore_Refresh c ms) = ms_current_tick ms"
  "ms_gpu_tick (MasterSemaphore_Refresh c ms) = max (ms_gpu_tick ms) c"
  by (auto simp: MasterSemaphore_Refresh_def)

definition time_ok :: "MasterSemaphore \<Rightarrow> bool" where
  "time_ok ms \<longleftrightarrow> ms_gpu_tick ms < ms_current_tick ms"

definition later :: "MasterSemaphore \<Rightarrow> MasterSemaphore \<Rightarrow> bool" where
  "later ms ms' \<longleftrightarrow> ms_gpu_tick ms \<le> ms_gpu_tick ms' \<and> ms_current_tick ms \<le> ms_current_tick ms' \<and> time_ok ms'"

lemma CommandScheduler_Wait_spec:
  assumes "t \<le> ms_current_tick ms" and "t \<le> after t" and "time_ok ms" and "peek < ms_current_tick ms"
    and "t < ms_current_tick ms \<Longrightarrow> after t < ms_current_tick ms" and "t = ms_current_tick ms \<Longrightarrow> after t = t"
  obtains ms' where "CommandScheduler_Wait peek after t ms = Some ms'" and "later ms ms'" and "t \<le> ms_gpu_tick ms'"
    and "ms_current_tick ms' = (if t = ms_current_tick ms then t + 1 else ms_current_tick ms)"
proof (cases "t = ms_current_tick ms")
  case True
  let ?ms' = "MasterSemaphore_Refresh (after t) (ms\<lparr>ms_current_tick := ms_current_tick ms + 1\<rparr>)"
  have "CommandScheduler_Wait peek after t ms = Some ?ms'"
    using True by (simp add: CommandScheduler_Wait_def CommandScheduler_FinishCurrent_def MasterSemaphore_NextTick_def)
  moreover have "later ms ?ms'" using assms(3,6) True by (simp add: later_def time_ok_def)
  moreover have "t \<le> ms_gpu_tick ?ms'" using assms(2) by simp
  ultimately show ?thesis using that True by simp
next
  case False
  then have "CommandScheduler_Wait peek after t ms = Some (MasterSemaphore_Wait peek after t ms)" using assms(1) by (simp add: CommandScheduler_Wait_def)
  moreover have "later ms (MasterSemaphore_Wait peek after t ms) \<and> t \<le> ms_gpu_tick (MasterSemaphore_Wait peek after t ms) \<and>
      ms_current_tick (MasterSemaphore_Wait peek after t ms) = ms_current_tick ms"
    using assms False by (auto simp: MasterSemaphore_Wait_def MasterSemaphore_IsFree_def Let_def later_def time_ok_def)
  ultimately show ?thesis using that False by auto
qed

lemma CommandScheduler_IsFree_spec:
  assumes "time_ok ms" and "peek < ms_current_tick ms" and "CommandScheduler_IsFree peek t ms = (free, ms')"
  shows "later ms ms' \<and> ms_current_tick ms' = ms_current_tick ms \<and> free = (t \<le> ms_gpu_tick ms')"
  using assms by (auto simp: CommandScheduler_IsFree_def MasterSemaphore_IsFree_def Let_def later_def time_ok_def split: if_splits)

lemma CommandScheduler_Wait_free: "t \<le> ms_gpu_tick ms \<Longrightarrow> time_ok ms \<Longrightarrow> CommandScheduler_Wait peek after t ms = Some ms"
  by (simp add: CommandScheduler_Wait_def MasterSemaphore_Wait_def MasterSemaphore_IsFree_def time_ok_def)

text \<open>The time during the loop: nothing is submitted until the current tick is waited for, and then all of the ticks are reached.\<close>

definition during :: "nat \<Rightarrow> MasterSemaphore \<Rightarrow> bool" where
  "during c ms \<longleftrightarrow> time_ok ms \<and> (ms_current_tick ms = c \<or> ms_current_tick ms = c + 1 \<and> ms_gpu_tick ms = c)"

lemma wait_one:
  assumes "true_counter peek after ms0" and "during (ms_current_tick ms0) ms" and "t \<le> ms_current_tick ms0"
    and "CommandScheduler_IsFree peek t ms = (free, ms1)"
  shows "later ms ms1" "during (ms_current_tick ms0) ms1"
    "\<exists>ms2. CommandScheduler_Wait peek after t ms1 = Some ms2 \<and> later ms ms2 \<and> during (ms_current_tick ms0) ms2 \<and> t \<le> ms_gpu_tick ms2"
proof -
  let ?c = "ms_current_tick ms0"
  have tc: "peek < ?c" "t \<le> after t" "t < ?c \<Longrightarrow> after t < ?c" "t = ?c \<Longrightarrow> after t = t"
    using assms(1,3) by (auto simp: true_counter_def)
  have m: "time_ok ms" "?c \<le> ms_current_tick ms" using assms(2) by (auto simp: during_def)
  have f: "later ms ms1" "ms_current_tick ms1 = ms_current_tick ms" "free = (t \<le> ms_gpu_tick ms1)"
    using CommandScheduler_IsFree_spec [OF m(1) _ assms(4)] tc(1) m(2) by auto
  show l: "later ms ms1" by (rule f(1))
  show d: "during ?c ms1" using assms(2) f(1,2) by (auto simp: during_def later_def time_ok_def)
  show "\<exists>ms2. CommandScheduler_Wait peek after t ms1 = Some ms2 \<and> later ms ms2 \<and> during ?c ms2 \<and> t \<le> ms_gpu_tick ms2"
  proof (cases "t \<le> ms_gpu_tick ms1")
    case True
    then show ?thesis using CommandScheduler_Wait_free [OF True] d l by (auto simp: during_def)
  next
    case False
    then have c: "ms_current_tick ms1 = ?c" using d assms(3) by (auto simp: during_def)
    obtain ms2 where "CommandScheduler_Wait peek after t ms1 = Some ms2" "later ms1 ms2" "t \<le> ms_gpu_tick ms2"
      "ms_current_tick ms2 = (if t = ?c then t + 1 else ?c)"
      by (rule CommandScheduler_Wait_spec [of t ms1 after peek]) (use assms(3) tc d c in \<open>auto simp: during_def\<close>)
    then show ?thesis using l by (auto simp: later_def during_def time_ok_def split: if_splits)
  qed
qed

text \<open>The cursor stands after the last watch waited for, and the bound is that watch's.\<close>

definition waited :: "Watch list \<Rightarrow> nat \<Rightarrow> nat \<Rightarrow> nat \<Rightarrow> bool" where
  "waited watches known cursor bound \<longleftrightarrow>
     (if cursor = 0 then bound = 0 else wa_tick (watches ! (cursor - 1)) \<le> known \<and> bound = wa_upper_bound (watches ! (cursor - 1)))"

lemma wait_pending_spec:
  assumes "true_counter peek after ms0" and "\<And>i. i < mark \<Longrightarrow> wa_tick (watches ! i) \<le> ms_current_tick ms0" and "mark \<le> length watches"
  shows "during (ms_current_tick ms0) ms \<Longrightarrow> cursor \<le> mark \<Longrightarrow> waited watches (ms_gpu_tick ms) cursor bound \<Longrightarrow>
    \<exists>ok cursor' bound' ms'. wait_pending peek after watches mark upper allow_wait cursor bound ms = Some (ok, cursor', bound', ms') \<and> later ms ms' \<and>
    (allow_wait \<longrightarrow> ok) \<and> (ok \<longrightarrow> cursor' \<le> mark \<and> (upper \<le> bound' \<or> cursor' = mark) \<and> waited watches (ms_gpu_tick ms') cursor' bound')"
proof (induction "mark - cursor" arbitrary: cursor bound ms)
  case 0
  then show ?case by (auto simp: wait_pending.simps [of _ _ _ _ _ _ cursor] later_def during_def intro: exI [of _ True])
next
  case (Suc k)
  show ?case
  proof (cases "upper > bound")
    case False
    then show ?thesis using Suc.prems by (auto simp: wait_pending.simps [of _ _ _ _ _ _ cursor] later_def during_def intro: exI [of _ True])
  next
    case True
    have c: "cursor < mark" "cursor < length watches" using Suc.hyps(2) assms(3) by auto
    let ?w = "watches ! cursor"
    obtain free ms1 where f: "CommandScheduler_IsFree peek (wa_tick ?w) ms = (free, ms1)" by fastforce
    note w = wait_one [OF assms(1) Suc.prems(1) assms(2) [OF c(1)] f]
    have unf: "wait_pending peek after watches mark upper allow_wait cursor bound ms =
        (if \<not> free \<and> \<not> allow_wait then Some (False, cursor, bound, ms1)
         else (case CommandScheduler_Wait peek after (wa_tick ?w) ms1 of None \<Rightarrow> None
           | Some ms2 \<Rightarrow> wait_pending peek after watches mark upper allow_wait (cursor + 1) (wa_upper_bound ?w) ms2))"
      using True c f by (simp add: wait_pending.simps [of _ _ _ _ _ _ cursor] Let_def)
    show ?thesis
    proof (cases "\<not> free \<and> \<not> allow_wait")
      case True
      then show ?thesis using unf w(1) by (intro exI [of _ False]) simp
    next
      case False
      obtain ms2 where m: "CommandScheduler_Wait peek after (wa_tick ?w) ms1 = Some ms2" "later ms ms2" "during (ms_current_tick ms0) ms2"
        "wa_tick ?w \<le> ms_gpu_tick ms2" using w(3) by blast
      have "waited watches (ms_gpu_tick ms2) (cursor + 1) (wa_upper_bound ?w)" using m(4) by (simp add: waited_def)
      moreover have "k = mark - (cursor + 1)" "cursor + 1 \<le> mark" using Suc.hyps(2) c(1) by auto
      ultimately obtain ok cursor' bound' ms' where
        r: "wait_pending peek after watches mark upper allow_wait (cursor + 1) (wa_upper_bound ?w) ms2 = Some (ok, cursor', bound', ms')" "later ms2 ms'"
          "allow_wait \<longrightarrow> ok" "ok \<longrightarrow> cursor' \<le> mark \<and> (upper \<le> bound' \<or> cursor' = mark) \<and> waited watches (ms_gpu_tick ms') cursor' bound'"
        using Suc.hyps(1) [OF _ m(3)] by blast
      moreover have "later ms ms'" using m(2) r(2) by (auto simp: later_def)
      ultimately show ?thesis using unf False m(1) by auto
    qed
  qed
qed

section \<open>Reservations\<close>

lemma AlignUp_spec: "AlignUp v a = Some w \<Longrightarrow> v \<le> w \<and> (a \<noteq> 0 \<longrightarrow> a dvd w)"
proof -
  assume a: "AlignUp v a = Some w"
  show ?thesis
  proof (cases "a = 0 \<or> v mod a = 0")
    case True
    then show ?thesis using a by (auto simp: AlignUp_def)
  next
    case False
    then have w: "w = v + (a - v mod a)" using a by (auto simp: AlignUp_def Let_def split: if_splits)
    have "v mod a < a" using False by simp
    then have "w = v div a * a + a" using w div_mult_mod_eq [of v a] by linarith
    then show ?thesis using w by simp
  qed
qed

lemma NormalizeReservation_spec:
  assumes "NormalizeReservation coherent atom n a = Some (m, b)" and "0 < atom"
  shows "n \<le> m \<and> (a \<noteq> 0 \<longrightarrow> b \<noteq> 0 \<and> a dvd b)"
proof (cases coherent)
  case False
  then have n: "AlignUp n atom = Some m" and b: "b = (if a = 0 then atom else a div gcd a atom * atom)"
    using assms(1) by (auto simp: NormalizeReservation_def Let_def split: option.splits if_splits)
  have "a dvd b \<and> b \<noteq> 0" if "a \<noteq> 0"
  proof -
    have "b = a * (atom div gcd a atom)" using that b by (simp add: div_mult_swap dvd_div_mult)
    moreover have "a div gcd a atom \<noteq> 0" using that by (simp add: dvd_div_eq_0_iff)
    moreover have "b \<noteq> 0" using \<open>a div gcd a atom \<noteq> 0\<close> that b assms(2) by simp
    ultimately show ?thesis by simp
  qed
  then show ?thesis using AlignUp_spec [OF n] by simp
qed (use assms in \<open>auto simp: NormalizeReservation_def\<close>)

section \<open>The invariant\<close>

definition current_ok :: "Watch list \<Rightarrow> nat \<Rightarrow> nat \<Rightarrow> nat \<Rightarrow> (nat \<Rightarrow> nat) \<Rightarrow> bool" where
  "current_ok watches cursor offset tick use \<longleftrightarrow> cursor \<le> length watches \<and> (cursor = 0 \<longrightarrow> offset = 0) \<and>
     (\<forall>i < cursor. wa_tick (watches ! i) \<le> tick \<and> wa_upper_bound (watches ! i) \<le> offset \<and>
        (\<forall>x < wa_upper_bound (watches ! i). use x \<le> wa_tick (watches ! i))) \<and>
     (0 < cursor \<longrightarrow> (\<forall>x. use x \<le> wa_tick (watches ! (cursor - 1))))"

definition previous_ok :: "nat option \<Rightarrow> Watch list \<Rightarrow> nat \<Rightarrow> nat \<Rightarrow> nat \<Rightarrow> nat \<Rightarrow> nat \<Rightarrow> (nat \<Rightarrow> nat) \<Rightarrow> bool" where
  "previous_ok mark watches wait_cursor wait_bound offset known tick use \<longleftrightarrow>
     (case mark of None \<Rightarrow> \<forall>x \<ge> offset. use x = 0
      | Some m \<Rightarrow> 0 < m \<and> m \<le> length watches \<and> wait_cursor \<le> m \<and> waited watches known wait_cursor wait_bound \<and>
          (\<forall>i < m. wa_tick (watches ! i) \<le> tick \<and> (\<forall>x \<ge> offset. x < wa_upper_bound (watches ! i) \<longrightarrow> use x \<le> wa_tick (watches ! i))) \<and>
          (\<forall>x \<ge> offset. use x \<le> wa_tick (watches ! (m - 1))))"

definition ring_ok :: "nat \<Rightarrow> bool \<Rightarrow> nat \<Rightarrow> StreamBuffer \<Rightarrow> MasterSemaphore \<Rightarrow> bool \<Rightarrow> (nat \<Rightarrow> nat) \<Rightarrow> bool" where
  "ring_ok n coherent atom r ms open use \<longleftrightarrow>
     0 < atom \<and> n \<le> UINT64_MAX \<and> sb_size r = n \<and> sb_is_coherent r = coherent \<and> sb_atom r = atom \<and> time_ok ms \<and>
     sb_offset r \<le> n \<and> (open \<longrightarrow> sb_offset r + sb_mapped_size r \<le> n) \<and> (\<forall>x. use x \<le> ms_current_tick ms) \<and>
     current_ok (sb_current_watches r) (sb_current_watch_cursor r) (sb_offset r) (ms_current_tick ms) use \<and>
     previous_ok (sb_invalidation_mark r) (sb_previous_watches r) (sb_wait_cursor r) (sb_wait_bound r) (sb_offset r) (ms_gpu_tick ms) (ms_current_tick ms) use"

lemma current_ok_mono:
  "current_ok watches cursor offset tick use \<Longrightarrow> offset \<le> offset' \<Longrightarrow> tick \<le> tick' \<Longrightarrow> 0 < cursor \<or> offset' = 0 \<Longrightarrow> current_ok watches cursor offset' tick' use"
  unfolding current_ok_def by (meson gr_implies_not_zero le_trans)

lemma waited_mono: "waited watches known c b \<Longrightarrow> known \<le> known' \<Longrightarrow> waited watches known' c b"
  by (auto simp: waited_def)

lemma previous_ok_mono:
  "previous_ok mark watches c b offset known tick use \<Longrightarrow> offset \<le> offset' \<Longrightarrow> known \<le> known' \<Longrightarrow> tick \<le> tick' \<Longrightarrow> previous_ok mark watches c b offset' known' tick' use"
  unfolding previous_ok_def by (cases mark) (auto intro: waited_mono order_trans)

text \<open>At the start of a lap the watches of the current lap become those of the previous one.\<close>

lemma current_to_previous:
  "current_ok watches cursor offset tick use \<Longrightarrow> 0 < cursor \<Longrightarrow> previous_ok (Some cursor) watches 0 0 0 known tick use"
  by (auto simp: current_ok_def previous_ok_def waited_def)

text \<open>Once enough watches are waited for, the bytes below the bound are free.\<close>

lemma previous_ok_free:
  assumes "previous_ok (Some m) watches c0 b0 offset known0 tick use" and "c \<le> m" and "upper \<le> b \<or> c = m" and "waited watches known c b"
    and "offset \<le> x" and "x < upper"
  shows "use x \<le> known"
proof -
  have c: "c > 0"
  proof (rule ccontr)
    assume "\<not> c > 0"
    then show False using assms by (auto simp: waited_def previous_ok_def)
  qed
  then have w: "wa_tick (watches ! (c - 1)) \<le> known" "b = wa_upper_bound (watches ! (c - 1))" using assms(4) by (auto simp: waited_def)
  have "use x \<le> wa_tick (watches ! (c - 1))"
  proof (cases "c = m")
    case True
    then show ?thesis using assms(1,5) by (auto simp: previous_ok_def)
  next
    case False
    then have "c - 1 < m" "x < wa_upper_bound (watches ! (c - 1))" using assms(2,3,6) w(2) by auto
    then show ?thesis using assms(1,5) by (auto simp: previous_ok_def)
  qed
  then show ?thesis using w(1) by simp
qed


definition mappable :: "bool \<Rightarrow> nat \<Rightarrow> nat \<Rightarrow> StreamBuffer \<Rightarrow> bool" where
  "mappable mapped n a r \<longleftrightarrow> mapped \<and>
     (case NormalizeReservation (sb_is_coherent r) (sb_atom r) n a of None \<Rightarrow> False
      | Some (m, b) \<Rightarrow> m \<le> sb_size r \<and> AlignUp (sb_offset r) b \<noteq> None)"

lemma Map_unmappable: "\<not> mappable mapped n a r \<Longrightarrow> StreamBuffer_Map peek after mapped n a allow_wait r ms = Some (None, r, ms)"
  by (auto simp: mappable_def StreamBuffer_Map_def split: option.splits)

text \<open>
  The ticks a request has to wait for: those of the watches of the pending lap from the cursor on, as long as
  none before them reaches up to the end of the requested bytes. When the bytes do not fit in the rest of the
  ring, the pending lap is the one just written.
\<close>

definition needed_ticks :: "Watch list \<Rightarrow> nat \<Rightarrow> nat \<Rightarrow> nat \<Rightarrow> nat \<Rightarrow> nat set" where
  "needed_ticks watches mark upper cursor bound =
     {wa_tick (watches ! i) | i. cursor \<le> i \<and> i < mark \<and> bound < upper \<and> (\<forall>j. cursor \<le> j \<and> j < i \<longrightarrow> wa_upper_bound (watches ! j) < upper)}"

definition pending_ticks :: "nat \<Rightarrow> nat \<Rightarrow> StreamBuffer \<Rightarrow> nat set" where
  "pending_ticks n a r =
     (case NormalizeReservation (sb_is_coherent r) (sb_atom r) n a of None \<Rightarrow> {}
      | Some (m, b) \<Rightarrow> (case AlignUp (sb_offset r) b of None \<Rightarrow> {}
          | Some off \<Rightarrow>
              if off + m > sb_size r then needed_ticks (sb_current_watches r) (sb_current_watch_cursor r) m 0 0
              else (case sb_invalidation_mark r of None \<Rightarrow> {}
                | Some mark \<Rightarrow> needed_ticks (sb_previous_watches r) mark (off + m) (sb_wait_cursor r) (sb_wait_bound r))))"

lemma needed_ticks_rec:
  "needed_ticks watches mark upper cursor bound =
    (if bound < upper \<and> cursor < mark
     then insert (wa_tick (watches ! cursor)) (needed_ticks watches mark upper (cursor + 1) (wa_upper_bound (watches ! cursor))) else {})"
proof (cases "bound < upper \<and> cursor < mark")
  case True
  have "t \<in> needed_ticks watches mark upper cursor bound \<longleftrightarrow>
      t \<in> insert (wa_tick (watches ! cursor)) (needed_ticks watches mark upper (cursor + 1) (wa_upper_bound (watches ! cursor)))" for t
  proof
    assume "t \<in> needed_ticks watches mark upper cursor bound"
    then obtain i where i: "t = wa_tick (watches ! i)" "cursor \<le> i" "i < mark" "\<And>j. cursor \<le> j \<Longrightarrow> j < i \<Longrightarrow> wa_upper_bound (watches ! j) < upper"
      by (auto simp: needed_ticks_def)
    show "t \<in> insert (wa_tick (watches ! cursor)) (needed_ticks watches mark upper (cursor + 1) (wa_upper_bound (watches ! cursor)))"
    proof (cases "i = cursor")
      case False
      then have "cursor + 1 \<le> i" "wa_upper_bound (watches ! cursor) < upper" using i(2,4) by auto
      then show ?thesis using i by (auto simp: needed_ticks_def)
    qed (use i(1) in simp)
  next
    assume t: "t \<in> insert (wa_tick (watches ! cursor)) (needed_ticks watches mark upper (cursor + 1) (wa_upper_bound (watches ! cursor)))"
    show "t \<in> needed_ticks watches mark upper cursor bound"
    proof (cases "t = wa_tick (watches ! cursor)")
      case True
      then show ?thesis using \<open>bound < upper \<and> cursor < mark\<close> unfolding needed_ticks_def by (auto intro!: exI [of _ cursor])
    next
      case False
      then obtain i where i: "t = wa_tick (watches ! i)" "cursor + 1 \<le> i" "i < mark" "wa_upper_bound (watches ! cursor) < upper"
        "\<And>j. cursor + 1 \<le> j \<Longrightarrow> j < i \<Longrightarrow> wa_upper_bound (watches ! j) < upper" using t by (auto simp: needed_ticks_def)
      have "wa_upper_bound (watches ! j) < upper" if "cursor \<le> j" "j < i" for j using i(4,5) that by (cases "j = cursor") auto
      then show ?thesis using i(1-3) \<open>bound < upper \<and> cursor < mark\<close> unfolding needed_ticks_def by (auto intro!: exI [of _ i])
    qed
  qed
  then show ?thesis using True by auto
qed (auto simp: needed_ticks_def)

text \<open>A loop that may not wait gets to its end exactly when all these ticks are known to be reached.\<close>

lemma wait_pending_no_wait:
  "time_ok ms \<Longrightarrow> peek < ms_current_tick ms \<Longrightarrow> wait_pending peek after watches mark upper False cursor bound ms = Some (ok, cursor', bound', ms') \<Longrightarrow>
    ok \<longleftrightarrow> (\<forall>t \<in> needed_ticks watches mark upper cursor bound. t \<le> max (ms_gpu_tick ms) peek)"
proof (induction "mark - cursor" arbitrary: cursor bound ms)
  case 0
  then have "needed_ticks watches mark upper cursor bound = {}" by (simp add: needed_ticks_rec)
  then show ?case using 0 by (simp add: wait_pending.simps [of _ _ _ _ _ _ cursor])
next
  case (Suc k)
  show ?case
  proof (cases "bound < upper")
    case False
    then have "needed_ticks watches mark upper cursor bound = {}" by (simp add: needed_ticks_rec)
    then show ?thesis using Suc.prems(3) False by (simp add: wait_pending.simps [of _ _ _ _ _ _ cursor])
  next
    case True
    have c: "cursor < mark" using Suc.hyps(2) by simp
    let ?w = "watches ! cursor"
    note rec = needed_ticks_rec [of watches mark upper cursor bound]
    obtain free ms1 where f: "CommandScheduler_IsFree peek (wa_tick ?w) ms = (free, ms1)" by fastforce
    have m1: "time_ok ms1" "ms_current_tick ms1 = ms_current_tick ms" "free \<longleftrightarrow> wa_tick ?w \<le> ms_gpu_tick ms1"
      using CommandScheduler_IsFree_spec [OF Suc.prems(1,2) f] by (auto simp: later_def)
    have known: "max (ms_gpu_tick ms1) peek = max (ms_gpu_tick ms) peek" "free \<longleftrightarrow> wa_tick ?w \<le> max (ms_gpu_tick ms) peek"
      using f by (auto simp: CommandScheduler_IsFree_def MasterSemaphore_IsFree_def Let_def split: if_splits)
    have run: "(if \<not> free then Some (False, cursor, bound, ms1)
         else (case CommandScheduler_Wait peek after (wa_tick ?w) ms1 of None \<Rightarrow> None
           | Some ms2 \<Rightarrow> wait_pending peek after watches mark upper False (cursor + 1) (wa_upper_bound ?w) ms2)) = Some (ok, cursor', bound', ms')"
      using Suc.prems(3) True c f by (simp add: wait_pending.simps [of _ _ _ _ _ _ cursor] Let_def split: if_splits)
    show ?thesis
    proof (cases free)
      case False
      then show ?thesis using run known(2) rec True c by auto
    next
      case free: True
      then have w: "CommandScheduler_Wait peek after (wa_tick ?w) ms1 = Some ms1" using CommandScheduler_Wait_free m1 by blast
      have "ok \<longleftrightarrow> (\<forall>t \<in> needed_ticks watches mark upper (cursor + 1) (wa_upper_bound ?w). t \<le> max (ms_gpu_tick ms1) peek)"
        by (rule Suc.hyps(1)) (use Suc.hyps(2) Suc.prems(2) m1 run free w in auto)
      then show ?thesis using rec True c known free by auto
    qed
  qed
qed

lemma Map_placed:
  assumes "mapped" and "NormalizeReservation (sb_is_coherent r) (sb_atom r) n a = Some (m, b)" and "m \<le> sb_size r" and "AlignUp (sb_offset r) b = Some off"
  obtains at f where "StreamBuffer_Map peek after mapped n a allow_wait r ms =
    map_option (\<lambda>(ok, c, bound, ms'). if ok then (Some at, f c bound, ms') else (None, r, ms'))
      (if off + m > sb_size r
       then wait_pending peek after (sb_current_watches r) (sb_current_watch_cursor r) m allow_wait 0 0 ms
       else WaitPendingOperations peek after (sb_previous_watches r) (sb_invalidation_mark r) (off + m) allow_wait (sb_wait_cursor r) (sb_wait_bound r) ms)"
proof (cases "off + m > sb_size r")
  case True
  then have w: "sb_size r - m < off" using assms(3) by linarith
  show ?thesis
    by (rule that [of 0 "\<lambda>c bound. r\<lparr>sb_invalidation_mark := Some (sb_current_watch_cursor r), sb_current_watch_cursor := 0,
          sb_previous_watches := sb_current_watches r, sb_current_watches := sb_previous_watches r,
          sb_wait_cursor := c, sb_wait_bound := bound, sb_offset := 0, sb_mapped_size := m\<rparr>"])
      (simp add: StreamBuffer_Map_def Let_def assms leD [OF assms(3)] w True WaitPendingOperations_def split: option.split prod.split bool.split)
next
  case False
  then have w: "\<not> sb_size r - m < off" using assms(3) by linarith
  show ?thesis
    by (rule that [of off "\<lambda>c bound. r\<lparr>sb_wait_cursor := c, sb_wait_bound := bound, sb_offset := off, sb_mapped_size := m\<rparr>"])
      (simp add: StreamBuffer_Map_def Let_def assms leD [OF assms(3)] w False split: option.split prod.split bool.split)
qed

lemma Map_no_wait:
  assumes "time_ok ms" and "peek < ms_current_tick ms" and "mappable mapped n a r"
    and run: "StreamBuffer_Map peek after mapped n a False r ms = Some (p, r', ms')"
  shows "p \<noteq> None \<longleftrightarrow> (\<forall>t \<in> pending_ticks n a r. t \<le> max (ms_gpu_tick ms) peek)"
proof -
  obtain m b off where m: "mapped" "NormalizeReservation (sb_is_coherent r) (sb_atom r) n a = Some (m, b)" "m \<le> sb_size r" "AlignUp (sb_offset r) b = Some off"
    using assms(3) by (auto simp: mappable_def split: option.splits)
  let ?w = "if off + m > sb_size r
       then wait_pending peek after (sb_current_watches r) (sb_current_watch_cursor r) m False 0 0 ms
       else WaitPendingOperations peek after (sb_previous_watches r) (sb_invalidation_mark r) (off + m) False (sb_wait_cursor r) (sb_wait_bound r) ms"
  define W where "W = ?w"
  obtain at f where "StreamBuffer_Map peek after mapped n a False r ms =
    map_option (\<lambda>(ok, c, bound, ms'). if ok then (Some at, f c bound, ms') else (None, r, ms')) W"
    unfolding W_def by (rule Map_placed [OF m])
  then have "map_option (\<lambda>(ok, c, bound, ms'). if ok then (Some at, f c bound, ms') else (None, r, ms')) W = Some (p, r', ms')"
    using run by metis
  then obtain x where x: "W = Some x" "(case x of (ok, c, bound, ms') \<Rightarrow> if ok then (Some at, f c bound, ms') else (None, r, ms')) = (p, r', ms')"
    unfolding map_option_eq_Some by blast
  obtain ok c bound t where "x = (ok, c, bound, t)" by (cases x)
  then have w: "?w = Some (ok, c, bound, t)" and p: "p \<noteq> None \<longleftrightarrow> ok" using x unfolding W_def by (auto split: if_splits)
  show ?thesis
  proof (cases "off + m > sb_size r")
    case True
    then show ?thesis using wait_pending_no_wait [OF assms(1,2), of after "sb_current_watches r" "sb_current_watch_cursor r" m 0 0] w p m(2,4)
      by (simp add: pending_ticks_def)
  next
    case False
    then show ?thesis using wait_pending_no_wait [OF assms(1,2), of after "sb_previous_watches r" _ "off + m" "sb_wait_cursor r" "sb_wait_bound r"] w p m(2,4)
      by (auto simp: pending_ticks_def WaitPendingOperations_def split: option.splits)
  qed
qed

text \<open>The wait that a mapping makes, in both of its cases.\<close>

lemma wait_for_bytes:
  assumes "previous_ok mark watches c b offset (ms_gpu_tick ms) (ms_current_tick ms) use" and "true_counter peek after ms" and "time_ok ms"
  obtains ok c' b' ms' where "WaitPendingOperations peek after watches mark upper allow_wait c b ms = Some (ok, c', b', ms')"
    and "later ms ms'" and "allow_wait \<longrightarrow> ok"
    and "ok \<longrightarrow> previous_ok mark watches c' b' offset (ms_gpu_tick ms') (ms_current_tick ms') use"
    and "ok \<longrightarrow> (\<forall>x. offset \<le> x \<and> x < upper \<longrightarrow> use x \<le> ms_gpu_tick ms')"
proof (cases mark)
  case None
  then show ?thesis using assms that [of True c b ms] by (auto simp: WaitPendingOperations_def later_def previous_ok_def)
next
  case (Some m)
  have p: "m \<le> length watches" "\<And>i. i < m \<Longrightarrow> wa_tick (watches ! i) \<le> ms_current_tick ms" "c \<le> m" "waited watches (ms_gpu_tick ms) c b"
    using assms(1) Some by (auto simp: previous_ok_def)
  have "during (ms_current_tick ms) ms" using assms(3) by (simp add: during_def)
  from wait_pending_spec [where upper = upper and allow_wait = allow_wait, OF assms(2) p(2,1) this p(3,4)] obtain ok c' b' ms' where
    w: "wait_pending peek after watches m upper allow_wait c b ms = Some (ok, c', b', ms')" "later ms ms'" "allow_wait \<longrightarrow> ok"
      "ok \<longrightarrow> c' \<le> m \<and> (upper \<le> b' \<or> c' = m) \<and> waited watches (ms_gpu_tick ms') c' b'"
    by auto
  have "previous_ok mark watches c' b' offset (ms_gpu_tick ms') (ms_current_tick ms') use" if "ok"
    using assms(1) w(2,4) that Some unfolding previous_ok_def later_def by (auto intro: order_trans)
  moreover have "use x \<le> ms_gpu_tick ms'" if "ok" "offset \<le> x" "x < upper" for x
    using previous_ok_free [OF assms(1) [unfolded Some], of c' upper b' "ms_gpu_tick ms'" x] w(4) that by auto
  ultimately show ?thesis using that w(1-3) Some by (auto simp: WaitPendingOperations_def)
qed

lemma StreamBuffer_Map_spec:
  assumes "ring_ok sz coherent atom r ms open use" and "true_counter peek after ms"
  shows "\<exists>p r' ms'. StreamBuffer_Map peek after mapped n a allow_wait r ms = Some (p, r', ms') \<and> later ms ms' \<and>
    ring_ok sz coherent atom r' ms' (open \<or> p \<noteq> None) use \<and>
    (case p of None \<Rightarrow> r' = r \<and> \<not> (allow_wait \<and> mappable mapped n a r)
     | Some off \<Rightarrow> mappable mapped n a r \<and> sb_offset r' = off \<and> n \<le> sb_mapped_size r' \<and> off + sb_mapped_size r' \<le> sz \<and> (a \<noteq> 0 \<longrightarrow> a dvd off) \<and>
         (\<forall>x. off \<le> x \<and> x < off + sb_mapped_size r' \<longrightarrow> use x \<le> ms_gpu_tick ms'))"
proof (cases "mappable mapped n a r")
  case False
  have "later ms ms" using assms(1) by (simp add: ring_ok_def later_def)
  then show ?thesis using Map_unmappable [OF False] False assms(1) by simp
next
  case True
  note R = assms(1) [unfolded ring_ok_def]
  obtain m b o1 where m: "mapped" "NormalizeReservation (sb_is_coherent r) (sb_atom r) n a = Some (m, b)" "m \<le> sb_size r" "AlignUp (sb_offset r) b = Some o1"
    using True by (auto simp: mappable_def split: option.splits)
  have nm: "n \<le> m" "a \<noteq> 0 \<Longrightarrow> b \<noteq> 0 \<and> a dvd b" using NormalizeReservation_spec [OF m(2)] R by auto
  have o1: "sb_offset r \<le> o1" "b \<noteq> 0 \<longrightarrow> b dvd o1" using AlignUp_spec [OF m(4)] by auto
  let ?wrap = "o1 > sb_size r - m"
  define off where "off = (if ?wrap then 0 else o1)"
  have off: "off + m \<le> sz" "a \<noteq> 0 \<longrightarrow> a dvd off" using m(3) R nm(2) o1(2) by (auto simp: off_def intro: dvd_trans)
  let ?mark = "if ?wrap then Some (sb_current_watch_cursor r) else sb_invalidation_mark r"
  let ?pend = "if ?wrap then sb_current_watches r else sb_previous_watches r"
  have cur: "0 < sb_current_watch_cursor r" if "?wrap"
  proof (rule ccontr)
    assume "\<not> 0 < sb_current_watch_cursor r"
    then have "sb_offset r = 0" using R by (auto simp: current_ok_def)
    then have "o1 = 0" using m(4) by (auto simp: AlignUp_def)
    then show False using that m(3) by simp
  qed
  have prev: "previous_ok ?mark ?pend (if ?wrap then 0 else sb_wait_cursor r) (if ?wrap then 0 else sb_wait_bound r) off (ms_gpu_tick ms) (ms_current_tick ms) use"
    using R cur current_to_previous previous_ok_mono o1(1) by (auto simp: off_def)
  have tm: "time_ok ms" using R by blast
  obtain ok c' b' ms' where w: "WaitPendingOperations peek after ?pend ?mark (off + m) allow_wait (if ?wrap then 0 else sb_wait_cursor r) (if ?wrap then 0 else sb_wait_bound r) ms = Some (ok, c', b', ms')"
    "later ms ms'" "allow_wait \<longrightarrow> ok" "ok \<longrightarrow> previous_ok ?mark ?pend c' b' off (ms_gpu_tick ms') (ms_current_tick ms') use"
    "ok \<longrightarrow> (\<forall>x. off \<le> x \<and> x < off + m \<longrightarrow> use x \<le> ms_gpu_tick ms')"
    by (rule wait_for_bytes [where upper = "off + m" and allow_wait = allow_wait, OF prev assms(2) tm])
  have res: "StreamBuffer_Map peek after mapped n a allow_wait r ms = (case (ok, c', b', ms') of
      (False, _, _, ms') \<Rightarrow> Some (None, r, ms')
    | (True, c', b', ms') \<Rightarrow> Some (Some off, (if ?wrap then r\<lparr>sb_invalidation_mark := ?mark, sb_current_watch_cursor := 0,
          sb_previous_watches := sb_current_watches r, sb_current_watches := sb_previous_watches r\<rparr> else r)
        \<lparr>sb_wait_cursor := c', sb_wait_bound := b', sb_offset := off, sb_mapped_size := m\<rparr>, ms'))"
    using m w(1) by (cases ?wrap; cases ok) (simp_all add: StreamBuffer_Map_def Let_def off_def)
  have T: "ms_current_tick ms \<le> ms_current_tick ms'" "ms_gpu_tick ms \<le> ms_gpu_tick ms'" "time_ok ms'" using w(2) by (auto simp: later_def)
  have use: "\<forall>x. use x \<le> ms_current_tick ms'" using R T(1) by (auto intro: order_trans)
  show ?thesis
  proof (cases ok)
    case False
    have "ring_ok sz coherent atom r ms' open use"
      using R T use unfolding ring_ok_def by (auto intro: current_ok_mono previous_ok_mono simp: current_ok_def)
    then show ?thesis using res False w(2,3) by auto
  next
    case ok: True
    let ?r = "(if ?wrap then r\<lparr>sb_invalidation_mark := ?mark, sb_current_watch_cursor := 0,
          sb_previous_watches := sb_current_watches r, sb_current_watches := sb_previous_watches r\<rparr> else r)
        \<lparr>sb_wait_cursor := c', sb_wait_bound := b', sb_offset := off, sb_mapped_size := m\<rparr>"
    have "current_ok (sb_current_watches ?r) (sb_current_watch_cursor ?r) off (ms_current_tick ms') use"
    proof (cases ?wrap)
      case True
      then show ?thesis by (simp add: current_ok_def off_def)
    next
      case False
      have c0: "current_ok (sb_current_watches r) (sb_current_watch_cursor r) (sb_offset r) (ms_current_tick ms) use" using R by blast
      have "0 < sb_current_watch_cursor r \<or> o1 = 0" using c0 m(4) by (auto simp: current_ok_def AlignUp_def)
      then show ?thesis using False current_ok_mono [OF c0 o1(1) T(1)] by (simp add: off_def)
    qed
    moreover have "previous_ok (sb_invalidation_mark ?r) (sb_previous_watches ?r) c' b' off (ms_gpu_tick ms') (ms_current_tick ms') use"
      using w(4) [THEN mp, OF ok] by (cases ?wrap) simp_all
    ultimately have "ring_ok sz coherent atom ?r ms' True use" using R T(3) use off(1) unfolding ring_ok_def by (auto simp del: if_split)
    then show ?thesis using res ok w(2) w(5) [THEN mp, OF ok] off nm(1) True by (auto simp del: if_split)
  qed
qed

section \<open>Committing\<close>

lemma StreamBuffer_Commit_spec:
  assumes "ring_ok sz coherent atom r ms True use"
  defines "use' \<equiv> (\<lambda>x. if sb_offset r \<le> x \<and> x < sb_offset r + sb_mapped_size r then ms_current_tick ms else use x)"
  shows "\<exists>r'. StreamBuffer_Commit (ms_current_tick ms) r = Some r' \<and> ring_ok sz coherent atom r' ms False use' \<and> sb_offset r' = sb_offset r + sb_mapped_size r"
proof -
  note R = assms(1) [unfolded ring_ok_def]
  let ?c = "sb_current_watch_cursor r" and ?ws = "sb_current_watches r" and ?T = "ms_current_tick ms"
  let ?off = "sb_offset r + sb_mapped_size r"
  have off: "add64 (sb_offset r) (sb_mapped_size r) = ?off" "sb_offset r \<le> ?off" "?off \<le> sz" using R by auto
  have cur: "current_ok ?ws ?c (sb_offset r) ?T use" using R by blast
  have use: "use' x \<le> ?T" "x < sb_offset r \<Longrightarrow> use' x = use x" "?off \<le> x \<Longrightarrow> use' x = use x" for x using R by (auto simp: use'_def)
  have prev: "previous_ok (sb_invalidation_mark r) (sb_previous_watches r) (sb_wait_cursor r) (sb_wait_bound r) ?off (ms_gpu_tick ms) ?T use'"
    using R use(3) off(2) unfolding previous_ok_def by (auto split: option.splits)
  have old: "wa_tick (?ws ! i) \<le> ?T" "wa_upper_bound (?ws ! i) \<le> sb_offset r" "x < wa_upper_bound (?ws ! i) \<Longrightarrow> use' x \<le> wa_tick (?ws ! i)" if "i < ?c" for i x
    using cur that use(2) [of x] by (force simp: current_ok_def)+
  have ok: "ring_ok sz coherent atom (r\<lparr>sb_offset := ?off, sb_current_watches := ws, sb_current_watch_cursor := c\<rparr>) ms False use'"
    if "0 < c" "c \<le> length ws" "\<And>i. i < c - 1 \<Longrightarrow> i < ?c \<and> ws ! i = ?ws ! i" "ws ! (c - 1) = \<lparr>wa_tick = ?T, wa_upper_bound = ?off\<rparr>" for c ws
  proof -
    have w: "wa_tick (ws ! i) \<le> ?T \<and> wa_upper_bound (ws ! i) \<le> ?off \<and> (\<forall>x < wa_upper_bound (ws ! i). use' x \<le> wa_tick (ws ! i))" if "i < c" for i
    proof (cases "i = c - 1")
      case True
      then show ?thesis using \<open>ws ! (c - 1) = _\<close> use(1) by simp
    next
      case False
      then have "i < ?c" "ws ! i = ?ws ! i" using \<open>\<And>i. i < c - 1 \<Longrightarrow> _ i\<close> [of i] that by auto
      then show ?thesis using old(1,3) [of i] order_trans [OF old(2) [of i] off(2)] by simp
    qed
    then have "current_ok ws c ?off ?T use'" using that(1,2,4) use(1) by (simp add: current_ok_def)
    then show ?thesis using R off use(1) prev by (simp add: ring_ok_def)
  qed
  show ?thesis
  proof (cases "?c \<noteq> 0 \<and> wa_tick (?ws ! (?c - 1)) = ?T")
    case True
    have c: "0 < ?c" "?c \<le> length ?ws" using True cur by (auto simp: current_ok_def)
    let ?ws' = "?ws[?c - 1 := (?ws ! (?c - 1))\<lparr>wa_upper_bound := ?off\<rparr>]"
    have "ring_ok sz coherent atom (r\<lparr>sb_offset := ?off, sb_current_watches := ?ws', sb_current_watch_cursor := ?c\<rparr>) ms False use'"
      by (rule ok) (use c True in auto)
    moreover have "r\<lparr>sb_offset := ?off, sb_current_watches := ?ws', sb_current_watch_cursor := ?c\<rparr> = r\<lparr>sb_offset := ?off, sb_current_watches := ?ws'\<rparr>"
      by simp
    moreover have "\<not> ?c - 1 \<ge> length ?ws" using c by linarith
    then have "StreamBuffer_Commit ?T r = Some (r\<lparr>sb_offset := ?off, sb_current_watches := ?ws'\<rparr>)"
      unfolding StreamBuffer_Commit_def Let_def off(1) using True by simp
    ultimately show ?thesis by simp
  next
    case False
    let ?g = "if ?c + 1 \<ge> length ?ws then ReserveWatches ?ws WATCHES_RESERVE_CHUNK else ?ws"
    have c: "?c \<le> length ?ws" using cur by (simp add: current_ok_def)
    have g: "?c < length ?g" "\<And>i. i < ?c \<Longrightarrow> ?g ! i = ?ws ! i" using c by auto
    let ?ws' = "?g[?c := \<lparr>wa_tick = ?T, wa_upper_bound = ?off\<rparr>]"
    have "ring_ok sz coherent atom (r\<lparr>sb_offset := ?off, sb_current_watches := ?ws', sb_current_watch_cursor := ?c + 1\<rparr>) ms False use'"
      by (rule ok) (use g in \<open>auto simp del: if_split\<close>)
    moreover have "StreamBuffer_Commit ?T r = Some (r\<lparr>sb_offset := ?off, sb_current_watches := ?ws', sb_current_watch_cursor := ?c + 1\<rparr>)"
    proof -
      have "\<not> (?c \<noteq> 0 \<and> ?c - 1 \<ge> length ?ws)" "\<not> ?c \<ge> length ?g" using c g(1) by linarith+
      then show ?thesis by (simp only: StreamBuffer_Commit_def Let_def off(1) False if_False)
    qed
    ultimately show ?thesis by simp
  qed
qed

section \<open>Every reachable state\<close>

lemma ring_ok_new:
  "0 < atom \<Longrightarrow> sz \<le> UINT64_MAX \<Longrightarrow> ring_ok sz coherent atom (new_stream_buffer sz coherent atom) \<lparr>ms_gpu_tick = 0, ms_current_tick = 1\<rparr> False (\<lambda>x. 0)"
  by (simp add: ring_ok_def new_stream_buffer_def time_ok_def current_ok_def previous_ok_def)

lemma ring_ok_later:
  assumes "ring_ok sz coherent atom r ms open use" and "later ms ms'"
  shows "ring_ok sz coherent atom r ms' open use"
  using assms unfolding ring_ok_def later_def by (auto intro: current_ok_mono previous_ok_mono order_trans simp: current_ok_def)

lemma sb_reach_ok: "sb_reach sz coherent atom s \<Longrightarrow> ring_ok sz coherent atom (sy_ring s) (sy_time s) (sy_open s) (sy_use s)"
proof (induction rule: sb_reach.induct)
  case reach_new
  then show ?case using ring_ok_new by simp
next
  case (reach_step s s')
  from reach_step.hyps(2) show ?case
  proof cases
    case (step_map peek after mapped n alignment allow_wait r ring time)
    then show ?thesis using StreamBuffer_Map_spec [OF reach_step.IH step_map(2), where mapped = mapped and n = n and a = alignment and allow_wait = allow_wait]
      by auto
  next
    case (step_commit ring)
    then show ?thesis using StreamBuffer_Commit_spec [of sz coherent atom "sy_ring s" "sy_time s" "sy_use s"] reach_step.IH by simp
  next
    case step_submit
    have "later (sy_time s) (snd (MasterSemaphore_NextTick (sy_time s)))"
      using reach_step.IH by (simp add: later_def time_ok_def ring_ok_def MasterSemaphore_NextTick_def)
    then show ?thesis using ring_ok_later [OF reach_step.IH] step_submit by simp
  next
    case (step_refresh counter)
    have "later (sy_time s) (MasterSemaphore_Refresh counter (sy_time s))"
      using reach_step.IH step_refresh(2) by (simp add: later_def time_ok_def ring_ok_def)
    then show ?thesis using ring_ok_later [OF reach_step.IH] step_refresh(1) by simp
  qed
qed

text \<open>
  C26: The ring never hands out bytes that the GPU still uses. In every state that mapping, committing and
  submitting reach, mapping ends (no watch is read past the end of the list and none has a tick that is not
  there to be waited for); the range it gives lies inside the buffer, holds the requested bytes, starts at a
  multiple of the alignment, and for each of its bytes the last tick that uses it has been reached by the
  timeline, which has not run ahead of the submissions; and what is mapped can be committed. A request that can
  be placed always succeeds if it may wait; if it may not, it succeeds exactly when every tick that it would
  have had to wait for is known to be reached. A failure leaves the ring unchanged.
\<close>

theorem stream_buffer_safe:
  assumes "sb_reach sz coherent atom s" and "true_counter peek after (sy_time s)"
  shows "case StreamBuffer_Map peek after mapped n a allow_wait (sy_ring s) (sy_time s) of
      None \<Rightarrow> False
    | Some (None, r, ms) \<Rightarrow> r = sy_ring s \<and>
        (mappable mapped n a (sy_ring s) \<longrightarrow> \<not> allow_wait \<and> (\<exists>t \<in> pending_ticks n a (sy_ring s). max (ms_gpu_tick (sy_time s)) peek < t))
    | Some (Some off, r, ms) \<Rightarrow>
        mappable mapped n a (sy_ring s) \<and>
        (\<not> allow_wait \<longrightarrow> (\<forall>t \<in> pending_ticks n a (sy_ring s). t \<le> max (ms_gpu_tick (sy_time s)) peek)) \<and>
        off + n \<le> sz \<and> (a \<noteq> 0 \<longrightarrow> a dvd off) \<and> sb_offset r = off \<and> n \<le> sb_mapped_size r \<and>
        (\<forall>x \<in> bytes_of off (sb_mapped_size r). sy_use s x \<le> ms_gpu_tick ms) \<and> ms_gpu_tick ms < ms_current_tick ms \<and>
        StreamBuffer_Commit (ms_current_tick ms) r \<noteq> None"
proof -
  note inv = sb_reach_ok [OF assms(1)]
  obtain p r ms where m: "StreamBuffer_Map peek after mapped n a allow_wait (sy_ring s) (sy_time s) = Some (p, r, ms)" "later (sy_time s) ms"
    "ring_ok sz coherent atom r ms (sy_open s \<or> p \<noteq> None) (sy_use s)"
    "case p of None \<Rightarrow> r = sy_ring s \<and> \<not> (allow_wait \<and> mappable mapped n a (sy_ring s))
     | Some off \<Rightarrow> mappable mapped n a (sy_ring s) \<and> sb_offset r = off \<and> n \<le> sb_mapped_size r \<and> off + sb_mapped_size r \<le> sz \<and> (a \<noteq> 0 \<longrightarrow> a dvd off) \<and>
         (\<forall>x. off \<le> x \<and> x < off + sb_mapped_size r \<longrightarrow> sy_use s x \<le> ms_gpu_tick ms)"
    using StreamBuffer_Map_spec [OF inv assms(2), of mapped n a allow_wait] by auto
  have t: "time_ok (sy_time s)" "peek < ms_current_tick (sy_time s)" using inv assms(2) by (simp_all add: ring_ok_def true_counter_def)
  have no_wait: "p \<noteq> None \<longleftrightarrow> (\<forall>t \<in> pending_ticks n a (sy_ring s). t \<le> max (ms_gpu_tick (sy_time s)) peek)"
    if "\<not> allow_wait" "mappable mapped n a (sy_ring s)"
    using Map_no_wait [OF t that(2)] m(1) that(1) by simp
  show ?thesis
  proof (cases p)
    case None
    then have "\<exists>t \<in> pending_ticks n a (sy_ring s). max (ms_gpu_tick (sy_time s)) peek < t" if "\<not> allow_wait" "mappable mapped n a (sy_ring s)"
      using no_wait [OF that] not_le by blast
    then show ?thesis using m None by auto
  next
    case (Some off)
    have "StreamBuffer_Commit (ms_current_tick ms) r \<noteq> None" using StreamBuffer_Commit_spec [of sz coherent atom r ms "sy_use s"] m(3) Some by auto
    moreover have "\<not> allow_wait \<longrightarrow> (\<forall>t \<in> pending_ticks n a (sy_ring s). t \<le> max (ms_gpu_tick (sy_time s)) peek)"
      using no_wait m(4) Some by simp
    ultimately show ?thesis using m Some by (simp add: later_def time_ok_def)
  qed
qed

text \<open>
  A ring of 64 bytes, mapped and committed once and submitted: the second mapping does not fit in the rest of the
  ring, starts again at the beginning, and waits for the first.
\<close>

definition demo_ring :: System where
  "demo_ring = \<lparr>sy_ring = (new_stream_buffer 64 True 1)
       \<lparr>sb_offset := 48, sb_mapped_size := 48, sb_current_watches := (ReserveWatches [] WATCHES_INITIAL_RESERVE)[0 := \<lparr>wa_tick = 1, wa_upper_bound = 48\<rparr>],
        sb_current_watch_cursor := 1\<rparr>,
     sy_time = \<lparr>ms_gpu_tick = 0, ms_current_tick = 2\<rparr>, sy_open = False, sy_use = (\<lambda>x. if 0 \<le> x \<and> x < 48 then 1 else 0)\<rparr>"

lemma demo_map: "StreamBuffer_Map 0 (\<lambda>t. t) True 48 16 True (new_stream_buffer 64 True 1) \<lparr>ms_gpu_tick = 0, ms_current_tick = 1\<rparr> =
  Some (Some 0, (new_stream_buffer 64 True 1)\<lparr>sb_mapped_size := 48\<rparr>, \<lparr>ms_gpu_tick = 0, ms_current_tick = 1\<rparr>)"
  by (simp add: StreamBuffer_Map_def NormalizeReservation_def AlignUp_def WaitPendingOperations_def new_stream_buffer_def)

lemma demo_reach: "sb_reach 64 True 1 demo_ring"
proof -
  let ?r = "new_stream_buffer 64 True 1" and ?t = "\<lparr>ms_gpu_tick = 0, ms_current_tick = 1\<rparr>"
  let ?s1 = "\<lparr>sy_ring = ?r\<lparr>sb_mapped_size := 48\<rparr>, sy_time = ?t, sy_open = True, sy_use = (\<lambda>x. 0)\<rparr>"
  let ?s0 = "\<lparr>sy_ring = ?r, sy_time = \<lparr>ms_gpu_tick = 0, ms_current_tick = 1\<rparr>, sy_open = False, sy_use = (\<lambda>x. 0)\<rparr>"
  have 0: "sb_reach 64 True 1 ?s0" by (rule reach_new) simp_all
  have "sb_step ?s0 (?s0\<lparr>sy_ring := ?r\<lparr>sb_mapped_size := 48\<rparr>, sy_time := \<lparr>ms_gpu_tick = 0, ms_current_tick = 1\<rparr>, sy_open := (sy_open ?s0 \<or> Some (0::nat) \<noteq> None)\<rparr>)"
    by (rule step_map [where peek = 0 and after = "\<lambda>t. t"]) (use demo_map in \<open>simp_all add: true_counter_def\<close>)
  then have 1: "sb_reach 64 True 1 ?s1" by (rule reach_step [OF 0, OF back_subst [where P = "sb_step ?s0"]]) simp
  have "sb_step ?s1 (?s1\<lparr>sy_ring := sy_ring demo_ring, sy_open := False,
       sy_use := (\<lambda>x. if sb_offset (sy_ring ?s1) \<le> x \<and> x < sb_offset (sy_ring ?s1) + sb_mapped_size (sy_ring ?s1) then ms_current_tick (sy_time ?s1) else sy_use ?s1 x)\<rparr>)"
    by (rule step_commit) (simp_all add: StreamBuffer_Commit_def new_stream_buffer_def demo_ring_def Let_def)
  then have "sb_reach 64 True 1 (demo_ring\<lparr>sy_time := ?t\<rparr>)"
    by (rule reach_step [OF 1, OF back_subst [where P = "sb_step ?s1"]]) (simp add: demo_ring_def new_stream_buffer_def cong: if_cong)
  note 2 = reach_step [OF this step_submit]
  show ?thesis by (rule back_subst [where P = "sb_reach 64 True 1", OF 2]) (simp add: demo_ring_def MasterSemaphore_NextTick_def)
qed

theorem stream_buffer_safe_witness:
  "(case StreamBuffer_Map 0 (\<lambda>t. t) True 32 16 True (sy_ring demo_ring) (sy_time demo_ring) of
      None \<Rightarrow> False
    | Some (None, r, ms) \<Rightarrow> False
    | Some (Some off, r, ms) \<Rightarrow> off + 32 \<le> 64 \<and> sy_use demo_ring off \<le> ms_gpu_tick ms) \<and>
   (case StreamBuffer_Map 0 (\<lambda>t. t) True 32 16 False (sy_ring demo_ring) (sy_time demo_ring) of Some (None, r, ms) \<Rightarrow> r = sy_ring demo_ring | _ \<Rightarrow> False) \<and>
   (case StreamBuffer_Map 1 (\<lambda>t. t) True 32 16 False (sy_ring demo_ring) (sy_time demo_ring) of Some (Some off, r, ms) \<Rightarrow> off + 32 \<le> 64 | _ \<Rightarrow> False)"
proof (intro conjI)
  have m: "mappable True 32 16 (sy_ring demo_ring)"
    by (simp add: demo_ring_def new_stream_buffer_def mappable_def NormalizeReservation_def AlignUp_def)
  have "sb_current_watches (sy_ring demo_ring) ! 0 = \<lparr>wa_tick = 1, wa_upper_bound = 48\<rparr>" by (simp add: demo_ring_def)
  then have n: "needed_ticks (sb_current_watches (sy_ring demo_ring)) 1 32 0 0 = {1}" by (simp add: needed_ticks_rec)
  have p: "pending_ticks 32 16 (sy_ring demo_ring) = {1}"
    using n by (simp add: pending_ticks_def demo_ring_def new_stream_buffer_def NormalizeReservation_def AlignUp_def)
  have g: "ms_gpu_tick (sy_time demo_ring) = 0" by (simp add: demo_ring_def)
  have t: "true_counter 0 (\<lambda>t. t) (sy_time demo_ring)" "true_counter 1 (\<lambda>t. t) (sy_time demo_ring)" by (simp_all add: true_counter_def demo_ring_def)
  note safe = stream_buffer_safe [OF demo_reach, where mapped = True and n = 32 and a = 16]
  show "case StreamBuffer_Map 0 (\<lambda>t. t) True 32 16 True (sy_ring demo_ring) (sy_time demo_ring) of
      None \<Rightarrow> False
    | Some (None, r, ms) \<Rightarrow> False
    | Some (Some off, r, ms) \<Rightarrow> off + 32 \<le> 64 \<and> sy_use demo_ring off \<le> ms_gpu_tick ms"
    using safe [OF t(1), where allow_wait = True] m by (auto split: option.splits simp: Ball_def)
  show "case StreamBuffer_Map 0 (\<lambda>t. t) True 32 16 False (sy_ring demo_ring) (sy_time demo_ring) of Some (None, r, ms) \<Rightarrow> r = sy_ring demo_ring | _ \<Rightarrow> False"
    using safe [OF t(1), where allow_wait = False] p g by (auto split: option.splits)
  show "case StreamBuffer_Map 1 (\<lambda>t. t) True 32 16 False (sy_ring demo_ring) (sy_time demo_ring) of Some (Some off, r, ms) \<Rightarrow> off + 32 \<le> 64 | _ \<Rightarrow> False"
    using safe [OF t(2), where allow_wait = False] p g m by (auto split: option.splits)
qed

end
