(* ===== verification/Subsystems.thy ===== *)
theory Subsystems
  imports Prelude
begin

text \<open>
  Start-up and shutdown of the emulator's subsystems (src/src/common/subsystems.cpp): a list of subsystems with
  the names they depend on, started in an order that respects the dependencies and stopped in the reverse
  order.

  A subsystem is known by its name, which is unique. Whether starting one fails, and with which message, is
  the argument \<open>init\<close>; the operations also return the calls of \<open>Init\<close>, \<open>Destroy\<close> and \<open>UnexpectedShutdown\<close> that
  they make, in order.
\<close>

record SubsListStruct =
  ss_name :: string
  ss_deps :: "string list"
  ss_initialized :: bool

text \<open>\<open>sl_init\<close> is the chain from \<open>last_init\<close> along \<open>prev_init\<close>.\<close>

record SubsystemsList =
  sl_list :: "SubsListStruct list"
  sl_init :: "string list"
  sl_fail :: "(string \<times> string) option"

definition new_subsystems :: SubsystemsList where
  "new_subsystems = \<lparr>sl_list = [], sl_init = [], sl_fail = None\<rparr>"

definition FindByName :: "string \<Rightarrow> SubsListStruct list \<Rightarrow> SubsListStruct option" where
  "FindByName name ns = find (\<lambda>n. ss_name n = name) ns"

text \<open>None is \<open>EXIT_IF\<close>. New subsystems go to the front, and so do the dependencies of each.\<close>

definition SubsystemsList_Add :: "string \<Rightarrow> string list \<Rightarrow> SubsystemsList \<Rightarrow> SubsystemsList option" where
  "SubsystemsList_Add name deps s = do {
     exit_if (FindByName name (sl_list s) \<noteq> None);
     Some (s\<lparr>sl_list := \<lparr>ss_name = name, ss_deps = rev deps, ss_initialized = False\<rparr> # sl_list s\<rparr>) }"

definition dep_ready :: "SubsListStruct list \<Rightarrow> string \<Rightarrow> bool" where
  "dep_ready ns d = (case FindByName d ns of None \<Rightarrow> False | Some n \<Rightarrow> ss_initialized n)"

definition FindNextToInitialize :: "SubsListStruct list \<Rightarrow> SubsListStruct option" where
  "FindNextToInitialize ns = find (\<lambda>n. \<not> ss_initialized n \<and> list_all (dep_ready ns) (ss_deps n)) ns"

definition set_initialized :: "string \<Rightarrow> bool \<Rightarrow> SubsListStruct list \<Rightarrow> SubsListStruct list" where
  "set_initialized name b ns = map (\<lambda>n. if ss_name n = name then n\<lparr>ss_initialized := b\<rparr> else n) ns"

lemma uninitialized_less:
  assumes "FindNextToInitialize ns = Some n"
  shows "length (filter (\<lambda>m. \<not> ss_initialized m) (set_initialized (ss_name n) True ns)) < length (filter (\<lambda>m. \<not> ss_initialized m) ns)"
proof -
  have n: "n \<in> set ns" "\<not> ss_initialized n" using assms by (auto simp: FindNextToInitialize_def find_Some_iff)
  have le: "length (filter (\<lambda>m. \<not> ss_initialized m) (set_initialized x True ms)) \<le> length (filter (\<lambda>m. \<not> ss_initialized m) ms)" for x ms
    by (induction ms) (auto simp: set_initialized_def)
  show ?thesis using n
  proof (induction ns)
    case (Cons m ms)
    show ?case
    proof (cases "m = n")
      case True
      then show ?thesis using le [of "ss_name n" ms] Cons.prems by (auto simp: set_initialized_def)
    next
      case False
      then show ?thesis using Cons by (auto simp: set_initialized_def)
    qed
  qed simp
qed

function SubsystemsList_InitAll :: "(string \<Rightarrow> string option) \<Rightarrow> SubsystemsList \<Rightarrow> bool \<times> string list \<times> SubsystemsList" where
  "SubsystemsList_InitAll init s =
     (case FindNextToInitialize (sl_list s) of
        None \<Rightarrow> (True, [], s)
      | Some n \<Rightarrow>
          (case init (ss_name n) of
             Some msg \<Rightarrow> (False, [ss_name n], s\<lparr>sl_fail := Some (ss_name n, msg)\<rparr>)
           | None \<Rightarrow>
               (case SubsystemsList_InitAll init
                   (s\<lparr>sl_list := set_initialized (ss_name n) True (sl_list s), sl_init := ss_name n # sl_init s\<rparr>) of
                  (ok, calls, s') \<Rightarrow> (ok, ss_name n # calls, s'))))"
  by pat_completeness auto

termination SubsystemsList_InitAll
  by (relation "measure (\<lambda>(init, s). length (filter (\<lambda>m. \<not> ss_initialized m) (sl_list s)))") (auto simp: uninitialized_less)

declare SubsystemsList_InitAll.simps [simp del]

text \<open>Stopping: \<open>DestroyAll\<close> and \<open>ShutdownAll\<close> walk the chain and differ in what they call.\<close>

definition stop_all :: "SubsystemsList \<Rightarrow> string list \<times> SubsystemsList" where
  "stop_all s = (sl_init s, s\<lparr>sl_list := fold (\<lambda>name ns. set_initialized name False ns) (sl_init s) (sl_list s), sl_init := []\<rparr>)"

definition SubsystemsList_DestroyAll :: "SubsystemsList \<Rightarrow> string list \<times> SubsystemsList" where
  "SubsystemsList_DestroyAll s = stop_all s"

definition SubsystemsList_ShutdownAll :: "SubsystemsList \<Rightarrow> string list \<times> SubsystemsList" where
  "SubsystemsList_ShutdownAll s = stop_all s"

section \<open>The order\<close>

text \<open>
  The names of the list, the dependencies as a relation, and the invariant: names are unique and the chain
  holds exactly the initialized subsystems, each after (in the chain: before) what it depends on.
\<close>

definition dep_names :: "SubsListStruct list \<Rightarrow> (string \<times> string list) list" where
  "dep_names ns = map (\<lambda>n. (ss_name n, ss_deps n)) ns"

primrec in_order :: "(string \<times> string list) list \<Rightarrow> string list \<Rightarrow> bool" where
  "in_order ds [] = True"
| "in_order ds (x # xs) \<longleftrightarrow> in_order ds xs \<and> x \<notin> set xs \<and> (\<exists>d. (x, d) \<in> set ds \<and> set d \<subseteq> set xs)"

definition subsystems_ok :: "SubsystemsList \<Rightarrow> bool" where
  "subsystems_ok s \<longleftrightarrow> distinct (map ss_name (sl_list s)) \<and> in_order (dep_names (sl_list s)) (sl_init s) \<and>
     (\<forall>n \<in> set (sl_list s). ss_initialized n \<longleftrightarrow> ss_name n \<in> set (sl_init s))"

text \<open>What can be started at all: a subsystem all of whose dependencies are in the list and can be.\<close>

inductive startable :: "(string \<times> string list) list \<Rightarrow> string \<Rightarrow> bool" for ds where
  "(x, d) \<in> set ds \<Longrightarrow> (\<And>y. y \<in> set d \<Longrightarrow> startable ds y) \<Longrightarrow> startable ds x"

lemma dep_names_set_initialized [simp]: "dep_names (set_initialized x b ns) = dep_names ns"
  by (simp add: dep_names_def set_initialized_def comp_def if_distrib cong: if_cong)

lemma names_set_initialized [simp]: "map ss_name (set_initialized x b ns) = map ss_name ns"
  by (simp add: set_initialized_def comp_def if_distrib cong: if_cong)

lemma FindByName_Some: "FindByName x ns = Some n \<Longrightarrow> n \<in> set ns \<and> ss_name n = x"
  by (auto simp: FindByName_def find_Some_iff)

lemma FindByName_None: "FindByName x ns = None \<longleftrightarrow> x \<notin> ss_name ` set ns"
  by (auto simp: FindByName_def find_None_iff)

lemma in_order_names: "in_order ds xs \<Longrightarrow> set xs \<subseteq> fst ` set ds"
  by (induction xs) force+

lemma dep_ready_iff: "subsystems_ok s \<Longrightarrow> dep_ready (sl_list s) d \<longleftrightarrow> d \<in> set (sl_init s)"
proof -
  assume ok: "subsystems_ok s"
  show ?thesis
  proof (cases "FindByName d (sl_list s)")
    case None
    then have "d \<notin> fst ` set (dep_names (sl_list s))" by (auto simp: FindByName_None dep_names_def)
    then show ?thesis using None ok in_order_names [of "dep_names (sl_list s)" "sl_init s"] by (auto simp: dep_ready_def subsystems_ok_def)
  next
    case (Some n)
    then show ?thesis using FindByName_Some [OF Some] ok by (auto simp: dep_ready_def subsystems_ok_def)
  qed
qed

lemma next_Some:
  assumes "subsystems_ok s" and "FindNextToInitialize (sl_list s) = Some n"
  shows "n \<in> set (sl_list s)" and "ss_name n \<notin> set (sl_init s)" and "set (ss_deps n) \<subseteq> set (sl_init s)"
proof -
  have n: "n \<in> set (sl_list s)" "\<not> ss_initialized n" "list_all (dep_ready (sl_list s)) (ss_deps n)"
    using assms(2) by (auto simp: FindNextToInitialize_def find_Some_iff)
  then show "n \<in> set (sl_list s)" "ss_name n \<notin> set (sl_init s)" "set (ss_deps n) \<subseteq> set (sl_init s)"
    using assms(1) dep_ready_iff [OF assms(1)] by (auto simp: subsystems_ok_def list_all_iff)
qed

lemma next_None:
  assumes "subsystems_ok s" and "FindNextToInitialize (sl_list s) = None" and "n \<in> set (sl_list s)" and "set (ss_deps n) \<subseteq> set (sl_init s)"
  shows "ss_name n \<in> set (sl_init s)"
  using assms dep_ready_iff [OF assms(1)] by (auto simp: FindNextToInitialize_def find_None_iff list_all_iff subsystems_ok_def)

lemma start_one_ok:
  assumes "subsystems_ok s" and "FindNextToInitialize (sl_list s) = Some n"
  shows "subsystems_ok (s\<lparr>sl_list := set_initialized (ss_name n) True (sl_list s), sl_init := ss_name n # sl_init s\<rparr>)"
    and "in_order (dep_names (sl_list s)) (ss_name n # sl_init s)"
proof -
  note n = next_Some [OF assms]
  show o: "in_order (dep_names (sl_list s)) (ss_name n # sl_init s)"
    using n assms(1) by (auto simp: subsystems_ok_def dep_names_def)
  have "\<forall>m \<in> set (set_initialized (ss_name n) True (sl_list s)). ss_initialized m \<longleftrightarrow> ss_name m \<in> set (ss_name n # sl_init s)"
    using assms(1) by (auto simp: subsystems_ok_def set_initialized_def)
  then show "subsystems_ok (s\<lparr>sl_list := set_initialized (ss_name n) True (sl_list s), sl_init := ss_name n # sl_init s\<rparr>)"
    using o assms(1) by (simp add: subsystems_ok_def)
qed

lemma InitAll_spec:
  "SubsystemsList_InitAll init s = (b, calls, s') \<Longrightarrow> subsystems_ok s \<Longrightarrow>
    subsystems_ok s' \<and> dep_names (sl_list s') = dep_names (sl_list s) \<and> in_order (dep_names (sl_list s)) (rev calls @ sl_init s) \<and>
    (if b then sl_init s' = rev calls @ sl_init s \<and> (\<forall>x \<in> set calls. init x = None) \<and> FindNextToInitialize (sl_list s') = None \<and> sl_fail s' = sl_fail s
     else calls \<noteq> [] \<and> sl_init s' = rev (butlast calls) @ sl_init s \<and> (\<forall>x \<in> set (butlast calls). init x = None) \<and>
       (\<exists>msg. init (last calls) = Some msg \<and> sl_fail s' = Some (last calls, msg)))"
proof (induction init s arbitrary: b calls s' rule: SubsystemsList_InitAll.induct)
  case (1 init s)
  show ?case
  proof (cases "FindNextToInitialize (sl_list s)")
    case None
    then show ?thesis using "1.prems" by (auto simp: SubsystemsList_InitAll.simps subsystems_ok_def)
  next
    case (Some n)
    let ?t = "s\<lparr>sl_list := set_initialized (ss_name n) True (sl_list s), sl_init := ss_name n # sl_init s\<rparr>"
    note n = start_one_ok [OF "1.prems"(2) Some]
    show ?thesis
    proof (cases "init (ss_name n)")
      case fail: (Some msg)
      have "b = False" "calls = [ss_name n]" "s' = s\<lparr>sl_fail := Some (ss_name n, msg)\<rparr>"
        using "1.prems"(1) Some fail by (auto simp: SubsystemsList_InitAll.simps [of init s])
      then show ?thesis using n(2) "1.prems"(2) fail by (simp add: subsystems_ok_def)
    next
      case None
      obtain b1 calls1 where r: "SubsystemsList_InitAll init ?t = (b1, calls1, s')" "b = b1" "calls = ss_name n # calls1"
        using "1.prems"(1) Some None by (auto simp: SubsystemsList_InitAll.simps [of init s] split: prod.splits)
      note ih = "1.IH" [OF Some None r(1) n(1)]
      show ?thesis
      proof (cases b1)
        case True
        then show ?thesis using ih None r(2,3) by simp
      next
        case False
        then have "calls1 \<noteq> []" using ih by auto
        then show ?thesis using ih None r(2,3) False by simp
      qed
    qed
  qed
qed

lemma in_order_startable: "in_order ds xs \<Longrightarrow> \<forall>x \<in> set xs. startable ds x"
proof (induction xs)
  case (Cons y ys)
  obtain d where d: "(y, d) \<in> set ds" "set d \<subseteq> set ys" "in_order ds ys" using Cons.prems(1) by auto
  have ys: "\<forall>x \<in> set ys. startable ds x" by (rule Cons.IH [OF d(3)])
  have "startable ds y" by (rule startable.intros [OF d(1)]) (use ys d(2) in blast)
  then show ?case using ys by simp
qed simp

lemma startable_started:
  assumes "subsystems_ok s" and "FindNextToInitialize (sl_list s) = None"
  shows "startable (dep_names (sl_list s)) x \<Longrightarrow> x \<in> set (sl_init s)"
proof (induction rule: startable.induct)
  case (1 x d)
  then obtain n where "n \<in> set (sl_list s)" "ss_name n = x" "ss_deps n = d" by (auto simp: dep_names_def)
  then show ?case using next_None [OF assms, of n] 1 by auto
qed

lemma in_order_distinct: "in_order ds xs \<Longrightarrow> distinct xs"
  by (induction xs) auto

lemma in_order_mono: "in_order ds xs \<Longrightarrow> set ds \<subseteq> set es \<Longrightarrow> in_order es xs"
  by (induction xs) auto

lemma fold_set_initialized:
  "fold (\<lambda>name ns. set_initialized name False ns) xs ns = map (\<lambda>n. if ss_name n \<in> set xs then n\<lparr>ss_initialized := False\<rparr> else n) ns"
  by (induction xs arbitrary: ns) (auto simp: set_initialized_def)

lemma stop_all_ok:
  assumes "subsystems_ok s"
  shows "subsystems_ok (snd (stop_all s)) \<and> (\<forall>n \<in> set (sl_list (snd (stop_all s))). \<not> ss_initialized n) \<and>
    dep_names (sl_list (snd (stop_all s))) = dep_names (sl_list s)"
  using assms
  by (auto simp: stop_all_def fold_set_initialized subsystems_ok_def dep_names_def comp_def if_distrib cong: if_cong)

lemma Add_ok: "subsystems_ok s \<Longrightarrow> SubsystemsList_Add name deps s = Some t \<Longrightarrow> subsystems_ok t"
proof -
  assume ok: "subsystems_ok s" and a: "SubsystemsList_Add name deps s = Some t"
  have new: "name \<notin> ss_name ` set (sl_list s)" and t: "t = s\<lparr>sl_list := \<lparr>ss_name = name, ss_deps = rev deps, ss_initialized = False\<rparr> # sl_list s\<rparr>"
    using a by (auto simp: SubsystemsList_Add_def FindByName_None)
  have "set (sl_init s) \<subseteq> fst ` set (dep_names (sl_list s))" using ok by (auto simp: subsystems_ok_def dest: in_order_names)
  then have "name \<notin> set (sl_init s)" using new by (auto simp: dep_names_def)
  then show "subsystems_ok t" using ok new in_order_mono [of "dep_names (sl_list s)" "sl_init s" "dep_names (sl_list t)"]
    by (auto simp: subsystems_ok_def t dep_names_def)
qed

inductive subsystems_reachable :: "SubsystemsList \<Rightarrow> bool" where
  sub_new: "subsystems_reachable new_subsystems"
| sub_add: "subsystems_reachable s \<Longrightarrow> SubsystemsList_Add name deps s = Some t \<Longrightarrow> subsystems_reachable t"
| sub_init: "subsystems_reachable s \<Longrightarrow> SubsystemsList_InitAll init s = (b, calls, t) \<Longrightarrow> subsystems_reachable t"
| sub_destroy: "subsystems_reachable s \<Longrightarrow> SubsystemsList_DestroyAll s = (calls, t) \<Longrightarrow> subsystems_reachable t"
| sub_shutdown: "subsystems_reachable s \<Longrightarrow> SubsystemsList_ShutdownAll s = (calls, t) \<Longrightarrow> subsystems_reachable t"

lemma subsystems_reachable_ok: "subsystems_reachable s \<Longrightarrow> subsystems_ok s"
proof (induction rule: subsystems_reachable.induct)
  case sub_new
  show ?case by (simp add: subsystems_ok_def new_subsystems_def)
next
  case (sub_add s name deps t)
  then show ?case using Add_ok by blast
next
  case (sub_init s init b calls t)
  then show ?case using InitAll_spec by blast
next
  case (sub_destroy s calls t)
  then show ?case using stop_all_ok [OF sub_destroy.IH] by (simp add: SubsystemsList_DestroyAll_def)
next
  case (sub_shutdown s calls t)
  then show ?case using stop_all_ok [OF sub_shutdown.IH] by (simp add: SubsystemsList_ShutdownAll_def)
qed

text \<open>
  C28: start-up and shutdown respect the dependencies. Starting ends; it initializes no subsystem twice and
  none before everything it depends on is. When nothing fails, it initializes exactly the subsystems that
  can be started at all, those without a missing or circular dependency; otherwise it stops at the first
  that fails and records it, and the ones before it stay initialized. Stopping then destroys exactly the
  initialized ones, each before everything it depends on, and leaves none initialized.
\<close>

theorem subsystems_order_exact:
  assumes "subsystems_reachable s" and "SubsystemsList_InitAll init s = (b, calls, s')"
  shows "in_order (dep_names (sl_list s)) (rev calls @ sl_init s) \<and> distinct (rev calls @ sl_init s) \<and>
    (b \<longleftrightarrow> (\<forall>x \<in> set calls. init x = None)) \<and>
    (if b then set (rev calls @ sl_init s) = {x. startable (dep_names (sl_list s)) x} \<and> sl_init s' = rev calls @ sl_init s
     else calls \<noteq> [] \<and> sl_init s' = rev (butlast calls) @ sl_init s \<and> (\<forall>x \<in> set (butlast calls). init x = None) \<and>
       (\<exists>msg. init (last calls) = Some msg \<and> sl_fail s' = Some (last calls, msg))) \<and>
    (\<forall>n \<in> set (sl_list s'). ss_initialized n \<longleftrightarrow> ss_name n \<in> set (sl_init s')) \<and>
    fst (SubsystemsList_DestroyAll s') = sl_init s' \<and> (\<forall>n \<in> set (sl_list (snd (SubsystemsList_DestroyAll s'))). \<not> ss_initialized n)"
proof -
  note ok = subsystems_reachable_ok [OF assms(1)]
  note r = InitAll_spec [OF assms(2) ok]
  have order: "in_order (dep_names (sl_list s)) (rev calls @ sl_init s)" using r by blast
  have iff: "b \<longleftrightarrow> (\<forall>x \<in> set calls. init x = None)"
  proof (cases b)
    case False
    then have "calls \<noteq> []" "init (last calls) \<noteq> None" using r by auto
    then show ?thesis using False by (auto intro!: bexI [of _ "last calls"])
  qed (use r in auto)
  have all: "set (rev calls @ sl_init s) = {x. startable (dep_names (sl_list s)) x}" if b
  proof -
    have "subsystems_ok s'" "FindNextToInitialize (sl_list s') = None" "dep_names (sl_list s') = dep_names (sl_list s)" "sl_init s' = rev calls @ sl_init s"
      using r that by auto
    then show ?thesis using startable_started [of s'] in_order_startable [OF order] by auto
  qed
  have ok': "subsystems_ok s'" using r by blast
  have stop: "fst (SubsystemsList_DestroyAll s') = sl_init s'" "\<forall>n \<in> set (sl_list (snd (SubsystemsList_DestroyAll s'))). \<not> ss_initialized n"
    using stop_all_ok [OF ok'] by (simp_all add: SubsystemsList_DestroyAll_def) (simp add: stop_all_def)
  have inv: "\<forall>n \<in> set (sl_list s'). ss_initialized n \<longleftrightarrow> ss_name n \<in> set (sl_init s')" using ok' by (simp add: subsystems_ok_def)
  have "if b then set (rev calls @ sl_init s) = {x. startable (dep_names (sl_list s)) x} \<and> sl_init s' = rev calls @ sl_init s
     else calls \<noteq> [] \<and> sl_init s' = rev (butlast calls) @ sl_init s \<and> (\<forall>x \<in> set (butlast calls). init x = None) \<and>
       (\<exists>msg. init (last calls) = Some msg \<and> sl_fail s' = Some (last calls, msg))"
    using r all by (cases b) simp_all
  then show ?thesis using order in_order_distinct [OF order] iff stop inv by blast
qed

text \<open>An example: B depends on A, and C on a subsystem that is not there.\<close>

definition example_subsystems :: SubsystemsList where
  "example_subsystems = \<lparr>sl_list = [
      \<lparr>ss_name = ''C'', ss_deps = [''X''], ss_initialized = False\<rparr>,
      \<lparr>ss_name = ''B'', ss_deps = [''A''], ss_initialized = False\<rparr>,
      \<lparr>ss_name = ''A'', ss_deps = [], ss_initialized = False\<rparr>], sl_init = [], sl_fail = None\<rparr>"

lemma example_subsystems_reachable: "subsystems_reachable example_subsystems"
proof -
  define s1 where "s1 = new_subsystems\<lparr>sl_list := [\<lparr>ss_name = ''A'', ss_deps = [], ss_initialized = False\<rparr>]\<rparr>"
  define s2 where "s2 = s1\<lparr>sl_list := \<lparr>ss_name = ''B'', ss_deps = [''A''], ss_initialized = False\<rparr> # sl_list s1\<rparr>"
  have "SubsystemsList_Add ''A'' [] new_subsystems = Some s1" by (simp add: SubsystemsList_Add_def FindByName_def new_subsystems_def s1_def)
  moreover have "SubsystemsList_Add ''B'' [''A''] s1 = Some s2" by (simp add: SubsystemsList_Add_def FindByName_def s1_def s2_def)
  moreover have "SubsystemsList_Add ''C'' [''X''] s2 = Some example_subsystems"
    by (simp add: SubsystemsList_Add_def FindByName_def new_subsystems_def s1_def s2_def example_subsystems_def)
  ultimately show ?thesis using sub_new sub_add by blast
qed

lemma subsystems_order_exact_witness:
  "\<exists>t. SubsystemsList_InitAll (\<lambda>x. None) example_subsystems = (True, [''A'', ''B''], t) \<and> fst (SubsystemsList_DestroyAll t) = [''B'', ''A'']"
proof -
  obtain t where e: "SubsystemsList_InitAll (\<lambda>x. None) example_subsystems = (True, [''A'', ''B''], t)"
    by (simp add: example_subsystems_def SubsystemsList_InitAll.simps FindNextToInitialize_def dep_ready_def FindByName_def set_initialized_def)
  have "fst (SubsystemsList_DestroyAll t) = [''B'', ''A'']"
    using subsystems_order_exact [OF example_subsystems_reachable e] by (simp add: example_subsystems_def)
  then show ?thesis using e by blast
qed

end
