(* ===== verification/Spec2Isabelle.thy ===== *)
theory Spec2Isabelle
  imports RangeSet MemoryTracker VirtualRanges PhysicalMemory FlexibleMemory PooledMemory Semaphore PosixSem EventFlag EventQueue
    PthreadCond PthreadRwlock PthreadKeys LruCache StreamBuffer Subsystems
begin

text \<open>
  Prosperismo runs programs of a PlayStation 5 on a PC. It loads the guest's executable, runs its code
  natively, answers its calls of the system libraries (src/src/libs, src/src/kernel) and translates its
  GPU commands and shaders to Vulkan (src/src/graphics). This development models the parts on which the
  rest relies for its safety: who owns which byte of memory (the kernel's allocators and address-space
  map, the GPU caches' dirty tracking) and who waits for what (the kernel's synchronisation objects).

  The parts and how they interact.

  \<^item> GPU memory tracking (src/src/graphics/host_gpu). The buffer and texture caches ask the
    \<open>MemoryTracker\<close> (theory MemoryTracker) which bytes the CPU has changed since the last upload and which
    the GPU has since the last download. It keeps one \<open>RegionManager\<close> (RegionManager) for each region,
    with a bit array (BitArray, src/src/common/bitArray.h) of CPU-dirty and one of GPU-dirty pages. A change
    of these bits changes counters in the shared \<open>PageManager\<close> (PageManager), which sets the host
    protection of runs of pages, so that an access by the CPU faults into the tracker. \<open>RangeSet\<close> is the
    set of byte ranges the caches keep.
  \<^item> Kernel memory (src/src/kernel/memory.cpp). VirtualRanges is the map of the guest's address space with
    its queries; PhysicalMemory (direct memory), FlexibleMemory and PooledMemory allocate from three kinds
    of backing and map it. The last three keep a free list (FreeList) and a list of mappings
    (IntervalTable, IntervalSeq). Host mappings are a parameter of FlexibleMemory, with their contract as the
    hypothesis \<open>host_contract\<close>: mapping and unmapping (\<open>GuestAddressSpace\<close> in memoryAddressSpace.inc) change
    exactly the given span or nothing, and each may fail at any time. \<open>page_table_host\<close>, which never fails, and
    \<open>refusing_host\<close>, which does, satisfy it.
  \<^item> Synchronisation (src/src/kernel). Semaphore and PosixSem (semaphore.cpp), EventFlag (eventFlag.cpp) and
    EventQueue (eventQueue.cpp, with the event functions of renderer/sync.cpp and videoOut.cpp), over the
    error numbers in KernelErrors (src/src/libs/errno.h). PthreadMutex, PthreadCond, PthreadRwlock and
    PthreadKeys are the mutexes, condition variables, read-write locks, thread-specific values and
    \<open>pthread_once\<close> of pthread.cpp; PthreadCond composes the mutex with the condition variable.
  \<^item> Renderer (src/src/graphics/host_gpu/renderer). StreamBuffer is the ring through which data goes to the GPU
    (cache/streamBuffer.cpp), with the timeline it waits on (masterSemaphore.cpp, commandScheduler.cpp).
  \<^item> Common utilities (src/src/common). LruCache is the use order of the texture cache (lruCache.h), Subsystems
    the start-up and shutdown order of the emulator's parts (subsystems.cpp).
  \<^item> Shared: Prelude (64-bit sums that wrap, guards), StdMap (\<open>std::map\<close> as an association list), ByteStore
    (the interface of a container of byte ranges).

  Conventions. Definitions have the names of the code, with the class in front where the name alone would
  clash (\<open>PhysicalMemory_Alloc\<close>, \<open>Sema_Signal\<close>). A \<open>uint64_t\<close> address or size is a natural number below
  \<open>2 ^ 64\<close>; \<open>add64\<close> and \<open>sub64\<close> wrap, a plain sum stands where the code has excluded the wrap. Bit patterns
  are words. \<open>EXIT\<close>, a failed assertion and undefined behaviour are None; an error code is a value. An
  operation that holds a mutex is one function of the state; one that sleeps is cut at its sleeps into a
  step that starts it and a step for every turn after a wake-up, and reachability is by rule induction
  over any interleaving of such steps of any number of threads. Recursion follows the code's loops and
  always terminates: structurally, or by a measure (the rest of a span in VirtualRanges, PhysicalMemory and
  PooledMemory, the room left in the buffer in EventQueue), so no fuel is needed. Loops that wait for other
  threads are steps that may be refused (\<open>Spin\<close>, the destructors' conditions); that they end is proved.

  What the lemmas show.

  \<^item> RangeSet, BitArray: every operation is the set operation on bytes or bits; lists stay sorted, disjoint
    and merged (\<open>ivs_ok\<close>). PageManager: counters move exactly for the touched pages and the protection of
    every page is the one its counters demand (\<open>host_mode\<close>). RegionManager and MemoryTracker: the invariant
    \<open>mt_good\<close> (no page dirty on both sides, protection as the dirty bits demand), kept by every history of
    operations (\<open>tracker_history_safe\<close>), and for each operation what it reports and changes.
  \<^item> VirtualRanges: refinement of the sorted, merged list by the view that gives each byte its attributes,
    for any sequence of operations (\<open>ReleaseReserved\<close> and \<open>ConsumeReserved\<close>, which look at how the ranges
    are cut, are not among them). PhysicalMemory, FlexibleMemory, PooledMemory: free and allocated bytes
    partition the memory in every reachable state, no byte of backing has two users, the totals are exact;
    allocation is first fit; map, unmap, release and protect change exactly their span; a failed request
    changes nothing (a flexible mapping whose rollback the host refuses is an exit, and nothing else is); saving and restoring a span is the identity.
  \<^item> Semaphore: no lost wake-up, conservation of permits, a granted waiter returns, deletion ends, for any
    interleaving. PosixSem: the count stays in range and agrees with the guest's copy. EventFlag: waits,
    cancellation, registry of names with its references. EventQueue: which notifications a collection delivers
    and keeps, handles, timers.
  \<^item> PthreadCond, PthreadRwlock: the depths that the threads' calls add up to (ghost maps) are what the
    objects store, so mutual exclusion and writer exclusion hold under any interleaving; a thread is in the
    queue exactly while it waits unwoken; who gets a lock and when (waiting writers hold back new readers, not
    new writers). The 32-bit reader counters and the 64-bit
    broadcast counter are kept below their limits by guards of the steps. PthreadKeys: the table is a map;
    destructor passes end; the routine of \<open>pthread_once\<close> runs once.
  \<^item> StreamBuffer: with a ghost map of the last tick that uses each byte, and for any history, a mapping is of
    bytes the GPU has finished with, and one that may not wait fails only for a tick not yet reached; of the
    scheduler only its ticks are modelled (not \<open>CheckActive\<close>, the state of the recording, and the priority
    operations that a download buffer waits for). LruCache: the pointers represent the list of live entries, sorted by last use, under any history.
    Subsystems: nothing starts before or stops after what it depends on.

  Interfaces as locales: \<open>byte_pool\<close> and \<open>byte_set\<close> (ByteStore), interpreted for the range set and the free
  list; \<open>piece_edit\<close> (IntervalTable), interpreted for the unmap, protect and release functions of the three
  allocators; \<open>event_source\<close> and \<open>queued_source\<close> (EventQueue), the contract of the trigger and reset
  functions, interpreted for user, AMPR, end-of-pipe and video-out events.

  Not modelled. The transactions of memory.cpp that combine the allocators with the host's page tables, and
  the host back ends: system calls. The threads themselves (creation, join, stacks, attributes, signals) are
  the host's. The command processor, the tiler and the AGC library are not modelled yet. The shader recompiler needs the
  semantics of the GPU's instructions and of SPIR-V, the renderer those of Vulkan: neither is in the
  repository. Loader, file system, network, audio, video, user interface and most libraries are input and
  output over the host, third-party code or symbol tables. Logging, profiling and the debug-only validators
  of the tracker are left out, as are the contents of memory that an upload or download moves.
\<close>

end
